(* ===== verification/Prelude.thy ===== *)
theory Prelude
  imports Main "HOL-Library.Word"
begin

text \<open>
  Shared vocabulary of the development: the machine types of the Rust sources, the outcome of a
  computation that may return an error value or panic, slice and index access with Rust's bounds
  checks, saturating subtraction, and the big-endian integer codecs that every wire format of the
  repository uses.  The lemmas here are the ones more than one component needs.
\<close>

unbundle bit_operations_syntax

section \<open>Machine types\<close>

type_synonym u8 = "8 word"
type_synonym u16 = "16 word"
type_synonym u32 = "32 word"
type_synonym u64 = "64 word"
type_synonym bytes = "8 word list"

named_theorems wire_simps \<open>equations that evaluate byte-level codecs\<close>

section \<open>Outcomes: value, error value, or panic\<close>

text \<open>
  \<open>Ok v\<close> is a normal return, \<open>Err e\<close> the \<open>Err\<close> of a Rust \<open>Result\<close>, and \<open>Panic\<close> an
  out-of-range index or slice (the release profile aborts on it).  A function that cannot return an
  error has error type \<open>unit\<close>.
\<close>

datatype ('a, 'e) outcome = Ok 'a | Err 'e | Panic

primrec obind :: "('a, 'e) outcome \<Rightarrow> ('a \<Rightarrow> ('b, 'e) outcome) \<Rightarrow> ('b, 'e) outcome" where
  "obind (Ok v) f = f v"
| "obind (Err e) f = Err e"
| "obind Panic f = Panic"

lemma obind_cong [fundef_cong]:
  "m = m' \<Longrightarrow> (\<And>v. m' = Ok v \<Longrightarrow> f v = f' v) \<Longrightarrow> obind m f = obind m' f'"
  by (cases m') auto

lemma obind_eq_Ok: "obind m f = Ok w \<longleftrightarrow> (\<exists>v. m = Ok v \<and> f v = Ok w)"
  by (cases m) auto

lemma obind_eq_Panic: "obind m f = Panic \<longleftrightarrow> m = Panic \<or> (\<exists>v. m = Ok v \<and> f v = Panic)"
  by (cases m) auto

lemma obind_eq_Err: "obind m f = Err e \<longleftrightarrow> m = Err e \<or> (\<exists>v. m = Ok v \<and> f v = Err e)"
  by (cases m) auto

lemma obind_assoc: "obind (obind m f) g = obind m (\<lambda>v. obind (f v) g)"
  by (cases m) auto

lemma obind_no_panic:
  "m \<noteq> Panic \<Longrightarrow> (\<And>v. m = Ok v \<Longrightarrow> f v \<noteq> Panic) \<Longrightarrow> obind m f \<noteq> Panic"
  by (auto simp: obind_eq_Panic)

definition no_panic :: "('a, 'e) outcome \<Rightarrow> bool" where
  "no_panic m \<longleftrightarrow> m \<noteq> Panic"

lemma no_panic_simps [simp]: "no_panic (Ok v)" "no_panic (Err e)" "\<not> no_panic Panic"
  by (simp_all add: no_panic_def)

lemma no_panic_obind [intro]:
  "no_panic m \<Longrightarrow> (\<And>v. m = Ok v \<Longrightarrow> no_panic (f v)) \<Longrightarrow> no_panic (obind m f)"
  by (simp add: no_panic_def obind_no_panic)

lemma obind_Ok_right [simp]: "obind m Ok = m"
  by (cases m) auto

text \<open>\<open>returns m\<close>: \<open>m\<close> is a normal return, neither an error nor a panic.\<close>

definition returns :: "('a, 'e) outcome \<Rightarrow> bool" where
  "returns m \<longleftrightarrow> (\<exists>v. m = Ok v)"

lemma returns_simps [simp]: "returns (Ok v)" "\<not> returns (Err e)" "\<not> returns Panic"
  by (simp_all add: returns_def)

lemma returns_obind [intro]:
  "returns m \<Longrightarrow> (\<And>v. m = Ok v \<Longrightarrow> returns (f v)) \<Longrightarrow> returns (obind m f)"
  by (auto simp: returns_def)

lemma returnsE: "returns m \<Longrightarrow> (\<And>v. m = Ok v \<Longrightarrow> P) \<Longrightarrow> P"
  by (auto simp: returns_def)

lemma returns_if [intro]:
  "(b \<Longrightarrow> returns m) \<Longrightarrow> (\<not> b \<Longrightarrow> returns m') \<Longrightarrow> returns (if b then m else m')"
  by simp

lemma returns_case_option [intro]:
  "(x = None \<Longrightarrow> returns a) \<Longrightarrow> (\<And>v. x = Some v \<Longrightarrow> returns (f v)) \<Longrightarrow>
     returns (case x of None \<Rightarrow> a | Some v \<Rightarrow> f v)"
  by (cases x) auto

primrec omap :: "('a \<Rightarrow> 'b) \<Rightarrow> ('a, 'e) outcome \<Rightarrow> ('b, 'e) outcome" where
  "omap f (Ok v) = Ok (f v)"
| "omap f (Err e) = Err e"
| "omap f Panic = Panic"

lemma omap_eq_Ok: "omap f m = Ok v \<longleftrightarrow> (\<exists>x. m = Ok x \<and> f x = v)"
  by (cases m) simp_all

lemma omap_obind: "omap f (obind m g) = obind m (\<lambda>v. omap f (g v))"
  by (cases m) auto

lemma obind_omap: "obind (omap f m) g = obind m (\<lambda>v. g (f v))"
  by (cases m) auto

section \<open>Indexing and slicing\<close>

definition idx :: "'a list \<Rightarrow> nat \<Rightarrow> ('a, 'e) outcome" where
  "idx xs i = (if i < length xs then Ok (xs ! i) else Panic)"

definition slice :: "'a list \<Rightarrow> nat \<Rightarrow> nat \<Rightarrow> ('a list, 'e) outcome" where
  "slice xs a b = (if a \<le> b \<and> b \<le> length xs then Ok (take (b - a) (drop a xs)) else Panic)"

lemma idx_Ok [simp]: "i < length xs \<Longrightarrow> idx xs i = Ok (xs ! i)"
  by (simp add: idx_def)

lemma idx_eq_Ok: "idx xs i = Ok v \<longleftrightarrow> i < length xs \<and> v = xs ! i"
  by (auto simp: idx_def)

lemma slice_Ok [simp]: "a \<le> b \<Longrightarrow> b \<le> length xs \<Longrightarrow> slice xs a b = Ok (take (b - a) (drop a xs))"
  by (simp add: slice_def)

lemma slice_all [simp]: "a \<le> length xs \<Longrightarrow> slice xs a (length xs) = Ok (drop a xs)"
  by (simp add: slice_def)

lemma no_panic_idx [intro]: "i < length xs \<Longrightarrow> no_panic (idx xs i)"
  by simp

lemma no_panic_slice [intro]: "a \<le> b \<Longrightarrow> b \<le> length xs \<Longrightarrow> no_panic (slice xs a b)"
  by simp

lemma no_panic_if [intro]:
  "(b \<Longrightarrow> no_panic m) \<Longrightarrow> (\<not> b \<Longrightarrow> no_panic m') \<Longrightarrow> no_panic (if b then m else m')"
  by simp

lemma no_panic_Let [intro]: "no_panic (f a) \<Longrightarrow> no_panic (Let a f)"
  by simp

lemma returns_idx [intro]: "i < length xs \<Longrightarrow> returns (idx xs i)"
  by simp

lemma returns_slice [intro]: "a \<le> b \<Longrightarrow> b \<le> length xs \<Longrightarrow> returns (slice xs a b)"
  by simp

lemma slice_eq_Ok:
  "slice xs a b = Ok ys \<longleftrightarrow> a \<le> b \<and> b \<le> length xs \<and> ys = take (b - a) (drop a xs)"
  by (auto simp: slice_def)

section \<open>Saturating arithmetic\<close>

definition sat_sub :: "'a::len word \<Rightarrow> 'a word \<Rightarrow> 'a word" where
  "sat_sub a b = (if a < b then 0 else a - b)"

lemma unat_sat_sub: "unat (sat_sub a b) = unat a - unat b"
  by (auto simp: sat_sub_def unat_sub_if_size word_less_nat_alt not_less)

lemma sat_sub_self [simp]: "sat_sub a a = 0"
  by (simp add: sat_sub_def)

section \<open>Bits of words\<close>

lemma word_and_one_cases: "(w AND 1 :: 'a::len word) = of_bool (bit w 0)"
  by (rule bit_word_eqI) (auto simp: bit_simps)

lemma drop_bit_and_one: "(drop_bit n w AND 1 :: 'a::len word) = of_bool (bit w n)"
  by (simp add: word_and_one_cases bit_simps)

lemma unat_and_mask_less: "unat (w AND mask n :: 'a::len word) < 2 ^ n"
  by (simp add: unsigned_take_bit_eq flip: take_bit_eq_mask)

lemma unat_of_nat_id: "n < 2 ^ LENGTH('a) \<Longrightarrow> unat (of_nat n :: 'a::len word) = n"
  by (simp add: unsigned_of_nat take_bit_eq_mod)

section \<open>Big-endian integers\<close>

definition be16 :: "u8 \<Rightarrow> u8 \<Rightarrow> u16" where
  "be16 a b = push_bit 8 (ucast a) OR ucast b"

definition be16_bytes :: "u16 \<Rightarrow> bytes" where
  "be16_bytes w = [ucast (drop_bit 8 w), ucast w]"

definition be32 :: "u8 \<Rightarrow> u8 \<Rightarrow> u8 \<Rightarrow> u8 \<Rightarrow> u32" where
  "be32 a b c d = push_bit 24 (ucast a) OR push_bit 16 (ucast b) OR push_bit 8 (ucast c) OR ucast d"

definition be32_bytes :: "u32 \<Rightarrow> bytes" where
  "be32_bytes w = [ucast (drop_bit 24 w), ucast (drop_bit 16 w), ucast (drop_bit 8 w), ucast w]"

lemma be16_of_bytes [simp]: "be16 (ucast (drop_bit 8 w)) (ucast w) = w"
  by (rule bit_word_eqI) (auto simp: be16_def bit_simps)

lemma be32_of_bytes [simp]:
  "be32 (ucast (drop_bit 24 w)) (ucast (drop_bit 16 w)) (ucast (drop_bit 8 w)) (ucast w) = w"
proof (rule bit_word_eqI)
  fix n assume "n < LENGTH(32)"
  then consider "n < 8" | "8 \<le> n \<and> n < 16" | "16 \<le> n \<and> n < 24" | "24 \<le> n \<and> n < 32"
    by fastforce
  then show "bit (be32 (ucast (drop_bit 24 w)) (ucast (drop_bit 16 w)) (ucast (drop_bit 8 w))
      (ucast w)) n = bit w n"
    by cases (auto simp: be32_def bit_simps)
qed

lemma be32_inj:
  assumes "be32 a b c d = be32 a' b' c' d'"
  shows "a = a' \<and> b = b' \<and> c = c' \<and> d = d'"
proof -
  have split: "ucast (drop_bit 24 (be32 a b c d)) = a" "ucast (drop_bit 16 (be32 a b c d)) = b"
    "ucast (drop_bit 8 (be32 a b c d)) = c" "ucast (be32 a b c d) = d" for a b c d
    by (rule bit_word_eqI, auto simp: be32_def bit_simps dest: bit_imp_le_length)+
  show ?thesis using split [of a b c d] split [of a' b' c' d'] assms by simp
qed

lemma unat_be16: "unat (be16 a b) = 256 * unat a + unat b"
proof -
  have "push_bit 8 (ucast a) AND (ucast b :: u16) = 0"
    by (rule bit_word_eqI) (auto simp: bit_simps dest: bit_imp_le_length)
  then have "be16 a b = push_bit 8 (ucast a) + (ucast b :: u16)"
    by (simp add: be16_def disjunctive_add_eq_or)
  moreover have "unat (push_bit 8 (ucast a) :: u16) = 256 * unat a"
    using unsigned_less [of a, where 'a = nat]
    by (subst unsigned_push_bit_eq) (simp add: push_bit_eq_mult take_bit_eq_mod unsigned_ucast_eq)
  moreover have "unat a < 256" "unat b < 256"
    using unsigned_less [of a, where 'a = nat] unsigned_less [of b, where 'a = nat] by simp_all
  ultimately show ?thesis
    by (simp add: unat_word_ariths unsigned_ucast_eq take_bit_eq_mod)
qed

lemma be16_bytes_split: "be16_bytes w = [a, b] \<Longrightarrow> be16 a b = w"
  by (auto simp: be16_bytes_def)

lemma length_be16_bytes [simp]: "length (be16_bytes w) = 2"
  by (simp add: be16_bytes_def)

lemma length_be32_bytes [simp]: "length (be32_bytes w) = 4"
  by (simp add: be32_bytes_def)

section \<open>Invariants of step relations\<close>

text \<open>Threads of a program, a list of program counters, that hold different values of a partial attribute.\<close>

definition apart :: "('a \<Rightarrow> 'b option) \<Rightarrow> 'a list \<Rightarrow> bool" where
  "apart f xs \<longleftrightarrow> (\<forall>n < length xs. \<forall>m < length xs. \<forall>t. f (xs ! n) = Some t \<longrightarrow> f (xs ! m) = Some t \<longrightarrow> n = m)"

lemma apartD: "apart f xs \<Longrightarrow> n < length xs \<Longrightarrow> m < length xs \<Longrightarrow> f (xs ! n) = Some t \<Longrightarrow> f (xs ! m) = Some t \<Longrightarrow> n = m"
  unfolding apart_def by blast

lemma apart_append:
  assumes "apart f xs" and "\<And>t n. f x = Some t \<Longrightarrow> n < length xs \<Longrightarrow> f (xs ! n) \<noteq> Some t"
  shows "apart f (xs @ [x])"
  unfolding apart_def
proof (intro allI impI)
  fix n m t assume nm: "n < length (xs @ [x])" "m < length (xs @ [x])" "f ((xs @ [x]) ! n) = Some t" "f ((xs @ [x]) ! m) = Some t"
  then have "n = length xs \<longleftrightarrow> m = length xs"
    using assms(2) by (auto simp: nth_append less_Suc_eq)
  then show "n = m" using nm apartD [OF assms(1), of n m t] by (auto simp: nth_append less_Suc_eq)
qed

lemma apart_update_new:
  assumes "apart f xs" and "n < length xs"
    and "f y = None \<or> f y = f (xs ! n) \<or> (\<forall>m < length xs. f (xs ! m) \<noteq> f y)"
  shows "apart f (xs[n := y])"
  unfolding apart_def
proof (intro allI impI)
  fix a b t assume a: "a < length (xs[n := y])" "b < length (xs[n := y])" "f (xs[n := y] ! a) = Some t" "f (xs[n := y] ! b) = Some t"
  show "a = b"
  proof (cases "\<forall>m < length xs. f (xs ! m) \<noteq> f y")
    case True
    then have "a = n \<longleftrightarrow> b = n" using a by (auto simp: nth_list_update split: if_splits)
    then show ?thesis using a apartD [OF assms(1), of a b t] by (auto simp: nth_list_update split: if_splits)
  next
    case False
    then have "f (xs ! a) = Some t" "f (xs ! b) = Some t"
      using assms(2,3) a by (auto simp: nth_list_update split: if_splits)
    then show ?thesis using a(1,2) apartD [OF assms(1), of a b t] by simp
  qed
qed

lemma apart_update:
  "apart f xs \<Longrightarrow> n < length xs \<Longrightarrow> f y = None \<or> f y = f (xs ! n) \<Longrightarrow> apart f (xs[n := y])"
  by (rule apart_update_new) auto

text \<open>
  The contract between a component's steps and a state property that all of them keep; the property then
  holds after any sequence of steps.
\<close>

locale step_invariant =
  fixes start :: 's
    and step :: "'s \<Rightarrow> 's \<Rightarrow> bool"
    and inv :: "'s \<Rightarrow> bool"
  assumes inv_start: "inv start"
    and inv_step: "inv s \<Longrightarrow> step s t \<Longrightarrow> inv t"
begin

lemma inv_steps: "inv s \<Longrightarrow> step\<^sup>*\<^sup>* s t \<Longrightarrow> inv t"
  by (erule rtranclp_induct) (auto intro: inv_step)

lemma inv_reachable: "step\<^sup>*\<^sup>* start s \<Longrightarrow> inv s"
  using inv_steps inv_start by blast

end

end
