(* ===== verification/BitReader.thy ===== *)
theory BitReader
  imports Prelude
begin

text \<open>
  The MSB-first bit reader of \<open>lvqr-codec/src/bit_reader.rs\<close> and the error type of
  \<open>lvqr-codec/src/error.rs\<close>.  A reader operation takes the reader and returns the value read
  together with the advanced reader; after an error the caller drops the reader (every caller
  propagates with \<open>?\<close>), so the error outcome carries no reader.

  The abstract view of a reader is the list of bits that are still ahead of the cursor
  (\<open>rd_rest\<close>).  The lemmas show that reading \<open>n\<close> bits returns their big-endian value, that the
  exp-Golomb decoders invert the exp-Golomb code of the H.26x specifications, and that no operation
  panics on any input (locale \<open>bit_decoder\<close>, which sequencing preserves).
\<close>

section \<open>Errors and the reader\<close>

datatype codec_error =
    EndOfStream nat nat
  | GolombOverflow
  | InvalidNalType u8
  | Unsupported string
  | MalformedSps string
  | MalformedAsc string
  | Scte35Malformed string
  | Scte35BadCrc u32 u32

record bit_reader =
  rd_bytes :: bytes
  rd_pos :: nat

type_synonym 'a decoder = "bit_reader \<Rightarrow> ('a \<times> bit_reader, codec_error) outcome"

definition reader_new :: "bytes \<Rightarrow> bit_reader" where
  "reader_new bs = \<lparr>rd_bytes = bs, rd_pos = 0\<rparr>"

definition bits_remaining :: "bit_reader \<Rightarrow> nat" where
  "bits_remaining r = length (rd_bytes r) * 8 - rd_pos r"

definition read_bit :: "u8 decoder" where
  "read_bit r =
     (if bits_remaining r = 0 then Err (EndOfStream 1 0)
      else obind (idx (rd_bytes r) (rd_pos r div 8)) (\<lambda>byte.
        let shift = 7 - rd_pos r mod 8 in
        Ok (drop_bit shift byte AND 1, r\<lparr>rd_pos := rd_pos r + 1\<rparr>)))"

fun read_bits_loop :: "nat \<Rightarrow> u32 \<Rightarrow> u32 decoder" where
  "read_bits_loop 0 value r = Ok (value, r)"
| "read_bits_loop (Suc k) value r =
     obind (idx (rd_bytes r) (rd_pos r div 8)) (\<lambda>byte.
       let shift = 7 - rd_pos r mod 8 in
       read_bits_loop k (push_bit 1 value OR (ucast (drop_bit shift byte) AND 1))
         (r\<lparr>rd_pos := rd_pos r + 1\<rparr>))"

definition read_bits :: "nat \<Rightarrow> u32 decoder" where
  "read_bits n r =
     (if n = 0 then Ok (0, r)
      else if n > 32 then Err GolombOverflow
      else if bits_remaining r < n then Err (EndOfStream n (bits_remaining r))
      else read_bits_loop n 0 r)"

definition skip_bits :: "nat \<Rightarrow> unit decoder" where
  "skip_bits n r =
     (if bits_remaining r < n then Err (EndOfStream n (bits_remaining r))
      else Ok ((), r\<lparr>rd_pos := rd_pos r + n\<rparr>))"

text \<open>The \<open>while self.read_bit()? == 0\<close> loop of \<open>read_ue_v\<close>; it stops after at most 33 reads.\<close>

function ue_zeros :: "nat \<Rightarrow> nat decoder" where
  "ue_zeros leading_zeros r =
     obind (read_bit r) (\<lambda>(b, r').
       if b = 0 then
         (if leading_zeros + 1 > 32 then Err GolombOverflow else ue_zeros (leading_zeros + 1) r')
       else Ok (leading_zeros, r'))"
  by pat_completeness auto
termination by (relation "measure (\<lambda>(lz, r). 33 - lz)") auto

declare ue_zeros.simps [simp del]

definition read_ue_v :: "u32 decoder" where
  "read_ue_v r =
     obind (ue_zeros 0 r) (\<lambda>(leading_zeros, r1).
       if leading_zeros = 0 then Ok (0, r1)
       else obind (read_bits leading_zeros r1) (\<lambda>(suffix, r2).
         let base = push_bit leading_zeros (1 :: u64) - 1;
             total = base + ucast suffix
         in if total > 0xFFFFFFFF then Err GolombOverflow else Ok (ucast total, r2)))"

text \<open>
  \<open>read_se_v\<close> returns an \<open>i32\<close>; the cast \<open>magnitude as i32\<close> from \<open>i64\<close> keeps the low 32 bits and
  reads them as two's complement.
\<close>

definition read_se_v :: "int decoder" where
  "read_se_v r =
     obind (read_ue_v r) (\<lambda>(code, r').
       if code = 0 then Ok (0, r')
       else
         let magnitude = uint (code div 2 + code mod 2) in
         if code AND 1 = 1 then Ok (signed_take_bit 31 magnitude, r')
         else Ok (- signed_take_bit 31 magnitude, r'))"

text \<open>The emulation-prevention filter: the index loop, reading the input from position \<open>i\<close> on.\<close>

fun rbsp_from_ebsp :: "bytes \<Rightarrow> bytes" where
  "rbsp_from_ebsp (a # b # c # rest) =
     (if a = 0 \<and> b = 0 \<and> c = 3 then 0 # 0 # rbsp_from_ebsp rest
      else a # rbsp_from_ebsp (b # c # rest))"
| "rbsp_from_ebsp xs = xs"

section \<open>Sequencing\<close>

definition rd_return :: "'a \<Rightarrow> 'a decoder" where
  "rd_return v r = Ok (v, r)"

definition rd_fail :: "codec_error \<Rightarrow> 'a decoder" where
  "rd_fail e r = Err e"

definition rd_bind :: "'a decoder \<Rightarrow> ('a \<Rightarrow> 'b decoder) \<Rightarrow> 'b decoder" where
  "rd_bind m f r = obind (m r) (\<lambda>(v, r'). f v r')"

section \<open>The abstract view: the bits ahead of the cursor\<close>

definition byte_bits :: "u8 \<Rightarrow> bool list" where
  "byte_bits b = map (\<lambda>i. bit b (7 - i)) [0..<8]"

definition bit_stream :: "bytes \<Rightarrow> bool list" where
  "bit_stream bs = concat (map byte_bits bs)"

definition rd_ok :: "bit_reader \<Rightarrow> bool" where
  "rd_ok r \<longleftrightarrow> rd_pos r \<le> 8 * length (rd_bytes r)"

definition rd_rest :: "bit_reader \<Rightarrow> bool list" where
  "rd_rest r = drop (rd_pos r) (bit_stream (rd_bytes r))"

definition rd_advance :: "nat \<Rightarrow> bit_reader \<Rightarrow> bit_reader" where
  "rd_advance n r = r\<lparr>rd_pos := rd_pos r + n\<rparr>"

fun bits_val :: "bool list \<Rightarrow> nat" where
  "bits_val [] = 0"
| "bits_val (b # bs) = of_bool b * 2 ^ length bs + bits_val bs"

definition nat_bits :: "nat \<Rightarrow> nat \<Rightarrow> bool list" where
  "nat_bits w x = map (\<lambda>i. bit x (w - 1 - i)) [0..<w]"

lemma length_byte_bits [simp]: "length (byte_bits b) = 8"
  by (simp add: byte_bits_def)

lemma length_bit_stream [simp]: "length (bit_stream bs) = 8 * length bs"
  by (induction bs) (simp_all add: bit_stream_def)

lemma bit_stream_nth:
  "p < 8 * length bs \<Longrightarrow> bit_stream bs ! p = bit (bs ! (p div 8)) (7 - p mod 8)"
proof (induction bs arbitrary: p)
  case Nil
  then show ?case by simp
next
  case (Cons b bs)
  show ?case
  proof (cases "p < 8")
    case True
    then show ?thesis by (simp add: bit_stream_def nth_append byte_bits_def)
  next
    case False
    then obtain q where q: "p = 8 + q" by (metis le_Suc_ex not_less)
    with Cons.prems have "bit_stream bs ! q = bit (bs ! (q div 8)) (7 - q mod 8)"
      by (intro Cons.IH) simp
    moreover have "(8 + q) div 8 = Suc (q div 8)" by presburger
    ultimately show ?thesis using q by (simp add: bit_stream_def nth_append)
  qed
qed

lemma rd_ok_new [simp]: "rd_ok (reader_new bs)"
  by (simp add: rd_ok_def reader_new_def)

lemma rd_rest_new [simp]: "rd_rest (reader_new bs) = bit_stream bs"
  by (simp add: rd_rest_def reader_new_def)

lemma length_rd_rest: "length (rd_rest r) = bits_remaining r"
  by (simp add: rd_rest_def bits_remaining_def mult.commute)

lemma rd_rest_advance: "rd_rest (rd_advance n r) = drop n (rd_rest r)"
  by (simp add: rd_rest_def rd_advance_def add.commute)

lemma rd_ok_advance: "rd_ok r \<Longrightarrow> n \<le> length (rd_rest r) \<Longrightarrow> rd_ok (rd_advance n r)"
  by (simp add: rd_ok_def rd_rest_def rd_advance_def)

lemma rd_advance_advance [simp]: "rd_advance m (rd_advance n r) = rd_advance (n + m) r"
  by (simp add: rd_advance_def add.assoc)

lemma rd_advance_0 [simp]: "rd_advance 0 r = r"
  by (simp add: rd_advance_def)

lemma rd_bytes_advance [simp]: "rd_bytes (rd_advance n r) = rd_bytes r"
  by (simp add: rd_advance_def)

lemma rd_pos_advance [simp]: "rd_pos (rd_advance n r) = rd_pos r + n"
  by (simp add: rd_advance_def)

lemma bits_val_less: "bits_val bs < 2 ^ length bs"
  by (induction bs) auto

lemma bits_val_append: "bits_val (xs @ ys) = bits_val xs * 2 ^ length ys + bits_val ys"
  by (induction xs) (simp_all add: power_add algebra_simps)

lemma length_nat_bits [simp]: "length (nat_bits w x) = w"
  by (simp add: nat_bits_def)

lemma nat_bits_Suc: "nat_bits (Suc w) x = bit x w # nat_bits w x"
proof -
  have "[0..<Suc w] = 0 # map Suc [0..<w]"
    by (simp add: map_Suc_upt upt_conv_Cons del: upt_Suc)
  then show ?thesis by (simp add: nat_bits_def o_def del: upt_Suc)
qed

lemma bits_val_nat_bits: "bits_val (nat_bits w x) = x mod 2 ^ w"
proof (induction w)
  case 0
  then show ?case by (simp add: nat_bits_def)
next
  case (Suc w)
  have "x mod 2 ^ Suc w = of_bool (bit x w) * 2 ^ w + x mod 2 ^ w"
    using take_bit_Suc_from_most [of w x] by (simp add: take_bit_eq_mod del: power_Suc)
  with Suc show ?case by (simp add: nat_bits_Suc)
qed

section \<open>What each operation reads\<close>

lemma rd_rest_Cons:
  assumes "rd_rest r = b # bs"
  shows "rd_pos r < 8 * length (rd_bytes r)"
    and "b = bit (rd_bytes r ! (rd_pos r div 8)) (7 - rd_pos r mod 8)"
    and "bs = rd_rest (rd_advance 1 r)"
    and "bits_remaining r = Suc (length bs)"
proof -
  have len: "length (rd_rest r) = Suc (length bs)" using assms by simp
  then show lt: "rd_pos r < 8 * length (rd_bytes r)" by (simp add: rd_rest_def)
  have "rd_rest r ! 0 = bit_stream (rd_bytes r) ! rd_pos r"
    using lt by (simp add: rd_rest_def)
  with assms lt show "b = bit (rd_bytes r ! (rd_pos r div 8)) (7 - rd_pos r mod 8)"
    by (simp add: bit_stream_nth)
  have "drop 1 (rd_rest r) = rd_rest (rd_advance 1 r)" by (simp only: rd_rest_advance)
  with assms show "bs = rd_rest (rd_advance 1 r)" by simp
  show "bits_remaining r = Suc (length bs)" using len by (simp add: length_rd_rest)
qed

lemma pos_div_less: "p < 8 * n \<Longrightarrow> p div 8 < (n :: nat)"
  by (simp add: less_mult_imp_div_less mult.commute)

lemma read_bit_eq:
  "read_bit r = (case rd_rest r of [] \<Rightarrow> Err (EndOfStream 1 0)
     | b # bs \<Rightarrow> Ok (of_bool b, rd_advance 1 r))"
proof (cases "rd_rest r")
  case Nil
  then show ?thesis by (simp add: read_bit_def flip: length_rd_rest)
next
  case (Cons b bs)
  then show ?thesis
    using rd_rest_Cons [OF Cons]
    by (simp add: read_bit_def pos_div_less drop_bit_and_one rd_advance_def)
qed

lemma push_bit_or_of_bool:
  "push_bit 1 (of_nat acc) OR of_bool b = (of_nat (2 * acc + of_bool b) :: 'a::len word)"
proof -
  have "push_bit 1 (of_nat acc) AND (of_bool b :: 'a word) = 0"
    by (rule bit_word_eqI) (auto simp: bit_simps bit_0)
  then show ?thesis
    using disjunctive_add_eq_or [of "push_bit 1 (of_nat acc :: 'a word)" "of_bool b"]
    by (simp add: push_bit_eq_mult mult.commute)
qed

lemma ucast_bit_and_one: "(ucast (drop_bit n (w :: u8)) AND 1 :: u32) = of_bool (bit w n)"
  by (rule bit_word_eqI) (auto simp: bit_simps dest: bit_imp_le_length)

lemma read_bits_loop_eq:
  "k \<le> length (rd_rest r) \<Longrightarrow> read_bits_loop k (of_nat acc) r =
     Ok (of_nat (acc * 2 ^ k + bits_val (take k (rd_rest r))), rd_advance k r)"
proof (induction k arbitrary: acc r)
  case 0
  then show ?case by simp
next
  case (Suc k)
  then obtain b bs where bs: "rd_rest r = b # bs" by (cases "rd_rest r") auto
  note f = rd_rest_Cons [OF bs]
  have "k \<le> length (rd_rest (rd_advance 1 r))" using Suc.prems bs f(3) by simp
  from Suc.IH [OF this, of "2 * acc + of_bool b"]
  moreover have "read_bits_loop (Suc k) (of_nat acc) r =
      read_bits_loop k (of_nat (2 * acc + of_bool b)) (rd_advance 1 r)"
    by (simp only: read_bits_loop.simps idx_Ok [OF pos_div_less [OF f(1)]] obind.simps Let_def
      ucast_bit_and_one f(2) [symmetric] push_bit_or_of_bool rd_advance_def)
  ultimately show ?case using bs f(3) Suc.prems by (simp add: algebra_simps del: of_nat_add)
qed

lemma read_bits_eq:
  assumes "n \<le> 32"
  shows "read_bits n r =
    (if length (rd_rest r) < n then Err (EndOfStream n (length (rd_rest r)))
     else Ok (of_nat (bits_val (take n (rd_rest r))), rd_advance n r))"
  using assms read_bits_loop_eq [of n r 0]
  by (auto simp: read_bits_def simp flip: length_rd_rest)

lemma skip_bits_eq:
  "skip_bits n r =
    (if length (rd_rest r) < n then Err (EndOfStream n (length (rd_rest r)))
     else Ok ((), rd_advance n r))"
  by (simp add: skip_bits_def rd_advance_def flip: length_rd_rest)

lemma read_bits_too_wide: "n > 32 \<Longrightarrow> read_bits n r = Err GolombOverflow"
  by (simp add: read_bits_def)

section \<open>The decoder contract\<close>

text \<open>
  What a parser built from the reader relies on: on a reader whose cursor is inside the input the
  operation does not panic, and a successful return only moves the cursor, forward and not past the
  end.  Sequencing (\<open>rd_bind\<close>) keeps the contract, so every parser of the crate has it.
\<close>

named_theorems decoder_intros \<open>rules that show a parser keeps the decoder contract\<close>

locale bit_decoder =
  fixes dec :: "'a decoder"
  assumes safe: "rd_ok r \<Longrightarrow> no_panic (dec r)"
    and consumes: "rd_ok r \<Longrightarrow> dec r = Ok (v, r') \<Longrightarrow>
      \<exists>n \<le> length (rd_rest r). r' = rd_advance n r"
begin

lemma keeps_ok: "rd_ok r \<Longrightarrow> dec r = Ok (v, r') \<Longrightarrow> rd_ok r'"
  using consumes rd_ok_advance by blast

lemma keeps_bytes: "rd_ok r \<Longrightarrow> dec r = Ok (v, r') \<Longrightarrow> rd_bytes r' = rd_bytes r"
  using consumes by fastforce

lemma run_no_panic: "no_panic (dec (reader_new bs))"
  by (rule safe) simp

lemma run_within_input:
  "dec (reader_new bs) = Ok (v, r') \<Longrightarrow> rd_pos r' \<le> 8 * length bs"
  using keeps_ok [OF rd_ok_new] keeps_bytes [OF rd_ok_new]
  by (fastforce simp: rd_ok_def reader_new_def)

end

lemma bit_decoder_return [decoder_intros]: "bit_decoder (rd_return v)"
  by unfold_locales (auto simp: rd_return_def intro: exI [of _ 0])

lemma bit_decoder_fail [decoder_intros]: "bit_decoder (rd_fail e)"
  by unfold_locales (auto simp: rd_fail_def)

lemma bit_decoder_bind [decoder_intros]:
  assumes m: "bit_decoder m" and f: "\<And>v. bit_decoder (f v)"
  shows "bit_decoder (rd_bind m f)"
proof
  fix r assume ok: "rd_ok r"
  show "no_panic (rd_bind m f r)"
    unfolding rd_bind_def
  proof (rule no_panic_obind)
    show "no_panic (m r)" using m ok by (rule bit_decoder.safe)
  next
    fix p assume "m r = Ok p"
    then show "no_panic (case p of (v, r') \<Rightarrow> f v r')"
      using bit_decoder.keeps_ok [OF m ok] bit_decoder.safe [OF f] by (cases p) auto
  qed
next
  fix r v r'' assume ok: "rd_ok r" and run: "rd_bind m f r = Ok (v, r'')"
  then obtain w r' where mr: "m r = Ok (w, r')" and fr: "f w r' = Ok (v, r'')"
    by (auto simp: rd_bind_def obind_eq_Ok)
  obtain n where n: "n \<le> length (rd_rest r)" "r' = rd_advance n r"
    using bit_decoder.consumes [OF m ok mr] by blast
  moreover obtain k where "k \<le> length (rd_rest r')" "r'' = rd_advance k r'"
    using bit_decoder.consumes [OF f bit_decoder.keeps_ok [OF m ok mr] fr] by blast
  ultimately show "\<exists>n\<le>length (rd_rest r). r'' = rd_advance n r"
    by (intro exI [of _ "n + k"]) (auto simp: rd_rest_advance)
qed

lemma bit_decoder_if [decoder_intros]:
  "bit_decoder m \<Longrightarrow> bit_decoder m' \<Longrightarrow> bit_decoder (if b then m else m')"
  by simp

lemma bit_decoder_Let [decoder_intros]: "bit_decoder (f a) \<Longrightarrow> bit_decoder (Let a f)"
  by simp

lemma bit_decoder_read_bit [decoder_intros]: "bit_decoder read_bit"
  by unfold_locales (auto simp: read_bit_eq split: list.splits intro!: exI [of _ 1])

interpretation bit1: bit_decoder read_bit
  by (rule bit_decoder_read_bit)

lemma bit_decoder_read_bits [decoder_intros]: "bit_decoder (read_bits n)"
proof (cases "n \<le> 32")
  case True
  then show ?thesis
    by unfold_locales (auto simp: read_bits_eq split: if_splits intro!: exI [of _ n])
next
  case False
  then show ?thesis by unfold_locales (auto simp: read_bits_too_wide)
qed

lemma bit_decoder_skip_bits [decoder_intros]: "bit_decoder (skip_bits n)"
  by unfold_locales (auto simp: skip_bits_eq split: if_splits intro!: exI [of _ n])

interpretation bits: bit_decoder "read_bits n" for n
  by (rule bit_decoder_read_bits)

interpretation skip: bit_decoder "skip_bits n" for n
  by (rule bit_decoder_skip_bits)

section \<open>Exp-Golomb codes\<close>

text \<open>The code of the specifications: \<open>bit_len k\<close> is the position of the leading one bit.\<close>

fun bit_len :: "nat \<Rightarrow> nat" where
  "bit_len n = (if n \<le> 1 then 0 else Suc (bit_len (n div 2)))"

declare bit_len.simps [simp del]

definition ue_code :: "nat \<Rightarrow> bool list" where
  "ue_code k = (let lz = bit_len (k + 1) in
     replicate lz False @ True # nat_bits lz (k + 1 - 2 ^ lz))"

definition se_value :: "nat \<Rightarrow> int" where
  "se_value k = (if odd k then int ((k + 1) div 2) else - int (k div 2))"

lemma bit_len_bounds: "0 < n \<Longrightarrow> 2 ^ bit_len n \<le> n \<and> n < 2 * 2 ^ bit_len n"
proof (induction n rule: bit_len.induct)
  case (1 n)
  show ?case
  proof (cases "n \<le> 1")
    case True
    with 1 have "n = 1" by simp
    then show ?thesis by (simp add: bit_len.simps)
  next
    case False
    with 1 have "2 ^ bit_len (n div 2) \<le> n div 2" "n div 2 < 2 * 2 ^ bit_len (n div 2)" by auto
    then have "2 * 2 ^ bit_len (n div 2) \<le> n" "n < 2 * (2 * 2 ^ bit_len (n div 2))" by auto
    with False show ?thesis by (simp add: bit_len.simps [of n])
  qed
qed

lemma length_ue_code: "length (ue_code k) = 2 * bit_len (k + 1) + 1"
  by (simp add: ue_code_def Let_def)

lemma ue_zeros_bind:
  "ue_zeros lz = rd_bind read_bit (\<lambda>b. if b = 0 then
     (if lz + 1 > 32 then rd_fail GolombOverflow else ue_zeros (lz + 1)) else rd_return lz)"
  by (rule ext) (simp add: ue_zeros.simps [of lz] rd_bind_def rd_fail_def rd_return_def
      split_def if_distribR cong: if_cong)

lemma read_ue_v_bind:
  "read_ue_v = rd_bind (ue_zeros 0) (\<lambda>lz. if lz = 0 then rd_return 0
     else rd_bind (read_bits lz) (\<lambda>suffix.
       let total = push_bit lz (1 :: u64) - 1 + ucast suffix
       in if total > 0xFFFFFFFF then rd_fail GolombOverflow else rd_return (ucast total)))"
  by (rule ext) (simp add: read_ue_v_def rd_bind_def rd_fail_def rd_return_def Let_def
      split_def if_distribR cong: if_cong)

lemma read_se_v_bind:
  "read_se_v = rd_bind read_ue_v (\<lambda>code. if code = 0 then rd_return 0 else
      (if code AND 1 = 1 then rd_return (signed_take_bit 31 (uint (code div 2 + code mod 2)))
       else rd_return (- signed_take_bit 31 (uint (code div 2 + code mod 2)))))"
  by (rule ext) (simp add: read_se_v_def rd_bind_def rd_return_def Let_def split_def if_distribR
      cong: if_cong)

lemma bit_decoder_ue_zeros [decoder_intros]: "bit_decoder (ue_zeros lz)"
proof (induction "33 - lz" arbitrary: lz rule: less_induct)
  case less
  show ?case
  proof (cases "lz + 1 > 32")
    case True
    show ?thesis
      by (subst ue_zeros_bind, simp only: True if_True) (intro decoder_intros)
  next
    case False
    then have "bit_decoder (ue_zeros (lz + 1))" by (intro less) simp
    then show ?thesis
      by (subst ue_zeros_bind, simp only: False if_False) (intro decoder_intros)
  qed
qed

lemma bit_decoder_read_ue_v [decoder_intros]: "bit_decoder read_ue_v"
  unfolding read_ue_v_bind by (intro decoder_intros)

lemma bit_decoder_read_se_v [decoder_intros]: "bit_decoder read_se_v"
  unfolding read_se_v_bind by (intro decoder_intros)

interpretation ue: bit_decoder read_ue_v
  by (rule bit_decoder_read_ue_v)

interpretation se: bit_decoder read_se_v
  by (rule bit_decoder_read_se_v)

lemma ue_zeros_code:
  "rd_rest r = replicate k False @ True # tail \<Longrightarrow> lz + k \<le> 32 \<Longrightarrow>
     ue_zeros lz r = Ok (lz + k, rd_advance (Suc k) r)"
proof (induction k arbitrary: lz r)
  case 0
  then show ?case by (simp add: ue_zeros.simps read_bit_eq)
next
  case (Suc k)
  from Suc.prems(1) have "rd_rest (rd_advance 1 r) = replicate k False @ True # tail"
    by (simp add: rd_rest_advance)
  from Suc.IH [OF this, of "Suc lz"] Suc.prems show ?case
    by (simp add: ue_zeros.simps [of lz] read_bit_eq)
qed

lemma ue_zeros_overflow:
  "rd_rest r = replicate (Suc k) False @ tail \<Longrightarrow> lz + k = 32 \<Longrightarrow> ue_zeros lz r = Err GolombOverflow"
proof (induction k arbitrary: lz r)
  case 0
  then show ?case by (simp add: ue_zeros.simps read_bit_eq)
next
  case (Suc k)
  from Suc.prems(1) have "rd_rest (rd_advance 1 r) = replicate (Suc k) False @ tail"
    by (simp add: rd_rest_advance)
  from Suc.IH [OF this, of "Suc lz"] Suc.prems show ?case
    by (simp add: ue_zeros.simps [of lz] read_bit_eq)
qed

lemma unat_ue_total:
  assumes "s < 2 ^ lz" and "lz \<le> 32"
  shows "unat (push_bit lz (1 :: u64) - 1 + ucast (of_nat s :: u32)) = 2 ^ lz - 1 + (s mod 2 ^ 32)"
proof -
  have le: "2 ^ lz \<le> (2 ^ 32 :: nat)" using assms(2) by (rule power_increasing) simp
  moreover have "push_bit lz (1 :: u64) = of_nat (2 ^ lz)" by simp
  ultimately have "unat (push_bit lz (1 :: u64)) = 2 ^ lz"
    by (simp only: unsigned_of_nat) (simp add: take_bit_eq_mod)
  then have "unat (push_bit lz (1 :: u64) - 1) = 2 ^ lz - 1"
    by (subst unat_sub) (simp_all add: word_le_nat_alt)
  moreover have "unat (ucast (of_nat s :: u32) :: u64) = s mod 2 ^ 32"
    by (simp add: unsigned_ucast_eq unsigned_of_nat take_bit_eq_mod mod_mod_cancel)
  moreover have "s mod 2 ^ 32 < 2 ^ (32 :: nat)" by simp
  ultimately show ?thesis using le by (simp add: unat_word_ariths)
qed

lemma read_ue_v_code:
  assumes rest: "rd_rest r = replicate lz False @ True # nat_bits lz s @ tail"
    and s: "s < 2 ^ lz" and fits: "2 ^ lz - 1 + s < 2 ^ 32"
  shows "read_ue_v r = Ok (of_nat (2 ^ lz - 1 + s), rd_advance (2 * lz + 1) r)"
proof -
  have "(2 :: nat) ^ lz < 2 ^ 33" using fits by simp
  then have lz: "lz \<le> 32" using power_less_imp_less_exp [of "2 :: nat" lz 33] by simp
  have z: "ue_zeros 0 r = Ok (lz, rd_advance (Suc lz) r)"
    using ue_zeros_code [OF rest, of 0] lz by simp
  show ?thesis
  proof (cases "lz = 0")
    case True
    with z s show ?thesis by (simp add: read_ue_v_def)
  next
    case False
    have "rd_rest (rd_advance (Suc lz) r) = nat_bits lz s @ tail"
      using rest by (simp add: rd_rest_advance)
    then have b: "read_bits lz (rd_advance (Suc lz) r) = Ok (of_nat s, rd_advance (2 * lz + 1) r)"
      using lz s by (simp add: read_bits_eq bits_val_nat_bits)
    have s32: "s < 2 ^ 32"
      using s lz power_increasing [of lz 32 "2 :: nat"] by simp
    let ?t = "push_bit lz (1 :: u64) - 1 + ucast (of_nat s :: u32)"
    have t: "unat ?t = 2 ^ lz - 1 + s" using unat_ue_total [OF s lz] s32 by simp
    then have "\<not> ?t > 0xFFFFFFFF" using fits by (simp add: word_less_nat_alt)
    moreover have "(ucast ?t :: u32) = of_nat (2 ^ lz - 1 + s)"
      by (simp only: t [symmetric] of_nat_unat)
    ultimately show ?thesis using z b False by (simp add: read_ue_v_def Let_def)
  qed
qed

lemma read_ue_v_of_code:
  assumes k: "k < 2 ^ 32" and rest: "rd_rest r = ue_code k @ tail"
  shows "read_ue_v r = Ok (of_nat k, rd_advance (length (ue_code k)) r)"
proof -
  let ?lz = "bit_len (k + 1)"
  have b: "2 ^ ?lz \<le> k + 1" "k + 1 < 2 * 2 ^ ?lz" using bit_len_bounds [of "k + 1"] by simp_all
  have "rd_rest r = replicate ?lz False @ True # nat_bits ?lz (k + 1 - 2 ^ ?lz) @ tail"
    using rest by (simp add: ue_code_def Let_def)
  moreover have "2 ^ ?lz - 1 + (k + 1 - 2 ^ ?lz) = k" using b(1) by simp
  ultimately show ?thesis
    using read_ue_v_code [of r ?lz "k + 1 - 2 ^ ?lz" tail] b k
    by (simp add: length_ue_code)
qed

lemma odd_word32_of_nat: "((of_nat k :: u32) AND 1 = 1) = odd k"
  by (simp add: word_and_one_cases bit_simps bit_0)

lemma se_magnitude:
  assumes "k < 2 ^ 32"
  shows "uint ((of_nat k :: u32) div 2 + of_nat k mod 2) = int ((k + 1) div 2)"
proof -
  have "unat (of_nat k :: u32) = k" using assms by (simp add: unsigned_of_nat take_bit_eq_mod)
  then have "unat ((of_nat k :: u32) div 2 + of_nat k mod 2) = (k div 2 + k mod 2) mod 2 ^ 32"
    by (simp add: unat_word_ariths unat_div unat_mod mod_add_left_eq)
  also have "\<dots> = k div 2 + k mod 2" using assms by simp
  also have "\<dots> = (k + 1) div 2" by (cases "even k") (auto elim!: evenE oddE)
  finally show ?thesis by (simp only: uint_nat)
qed

section \<open>Emulation prevention\<close>

text \<open>
  The encoder side of the H.26x specifications: \<open>z\<close> zero bytes have just been written; a third
  byte of value 0 to 3 is escaped by a \<open>03\<close> byte.
\<close>

fun ebsp_from_rbsp :: "nat \<Rightarrow> bytes \<Rightarrow> bytes" where
  "ebsp_from_rbsp z [] = []"
| "ebsp_from_rbsp z (x # xs) =
     (if z = 2 \<and> x \<le> 3 then 3 # x # ebsp_from_rbsp (if x = 0 then 1 else 0) xs
      else x # ebsp_from_rbsp (if x = 0 then z + 1 else 0) xs)"

lemma rbsp_skip_nonzero: "x \<noteq> 0 \<Longrightarrow> rbsp_from_ebsp (x # xs) = x # rbsp_from_ebsp xs"
  by (cases xs rule: rbsp_from_ebsp.cases) auto

lemma rbsp_skip_zero: "x \<noteq> 0 \<Longrightarrow> rbsp_from_ebsp (0 # x # xs) = 0 # rbsp_from_ebsp (x # xs)"
  by (cases xs) auto

lemma rbsp_skip_zeros:
  "x \<noteq> 0 \<Longrightarrow> x \<noteq> 3 \<Longrightarrow> rbsp_from_ebsp (0 # 0 # x # xs) = 0 # 0 # x # rbsp_from_ebsp xs"
  by (simp add: rbsp_skip_zero rbsp_skip_nonzero)

lemma rbsp_after_escape: "z \<le> 2 \<Longrightarrow>
  rbsp_from_ebsp (replicate z 0 @ ebsp_from_rbsp z xs) = replicate z 0 @ xs"
proof (induction xs arbitrary: z)
  case Nil
  then have "z = 0 \<or> z = 1 \<or> z = 2" by auto
  then show ?case by (auto simp: numeral_2_eq_2)
next
  case (Cons x xs)
  have I0: "rbsp_from_ebsp (ebsp_from_rbsp 0 xs) = xs" using Cons.IH [of 0] by simp
  have I1: "rbsp_from_ebsp (0 # ebsp_from_rbsp 1 xs) = 0 # xs" using Cons.IH [of 1] by simp
  have I2: "rbsp_from_ebsp (0 # 0 # ebsp_from_rbsp 2 xs) = 0 # 0 # xs"
    using Cons.IH [of 2] by (simp add: numeral_2_eq_2)
  from Cons.prems consider "z = 0" | "z = 1" | "z = 2" by linarith
  then show ?case
  proof cases
    case 1
    then show ?thesis using I0 I1 by (simp add: rbsp_skip_nonzero)
  next
    case 2
    then show ?thesis using I0 I2
      by (simp add: rbsp_skip_nonzero rbsp_skip_zero numeral_2_eq_2)
  next
    case 3
    have "\<not> x \<le> 3 \<Longrightarrow> x \<noteq> 0 \<and> x \<noteq> 3" by auto
    with 3 show ?thesis using I0 I1
      by (auto simp: rbsp_skip_nonzero rbsp_skip_zeros rbsp_skip_zero numeral_2_eq_2)
  qed
qed

section \<open>Parsing what was written\<close>

text \<open>
  \<open>reads m code v\<close>: on a reader whose remaining bits start with \<open>code\<close>, the parser \<open>m\<close> returns \<open>v\<close> and
  consumes exactly \<open>code\<close>.  The rules follow the parser's structure, so a round trip through a parser
  is one \<open>intro\<close> over them.
\<close>

definition reads :: "'a decoder \<Rightarrow> bool list \<Rightarrow> 'a \<Rightarrow> bool" where
  "reads m code v \<longleftrightarrow>
     (\<forall>r tail. rd_rest r = code @ tail \<longrightarrow> m r = Ok (v, rd_advance (length code) r))"

lemma readsD: "reads m code v \<Longrightarrow> rd_rest r = code @ tail \<Longrightarrow> m r = Ok (v, rd_advance (length code) r)"
  by (simp add: reads_def)

lemma reads_new: "reads m code v \<Longrightarrow> bit_stream bs = code @ tail \<Longrightarrow>
    m (reader_new bs) = Ok (v, rd_advance (length code) (reader_new bs))"
  by (simp add: reads_def)

lemma reads_return: "reads (rd_return v) [] v"
  by (simp add: reads_def rd_return_def)

lemma reads_bind:
  assumes "reads m c1 v" and "reads (f v) c2 w"
  shows "reads (rd_bind m f) (c1 @ c2) w"
  unfolding reads_def
proof (intro allI impI)
  fix r tail assume rest: "rd_rest r = (c1 @ c2) @ tail"
  then have "m r = Ok (v, rd_advance (length c1) r)" using readsD [OF assms(1)] by simp
  moreover have "rd_rest (rd_advance (length c1) r) = c2 @ tail"
    using rest by (simp add: rd_rest_advance)
  then have "f v (rd_advance (length c1) r) =
      Ok (w, rd_advance (length c2) (rd_advance (length c1) r))"
    by (rule readsD [OF assms(2)])
  ultimately show "rd_bind m f r = Ok (w, rd_advance (length (c1 @ c2)) r)"
    by (simp add: rd_bind_def)
qed

lemma reads_bind_last: "reads m c v \<Longrightarrow> reads (f v) [] w \<Longrightarrow> reads (rd_bind m f) c w"
  using reads_bind [of m c v f "[]" w] by simp

lemma reads_read_bit: "reads read_bit [b] (of_bool b)"
  by (simp add: reads_def read_bit_eq)

lemma reads_read_bits: "n \<le> 32 \<Longrightarrow> x < 2 ^ n \<Longrightarrow> reads (read_bits n) (nat_bits n x) (of_nat x)"
  by (simp add: reads_def read_bits_eq bits_val_nat_bits)

lemma reads_skip_bits: "length c = n \<Longrightarrow> reads (skip_bits n) c ()"
  by (auto simp: reads_def skip_bits_eq)

lemma reads_ue: "k < 2 ^ 32 \<Longrightarrow> reads read_ue_v (ue_code k) (of_nat k)"
  by (simp add: reads_def read_ue_v_of_code)

section \<open>Packing bits into bytes\<close>

function pack_bits :: "bool list \<Rightarrow> bytes" where
  "pack_bits bs = (if bs = [] then []
     else of_nat (bits_val (take 8 bs @ replicate (8 - length bs) False)) # pack_bits (drop 8 bs))"
  by pat_completeness auto
termination by (relation "measure length") auto

declare pack_bits.simps [simp del]

lemma nat_bits_add_high: "nat_bits w (k * 2 ^ w + x) = nat_bits w x"
  unfolding nat_bits_def
proof (rule map_cong [OF refl])
  fix i assume "i \<in> set [0..<w]"
  then have i: "w - 1 - i < w" by auto
  have "take_bit w (k * 2 ^ w + x) = take_bit w x" by (simp add: take_bit_eq_mod)
  then show "bit (k * 2 ^ w + x) (w - 1 - i) = bit x (w - 1 - i)"
    using i by (metis bit_take_bit_iff)
qed

lemma nat_bits_bits_val: "nat_bits (length bs) (bits_val bs) = bs"
proof (induction bs)
  case Nil
  then show ?case by (simp add: nat_bits_def)
next
  case (Cons b bs)
  have "bit (bits_val (b # bs)) (length bs) = b"
    using bits_val_less [of bs] by (simp add: bit_iff_odd div_mult_self3)
  moreover have "nat_bits (length bs) (bits_val (b # bs)) = bs"
    using Cons by (simp add: nat_bits_add_high)
  ultimately show ?case by (simp only: length_Cons nat_bits_Suc)
qed

lemma byte_bits_of_nat: "byte_bits (of_nat n) = nat_bits 8 n"
  unfolding byte_bits_def nat_bits_def by (rule map_cong) (auto simp: bit_simps)

lemma bit_stream_pack_bits: "\<exists>k. bit_stream (pack_bits bs) = bs @ replicate k False"
proof (induction bs rule: pack_bits.induct)
  case (1 bs)
  show ?case
  proof (cases "bs = []")
    case True
    then show ?thesis by (simp add: pack_bits.simps bit_stream_def)
  next
    case False
    let ?b = "take 8 bs @ replicate (8 - length bs) False"
    from 1 [OF False] obtain k where k: "bit_stream (pack_bits (drop 8 bs)) = drop 8 bs @ replicate k False"
      by blast
    have "length ?b = 8" by simp
    then have "byte_bits (of_nat (bits_val ?b)) = ?b"
      using nat_bits_bits_val [of ?b] by (simp only: byte_bits_of_nat)
    then have "bit_stream (pack_bits bs) = ?b @ drop 8 bs @ replicate k False"
      using False k by (subst pack_bits.simps) (simp add: bit_stream_def)
    then show ?thesis
    proof (cases "length bs < 8")
      case True
      with \<open>bit_stream (pack_bits bs) = _\<close>
      have "bit_stream (pack_bits bs) = bs @ replicate (8 - length bs + k) False"
        by (simp only: replicate_add) simp
      then show ?thesis by blast
    next
      case False
      with \<open>bit_stream (pack_bits bs) = _\<close> have "bit_stream (pack_bits bs) = bs @ replicate k False"
        by (simp flip: append_assoc)
      then show ?thesis by blast
    qed
  qed
qed

lemma reads_pack_bits:
  assumes "reads m code v"
  shows "m (reader_new (pack_bits code)) = Ok (v, rd_advance (length code) (reader_new (pack_bits code)))"
proof -
  obtain k where "bit_stream (pack_bits code) = code @ replicate k False"
    using bit_stream_pack_bits by blast
  then show ?thesis by (rule reads_new [OF assms])
qed

section \<open>Inverting a successful parse\<close>

lemma rd_bind_Ok: "rd_bind m f r = Ok (v, r'') \<longleftrightarrow> (\<exists>w r'. m r = Ok (w, r') \<and> f w r' = Ok (v, r''))"
  by (auto simp: rd_bind_def obind_eq_Ok)

lemma rd_return_Ok [simp]: "rd_return v r = Ok (w, r') \<longleftrightarrow> w = v \<and> r' = r"
  by (auto simp: rd_return_def)

lemma rd_fail_Ok [simp]: "rd_fail e r \<noteq> Ok p"
  by (simp add: rd_fail_def)

lemma read_bits_bound:
  assumes "read_bits n r = Ok (v, r')" shows "unat v < 2 ^ n"
proof (cases "n \<le> 32")
  case True
  with assms have v: "v = of_nat (bits_val (take n (rd_rest r)))" "n \<le> length (rd_rest r)"
    by (auto simp: read_bits_eq split: if_splits)
  have "bits_val (take n (rd_rest r)) < 2 ^ n"
    using bits_val_less [of "take n (rd_rest r)"] v(2) by simp
  then show ?thesis using v(1) by (simp add: unsigned_of_nat take_bit_eq_mod)
qed (use assms in \<open>simp add: read_bits_too_wide\<close>)

lemma bit_decoder_case_triple [decoder_intros]:
  "(\<And>a b c. bit_decoder (f a b c)) \<Longrightarrow> bit_decoder (case p of (a, b, c) \<Rightarrow> f a b c)"
  by (cases p) auto

section \<open>Properties\<close>

text \<open>
  The unsigned exp-Golomb decoder inverts the exp-Golomb code: when the bits ahead of the cursor
  start with the code of \<open>k\<close>, for any \<open>k\<close> that fits a \<open>u32\<close>, \<open>read_ue_v\<close> returns \<open>k\<close> and leaves the
  cursor right behind the code.
\<close>

theorem read_ue_v_roundtrip:
  "k < 2 ^ 32 \<Longrightarrow> rd_rest r = ue_code k @ tail \<Longrightarrow>
     read_ue_v r = Ok (of_nat k, rd_advance (length (ue_code k)) r)"
  by (rule read_ue_v_of_code)

theorem read_ue_v_roundtrip_witness:
  "read_ue_v (reader_new [0x28]) = Ok (4, rd_advance 5 (reader_new [0x28]))"
proof -
  have c: "ue_code 4 = [False, False, True, False, True]"
    by code_simp
  have "rd_rest (reader_new [0x28]) = ue_code 4 @ [False, False, False]"
    unfolding c by (simp add: bit_stream_def byte_bits_def upt_rec)
  from read_ue_v_roundtrip [OF _ this] show ?thesis by (simp add: c)
qed

text \<open>
  The signed decoder maps the codes 0, 1, 2, 3, 4, ... to 0, 1, -1, 2, -2, ... for every code
  below \<open>2 ^ 32 - 1\<close>; the one remaining code, \<open>2 ^ 32 - 1\<close>, which stands for \<open>2 ^ 31\<close>, comes out as
  \<open>- (2 ^ 31)\<close>, because the cast of the magnitude to \<open>i32\<close> wraps.
\<close>

theorem read_se_v_value:
  assumes k: "k < 2 ^ 32" and rest: "rd_rest r = ue_code k @ tail"
  shows "read_se_v r = Ok (if k = 2 ^ 32 - 1 then - (2 ^ 31) else se_value k,
    rd_advance (length (ue_code k)) r)"
proof -
  have u: "read_ue_v r = Ok (of_nat k, rd_advance (length (ue_code k)) r)"
    using k rest by (rule read_ue_v_of_code)
  have z: "((of_nat k :: u32) = 0) = (k = 0)"
    using k by (auto simp: word_of_nat_eq_0_iff dest: dvd_imp_le)
  have m: "signed_take_bit 31 (int ((k + 1) div 2)) =
      (if k = 2 ^ 32 - 1 then - (2 ^ 31) else int ((k + 1) div 2))"
  proof (cases "k = 2 ^ 32 - 1")
    case False
    with k have "int ((k + 1) div 2) < 2 ^ 31" by simp
    then show ?thesis using False by (simp add: signed_take_bit_int_eq_self)
  qed (simp add: signed_take_bit_eq_take_bit_shift take_bit_eq_mod)
  show ?thesis
  proof (cases "odd k")
    case True
    then have "k \<noteq> 0" using odd_pos by blast
    with True m show ?thesis
      by (auto simp: read_se_v_def u z se_magnitude [OF k] odd_word32_of_nat se_value_def)
  next
    case False
    then have "k \<noteq> 2 ^ 32 - 1" "(k + 1) div 2 = k div 2" by (auto simp: odd_iff_mod_2_eq_one)
    with False m show ?thesis
      by (auto simp: read_se_v_def u z se_magnitude [OF k] odd_word32_of_nat se_value_def)
  qed
qed

theorem read_se_v_value_witness:
  "read_se_v (reader_new [0x28]) = Ok (- 2, rd_advance 5 (reader_new [0x28]))"
proof -
  have c: "ue_code 4 = [False, False, True, False, True]"
    by code_simp
  have "rd_rest (reader_new [0x28]) = ue_code 4 @ [False, False, False]"
    unfolding c by (simp add: bit_stream_def byte_bits_def upt_rec)
  from read_se_v_value [OF _ this] show ?thesis by (simp add: c se_value_def)
qed

text \<open>
  The emulation-prevention filter recovers every payload: whatever bytes the encoder escapes, the
  filter returns the bytes it was given.
\<close>

theorem rbsp_roundtrip: "rbsp_from_ebsp (ebsp_from_rbsp 0 rbsp) = rbsp"
  using rbsp_after_escape [of 0 rbsp] by simp

end
