(* ===== verification/Fmt.thy ===== *)
theory Fmt
  imports Prelude
begin

text \<open>
  The number formatting the sources use through \<open>format!\<close>: \<open>{}\<close> and \<open>{:0w}\<close> for unsigned integers
  and \<open>{:X}\<close> for upper-case hexadecimal, with the facts that make formatted numbers usable as keys:
  decimal rendering is injective and a rendering contains digits only.
\<close>

section \<open>Digits in a base\<close>

definition digit_char :: "nat \<Rightarrow> char" where
  "digit_char d = (if d < 10 then char_of (48 + d) else char_of (55 + d))"

fun base_str :: "nat \<Rightarrow> nat \<Rightarrow> string" where
  "base_str b n = (if n < b \<or> b < 2 then [digit_char n] else base_str b (n div b) @ [digit_char (n mod b)])"

declare base_str.simps [simp del]

definition dec_str :: "nat \<Rightarrow> string" where
  "dec_str n = base_str 10 n"

definition hex_upper :: "nat \<Rightarrow> string" where
  "hex_upper n = base_str 16 n"

definition pad0 :: "nat \<Rightarrow> string \<Rightarrow> string" where
  "pad0 w s = replicate (w - length s) (CHR ''0'') @ s"

section \<open>Reading decimal digits back\<close>

definition char_digit :: "char \<Rightarrow> nat" where
  "char_digit c = of_char c - 48"

definition is_digit :: "char \<Rightarrow> bool" where
  "is_digit c \<longleftrightarrow> 48 \<le> (of_char c :: nat) \<and> (of_char c :: nat) \<le> 57"

definition dec_val :: "string \<Rightarrow> nat" where
  "dec_val s = foldl (\<lambda>v c. 10 * v + char_digit c) 0 s"

lemma dec_val_snoc [simp]: "dec_val (s @ [c]) = 10 * dec_val s + char_digit c"
  by (simp add: dec_val_def)

lemma char_digit_digit_char [simp]: "d < 10 \<Longrightarrow> char_digit (digit_char d) = d"
  by (simp add: char_digit_def digit_char_def)

lemma is_digit_digit_char [simp]: "d < 10 \<Longrightarrow> is_digit (digit_char d)"
  by (simp add: is_digit_def digit_char_def)

lemma dec_val_base_str: "dec_val (base_str 10 n) = n"
proof (induction n rule: less_induct)
  case (less n)
  show ?case
  proof (cases "n < 10")
    case True
    then show ?thesis by (simp add: base_str.simps dec_val_def)
  next
    case False
    then have "dec_val (base_str 10 (n div 10)) = n div 10" by (intro less) simp
    with False show ?thesis by (simp add: base_str.simps [of 10 n])
  qed
qed

lemma dec_val_dec_str [simp]: "dec_val (dec_str n) = n"
  by (simp add: dec_str_def dec_val_base_str)

lemma dec_str_inj [simp]: "dec_str m = dec_str n \<longleftrightarrow> m = n"
  by (metis dec_val_dec_str)

lemma base_str_digits: "list_all is_digit (base_str 10 n)"
proof (induction n rule: less_induct)
  case (less n)
  show ?case
  proof (cases "n < 10")
    case True
    then show ?thesis by (simp add: base_str.simps)
  next
    case False
    then have "list_all is_digit (base_str 10 (n div 10))" by (intro less) simp
    with False show ?thesis by (simp add: base_str.simps [of 10 n])
  qed
qed

lemma dec_str_digits: "list_all is_digit (dec_str n)"
  by (simp add: dec_str_def base_str_digits)

lemma dec_str_nonempty [simp]: "dec_str n \<noteq> []"
  by (simp add: dec_str_def base_str.simps)

lemma dec_str_no_char: "\<not> is_digit c \<Longrightarrow> c \<notin> set (dec_str n)"
  using dec_str_digits [of n] by (auto simp: list_all_iff)

lemma append_sep_inject:
  assumes "c \<notin> set xs" "c \<notin> set ys" "xs @ c # us = ys @ c # vs"
  shows "xs = ys \<and> us = vs"
  using assms by (simp add: append_eq_append_conv2 append_eq_Cons_conv Cons_eq_append_conv) auto

lemma dec_str_sep_inject:
  assumes "\<not> is_digit c" "dec_str m @ c # us = dec_str n @ c # vs"
  shows "m = n \<and> us = vs"
  using append_sep_inject [OF _ _ assms(2)] dec_str_no_char [OF assms(1)] by auto

end
