(* ===== verification/Aac.thy ===== *)
theory Aac
  imports BitReader Fmt
begin

text \<open>
  The AAC \<open>AudioSpecificConfig\<close> parser of \<open>lvqr-codec/src/aac.rs\<close>: the object type with its 6-bit
  escape, the sampling-frequency table with its explicit 24-bit form, and the SBR and PS extension
  signalling.  The lemmas give the parser's safety on arbitrary bytes, the range of every accepted
  configuration, and the round trip with the bit layout of ISO/IEC 14496-3.
\<close>

section \<open>The parser\<close>

definition AAC_SAMPLE_FREQUENCIES :: "u32 list" where
  "AAC_SAMPLE_FREQUENCIES =
     [96000, 88200, 64000, 48000, 44100, 32000, 24000, 22050, 16000, 12000, 11025, 8000, 7350]"

record audio_specific_config =
  asc_object_type :: u8
  asc_sample_rate :: u32
  asc_channel_config :: u8
  asc_sbr_present :: bool
  asc_ps_present :: bool

definition asc_codec_string :: "audio_specific_config \<Rightarrow> string" where
  "asc_codec_string c = ''mp4a.40.'' @ dec_str (unat (asc_object_type c))"

definition read_object_type :: "u8 decoder" where
  "read_object_type =
     rd_bind (read_bits 5) (\<lambda>v. let base = ucast v :: u8 in
       if base = 31 then rd_bind (read_bits 6) (\<lambda>w. let ext = ucast w :: u8 in rd_return (32 + ext))
       else rd_return base)"

definition read_sample_rate :: "u32 decoder" where
  "read_sample_rate =
     rd_bind (read_bits 4) (\<lambda>v. let sfi = ucast v :: u8 in
       if sfi = 15 then
         rd_bind (read_bits 24) (\<lambda>freq.
           if freq < 7350 then rd_fail (MalformedAsc ''explicit sample rate below 7350 Hz'')
           else rd_return freq)
       else if unat sfi < length AAC_SAMPLE_FREQUENCIES
       then rd_return (AAC_SAMPLE_FREQUENCIES ! unat sfi)
       else rd_fail (MalformedAsc ''sampling_frequency_index out of range''))"

text \<open>The extension part: \<open>(sbr_present, ps_present, base_object_type)\<close>.\<close>

definition read_sbr_extension :: "u8 \<Rightarrow> (bool \<times> bool \<times> u8) decoder" where
  "read_sbr_extension object_type =
     (if object_type = 5 \<or> object_type = 29 then
        rd_bind (read_bits 4) (\<lambda>v. let ext_sfi = ucast v :: u8 in
          rd_bind (if ext_sfi = 15 then read_bits 24 else rd_return 0) (\<lambda>_.
            rd_bind read_object_type (\<lambda>downstream.
              rd_return (True, object_type = 29, downstream))))
      else rd_return (False, False, object_type))"

definition parse_asc_reader :: "audio_specific_config decoder" where
  "parse_asc_reader =
     rd_bind read_object_type (\<lambda>object_type.
       rd_bind read_sample_rate (\<lambda>sample_rate.
         rd_bind (read_bits 4) (\<lambda>v. let channel_config = ucast v :: u8 in
           rd_bind (read_sbr_extension object_type) (\<lambda>(sbr_present, ps_present, base_object_type).
             rd_return \<lparr>asc_object_type = if sbr_present then object_type else base_object_type,
               asc_sample_rate = sample_rate,
               asc_channel_config = channel_config,
               asc_sbr_present = sbr_present,
               asc_ps_present = ps_present\<rparr>))))"

definition parse_asc :: "bytes \<Rightarrow> (audio_specific_config, codec_error) outcome" where
  "parse_asc bs =
     (if bs = [] then Err (EndOfStream 1 0)
      else obind (parse_asc_reader (reader_new bs)) (\<lambda>(c, r). Ok c))"

section \<open>Safety\<close>

lemma bit_decoder_read_object_type [decoder_intros]: "bit_decoder read_object_type"
  unfolding read_object_type_def by (intro decoder_intros)

lemma bit_decoder_read_sample_rate [decoder_intros]: "bit_decoder read_sample_rate"
  unfolding read_sample_rate_def by (intro decoder_intros)

lemma bit_decoder_read_sbr_extension [decoder_intros]: "bit_decoder (read_sbr_extension t)"
  unfolding read_sbr_extension_def by (intro decoder_intros)

interpretation asc: bit_decoder parse_asc_reader
  unfolding parse_asc_reader_def by (intro decoder_intros)

section \<open>What an accepted configuration satisfies\<close>

definition asc_wf :: "audio_specific_config \<Rightarrow> bool" where
  "asc_wf c \<longleftrightarrow>
     7350 \<le> asc_sample_rate c \<and> unat (asc_sample_rate c) < 2 ^ 24 \<and>
     unat (asc_channel_config c) < 16 \<and>
     asc_object_type c \<noteq> 31 \<and> unat (asc_object_type c) < 96 \<and>
     asc_sbr_present c = (asc_object_type c = 5 \<or> asc_object_type c = 29) \<and>
     asc_ps_present c = (asc_object_type c = 29)"

lemma unat_ucast_u8: "unat v < 256 \<Longrightarrow> unat (ucast v :: u8) = unat v"
  by (simp add: unsigned_ucast_eq take_bit_eq_mod)

lemma unat_word_less_neq: "unat v < n \<Longrightarrow> n \<le> unat w \<Longrightarrow> v \<noteq> w"
  by auto

lemma escape_type_bound:
  assumes "read_bits 6 r = Ok (w, r')"
  shows "(32 :: u8) + ucast w \<noteq> 31 \<and> unat ((32 :: u8) + ucast w) < 96"
proof -
  have "unat w < 64" using read_bits_bound [OF assms] by simp
  then have "unat ((32 :: u8) + ucast w) = 32 + unat w"
    using unat_ucast_u8 [of w] by (simp add: unat_word_ariths)
  with \<open>unat w < 64\<close> show ?thesis by (auto simp: word_unat_eq_iff)
qed

lemma base_type_bound:
  assumes "read_bits 5 r = Ok (w, r')" shows "unat (ucast w :: u8) < 96"
  using read_bits_bound [OF assms] unat_ucast_u8 [of w] by simp

lemma read_object_type_bound:
  "read_object_type r = Ok (t, r') \<Longrightarrow> t \<noteq> 31 \<and> unat t < 96"
  by (auto simp: read_object_type_def rd_bind_Ok Let_def split: if_splits
      dest: escape_type_bound base_type_bound)

lemma table_bounds: "f \<in> set AAC_SAMPLE_FREQUENCIES \<Longrightarrow> 7350 \<le> f \<and> unat f < 2 ^ 24"
  by (auto simp: AAC_SAMPLE_FREQUENCIES_def)

lemma read_sample_rate_bound:
  assumes "read_sample_rate r = Ok (f, r')" shows "7350 \<le> f \<and> unat f < 2 ^ 24"
proof -
  from assms consider r1 where "read_bits 24 r1 = Ok (f, r')" "\<not> f < 7350"
    | "f \<in> set AAC_SAMPLE_FREQUENCIES"
    unfolding read_sample_rate_def rd_bind_Ok Let_def
    by (auto simp: rd_bind_Ok split: if_splits)
  then show ?thesis
  proof cases
    case 1
    then show ?thesis using read_bits_bound [OF 1(1)] by (simp add: not_less)
  qed (rule table_bounds)
qed

lemma read_sbr_extension_flags:
  "read_sbr_extension t r = Ok ((sbr, ps, base), r') \<Longrightarrow>
     sbr = (t = 5 \<or> t = 29) \<and> ps = (t = 29) \<and> (\<not> sbr \<longrightarrow> base = t)"
  by (auto simp: read_sbr_extension_def rd_bind_Ok Let_def split: if_splits)

lemma parse_asc_reader_wf:
  assumes "parse_asc_reader r = Ok (c, r')" shows "asc_wf c"
proof -
  from assms obtain t r1 f r2 v r3 sbr ps base where t: "read_object_type r = Ok (t, r1)"
    and f: "read_sample_rate r1 = Ok (f, r2)" and v: "read_bits 4 r2 = Ok (v, r3)"
    and x: "read_sbr_extension t r3 = Ok ((sbr, ps, base), r')"
    and c: "c = \<lparr>asc_object_type = if sbr then t else base, asc_sample_rate = f,
      asc_channel_config = ucast v, asc_sbr_present = sbr, asc_ps_present = ps\<rparr>"
    by (auto simp: parse_asc_reader_def rd_bind_Ok Let_def)
  have "unat (ucast v :: u8) < 16"
    using read_bits_bound [OF v] unat_ucast_u8 [of v] by simp
  then show ?thesis
    using read_object_type_bound [OF t] read_sample_rate_bound [OF f] read_sbr_extension_flags [OF x]
    by (auto simp: asc_wf_def c)
qed

section \<open>The bit layout, written\<close>

datatype rate_form = Indexed nat | Explicit nat

definition object_type_code :: "nat \<Rightarrow> bool list" where
  "object_type_code t = (if t < 31 then nat_bits 5 t else nat_bits 5 31 @ nat_bits 6 (t - 32))"

definition object_type_ok :: "nat \<Rightarrow> bool" where
  "object_type_ok t \<longleftrightarrow> t \<noteq> 31 \<and> t < 96"

fun rate_code :: "rate_form \<Rightarrow> bool list" where
  "rate_code (Indexed i) = nat_bits 4 i"
| "rate_code (Explicit f) = nat_bits 4 15 @ nat_bits 24 f"

fun rate_ok :: "rate_form \<Rightarrow> bool" where
  "rate_ok (Indexed i) \<longleftrightarrow> i < 13"
| "rate_ok (Explicit f) \<longleftrightarrow> 7350 \<le> f \<and> f < 2 ^ 24"

fun rate_value :: "rate_form \<Rightarrow> u32" where
  "rate_value (Indexed i) = AAC_SAMPLE_FREQUENCIES ! i"
| "rate_value (Explicit f) = of_nat f"

text \<open>The extension rate of the SBR form is skipped by the parser, so any value is allowed.\<close>

fun ext_rate_ok :: "rate_form \<Rightarrow> bool" where
  "ext_rate_ok (Indexed i) \<longleftrightarrow> i < 15"
| "ext_rate_ok (Explicit f) \<longleftrightarrow> f < 2 ^ 24"

definition asc_code :: "nat \<Rightarrow> rate_form \<Rightarrow> nat \<Rightarrow> rate_form \<Rightarrow> nat \<Rightarrow> bool list" where
  "asc_code t rate ch ext down =
     object_type_code t @ rate_code rate @ nat_bits 4 ch @
     (if t = 5 \<or> t = 29 then rate_code ext @ object_type_code down else [])"

lemma ucast_u8_of_nat: "k < 256 \<Longrightarrow> (ucast (of_nat k :: u32) :: u8) = of_nat k"
  by (simp add: word_unat_eq_iff unsigned_ucast_eq unsigned_of_nat take_bit_eq_mod)

lemma of_nat_u8_eq: "j < 256 \<Longrightarrow> k < 256 \<Longrightarrow> ((of_nat j :: u8) = of_nat k) = (j = k)"
  by (simp add: word_unat_eq_iff unsigned_of_nat take_bit_eq_mod)

lemma of_nat_u8_numeral: "k < 256 \<Longrightarrow> numeral n < (256 :: nat) \<Longrightarrow>
    ((of_nat k :: u8) = numeral n) = (k = numeral n)"
  using of_nat_u8_eq [of k "numeral n"] by simp

lemma reads_object_type:
  assumes "object_type_ok t"
  shows "reads read_object_type (object_type_code t) (of_nat t)"
proof (cases "t < 31")
  case True
  then show ?thesis
    unfolding read_object_type_def object_type_code_def
    by (auto intro!: reads_bind_last [OF reads_read_bits]
        simp: ucast_u8_of_nat of_nat_u8_numeral Let_def reads_return)
next
  case False
  with assms have t: "32 \<le> t" "t < 96" by (auto simp: object_type_ok_def)
  then have "(32 :: u8) + of_nat (t - 32) = of_nat t" by (simp add: of_nat_diff)
  moreover have "reads (rd_bind (read_bits 6) (\<lambda>w. rd_return (32 + ucast w :: u8)))
      (nat_bits 6 (t - 32)) (32 + of_nat (t - 32))"
    using t ucast_u8_of_nat [of "t - 32"] reads_return [of "32 + of_nat (t - 32) :: u8"]
    by (intro reads_bind_last [OF reads_read_bits]) (simp_all del: of_nat_diff)
  ultimately show ?thesis
    using False unfolding read_object_type_def object_type_code_def
    by (auto intro!: reads_bind [OF reads_read_bits] simp: Let_def)
qed

lemma reads_sample_rate:
  assumes "rate_ok rate" shows "reads read_sample_rate (rate_code rate) (rate_value rate)"
proof (cases rate)
  case (Indexed i)
  with assms have "i < 13" by simp
  then have "unat (of_nat i :: u8) = i" "i \<noteq> 15" "length AAC_SAMPLE_FREQUENCIES = 13"
    by (simp_all add: unsigned_of_nat take_bit_eq_mod AAC_SAMPLE_FREQUENCIES_def)
  with \<open>i < 13\<close> Indexed show ?thesis
    unfolding read_sample_rate_def
    by (auto intro!: reads_bind_last [OF reads_read_bits]
        simp: ucast_u8_of_nat of_nat_u8_numeral Let_def reads_return)
next
  case (Explicit f)
  with assms have f: "7350 \<le> f" "f < 2 ^ 24" by simp_all
  then have "\<not> (of_nat f :: u32) < 7350"
    by (simp add: word_less_nat_alt unsigned_of_nat take_bit_eq_mod)
  then have "reads (rd_bind (read_bits 24) (\<lambda>freq.
      if freq < 7350 then rd_fail (MalformedAsc ''explicit sample rate below 7350 Hz'')
      else rd_return freq)) (nat_bits 24 f) (of_nat f)"
    using f by (intro reads_bind_last [OF reads_read_bits]) (simp_all add: reads_return)
  with Explicit show ?thesis
    unfolding read_sample_rate_def
    by (auto intro!: reads_bind [OF reads_read_bits] simp: Let_def)
qed

lemma reads_ext_rate:
  assumes "ext_rate_ok ext"
    and k: "\<And>x. reads (k x) code v"
  shows "reads (rd_bind (read_bits 4) (\<lambda>v.
      rd_bind (if (ucast v :: u8) = 15 then read_bits 24 else rd_return 0) k)) (rate_code ext @ code) v"
proof (cases ext)
  case (Indexed i)
  with assms have "i < 15" by simp
  with Indexed show ?thesis
    using reads_bind [OF reads_return k]
    by (auto intro!: reads_bind [OF reads_read_bits] simp: ucast_u8_of_nat of_nat_u8_numeral Let_def)
next
  case (Explicit f)
  with assms have f: "f < 2 ^ 24" by simp
  then have "reads (rd_bind (read_bits 24) k) (nat_bits 24 f @ code) v"
    by (intro reads_bind [OF reads_read_bits] k) simp_all
  with Explicit show ?thesis
    by (auto intro!: reads_bind [OF reads_read_bits] simp: Let_def)
qed

lemma reads_sbr_extension:
  assumes "object_type_ok t" "ext_rate_ok ext" "object_type_ok down"
  shows "reads (read_sbr_extension (of_nat t))
    (if t = 5 \<or> t = 29 then rate_code ext @ object_type_code down else [])
    (if t = 5 \<or> t = 29 then (True, t = 29, of_nat down) else (False, False, of_nat t))"
proof -
  have "t < 256" using assms(1) by (simp add: object_type_ok_def)
  moreover have "reads (rd_bind read_object_type (\<lambda>d. rd_return (True, t = 29, d)))
      (object_type_code down) (True, t = 29, of_nat down)"
    by (rule reads_bind_last [OF reads_object_type [OF assms(3)] reads_return])
  ultimately show ?thesis
    unfolding read_sbr_extension_def
    by (auto intro!: reads_ext_rate assms simp: of_nat_u8_numeral reads_return)
qed

lemma reads_asc:
  assumes "object_type_ok t" "rate_ok rate" "ch < 16" "ext_rate_ok ext" "object_type_ok down"
  shows "reads parse_asc_reader (asc_code t rate ch ext down)
    \<lparr>asc_object_type = of_nat t, asc_sample_rate = rate_value rate,
     asc_channel_config = of_nat ch,
     asc_sbr_present = (t = 5 \<or> t = 29), asc_ps_present = (t = 29)\<rparr>"
  unfolding parse_asc_reader_def asc_code_def
  using reads_sbr_extension [OF assms(1,4,5)] assms(3)
  by (intro reads_bind [OF reads_object_type [OF assms(1)]] reads_bind [OF reads_sample_rate [OF assms(2)]]
      reads_bind [OF reads_read_bits [of 4 ch]])
    (auto simp: ucast_u8_of_nat Let_def intro!: reads_bind_last reads_return split: if_splits)

section \<open>Properties\<close>

lemma parse_asc_no_panic: "no_panic (parse_asc bs)"
proof -
  have "no_panic (parse_asc_reader (reader_new bs))" by (rule asc.run_no_panic)
  then show ?thesis by (cases "parse_asc_reader (reader_new bs)") (auto simp: parse_asc_def)
qed

lemma parse_asc_accepted: "parse_asc bs = Ok c \<Longrightarrow> asc_wf c"
  by (cases "parse_asc_reader (reader_new bs)")
    (auto simp: parse_asc_def split: if_splits dest: parse_asc_reader_wf)

text \<open>
  The ASC parser never panics, and every configuration it accepts is usable: the sample rate is
  between 7350 Hz and \<open>2 ^ 24 - 1\<close>, the channel configuration is a 4-bit value, the object type is a
  decoded one, and the SBR and PS flags agree with the object type.
\<close>

theorem parse_asc_safe:
  "no_panic (parse_asc bs) \<and> (\<forall>c. parse_asc bs = Ok c \<longrightarrow> asc_wf c)"
  using parse_asc_no_panic parse_asc_accepted by blast

theorem parse_asc_safe_witness:
  "asc_wf \<lparr>asc_object_type = 2, asc_sample_rate = 48000, asc_channel_config = 2,
     asc_sbr_present = False, asc_ps_present = False\<rparr>"
proof -
  have "parse_asc [0x11, 0x90] = Ok \<lparr>asc_object_type = 2, asc_sample_rate = 48000,
      asc_channel_config = 2, asc_sbr_present = False, asc_ps_present = False\<rparr>"
    by code_simp
  with parse_asc_safe [of "[0x11, 0x90]"] show ?thesis by blast
qed

text \<open>
  The ASC parser inverts the layout of the AudioSpecificConfig: for every object type (with its
  escape), table or explicit sample rate, channel configuration, and SBR or PS extension, a byte
  string that starts with the encoding parses to exactly those fields.
\<close>

theorem parse_asc_roundtrip:
  assumes "object_type_ok t" "rate_ok rate" "ch < 16" "ext_rate_ok ext" "object_type_ok down"
    and "bit_stream bs = asc_code t rate ch ext down @ tail"
  shows "parse_asc bs = Ok \<lparr>asc_object_type = of_nat t, asc_sample_rate = rate_value rate,
     asc_channel_config = of_nat ch,
     asc_sbr_present = (t = 5 \<or> t = 29), asc_ps_present = (t = 29)\<rparr>"
proof -
  have "bs \<noteq> []"
    using assms(6) by (auto simp: asc_code_def bit_stream_def object_type_code_def nat_bits_def
      split: if_splits)
  then show ?thesis
    using reads_new [OF reads_asc [OF assms(1-5)] assms(6)] by (simp add: parse_asc_def)
qed

theorem parse_asc_roundtrip_witness:
  "parse_asc [0xEB, 0x09, 0x88] = Ok \<lparr>asc_object_type = 29, asc_sample_rate = 24000,
     asc_channel_config = 1, asc_sbr_present = True, asc_ps_present = True\<rparr>"
proof -
  have "bit_stream [0xEB, 0x09, 0x88] = asc_code 29 (Indexed 6) 1 (Indexed 3) 2 @ replicate 2 False"
    by code_simp
  from parse_asc_roundtrip [OF _ _ _ _ _ this] show ?thesis
    by (simp add: object_type_ok_def AAC_SAMPLE_FREQUENCIES_def)
qed

end
