(* ===== verification/Hevc.thy ===== *)
theory Hevc
  imports BitReader Fmt
begin

text \<open>
  HEVC NAL classification and the minimal SPS parser of \<open>lvqr-codec/src/hevc.rs\<close>: the general part of
  profile_tier_level, the sub-layer part with its presence flags and padding, and the chroma and
  resolution fields.  The lemmas give safety on arbitrary bytes, the range of the accepted
  resolutions, and the round trip with the bit layout of T-REC-H.265 section 7.3.3.
\<close>

section \<open>NAL unit types\<close>

datatype hevc_nal_type =
    TrailN | TrailR | IdrWRadl | IdrNLp | CraNut | Vps | Sps | Pps | AudNut | EosNut | EobNut
  | FdNut | PrefixSeiNut | SuffixSeiNut | OtherNal u8

definition hevc_nal_from_u8 :: "u8 \<Rightarrow> hevc_nal_type" where
  "hevc_nal_from_u8 v =
     (if v = 0 then TrailN else if v = 1 then TrailR else if v = 19 then IdrWRadl
      else if v = 20 then IdrNLp else if v = 21 then CraNut else if v = 32 then Vps
      else if v = 33 then Sps else if v = 34 then Pps else if v = 35 then AudNut
      else if v = 36 then EosNut else if v = 37 then EobNut else if v = 38 then FdNut
      else if v = 39 then PrefixSeiNut else if v = 40 then SuffixSeiNut else OtherNal v)"

definition hevc_is_keyframe :: "hevc_nal_type \<Rightarrow> bool" where
  "hevc_is_keyframe t \<longleftrightarrow> t = IdrWRadl \<or> t = IdrNLp \<or> t = CraNut"

definition parse_nal_header :: "bytes \<Rightarrow> (hevc_nal_type, codec_error) outcome" where
  "parse_nal_header bs =
     (if length bs < 2 then Err (EndOfStream 2 (length bs))
      else obind (idx bs 0) (\<lambda>b0. Ok (hevc_nal_from_u8 (drop_bit 1 b0 AND 0x3F))))"

section \<open>The sequence parameter set\<close>

record hevc_sps =
  general_profile_space :: u8
  general_tier_flag :: bool
  general_profile_idc :: u8
  general_profile_compatibility_flags :: u32
  general_level_idc :: u8
  chroma_format_idc :: u32
  pic_width_in_luma_samples :: u32
  pic_height_in_luma_samples :: u32

record ptl_general =
  ptl_profile_space :: u8
  ptl_tier_flag :: bool
  ptl_profile_idc :: u8
  ptl_profile_compatibility_flags :: u32
  ptl_level_idc :: u8

text \<open>\<open>u32::reverse_bits\<close> is \<open>word_reverse\<close>.\<close>

definition hevc_codec_string :: "hevc_sps \<Rightarrow> string" where
  "hevc_codec_string s =
     ''hev1.'' @
     (if general_profile_space s = 1 then ''A'' else if general_profile_space s = 2 then ''B''
      else if general_profile_space s = 3 then ''C'' else '''') @
     dec_str (unat (general_profile_idc s)) @ ''.'' @
     hex_upper (unat (word_reverse (general_profile_compatibility_flags s))) @ ''.L'' @
     dec_str (unat (general_level_idc s)) @ ''.B0''"

definition parse_ptl_general :: "ptl_general decoder" where
  "parse_ptl_general =
     rd_bind (read_bits 2) (\<lambda>space.
     rd_bind read_bit (\<lambda>tier.
     rd_bind (read_bits 5) (\<lambda>idc.
     rd_bind (read_bits 32) (\<lambda>compat.
     rd_bind read_bit (\<lambda>_.
     rd_bind read_bit (\<lambda>_.
     rd_bind read_bit (\<lambda>_.
     rd_bind read_bit (\<lambda>_.
     rd_bind (skip_bits 44) (\<lambda>_.
     rd_bind (read_bits 8) (\<lambda>level.
       rd_return \<lparr>ptl_profile_space = ucast space, ptl_tier_flag = (tier = 1),
         ptl_profile_idc = ucast idc, ptl_profile_compatibility_flags = compat,
         ptl_level_idc = ucast level\<rparr>))))))))))"

text \<open>
  The presence flags are written to two arrays of length 6 at index \<open>i\<close>: an index of 6 or more
  panics.  The caller has checked \<open>max_sub_layers_minus1 <= 6\<close>.
\<close>

fun ptl_presence :: "nat \<Rightarrow> nat \<Rightarrow> (bool \<times> bool) list decoder" where
  "ptl_presence i 0 = rd_return []"
| "ptl_presence i (Suc k) =
     rd_bind read_bit (\<lambda>p.
       if i < 6 then
         rd_bind read_bit (\<lambda>l.
         rd_bind (ptl_presence (Suc i) k) (\<lambda>rest. rd_return ((p = 1, l = 1) # rest)))
       else (\<lambda>r. Panic))"

fun ptl_skip_bodies :: "(bool \<times> bool) list \<Rightarrow> unit decoder" where
  "ptl_skip_bodies [] = rd_return ()"
| "ptl_skip_bodies ((profile_present, level_present) # rest) =
     rd_bind (if profile_present then skip_bits 88 else rd_return ()) (\<lambda>_.
     rd_bind (if level_present then skip_bits 8 else rd_return ()) (\<lambda>_.
     ptl_skip_bodies rest))"

definition parse_ptl_sublayers :: "nat \<Rightarrow> unit decoder" where
  "parse_ptl_sublayers n =
     (if n = 0 then rd_return ()
      else rd_bind (ptl_presence 0 n) (\<lambda>flags.
        rd_bind (skip_bits (2 * (8 - n))) (\<lambda>_.
        ptl_skip_bodies flags)))"

definition parse_sps_reader :: "hevc_sps decoder" where
  "parse_sps_reader =
     rd_bind (read_bits 4) (\<lambda>_.
     rd_bind (read_bits 3) (\<lambda>v. let max_sub_layers_minus1 = ucast v :: u8 in
       if max_sub_layers_minus1 > 6 then rd_fail (MalformedSps ''sps_max_sub_layers_minus1 > 6'')
       else
     rd_bind read_bit (\<lambda>_.
     rd_bind parse_ptl_general (\<lambda>sps.
     rd_bind (parse_ptl_sublayers (unat max_sub_layers_minus1)) (\<lambda>_.
     rd_bind read_ue_v (\<lambda>_.
     rd_bind read_ue_v (\<lambda>chroma.
       if chroma > 3 then rd_fail (MalformedSps ''chroma_format_idc > 3'')
       else
     rd_bind (if chroma = 3 then read_bit else rd_return 0) (\<lambda>_.
     rd_bind read_ue_v (\<lambda>width.
     rd_bind read_ue_v (\<lambda>height.
       if width = 0 \<or> height = 0 \<or> width > 16384 \<or> height > 16384
       then rd_fail (MalformedSps ''implausible SPS dimensions'')
       else rd_return
         \<lparr>general_profile_space = ptl_profile_space sps,
          general_tier_flag = ptl_tier_flag sps,
          general_profile_idc = ptl_profile_idc sps,
          general_profile_compatibility_flags = ptl_profile_compatibility_flags sps,
          general_level_idc = ptl_level_idc sps,
          chroma_format_idc = chroma,
          pic_width_in_luma_samples = width,
          pic_height_in_luma_samples = height\<rparr>))))))))))"

definition parse_sps :: "bytes \<Rightarrow> (hevc_sps, codec_error) outcome" where
  "parse_sps payload =
     (let rbsp = rbsp_from_ebsp payload in
      obind (parse_sps_reader (reader_new rbsp)) (\<lambda>(s, r). Ok s))"

section \<open>Safety\<close>

lemma bit_decoder_ptl_general [decoder_intros]: "bit_decoder parse_ptl_general"
  unfolding parse_ptl_general_def by (intro decoder_intros)

lemma bit_decoder_ptl_presence: "i + k \<le> 6 \<Longrightarrow> bit_decoder (ptl_presence i k)"
proof (induction i k rule: ptl_presence.induct)
  case (1 i)
  then show ?case by (simp add: bit_decoder_return)
next
  case (2 i k)
  then have "bit_decoder (ptl_presence (Suc i) k)" "i < 6" by simp_all
  then show ?case by (simp only: ptl_presence.simps if_True) (intro decoder_intros)
qed

lemma bit_decoder_skip_bodies [decoder_intros]: "bit_decoder (ptl_skip_bodies flags)"
proof (induction flags rule: ptl_skip_bodies.induct)
  case 1
  then show ?case by (simp add: bit_decoder_return)
next
  case (2 p l rest)
  then show ?case by (simp only: ptl_skip_bodies.simps) (intro decoder_intros)
qed

lemma bit_decoder_ptl_sublayers:
  "n \<le> 6 \<Longrightarrow> bit_decoder (parse_ptl_sublayers n)"
  unfolding parse_ptl_sublayers_def by (intro decoder_intros bit_decoder_ptl_presence) simp

lemma bit_decoder_guard [decoder_intros]:
  "(\<not> b \<Longrightarrow> bit_decoder m) \<Longrightarrow> bit_decoder (if b then rd_fail e else m)"
  by (simp add: bit_decoder_fail)

lemma bit_decoder_parse_sps: "bit_decoder parse_sps_reader"
proof -
  have "\<not> (w :: u8) > 6 \<Longrightarrow> unat w \<le> 6" for w by (simp add: not_less word_le_nat_alt)
  then show ?thesis
    unfolding parse_sps_reader_def Let_def
    by (intro bit_decoder_bind bit_decoder_read_bits bit_decoder_guard bit_decoder_ptl_sublayers
        bit_decoder_read_bit bit_decoder_read_ue_v bit_decoder_if bit_decoder_return
        bit_decoder_ptl_general) blast
qed

interpretation sps: bit_decoder parse_sps_reader
  by (rule bit_decoder_parse_sps)

definition sps_wf :: "hevc_sps \<Rightarrow> bool" where
  "sps_wf s \<longleftrightarrow>
     0 < pic_width_in_luma_samples s \<and> pic_width_in_luma_samples s \<le> 16384 \<and>
     0 < pic_height_in_luma_samples s \<and> pic_height_in_luma_samples s \<le> 16384 \<and>
     chroma_format_idc s \<le> 3"

lemma parse_sps_reader_wf: "parse_sps_reader r = Ok (s, r') \<Longrightarrow> sps_wf s"
  unfolding parse_sps_reader_def Let_def rd_bind_Ok sps_wf_def
  by (auto simp: rd_bind_Ok not_less word_gt_0 split: if_splits)

section \<open>The bit layout, written\<close>

text \<open>
  The fields of an SPS up to the picture height, as numbers and raw bit runs.  A sub-layer carries an
  88-bit profile body, an 8-bit level, both, or neither.
\<close>

record sps_fields =
  f_vps_id :: nat
  f_nesting :: bool
  f_space :: nat
  f_tier :: bool
  f_idc :: nat
  f_compat :: nat
  f_source :: "bool list"
  f_constraints :: "bool list"
  f_level :: nat
  f_layers :: "(bool list option \<times> bool list option) list"
  f_padding :: "bool list"
  f_sps_id :: nat
  f_chroma :: nat
  f_plane :: bool
  f_width :: nat
  f_height :: nat

definition opt_bits :: "bool list option \<Rightarrow> bool list" where
  "opt_bits b = (case b of None \<Rightarrow> [] | Some bs \<Rightarrow> bs)"

definition layer_flags :: "(bool list option \<times> bool list option) list \<Rightarrow> (bool \<times> bool) list" where
  "layer_flags ls = map (\<lambda>(p, l). (p \<noteq> None, l \<noteq> None)) ls"

fun flag_bits :: "(bool \<times> bool) list \<Rightarrow> bool list" where
  "flag_bits [] = []"
| "flag_bits ((p, l) # fs) = [p] @ [l] @ flag_bits fs"

fun body_bits :: "(bool list option \<times> bool list option) list \<Rightarrow> bool list" where
  "body_bits [] = []"
| "body_bits ((p, l) # ls) = opt_bits p @ opt_bits l @ body_bits ls"

definition layer_ok :: "bool list option \<times> bool list option \<Rightarrow> bool" where
  "layer_ok pl \<longleftrightarrow> (case pl of (p, l) \<Rightarrow>
     (case p of None \<Rightarrow> True | Some bs \<Rightarrow> length bs = 88) \<and>
     (case l of None \<Rightarrow> True | Some bs \<Rightarrow> length bs = 8))"

definition sublayer_code :: "sps_fields \<Rightarrow> bool list" where
  "sublayer_code f = (if f_layers f = [] then []
     else flag_bits (layer_flags (f_layers f)) @ f_padding f @ body_bits (f_layers f))"

definition ptl_code :: "sps_fields \<Rightarrow> bool list" where
  "ptl_code f = nat_bits 2 (f_space f) @ [f_tier f] @ nat_bits 5 (f_idc f) @
     nat_bits 32 (f_compat f) @ [f_source f ! 0] @ [f_source f ! 1] @ [f_source f ! 2] @
     [f_source f ! 3] @ f_constraints f @ nat_bits 8 (f_level f)"

definition sps_code :: "sps_fields \<Rightarrow> bool list" where
  "sps_code f = nat_bits 4 (f_vps_id f) @ nat_bits 3 (length (f_layers f)) @ [f_nesting f] @
     ptl_code f @ sublayer_code f @ ue_code (f_sps_id f) @ ue_code (f_chroma f) @
     (if f_chroma f = 3 then [f_plane f] else []) @
     ue_code (f_width f) @ ue_code (f_height f)"

definition fields_ok :: "sps_fields \<Rightarrow> bool" where
  "fields_ok f \<longleftrightarrow>
     f_vps_id f < 16 \<and> length (f_layers f) \<le> 6 \<and> list_all layer_ok (f_layers f) \<and>
     f_space f < 4 \<and> f_idc f < 32 \<and> f_compat f < 2 ^ 32 \<and> length (f_source f) = 4 \<and>
     length (f_constraints f) = 44 \<and> f_level f < 256 \<and>
     length (f_padding f) = 2 * (8 - length (f_layers f)) \<and>
     f_sps_id f < 2 ^ 32 \<and> f_chroma f \<le> 3 \<and>
     0 < f_width f \<and> f_width f \<le> 16384 \<and> 0 < f_height f \<and> f_height f \<le> 16384"

definition sps_of_fields :: "sps_fields \<Rightarrow> hevc_sps" where
  "sps_of_fields f =
     \<lparr>general_profile_space = of_nat (f_space f),
      general_tier_flag = f_tier f,
      general_profile_idc = of_nat (f_idc f),
      general_profile_compatibility_flags = of_nat (f_compat f),
      general_level_idc = of_nat (f_level f),
      chroma_format_idc = of_nat (f_chroma f),
      pic_width_in_luma_samples = of_nat (f_width f),
      pic_height_in_luma_samples = of_nat (f_height f)\<rparr>"

lemma of_bool_eq_1_u8 [simp]: "((of_bool b :: u8) = 1) = b"
  by simp

lemma reads_ptl_presence:
  "i + length fs \<le> 6 \<Longrightarrow> reads (ptl_presence i (length fs)) (flag_bits fs) fs"
proof (induction fs arbitrary: i)
  case Nil
  then show ?case by (simp add: reads_return)
next
  case (Cons pl fs)
  obtain p l where pl: "pl = (p, l)" by (cases pl)
  have h1: "reads (rd_bind (ptl_presence (Suc i) (length fs)) (\<lambda>rest. rd_return ((p, l) # rest)))
      (flag_bits fs) ((p, l) # fs)"
    using Cons by (intro reads_bind_last [OF Cons.IH reads_return]) simp
  have h2: "reads (rd_bind read_bit (\<lambda>v. rd_bind (ptl_presence (Suc i) (length fs))
      (\<lambda>rest. rd_return ((p, v = 1) # rest)))) ([l] @ flag_bits fs) ((p, l) # fs)"
    by (rule reads_bind [OF reads_read_bit]) (simp add: h1)
  have "reads (rd_bind read_bit (\<lambda>u. rd_bind read_bit (\<lambda>v. rd_bind
      (ptl_presence (Suc i) (length fs)) (\<lambda>rest. rd_return ((u = 1, v = 1) # rest)))))
      ([p] @ [l] @ flag_bits fs) ((p, l) # fs)"
    by (rule reads_bind [OF reads_read_bit]) (simp only: of_bool_eq_1_u8 h2)
  with Cons.prems show ?case by (simp add: pl)
qed

lemma reads_opt_bits:
  "(case b of None \<Rightarrow> True | Some bs \<Rightarrow> length bs = n) \<Longrightarrow>
     reads (if b \<noteq> None then skip_bits n else rd_return ()) (opt_bits b) ()"
  by (cases b) (auto simp: opt_bits_def reads_skip_bits reads_return)

lemma reads_skip_bodies:
  "list_all layer_ok ls \<Longrightarrow> reads (ptl_skip_bodies (layer_flags ls)) (body_bits ls) ()"
proof (induction ls)
  case Nil
  then show ?case by (simp add: layer_flags_def reads_return)
next
  case (Cons pl ls)
  obtain p l where pl: "pl = (p, l)" by (cases pl)
  show ?case
    using Cons unfolding pl layer_flags_def list.map prod.case ptl_skip_bodies.simps body_bits.simps
    by (intro reads_bind [OF reads_opt_bits] reads_bind [OF reads_opt_bits])
      (auto simp: layer_ok_def)
qed

lemma reads_sublayers:
  assumes "fields_ok f"
  shows "reads (parse_ptl_sublayers (length (f_layers f))) (sublayer_code f) ()"
proof -
  have "reads (ptl_presence 0 (length (f_layers f))) (flag_bits (layer_flags (f_layers f)))
      (layer_flags (f_layers f))"
    using reads_ptl_presence [of 0 "layer_flags (f_layers f)"] assms
    by (simp add: fields_ok_def layer_flags_def)
  with assms show ?thesis
    unfolding parse_ptl_sublayers_def sublayer_code_def
    by (auto simp: fields_ok_def reads_return
        intro!: reads_bind [of "ptl_presence _ _"] reads_bind [OF reads_skip_bits] reads_skip_bodies)
qed

lemma ucast_u8_of_nat': "k < 256 \<Longrightarrow> (ucast (of_nat k :: u32) :: u8) = of_nat k"
  by (simp add: word_unat_eq_iff unsigned_ucast_eq unsigned_of_nat take_bit_eq_mod)

lemma reads_ptl_general:
  assumes "fields_ok f"
  shows "reads parse_ptl_general (ptl_code f)
    \<lparr>ptl_profile_space = of_nat (f_space f), ptl_tier_flag = f_tier f,
     ptl_profile_idc = of_nat (f_idc f), ptl_profile_compatibility_flags = of_nat (f_compat f),
     ptl_level_idc = of_nat (f_level f)\<rparr>"
  using assms unfolding parse_ptl_general_def ptl_code_def
  by (intro reads_bind [OF reads_read_bits] reads_bind [OF reads_read_bit]
      reads_bind [OF reads_skip_bits] reads_bind_last [OF reads_read_bits])
    (simp_all add: fields_ok_def ucast_u8_of_nat' reads_return)

lemma word_of_nat_le_iff:
  "j < 2 ^ LENGTH('a) \<Longrightarrow> k < 2 ^ LENGTH('a) \<Longrightarrow> ((of_nat j :: 'a::len word) \<le> of_nat k) = (j \<le> k)"
  by (simp add: word_le_nat_alt unsigned_of_nat take_bit_eq_mod)

lemma dimension_ok:
  assumes "0 < w" "w \<le> 16384"
  shows "(of_nat w :: u32) \<noteq> 0" "\<not> (of_nat w :: u32) > 16384"
proof -
  have "unat (of_nat w :: u32) = w" using assms by (simp add: unsigned_of_nat take_bit_eq_mod)
  then show "(of_nat w :: u32) \<noteq> 0" "\<not> (of_nat w :: u32) > 16384"
    using assms by (auto simp: word_less_nat_alt simp flip: unat_eq_zero)
qed

lemma chroma_word:
  assumes "c \<le> 3"
  shows "\<not> (of_nat c :: u32) > 3" "((of_nat c :: u32) = 3) = (c = 3)"
proof -
  have "unat (of_nat c :: u32) = c" using assms by (simp add: unsigned_of_nat take_bit_eq_mod)
  then show "\<not> (of_nat c :: u32) > 3" "((of_nat c :: u32) = 3) = (c = 3)"
    using assms by (auto simp: word_less_nat_alt word_unat_eq_iff)
qed

lemma layers_word:
  assumes "n \<le> 6"
  shows "\<not> (ucast (of_nat n :: u32) :: u8) > 6" "unat (ucast (of_nat n :: u32) :: u8) = n"
proof -
  show u: "unat (ucast (of_nat n :: u32) :: u8) = n"
    using assms by (simp add: ucast_u8_of_nat' unsigned_of_nat take_bit_eq_mod)
  show "\<not> (ucast (of_nat n :: u32) :: u8) > 6"
    using u assms by (simp add: word_less_nat_alt)
qed

lemma reads_plane:
  "reads (if c = 3 then read_bit else rd_return 0) (if c = 3 then [b] else [])
     (if c = 3 then of_bool b else 0)"
  using reads_read_bit [of b] by (simp add: reads_return)

lemma reads_guard: "\<not> b \<Longrightarrow> reads m c v \<Longrightarrow> reads (if b then rd_fail e else m) c v"
  by simp

lemma reads_sps:
  assumes f: "fields_ok f"
  shows "reads parse_sps_reader (sps_code f) (sps_of_fields f)"
proof -
  have n: "length (f_layers f) \<le> 6" and c: "f_chroma f \<le> 3"
    and w: "0 < f_width f" "f_width f \<le> 16384" and h: "0 < f_height f" "f_height f \<le> 16384"
    using f by (simp_all add: fields_ok_def)
  note plane = reads_plane [of "of_nat (f_chroma f) :: u32" "f_plane f",
      unfolded chroma_word(2) [OF c]]
  show ?thesis
    unfolding parse_sps_reader_def sps_code_def Let_def chroma_word(2) [OF c, symmetric]
    apply (rule reads_bind [OF reads_read_bits])
    subgoal using f by (simp add: fields_ok_def)
    subgoal using f by (simp add: fields_ok_def)
    apply (rule reads_bind [OF reads_read_bits])
    subgoal by simp
    subgoal using n by simp
    apply (rule reads_guard [OF layers_word(1) [OF n]])
    unfolding layers_word(2) [OF n]
    apply (rule reads_bind [OF reads_read_bit])
    apply (rule reads_bind [OF reads_ptl_general [OF f]])
    apply (rule reads_bind [OF reads_sublayers [OF f]])
    apply (rule reads_bind [OF reads_ue])
    subgoal using f by (simp add: fields_ok_def)
    apply (rule reads_bind [OF reads_ue])
    subgoal using c by simp
    apply (rule reads_guard [OF chroma_word(1) [OF c]])
    apply (rule reads_bind [OF reads_plane])
    apply (rule reads_bind [OF reads_ue])
    subgoal using w by simp
    apply (rule reads_bind_last [OF reads_ue])
    subgoal using h by simp
    using dimension_ok [OF w] dimension_ok [OF h]
    by (simp add: sps_of_fields_def reads_return)
qed

definition sps_example :: sps_fields where
  "sps_example = \<lparr>f_vps_id = 0, f_nesting = True, f_space = 0, f_tier = False, f_idc = 1,
     f_compat = 0x60000000, f_source = [True, False, False, True], f_constraints = replicate 44 False,
     f_level = 93, f_layers = [(None, Some (nat_bits 8 90))], f_padding = replicate 14 False,
     f_sps_id = 0, f_chroma = 1, f_plane = False, f_width = 1920, f_height = 1080\<rparr>"

definition sps_example_rbsp :: bytes where
  "sps_example_rbsp = pack_bits (sps_code sps_example)"

lemma sps_example_ok: "fields_ok sps_example"
  by (simp add: fields_ok_def sps_example_def layer_ok_def)

section \<open>Properties\<close>

text \<open>
  The SPS parser never panics on any payload, and every SPS it accepts has a chroma format of at
  most 3 and a width and height between 1 and 16384.
\<close>

theorem parse_sps_safe:
  "no_panic (parse_sps payload) \<and> (\<forall>s. parse_sps payload = Ok s \<longrightarrow> sps_wf s)"
proof -
  have "no_panic (parse_sps_reader (reader_new (rbsp_from_ebsp payload)))"
    by (rule sps.run_no_panic)
  then show ?thesis
    by (cases "parse_sps_reader (reader_new (rbsp_from_ebsp payload))")
      (auto simp: parse_sps_def Let_def dest: parse_sps_reader_wf)
qed

theorem parse_sps_safe_witness: "sps_wf (sps_of_fields sps_example)"
proof -
  have "parse_sps (ebsp_from_rbsp 0 sps_example_rbsp) = Ok (sps_of_fields sps_example)"
    using reads_pack_bits [OF reads_sps [OF sps_example_ok]]
      rbsp_after_escape [of 0 sps_example_rbsp]
    by (simp add: parse_sps_def Let_def sps_example_rbsp_def)
  with parse_sps_safe [of "ebsp_from_rbsp 0 sps_example_rbsp"] show ?thesis by blast
qed

text \<open>
  C34. The SPS parser inverts the SPS layout under emulation prevention: for every choice of fields,
  sub-layers included, a payload whose un-escaped bytes start with the encoding parses to the
  profile, tier, level, chroma and resolution that were written.
\<close>

theorem parse_sps_roundtrip:
  assumes "fields_ok f" and "bit_stream rbsp = sps_code f @ tail"
  shows "parse_sps (ebsp_from_rbsp 0 rbsp) = Ok (sps_of_fields f)"
  using reads_new [OF reads_sps [OF assms(1)] assms(2)] rbsp_after_escape [of 0 rbsp]
  by (simp add: parse_sps_def Let_def)

theorem parse_sps_roundtrip_witness:
  "parse_sps (ebsp_from_rbsp 0 sps_example_rbsp) = Ok (sps_of_fields sps_example) \<and>
   pic_width_in_luma_samples (sps_of_fields sps_example) = 1920"
proof -
  obtain k where "bit_stream sps_example_rbsp = sps_code sps_example @ replicate k False"
    using bit_stream_pack_bits by (auto simp: sps_example_rbsp_def)
  from parse_sps_roundtrip [OF sps_example_ok this] show ?thesis
    by (simp add: sps_of_fields_def sps_example_def)
qed

end
