(* ===== verification/Scte35.thy ===== *)
theory Scte35
  imports BitReader
begin

text \<open>
  The SCTE-35 splice_info_section parser of \<open>lvqr-codec/src/scte35.rs\<close>, with the byte indexing of the
  source (an out-of-range index is a panic), and its CRC-32/MPEG-2.  The lemmas show that the parser
  never panics, what an accepted section looks like, that the checksum separates any two sections
  that differ in one byte, and the round trip of splice_insert and time_signal sections.
\<close>

section \<open>Constants and data\<close>

definition TABLE_ID :: u8 where "TABLE_ID = 0xFC"
definition CMD_SPLICE_NULL :: u8 where "CMD_SPLICE_NULL = 0x00"
definition CMD_SPLICE_SCHEDULE :: u8 where "CMD_SPLICE_SCHEDULE = 0x04"
definition CMD_SPLICE_INSERT :: u8 where "CMD_SPLICE_INSERT = 0x05"
definition CMD_TIME_SIGNAL :: u8 where "CMD_TIME_SIGNAL = 0x06"
definition CMD_BANDWIDTH_RESERVATION :: u8 where "CMD_BANDWIDTH_RESERVATION = 0x07"
definition CMD_PRIVATE_COMMAND :: u8 where "CMD_PRIVATE_COMMAND = 0xFF"

record splice_info =
  command_type :: u8
  pts_adjustment :: u64
  si_pts :: "u64 option"
  si_duration :: "u64 option"
  si_event_id :: "u32 option"
  si_cancel :: bool
  si_out_of_network :: bool
  si_raw :: bytes

record parsed_splice_insert =
  psi_event_id :: u32
  psi_cancel :: bool
  psi_out_of_network :: bool
  psi_pts :: "u64 option"
  psi_duration :: "u64 option"

definition absolute_pts :: "splice_info \<Rightarrow> u64 option" where
  "absolute_pts s =
     map_option (\<lambda>p. (p + pts_adjustment s) AND (push_bit 33 1 - 1)) (si_pts s)"

section \<open>The checksum\<close>

definition crc_shift :: "u32 \<Rightarrow> u32" where
  "crc_shift crc = (if crc AND 0x80000000 \<noteq> 0 then push_bit 1 crc XOR 0x04C11DB7 else push_bit 1 crc)"

definition crc_byte :: "u32 \<Rightarrow> u8 \<Rightarrow> u32" where
  "crc_byte crc byte = (crc_shift ^^ 8) (crc XOR push_bit 24 (ucast byte))"

definition crc32_mpeg2 :: "bytes \<Rightarrow> u32" where
  "crc32_mpeg2 data = foldl crc_byte 0xFFFFFFFF data"

section \<open>The parsers\<close>

text \<open>One bit of \<open>b0\<close> and four whole bytes: the 33-bit fields of the section.\<close>

definition be33 :: "u8 \<Rightarrow> u8 \<Rightarrow> u8 \<Rightarrow> u8 \<Rightarrow> u8 \<Rightarrow> u64" where
  "be33 b0 b1 b2 b3 b4 =
     push_bit 32 (ucast (b0 AND 0x01)) OR push_bit 24 (ucast b1) OR push_bit 16 (ucast b2) OR
     push_bit 8 (ucast b3) OR ucast b4"

definition read_be33 :: "bytes \<Rightarrow> nat \<Rightarrow> (u64, codec_error) outcome" where
  "read_be33 bs c =
     obind (idx bs c) (\<lambda>b0. obind (idx bs (c + 1)) (\<lambda>b1. obind (idx bs (c + 2)) (\<lambda>b2.
     obind (idx bs (c + 3)) (\<lambda>b3. obind (idx bs (c + 4)) (\<lambda>b4. Ok (be33 b0 b1 b2 b3 b4))))))"

definition read_be32 :: "bytes \<Rightarrow> nat \<Rightarrow> (u32, codec_error) outcome" where
  "read_be32 bs c =
     obind (idx bs c) (\<lambda>b0. obind (idx bs (c + 1)) (\<lambda>b1. obind (idx bs (c + 2)) (\<lambda>b2.
     obind (idx bs (c + 3)) (\<lambda>b3. Ok (be32 b0 b1 b2 b3)))))"

definition parse_splice_time_inline :: "bytes \<Rightarrow> (u64 option \<times> nat, codec_error) outcome" where
  "parse_splice_time_inline body =
     (if body = [] then Err (EndOfStream 1 0)
      else obind (idx body 0) (\<lambda>b0.
        if b0 AND 0x80 = 0 then Ok (None, 1)
        else if length body < 5 then Err (EndOfStream 5 (length body))
        else obind (read_be33 body 0) (\<lambda>pts. Ok (Some pts, 5))))"

definition parse_splice_time :: "bytes \<Rightarrow> (u64 option, codec_error) outcome" where
  "parse_splice_time body = obind (parse_splice_time_inline body) (\<lambda>(v, _). Ok v)"

text \<open>The \<open>for _ in 0..component_count\<close> loop; it returns the cursor behind the last component.\<close>

fun skip_components :: "bytes \<Rightarrow> bool \<Rightarrow> nat \<Rightarrow> nat \<Rightarrow> (nat, codec_error) outcome" where
  "skip_components body splice_immediate 0 cursor = Ok cursor"
| "skip_components body splice_immediate (Suc k) cursor =
     (if cursor \<ge> length body then Err (EndOfStream (cursor + 1) (length body))
      else if splice_immediate then skip_components body splice_immediate k (cursor + 1)
      else obind (slice body (cursor + 1) (length body)) (\<lambda>tail.
        obind (parse_splice_time_inline tail) (\<lambda>(_, consumed).
          skip_components body splice_immediate k (cursor + 1 + consumed))))"

definition parse_splice_insert :: "bytes \<Rightarrow> (parsed_splice_insert, codec_error) outcome" where
  "parse_splice_insert body =
     (if length body < 5 then Err (EndOfStream 5 (length body))
      else obind (read_be32 body 0) (\<lambda>event_id.
        obind (idx body 4) (\<lambda>b4.
        let cancel = (b4 AND 0x80 \<noteq> 0) in
        if cancel then
          Ok \<lparr>psi_event_id = event_id, psi_cancel = True, psi_out_of_network = False,
              psi_pts = None, psi_duration = None\<rparr>
        else if length body < 6 then Err (EndOfStream 6 (length body))
        else obind (idx body 5) (\<lambda>flags.
          let out_of_network = (flags AND 0x80 \<noteq> 0);
              program_splice = (flags AND 0x40 \<noteq> 0);
              duration_flag = (flags AND 0x20 \<noteq> 0);
              splice_immediate = (flags AND 0x10 \<noteq> 0)
          in
          obind (if program_splice \<and> \<not> splice_immediate then
                   obind (slice body 6 (length body)) (\<lambda>tail.
                   obind (parse_splice_time_inline tail) (\<lambda>(pts, consumed).
                     Ok (pts, 6 + consumed)))
                 else Ok (None, 6)) (\<lambda>(pts, cursor).
          obind (if \<not> program_splice then
                   (if cursor \<ge> length body then Err (EndOfStream (cursor + 1) (length body))
                    else obind (idx body cursor) (\<lambda>component_count.
                      skip_components body splice_immediate (unat component_count) (cursor + 1)))
                 else Ok cursor) (\<lambda>cursor.
          obind (if duration_flag then
                   (if length body < cursor + 5 then Err (EndOfStream (cursor + 5) (length body))
                    else obind (read_be33 body cursor) (\<lambda>dur. Ok (Some dur)))
                 else Ok None) (\<lambda>duration.
            Ok \<lparr>psi_event_id = event_id, psi_cancel = False, psi_out_of_network = out_of_network,
                psi_pts = pts, psi_duration = duration\<rparr>)))))))"

definition parse_splice_command ::
    "u8 \<Rightarrow> bool \<Rightarrow> bytes \<Rightarrow> (parsed_splice_insert option \<times> u64 option, codec_error) outcome" where
  "parse_splice_command ct encrypted cmd_body =
     (if encrypted then Ok (None, None)
      else if ct = CMD_SPLICE_INSERT then
        obind (parse_splice_insert cmd_body) (\<lambda>p. Ok (Some p, psi_pts p))
      else if ct = CMD_TIME_SIGNAL then
        obind (parse_splice_time cmd_body) (\<lambda>pts. Ok (None, pts))
      else Ok (None, None))"

definition parse_splice_info_section :: "bytes \<Rightarrow> (splice_info, codec_error) outcome" where
  "parse_splice_info_section bs =
     (if length bs < 17 then Err (EndOfStream 17 (length bs))
      else obind (idx bs 0) (\<lambda>b0.
        if b0 \<noteq> TABLE_ID then Err (Scte35Malformed ''table_id != 0xFC'')
        else obind (idx bs 1) (\<lambda>b1. obind (idx bs 2) (\<lambda>b2.
        let section_length = unat (be16 (b1 AND 0x0F) b2);
            total_len = 3 + section_length in
        if total_len > length bs then Err (EndOfStream total_len (length bs))
        else if section_length < 15 then Err (Scte35Malformed ''section_length too short'')
        else
        let crc_offset = total_len - 4 in
        obind (slice bs 0 crc_offset) (\<lambda>covered.
        let computed = crc32_mpeg2 covered in
        obind (read_be32 bs crc_offset) (\<lambda>wire.
        if computed \<noteq> wire then Err (Scte35BadCrc computed wire)
        else
        obind (idx bs 4) (\<lambda>b4.
        let encrypted = (b4 AND 0x80 \<noteq> 0) in
        obind (read_be33 bs 4) (\<lambda>adjustment.
        obind (idx bs 11) (\<lambda>b11. obind (idx bs 12) (\<lambda>b12. obind (idx bs 13) (\<lambda>ct.
        let splice_command_length = unat (be16 (b11 AND 0x0F) b12);
            cmd_end = (if splice_command_length = 0xFFF then 14 else 14 + splice_command_length) in
        if cmd_end > crc_offset then Err (Scte35Malformed ''splice_command extends past section'')
        else
        obind (slice bs 14 crc_offset) (\<lambda>cmd_body.
        obind (parse_splice_command ct encrypted cmd_body) (\<lambda>(ins, pts).
        obind (slice bs 0 total_len) (\<lambda>raw.
          Ok \<lparr>command_type = ct, pts_adjustment = adjustment, si_pts = pts,
              si_duration = Option.bind ins psi_duration,
              si_event_id = map_option psi_event_id ins,
              si_cancel = (case ins of None \<Rightarrow> False | Some p \<Rightarrow> psi_cancel p),
              si_out_of_network = (case ins of None \<Rightarrow> False | Some p \<Rightarrow> psi_out_of_network p),
              si_raw = raw\<rparr>))))))))))))))"

section \<open>Safety\<close>

lemma read_be33_Ok [simp]: "c + 5 \<le> length bs \<Longrightarrow>
    read_be33 bs c = Ok (be33 (bs ! c) (bs ! (c + 1)) (bs ! (c + 2)) (bs ! (c + 3)) (bs ! (c + 4)))"
  by (simp add: read_be33_def)

lemma read_be32_Ok [simp]: "c + 4 \<le> length bs \<Longrightarrow>
    read_be32 bs c = Ok (be32 (bs ! c) (bs ! (c + 1)) (bs ! (c + 2)) (bs ! (c + 3)))"
  by (simp add: read_be32_def)

lemma no_panic_be33 [intro]: "c + 5 \<le> length bs \<Longrightarrow> no_panic (read_be33 bs c)"
  by simp

lemma no_panic_be32 [intro]: "c + 4 \<le> length bs \<Longrightarrow> no_panic (read_be32 bs c)"
  by simp

lemma splice_time_inline_eq:
  "parse_splice_time_inline body =
     (case body of [] \<Rightarrow> Err (EndOfStream 1 0)
      | b0 # rest \<Rightarrow>
         if b0 AND 0x80 = 0 then Ok (None, 1)
         else if length rest < 4 then Err (EndOfStream 5 (length body))
         else Ok (Some (be33 b0 (rest ! 0) (rest ! 1) (rest ! 2) (rest ! 3)), 5))"
  by (cases body) (auto simp: parse_splice_time_inline_def numeral_eq_Suc)

lemma splice_time_inline_consumed:
  "parse_splice_time_inline body = Ok (v, n) \<Longrightarrow> n \<le> length body"
  by (auto simp: splice_time_inline_eq split: list.splits if_splits)

lemma splice_time_inline_no_panic: "no_panic (parse_splice_time_inline body)"
  by (auto simp: splice_time_inline_eq split: list.splits)

lemma splice_time_no_panic: "no_panic (parse_splice_time body)"
  using splice_time_inline_no_panic [of body]
  by (cases "parse_splice_time_inline body") (auto simp: parse_splice_time_def)

lemma skip_components_no_panic: "no_panic (skip_components body imm k cursor)"
proof (induction body imm k cursor rule: skip_components.induct)
  case (2 body imm k cursor)
  have "no_panic (obind (slice body (cursor + 1) (length body)) (\<lambda>tail.
      obind (parse_splice_time_inline tail) (\<lambda>(_, consumed).
        skip_components body imm k (cursor + 1 + consumed))))"
    if c: "\<not> length body \<le> cursor" and i: "\<not> imm"
    by (rule no_panic_obind, use c in simp, rule no_panic_obind,
        rule splice_time_inline_no_panic) (use 2(2) [OF c i] in \<open>auto simp: slice_eq_Ok\<close>)
  with 2(1) show ?case by simp
qed simp

lemma parse_splice_insert_no_panic: "no_panic (parse_splice_insert body)"
proof -
  have t: "no_panic (obind (slice body 6 (length body)) (\<lambda>tail.
      obind (parse_splice_time_inline tail) (\<lambda>(pts, consumed). Ok (pts, 6 + consumed))))"
    if "\<not> length body < 6"
    using that splice_time_inline_no_panic [of "drop 6 body"]
    by (auto intro!: no_panic_obind)
  show ?thesis
    unfolding parse_splice_insert_def Let_def
    by (intro no_panic_obind no_panic_if no_panic_Let no_panic_idx no_panic_be33 no_panic_be32
        skip_components_no_panic t)
      (auto intro!: skip_components_no_panic t no_panic_obind)
qed

lemma parse_splice_command_no_panic: "no_panic (parse_splice_command ct enc body)"
  using parse_splice_insert_no_panic splice_time_no_panic
  by (auto simp: parse_splice_command_def intro!: no_panic_obind)

lemma parse_section_no_panic: "no_panic (parse_splice_info_section bs)"
  unfolding parse_splice_info_section_def Let_def
  by (intro no_panic_obind no_panic_if no_panic_idx no_panic_be33 no_panic_be32 no_panic_slice
      parse_splice_command_no_panic no_panic_simps) auto

section \<open>The checksum separates byte changes\<close>

lemma word_xor_cancel:
  "(a XOR c = b XOR c) = (a = (b :: 'a::len word))" "(c XOR a = c XOR b) = (a = b)"
  by (auto simp: bit_eq_iff bit_simps)

lemma crc_shift_inj: "crc_shift a = crc_shift b \<Longrightarrow> a = b"
proof -
  have msb: "(c AND 0x80000000 \<noteq> 0) = bit c 31" for c :: u32
  proof -
    have "c AND push_bit 31 1 = push_bit 31 (of_bool (bit c 31))"
    proof (rule bit_word_eqI)
      fix n assume "n < LENGTH(32)"
      then show "bit (c AND push_bit 31 1) n = bit (push_bit 31 (of_bool (bit c 31)) :: u32) n"
        by (cases "n = 31") (auto simp: bit_simps bit_1_iff simp del: push_bit_of_1)
    qed
    then have "c AND 0x80000000 = push_bit 31 (of_bool (bit c 31))" by simp
    then show ?thesis by (simp split: split_of_bool)
  qed
  have low: "bit (crc_shift c) 0 = bit c 31" for c
    by (auto simp: crc_shift_def msb bit_simps bit_0 even_xor_iff)
  assume eq: "crc_shift a = crc_shift b"
  then have top: "bit a 31 = bit b 31" using low [of a] low [of b] by simp
  then have p: "push_bit 1 a = push_bit 1 b"
    using eq by (cases "bit b 31") (simp_all add: crc_shift_def msb word_xor_cancel)
  show "a = b"
  proof (rule bit_word_eqI)
    fix n assume n: "n < LENGTH(32)"
    show "bit a n = bit b n"
    proof (cases "n = 31")
      case False
      with n have "bit (push_bit 1 a) (Suc n) = bit a n" "bit (push_bit 1 b) (Suc n) = bit b n"
        by (simp_all only: bit_push_bit_iff) auto
      with p show ?thesis by simp
    qed (simp add: top)
  qed
qed

lemma crc_shift_pow_inj: "(crc_shift ^^ n) a = (crc_shift ^^ n) b \<Longrightarrow> a = b"
  by (induction n) (auto dest: crc_shift_inj)

lemma crc_byte_inj_state: "crc_byte a x = crc_byte b x \<Longrightarrow> a = b"
  unfolding crc_byte_def by (drule crc_shift_pow_inj) (simp add: word_xor_cancel)

lemma crc_byte_inj_byte: "crc_byte a x = crc_byte a y \<Longrightarrow> x = y"
proof -
  assume "crc_byte a x = crc_byte a y"
  then have "a XOR push_bit 24 (ucast x) = a XOR push_bit 24 (ucast y)"
    unfolding crc_byte_def by (rule crc_shift_pow_inj)
  then have eq: "push_bit 24 (ucast x) = (push_bit 24 (ucast y) :: u32)"
    by (simp add: word_xor_cancel)
  show "x = y"
  proof (rule bit_word_eqI)
    fix n assume n: "n < LENGTH(8)"
    then have "bit (push_bit 24 (ucast x) :: u32) (24 + n) = bit x n"
      "bit (push_bit 24 (ucast y) :: u32) (24 + n) = bit y n" by (auto simp: bit_simps)
    with eq show "bit x n = bit y n" by simp
  qed
qed

lemma crc_fold_inj: "foldl crc_byte a bs = foldl crc_byte b bs \<Longrightarrow> a = b"
  by (induction bs arbitrary: a b) (auto dest: crc_byte_inj_state)

lemma crc_separates: "crc32_mpeg2 (p @ x # q) = crc32_mpeg2 (p @ y # q) \<Longrightarrow> x = y"
  by (auto simp: crc32_mpeg2_def dest!: crc_fold_inj crc_byte_inj_byte)

lemma crc_update_neq:
  assumes "i < length bs" "bs ! i \<noteq> x"
  shows "crc32_mpeg2 (bs[i := x]) \<noteq> crc32_mpeg2 bs"
  using crc_separates [of "take i bs" x "drop (Suc i) bs" "bs ! i"] assms
  by (auto simp: upd_conv_take_nth_drop id_take_nth_drop [symmetric])

section \<open>What an accepted section is\<close>

definition section_total :: "bytes \<Rightarrow> nat" where
  "section_total bs = 3 + unat (be16 (bs ! 1 AND 0x0F) (bs ! 2))"

definition section_wire_crc :: "bytes \<Rightarrow> u32" where
  "section_wire_crc bs = (let o1 = section_total bs - 4 in
     be32 (bs ! o1) (bs ! (o1 + 1)) (bs ! (o1 + 2)) (bs ! (o1 + 3)))"

definition section_framed :: "bytes \<Rightarrow> bool" where
  "section_framed bs \<longleftrightarrow> 17 \<le> length bs \<and> bs ! 0 = TABLE_ID \<and> section_total bs \<le> length bs \<and>
     18 \<le> section_total bs"

lemma section_framed_or_err:
  assumes "\<not> section_framed bs"
  shows "\<exists>e. parse_splice_info_section bs = Err e"
proof (cases "length bs < 17")
  case False
  then have "i < 17 \<Longrightarrow> idx bs i = (Ok (bs ! i) :: (u8, codec_error) outcome)" for i by simp
  note i = this [of 0, simplified] this [of 1, simplified] this [of 2, simplified]
  from False assms show ?thesis
    by (auto simp: i parse_splice_info_section_def section_framed_def section_total_def Let_def)
qed (simp add: parse_splice_info_section_def)

lemma section_framed_idx: "section_framed bs \<Longrightarrow> i < 18 \<Longrightarrow> idx bs i = Ok (bs ! i)"
  by (simp add: section_framed_def)

lemma section_framed_slices:
  fixes bs :: bytes
  assumes "section_framed bs"
  defines "l \<equiv> unat (be16 (bs ! 1 AND 0x0F) (bs ! 2))"
  shows "slice bs 0 (l - 1) = Ok (take (l - 1) bs)"
    and "slice bs 14 (l - 1) = Ok (take (l - 15) (drop 14 bs))"
    and "slice bs 0 (3 + l) = Ok (take (3 + l) bs)"
    and "read_be32 bs (l - 1) = Ok (be32 (bs ! (l - 1)) (bs ! l) (bs ! (l + 1)) (bs ! (l + 2)))"
proof -
  have l: "15 \<le> l" "3 + l \<le> length bs" using assms by (auto simp: section_framed_def section_total_def)
  then have "0 \<le> l - 1" "l - 1 \<le> length bs" "14 \<le> l - 1" "l - 1 - 14 = l - 15" "l - 1 + 4 \<le> length bs"
    "l - 1 + 1 = l" "l - 1 + 2 = l + 1" "l - 1 + 3 = l + 2" by auto
  with l show "slice bs 0 (l - 1) = Ok (take (l - 1) bs)"
    "slice bs 14 (l - 1) = Ok (take (l - 15) (drop 14 bs))"
    "slice bs 0 (3 + l) = Ok (take (3 + l) bs)"
    "read_be32 bs (l - 1) = Ok (be32 (bs ! (l - 1)) (bs ! l) (bs ! (l + 1)) (bs ! (l + 2)))"
    by (simp_all only: slice_Ok read_be32_Ok drop0 diff_zero)
qed

lemmas section_steps = section_framed_idx section_framed_slices [simplified]

lemma section_crc_step:
  assumes "section_framed bs"
    and "crc32_mpeg2 (take (section_total bs - 4) bs) \<noteq> section_wire_crc bs"
  shows "parse_splice_info_section bs =
    Err (Scte35BadCrc (crc32_mpeg2 (take (section_total bs - 4) bs)) (section_wire_crc bs))"
  using assms
  by (simp add: section_steps [OF assms(1)] parse_splice_info_section_def section_framed_def section_total_def
      section_wire_crc_def Let_def)

definition section_pts :: "bytes \<Rightarrow> (parsed_splice_insert option \<times> u64 option, codec_error) outcome" where
  "section_pts bs = parse_splice_command (bs ! 13) (bs ! 4 AND 0x80 \<noteq> 0)
     (take (section_total bs - 18) (drop 14 bs))"

lemma section_body_step:
  assumes "section_framed bs"
    and "crc32_mpeg2 (take (section_total bs - 4) bs) = section_wire_crc bs"
  shows "parse_splice_info_section bs =
    (let n = unat (be16 (bs ! 11 AND 0x0F) (bs ! 12)) in
     if (if n = 0xFFF then 14 else 14 + n) > section_total bs - 4
     then Err (Scte35Malformed ''splice_command extends past section'')
     else obind (section_pts bs) (\<lambda>(ins, pts).
       Ok \<lparr>command_type = bs ! 13, pts_adjustment = be33 (bs ! 4) (bs ! 5) (bs ! 6) (bs ! 7) (bs ! 8),
           si_pts = pts, si_duration = Option.bind ins psi_duration,
           si_event_id = map_option psi_event_id ins,
           si_cancel = (case ins of None \<Rightarrow> False | Some p \<Rightarrow> psi_cancel p),
           si_out_of_network = (case ins of None \<Rightarrow> False | Some p \<Rightarrow> psi_out_of_network p),
           si_raw = take (section_total bs) bs\<rparr>))"
  using assms
  by (simp add: section_steps [OF assms(1)] parse_splice_info_section_def section_framed_def section_total_def
      section_wire_crc_def section_pts_def Let_def)

lemma section_accepted:
  assumes "parse_splice_info_section bs = Ok s"
  shows "section_framed bs" and "crc32_mpeg2 (take (section_total bs - 4) bs) = section_wire_crc bs"
    and "si_raw s = take (section_total bs) bs"
proof -
  show f: "section_framed bs" using section_framed_or_err assms by fastforce
  show c: "crc32_mpeg2 (take (section_total bs - 4) bs) = section_wire_crc bs"
    using section_crc_step [OF f] assms by fastforce
  show "si_raw s = take (section_total bs) bs"
    using assms section_body_step [OF f c] by (auto simp: Let_def obind_eq_Ok split: if_splits)
qed

section \<open>Sections, written\<close>

definition be33_bytes :: "u8 \<Rightarrow> u64 \<Rightarrow> bytes" where
  "be33_bytes high p = [high AND 0xFE OR (ucast (drop_bit 32 p) AND 1), ucast (drop_bit 24 p),
     ucast (drop_bit 16 p), ucast (drop_bit 8 p), ucast p]"

definition time_bytes :: "u64 option \<Rightarrow> bytes" where
  "time_bytes t = (case t of None \<Rightarrow> [0x7F] | Some p \<Rightarrow> be33_bytes 0xFE p)"

record insert_command =
  ic_event_id :: u32
  ic_cancel :: bool
  ic_out_of_network :: bool
  ic_program :: bool
  ic_immediate :: bool
  ic_time :: "u64 option"
  ic_components :: "(u8 \<times> u64 option) list"
  ic_duration :: "u64 option"
  ic_trailer :: bytes

definition component_bytes :: "bool \<Rightarrow> u8 \<times> u64 option \<Rightarrow> bytes" where
  "component_bytes imm c = fst c # (if imm then [] else time_bytes (snd c))"

definition insert_flags :: "insert_command \<Rightarrow> u8" where
  "insert_flags c = (if ic_out_of_network c then 0x80 else 0) OR (if ic_program c then 0x40 else 0) OR
     (if ic_duration c \<noteq> None then 0x20 else 0) OR (if ic_immediate c then 0x10 else 0) OR 0x0F"

definition insert_bytes :: "insert_command \<Rightarrow> bytes" where
  "insert_bytes c = be32_bytes (ic_event_id c) @ [if ic_cancel c then 0xFF else 0x7F] @
     (if ic_cancel c then [] else
        [insert_flags c] @
        (if ic_program c then (if ic_immediate c then [] else time_bytes (ic_time c))
         else of_nat (length (ic_components c)) #
              concat (map (component_bytes (ic_immediate c)) (ic_components c))) @
        (case ic_duration c of None \<Rightarrow> [] | Some d \<Rightarrow> be33_bytes 0xFE d) @ ic_trailer c)"

definition pts_fits :: "u64 option \<Rightarrow> bool" where
  "pts_fits t = (case t of None \<Rightarrow> True | Some p \<Rightarrow> p < 2 ^ 33)"

definition insert_ok :: "insert_command \<Rightarrow> bool" where
  "insert_ok c \<longleftrightarrow> pts_fits (ic_time c) \<and> pts_fits (ic_duration c) \<and>
     length (ic_components c) < 256 \<and> list_all (\<lambda>x. pts_fits (snd x)) (ic_components c)"

definition insert_parsed :: "insert_command \<Rightarrow> parsed_splice_insert" where
  "insert_parsed c =
     \<lparr>psi_event_id = ic_event_id c, psi_cancel = ic_cancel c,
      psi_out_of_network = (\<not> ic_cancel c \<and> ic_out_of_network c),
      psi_pts = (if ic_cancel c \<or> \<not> ic_program c \<or> ic_immediate c then None else ic_time c),
      psi_duration = (if ic_cancel c then None else ic_duration c)\<rparr>"

text \<open>
  A section: the first bytes with their reserved and flag bits, the 33-bit adjustment, the lengths
  computed from the parts, the command body, the descriptor loop, and the checksum.
\<close>

definition len12_bytes :: "u8 \<Rightarrow> nat \<Rightarrow> bytes" where
  "len12_bytes high n = [high AND 0xF0 OR (ucast (drop_bit 8 (of_nat n :: u16)) AND 0x0F),
     ucast (of_nat n :: u16)]"

definition section_covered :: "u8 \<Rightarrow> u64 \<Rightarrow> u8 \<Rightarrow> bytes \<Rightarrow> bytes \<Rightarrow> bytes" where
  "section_covered flags adj ct body desc =
     [TABLE_ID] @ len12_bytes 0x30 (length body + length desc + 17) @ [0] @ be33_bytes flags adj @
     [0, 0xFF] @ len12_bytes 0xF0 (length body) @ [ct] @ body @
     be16_bytes (of_nat (length desc)) @ desc"

definition section_bytes :: "u8 \<Rightarrow> u64 \<Rightarrow> u8 \<Rightarrow> bytes \<Rightarrow> bytes \<Rightarrow> bytes" where
  "section_bytes flags adj ct body desc =
     (let covered = section_covered flags adj ct body desc
      in covered @ be32_bytes (crc32_mpeg2 covered))"

lemma be33_of_bytes:
  assumes "p < 2 ^ 33"
  shows "be33 (high AND 0xFE OR (ucast (drop_bit 32 p) AND 1)) (ucast (drop_bit 24 p))
    (ucast (drop_bit 16 p)) (ucast (drop_bit 8 p)) (ucast p) = p"
proof (rule bit_word_eqI)
  fix n assume n: "n < LENGTH(64)"
  have "unat p < 2 ^ 33" using assms by (simp add: word_less_nat_alt)
  then have "take_bit 33 p = p"
    by (simp add: word_unat_eq_iff unsigned_take_bit_eq take_bit_nat_eq_self)
  then have hi: "33 \<le> n \<Longrightarrow> \<not> bit p n" by (metis bit_take_bit_iff not_le)
  have b0: "(high AND 0xFE OR (ucast (drop_bit 32 p) AND 1)) AND 0x01 = (of_bool (bit p 32) :: u8)"
  proof (rule bit_word_eqI)
    fix k assume "k < LENGTH(8)"
    then show "bit ((high AND 0xFE OR (ucast (drop_bit 32 p) AND 1)) AND (0x01 :: u8)) k =
        bit (of_bool (bit p 32) :: u8) k"
      by (cases "k = 0") (auto simp: bit_simps even_or_iff even_and_iff simp flip: bit_0)
  qed
  consider "n < 8" | "8 \<le> n \<and> n < 16" | "16 \<le> n \<and> n < 24" | "24 \<le> n \<and> n < 32" | "n = 32" | "33 \<le> n"
    by fastforce
  then show "bit (be33 (high AND 0xFE OR (ucast (drop_bit 32 p) AND 1)) (ucast (drop_bit 24 p))
      (ucast (drop_bit 16 p)) (ucast (drop_bit 8 p)) (ucast p)) n = bit p n"
    unfolding be33_def b0 using n hi by cases (auto simp: bit_simps)
qed


lemma high_and: "(h AND 0xFE OR (x AND 1)) AND 0x80 = (h AND 0x80 :: u8)"
  by (simp only: bit.conj_disj_distrib2 and.assoc) simp

lemma time_bytes_read:
  "pts_fits t \<Longrightarrow> parse_splice_time_inline (time_bytes t @ tail) = Ok (t, length (time_bytes t))"
  using high_and [of "0xFE"] be33_of_bytes [of _ "0xFE"]
  by (cases t) (simp_all add: time_bytes_def pts_fits_def splice_time_inline_eq be33_bytes_def)

lemma time_bytes_nonempty: "time_bytes t \<noteq> []"
  by (cases t) (simp_all add: time_bytes_def be33_bytes_def)

lemma read_be33_bytes:
  "p < 2 ^ 33 \<Longrightarrow> read_be33 (pre @ be33_bytes h p @ tail) (length pre) = Ok p"
  by (simp add: read_be33_def be33_bytes_def nth_append be33_of_bytes)

lemma skip_components_bytes:
  "list_all (\<lambda>x. pts_fits (snd x)) cs \<Longrightarrow>
   skip_components (pre @ concat (map (component_bytes imm) cs) @ tail) imm (length cs) (length pre) =
     Ok (length pre + length (concat (map (component_bytes imm) cs)))"
proof (induction cs arbitrary: pre)
  case Nil
  then show ?case by simp
next
  case (Cons c cs)
  let ?rest = "concat (map (component_bytes imm) cs) @ tail"
  from Cons.prems have fits: "pts_fits (snd c)" "list_all (\<lambda>x. pts_fits (snd x)) cs" by simp_all
  have IH: "skip_components ((pre @ component_bytes imm c) @ ?rest) imm (length cs)
      (length (pre @ component_bytes imm c)) =
      Ok (length (pre @ component_bytes imm c) + length (concat (map (component_bytes imm) cs)))"
    by (rule Cons.IH) (rule fits)
  show ?case
  proof (cases imm)
    case True
    with IH show ?thesis by (simp add: component_bytes_def [of _ c])
  next
    case False
    have t: "parse_splice_time_inline (time_bytes (snd c) @ ?rest) = Ok (snd c, length (time_bytes (snd c)))"
      using fits(1) by (rule time_bytes_read)
    from False IH t show ?thesis by (simp add: component_bytes_def [of _ c])
  qed
qed

lemma flags_bits:
  fixes a b c d :: bool
  defines "w \<equiv> (if a then 0x80 else 0) OR (if b then 0x40 else 0) OR (if c then 0x20 else 0) OR
     (if d then 0x10 else 0) OR (0x0F :: u8)"
  shows "(w AND 0x80 \<noteq> 0) = a" "(w AND 0x40 \<noteq> 0) = b" "(w AND 0x20 \<noteq> 0) = c" "(w AND 0x10 \<noteq> 0) = d"
  unfolding w_def by (cases a; cases b; cases c; cases d; simp)+

lemma insert_program_time:
  assumes "length head = 6" and "pts_fits (ic_time c)"
    and "mid = (if p then time_bytes (ic_time c) else mid')"
  shows "(if p then obind (slice (head @ mid @ rest) 6 (length (head @ mid @ rest))) (\<lambda>tail.
             obind (parse_splice_time_inline tail) (\<lambda>(pts, consumed). Ok (pts, 6 + consumed)))
          else Ok (None, 6)) =
    (Ok (if p then ic_time c else None, if p then 6 + length mid else 6) ::
       (u64 option \<times> nat, codec_error) outcome)"
proof -
  have "drop 6 (head @ mid @ rest) = mid @ rest" using assms(1) by simp
  then show ?thesis using assms time_bytes_read [of "ic_time c" rest] by simp
qed

lemma insert_components:
  assumes "length head = 6" and "insert_ok c"
    and "\<not> p \<Longrightarrow> mid = of_nat (length (ic_components c)) #
              concat (map (component_bytes imm) (ic_components c))"
    and "p \<Longrightarrow> cursor = 6 + length mid" and "\<not> p \<Longrightarrow> cursor = 6"
  shows "(if \<not> p then
            (if cursor \<ge> length (head @ mid @ rest)
             then Err (EndOfStream (cursor + 1) (length (head @ mid @ rest)))
             else obind (idx (head @ mid @ rest) cursor) (\<lambda>component_count.
               skip_components (head @ mid @ rest) imm (unat component_count) (cursor + 1)))
          else Ok cursor) = Ok (6 + length mid)"
proof (cases p)
  case False
  let ?cs = "ic_components c"
  have n: "unat (of_nat (length ?cs) :: u8) = length ?cs"
    using assms(2) by (simp add: insert_ok_def unsigned_of_nat take_bit_eq_mod)
  have "skip_components ((head @ [of_nat (length ?cs)]) @ concat (map (component_bytes imm) ?cs) @ rest)
      imm (length ?cs) (length (head @ [of_nat (length ?cs) :: u8])) =
      Ok (length (head @ [of_nat (length ?cs) :: u8]) + length (concat (map (component_bytes imm) ?cs)))"
    by (rule skip_components_bytes) (use assms(2) in \<open>simp add: insert_ok_def\<close>)
  with False assms n show ?thesis by (simp add: idx_def nth_append)
qed (use assms in simp)

lemma insert_duration:
  assumes "pts_fits d" and "dur = (case d of None \<Rightarrow> [] | Some d \<Rightarrow> be33_bytes 0xFE d)"
  shows "(if d \<noteq> None then
            (if length (pre @ dur @ rest) < length pre + 5
             then Err (EndOfStream (length pre + 5) (length (pre @ dur @ rest)))
             else obind (read_be33 (pre @ dur @ rest) (length pre)) (\<lambda>dur. Ok (Some dur)))
          else Ok None) = Ok d"
proof (cases d)
  case (Some x)
  have "length (be33_bytes 0xFE x) = 5" by (simp add: be33_bytes_def)
  moreover have "read_be33 (pre @ be33_bytes 0xFE x @ rest) (length pre) = Ok x"
    using Some assms by (intro read_be33_bytes) (simp add: pts_fits_def)
  ultimately show ?thesis using Some assms by (simp del: read_be33_Ok)
qed (use assms in simp)

lemma parse_insert_bytes:
  assumes ok: "insert_ok c"
  shows "parse_splice_insert (insert_bytes c @ tail) = Ok (insert_parsed c)"
proof (cases "ic_cancel c")
  case True
  then show ?thesis
    by (simp add: parse_splice_insert_def insert_bytes_def insert_parsed_def be32_bytes_def
        read_be32_def Let_def)
next
  case False
  define head where "head = be32_bytes (ic_event_id c) @ [0x7F, insert_flags c]"
  define dur where "dur = (case ic_duration c of None \<Rightarrow> [] | Some d \<Rightarrow> be33_bytes 0xFE d)"
  define mid where "mid = (if ic_program c then (if ic_immediate c then [] else time_bytes (ic_time c))
         else of_nat (length (ic_components c)) #
              concat (map (component_bytes (ic_immediate c)) (ic_components c)))"
  let ?rest = "dur @ ic_trailer c @ tail"
  define body where "body = head @ mid @ ?rest"
  let ?p = "ic_program c \<and> \<not> ic_immediate c"
  have b: "insert_bytes c @ tail = body"
    using False by (simp add: insert_bytes_def body_def head_def mid_def dur_def)
  have hl: "length head = 6" by (simp add: head_def)
  have bl: "\<not> length body < 5" "\<not> length body < 6" by (simp_all add: body_def hl)
  have id: "read_be32 body 0 = Ok (ic_event_id c)"
    by (simp add: body_def head_def read_be32_def be32_bytes_def)
  have b4: "idx body 4 = (Ok 0x7F :: (u8, codec_error) outcome)"
    and b5: "idx body 5 = (Ok (insert_flags c) :: (u8, codec_error) outcome)"
    by (simp_all add: body_def head_def be32_bytes_def idx_def)
  have f: "(insert_flags c AND 0x80 \<noteq> 0) = ic_out_of_network c" "(insert_flags c AND 0x40 \<noteq> 0) = ic_program c"
    "(insert_flags c AND 0x20 \<noteq> 0) = (ic_duration c \<noteq> None)" "(insert_flags c AND 0x10 \<noteq> 0) = ic_immediate c"
    unfolding insert_flags_def by (rule flags_bits)+
  have fits: "pts_fits (ic_time c)" "pts_fits (ic_duration c)" using ok by (simp_all add: insert_ok_def)
  have s1: "mid = (if ?p then time_bytes (ic_time c) else mid)" by (simp add: mid_def)
  note t = insert_program_time [OF hl fits(1) s1, of ?rest, folded body_def]
  have s2: "(if \<not> ic_program c then
            (if (if ?p then 6 + length mid else 6) \<ge> length body
             then Err (EndOfStream ((if ?p then 6 + length mid else 6) + 1) (length body))
             else obind (idx body (if ?p then 6 + length mid else 6)) (\<lambda>component_count.
               skip_components body (ic_immediate c) (unat component_count)
                 ((if ?p then 6 + length mid else 6) + 1)))
          else Ok (if ?p then 6 + length mid else 6)) = Ok (6 + length mid)"
    unfolding body_def by (rule insert_components [OF hl ok]) (auto simp: mid_def)
  have s3: "(if ic_duration c \<noteq> None then
            (if length body < 6 + length mid + 5
             then Err (EndOfStream (6 + length mid + 5) (length body))
             else obind (read_be33 body (6 + length mid)) (\<lambda>dur. Ok (Some dur)))
          else Ok None) = Ok (ic_duration c)"
    using insert_duration [OF fits(2) dur_def, of "head @ mid" "ic_trailer c @ tail"]
    by (simp only: body_def hl append_assoc length_append)
  show ?thesis
    unfolding b parse_splice_insert_def Let_def
    apply (simp only: bl if_False id obind.simps b4 b5)
    apply (simp only: f t obind.simps prod.case s2 s3)
    using False by (auto simp: insert_parsed_def)
qed

section \<open>Parsing a written section\<close>

lemma len12_read:
  assumes "n < 4096"
  shows "unat (be16 ((h AND 0xF0 OR (ucast (drop_bit 8 (of_nat n :: u16)) AND 0x0F)) AND 0x0F)
    (ucast (of_nat n :: u16))) = n"
proof -
  let ?w = "of_nat n :: u16"
  have "(h AND 0xF0 OR (ucast (drop_bit 8 ?w) AND 0x0F)) AND 0x0F = (ucast (drop_bit 8 ?w) AND 0x0F :: u8)"
    by (simp only: bit.conj_disj_distrib2 and.assoc) simp
  also have "\<dots> = ucast (drop_bit 8 ?w)"
  proof -
    have "unat ?w < 4096" using assms by (simp add: unsigned_of_nat take_bit_eq_mod)
    then have "unat ?w div 256 < 16" by (simp add: less_mult_imp_div_less)
    then have "unat (ucast (drop_bit 8 ?w) :: u8) < 16"
      by (simp add: unsigned_ucast_eq unsigned_drop_bit_eq drop_bit_eq_div unat_div take_bit_eq_mod)
    then have "take_bit 4 (ucast (drop_bit 8 ?w) :: u8) = ucast (drop_bit 8 ?w)"
      by (simp add: word_unat_eq_iff unsigned_take_bit_eq take_bit_nat_eq_self)
    then show ?thesis by (simp add: take_bit_eq_mask mask_eq_decr_exp)
  qed
  finally show ?thesis using assms
    by (simp only: be16_of_bytes) (simp add: unsigned_of_nat take_bit_eq_mod)
qed

definition section_ok :: "u8 \<Rightarrow> u64 \<Rightarrow> bytes \<Rightarrow> bytes \<Rightarrow> bool" where
  "section_ok flags adj body desc \<longleftrightarrow> flags AND 0x80 = 0 \<and> adj < 2 ^ 33 \<and>
     length body + length desc + 17 < 4096"

definition section_tail :: "bytes \<Rightarrow> bytes" where
  "section_tail desc = be16_bytes (of_nat (length desc)) @ desc"

lemma section_bytes_run:
  assumes ok: "section_ok flags adj body desc"
  shows "parse_splice_info_section (section_bytes flags adj ct body desc @ rest) =
    obind (parse_splice_command ct False (body @ section_tail desc)) (\<lambda>(ins, pts).
       Ok \<lparr>command_type = ct, pts_adjustment = adj, si_pts = pts,
           si_duration = Option.bind ins psi_duration,
           si_event_id = map_option psi_event_id ins,
           si_cancel = (case ins of None \<Rightarrow> False | Some p \<Rightarrow> psi_cancel p),
           si_out_of_network = (case ins of None \<Rightarrow> False | Some p \<Rightarrow> psi_out_of_network p),
           si_raw = section_bytes flags adj ct body desc\<rparr>)"
proof -
  define cov where "cov = section_covered flags adj ct body desc"
  define bs where "bs = section_bytes flags adj ct body desc @ rest"
  let ?n = "length body + length desc + 17"
  have n: "?n < 4096" and b: "length body < 4096" using ok by (simp_all add: section_ok_def)
  have bs: "bs = cov @ be32_bytes (crc32_mpeg2 cov) @ rest"
    by (simp add: bs_def section_bytes_def cov_def Let_def)
  have cl: "length cov = ?n - 1"
    by (simp add: cov_def section_covered_def len12_bytes_def be33_bytes_def be16_bytes_def)
  have nth: "bs ! 0 = TABLE_ID" "bs ! 1 = len12_bytes 0x30 ?n ! 0" "bs ! 2 = len12_bytes 0x30 ?n ! 1"
    "bs ! 4 = be33_bytes flags adj ! 0" "bs ! 5 = be33_bytes flags adj ! 1" "bs ! 6 = be33_bytes flags adj ! 2"
    "bs ! 7 = be33_bytes flags adj ! 3" "bs ! 8 = be33_bytes flags adj ! 4"
    "bs ! 11 = len12_bytes 0xF0 (length body) ! 0" "bs ! 12 = len12_bytes 0xF0 (length body) ! 1"
    "bs ! 13 = ct"
    by (simp_all add: bs cov_def section_covered_def len12_bytes_def be33_bytes_def be16_bytes_def)
  have total: "section_total bs = 3 + ?n"
    unfolding section_total_def nth len12_bytes_def
    by (simp only: nth_Cons_0 One_nat_def nth_Cons_Suc len12_read [OF n])
  have bl: "length bs = 3 + ?n + length rest" by (simp add: bs cl)
  have framed: "section_framed bs" by (simp add: section_framed_def total bl nth)
  have tk: "take (section_total bs - 4) bs = cov" by (simp only: total) (simp add: bs cl)
  have wire: "section_wire_crc bs = crc32_mpeg2 cov"
    unfolding section_wire_crc_def total Let_def by (simp add: bs nth_append cl be32_bytes_def)
  have raw: "take (section_total bs) bs = section_bytes flags adj ct body desc"
    unfolding total by (simp add: bs section_bytes_def cov_def [symmetric] Let_def cl)
  have scl: "unat (be16 (bs ! 11 AND 0x0F) (bs ! 12)) = length body"
    unfolding nth len12_bytes_def
    by (simp only: nth_Cons_0 One_nat_def nth_Cons_Suc len12_read [OF b])
  have "(flags AND 0xFE OR (ucast (drop_bit 32 adj) AND 1)) AND 0x80 = flags AND 0x80"
    by (rule high_and)
  then have enc: "(bs ! 4 AND 0x80 \<noteq> 0) = False"
    unfolding nth using ok by (simp add: be33_bytes_def section_ok_def)
  have adj: "be33 (bs ! 4) (bs ! 5) (bs ! 6) (bs ! 7) (bs ! 8) = adj"
    unfolding nth using ok be33_of_bytes [of adj flags]
    by (simp add: be33_bytes_def section_ok_def numeral_eq_Suc)
  have "drop 14 cov = body @ section_tail desc"
    by (simp add: cov_def section_covered_def len12_bytes_def be33_bytes_def section_tail_def)
  moreover have "take (section_total bs - 18) (drop 14 bs) = drop 14 cov"
    unfolding total by (simp add: bs cl)
  ultimately have dr: "take (section_total bs - 18) (drop 14 bs) = body @ section_tail desc" by simp
  have pts: "section_pts bs = parse_splice_command ct False (body @ section_tail desc)"
    unfolding section_pts_def enc dr by (simp only: nth(11))
  have crc: "crc32_mpeg2 (take (section_total bs - 4) bs) = section_wire_crc bs"
    by (simp only: tk wire)
  have lim: "\<not> 14 + length body > section_total bs - 4" unfolding total by simp
  show ?thesis
    unfolding bs_def [symmetric] section_body_step [OF framed crc] scl Let_def pts adj raw nth(11)
    using lim by simp
qed


section \<open>Properties\<close>

lemma parse_splice_command_insert:
  "insert_ok c \<Longrightarrow> parse_splice_command CMD_SPLICE_INSERT False (insert_bytes c @ tail) =
     Ok (Some (insert_parsed c), psi_pts (insert_parsed c))"
  by (simp add: parse_splice_command_def parse_insert_bytes)

lemma parse_splice_command_time:
  "pts_fits t \<Longrightarrow> parse_splice_command CMD_TIME_SIGNAL False (time_bytes t @ tail) = Ok (None, t)"
  by (simp add: parse_splice_command_def CMD_SPLICE_INSERT_def CMD_TIME_SIGNAL_def
      parse_splice_time_def time_bytes_read)

definition insert_example :: insert_command where
  "insert_example = \<lparr>ic_event_id = 0x12345678, ic_cancel = False, ic_out_of_network = True,
     ic_program = True, ic_immediate = False, ic_time = Some 0x1FFFFFFFF, ic_components = [],
     ic_duration = Some 2700000, ic_trailer = [0, 1, 0, 0]\<rparr>"

lemma insert_example_ok:
  "insert_ok insert_example" "section_ok 0x7E 900000 (insert_bytes insert_example) []"
  by (simp_all add: insert_ok_def insert_example_def pts_fits_def section_ok_def insert_bytes_def
      time_bytes_def be33_bytes_def)

text \<open>
  The section parser never panics, whatever the bytes; an accepted section is at least 18 bytes
  long, is contained in the input, ends with the checksum of its other bytes, and its raw copy is
  exactly the section, without the bytes behind it.
\<close>

theorem parse_section_safe:
  "no_panic (parse_splice_info_section bs) \<and>
   (\<forall>s. parse_splice_info_section bs = Ok s \<longrightarrow>
      18 \<le> length (si_raw s) \<and> length (si_raw s) \<le> length bs \<and>
      si_raw s = take (section_total bs) bs \<and>
      crc32_mpeg2 (take (section_total bs - 4) bs) = section_wire_crc bs)"
  using parse_section_no_panic section_accepted [of bs]
  by (auto simp: section_framed_def)

theorem parse_section_safe_witness:
  "18 \<le> length (section_bytes 0x7E 900000 CMD_SPLICE_INSERT (insert_bytes insert_example) [])"
proof -
  let ?bs = "section_bytes 0x7E 900000 CMD_SPLICE_INSERT (insert_bytes insert_example) []"
  obtain s where s: "parse_splice_info_section ?bs = Ok s" "si_raw s = ?bs"
    using section_bytes_run [OF insert_example_ok(2), of CMD_SPLICE_INSERT "[]"]
      parse_splice_command_insert [OF insert_example_ok(1)]
    by simp
  show ?thesis using parse_section_safe [of ?bs] s by simp
qed

text \<open>
  C21. The checksum protects a section: changing any single byte behind the length field of an accepted
  section, the checksum's own bytes included, makes the parser reject it with a checksum error.
\<close>

theorem section_corruption_rejected:
  assumes "parse_splice_info_section bs = Ok s"
    and "3 \<le> i" and "i < length (si_raw s)" and "bs ! i \<noteq> x"
  shows "\<exists>computed wire. parse_splice_info_section (bs[i := x]) = Err (Scte35BadCrc computed wire)"
proof -
  let ?bs = "bs[i := x]"
  note a = section_accepted [OF assms(1)]
  have i: "i < section_total bs" "i < length bs" using a(3) assms(3) by auto
  have t: "section_total ?bs = section_total bs" using assms(2) by (simp add: section_total_def)
  have f: "section_framed ?bs" using a(1) assms(2) by (simp add: section_framed_def t)
  have "crc32_mpeg2 (take (section_total ?bs - 4) ?bs) \<noteq> section_wire_crc ?bs"
  proof (cases "i < section_total bs - 4")
    case True
    then have "section_wire_crc ?bs = section_wire_crc bs"
      by (simp add: section_wire_crc_def t Let_def)
    moreover have "crc32_mpeg2 ((take (section_total bs - 4) bs)[i := x]) \<noteq>
        crc32_mpeg2 (take (section_total bs - 4) bs)"
      by (rule crc_update_neq) (use True i assms(4) in auto)
    ultimately show ?thesis using a(2) by (simp add: t take_update_swap)
  next
    case False
    have t18: "18 \<le> section_total bs" using a(1) by (simp add: section_framed_def)
    define o1 where "o1 = section_total bs - 4"
    have o1: "o1 + 4 = section_total bs" using t18 by (simp add: o1_def)
    have "section_wire_crc ?bs \<noteq> section_wire_crc bs"
    proof
      assume "section_wire_crc ?bs = section_wire_crc bs"
      then have e: "?bs ! o1 = bs ! o1" "?bs ! (o1 + 1) = bs ! (o1 + 1)"
        "?bs ! (o1 + 2) = bs ! (o1 + 2)" "?bs ! (o1 + 3) = bs ! (o1 + 3)"
        unfolding section_wire_crc_def t Let_def o1_def [symmetric] by (auto dest: be32_inj)
      from False i o1 consider "i = o1" | "i = o1 + 1" | "i = o1 + 2" | "i = o1 + 3" by linarith
      then show False using e assms(4) i(2) by cases simp_all
    qed
    then show ?thesis using a(2) False by (simp add: t)
  qed
  then show ?thesis using section_crc_step [OF f] by blast
qed

theorem section_corruption_rejected_witness:
  "let bs = section_bytes 0x7E 900000 CMD_SPLICE_INSERT (insert_bytes insert_example) [] in
     \<exists>computed wire. parse_splice_info_section (bs[5 := bs ! 5 + 1]) = Err (Scte35BadCrc computed wire)"
proof -
  let ?bs = "section_bytes 0x7E 900000 CMD_SPLICE_INSERT (insert_bytes insert_example) []"
  obtain s where s: "parse_splice_info_section ?bs = Ok s" "si_raw s = ?bs"
    using section_bytes_run [OF insert_example_ok(2), of CMD_SPLICE_INSERT "[]"]
      parse_splice_command_insert [OF insert_example_ok(1)]
    by simp
  have "18 \<le> length ?bs" using section_accepted(1) [OF s(1)] by (simp add: section_framed_def)
  then show ?thesis
    using section_corruption_rejected [OF s(1), of 5 "?bs ! 5 + 1"] s(2) by (simp add: Let_def)
qed

text \<open>
  A splice_insert section that was written parses back: whatever the flags, components, adjustment,
  trailer and descriptors, the parser returns the event id, the cancel and out-of-network flags, the
  program splice time, the break duration and the verbatim section.
\<close>

theorem splice_insert_roundtrip:
  assumes "insert_ok c" and "section_ok flags adj (insert_bytes c) desc"
  shows "parse_splice_info_section
      (section_bytes flags adj CMD_SPLICE_INSERT (insert_bytes c) desc @ rest) =
    Ok \<lparr>command_type = CMD_SPLICE_INSERT, pts_adjustment = adj,
        si_pts = (if ic_cancel c \<or> \<not> ic_program c \<or> ic_immediate c then None else ic_time c),
        si_duration = (if ic_cancel c then None else ic_duration c),
        si_event_id = Some (ic_event_id c), si_cancel = ic_cancel c,
        si_out_of_network = (\<not> ic_cancel c \<and> ic_out_of_network c),
        si_raw = section_bytes flags adj CMD_SPLICE_INSERT (insert_bytes c) desc\<rparr>"
  using section_bytes_run [OF assms(2)] parse_splice_command_insert [OF assms(1)]
  by (simp add: insert_parsed_def)

theorem splice_insert_roundtrip_witness:
  "map_option si_event_id (case parse_splice_info_section
      (section_bytes 0x7E 900000 CMD_SPLICE_INSERT (insert_bytes insert_example) [] @ [0xFF])
    of Ok s \<Rightarrow> Some s | _ \<Rightarrow> None) = Some (Some 0x12345678)"
  using splice_insert_roundtrip [OF insert_example_ok, of "[0xFF]"]
  by (simp add: insert_example_def)

end
