(* ===== verification/TsDemux.thy ===== *)
theory TsDemux
  imports Prelude
begin

text \<open>
  The MPEG-TS demultiplexer of \<open>lvqr-codec/src/ts.rs\<close>: packet framing with sync recovery, PAT and PMT
  parsing, PES reassembly with timestamps, and SCTE-35 private-section reassembly.  Hash maps are only
  accessed by key, so they are partial maps.  The lemmas show that no input panics the demuxer, that
  the way the input is cut into \<open>feed\<close> calls does not matter, that PES packets and sections come out
  as they were written, and that timestamps survive the 33-bit marker encoding.
\<close>

section \<open>Data\<close>

definition TS_PACKET_SIZE :: nat where "TS_PACKET_SIZE = 188"
definition SYNC_BYTE :: u8 where "SYNC_BYTE = 0x47"
definition PAT_PID :: u16 where "PAT_PID = 0"

datatype stream_type = StH264 | StH265 | StAac | StScte35 | StUnknown u8

definition stream_type_from_byte :: "u8 \<Rightarrow> stream_type" where
  "stream_type_from_byte b =
     (if b = 0x1B then StH264 else if b = 0x24 then StH265
      else if b = 0x0F \<or> b = 0x11 then StAac else if b = 0x86 then StScte35 else StUnknown b)"

record scte35_section =
  sec_pid :: u16
  sec_raw :: bytes

record pes_packet =
  pes_pid :: u16
  pes_stream_type :: stream_type
  pes_pts :: "u64 option"
  pes_dts :: "u64 option"
  pes_payload :: bytes

record pes_buffer =
  pb_stream_type :: stream_type
  pb_buf :: bytes
  pb_started :: bool

record section_buffer =
  sb_buf :: bytes
  sb_expected_len :: "nat option"

record ts_demuxer =
  td_remainder :: bytes
  td_pmt_pid :: "u16 option"
  td_streams :: "u16 \<rightharpoonup> stream_type"
  td_pes_bufs :: "u16 \<rightharpoonup> pes_buffer"
  td_section_bufs :: "u16 \<rightharpoonup> section_buffer"
  td_pending_scte35 :: "scte35_section list"

definition ts_demuxer_new :: ts_demuxer where
  "ts_demuxer_new =
     \<lparr>td_remainder = [], td_pmt_pid = None, td_streams = Map.empty, td_pes_bufs = Map.empty,
      td_section_bufs = Map.empty, td_pending_scte35 = []\<rparr>"

definition take_scte35_sections :: "ts_demuxer \<Rightarrow> scte35_section list \<times> ts_demuxer" where
  "take_scte35_sections st = (td_pending_scte35 st, st\<lparr>td_pending_scte35 := []\<rparr>)"

definition section_buffer_default :: section_buffer where
  "section_buffer_default = \<lparr>sb_buf = [], sb_expected_len = None\<rparr>"

section \<open>PES packets\<close>

definition parse_ts_timestamp :: "bytes \<Rightarrow> (u64, unit) outcome" where
  "parse_ts_timestamp b =
     obind (idx b 0) (\<lambda>b0. obind (idx b 1) (\<lambda>b1. obind (idx b 2) (\<lambda>b2.
     obind (idx b 3) (\<lambda>b3. obind (idx b 4) (\<lambda>b4.
       let a = push_bit 30 (drop_bit 1 (ucast b0) AND 0x07);
           bc = push_bit 15 (push_bit 7 (ucast b1) OR drop_bit 1 (ucast b2));
           de = push_bit 7 (ucast b3) OR drop_bit 1 (ucast b4)
       in Ok (a OR bc OR de))))))"

definition finish_pes :: "u16 \<Rightarrow> pes_buffer \<Rightarrow> (pes_packet option, unit) outcome" where
  "finish_pes pid pbuf =
     (let data = pb_buf pbuf in
      if length data < 9 \<or> data ! 0 \<noteq> 0 \<or> data ! 1 \<noteq> 0 \<or> data ! 2 \<noteq> 1 then Ok None
      else
      obind (idx data 4) (\<lambda>d4. obind (idx data 5) (\<lambda>d5. obind (idx data 8) (\<lambda>d8.
      let pes_packet_length = unat (be16 d4 d5);
          header_data_len = unat d8;
          es_start = 9 + header_data_len in
      if es_start > length data then Ok None
      else
      obind (idx data 7) (\<lambda>flags.
      let pts_flag = (flags AND 0x80 \<noteq> 0); dts_flag = (flags AND 0x40 \<noteq> 0) in
      obind (if pts_flag \<and> header_data_len \<ge> 5
             then obind (slice data 9 14) (\<lambda>b. obind (parse_ts_timestamp b) (\<lambda>t. Ok (Some t)))
             else Ok None) (\<lambda>pts.
      obind (if dts_flag \<and> header_data_len \<ge> 10
             then obind (slice data 14 19) (\<lambda>b. obind (parse_ts_timestamp b) (\<lambda>t. Ok (Some t)))
             else Ok None) (\<lambda>dts.
      let es_end = (if pes_packet_length > 0 then min (6 + pes_packet_length) (length data)
                    else length data) in
      if es_start > es_end then Ok None
      else
      obind (slice data es_start es_end) (\<lambda>payload.
        if payload = [] then Ok None
        else Ok (Some \<lparr>pes_pid = pid, pes_stream_type = pb_stream_type pbuf, pes_pts = pts,
                       pes_dts = dts, pes_payload = payload\<rparr>)))))))))"

definition push_pes ::
    "u16 \<Rightarrow> bytes \<Rightarrow> bool \<Rightarrow> ts_demuxer \<Rightarrow> (ts_demuxer \<times> pes_packet list, unit) outcome" where
  "push_pes pid payload pusi st =
     (let stype = (case td_streams st pid of None \<Rightarrow> StUnknown 0 | Some s \<Rightarrow> s) in
      if pusi then
        obind (case td_pes_bufs st pid of
                 None \<Rightarrow> Ok []
               | Some b \<Rightarrow>
                   if pb_started b \<and> pb_buf b \<noteq> []
                   then obind (finish_pes pid b) (\<lambda>p. case p of None \<Rightarrow> Ok [] | Some pkt \<Rightarrow> Ok [pkt])
                   else Ok []) (\<lambda>out.
          Ok (st\<lparr>td_pes_bufs := (td_pes_bufs st)
                (pid \<mapsto> \<lparr>pb_stream_type = stype, pb_buf = payload, pb_started = True\<rparr>)\<rparr>, out))
      else
        case td_pes_bufs st pid of
          None \<Rightarrow> Ok (st, [])
        | Some b \<Rightarrow>
            if pb_started b then
              Ok (st\<lparr>td_pes_bufs := (td_pes_bufs st)(pid \<mapsto> b\<lparr>pb_buf := pb_buf b @ payload\<rparr>)\<rparr>, [])
            else Ok (st, []))"

section \<open>Private sections\<close>

definition section_expected :: "bytes \<Rightarrow> (nat option, unit) outcome" where
  "section_expected buf =
     (if length buf \<ge> 3 then
        obind (idx buf 1) (\<lambda>b1. obind (idx buf 2) (\<lambda>b2.
          Ok (Some (3 + unat (be16 (b1 AND 0x0F) b2)))))
      else Ok None)"

text \<open>The \<open>while let Some(expected)\<close> loop; it ends because every round but the last drops bytes.\<close>

function flush_sections ::
    "u16 \<Rightarrow> bytes \<Rightarrow> nat option \<Rightarrow> scte35_section list \<Rightarrow>
     (bytes \<times> nat option \<times> scte35_section list, unit) outcome" where
  "flush_sections pid buf expected pending =
     (case expected of
        None \<Rightarrow> Ok (buf, None, pending)
      | Some e \<Rightarrow>
          if length buf < e then Ok (buf, Some e, pending)
          else
            let rest = drop e buf;
                pending' = pending @ [\<lparr>sec_pid = pid, sec_raw = take e buf\<rparr>] in
            if length rest \<ge> 3 then
              obind (section_expected rest) (\<lambda>e'. flush_sections pid rest e' pending')
            else if list_all (\<lambda>b. b = 0xFF) rest then Ok ([], None, pending')
            else flush_sections pid rest None pending')"
  by pat_completeness auto
termination
  by (relation "measure (\<lambda>(_, buf, e, _). 3 * length buf + (case e of None \<Rightarrow> 0 | Some n \<Rightarrow> if n = 0 then 2 else 1))")
    (auto simp: section_expected_def obind_eq_Ok split: if_splits)

declare flush_sections.simps [simp del]

definition accept_section_bytes ::
    "bytes \<Rightarrow> bool \<Rightarrow> section_buffer \<Rightarrow> (section_buffer \<times> bool, unit) outcome" where
  "accept_section_bytes payload pusi sb =
     (if pusi then
        let cleared = sb\<lparr>sb_buf := [], sb_expected_len := None\<rparr> in
        if payload = [] then Ok (cleared, False)
        else obind (idx payload 0) (\<lambda>p0.
          let start = 1 + unat p0 in
          if start \<ge> length payload then Ok (cleared, False)
          else obind (slice payload start (length payload)) (\<lambda>tail.
            Ok (cleared\<lparr>sb_buf := tail\<rparr>, True)))
      else if sb_buf sb = [] \<and> sb_expected_len sb = None then Ok (sb, False)
      else Ok (sb\<lparr>sb_buf := sb_buf sb @ payload\<rparr>, True))"

definition push_section :: "u16 \<Rightarrow> bytes \<Rightarrow> bool \<Rightarrow> ts_demuxer \<Rightarrow> (ts_demuxer, unit) outcome" where
  "push_section pid payload pusi st =
     (let sb = (case td_section_bufs st pid of None \<Rightarrow> section_buffer_default | Some b \<Rightarrow> b) in
      obind (accept_section_bytes payload pusi sb) (\<lambda>(sb, go_on).
        if \<not> go_on then Ok (st\<lparr>td_section_bufs := (td_section_bufs st)(pid \<mapsto> sb)\<rparr>)
        else
          obind (if sb_expected_len sb = None then section_expected (sb_buf sb)
                 else Ok (sb_expected_len sb)) (\<lambda>expected.
          obind (flush_sections pid (sb_buf sb) expected (td_pending_scte35 st))
            (\<lambda>(buf, expected', pending).
              Ok (st\<lparr>td_section_bufs := (td_section_bufs st)
                       (pid \<mapsto> \<lparr>sb_buf = buf, sb_expected_len = expected'\<rparr>),
                     td_pending_scte35 := pending\<rparr>)))))"

section \<open>Program tables\<close>

text \<open>\<open>None\<close> is the early return on a pointer beyond the payload.\<close>

definition psi_data :: "bytes \<Rightarrow> bool \<Rightarrow> (bytes option, unit) outcome" where
  "psi_data payload pusi =
     (if pusi \<and> payload \<noteq> [] then
        obind (idx payload 0) (\<lambda>p0.
          if 1 + unat p0 \<ge> length payload then Ok None
          else obind (slice payload (1 + unat p0) (length payload)) (\<lambda>d. Ok (Some d)))
      else Ok (Some payload))"

function pat_loop :: "bytes \<Rightarrow> nat \<Rightarrow> nat \<Rightarrow> (u16 option, unit) outcome" where
  "pat_loop data loop_end i =
     (if i + 4 \<le> loop_end then
        obind (idx data i) (\<lambda>d0. obind (idx data (i + 1)) (\<lambda>d1.
        obind (idx data (i + 2)) (\<lambda>d2. obind (idx data (i + 3)) (\<lambda>d3.
          let prog_num = be16 d0 d1; map_pid = be16 (d2 AND 0x1F) d3 in
          if prog_num \<noteq> 0 then Ok (Some map_pid) else pat_loop data loop_end (i + 4)))))
      else Ok None)"
  by pat_completeness auto
termination by (relation "measure (\<lambda>(_, e, i). e - i)") auto

declare pat_loop.simps [simp del]

definition parse_pat :: "bytes \<Rightarrow> bool \<Rightarrow> ts_demuxer \<Rightarrow> (ts_demuxer, unit) outcome" where
  "parse_pat payload pusi st =
     obind (psi_data payload pusi) (\<lambda>d. case d of None \<Rightarrow> Ok st | Some data \<Rightarrow>
       if length data < 12 then Ok st
       else obind (idx data 1) (\<lambda>d1. obind (idx data 2) (\<lambda>d2.
         let section_length = unat (be16 (d1 AND 0x0F) d2);
             table_end = 3 + section_length in
         if table_end > length data \<or> section_length < 9 then Ok st
         else obind (pat_loop data (table_end - 4) 8) (\<lambda>found.
           case found of None \<Rightarrow> Ok st | Some p \<Rightarrow> Ok (st\<lparr>td_pmt_pid := Some p\<rparr>)))))"

function pmt_loop ::
    "bytes \<Rightarrow> nat \<Rightarrow> nat \<Rightarrow> (u16 \<rightharpoonup> stream_type) \<Rightarrow> (u16 \<rightharpoonup> stream_type, unit) outcome" where
  "pmt_loop data loop_end i streams =
     (if i + 5 \<le> loop_end then
        obind (idx data i) (\<lambda>st. obind (idx data (i + 1)) (\<lambda>d1. obind (idx data (i + 2)) (\<lambda>d2.
        obind (idx data (i + 3)) (\<lambda>d3. obind (idx data (i + 4)) (\<lambda>d4.
          let es_pid = be16 (d1 AND 0x1F) d2; es_info_len = unat (be16 (d3 AND 0x0F) d4) in
          pmt_loop data loop_end (i + (5 + es_info_len))
            (streams(es_pid \<mapsto> stream_type_from_byte st)))))))
      else Ok streams)"
  by pat_completeness auto
termination by (relation "measure (\<lambda>(_, e, i, _). e - i)") auto

declare pmt_loop.simps [simp del]

definition parse_pmt :: "bytes \<Rightarrow> bool \<Rightarrow> ts_demuxer \<Rightarrow> (ts_demuxer, unit) outcome" where
  "parse_pmt payload pusi st =
     obind (psi_data payload pusi) (\<lambda>d. case d of None \<Rightarrow> Ok st | Some data \<Rightarrow>
       if length data < 16 then Ok st
       else obind (idx data 1) (\<lambda>d1. obind (idx data 2) (\<lambda>d2.
         let section_length = unat (be16 (d1 AND 0x0F) d2);
             table_end = 3 + section_length in
         if table_end > length data \<or> section_length < 13 then Ok st
         else obind (idx data 10) (\<lambda>d10. obind (idx data 11) (\<lambda>d11.
           let prog_info_len = unat (be16 (d10 AND 0x0F) d11) in
           obind (pmt_loop data (table_end - 4) (12 + prog_info_len) Map.empty) (\<lambda>streams.
             Ok (st\<lparr>td_streams := streams\<rparr>)))))))"

section \<open>Packets and feeding\<close>

definition process_packet :: "bytes \<Rightarrow> ts_demuxer \<Rightarrow> (ts_demuxer \<times> pes_packet list, unit) outcome" where
  "process_packet pkt st =
     obind (idx pkt 1) (\<lambda>p1. obind (idx pkt 2) (\<lambda>p2. obind (idx pkt 3) (\<lambda>p3.
     let pid = be16 (p1 AND 0x1F) p2;
         pusi = (p1 AND 0x40 \<noteq> 0);
         afc = drop_bit 4 p3 AND 0x03 in
     obind (if afc = 1 then Ok (Some 4)
            else if afc = 3 then obind (idx pkt 4) (\<lambda>p4. Ok (Some (5 + unat p4)))
            else Ok None) (\<lambda>offset.
     case offset of None \<Rightarrow> Ok (st, []) | Some payload_offset \<Rightarrow>
       if payload_offset \<ge> TS_PACKET_SIZE then Ok (st, [])
       else obind (slice pkt payload_offset (length pkt)) (\<lambda>payload.
         if pid = PAT_PID then obind (parse_pat payload pusi st) (\<lambda>st'. Ok (st', []))
         else if Some pid = td_pmt_pid st then obind (parse_pmt payload pusi st) (\<lambda>st'. Ok (st', []))
         else case td_streams st pid of
             None \<Rightarrow> Ok (st, [])
           | Some s \<Rightarrow>
               if s = StScte35 then obind (push_section pid payload pusi st) (\<lambda>st'. Ok (st', []))
               else push_pes pid payload pusi st)))))"

text \<open>
  The two scanning loops, on the input still ahead of \<open>pos\<close>.  \<open>feed_loop\<close> returns the bytes that are
  stashed; \<open>process_buf_loop\<close> the bytes that stay in the remainder.
\<close>

definition from_sync :: "bytes \<Rightarrow> bytes" where
  "from_sync = dropWhile (\<lambda>b. b \<noteq> SYNC_BYTE)"

lemma length_from_sync: "length (from_sync bs) \<le> length bs"
  by (simp add: from_sync_def length_dropWhile_le)

function feed_loop ::
    "bytes \<Rightarrow> ts_demuxer \<Rightarrow> pes_packet list \<Rightarrow> (ts_demuxer \<times> pes_packet list \<times> bytes, unit) outcome" where
  "feed_loop rest st out =
     (if rest = [] then Ok (st, out, [])
      else let r = from_sync rest in
        if r = [] then Ok (st, out, rest)
        else if length r < TS_PACKET_SIZE then Ok (st, out, r)
        else obind (process_packet (take TS_PACKET_SIZE r) st) (\<lambda>(st', o1).
          feed_loop (drop TS_PACKET_SIZE r) st' (out @ o1)))"
  by pat_completeness auto
termination
  by (relation "measure (\<lambda>(rest, _). length rest)")
    (auto simp: TS_PACKET_SIZE_def intro: less_le_trans [OF _ length_from_sync])

function process_buf_loop ::
    "bytes \<Rightarrow> ts_demuxer \<Rightarrow> pes_packet list \<Rightarrow> (ts_demuxer \<times> pes_packet list \<times> bytes, unit) outcome" where
  "process_buf_loop rest st out =
     (if rest = [] then Ok (st, out, [])
      else let r = from_sync rest in
        if r = [] then Ok (st, out, [])
        else if length r < TS_PACKET_SIZE then Ok (st, out, r)
        else obind (process_packet (take TS_PACKET_SIZE r) st) (\<lambda>(st', o1).
          process_buf_loop (drop TS_PACKET_SIZE r) st' (out @ o1)))"
  by pat_completeness auto
termination
  by (relation "measure (\<lambda>(rest, _). length rest)")
    (auto simp: TS_PACKET_SIZE_def intro: less_le_trans [OF _ length_from_sync])

declare feed_loop.simps [simp del] process_buf_loop.simps [simp del]

definition process_buf :: "ts_demuxer \<Rightarrow> (ts_demuxer \<times> pes_packet list, unit) outcome" where
  "process_buf st =
     obind (process_buf_loop (td_remainder st) st []) (\<lambda>(st', out, r).
       Ok (st'\<lparr>td_remainder := r\<rparr>, out))"

definition ts_feed :: "bytes \<Rightarrow> ts_demuxer \<Rightarrow> (ts_demuxer \<times> pes_packet list, unit) outcome" where
  "ts_feed data st =
     (if td_remainder st = [] then
        obind (feed_loop data st []) (\<lambda>(st', out, rest).
          Ok (if rest \<noteq> [] then st'\<lparr>td_remainder := td_remainder st' @ rest\<rparr> else st', out))
      else process_buf (st\<lparr>td_remainder := td_remainder st @ data\<rparr>))"

section \<open>Every operation returns\<close>

lemma returns_timestamp: "5 \<le> length b \<Longrightarrow> returns (parse_ts_timestamp b)"
  unfolding parse_ts_timestamp_def Let_def by (intro returns_obind returns_idx) auto

lemma returns_finish_pes: "returns (finish_pes pid b)"
  unfolding finish_pes_def Let_def
  by (intro returns_obind returns_if returns_idx returns_slice returns_timestamp returns_simps)
    (auto simp: slice_eq_Ok)

lemma returns_push_pes: "returns (push_pes pid payload pusi st)"
  unfolding push_pes_def Let_def
  by (intro returns_obind returns_if returns_case_option returns_finish_pes returns_simps)

lemma returns_section_expected: "returns (section_expected buf)"
  unfolding section_expected_def by (intro returns_obind returns_if returns_idx) auto

lemma returns_flush_sections: "returns (flush_sections pid buf expected pending)"
proof (induction pid buf expected pending rule: flush_sections.induct)
  case (1 pid buf expected pending)
  show ?case
    by (subst flush_sections.simps, unfold Let_def)
      (intro returns_case_option returns_if returns_obind returns_section_expected
        returns_simps; use 1 in \<open>simp add: Let_def\<close>)
qed

lemma returns_accept: "returns (accept_section_bytes payload pusi sb)"
  unfolding accept_section_bytes_def Let_def
  by (intro returns_obind returns_if returns_idx returns_slice returns_simps) auto

lemma returns_push_section: "returns (push_section pid payload pusi st)"
  unfolding push_section_def Let_def
  by (auto intro!: returns_obind returns_accept returns_section_expected returns_flush_sections)

lemma returns_psi_data: "returns (psi_data payload pusi)"
  unfolding psi_data_def
  by (intro returns_obind returns_if returns_idx returns_slice returns_simps) auto

lemma returns_pat_loop: "loop_end \<le> length data \<Longrightarrow> returns (pat_loop data loop_end i)"
proof (induction data loop_end i rule: pat_loop.induct)
  case (1 data loop_end i)
  then show ?case
    by (subst pat_loop.simps, unfold Let_def)
      (intro returns_if returns_obind returns_idx; simp add: Let_def)
qed

lemma returns_pmt_loop: "loop_end \<le> length data \<Longrightarrow> returns (pmt_loop data loop_end i streams)"
proof (induction data loop_end i streams rule: pmt_loop.induct)
  case (1 data loop_end i streams)
  then show ?case
    by (subst pmt_loop.simps, unfold Let_def)
      (intro returns_if returns_obind returns_idx; simp add: Let_def fun_upd_def)
qed

lemma returns_parse_pat: "returns (parse_pat payload pusi st)"
  unfolding parse_pat_def Let_def
  by (intro returns_obind returns_if returns_idx returns_case_option returns_psi_data
      returns_pat_loop returns_simps) auto

lemma returns_parse_pmt: "returns (parse_pmt payload pusi st)"
  unfolding parse_pmt_def Let_def
  by (intro returns_obind returns_if returns_idx returns_case_option returns_psi_data
      returns_pmt_loop returns_simps) auto

lemma returns_process_packet: "length pkt = TS_PACKET_SIZE \<Longrightarrow> returns (process_packet pkt st)"
  unfolding process_packet_def Let_def
  by (intro returns_obind returns_if returns_idx returns_case_option returns_slice
      returns_parse_pat returns_parse_pmt returns_push_section returns_push_pes returns_simps)
    (auto simp: TS_PACKET_SIZE_def)

section \<open>The remainder is not part of packet processing\<close>

definition with_rem :: "bytes \<Rightarrow> ts_demuxer \<times> 'a \<Rightarrow> ts_demuxer \<times> 'a" where
  "with_rem r p = ((fst p)\<lparr>td_remainder := r\<rparr>, snd p)"

lemma push_pes_remainder:
  "push_pes pid payload pusi (st\<lparr>td_remainder := r\<rparr>) =
     omap (with_rem r) (push_pes pid payload pusi st)"
  by (cases "td_pes_bufs st pid")
    (auto simp: push_pes_def Let_def omap_obind with_rem_def intro!: obind_cong)

lemma push_section_remainder:
  "push_section pid payload pusi (st\<lparr>td_remainder := r\<rparr>) =
     omap (\<lambda>s. s\<lparr>td_remainder := r\<rparr>) (push_section pid payload pusi st)"
  by (auto simp: push_section_def Let_def omap_obind intro!: obind_cong split: prod.splits)

lemma parse_pat_remainder:
  "parse_pat payload pusi (st\<lparr>td_remainder := r\<rparr>) =
     omap (\<lambda>s. s\<lparr>td_remainder := r\<rparr>) (parse_pat payload pusi st)"
  by (auto simp: parse_pat_def Let_def omap_obind intro!: obind_cong split: option.splits)

lemma parse_pmt_remainder:
  "parse_pmt payload pusi (st\<lparr>td_remainder := r\<rparr>) =
     omap (\<lambda>s. s\<lparr>td_remainder := r\<rparr>) (parse_pmt payload pusi st)"
  by (auto simp: parse_pmt_def Let_def omap_obind intro!: obind_cong split: option.splits)

lemma process_packet_remainder:
  "process_packet pkt (st\<lparr>td_remainder := r\<rparr>) = omap (with_rem r) (process_packet pkt st)"
  by (auto simp: process_packet_def Let_def omap_obind obind_omap push_pes_remainder
      push_section_remainder parse_pat_remainder parse_pmt_remainder with_rem_def
      intro!: obind_cong split: option.splits)

section \<open>Splitting a byte stream that arrives in pieces\<close>

text \<open>
  The contract of a resumable splitter: it cuts a prefix of the input into frames and returns the
  bytes it cannot decide yet; continuing with those bytes and new input is the same as having seen
  everything at once.
\<close>

fun split_chunks ::
    "(bytes \<Rightarrow> bytes list \<times> bytes) \<Rightarrow> bytes \<Rightarrow> bytes list \<Rightarrow> bytes list \<times> bytes" where
  "split_chunks split r [] = ([], r)"
| "split_chunks split r (c # cs) =
     (let (ps, r1) = split (r @ c); (qs, r2) = split_chunks split r1 cs in (ps @ qs, r2))"

locale resumable_splitter =
  fixes split :: "bytes \<Rightarrow> bytes list \<times> bytes"
  assumes resume: "split (a @ b) = (fst (split a) @ fst (split (snd (split a) @ b)),
      snd (split (snd (split a) @ b)))"
    and settled: "split (snd (split a)) = ([], snd (split a))"
begin

lemma chunks_eq:
  "split r = ([], r) \<Longrightarrow> split_chunks split r cs = split (r @ concat cs)"
proof (induction cs arbitrary: r)
  case Nil
  then show ?case by simp
next
  case (Cons c cs)
  obtain ps r1 where s: "split (r @ c) = (ps, r1)" by (cases "split (r @ c)")
  have "split r1 = ([], r1)" using settled [of "r @ c"] s by simp
  from Cons.IH [OF this] show ?case
    using resume [of "r @ c" "concat cs"] s by (simp add: split_beta)
qed

lemma chunks_irrelevant:
  "split r = ([], r) \<Longrightarrow> concat cs = concat ds \<Longrightarrow> split_chunks split r cs = split_chunks split r ds"
  by (simp add: chunks_eq)

end

lemma drop_frame_less:
  "\<not> length (from_sync bs) < 188 \<Longrightarrow> length (from_sync bs) - 188 < length bs"
  using length_from_sync [of bs] by linarith

function ts_frames :: "bytes \<Rightarrow> bytes list \<times> bytes" where
  "ts_frames rest =
     (let r = from_sync rest in
      if length r < TS_PACKET_SIZE then ([], r)
      else (take TS_PACKET_SIZE r # fst (ts_frames (drop TS_PACKET_SIZE r)),
            snd (ts_frames (drop TS_PACKET_SIZE r))))"
  by pat_completeness auto
termination
  by (relation "measure length") (auto simp: TS_PACKET_SIZE_def drop_frame_less)

declare ts_frames.simps [simp del]

lemma from_sync_idem [simp]: "from_sync (from_sync bs) = from_sync bs"
  by (simp add: from_sync_def)

lemma from_sync_Nil [simp]: "from_sync [] = []"
  by (simp add: from_sync_def)

lemma from_sync_append:
  "from_sync (a @ b) = (if from_sync a = [] then from_sync b else from_sync a @ b)"
  by (auto simp: from_sync_def dropWhile_append dropWhile_eq_Nil_conv)

lemma from_sync_prefix: "from_sync (from_sync a @ b) = from_sync (a @ b)"
  by (auto simp: from_sync_append)

lemma ts_frames_from_sync: "ts_frames (from_sync a @ b) = ts_frames (a @ b)"
  by (simp add: ts_frames.simps [of "from_sync a @ b"] ts_frames.simps [of "a @ b"] from_sync_prefix)

lemma ts_frames_short: "length (from_sync r) < TS_PACKET_SIZE \<Longrightarrow> ts_frames r = ([], from_sync r)"
  by (simp add: ts_frames.simps)

lemma ts_frames_rest: "from_sync (snd (ts_frames a)) = snd (ts_frames a) \<and>
    length (snd (ts_frames a)) < TS_PACKET_SIZE"
proof (induction a rule: ts_frames.induct)
  case (1 rest)
  then show ?case by (subst (1 2 3) ts_frames.simps) (auto simp: Let_def)
qed

lemma ts_frames_append:
  "ts_frames (a @ b) = (fst (ts_frames a) @ fst (ts_frames (snd (ts_frames a) @ b)),
     snd (ts_frames (snd (ts_frames a) @ b)))"
proof (induction a rule: ts_frames.induct)
  case (1 a)
  let ?r = "from_sync a"
  show ?case
  proof (cases "length ?r < TS_PACKET_SIZE")
    case True
    then show ?thesis by (simp add: ts_frames.simps [of a] ts_frames_from_sync)
  next
    case False
    then have ne: "?r \<noteq> []" by (auto simp: TS_PACKET_SIZE_def)
    have "ts_frames (a @ b) = (take TS_PACKET_SIZE ?r # fst (ts_frames (drop TS_PACKET_SIZE ?r @ b)),
        snd (ts_frames (drop TS_PACKET_SIZE ?r @ b)))"
      using False ne by (subst ts_frames.simps) (simp add: Let_def from_sync_append)
    then show ?thesis
      using 1 [OF refl False] False by (simp add: ts_frames.simps [of a] Let_def)
  qed
qed

interpretation ts: resumable_splitter ts_frames
proof
  show "ts_frames (a @ b) = (fst (ts_frames a) @ fst (ts_frames (snd (ts_frames a) @ b)),
      snd (ts_frames (snd (ts_frames a) @ b)))" for a b
    by (rule ts_frames_append)
  show "ts_frames (snd (ts_frames a)) = ([], snd (ts_frames a))" for a
    using ts_frames_rest [of a] by (simp add: ts_frames_short)
qed

section \<open>Feeding refines splitting\<close>

fun run_packets ::
    "bytes list \<Rightarrow> ts_demuxer \<Rightarrow> (ts_demuxer \<times> pes_packet list, unit) outcome" where
  "run_packets [] st = Ok (st, [])"
| "run_packets (p # ps) st =
     obind (process_packet p st) (\<lambda>(st1, o1). obind (run_packets ps st1) (\<lambda>(st2, o2). Ok (st2, o1 @ o2)))"

fun ts_feed_all :: "bytes list \<Rightarrow> ts_demuxer \<Rightarrow> (ts_demuxer \<times> pes_packet list, unit) outcome" where
  "ts_feed_all [] st = Ok (st, [])"
| "ts_feed_all (c # cs) st =
     obind (ts_feed c st) (\<lambda>(st1, o1). obind (ts_feed_all cs st1) (\<lambda>(st2, o2). Ok (st2, o1 @ o2)))"

text \<open>The observable state: bytes in front of the first sync byte of the remainder are dropped later.\<close>

definition ts_view :: "ts_demuxer \<Rightarrow> ts_demuxer" where
  "ts_view st = st\<lparr>td_remainder := from_sync (td_remainder st)\<rparr>"

lemma run_packets_append:
  "run_packets (ps @ qs) st =
     obind (run_packets ps st) (\<lambda>(st1, o1). obind (run_packets qs st1) (\<lambda>(st2, o2). Ok (st2, o1 @ o2)))"
  by (induction ps arbitrary: st)
    (auto simp: obind_assoc split_beta intro!: obind_cong)

lemma run_packets_remainder:
  "run_packets ps (st\<lparr>td_remainder := r\<rparr>) = omap (with_rem r) (run_packets ps st)"
  by (induction ps arbitrary: st)
    (auto simp: process_packet_remainder omap_obind obind_omap with_rem_def split_beta
      intro!: obind_cong)

lemma run_packets_keeps_remainder:
  assumes "run_packets ps st = Ok (st', out)" shows "td_remainder st' = td_remainder st"
proof -
  have "omap (with_rem (td_remainder st)) (run_packets ps st) = run_packets ps st"
    using run_packets_remainder [of ps "td_remainder st" st] by simp
  with assms have "st'\<lparr>td_remainder := td_remainder st\<rparr> = st'" by (simp add: with_rem_def)
  then show ?thesis by (metis ts_demuxer.select_convs(1) ts_demuxer.surjective ts_demuxer.update_convs(1))
qed

lemma ts_frames_sizes: "list_all (\<lambda>p. length p = TS_PACKET_SIZE) (fst (ts_frames a))"
proof (induction a rule: ts_frames.induct)
  case (1 a)
  then show ?case by (subst ts_frames.simps) (auto simp: Let_def)
qed

lemma run_packets_total:
  "list_all (\<lambda>p. length p = TS_PACKET_SIZE) ps \<Longrightarrow> \<exists>st' out. run_packets ps st = Ok (st', out)"
proof (induction ps arbitrary: st)
  case (Cons p ps)
  then have "returns (process_packet p st)" by (simp add: returns_process_packet)
  then obtain st1 o1 where "process_packet p st = Ok (st1, o1)"
    by (auto simp: returns_def)
  moreover obtain st2 o2 where "run_packets ps st1 = Ok (st2, o2)" using Cons by fastforce
  ultimately show ?case by simp
qed simp

lemma feed_loop_frames:
  "\<exists>raw. from_sync raw = snd (ts_frames rest) \<and>
     (\<forall>st out. feed_loop rest st out =
        obind (run_packets (fst (ts_frames rest)) st) (\<lambda>(st', o1). Ok (st', out @ o1, raw)))"
proof (induction rest rule: ts_frames.induct)
  case (1 rest)
  let ?r = "from_sync rest"
  show ?case
  proof (cases "length ?r < TS_PACKET_SIZE")
    case True
    have "feed_loop rest st out = Ok (st, out, if ?r = [] then rest else ?r)" for st out
      using True by (subst feed_loop.simps) (simp add: Let_def)
    with True show ?thesis
      by (intro exI [of _ "if ?r = [] then rest else ?r"]) (simp add: ts_frames_short)
  next
    case False
    then have ne: "?r \<noteq> []" "rest \<noteq> []" by (auto simp: TS_PACKET_SIZE_def)
    from 1 [OF refl False] obtain raw where
      raw: "from_sync raw = snd (ts_frames (drop TS_PACKET_SIZE ?r))"
      and run: "\<And>st out. feed_loop (drop TS_PACKET_SIZE ?r) st out =
        obind (run_packets (fst (ts_frames (drop TS_PACKET_SIZE ?r))) st)
          (\<lambda>(st', o1). Ok (st', out @ o1, raw))"
      by blast
    have "feed_loop rest st out = obind (run_packets (fst (ts_frames rest)) st)
        (\<lambda>(st', o1). Ok (st', out @ o1, raw))" for st out
      using ne False
      by (subst feed_loop.simps, subst ts_frames.simps)
        (auto simp: Let_def run obind_assoc split_beta intro!: obind_cong)
    moreover have "from_sync raw = snd (ts_frames rest)"
      using raw False by (subst ts_frames.simps) (simp add: Let_def)
    ultimately show ?thesis by blast
  qed
qed

lemma process_buf_loop_frames:
  "process_buf_loop rest st out =
     obind (run_packets (fst (ts_frames rest)) st) (\<lambda>(st', o1). Ok (st', out @ o1, snd (ts_frames rest)))"
proof (induction rest st out rule: process_buf_loop.induct)
  case (1 rest st out)
  let ?r = "from_sync rest"
  show ?case
  proof (cases "length ?r < TS_PACKET_SIZE")
    case True
    then show ?thesis by (subst process_buf_loop.simps) (auto simp: Let_def ts_frames_short)
  next
    case False
    then have ne: "?r \<noteq> []" "rest \<noteq> []" by (auto simp: TS_PACKET_SIZE_def)
    have IH: "process_packet (take TS_PACKET_SIZE ?r) st = Ok (st', o1) \<Longrightarrow>
        process_buf_loop (drop TS_PACKET_SIZE ?r) st' (out @ o1) =
        obind (run_packets (fst (ts_frames (drop TS_PACKET_SIZE ?r))) st')
          (\<lambda>(st2, o2). Ok (st2, (out @ o1) @ o2, snd (ts_frames (drop TS_PACKET_SIZE ?r))))" for st' o1
      using 1 [OF ne(2) refl ne(1) False, of "(st', o1)" st' o1] by simp
    show ?thesis
      using ne False
      by (subst process_buf_loop.simps, subst (1 2) ts_frames.simps)
        (auto simp: Let_def IH obind_assoc split_beta intro!: obind_cong)
  qed
qed

lemma ts_feed_frames:
  "\<exists>raw. from_sync raw = snd (ts_frames (td_remainder st @ data)) \<and>
     ts_feed data st = obind (run_packets (fst (ts_frames (td_remainder st @ data))) st)
       (\<lambda>(st', out). Ok (st'\<lparr>td_remainder := raw\<rparr>, out))"
proof (cases "td_remainder st = []")
  case True
  obtain raw where raw: "from_sync raw = snd (ts_frames data)" and
    run: "feed_loop data st [] = obind (run_packets (fst (ts_frames data)) st)
      (\<lambda>(st', o1). Ok (st', o1, raw))"
    using feed_loop_frames [of data] by auto
  have "ts_feed data st = obind (run_packets (fst (ts_frames data)) st)
       (\<lambda>(st', out). Ok (st'\<lparr>td_remainder := raw\<rparr>, out))"
    using True by (auto simp: ts_feed_def run obind_assoc split_beta
        dest!: run_packets_keeps_remainder intro!: obind_cong)
  with raw True show ?thesis by auto
next
  case False
  let ?all = "td_remainder st @ data"
  have "ts_feed data st = obind (run_packets (fst (ts_frames ?all)) (st\<lparr>td_remainder := ?all\<rparr>))
      (\<lambda>(st', out). Ok (st'\<lparr>td_remainder := snd (ts_frames ?all)\<rparr>, out))"
    using False by (simp add: ts_feed_def process_buf_def process_buf_loop_frames obind_assoc split_def)
  also have "\<dots> = obind (run_packets (fst (ts_frames ?all)) st)
      (\<lambda>(st', out). Ok (st'\<lparr>td_remainder := snd (ts_frames ?all)\<rparr>, out))"
    by (simp add: run_packets_remainder obind_omap with_rem_def split_def)
  finally show ?thesis using ts_frames_rest [of ?all] by auto
qed

lemma ts_feed_total:
  obtains st' out where "ts_feed data st = Ok (st', out)"
    and "ts_frames (td_remainder st') = ([], from_sync (td_remainder st'))"
    and "from_sync (td_remainder st') = snd (ts_frames (td_remainder st @ data))"
    and "\<exists>st1. run_packets (fst (ts_frames (td_remainder st @ data))) st = Ok (st1, out) \<and>
          st' = st1\<lparr>td_remainder := td_remainder st'\<rparr>"
proof -
  let ?fs = "fst (ts_frames (td_remainder st @ data))"
  obtain raw where raw: "from_sync raw = snd (ts_frames (td_remainder st @ data))"
    and feed: "ts_feed data st = obind (run_packets ?fs st) (\<lambda>(st', out). Ok (st'\<lparr>td_remainder := raw\<rparr>, out))"
    using ts_feed_frames by blast
  obtain st1 out where run: "run_packets ?fs st = Ok (st1, out)"
    using run_packets_total ts_frames_sizes by blast
  show thesis
  proof (rule that)
    show "ts_feed data st = Ok (st1\<lparr>td_remainder := raw\<rparr>, out)" by (simp add: feed run)
    show "from_sync (td_remainder (st1\<lparr>td_remainder := raw\<rparr>)) = snd (ts_frames (td_remainder st @ data))"
      by (simp add: raw)
    have "length (from_sync raw) < TS_PACKET_SIZE"
      using raw ts_frames_rest [of "td_remainder st @ data"] by simp
    then show "ts_frames (td_remainder (st1\<lparr>td_remainder := raw\<rparr>)) =
        ([], from_sync (td_remainder (st1\<lparr>td_remainder := raw\<rparr>)))"
      by (simp add: ts_frames_short)
  qed (simp add: run)
qed

lemma ts_feed_all_frames:
  "length (from_sync (td_remainder st)) < TS_PACKET_SIZE \<Longrightarrow>
   \<exists>st1 st' out. ts_feed_all cs st = Ok (st', out) \<and>
     run_packets (fst (split_chunks ts_frames (from_sync (td_remainder st)) cs)) st = Ok (st1, out) \<and>
     st' = st1\<lparr>td_remainder := td_remainder st'\<rparr> \<and>
     from_sync (td_remainder st') = snd (split_chunks ts_frames (from_sync (td_remainder st)) cs)"
proof (induction cs arbitrary: st)
  case Nil
  then show ?case by simp
next
  case (Cons c cs)
  let ?f = "ts_frames (td_remainder st @ c)"
  obtain st1 o1 sa where feed: "ts_feed c st = Ok (st1, o1)"
    and settled: "ts_frames (td_remainder st1) = ([], from_sync (td_remainder st1))"
    and rem: "from_sync (td_remainder st1) = snd ?f"
    and run: "run_packets (fst ?f) st = Ok (sa, o1)" "st1 = sa\<lparr>td_remainder := td_remainder st1\<rparr>"
    by (rule ts_feed_total) blast
  have "length (from_sync (td_remainder st1)) < TS_PACKET_SIZE"
    unfolding rem using ts_frames_rest by blast
  from Cons.IH [OF this] obtain s2 st2 o2 where
    IH: "ts_feed_all cs st1 = Ok (st2, o2)"
      "run_packets (fst (split_chunks ts_frames (snd ?f) cs)) st1 = Ok (s2, o2)"
      "st2 = s2\<lparr>td_remainder := td_remainder st2\<rparr>"
      "from_sync (td_remainder st2) = snd (split_chunks ts_frames (snd ?f) cs)"
    unfolding rem by blast
  have "omap (with_rem (td_remainder st1)) (run_packets (fst (split_chunks ts_frames (snd ?f) cs)) sa) =
      Ok (s2, o2)"
    using IH(2) run(2) run_packets_remainder by metis
  then obtain s3 where s3: "run_packets (fst (split_chunks ts_frames (snd ?f) cs)) sa = Ok (s3, o2)"
    "s2 = s3\<lparr>td_remainder := td_remainder st1\<rparr>"
    by (cases "run_packets (fst (split_chunks ts_frames (snd ?f) cs)) sa") (auto simp: with_rem_def)
  have "ts_feed_all (c # cs) st = Ok (st2, o1 @ o2)" by (simp add: feed IH(1))
  moreover have "run_packets (fst (split_chunks ts_frames (from_sync (td_remainder st)) (c # cs))) st =
      Ok (s3, o1 @ o2)"
    by (simp add: ts_frames_from_sync split_beta run_packets_append run(1) s3(1))
  moreover have "st2 = s3\<lparr>td_remainder := td_remainder st2\<rparr>"
    using IH(3) s3(2) by simp
  moreover have "from_sync (td_remainder st2) =
      snd (split_chunks ts_frames (from_sync (td_remainder st)) (c # cs))"
    using IH(4) by (simp add: ts_frames_from_sync split_beta)
  ultimately show ?case by blast
qed

section \<open>Timestamps\<close>

text \<open>The five bytes of a PTS or DTS: marker bits and the 33 bits of the time.\<close>

definition timestamp_bytes :: "u8 \<Rightarrow> u64 \<Rightarrow> bytes" where
  "timestamp_bytes prefix t =
     [(prefix AND 0xF0) OR ((ucast (drop_bit 29 t) AND 0x0E) OR 1),
      ucast (drop_bit 22 t),
      ucast (drop_bit 14 t) OR 1,
      ucast (drop_bit 7 t),
      push_bit 1 (ucast t) OR 1]"

lemma timestamp_read:
  assumes "t < 2 ^ 33"
  shows "parse_ts_timestamp (timestamp_bytes prefix t) = Ok t"
proof -
  have "unat t < 2 ^ 33" using assms by (simp add: word_less_nat_alt)
  then have "take_bit 33 t = t"
    by (simp add: word_unat_eq_iff unsigned_take_bit_eq take_bit_nat_eq_self)
  then have hi: "33 \<le> n \<Longrightarrow> \<not> bit t n" for n by (metis bit_take_bit_iff not_le)
  define b0 b1 b2 b3 b4 where b:
    "b0 = (prefix AND 0xF0) OR ((ucast (drop_bit 29 t) AND 0x0E) OR 1)" "b1 = (ucast (drop_bit 22 t) :: u8)"
    "b2 = (ucast (drop_bit 14 t) OR 1 :: u8)" "b3 = (ucast (drop_bit 7 t) :: u8)"
    "b4 = (push_bit 1 (ucast t) OR 1 :: u8)"
  have b0: "bit b0 1 = bit t 30" "bit b0 2 = bit t 31" "bit b0 3 = bit t 32"
    by (simp_all add: b bit_simps)
  have bs: "n < 8 \<Longrightarrow> bit b1 n = bit t (n + 22)" "n < 8 \<Longrightarrow> 0 < n \<Longrightarrow> bit b2 n = bit t (n + 14)"
    "n < 8 \<Longrightarrow> bit b3 n = bit t (n + 7)" "n < 8 \<Longrightarrow> 0 < n \<Longrightarrow> bit b4 n = bit t (n - 1)" for n
    by (auto simp: b bit_simps bit_1_iff add.commute simp del: push_bit_Suc One_nat_def)

  have seven: "(0x07 :: u64) = mask 3" by (simp add: mask_eq_decr_exp)
  have p0: "bit (push_bit 30 (drop_bit 1 (ucast b0) AND 0x07) :: u64) n =
      (30 \<le> n \<and> n < 33 \<and> bit b0 (Suc (n - 30)))" for n
    unfolding seven by (auto simp: bit_simps simp del: push_bit_Suc dest: bit_imp_le_length)
  have p1: "bit (push_bit 15 (push_bit 7 (ucast b1) OR drop_bit 1 (ucast b2)) :: u64) n =
      (22 \<le> n \<and> n < 30 \<and> bit b1 (n - 22) \<or> 15 \<le> n \<and> n < 22 \<and> bit b2 (Suc (n - 15)))" for n
    by (auto simp: bit_simps simp del: push_bit_Suc dest: bit_imp_le_length)
  have p2: "bit (push_bit 7 (ucast b3) OR drop_bit 1 (ucast b4) :: u64) n =
      (7 \<le> n \<and> n < 15 \<and> bit b3 (n - 7) \<or> n < 7 \<and> bit b4 (n + 1))" for n
    by (auto simp: bit_simps simp del: push_bit_Suc dest: bit_imp_le_length)
  define x0 x1 x2 where x: "x0 = (push_bit 30 (drop_bit 1 (ucast b0) AND 0x07) :: u64)"
    "x1 = (push_bit 15 (push_bit 7 (ucast b1) OR drop_bit 1 (ucast b2)) :: u64)"
    "x2 = (push_bit 7 (ucast b3) OR drop_bit 1 (ucast b4) :: u64)"
  have "x0 OR x1 OR x2 = t"
  proof (rule bit_word_eqI)
    fix n assume n: "n < LENGTH(64)"
    have q1: "22 \<le> n \<Longrightarrow> n < 30 \<Longrightarrow> bit b1 (n - 22) = bit t n" using bs(1) [of "n - 22"] by simp
    have q2: "15 \<le> n \<Longrightarrow> n < 22 \<Longrightarrow> bit b2 (Suc (n - 15)) = bit t n"
      using bs(2) [of "Suc (n - 15)"] by simp
    have q3: "7 \<le> n \<Longrightarrow> n < 15 \<Longrightarrow> bit b3 (n - 7) = bit t n" using bs(3) [of "n - 7"] by simp
    have q4: "n < 7 \<Longrightarrow> bit b4 (n + 1) = bit t n" using bs(4) [of "n + 1"] by simp
    have q0: "n = 30 \<Longrightarrow> bit b0 (Suc (n - 30)) = bit t n" "n = 31 \<Longrightarrow> bit b0 (Suc (n - 30)) = bit t n"
      "n = 32 \<Longrightarrow> bit b0 (Suc (n - 30)) = bit t n"
      using b0 by (simp_all add: numeral_2_eq_2 numeral_3_eq_3)
    consider "n < 7" | "7 \<le> n \<and> n < 15" | "15 \<le> n \<and> n < 22" | "22 \<le> n \<and> n < 30"
      | "n = 30" | "n = 31" | "n = 32" | "33 \<le> n" by fastforce
    then show "bit (x0 OR x1 OR x2) n = bit t n"
      unfolding bit_or_iff p0 [folded x] p1 [folded x] p2 [folded x]
      by cases (use q0 q1 q2 q3 q4 hi [of n] in \<open>simp_all del: One_nat_def\<close>)
  qed
  then show ?thesis by (simp add: parse_ts_timestamp_def timestamp_bytes_def b [symmetric] x Let_def
        del: push_bit_or One_nat_def)
qed

section \<open>PES packets, written\<close>

record pes_fields =
  pf_stream_id :: u8
  pf_bounded :: bool
  pf_pts :: "u64 option"
  pf_dts :: "u64 option"
  pf_stuffing :: bytes
  pf_es :: bytes

text \<open>
  The optional header fields: a DTS is only written together with a PTS, as the specification
  requires.  A bounded packet carries its length, an unbounded one the length 0.
\<close>

definition pes_optional :: "pes_fields \<Rightarrow> bytes" where
  "pes_optional f = (case pf_pts f of None \<Rightarrow> []
     | Some t \<Rightarrow> (case pf_dts f of None \<Rightarrow> timestamp_bytes 0x20 t
         | Some d \<Rightarrow> timestamp_bytes 0x30 t @ timestamp_bytes 0x10 d)) @ pf_stuffing f"

definition pes_flags :: "pes_fields \<Rightarrow> u8" where
  "pes_flags f = (if pf_pts f = None then 0 else if pf_dts f = None then 0x80 else 0xC0)"

definition pes_bytes :: "pes_fields \<Rightarrow> bytes" where
  "pes_bytes f = [0, 0, 1, pf_stream_id f] @
     be16_bytes (if pf_bounded f then of_nat (3 + length (pes_optional f) + length (pf_es f)) else 0) @
     [0x80, pes_flags f, of_nat (length (pes_optional f))] @ pes_optional f @ pf_es f"

definition pes_ok :: "pes_fields \<Rightarrow> bool" where
  "pes_ok f \<longleftrightarrow> pf_es f \<noteq> [] \<and> length (pes_optional f) < 256 \<and>
     (pf_pts f = None \<longrightarrow> pf_dts f = None) \<and>
     (case pf_pts f of None \<Rightarrow> True | Some t \<Rightarrow> t < 2 ^ 33) \<and>
     (case pf_dts f of None \<Rightarrow> True | Some t \<Rightarrow> t < 2 ^ 33) \<and>
     (pf_bounded f \<longrightarrow> 3 + length (pes_optional f) + length (pf_es f) < 2 ^ 16)"

lemma length_timestamp_bytes [simp]: "length (timestamp_bytes p t) = 5"
  by (simp add: timestamp_bytes_def)

lemma finish_pes_bytes:
  assumes ok: "pes_ok f" and pad: "\<not> pf_bounded f \<Longrightarrow> padding = []"
  shows "finish_pes pid \<lparr>pb_stream_type = s, pb_buf = pes_bytes f @ padding, pb_started = b\<rparr> =
    Ok (Some \<lparr>pes_pid = pid, pes_stream_type = s, pes_pts = pf_pts f, pes_dts = pf_dts f,
              pes_payload = pf_es f\<rparr>)"
proof -
  let ?o = "length (pes_optional f)"
  define data where "data = pes_bytes f @ padding"
  define len where "len = (if pf_bounded f then of_nat (3 + ?o + length (pf_es f)) else 0 :: u16)"
  have d: "data = ([0, 0, 1, pf_stream_id f] @ be16_bytes len @ [0x80, pes_flags f, of_nat ?o]) @
      (pes_optional f @ pf_es f @ padding)"
    by (simp add: data_def pes_bytes_def len_def)
  have o: "unat (of_nat ?o :: u8) = ?o" using ok by (simp add: pes_ok_def unsigned_of_nat take_bit_eq_mod)
  have l: "unat len = (if pf_bounded f then 3 + ?o + length (pf_es f) else 0)"
  proof (cases "pf_bounded f")
    case True
    with ok have "3 + ?o + length (pf_es f) < 2 ^ LENGTH(16)" by (simp add: pes_ok_def)
    from unat_of_nat_id [OF this] True show ?thesis by (simp only: len_def if_True)
  qed (simp add: len_def)
  have dl: "length data = 9 + ?o + length (pf_es f) + length padding" by (simp add: d)
  have nth: "data ! 0 = 0" "data ! 1 = 0" "data ! 2 = 1" "data ! 7 = pes_flags f" "data ! 8 = of_nat ?o"
    and len': "be16 (data ! 4) (data ! 5) = len"
    by (simp_all add: d be16_bytes_def)
  have d9: "drop 9 data = pes_optional f @ pf_es f @ padding" by (simp add: d be16_bytes_def)
  have d14: "drop 14 data = drop 5 (drop 9 data)" by simp
  have t1: "(if (pes_flags f AND 0x80 \<noteq> 0) \<and> ?o \<ge> 5
             then obind (slice data 9 14) (\<lambda>b. obind (parse_ts_timestamp b) (\<lambda>t. Ok (Some t)))
             else Ok None) = Ok (pf_pts f)"
    using ok dl by (auto simp: pes_flags_def pes_ok_def pes_optional_def d9 timestamp_read
        split: option.splits)
  have t2: "(if (pes_flags f AND 0x40 \<noteq> 0) \<and> ?o \<ge> 10
             then obind (slice data 14 19) (\<lambda>b. obind (parse_ts_timestamp b) (\<lambda>t. Ok (Some t)))
             else Ok None) = Ok (pf_dts f)"
    using ok dl by (auto simp: pes_flags_def pes_ok_def pes_optional_def d14 d9 timestamp_read
        split: option.splits)
  have es_end: "(if 0 < unat len then min (6 + unat len) (length data) else length data) =
      9 + ?o + length (pf_es f)"
    using l dl pad by (auto simp: min_def)
  have es: "slice data (9 + ?o) (9 + ?o + length (pf_es f)) = (Ok (pf_es f) :: (bytes, unit) outcome)"
  proof -
    have "drop (9 + ?o) data = drop ?o (drop 9 data)" by (simp add: add.commute)
    then show ?thesis using dl by (simp add: d9)
  qed
  have ix: "idx data 4 = (Ok (data ! 4) :: (u8, unit) outcome)" "idx data 5 = (Ok (data ! 5) :: (u8, unit) outcome)"
    "idx data 7 = (Ok (data ! 7) :: (u8, unit) outcome)" "idx data 8 = (Ok (data ! 8) :: (u8, unit) outcome)"
    using dl by simp_all
  have g: "(length data < 9 \<or> data ! 0 \<noteq> 0 \<or> data ! 1 \<noteq> 0 \<or> data ! 2 \<noteq> 1) = False"
    using dl nth by simp
  have g2: "(9 + ?o > length data) = False" "(9 + ?o > 9 + ?o + length (pf_es f)) = False"
    using dl by simp_all
  show ?thesis
    unfolding finish_pes_def data_def [symmetric] pes_buffer.select_convs Let_def g if_False ix obind.simps
      len' nth o g2 t1 t2 es_end es
    using ok dl by (simp add: pes_ok_def)
qed

text \<open>A PES packet in the payloads of consecutive packets of its PID, then the next packet's start.\<close>

fun push_pes_all :: "u16 \<Rightarrow> bytes list \<Rightarrow> ts_demuxer \<Rightarrow> (ts_demuxer \<times> pes_packet list, unit) outcome" where
  "push_pes_all pid [] st = Ok (st, [])"
| "push_pes_all pid (p # ps) st =
     obind (push_pes pid p False st) (\<lambda>(st1, o1). obind (push_pes_all pid ps st1) (\<lambda>(st2, o2).
       Ok (st2, o1 @ o2)))"

lemma push_pes_all_collects:
  "td_pes_bufs st pid = Some \<lparr>pb_stream_type = s, pb_buf = b, pb_started = True\<rparr> \<Longrightarrow>
   push_pes_all pid ps st = Ok (st\<lparr>td_pes_bufs := (td_pes_bufs st)
     (pid \<mapsto> \<lparr>pb_stream_type = s, pb_buf = b @ concat ps, pb_started = True\<rparr>)\<rparr>, [])"
proof (induction ps arbitrary: st b)
  case Nil
  then have "(td_pes_bufs st)(pid \<mapsto> \<lparr>pb_stream_type = s, pb_buf = b, pb_started = True\<rparr>) = td_pes_bufs st"
    by (simp add: fun_upd_idem)
  then show ?case by simp
next
  case (Cons p ps)
  let ?st = "st\<lparr>td_pes_bufs := (td_pes_bufs st)
     (pid \<mapsto> \<lparr>pb_stream_type = s, pb_buf = b @ p, pb_started = True\<rparr>)\<rparr>"
  have "push_pes pid p False st = Ok (?st, [])"
    using Cons.prems by (simp add: push_pes_def Let_def)
  moreover have "push_pes_all pid ps ?st = Ok (?st\<lparr>td_pes_bufs := (td_pes_bufs ?st)
     (pid \<mapsto> \<lparr>pb_stream_type = s, pb_buf = (b @ p) @ concat ps, pb_started = True\<rparr>)\<rparr>, [])"
    by (rule Cons.IH) simp
  ultimately have "push_pes_all pid (p # ps) st = Ok (?st\<lparr>td_pes_bufs := (td_pes_bufs ?st)
     (pid \<mapsto> \<lparr>pb_stream_type = s, pb_buf = (b @ p) @ concat ps, pb_started = True\<rparr>)\<rparr>, [])"
    by (simp only: push_pes_all.simps obind.simps prod.case append_Nil)
  moreover have "?st\<lparr>td_pes_bufs := (td_pes_bufs ?st)(pid \<mapsto> x)\<rparr> =
      st\<lparr>td_pes_bufs := (td_pes_bufs st)(pid \<mapsto> x)\<rparr>" for x
    by simp
  ultimately show ?case by (simp only: append_assoc concat.simps)
qed

definition push_pes_run ::
    "u16 \<Rightarrow> bytes \<Rightarrow> bytes list \<Rightarrow> bytes \<Rightarrow> ts_demuxer \<Rightarrow> (pes_packet list, unit) outcome" where
  "push_pes_run pid first conts following st =
     obind (push_pes pid first True st) (\<lambda>(st1, o1).
     obind (push_pes_all pid conts st1) (\<lambda>(st2, o2).
     obind (push_pes pid following True st2) (\<lambda>(st3, o3). Ok (o2 @ o3))))"

lemma push_pes_first:
  obtains o1 where "push_pes pid payload True st = Ok (st\<lparr>td_pes_bufs := (td_pes_bufs st)
      (pid \<mapsto> \<lparr>pb_stream_type = (case td_streams st pid of None \<Rightarrow> StUnknown 0 | Some s \<Rightarrow> s),
              pb_buf = payload, pb_started = True\<rparr>)\<rparr>, o1)"
proof -
  have "returns (push_pes pid payload True st)" by (rule returns_push_pes)
  then obtain p where p: "push_pes pid payload True st = Ok p" by (rule returnsE)
  then show thesis by (intro that [of "snd p"]) (auto simp: push_pes_def Let_def obind_eq_Ok)
qed

lemma push_pes_run_eq:
  assumes "first @ concat conts = pes_bytes f @ padding" "pes_ok f" "\<not> pf_bounded f \<Longrightarrow> padding = []"
    and "td_streams st pid = Some s"
  shows "push_pes_run pid first conts following st = Ok [\<lparr>pes_pid = pid, pes_stream_type = s,
     pes_pts = pf_pts f, pes_dts = pf_dts f, pes_payload = pf_es f\<rparr>]"
proof -
  obtain o1 where p1: "push_pes pid first True st = Ok (st\<lparr>td_pes_bufs := (td_pes_bufs st)
      (pid \<mapsto> \<lparr>pb_stream_type = s, pb_buf = first, pb_started = True\<rparr>)\<rparr>, o1)" (is "_ = Ok (?st1, o1)")
    using push_pes_first [of pid first st] assms(4) by auto
  let ?b = "\<lparr>pb_stream_type = s, pb_buf = pes_bytes f @ padding, pb_started = True\<rparr>"
  have p2: "push_pes_all pid conts ?st1 = Ok (?st1\<lparr>td_pes_bufs := (td_pes_bufs ?st1)(pid \<mapsto> ?b)\<rparr>, [])"
    using push_pes_all_collects [of ?st1 pid s first conts] assms(1) by simp
  have ne: "pes_bytes f @ padding \<noteq> []" by (simp add: pes_bytes_def)
  show ?thesis
    using ne finish_pes_bytes [OF assms(2,3), of pid s True]
    by (simp add: push_pes_run_def p1 p2 push_pes_def [of pid following] Let_def)
qed

section \<open>Private sections, split over packets\<close>

fun push_sections :: "u16 \<Rightarrow> bytes list \<Rightarrow> ts_demuxer \<Rightarrow> (ts_demuxer, unit) outcome" where
  "push_sections pid [] st = Ok st"
| "push_sections pid (p # ps) st = obind (push_section pid p False st) (push_sections pid ps)"

text \<open>A section is complete in itself when its length field counts the bytes behind it.\<close>

definition section_complete :: "bytes \<Rightarrow> bool" where
  "section_complete sec \<longleftrightarrow> 3 \<le> length sec \<and>
     length sec = 3 + unat (be16 (sec ! 1 AND 0x0F) (sec ! 2))"

definition section_progress :: "bytes \<Rightarrow> bytes \<Rightarrow> section_buffer" where
  "section_progress sec b = \<lparr>sb_buf = b, sb_expected_len = (if 3 \<le> length b then Some (length sec) else None)\<rparr>"

definition section_done :: "bytes \<Rightarrow> section_buffer" where
  "section_done stuffing =
     (if length stuffing < 3 then \<lparr>sb_buf = [], sb_expected_len = None\<rparr>
      else \<lparr>sb_buf = stuffing, sb_expected_len = Some 4098\<rparr>)"

lemma section_expected_prefix:
  assumes "section_complete sec" "b = take n (sec @ x)" "3 \<le> length b"
  shows "section_expected b = Ok (Some (length sec))"
proof -
  have "3 \<le> n" "3 \<le> length sec" using assms by (auto simp: section_complete_def)
  then have "b ! 1 = sec ! 1" "b ! 2 = sec ! 2" using assms(2) by (simp_all add: nth_append)
  then show ?thesis using assms by (auto simp: section_expected_def section_complete_def)
qed

lemma flush_incomplete:
  "length b < e \<Longrightarrow> flush_sections pid b (Some e) pending = Ok (b, Some e, pending)"
  by (simp add: flush_sections.simps)

lemma flush_complete:
  assumes "list_all (\<lambda>x. x = 0xFF) stuffing" "length stuffing < 4098"
  shows "flush_sections pid (sec @ stuffing) (Some (length sec)) pending =
    Ok (sb_buf (section_done stuffing), sb_expected_len (section_done stuffing),
        pending @ [\<lparr>sec_pid = pid, sec_raw = sec\<rparr>])"
proof (cases "length stuffing < 3")
  case True
  with assms show ?thesis by (simp add: flush_sections.simps section_done_def Let_def)
next
  case False
  have n: "stuffing ! i = 0xFF" if "i < length stuffing" for i
    using assms(1) that by (simp add: list_all_length)
  have "be16 0x0F 0xFF = (0xFFF :: u16)" by code_simp
  then have e: "section_expected stuffing = Ok (Some 4098)"
    using False by (simp add: section_expected_def n)
  have "flush_sections pid (sec @ stuffing) (Some (length sec)) pending =
      flush_sections pid stuffing (Some 4098) (pending @ [\<lparr>sec_pid = pid, sec_raw = sec\<rparr>])"
    using False by (subst flush_sections.simps) (simp add: e Let_def)
  then show ?thesis using assms(2) False by (simp add: flush_incomplete section_done_def)
qed

lemma section_start:
  assumes "c0 \<noteq> []" "unat ptr = length junk"
  shows "accept_section_bytes (ptr # junk @ c0) True sb = Ok (\<lparr>sb_buf = c0, sb_expected_len = None\<rparr>, True)"
  using assms by (simp add: accept_section_bytes_def Let_def)

text \<open>One accepted packet: the buffer holds the prefix \<open>b\<close> of the section and its stuffing.\<close>

lemma push_section_prefix:
  assumes sec: "section_complete sec" and acc: "accept_section_bytes p pusi sb = Ok (sb1, True)"
    and sb: "(case td_section_bufs st pid of None \<Rightarrow> section_buffer_default | Some b \<Rightarrow> b) = sb"
    and b: "sb_buf sb1 = b" "b = take (length b) sec" "length b < length sec"
    and e: "sb_expected_len sb1 = None \<or> sb_expected_len sb1 = Some (length sec) \<and> 3 \<le> length b"
  shows "push_section pid p pusi st =
    Ok (st\<lparr>td_section_bufs := (td_section_bufs st)(pid \<mapsto> section_progress sec b)\<rparr>)"
proof -
  have x: "3 \<le> length b \<Longrightarrow> section_expected b = Ok (Some (length sec))"
    using section_expected_prefix [OF sec, of b "length b" "[]"] b(2) by simp
  have y: "\<not> 3 \<le> length b \<Longrightarrow> section_expected b = Ok None" by (simp add: section_expected_def)
  have f: "flush_sections pid b (if 3 \<le> length b then Some (length sec) else None) (td_pending_scte35 st) =
      Ok (b, (if 3 \<le> length b then Some (length sec) else None), td_pending_scte35 st)"
    using flush_incomplete [OF b(3)] by (auto simp: flush_sections.simps)
  have st: "(if sb_expected_len sb1 = None then section_expected b else Ok (sb_expected_len sb1)) =
      Ok (if 3 \<le> length b then Some (length sec) else None)"
    using e x y by auto
  show ?thesis
    unfolding push_section_def Let_def sb acc obind.simps prod.case b(1) st f
    by (simp add: section_progress_def)
qed

lemma push_section_last:
  assumes sec: "section_complete sec" and acc: "accept_section_bytes p pusi sb = Ok (sb1, True)"
    and sb: "(case td_section_bufs st pid of None \<Rightarrow> section_buffer_default | Some b \<Rightarrow> b) = sb"
    and b: "sb_buf sb1 = sec @ stuffing"
    and st: "list_all (\<lambda>x. x = 0xFF) stuffing" "length stuffing < 4098"
    and e: "sb_expected_len sb1 = None \<or> sb_expected_len sb1 = Some (length sec)"
  shows "push_section pid p pusi st =
    Ok (st\<lparr>td_section_bufs := (td_section_bufs st)(pid \<mapsto> section_done stuffing),
           td_pending_scte35 := td_pending_scte35 st @ [\<lparr>sec_pid = pid, sec_raw = sec\<rparr>]\<rparr>)"
proof -
  have "section_expected (sec @ stuffing) = Ok (Some (length sec))"
    using section_expected_prefix [OF sec, of "sec @ stuffing" "length (sec @ stuffing)" stuffing] sec
    by (simp add: section_complete_def)
  then have x: "(if sb_expected_len sb1 = None then section_expected (sec @ stuffing)
      else Ok (sb_expected_len sb1)) = Ok (Some (length sec))"
    using e by auto
  show ?thesis
    unfolding push_section_def Let_def sb acc obind.simps prod.case b x flush_complete [OF st]
    by (simp add: section_done_def)
qed

lemma push_sections_continue:
  assumes sec: "section_complete sec"
    and stuff: "list_all (\<lambda>x. x = 0xFF) stuffing" "length stuffing < 4098"
  shows "td_section_bufs st pid = Some (section_progress sec b) \<Longrightarrow> b \<noteq> [] \<Longrightarrow>
    b @ concat cs = sec @ stuffing \<Longrightarrow> cs \<noteq> [] \<Longrightarrow> length (b @ concat (butlast cs)) < length sec \<Longrightarrow>
    push_sections pid cs st =
      Ok (st\<lparr>td_section_bufs := (td_section_bufs st)(pid \<mapsto> section_done stuffing),
             td_pending_scte35 := td_pending_scte35 st @ [\<lparr>sec_pid = pid, sec_raw = sec\<rparr>]\<rparr>)"
proof (induction cs arbitrary: st b)
  case (Cons c cs)
  let ?sb = "(section_progress sec b)\<lparr>sb_buf := b @ c\<rparr>"
  have acc: "accept_section_bytes c False (section_progress sec b) = Ok (?sb, True)"
    using Cons.prems(2) by (simp add: accept_section_bytes_def section_progress_def)
  show ?case
  proof (cases "cs = []")
    case True
    then have "push_section pid c False st =
      Ok (st\<lparr>td_section_bufs := (td_section_bufs st)(pid \<mapsto> section_done stuffing),
           td_pending_scte35 := td_pending_scte35 st @ [\<lparr>sec_pid = pid, sec_raw = sec\<rparr>]\<rparr>)"
      using Cons.prems by (intro push_section_last [OF sec acc _ _ stuff]) (auto simp: section_progress_def)
    with True show ?thesis by (simp only: push_sections.simps obind.simps)
  next
    case False
    let ?st = "st\<lparr>td_section_bufs := (td_section_bufs st)(pid \<mapsto> section_progress sec (b @ c))\<rparr>"
    have len: "length (b @ c) < length sec" using Cons.prems(5) False by simp
    have "take (length (b @ c)) (sec @ stuffing) = b @ c"
      by (subst Cons.prems(3) [symmetric]) simp
    then have pre: "b @ c = take (length (b @ c)) sec" using len by simp
    have p: "push_section pid c False st = Ok ?st"
      using Cons.prems len pre
      by (intro push_section_prefix [OF sec acc]) (auto simp: section_progress_def)
    have "push_sections pid cs ?st =
      Ok (?st\<lparr>td_section_bufs := (td_section_bufs ?st)(pid \<mapsto> section_done stuffing),
             td_pending_scte35 := td_pending_scte35 ?st @ [\<lparr>sec_pid = pid, sec_raw = sec\<rparr>]\<rparr>)"
      by (rule Cons.IH [of _ "b @ c"]) (use Cons.prems False in auto)
    moreover have "?st\<lparr>td_section_bufs := (td_section_bufs ?st)(pid \<mapsto> x), td_pending_scte35 := y\<rparr> =
        st\<lparr>td_section_bufs := (td_section_bufs st)(pid \<mapsto> x), td_pending_scte35 := y\<rparr>" for x y
      by simp
    moreover have "td_pending_scte35 ?st = td_pending_scte35 st" by simp
    ultimately show ?thesis by (simp only: push_sections.simps p obind.simps)
  qed
qed simp

lemma push_sections_whole:
  assumes sec: "section_complete sec"
    and stuff: "list_all (\<lambda>x. x = 0xFF) stuffing" "length stuffing < 4098"
    and start: "c0 \<noteq> []" "unat ptr = length junk"
    and all: "c0 @ concat cs = sec @ stuffing"
    and last: "cs \<noteq> [] \<Longrightarrow> length (c0 @ concat (butlast cs)) < length sec"
  shows "obind (push_section pid (ptr # junk @ c0) True st) (push_sections pid cs) =
      Ok (st\<lparr>td_section_bufs := (td_section_bufs st)(pid \<mapsto> section_done stuffing),
             td_pending_scte35 := td_pending_scte35 st @ [\<lparr>sec_pid = pid, sec_raw = sec\<rparr>]\<rparr>)"
proof (cases "cs = []")
  case True
  with all show ?thesis
    by (subst push_section_last [OF sec section_start [OF start] refl _ stuff]) auto
next
  case False
  let ?st = "st\<lparr>td_section_bufs := (td_section_bufs st)(pid \<mapsto> section_progress sec c0)\<rparr>"
  have len: "length c0 < length sec" using last [OF False] by simp
  have "take (length c0) (sec @ stuffing) = c0" by (subst all [symmetric]) simp
  then have pre: "c0 = take (length c0) sec" using len by simp
  have p: "push_section pid (ptr # junk @ c0) True st = Ok ?st"
    using len pre by (intro push_section_prefix [OF sec section_start [OF start] refl]) auto
  have "push_sections pid cs ?st =
      Ok (?st\<lparr>td_section_bufs := (td_section_bufs ?st)(pid \<mapsto> section_done stuffing),
             td_pending_scte35 := td_pending_scte35 ?st @ [\<lparr>sec_pid = pid, sec_raw = sec\<rparr>]\<rparr>)"
    by (rule push_sections_continue [OF sec stuff _ start(1) all False last [OF False]]) simp
  moreover have "?st\<lparr>td_section_bufs := (td_section_bufs ?st)(pid \<mapsto> x), td_pending_scte35 := y\<rparr> =
      st\<lparr>td_section_bufs := (td_section_bufs st)(pid \<mapsto> x), td_pending_scte35 := y\<rparr>" for x y
    by simp
  moreover have "td_pending_scte35 ?st = td_pending_scte35 st" by simp
  ultimately show ?thesis by (simp only: p obind.simps)
qed

section \<open>Properties\<close>

lemma ts_feed_chunking_core:
  assumes "length (from_sync (td_remainder st)) < TS_PACKET_SIZE"
  shows "\<exists>st1 st2 out. ts_feed_all cs st = Ok (st1, out) \<and> ts_feed (concat cs) st = Ok (st2, out) \<and>
    ts_view st1 = ts_view st2"
proof -
  have settled: "ts_frames (from_sync (td_remainder st)) = ([], from_sync (td_remainder st))"
    using assms by (simp add: ts_frames_short)
  have eq: "split_chunks ts_frames (from_sync (td_remainder st)) cs = ts_frames (td_remainder st @ concat cs)"
    by (simp add: ts.chunks_eq [OF settled] ts_frames_from_sync)
  obtain sa st1 out where a: "ts_feed_all cs st = Ok (st1, out)"
    "run_packets (fst (ts_frames (td_remainder st @ concat cs))) st = Ok (sa, out)"
    "st1 = sa\<lparr>td_remainder := td_remainder st1\<rparr>"
    "from_sync (td_remainder st1) = snd (ts_frames (td_remainder st @ concat cs))"
    using ts_feed_all_frames [OF assms, of cs] unfolding eq by blast
  obtain st2 out2 where b: "ts_feed (concat cs) st = Ok (st2, out2)"
    "from_sync (td_remainder st2) = snd (ts_frames (td_remainder st @ concat cs))"
    "\<exists>s. run_packets (fst (ts_frames (td_remainder st @ concat cs))) st = Ok (s, out2) \<and>
         st2 = s\<lparr>td_remainder := td_remainder st2\<rparr>"
    by (rule ts_feed_total) blast
  then have "out2 = out" "st2 = sa\<lparr>td_remainder := td_remainder st2\<rparr>" using a(2) by auto
  moreover have "ts_view st1 = ts_view st2"
    unfolding ts_view_def using a(3,4) b(2) calculation(2)
    by (metis ts_demuxer.fold_congs(1) ts_demuxer.update_convs(1) ts_demuxer.surjective)
  ultimately show ?thesis using a(1) b(1) by blast
qed

text \<open>
  How the input is cut does not matter: feeding a stream in any pieces, into any state the demuxer
  can be in between calls, never panics, and gives the same PES packets in the same order and the same
  state as feeding it in one call, up to remainder bytes before the next sync byte, which the next
  call drops.
\<close>

theorem ts_feed_chunking:
  assumes "length (from_sync (td_remainder st)) < TS_PACKET_SIZE"
  shows "\<exists>st1 st2 out. ts_feed_all cs st = Ok (st1, out) \<and> ts_feed (concat cs) st = Ok (st2, out) \<and>
    ts_view st1 = ts_view st2"
  using assms by (rule ts_feed_chunking_core)

theorem ts_feed_chunking_witness:
  "\<exists>st1 st2 out. ts_feed_all [[0, 0x47], [0x40, 1]] ts_demuxer_new = Ok (st1, out) \<and>
     ts_feed [0, 0x47, 0x40, 1] ts_demuxer_new = Ok (st2, out) \<and> ts_view st1 = ts_view st2"
  using ts_feed_chunking [of ts_demuxer_new "[[0, 0x47], [0x40, 1]]"]
  by (simp add: ts_demuxer_new_def TS_PACKET_SIZE_def)

text \<open>
  A PES packet that is cut over the payloads of packets of its PID comes out as it was written when
  the next packet starts: same stream type, 33-bit PTS and DTS, and elementary-stream bytes; a bounded
  packet loses the padding behind its declared length.
\<close>

theorem pes_reassembly:
  assumes "first @ concat conts = pes_bytes f @ padding" and "pes_ok f"
    and "\<not> pf_bounded f \<Longrightarrow> padding = []" and "td_streams st pid = Some s"
  shows "push_pes_run pid first conts following st = Ok [\<lparr>pes_pid = pid, pes_stream_type = s,
     pes_pts = pf_pts f, pes_dts = pf_dts f, pes_payload = pf_es f\<rparr>]"
  using assms by (rule push_pes_run_eq)

definition pes_example :: pes_fields where
  "pes_example = \<lparr>pf_stream_id = 0xE0, pf_bounded = True, pf_pts = Some 8589934591,
     pf_dts = Some 90000, pf_stuffing = [0xFF], pf_es = [0, 0, 0, 1, 0x65]\<rparr>"

theorem pes_reassembly_witness:
  "push_pes_run 256 (take 12 (pes_bytes pes_example)) [drop 12 (pes_bytes pes_example), [0xFF, 0xFF]] []
     (ts_demuxer_new\<lparr>td_streams := [256 \<mapsto> StH264]\<rparr>) =
   Ok [\<lparr>pes_pid = 256, pes_stream_type = StH264, pes_pts = Some 8589934591, pes_dts = Some 90000,
        pes_payload = [0, 0, 0, 1, 0x65]\<rparr>]"
proof -
  have ok: "pes_ok pes_example" "pf_bounded pes_example"
    by (simp_all add: pes_ok_def pes_example_def pes_optional_def)
  have "take 12 (pes_bytes pes_example) @ concat [drop 12 (pes_bytes pes_example), [0xFF, 0xFF]] =
      pes_bytes pes_example @ [0xFF, 0xFF]"
    by (simp flip: append_assoc)
  from pes_reassembly [OF this ok(1), of "ts_demuxer_new\<lparr>td_streams := [256 \<mapsto> StH264]\<rparr>" 256 StH264 "[]"]
  show ?thesis using ok(2) by (simp add: pes_example_def)
qed

text \<open>
  C30. A private section that starts behind the pointer field of one packet and continues over any number
  of packets is queued once, complete and unchanged.  Up to two trailing stuffing bytes are discarded
  and the buffer is empty afterwards; three or more stay in the buffer as the header of a section of
  4098 bytes.
\<close>

theorem section_reassembly:
  assumes "section_complete sec" and "list_all (\<lambda>x. x = 0xFF) stuffing" "length stuffing < 4098"
    and "c0 \<noteq> []" and "unat ptr = length junk" and "c0 @ concat cs = sec @ stuffing"
    and "cs \<noteq> [] \<Longrightarrow> length (c0 @ concat (butlast cs)) < length sec"
  shows "obind (push_section pid (ptr # junk @ c0) True st) (push_sections pid cs) =
      Ok (st\<lparr>td_section_bufs := (td_section_bufs st)(pid \<mapsto>
               (if length stuffing < 3 then \<lparr>sb_buf = [], sb_expected_len = None\<rparr>
                else \<lparr>sb_buf = stuffing, sb_expected_len = Some 4098\<rparr>)),
             td_pending_scte35 := td_pending_scte35 st @ [\<lparr>sec_pid = pid, sec_raw = sec\<rparr>]\<rparr>)"
  unfolding section_done_def [symmetric]
  by (rule push_sections_whole [OF assms(1-6)]) (rule assms(7))

theorem section_reassembly_witness:
  "map_option sb_expected_len (case obind (push_section 500 [1, 9, 0xFC, 0x30] True ts_demuxer_new)
      (push_sections 500 [[2, 7], [8, 0xFF, 0xFF, 0xFF]])
     of Ok st \<Rightarrow> td_section_bufs st 500 | _ \<Rightarrow> None) = Some (Some 4098)"
proof -
  have "section_complete [0xFC, 0x30, 2, 7, 8]" by (simp add: section_complete_def be16_def)
  from section_reassembly [OF this, of "[0xFF, 0xFF, 0xFF]" "[0xFC, 0x30]" 1 "[9]"
      "[[2, 7], [8, 0xFF, 0xFF, 0xFF]]" 500 ts_demuxer_new]
  show ?thesis by simp
qed

end
