(* ===== verification/AnnexB.thy ===== *)
theory AnnexB
  imports Prelude
begin

text \<open>
  NAL unit framing.  The repository has two Annex B splitters (\<open>lvqr-whip/src/depack.rs\<close> and
  \<open>lvqr-srt/src/ingest.rs\<close>) and three readers of the length-prefixed AVCC form
  (\<open>lvqr-whep/src/rtp.rs\<close>, \<open>lvqr-whep/src/str0m_backend.rs\<close>, \<open>lvqr-rtsp/src/fmp4.rs\<close>), written
  independently.  Each is translated from its own source; the lemmas show that they agree on every
  input, that no input panics them, and that the conversions between the two forms are inverse.
\<close>

section \<open>The splitter of the WHIP crate\<close>

record start_code_run =
  run_start :: nat
  run_end :: nat

text \<open>
  \<open>find_start_codes\<close> from index \<open>i\<close> on.  The length tests in front of each index access are the
  source's own.
\<close>

function find_start_codes_from :: "bytes \<Rightarrow> nat \<Rightarrow> start_code_run list" where
  "find_start_codes_from data i =
     (if i + 3 \<le> length data then
        if data ! i = 0 \<and> data ! (i + 1) = 0 \<and> data ! (i + 2) = 1 then
          \<lparr>run_start = i, run_end = i + 3\<rparr> # find_start_codes_from data (i + 3)
        else if i + 4 \<le> length data \<and> data ! i = 0 \<and> data ! (i + 1) = 0 \<and> data ! (i + 2) = 0 \<and>
            data ! (i + 3) = 1 then
          \<lparr>run_start = i, run_end = i + 4\<rparr> # find_start_codes_from data (i + 4)
        else find_start_codes_from data (i + 1)
      else [])"
  by pat_completeness auto
termination by (relation "measure (\<lambda>(data, i). length data - i)") auto

declare find_start_codes_from.simps [simp del]

definition find_start_codes :: "bytes \<Rightarrow> start_code_run list" where
  "find_start_codes data = find_start_codes_from data 0"

text \<open>The \<open>windows(2)\<close> loop, then the trailing NAL behind the last start code.\<close>

fun nals_between :: "bytes \<Rightarrow> start_code_run list \<Rightarrow> (bytes list, unit) outcome" where
  "nals_between data (r # r' # rs) =
     obind (if run_end r < run_start r'
            then obind (slice data (run_end r) (run_start r')) (\<lambda>n. Ok [n]) else Ok []) (\<lambda>ns.
     obind (nals_between data (r' # rs)) (\<lambda>more. Ok (ns @ more)))"
| "nals_between data rs = Ok []"

definition whip_split_annex_b :: "bytes \<Rightarrow> (bytes list, unit) outcome" where
  "whip_split_annex_b data =
     (let starts = find_start_codes data in
      if starts = [] then Ok []
      else obind (nals_between data starts) (\<lambda>out.
        let begin1 = run_end (last starts) in
        if begin1 < length data
        then obind (slice data begin1 (length data)) (\<lambda>n. Ok (out @ [n]))
        else Ok out))"

definition avcc_entry :: "bytes \<Rightarrow> bytes" where
  "avcc_entry nal = be32_bytes (of_nat (length nal)) @ nal"

fun avcc_write_nonempty :: "bytes list \<Rightarrow> bytes" where
  "avcc_write_nonempty [] = []"
| "avcc_write_nonempty (nal # nals) =
     (if nal = [] then [] else avcc_entry nal) @ avcc_write_nonempty nals"

definition whip_annex_b_to_avcc :: "bytes \<Rightarrow> (bytes, unit) outcome" where
  "whip_annex_b_to_avcc annex_b =
     obind (whip_split_annex_b annex_b) (\<lambda>nals.
       if nals = [] then Ok [] else Ok (avcc_write_nonempty nals))"

definition whip_hevc_nal_type :: "bytes \<Rightarrow> u8 option" where
  "whip_hevc_nal_type nal = (case nal of [] \<Rightarrow> None | b # _ \<Rightarrow> Some (drop_bit 1 b AND 0x3F))"

section \<open>The splitter of the SRT crate\<close>

text \<open>The inner loop: the first index from \<open>e\<close> on at which a start code begins, or the end.\<close>

function srt_nalu_end :: "bytes \<Rightarrow> nat \<Rightarrow> nat" where
  "srt_nalu_end data e =
     (if e < length data then
        if e + 3 \<le> length data \<and> data ! e = 0 \<and> data ! (e + 1) = 0 \<and>
           (data ! (e + 2) = 1 \<or> (data ! (e + 2) = 0 \<and> e + 4 \<le> length data \<and> data ! (e + 3) = 1))
        then e
        else srt_nalu_end data (e + 1)
      else e)"
  by pat_completeness auto
termination by (relation "measure (\<lambda>(data, e). length data - e)") auto

declare srt_nalu_end.simps [simp del]

lemma srt_nalu_end_ge: "e \<le> srt_nalu_end data e"
proof (induction data e rule: srt_nalu_end.induct)
  case (1 data e)
  then show ?case by (subst srt_nalu_end.simps) (auto intro: Suc_leD)
qed

function srt_split_from :: "bytes \<Rightarrow> nat \<Rightarrow> (bytes list, unit) outcome" where
  "srt_split_from data i =
     (if i < length data then
        let sc_len =
          (if i + 3 \<le> length data \<and> data ! i = 0 \<and> data ! (i + 1) = 0 \<and> data ! (i + 2) = 1 then 3
           else if i + 4 \<le> length data \<and> data ! i = 0 \<and> data ! (i + 1) = 0 \<and> data ! (i + 2) = 0 \<and>
             data ! (i + 3) = 1 then 4 else (0 :: nat)) in
        if sc_len = 0 then srt_split_from data (i + 1)
        else
          let nalu_start = i + sc_len; e = srt_nalu_end data nalu_start in
          obind (if e > nalu_start then obind (slice data nalu_start e) (\<lambda>n. Ok [n]) else Ok []) (\<lambda>ns.
          obind (srt_split_from data e) (\<lambda>more. Ok (ns @ more)))
      else Ok [])"
  by pat_completeness auto
termination
proof (relation "measure (\<lambda>(data, i). length data - i)", goal_cases)
  case (3 data i sc s e)
  then have "i < s" "s \<le> e" using srt_nalu_end_ge [of s data] by (auto split: if_splits)
  with 3 show ?case by simp
qed auto

declare srt_split_from.simps [simp del]

definition srt_split_annex_b :: "bytes \<Rightarrow> (bytes list, unit) outcome" where
  "srt_split_annex_b data = srt_split_from data 0"

fun srt_avcc_entries :: "bytes list \<Rightarrow> (bytes, unit) outcome" where
  "srt_avcc_entries [] = Ok []"
| "srt_avcc_entries (nalu # nalus) =
     (if nalu = [] then srt_avcc_entries nalus
      else obind (idx nalu 0) (\<lambda>b0.
        let nal_type = b0 AND 0x1F in
        if nal_type = 7 \<or> nal_type = 8 then srt_avcc_entries nalus
        else obind (srt_avcc_entries nalus) (\<lambda>more. Ok (avcc_entry nalu @ more))))"

definition srt_annex_b_to_avcc :: "bytes \<Rightarrow> (bytes, unit) outcome" where
  "srt_annex_b_to_avcc data = obind (srt_split_annex_b data) srt_avcc_entries"

fun srt_hvcc_entries :: "bytes list \<Rightarrow> (bytes, unit) outcome" where
  "srt_hvcc_entries [] = Ok []"
| "srt_hvcc_entries (nalu # nalus) =
     (if length nalu < 2 then srt_hvcc_entries nalus
      else obind (idx nalu 0) (\<lambda>b0.
        let nal_type = drop_bit 1 b0 AND 0x3F in
        if nal_type = 32 \<or> nal_type = 33 \<or> nal_type = 34 then srt_hvcc_entries nalus
        else obind (srt_hvcc_entries nalus) (\<lambda>more. Ok (avcc_entry nalu @ more))))"

definition srt_annex_b_to_hvcc :: "bytes \<Rightarrow> (bytes, unit) outcome" where
  "srt_annex_b_to_hvcc data = obind (srt_split_annex_b data) srt_hvcc_entries"

section \<open>The AVCC readers\<close>

text \<open>\<open>split_avcc\<close> of the WHEP crate consumes a shrinking slice.\<close>

function whep_split_avcc :: "bytes \<Rightarrow> (bytes list, unit) outcome" where
  "whep_split_avcc data =
     (if length data \<ge> 4 then
        let len = unat (be32 (data ! 0) (data ! 1) (data ! 2) (data ! 3)) in
        if len = 0 then obind (slice data 4 (length data)) whep_split_avcc
        else if len > length data - 4 then Ok []
        else obind (slice data 4 (4 + len)) (\<lambda>nal.
          obind (slice data (4 + len) (length data)) (\<lambda>rest.
          obind (whep_split_avcc rest) (\<lambda>more. Ok (nal # more))))
      else Ok [])"
  by pat_completeness auto
termination by (relation "measure length") (auto simp: slice_eq_Ok)

declare whep_split_avcc.simps [simp del]

text \<open>
  \<open>split_avcc_nalus\<close> of the RTSP crate moves an offset.  Lengths and offsets are \<open>usize\<close>; a slice is
  shorter than \<open>isize::MAX\<close>, so \<open>checked_add\<close> never fails on a 64-bit target.
\<close>

function rtsp_split_avcc_from :: "bytes \<Rightarrow> nat \<Rightarrow> (bytes list, unit) outcome" where
  "rtsp_split_avcc_from body offset =
     (if offset + 4 \<le> length body then
        let len = unat (be32 (body ! offset) (body ! (offset + 1)) (body ! (offset + 2))
                    (body ! (offset + 3)));
            offset = offset + 4 in
        if len = 0 then rtsp_split_avcc_from body offset
        else
          let e = offset + len in
          if e > length body then Ok []
          else obind (slice body offset e) (\<lambda>nal.
            obind (rtsp_split_avcc_from body e) (\<lambda>more. Ok (nal # more)))
      else Ok [])"
  by pat_completeness auto
termination by (relation "measure (\<lambda>(body, offset). length body - offset)") auto

declare rtsp_split_avcc_from.simps [simp del]

definition split_avcc_nalus :: "bytes \<Rightarrow> (bytes list, unit) outcome" where
  "split_avcc_nalus body = rtsp_split_avcc_from body 0"

function avcc_to_annex_b_from :: "bytes \<Rightarrow> nat \<Rightarrow> (bytes, unit) outcome" where
  "avcc_to_annex_b_from avcc i =
     (if i + 4 \<le> length avcc then
        let len = unat (be32 (avcc ! i) (avcc ! (i + 1)) (avcc ! (i + 2)) (avcc ! (i + 3))); i = i + 4 in
        if len = 0 then avcc_to_annex_b_from avcc i
        else if i + len > length avcc then Ok []
        else obind (slice avcc i (i + len)) (\<lambda>nal.
          obind (avcc_to_annex_b_from avcc (i + len)) (\<lambda>more. Ok ([0, 0, 0, 1] @ nal @ more)))
      else Ok [])"
  by pat_completeness auto
termination by (relation "measure (\<lambda>(avcc, i). length avcc - i)") auto

declare avcc_to_annex_b_from.simps [simp del]

definition avcc_to_annex_b :: "bytes \<Rightarrow> (bytes, unit) outcome" where
  "avcc_to_annex_b avcc = avcc_to_annex_b_from avcc 0"

datatype media_codec = CodecH264 | CodecH265 | CodecAac | CodecOpus

function param_set_from :: "media_codec \<Rightarrow> bytes \<Rightarrow> nat \<Rightarrow> bool" where
  "param_set_from codec data i =
     (if i + 3 < length data then
        if data ! i = 0 \<and> data ! (i + 1) = 0 \<and> data ! (i + 2) = 1 then
          let hdr = data ! (i + 3);
              is_param_set = (case codec of
                  CodecH264 \<Rightarrow> (let t = hdr AND 0x1F in t = 7 \<or> t = 8)
                | CodecH265 \<Rightarrow> (let t = drop_bit 1 hdr AND 0x3F in t = 32 \<or> t = 33 \<or> t = 34)
                | _ \<Rightarrow> False) in
          if is_param_set then True else param_set_from codec data (i + 3)
        else param_set_from codec data (i + 1)
      else False)"
  by pat_completeness auto
termination by (relation "measure (\<lambda>(codec, data, i). length data - i)") auto

declare param_set_from.simps [simp del]

definition annexb_contains_param_set :: "media_codec \<Rightarrow> bytes \<Rightarrow> bool" where
  "annexb_contains_param_set codec data = param_set_from codec data 0"

section \<open>The byte-stream format, on lists\<close>

text \<open>
  The reference: \<open>sc_len\<close> is the length of the start code a list begins with (0 for none),
  \<open>until_sc\<close> cuts a list before its first start code, and \<open>annexb_nals\<close> is what Annex B means.
\<close>

fun sc_len :: "bytes \<Rightarrow> nat" where
  "sc_len (a # b # c # rest) =
     (if a = 0 \<and> b = 0 \<and> c = 1 then 3
      else if a = 0 \<and> b = 0 \<and> c = 0 \<and> rest \<noteq> [] \<and> hd rest = 1 then 4 else 0)"
| "sc_len bs = 0"

fun until_sc :: "bytes \<Rightarrow> bytes \<times> bytes" where
  "until_sc [] = ([], [])"
| "until_sc (b # bs) = (if sc_len (b # bs) \<noteq> 0 then ([], b # bs)
     else (b # fst (until_sc bs), snd (until_sc bs)))"

lemma until_sc_append: "fst (until_sc bs) @ snd (until_sc bs) = bs"
  by (induction bs) auto

lemma length_until_sc: "length (fst (until_sc bs)) + length (snd (until_sc bs)) = length bs"
  by (metis until_sc_append length_append)

lemma until_sc_rest: "snd (until_sc bs) = [] \<or> sc_len (snd (until_sc bs)) \<noteq> 0"
  by (induction bs) auto

lemma sc_len_le: "sc_len bs \<le> length bs"
  by (cases bs rule: sc_len.cases) (auto simp: Suc_le_eq)

function annexb_codes :: "bytes \<Rightarrow> bytes list" where
  "annexb_codes bs =
     (if sc_len bs = 0 then []
      else let p = until_sc (drop (sc_len bs) bs) in
        (if fst p = [] then [] else [fst p]) @ annexb_codes (snd p))"
  by pat_completeness auto
termination
proof (relation "measure length")
  fix bs p assume "sc_len bs \<noteq> 0" "p = until_sc (drop (sc_len bs) bs)"
  then show "(snd p, bs) \<in> measure length"
    using length_until_sc [of "drop (sc_len bs) bs"] sc_len_le [of bs] by simp
qed simp

declare annexb_codes.simps [simp del]

definition annexb_nals :: "bytes \<Rightarrow> bytes list" where
  "annexb_nals data = annexb_codes (snd (until_sc data))"

section \<open>Both splitters implement it\<close>

lemma drop_three: "i + 3 \<le> length xs \<Longrightarrow>
    drop i xs = xs ! i # xs ! (i + 1) # xs ! (i + 2) # drop (i + 3) xs"
  by (simp add: Cons_nth_drop_Suc numeral_3_eq_3)

lemma sc_len_drop:
  "sc_len (drop i data) =
    (if i + 3 \<le> length data \<and> data ! i = 0 \<and> data ! (i + 1) = 0 \<and> data ! (i + 2) = 1 then 3
     else if i + 4 \<le> length data \<and> data ! i = 0 \<and> data ! (i + 1) = 0 \<and> data ! (i + 2) = 0 \<and>
       data ! (i + 3) = 1 then 4 else 0)"
proof (cases "i + 3 \<le> length data")
  case True
  have "i + 4 \<le> length data \<Longrightarrow> hd (drop (i + 3) data) = data ! (i + 3)"
    by (simp add: hd_drop_conv_nth)
  moreover have "(drop (i + 3) data \<noteq> []) = (i + 4 \<le> length data)" by auto
  ultimately show ?thesis using True
    unfolding drop_three [OF True] sc_len.simps by (cases "i + 4 \<le> length data") simp_all
next
  case False
  then have "length (drop i data) < 3" by simp
  then have "sc_len (drop i data) = 0" by (cases "drop i data" rule: sc_len.cases) auto
  with False show ?thesis by simp
qed

lemma until_sc_drop:
  "i < length data \<Longrightarrow> sc_len (drop i data) = 0 \<Longrightarrow>
     until_sc (drop i data) = (data ! i # fst (until_sc (drop (Suc i) data)), snd (until_sc (drop (Suc i) data)))"
  by (subst (asm) Cons_nth_drop_Suc [symmetric], simp, subst Cons_nth_drop_Suc [symmetric]) auto

lemma until_sc_code: "sc_len bs \<noteq> 0 \<Longrightarrow> until_sc bs = ([], bs)"
  by (cases bs) auto

lemma find_start_codes_spec:
  "find_start_codes_from data i =
    (let p = until_sc (drop i data); s = i + length (fst p) in
     if snd p = [] then []
     else \<lparr>run_start = s, run_end = s + sc_len (snd p)\<rparr> # find_start_codes_from data (s + sc_len (snd p)))"
proof (induction data i rule: find_start_codes_from.induct)
  case (1 data i)
  show ?case
  proof (cases "sc_len (drop i data) = 0")
    case False
    then have ne: "drop i data \<noteq> []" by auto
    show ?thesis
      using False unfolding until_sc_code [OF False] Let_def
      by (subst find_start_codes_from.simps) (auto simp: sc_len_drop ne split: if_splits)
  next
    case True
    show ?thesis
    proof (cases "i + 3 \<le> length data")
      case False
      have z: "sc_len (drop j data) = 0" if "i \<le> j" for j using False that by (simp add: sc_len_drop)
      have "snd (until_sc (drop i data)) = []"
      proof (rule ccontr)
        let ?p = "until_sc (drop i data)"
        assume ne: "snd ?p \<noteq> []"
        have "snd ?p = drop (i + length (fst ?p)) data"
          using until_sc_append [of "drop i data"]
          by (metis append_eq_conv_conj drop_drop add.commute)
        then have "sc_len (snd ?p) = 0" using z [of "i + length (fst ?p)"] by simp
        with ne show False using until_sc_rest by blast
      qed
      with False show ?thesis by (subst find_start_codes_from.simps) simp
    next
      case len: True
      have step: "find_start_codes_from data i = find_start_codes_from data (i + 1)"
        using True len by (subst find_start_codes_from.simps) (auto simp: sc_len_drop split: if_splits)
      have IH: "find_start_codes_from data (i + 1) =
        (let p = until_sc (drop (i + 1) data); s = (i + 1) + length (fst p) in
         if snd p = [] then []
         else \<lparr>run_start = s, run_end = s + sc_len (snd p)\<rparr> # find_start_codes_from data (s + sc_len (snd p)))"
        using True len by (intro 1(3)) (auto simp: sc_len_drop split: if_splits)
      have "i < length data" using len by simp
      from until_sc_drop [OF this True] show ?thesis
        unfolding step IH by (simp add: Let_def)
    qed
  qed
qed

lemma snd_until_sc_drop: "snd (until_sc (drop i data)) = drop (i + length (fst (until_sc (drop i data)))) data"
  using until_sc_append [of "drop i data"] by (metis append_eq_conv_conj drop_drop add.commute)

lemma fst_until_sc_take: "fst (until_sc bs) = take (length (fst (until_sc bs))) bs"
  by (metis until_sc_append append_eq_conv_conj)

definition split_runs :: "bytes \<Rightarrow> start_code_run list \<Rightarrow> (bytes list, unit) outcome" where
  "split_runs data starts =
     obind (nals_between data starts) (\<lambda>out.
       if run_end (last starts) < length data
       then obind (slice data (run_end (last starts)) (length data)) (\<lambda>n. Ok (out @ [n]))
       else Ok out)"

lemma split_runs_single:
  "split_runs data [r] = (if run_end r < length data then Ok [drop (run_end r) data] else Ok [])"
  by (simp add: split_runs_def)

lemma split_runs_cons:
  assumes "run_start r' \<le> length data"
  shows "split_runs data (r # r' # rs) = obind (split_runs data (r' # rs)) (\<lambda>more.
     Ok ((if run_end r < run_start r' then [take (run_start r' - run_end r) (drop (run_end r) data)]
          else []) @ more))"
  using assms by (auto simp: split_runs_def obind_assoc intro!: obind_cong)

lemma find_start_codes_at:
  assumes "sc_len (drop i data) \<noteq> 0"
  shows "find_start_codes_from data i = \<lparr>run_start = i, run_end = i + sc_len (drop i data)\<rparr> #
    find_start_codes_from data (i + sc_len (drop i data))"
proof -
  have "drop i data \<noteq> []" using assms by auto
  with assms show ?thesis
    using find_start_codes_spec [of data i] by (simp add: until_sc_code Let_def)
qed

lemma find_start_codes_skip:
  "find_start_codes_from data i =
    (let p = until_sc (drop i data) in
     if snd p = [] then [] else find_start_codes_from data (i + length (fst p)))"
proof (cases "snd (until_sc (drop i data)) = []")
  case True
  then show ?thesis by (subst find_start_codes_spec) (simp add: Let_def)
next
  case False
  let ?j = "i + length (fst (until_sc (drop i data)))"
  have "sc_len (drop ?j data) \<noteq> 0"
    using False until_sc_rest [of "drop i data"] by (simp add: snd_until_sc_drop)
  from find_start_codes_at [OF this] False show ?thesis
    by (subst find_start_codes_spec) (simp add: Let_def snd_until_sc_drop)
qed

lemma sc_len_pos_less: "sc_len (drop i data) \<noteq> 0 \<Longrightarrow> i + sc_len (drop i data) \<le> length data"
  using sc_len_le [of "drop i data"] by (cases "i \<le> length data") auto

lemma annexb_codes_at:
  assumes "sc_len (drop i data) \<noteq> 0"
  shows "annexb_codes (drop i data) =
    (let p = until_sc (drop (i + sc_len (drop i data)) data) in
     (if fst p = [] then [] else [fst p]) @
     annexb_codes (drop (i + sc_len (drop i data) + length (fst p)) data))"
proof -
  have "drop (sc_len (drop i data)) (drop i data) = drop (i + sc_len (drop i data)) data"
    by (simp add: add.commute)
  with assms show ?thesis
    by (subst annexb_codes.simps) (simp only: Let_def if_False snd_until_sc_drop)
qed

lemma split_runs_spec:
  "sc_len (drop i data) \<noteq> 0 \<Longrightarrow>
     split_runs data (find_start_codes_from data i) = Ok (annexb_codes (drop i data))"
proof (induction "length data - i" arbitrary: i rule: less_induct)
  case less
  let ?b = "i + sc_len (drop i data)"
  define p where "p = until_sc (drop ?b data)"
  let ?j = "?b + length (fst p)"
  have b: "?b \<le> length data" "i < ?b" using sc_len_pos_less [OF less.prems] less.prems by auto
  have p2: "snd p = drop ?j data" unfolding p_def by (rule snd_until_sc_drop)
  have p1: "fst p = take (length (fst p)) (drop ?b data)" unfolding p_def by (rule fst_until_sc_take)
  have codes: "annexb_codes (drop i data) = (if fst p = [] then [] else [fst p]) @ annexb_codes (drop ?j data)"
    using annexb_codes_at [OF less.prems] by (simp only: Let_def p_def)
  note at = find_start_codes_at [OF less.prems]
  have skip: "find_start_codes_from data ?b = (if snd p = [] then [] else find_start_codes_from data ?j)"
    using find_start_codes_skip [of data ?b] by (simp add: p_def Let_def)
  show ?case
  proof (cases "snd p = []")
    case True
    then have "fst p = drop ?b data" using until_sc_append [of "drop ?b data"] by (simp add: p_def)
    moreover have "annexb_codes [] = []" by (simp add: annexb_codes.simps)
    ultimately show ?thesis using True codes b
      by (auto simp: at skip split_runs_single p2)
  next
    case False
    have sc: "sc_len (drop ?j data) \<noteq> 0"
      using False until_sc_rest [of "drop ?b data"] p2 by (simp add: p_def)
    have jl: "?j \<le> length data" using sc_len_pos_less [OF sc] by simp
    have IH: "split_runs data (find_start_codes_from data ?j) = Ok (annexb_codes (drop ?j data))"
      using b jl by (intro less.hyps sc) auto
    show ?thesis
      using IH jl False p1 unfolding at skip if_not_P [OF False] find_start_codes_at [OF sc] codes
      by (subst split_runs_cons) auto
  qed
qed

lemma whip_split_spec: "whip_split_annex_b data = Ok (annexb_nals data)"
proof -
  let ?p = "until_sc data"
  have skip: "find_start_codes data = (if snd ?p = [] then [] else find_start_codes_from data (length (fst ?p)))"
    using find_start_codes_skip [of data 0] by (simp add: find_start_codes_def Let_def)
  show ?thesis
  proof (cases "snd ?p = []")
    case True
    then show ?thesis
      by (simp add: whip_split_annex_b_def skip annexb_nals_def annexb_codes.simps)
  next
    case False
    have d: "snd ?p = drop (length (fst ?p)) data"
      using snd_until_sc_drop [of 0 data] by simp
    have sc: "sc_len (drop (length (fst ?p)) data) \<noteq> 0"
      using False until_sc_rest [of data] d by simp
    have ne: "find_start_codes_from data (length (fst ?p)) \<noteq> []"
      using find_start_codes_at [OF sc] by simp
    show ?thesis
      using split_runs_spec [OF sc] ne False
      by (simp add: whip_split_annex_b_def skip split_runs_def Let_def annexb_nals_def d)
  qed
qed

lemma srt_nalu_end_spec:
  "e \<le> length data \<Longrightarrow> srt_nalu_end data e = e + length (fst (until_sc (drop e data)))"
proof (induction data e rule: srt_nalu_end.induct)
  case (1 data e)
  show ?case
  proof (cases "e < length data")
    case False
    with 1 show ?thesis by (simp add: srt_nalu_end.simps)
  next
    case True
    then have ne: "drop e data \<noteq> []" by simp
    show ?thesis
    proof (cases "sc_len (drop e data) = 0")
      case False
      with True show ?thesis
        unfolding until_sc_code [OF False]
        by (subst srt_nalu_end.simps) (auto simp: sc_len_drop split: if_splits)
    next
      case sc: True
      then have "srt_nalu_end data e = srt_nalu_end data (e + 1)"
        using True by (subst srt_nalu_end.simps) (auto simp: sc_len_drop split: if_splits)
      moreover have "srt_nalu_end data (e + 1) = (e + 1) + length (fst (until_sc (drop (e + 1) data)))"
        using True sc by (intro 1(1)) (auto simp: sc_len_drop split: if_splits)
      ultimately show ?thesis using until_sc_drop [OF True sc] by simp
    qed
  qed
qed

lemma srt_split_from_spec: "srt_split_from data i = Ok (annexb_codes (snd (until_sc (drop i data))))"
proof (induction "length data - i" arbitrary: i rule: less_induct)
  case less
  show ?case
  proof (cases "i < length data")
    case False
    then show ?thesis by (simp add: srt_split_from.simps annexb_codes.simps)
  next
    case True
    show ?thesis
    proof (cases "sc_len (drop i data) = 0")
      case sc: True
      have "srt_split_from data i = srt_split_from data (i + 1)"
        using True sc by (subst srt_split_from.simps) (simp add: sc_len_drop Let_def split: if_splits)
      also have "\<dots> = Ok (annexb_codes (snd (until_sc (drop (i + 1) data))))"
        using True by (intro less) simp
      finally show ?thesis using until_sc_drop [OF True sc] by simp
    next
      case False
      let ?b = "i + sc_len (drop i data)"
      define p where "p = until_sc (drop ?b data)"
      let ?j = "?b + length (fst p)"
      have b: "?b \<le> length data" "i < ?b" using sc_len_pos_less [OF False] False by auto
      have e: "srt_nalu_end data ?b = ?j" using srt_nalu_end_spec [OF b(1)] by (simp add: p_def)
      have p2: "snd p = drop ?j data" unfolding p_def by (rule snd_until_sc_drop)
      have jl: "?j \<le> length data" using length_until_sc [of "drop ?b data"] b by (simp add: p_def)
      have p1: "fst p = take (length (fst p)) (drop ?b data)" unfolding p_def by (rule fst_until_sc_take)
      have IH: "srt_split_from data ?j = Ok (annexb_codes (snd (until_sc (drop ?j data))))"
        using b True by (intro less) auto
      have "until_sc (drop ?j data) = ([], drop ?j data)"
        using until_sc_rest [of "drop ?b data"] p2 until_sc_code by (cases "drop ?j data = []") (auto simp: p_def)
      with IH have IH': "srt_split_from data ?j = Ok (annexb_codes (drop ?j data))" by simp
      have "srt_split_from data i =
          obind (if ?j > ?b then obind (slice data ?b ?j) (\<lambda>n. Ok [n]) else Ok []) (\<lambda>ns.
          obind (srt_split_from data ?j) (\<lambda>more. Ok (ns @ more)))"
        using True False unfolding e [symmetric]
        by (subst srt_split_from.simps) (simp only: if_True Let_def sc_len_drop [symmetric] if_False)
      also have "\<dots> = Ok ((if fst p = [] then [] else [fst p]) @ annexb_codes (drop ?j data))"
        using IH' jl p1 by auto
      also have "\<dots> = Ok (annexb_codes (drop i data))"
        using annexb_codes_at [OF False] by (simp only: Let_def p_def)
      finally show ?thesis using False by (simp add: until_sc_code)
    qed
  qed
qed

lemma srt_split_spec: "srt_split_annex_b data = Ok (annexb_nals data)"
  by (simp add: srt_split_annex_b_def srt_split_from_spec annexb_nals_def)

section \<open>The AVCC readers agree\<close>

function avcc_nals :: "bytes \<Rightarrow> bytes list" where
  "avcc_nals data =
     (if length data < 4 then []
      else let len = unat (be32 (data ! 0) (data ! 1) (data ! 2) (data ! 3)) in
        if len = 0 then avcc_nals (drop 4 data)
        else if len > length data - 4 then []
        else take len (drop 4 data) # avcc_nals (drop (4 + len) data))"
  by pat_completeness auto
termination by (relation "measure length") auto

declare avcc_nals.simps [simp del]

lemma whep_split_avcc_spec: "whep_split_avcc data = Ok (avcc_nals data)"
proof (induction data rule: avcc_nals.induct)
  case (1 data)
  let ?len = "unat (be32 (data ! 0) (data ! 1) (data ! 2) (data ! 3))"
  show ?case
  proof (cases "length data < 4")
    case True
    then show ?thesis by (simp add: whep_split_avcc.simps avcc_nals.simps)
  next
    case False
    then have s4: "slice data 4 (length data) = Ok (drop 4 data)" by simp
    show ?thesis
      using False 1 [OF False refl]
      by (subst whep_split_avcc.simps, subst avcc_nals.simps) (auto simp: Let_def s4)
  qed
qed

lemma avcc_nals_at:
  fixes body :: bytes and i :: nat
  defines "len \<equiv> unat (be32 (body ! i) (body ! (i + 1)) (body ! (i + 2)) (body ! (i + 3)))"
  assumes "i + 4 \<le> length body"
  shows "avcc_nals (drop i body) =
    (if len = 0 then avcc_nals (drop (i + 4) body)
     else if i + 4 + len > length body then []
     else take len (drop (i + 4) body) # avcc_nals (drop (i + 4 + len) body))"
proof -
  have "drop 4 (drop i body) = drop (i + 4) body" "drop (4 + len) (drop i body) = drop (i + 4 + len) body"
    by (simp_all add: add_ac)
  moreover have "\<not> length (drop i body) < 4" "(length (drop i body) - 4 < len) = (i + 4 + len > length body)"
    using assms(2) by auto
  moreover have "unat (be32 (drop i body ! 0) (drop i body ! 1) (drop i body ! 2) (drop i body ! 3)) = len"
    using assms(2) by (simp add: len_def)
  ultimately show ?thesis
    by (subst avcc_nals.simps) (simp only: Let_def if_False)
qed

lemma rtsp_split_avcc_spec: "rtsp_split_avcc_from body i = Ok (avcc_nals (drop i body))"
proof (induction body i rule: rtsp_split_avcc_from.induct)
  case (1 body i)
  show ?case
  proof (cases "i + 4 \<le> length body")
    case False
    then have "length (drop i body) < 4" by simp
    with False show ?thesis by (simp add: rtsp_split_avcc_from.simps avcc_nals.simps del: length_drop)
  next
    case True
    then show ?thesis
      using 1 unfolding avcc_nals_at [OF True]
      by (subst rtsp_split_avcc_from.simps) (auto simp: Let_def)
  qed
qed

definition annexb_entry :: "bytes \<Rightarrow> bytes" where
  "annexb_entry nal = [0, 0, 0, 1] @ nal"

lemma annexb_entry_append: "annexb_entry nal @ rest = 0 # 0 # 0 # 1 # nal @ rest"
  by (simp add: annexb_entry_def)

lemma avcc_to_annex_b_spec:
  "avcc_to_annex_b_from avcc i = Ok (concat (map annexb_entry (avcc_nals (drop i avcc))))"
proof (induction avcc i rule: avcc_to_annex_b_from.induct)
  case (1 avcc i)
  show ?case
  proof (cases "i + 4 \<le> length avcc")
    case False
    then have "length (drop i avcc) < 4" by simp
    with False show ?thesis by (simp add: avcc_to_annex_b_from.simps avcc_nals.simps del: length_drop)
  next
    case True
    then show ?thesis
      using 1 unfolding avcc_nals_at [OF True]
      by (subst avcc_to_annex_b_from.simps) (auto simp: Let_def annexb_entry_append)
  qed
qed

definition nal_fits :: "bytes \<Rightarrow> bool" where
  "nal_fits nal \<longleftrightarrow> nal \<noteq> [] \<and> length nal < 2 ^ 32"

lemma avcc_nals_entry:
  assumes "nal_fits nal"
  shows "avcc_nals (avcc_entry nal @ rest) = nal # avcc_nals rest"
proof -
  have n: "unat (of_nat (length nal) :: u32) = length nal"
    using assms by (intro unat_of_nat_id) (simp add: nal_fits_def)
  have d: "drop 4 (avcc_entry nal @ rest) = nal @ rest" "drop (4 + length nal) (avcc_entry nal @ rest) = rest"
    by (simp_all add: avcc_entry_def)
  have l: "unat (be32 ((avcc_entry nal @ rest) ! 0) ((avcc_entry nal @ rest) ! 1)
      ((avcc_entry nal @ rest) ! 2) ((avcc_entry nal @ rest) ! 3)) = length nal"
    by (simp add: avcc_entry_def be32_bytes_def n)
  have "length (avcc_entry nal @ rest) = 4 + length nal + length rest" by (simp add: avcc_entry_def)
  with assms show ?thesis
    by (subst avcc_nals.simps) (simp only: Let_def l d, simp add: nal_fits_def)
qed

lemma avcc_nals_entries: "list_all nal_fits nals \<Longrightarrow> avcc_nals (concat (map avcc_entry nals)) = nals"
  by (induction nals) (simp_all add: avcc_nals_entry, simp add: avcc_nals.simps)

lemma avcc_write_nonempty_eq: "list_all nal_fits nals \<Longrightarrow> avcc_write_nonempty nals = concat (map avcc_entry nals)"
  by (induction nals) (auto simp: nal_fits_def)

section \<open>What the splitters return\<close>

text \<open>A NAL is clean when no start code begins inside it.\<close>

definition nal_clean :: "bytes \<Rightarrow> bool" where
  "nal_clean nal \<longleftrightarrow> (\<forall>i < length nal. sc_len (drop i nal) = 0)"

lemma sc_len_append: "sc_len (xs @ ys) = 0 \<Longrightarrow> sc_len xs = 0"
  by (cases xs rule: sc_len.cases) (auto split: if_splits)

lemma until_sc_clean: "nal_clean (fst (until_sc bs))"
proof (induction bs)
  case (Cons b bs)
  show ?case
  proof (cases "sc_len (b # bs) = 0")
    case True
    have "sc_len ((b # fst (until_sc bs)) @ snd (until_sc bs)) = 0"
      using True until_sc_append [of bs] by simp
    then have "sc_len (b # fst (until_sc bs)) = 0" by (rule sc_len_append)
    with True Cons show ?thesis by (auto simp: nal_clean_def drop_Cons split: nat.splits)
  qed (simp add: nal_clean_def)
qed (simp add: nal_clean_def)

lemma annexb_codes_clean: "list_all (\<lambda>n. n \<noteq> [] \<and> nal_clean n) (annexb_codes bs)"
proof (induction bs rule: annexb_codes.induct)
  case (1 bs)
  then show ?case using until_sc_clean
    by (subst annexb_codes.simps) (simp add: Let_def)
qed

lemma annexb_codes_length: "list_all (\<lambda>n. length n \<le> length bs) (annexb_codes bs)"
proof (induction bs rule: annexb_codes.induct)
  case (1 bs)
  show ?case
  proof (cases "sc_len bs = 0")
    case False
    let ?p = "until_sc (drop (sc_len bs) bs)"
    have l: "length (fst ?p) \<le> length bs" "length (snd ?p) \<le> length bs"
      using length_until_sc [of "drop (sc_len bs) bs"] by simp_all
    have "list_all (\<lambda>n. length n \<le> length bs) (annexb_codes (snd ?p))"
      using 1 [OF False refl] l(2) by (auto simp: list_all_iff intro: le_trans)
    with False l show ?thesis by (subst annexb_codes.simps) (simp add: Let_def)
  qed (simp add: annexb_codes.simps)
qed

lemma annexb_nals_fit:
  assumes "length data < 2 ^ 32" shows "list_all nal_fits (annexb_nals data)"
proof -
  have "length (snd (until_sc data)) \<le> length data" using length_until_sc [of data] by simp
  with assms annexb_codes_clean [of "snd (until_sc data)"] annexb_codes_length [of "snd (until_sc data)"]
  show ?thesis by (auto simp: annexb_nals_def list_all_iff nal_fits_def intro: le_less_trans)
qed

text \<open>A clean NAL behind a four-byte start code is found again, trailing zeros included.\<close>

lemma until_sc_four:
  "nal_clean nal \<Longrightarrow> until_sc (nal @ [0, 0, 0, 1] @ rest) = (nal, [0, 0, 0, 1] @ rest)"
proof (induction nal)
  case (Cons b nal)
  have "nal_clean nal" "sc_len (b # nal) = 0"
    using Cons.prems by (auto simp: nal_clean_def dest: spec [of _ 0] spec [of _ "Suc _"])
  then have "sc_len ((b # nal) @ [0, 0, 0, 1] @ rest) = 0"
    by (cases "b # nal" rule: sc_len.cases) (auto simp: hd_append split: if_splits)
  with Cons \<open>nal_clean nal\<close> show ?case by simp
qed simp

lemma until_sc_end: "nal_clean nal \<Longrightarrow> until_sc nal = (nal, [])"
proof (induction nal)
  case (Cons b nal)
  then have "nal_clean nal" "sc_len (b # nal) = 0"
    by (auto simp: nal_clean_def dest: spec [of _ 0] spec [of _ "Suc _"])
  with Cons show ?case by simp
qed simp

lemma annexb_codes_four:
  "list_all (\<lambda>n. n \<noteq> [] \<and> nal_clean n) nals \<Longrightarrow>
     annexb_codes (concat (map annexb_entry nals)) = nals"
proof (induction nals)
  case (Cons n ns)
  then have n: "n \<noteq> []" "nal_clean n" by simp_all
  show ?case
  proof (cases ns)
    case Nil
    with n until_sc_end [OF n(2)] show ?thesis
      by (subst annexb_codes.simps) (simp add: Let_def annexb_entry_def annexb_codes.simps [of "[]"])
  next
    case (Cons m ms)
    with n Cons.IH Cons.prems until_sc_four [OF n(2), of "m @ concat (map annexb_entry ms)"]
    show ?thesis by (subst annexb_codes.simps) (simp add: Let_def annexb_entry_append)
  qed
qed (simp add: annexb_codes.simps)

lemma annexb_nals_four:
  assumes "list_all (\<lambda>n. n \<noteq> [] \<and> nal_clean n) nals"
  shows "annexb_nals (concat (map annexb_entry nals)) = nals"
  using annexb_codes_four [OF assms] by (cases nals) (simp_all add: annexb_nals_def annexb_entry_def annexb_codes.simps [of "[]"])

section \<open>Parameter sets\<close>

definition nal_is_param_set :: "media_codec \<Rightarrow> u8 \<Rightarrow> bool" where
  "nal_is_param_set codec hdr = (case codec of
       CodecH264 \<Rightarrow> hdr AND 0x1F = 7 \<or> hdr AND 0x1F = 8
     | CodecH265 \<Rightarrow> drop_bit 1 hdr AND 0x3F = 32 \<or> drop_bit 1 hdr AND 0x3F = 33 \<or> drop_bit 1 hdr AND 0x3F = 34
     | _ \<Rightarrow> False)"

definition some_param_set :: "media_codec \<Rightarrow> bytes \<Rightarrow> bool" where
  "some_param_set codec bs \<longleftrightarrow> list_ex (\<lambda>n. nal_is_param_set codec (n ! 0)) (annexb_codes (snd (until_sc bs)))"

lemma nal_is_param_set_zero [simp]: "\<not> nal_is_param_set codec 0"
  by (simp add: nal_is_param_set_def split: media_codec.splits)

lemma sc_len_first: "sc_len bs \<noteq> 0 \<Longrightarrow> bs ! 0 = 0"
  by (cases bs rule: sc_len.cases) (auto split: if_splits)

lemma until_sc_first: "fst (until_sc bs) \<noteq> [] \<Longrightarrow> fst (until_sc bs) ! 0 = bs ! 0"
  by (cases bs) auto

lemma some_param_set_code:
  assumes "sc_len (drop i data) \<noteq> 0" and "j = i + sc_len (drop i data)"
  shows "some_param_set codec (drop i data) \<longleftrightarrow>
    (j < length data \<and> nal_is_param_set codec (data ! j)) \<or> some_param_set codec (drop j data)"
proof -
  let ?p = "until_sc (drop j data)"
  have "some_param_set codec (drop i data) \<longleftrightarrow>
      (fst ?p \<noteq> [] \<and> nal_is_param_set codec (fst ?p ! 0)) \<or> some_param_set codec (drop j data)"
    using annexb_codes_at [OF assms(1)]
    by (simp add: some_param_set_def until_sc_code [OF assms(1)] Let_def assms(2) snd_until_sc_drop)
  moreover have "fst ?p \<noteq> [] \<Longrightarrow> j < length data \<and> fst ?p ! 0 = data ! j"
    using until_sc_first [of "drop j data"] by (cases "j < length data") auto
  moreover have "j < length data \<Longrightarrow> fst ?p = [] \<Longrightarrow> data ! j = 0"
    using sc_len_first [of "drop j data"] until_sc_drop [of j data] by fastforce
  ultimately show ?thesis by (metis nal_is_param_set_zero)
qed

lemma some_param_set_skip:
  "i < length data \<Longrightarrow> sc_len (drop i data) = 0 \<Longrightarrow>
     some_param_set codec (drop i data) = some_param_set codec (drop (Suc i) data)"
  by (simp add: some_param_set_def until_sc_drop)

lemma some_param_set_short:
  assumes "length bs \<le> 3" shows "\<not> some_param_set codec bs"
proof -
  have "annexb_codes (snd (until_sc bs)) = []"
  proof (cases "sc_len (snd (until_sc bs)) = 0")
    case False
    let ?r = "snd (until_sc bs)"
    have "length ?r \<le> 3" using length_until_sc [of bs] assms by simp
    with False have "drop (sc_len ?r) ?r = []"
      by (cases ?r rule: sc_len.cases) (auto split: if_splits)
    with False show ?thesis by (subst annexb_codes.simps) (simp add: Let_def annexb_codes.simps [of "[]"])
  qed (simp add: annexb_codes.simps)
  then show ?thesis by (simp add: some_param_set_def)
qed

lemma param_set_from_spec: "param_set_from codec data i = some_param_set codec (drop i data)"
proof (induction codec data i rule: param_set_from.induct)
  case (1 codec data i)
  show ?case
  proof (cases "i + 3 < length data")
    case False
    then have "length (drop i data) \<le> 3" by simp
    with some_param_set_short False show ?thesis by (subst param_set_from.simps) simp
  next
    case len: True
    show ?thesis
    proof (cases "data ! i = 0 \<and> data ! (i + 1) = 0 \<and> data ! (i + 2) = 1")
      case True
      then have sc: "sc_len (drop i data) = 3" using len by (simp add: sc_len_drop)
      have "param_set_from codec data i =
          (nal_is_param_set codec (data ! (i + 3)) \<or> param_set_from codec data (i + 3))"
        using True len by (subst param_set_from.simps)
          (simp add: Let_def nal_is_param_set_def split: media_codec.splits)
      moreover have "\<not> nal_is_param_set codec (data ! (i + 3)) \<Longrightarrow>
          param_set_from codec data (i + 3) = some_param_set codec (drop (i + 3) data)"
        by (rule 1(1) [OF len True refl refl])
          (simp add: nal_is_param_set_def split: media_codec.splits)
      ultimately show ?thesis
        using some_param_set_code [of i data "i + 3"] sc len by auto
    next
      case False
      have IH: "param_set_from codec data i = some_param_set codec (drop (i + 1) data)"
        using 1(2) [OF len False] by (subst param_set_from.simps) (simp only: len False if_True if_False)
      show ?thesis
      proof (cases "sc_len (drop i data) = 0")
        case True
        with IH some_param_set_skip [of i data] len show ?thesis by simp
      next
        case nz: False
        then have sc: "sc_len (drop i data) = 4" using False by (auto simp: sc_len_drop split: if_splits)
        then have "sc_len (drop (i + 1) data) = 3"
          by (auto simp: sc_len_drop numeral_3_eq_3 numeral_2_eq_2 split: if_splits)
        with sc IH some_param_set_code [of i data "i + 4"] some_param_set_code [of "i + 1" data "i + 4"]
        show ?thesis by simp
      qed
    qed
  qed
qed

section \<open>Properties\<close>

text \<open>
  The Annex B splitters of the WHIP and the SRT crate return the same NAL units on every input.
  Neither panics, and every returned NAL is non-empty and contains no start code.
\<close>

theorem annexb_splitters_agree:
  "\<exists>nals. whip_split_annex_b data = Ok nals \<and> srt_split_annex_b data = Ok nals \<and>
     list_all (\<lambda>n. n \<noteq> [] \<and> nal_clean n) nals"
  using annexb_codes_clean by (simp add: whip_split_spec srt_split_spec annexb_nals_def)

text \<open>
  The three AVCC readers agree on every input, malformed entries included: the WHEP and the RTSP
  splitter return the same NAL units, and the WHEP Annex B writer emits exactly those units behind
  four-byte start codes.  None of them panics.
\<close>

theorem avcc_readers_agree:
  "\<exists>nals. whep_split_avcc avcc = Ok nals \<and> split_avcc_nalus avcc = Ok nals \<and>
     avcc_to_annex_b avcc = Ok (concat (map (\<lambda>n. [0, 0, 0, 1] @ n) nals))"
proof -
  have "annexb_entry = (\<lambda>n. [0, 0, 0, 1] @ n)" by (rule ext) (simp add: annexb_entry_def)
  then show ?thesis
    by (simp add: whep_split_avcc_spec split_avcc_nalus_def rtsp_split_avcc_spec
        avcc_to_annex_b_def avcc_to_annex_b_spec)
qed

lemma annexb_avcc_lossless:
  assumes "length data < 2 ^ 32"
  shows "whip_annex_b_to_avcc data = Ok (concat (map avcc_entry (annexb_nals data)))"
    and "avcc_nals (concat (map avcc_entry (annexb_nals data))) = annexb_nals data"
    and "annexb_nals (concat (map annexb_entry (annexb_nals data))) = annexb_nals data"
proof -
  note fit = annexb_nals_fit [OF assms]
  show "whip_annex_b_to_avcc data = Ok (concat (map avcc_entry (annexb_nals data)))"
    using avcc_write_nonempty_eq [OF fit] by (simp add: whip_annex_b_to_avcc_def whip_split_spec)
  show "avcc_nals (concat (map avcc_entry (annexb_nals data))) = annexb_nals data"
    by (rule avcc_nals_entries [OF fit])
  show "annexb_nals (concat (map annexb_entry (annexb_nals data))) = annexb_nals data"
    by (rule annexb_nals_four) (simp add: annexb_nals_def annexb_codes_clean)
qed

text \<open>
  C32. Crossing from Annex B to AVCC at the WHIP ingest and back to Annex B at the WHEP egress keeps
  every NAL unit, in order and byte for byte, for any input shorter than 4 GiB.
\<close>

theorem annexb_avcc_crossing:
  assumes "length data < 2 ^ 32"
  shows "\<exists>nals avcc annexb. whip_split_annex_b data = Ok nals \<and> whip_annex_b_to_avcc data = Ok avcc \<and>
    whep_split_avcc avcc = Ok nals \<and> avcc_to_annex_b avcc = Ok annexb \<and>
    whip_split_annex_b annexb = Ok nals"
  using annexb_avcc_lossless [OF assms]
  by (simp add: whip_split_spec whep_split_avcc_spec avcc_to_annex_b_def avcc_to_annex_b_spec)

theorem annexb_avcc_crossing_witness:
  "\<exists>nals avcc annexb. whip_split_annex_b [0, 0, 1, 0x65, 0, 0, 0, 0, 1, 0x41] = Ok nals \<and>
    whip_annex_b_to_avcc [0, 0, 1, 0x65, 0, 0, 0, 0, 1, 0x41] = Ok avcc \<and>
    whep_split_avcc avcc = Ok nals \<and> avcc_to_annex_b avcc = Ok annexb \<and>
    whip_split_annex_b annexb = Ok nals"
  by (rule annexb_avcc_crossing) simp

lemma srt_avcc_entries_eq:
  "list_all (\<lambda>n. n \<noteq> []) nals \<Longrightarrow> srt_avcc_entries nals =
     Ok (concat (map avcc_entry (filter (\<lambda>n. \<not> nal_is_param_set CodecH264 (n ! 0)) nals)))"
  by (induction nals) (auto simp: Let_def nal_is_param_set_def)

lemma srt_hvcc_entries_eq:
  "srt_hvcc_entries nals = Ok (concat (map avcc_entry
     (filter (\<lambda>n. 2 \<le> length n \<and> \<not> nal_is_param_set CodecH265 (n ! 0)) nals)))"
proof (induction nals)
  case (Cons n nals)
  show ?case
  proof (cases "length n < 2")
    case False
    then have "idx n 0 = (Ok (n ! 0) :: (u8, unit) outcome)" by (intro idx_Ok) auto
    with Cons False show ?thesis by (auto simp: Let_def nal_is_param_set_def)
  qed (use Cons in simp)
qed simp

text \<open>
  The SRT converters keep exactly the NAL units that are not parameter sets: reading back the AVCC
  form they write gives the split units without SPS and PPS, respectively, for HEVC, without VPS, SPS,
  PPS and units shorter than a NAL header.
\<close>

theorem srt_conversion_filters:
  assumes "length data < 2 ^ 32"
  shows "\<exists>nals avcc hvcc. srt_split_annex_b data = Ok nals \<and>
    srt_annex_b_to_avcc data = Ok avcc \<and> srt_annex_b_to_hvcc data = Ok hvcc \<and>
    split_avcc_nalus avcc = Ok (filter (\<lambda>n. n ! 0 AND 0x1F \<notin> {7, 8}) nals) \<and>
    split_avcc_nalus hvcc = Ok (filter (\<lambda>n. 2 \<le> length n \<and> drop_bit 1 (n ! 0) AND 0x3F \<notin> {32, 33, 34}) nals)"
proof -
  let ?nals = "annexb_nals data"
  have fit: "list_all nal_fits ?nals" using assms by (rule annexb_nals_fit)
  then have "list_all (\<lambda>n. n \<noteq> []) ?nals" by (auto simp: list_all_iff nal_fits_def)
  moreover have "list_all nal_fits (filter P ?nals)" for P using fit by (auto simp: list_all_iff)
  ultimately show ?thesis
    by (simp add: srt_split_spec srt_annex_b_to_avcc_def srt_annex_b_to_hvcc_def srt_avcc_entries_eq
        srt_hvcc_entries_eq split_avcc_nalus_def rtsp_split_avcc_spec avcc_nals_entries
        nal_is_param_set_def)
qed

theorem srt_conversion_filters_witness:
  "\<exists>nals avcc hvcc. srt_split_annex_b [0, 0, 1, 0x67, 0x42, 0, 0, 1, 0x65] = Ok nals \<and>
    srt_annex_b_to_avcc [0, 0, 1, 0x67, 0x42, 0, 0, 1, 0x65] = Ok avcc \<and>
    srt_annex_b_to_hvcc [0, 0, 1, 0x67, 0x42, 0, 0, 1, 0x65] = Ok hvcc \<and>
    split_avcc_nalus avcc = Ok (filter (\<lambda>n. n ! 0 AND 0x1F \<notin> {7, 8}) nals) \<and>
    split_avcc_nalus hvcc = Ok (filter (\<lambda>n. 2 \<le> length n \<and> drop_bit 1 (n ! 0) AND 0x3F \<notin> {32, 33, 34}) nals)"
  by (rule srt_conversion_filters) simp

text \<open>
  The in-band parameter-set scan of the WHEP answerer is exact: it returns true if and only if one of
  the NAL units that the splitter finds is a parameter set of the codec.
\<close>

theorem param_set_scan_exact:
  "annexb_contains_param_set codec data =
     (case whip_split_annex_b data of Ok nals \<Rightarrow> list_ex (\<lambda>n. nal_is_param_set codec (n ! 0)) nals | _ \<Rightarrow> False)"
  using param_set_from_spec [of codec data 0]
  by (simp add: annexb_contains_param_set_def whip_split_spec some_param_set_def annexb_nals_def)

end
