(* ===== verification/RtpWire.thy ===== *)
theory RtpWire
  imports Prelude
begin

text \<open>
  The RTP wire format of \<open>lvqr-rtsp/src/rtp.rs\<close>: the interleaved TCP frame, the RTP header parser
  with CSRC list, extension and padding, and the header writer.  The lemmas show that neither parser
  panics, that the writer's header is read back field by field, and where the payload starts when the
  optional parts are present.
\<close>

section \<open>Interleaved frames\<close>

record interleaved_frame =
  if_channel :: u8
  if_payload :: bytes

definition parse_interleaved_frame :: "bytes \<Rightarrow> ((interleaved_frame \<times> nat) option, unit) outcome" where
  "parse_interleaved_frame buf =
     (if length buf < 4 then Ok None
      else obind (idx buf 0) (\<lambda>b0.
        if b0 \<noteq> 0x24 then Ok None
        else obind (idx buf 1) (\<lambda>channel. obind (idx buf 2) (\<lambda>b2. obind (idx buf 3) (\<lambda>b3.
          let len = unat (be16 b2 b3); total = 4 + len in
          if length buf < total then Ok None
          else obind (slice buf 4 total) (\<lambda>payload.
            Ok (Some (\<lparr>if_channel = channel, if_payload = payload\<rparr>, total))))))))"

definition interleaved_bytes :: "interleaved_frame \<Rightarrow> bytes" where
  "interleaved_bytes f = [0x24, if_channel f] @ be16_bytes (of_nat (length (if_payload f))) @ if_payload f"

section \<open>The RTP header\<close>

record rtp_header =
  rh_payload_type :: u8
  rh_sequence :: u16
  rh_timestamp :: u32
  rh_ssrc :: u32
  rh_marker :: bool
  rh_header_len :: nat

definition parse_rtp_header :: "bytes \<Rightarrow> (rtp_header option, unit) outcome" where
  "parse_rtp_header data =
     (if length data < 12 then Ok None
      else obind (idx data 0) (\<lambda>d0.
        if drop_bit 6 d0 AND 0x03 \<noteq> 2 then Ok None
        else
        let padding = (drop_bit 5 d0 AND 0x01 \<noteq> 0);
            extension = (drop_bit 4 d0 AND 0x01 \<noteq> 0);
            csrc_count = unat (d0 AND 0x0F) in
        obind (idx data 1) (\<lambda>d1.
        let marker = (drop_bit 7 d1 AND 0x01 \<noteq> 0);
            payload_type = d1 AND 0x7F in
        obind (idx data 2) (\<lambda>d2. obind (idx data 3) (\<lambda>d3.
        obind (idx data 4) (\<lambda>d4. obind (idx data 5) (\<lambda>d5. obind (idx data 6) (\<lambda>d6. obind (idx data 7) (\<lambda>d7.
        obind (idx data 8) (\<lambda>d8. obind (idx data 9) (\<lambda>d9. obind (idx data 10) (\<lambda>d10. obind (idx data 11) (\<lambda>d11.
        let offset = 12 + csrc_count * 4 in
        if offset > length data then Ok None
        else
        obind (if extension then
                 (if offset + 4 > length data then Ok None
                  else obind (idx data (offset + 2)) (\<lambda>e2. obind (idx data (offset + 3)) (\<lambda>e3.
                    let ext_len = unat (be16 e2 e3); offset = offset + (4 + ext_len * 4) in
                    if offset > length data then Ok None else Ok (Some offset))))
               else Ok (Some offset)) (\<lambda>offset.
        case offset of None \<Rightarrow> Ok None | Some offset \<Rightarrow>
        obind (if padding \<and> data \<noteq> [] then
                 obind (idx data (length data - 1)) (\<lambda>p. Ok (length data - unat p))
               else Ok (length data)) (\<lambda>payload_end.
        if offset > payload_end then Ok None
        else Ok (Some \<lparr>rh_payload_type = payload_type, rh_sequence = be16 d2 d3,
               rh_timestamp = be32 d4 d5 d6 d7, rh_ssrc = be32 d8 d9 d10 d11, rh_marker = marker,
               rh_header_len = offset\<rparr>))))))))))))))))"

definition write_rtp_header :: "u8 \<Rightarrow> u16 \<Rightarrow> u32 \<Rightarrow> u32 \<Rightarrow> bool \<Rightarrow> bytes" where
  "write_rtp_header payload_type sequence timestamp ssrc marker =
     [0x80, payload_type OR (if marker then 0x80 else 0)] @
     be16_bytes sequence @ be32_bytes timestamp @ be32_bytes ssrc"

section \<open>Lemmas\<close>

lemma returns_parse_interleaved: "returns (parse_interleaved_frame buf)"
  unfolding parse_interleaved_frame_def Let_def
  by (intro returns_obind returns_if returns_idx returns_slice returns_simps) auto

lemma returns_parse_rtp_header: "returns (parse_rtp_header data)"
  unfolding parse_rtp_header_def Let_def
  by (intro returns_obind returns_if returns_idx returns_case_option returns_simps) auto

lemma parse_rtp_header_len:
  "parse_rtp_header data = Ok (Some h) \<Longrightarrow> 12 \<le> rh_header_len h \<and> rh_header_len h \<le> length data"
  unfolding parse_rtp_header_def Let_def
  by (auto simp: obind_eq_Ok split: if_splits option.splits)

lemma length_write_rtp_header [simp]: "length (write_rtp_header pt s ts ssrc m) = 12"
  by (simp add: write_rtp_header_def)

lemma marker_bit: "drop_bit 7 (pt OR (if m then 0x80 else 0)) AND 0x01 = (of_bool (m \<or> bit pt 7) :: u8)"
  by (simp add: drop_bit_and_one bit_simps)

lemma payload_type_bits:
  assumes "pt < (0x80 :: u8)"
  shows "(pt OR (if m then 0x80 else 0)) AND 0x7F = pt" and "\<not> bit pt 7"
proof -
  have "unat pt < 2 ^ 7" using assms by (simp add: word_less_nat_alt)
  then have t: "take_bit 7 pt = pt"
    by (simp add: word_unat_eq_iff unsigned_take_bit_eq take_bit_nat_eq_self)
  then show "\<not> bit pt 7" by (metis bit_take_bit_iff less_irrefl)
  have "pt AND 0x7F = pt" using t by (simp add: take_bit_eq_mask mask_eq_decr_exp)
  then show "(pt OR (if m then 0x80 else 0)) AND 0x7F = pt"
    by (simp add: bit.conj_disj_distrib2)
qed

lemma parse_written_header:
  "parse_rtp_header (write_rtp_header pt s ts ssrc m @ payload) =
    Ok (Some \<lparr>rh_payload_type = pt AND 0x7F, rh_sequence = s, rh_timestamp = ts, rh_ssrc = ssrc,
              rh_marker = (m \<or> bit pt 7), rh_header_len = 12\<rparr>)"
  using marker_bit [of pt m]
  by (simp add: bit.conj_disj_distrib2 parse_rtp_header_def write_rtp_header_def be16_bytes_def be32_bytes_def Let_def idx_def)

section \<open>Packets with all optional parts\<close>

record rtp_fields =
  rf_marker :: bool
  rf_payload_type :: u8
  rf_sequence :: u16
  rf_timestamp :: u32
  rf_ssrc :: u32
  rf_csrcs :: "u32 list"
  rf_extension :: "(u16 \<times> u32 list) option"
  rf_padding :: nat

definition rtp_first_byte :: "bool \<Rightarrow> bool \<Rightarrow> nat \<Rightarrow> u8" where
  "rtp_first_byte p x cc = 0x80 OR (if p then 0x20 else 0) OR (if x then 0x10 else 0) OR of_nat cc"

definition rtp_fixed :: "rtp_fields \<Rightarrow> bytes" where
  "rtp_fixed f = [rtp_first_byte (0 < rf_padding f) (rf_extension f \<noteq> None) (length (rf_csrcs f)),
     rf_payload_type f OR (if rf_marker f then 0x80 else 0)] @
     be16_bytes (rf_sequence f) @ be32_bytes (rf_timestamp f) @ be32_bytes (rf_ssrc f)"

definition rtp_optional :: "rtp_fields \<Rightarrow> bytes" where
  "rtp_optional f = concat (map be32_bytes (rf_csrcs f)) @
     (case rf_extension f of None \<Rightarrow> []
      | Some (profile, ws) \<Rightarrow> be16_bytes profile @ be16_bytes (of_nat (length ws)) @ concat (map be32_bytes ws))"

definition rtp_padding_bytes :: "nat \<Rightarrow> bytes" where
  "rtp_padding_bytes n = (if n = 0 then [] else replicate (n - 1) 0 @ [of_nat n])"

definition rtp_packet :: "rtp_fields \<Rightarrow> bytes \<Rightarrow> bytes" where
  "rtp_packet f payload = rtp_fixed f @ rtp_optional f @ payload @ rtp_padding_bytes (rf_padding f)"

definition rtp_fields_ok :: "rtp_fields \<Rightarrow> bool" where
  "rtp_fields_ok f \<longleftrightarrow> rf_payload_type f < 0x80 \<and> length (rf_csrcs f) < 16 \<and> rf_padding f < 256 \<and>
     (case rf_extension f of None \<Rightarrow> True | Some (_, ws) \<Rightarrow> length ws < 2 ^ 16)"

lemma rtp_first_byte_read:
  assumes "cc < 16"
  shows "drop_bit 6 (rtp_first_byte p x cc) AND 0x03 = 2"
    and "(drop_bit 5 (rtp_first_byte p x cc) AND 0x01 \<noteq> 0) = p"
    and "(drop_bit 4 (rtp_first_byte p x cc) AND 0x01 \<noteq> 0) = x"
    and "unat (rtp_first_byte p x cc AND 0x0F) = cc"
proof -
  from assms have "cc \<in> set [0..<16]" by simp
  then show "drop_bit 6 (rtp_first_byte p x cc) AND 0x03 = 2"
    and "(drop_bit 5 (rtp_first_byte p x cc) AND 0x01 \<noteq> 0) = p"
    and "(drop_bit 4 (rtp_first_byte p x cc) AND 0x01 \<noteq> 0) = x"
    and "unat (rtp_first_byte p x cc AND 0x0F) = cc"
    by (cases p; cases x; auto simp: rtp_first_byte_def upt_rec)+
qed

lemma length_concat_be32: "length (concat (map be32_bytes ws)) = 4 * length ws"
  by (induction ws) auto

lemma parse_rtp_packet:
  assumes ok: "rtp_fields_ok f"
  shows "parse_rtp_header (rtp_packet f payload) = Ok (Some
    \<lparr>rh_payload_type = rf_payload_type f, rh_sequence = rf_sequence f, rh_timestamp = rf_timestamp f,
     rh_ssrc = rf_ssrc f, rh_marker = rf_marker f,
     rh_header_len = 12 + length (rtp_optional f)\<rparr>)"
proof -
  define data where "data = rtp_packet f payload"
  let ?cc = "length (rf_csrcs f)"
  let ?n = "rf_padding f"
  have cc: "?cc < 16" and pt: "rf_payload_type f < 0x80" and n: "?n < 256"
    using ok by (simp_all add: rtp_fields_ok_def)
  define rest where "rest = rtp_optional f @ payload @ rtp_padding_bytes ?n"
  have data: "data = rtp_fixed f @ rest" by (simp add: data_def rtp_packet_def rest_def)
  have fl: "length (rtp_fixed f) = 12" by (simp add: rtp_fixed_def)
  have pl: "length (rtp_padding_bytes ?n) = ?n" by (simp add: rtp_padding_bytes_def)
  have dl: "length data = 12 + length (rtp_optional f) + length payload + ?n"
    by (simp add: data rest_def fl pl)
  have ol: "4 * ?cc \<le> length (rtp_optional f)" by (simp add: rtp_optional_def length_concat_be32)
  have nth: "data ! 0 = rtp_first_byte (0 < ?n) (rf_extension f \<noteq> None) ?cc"
    "data ! 1 = rf_payload_type f OR (if rf_marker f then 0x80 else 0)"
    "be16 (data ! 2) (data ! 3) = rf_sequence f"
    "be32 (data ! 4) (data ! 5) (data ! 6) (data ! 7) = rf_timestamp f"
    "be32 (data ! 8) (data ! 9) (data ! 10) (data ! 11) = rf_ssrc f"
    by (simp_all add: data rtp_fixed_def be16_bytes_def be32_bytes_def)
  have ix: "idx data i = (Ok (data ! i) :: (u8, unit) outcome)" if "i < 12" for i
    using that dl by simp
  have ix12: "idx data 0 = (Ok (data ! 0) :: (u8, unit) outcome)"
    "idx data 1 = (Ok (data ! 1) :: (u8, unit) outcome)" "idx data 2 = (Ok (data ! 2) :: (u8, unit) outcome)"
    "idx data 3 = (Ok (data ! 3) :: (u8, unit) outcome)" "idx data 4 = (Ok (data ! 4) :: (u8, unit) outcome)"
    "idx data 5 = (Ok (data ! 5) :: (u8, unit) outcome)" "idx data 6 = (Ok (data ! 6) :: (u8, unit) outcome)"
    "idx data 7 = (Ok (data ! 7) :: (u8, unit) outcome)" "idx data 8 = (Ok (data ! 8) :: (u8, unit) outcome)"
    "idx data 9 = (Ok (data ! 9) :: (u8, unit) outcome)" "idx data 10 = (Ok (data ! 10) :: (u8, unit) outcome)"
    "idx data 11 = (Ok (data ! 11) :: (u8, unit) outcome)"
    by (rule ix; simp)+
  have ext: "(if rf_extension f \<noteq> None then
                 (if 12 + ?cc * 4 + 4 > length data then Ok None
                  else obind (idx data (12 + ?cc * 4 + 2)) (\<lambda>e2. obind (idx data (12 + ?cc * 4 + 3)) (\<lambda>e3.
                    if 12 + ?cc * 4 + (4 + unat (be16 e2 e3) * 4) > length data then Ok None
                    else Ok (Some (12 + ?cc * 4 + (4 + unat (be16 e2 e3) * 4))))))
               else Ok (Some (12 + ?cc * 4))) =
      (Ok (Some (12 + length (rtp_optional f))) :: (nat option, unit) outcome)"
  proof (cases "rf_extension f")
    case None
    then show ?thesis by (simp add: rtp_optional_def length_concat_be32)
  next
    case (Some e)
    obtain profile ws where e: "e = (profile, ws)" by (cases e)
    have w: "unat (of_nat (length ws) :: u16) = length ws"
      using ok Some e by (intro unat_of_nat_id) (simp add: rtp_fields_ok_def)
    define head where "head = rtp_fixed f @ concat (map be32_bytes (rf_csrcs f))"
    have hl: "length head = 12 + ?cc * 4" by (simp add: head_def fl length_concat_be32)
    have opt: "length (rtp_optional f) = 4 * ?cc + 4 + 4 * length ws"
      by (simp add: rtp_optional_def Some e length_concat_be32)
    have d: "data = head @ be16_bytes profile @ be16_bytes (of_nat (length ws)) @
        concat (map be32_bytes ws) @ payload @ rtp_padding_bytes ?n"
      by (simp add: data rest_def rtp_optional_def Some e head_def)
    have i2: "idx data (length head + 2) = (Ok (be16_bytes (of_nat (length ws)) ! 0) :: (u8, unit) outcome)"
      "idx data (length head + 3) = (Ok (be16_bytes (of_nat (length ws)) ! 1) :: (u8, unit) outcome)"
      by (simp_all add: idx_def d nth_append be16_bytes_def)
    have w2: "unat (be16 (be16_bytes (of_nat (length ws)) ! 0) (be16_bytes (of_nat (length ws)) ! 1)) = length ws"
      using w by (simp add: be16_bytes_def)
    show ?thesis
      using dl opt i2 w2 by (simp add: Some hl)
  qed
  have pad: "(if 0 < ?n \<and> data \<noteq> [] then
                 obind (idx data (length data - 1)) (\<lambda>p. Ok (length data - unat p))
               else Ok (length data)) = (Ok (length data - ?n) :: (nat, unit) outcome)"
  proof (cases "?n = 0")
    case False
    have last: "idx data (length data - 1) = (Ok (of_nat ?n) :: (u8, unit) outcome)"
    proof -
      have "data = (rtp_fixed f @ rtp_optional f @ payload @ replicate (?n - 1) 0) @ [of_nat ?n]"
        using False by (simp add: data rest_def rtp_padding_bytes_def)
      then obtain pre where "data = pre @ [of_nat ?n]" by blast
      then show ?thesis by (simp add: idx_def)
    qed
    have "unat (of_nat ?n :: u8) = ?n" using n by (intro unat_of_nat_id) simp
    with last False dl show ?thesis by auto
  qed simp
  have g: "(length data < 12) = False" "(12 + ?cc * 4 > length data) = False"
    "(12 + length (rtp_optional f) > length data - ?n) = False"
    using dl ol by auto
  note first = rtp_first_byte_read [OF cc, of "0 < ?n" "rf_extension f \<noteq> None"]
  have m: "(drop_bit 7 (rf_payload_type f OR (if rf_marker f then 0x80 else 0)) AND 0x01 \<noteq> 0) = rf_marker f"
    using marker_bit [of "rf_payload_type f" "rf_marker f"] payload_type_bits [OF pt] by simp
  show ?thesis
    unfolding data_def [symmetric] parse_rtp_header_def
    by (simp only: g if_False ix12 obind.simps Let_def nth first m payload_type_bits [OF pt] ext pad
        option.case not_True_eq_False refl if_True)
qed

lemma parse_interleaved_bytes:
  assumes "length (if_payload f) < 2 ^ 16"
  shows "parse_interleaved_frame (interleaved_bytes f @ rest) = Ok (Some (f, 4 + length (if_payload f)))"
proof -
  have n: "unat (of_nat (length (if_payload f)) :: u16) = length (if_payload f)"
    using assms by (intro unat_of_nat_id) simp
  show ?thesis
    by (simp add: parse_interleaved_frame_def interleaved_bytes_def be16_bytes_def Let_def idx_def n)
qed

lemma parse_interleaved_prefix:
  assumes "length (if_payload f) < 2 ^ 16" and "n < length (interleaved_bytes f)"
  shows "parse_interleaved_frame (take n (interleaved_bytes f)) = Ok None"
proof (cases "n < 4")
  case True
  then have "length (take n (interleaved_bytes f)) < 4" by simp
  then show ?thesis unfolding parse_interleaved_frame_def by (simp only: if_True)
next
  case False
  have len: "unat (of_nat (length (if_payload f)) :: u16) = length (if_payload f)"
    using assms by (intro unat_of_nat_id) simp
  have l: "length (take n (interleaved_bytes f)) = n" "n < 4 + length (if_payload f)"
    using assms by (auto simp: interleaved_bytes_def)
  then have i: "idx (take n (interleaved_bytes f)) k = (Ok (interleaved_bytes f ! k) :: (u8, unit) outcome)"
    if "k < 4" for k
    using that False by simp
  show ?thesis
    using False l(2) i [of 0] i [of 1] i [of 2] i [of 3]
    by (simp add: parse_interleaved_frame_def Let_def l(1))
      (simp add: interleaved_bytes_def be16_bytes_def len)
qed

section \<open>Properties\<close>

text \<open>
  The parsers of the RTP wire format return on every input, without a panic, and a header that is
  accepted ends inside the packet, so taking the payload behind it cannot panic either.
\<close>

theorem rtp_parsers_safe:
  "returns (parse_interleaved_frame buf) \<and>
   (\<exists>h. parse_rtp_header data = Ok h \<and>
     list_all (\<lambda>h. 12 \<le> rh_header_len h \<and> returns (slice data (rh_header_len h) (length data)))
       (case h of None \<Rightarrow> [] | Some h \<Rightarrow> [h]))"
  using returns_parse_rtp_header [of data] parse_rtp_header_len [of data]
  by (auto simp: returns_parse_interleaved elim!: returnsE split: option.splits)

text \<open>
  The header parser finds the payload behind any combination of CSRC list, header extension and
  padding, and reads every fixed field as it was written.  The bytes it leaves to the depacketizer are
  the payload followed by the padding: the padding count only bounds the header, it is not removed.
\<close>

theorem rtp_header_roundtrip:
  assumes "rtp_fields_ok f"
  shows "\<exists>h. parse_rtp_header (rtp_packet f payload) = Ok (Some h) \<and>
    h = \<lparr>rh_payload_type = rf_payload_type f, rh_sequence = rf_sequence f, rh_timestamp = rf_timestamp f,
         rh_ssrc = rf_ssrc f, rh_marker = rf_marker f, rh_header_len = 12 + length (rtp_optional f)\<rparr> \<and>
    drop (rh_header_len h) (rtp_packet f payload) = payload @ rtp_padding_bytes (rf_padding f)"
proof -
  have "length (rtp_fixed f) = 12" by (simp add: rtp_fixed_def)
  then have "drop (12 + length (rtp_optional f)) (rtp_packet f payload) =
      payload @ rtp_padding_bytes (rf_padding f)"
    by (simp add: rtp_packet_def)
  with parse_rtp_packet [OF assms] show ?thesis by simp
qed

definition rtp_example :: rtp_fields where
  "rtp_example = \<lparr>rf_marker = True, rf_payload_type = 96, rf_sequence = 65535, rf_timestamp = 90000,
     rf_ssrc = 7, rf_csrcs = [1, 2], rf_extension = Some (0xBEDE, [3]), rf_padding = 2\<rparr>"

theorem rtp_header_roundtrip_witness:
  "\<exists>h. parse_rtp_header (rtp_packet rtp_example [0x65, 0x88]) = Ok (Some h) \<and>
     h = \<lparr>rh_payload_type = 96, rh_sequence = 65535, rh_timestamp = 90000, rh_ssrc = 7,
          rh_marker = True, rh_header_len = 28\<rparr> \<and>
     drop (rh_header_len h) (rtp_packet rtp_example [0x65, 0x88]) = [0x65, 0x88, 0, 2]"
proof -
  have ok: "rtp_fields_ok rtp_example" by (simp add: rtp_fields_ok_def rtp_example_def)
  have l: "length (rtp_optional rtp_example) = 16"
    by (simp add: rtp_optional_def rtp_example_def)
  have "rtp_padding_bytes 2 = [0, 2]" by (simp add: rtp_padding_bytes_def numeral_2_eq_2)
  then show ?thesis
    using rtp_header_roundtrip [OF ok, of "[0x65, 0x88]"] by (simp add: l, simp add: rtp_example_def)
qed

text \<open>
  Interleaved framing is exact: a written frame is read back with its channel, payload and consumed
  length whatever follows it, and every proper prefix of it asks for more data.
\<close>

theorem interleaved_framing:
  assumes "length (if_payload f) < 2 ^ 16"
  shows "parse_interleaved_frame (interleaved_bytes f @ rest) = Ok (Some (f, 4 + length (if_payload f))) \<and>
    (\<forall>n < length (interleaved_bytes f). parse_interleaved_frame (take n (interleaved_bytes f)) = Ok None)"
  using parse_interleaved_bytes [OF assms] parse_interleaved_prefix [OF assms] by simp

theorem interleaved_framing_witness:
  "parse_interleaved_frame (interleaved_bytes \<lparr>if_channel = 2, if_payload = [1, 2, 3]\<rparr> @ [0x24]) =
     Ok (Some (\<lparr>if_channel = 2, if_payload = [1, 2, 3]\<rparr>, 7))"
  using interleaved_framing [of "\<lparr>if_channel = 2, if_payload = [1, 2, 3]\<rparr>" "[0x24]"] by simp

end
