(* ===== verification/RtpVideo.thy ===== *)
theory RtpVideo
  imports RtpWire AnnexB
begin

text \<open>
  The video payload formats of \<open>lvqr-rtsp/src/rtp.rs\<close> (H.264 after RFC 6184, HEVC after RFC 7798,
  both directions) and the AVCC packetizer of \<open>lvqr-whep/src/rtp.rs\<close>.  Fragmentation is the same
  contract three times: a first fragment that rebuilds the NAL header, continuations that append, an
  end flag.  The locales \<open>fragmenter\<close> and \<open>fu_path\<close> state it once and are interpreted for each packetizer and
  depacketizer pair, which gives the round trips for every MTU.
\<close>

section \<open>Packetizer state and packet emission\<close>

text \<open>
  The fields of the packetizers.  The audio packetizers have no MTU, so the video state extends the
  shared one; \<open>emit_packet\<close> is written once in the source per packetizer, with the same body.
\<close>

record packetizer =
  pk_ssrc :: u32
  pk_payload_type :: u8
  pk_sequence :: u16

record video_packetizer = packetizer +
  pk_mtu :: nat

definition DEFAULT_RTP_MTU :: nat where "DEFAULT_RTP_MTU = 1400"

definition video_packetizer_new :: "u32 \<Rightarrow> u8 \<Rightarrow> u16 \<Rightarrow> video_packetizer" where
  "video_packetizer_new ssrc pt initial_sequence =
     \<lparr>pk_ssrc = ssrc, pk_payload_type = pt, pk_sequence = initial_sequence, pk_mtu = DEFAULT_RTP_MTU\<rparr>"

text \<open>The assertion of \<open>with_mtu\<close>: 3 for H.264, 4 for HEVC.\<close>

definition h264_with_mtu :: "nat \<Rightarrow> video_packetizer \<Rightarrow> (video_packetizer, unit) outcome" where
  "h264_with_mtu mtu pk = (if mtu \<ge> 3 then Ok (pk\<lparr>pk_mtu := mtu\<rparr>) else Panic)"

definition hevc_with_mtu :: "nat \<Rightarrow> video_packetizer \<Rightarrow> (video_packetizer, unit) outcome" where
  "hevc_with_mtu mtu pk = (if mtu \<ge> 4 then Ok (pk\<lparr>pk_mtu := mtu\<rparr>) else Panic)"

definition emit_packet ::
    "bool \<Rightarrow> u32 \<Rightarrow> bytes \<Rightarrow> 'a packetizer_scheme \<Rightarrow> bytes \<times> 'a packetizer_scheme" where
  "emit_packet marker timestamp payload pk =
     (write_rtp_header (pk_payload_type pk) (pk_sequence pk) timestamp (pk_ssrc pk) marker @ payload,
      pk\<lparr>pk_sequence := pk_sequence pk + 1\<rparr>)"

section \<open>H.264 packetization\<close>

definition NAL_TYPE_STAP_A :: u8 where "NAL_TYPE_STAP_A = 24"
definition NAL_TYPE_FU_A :: u8 where "NAL_TYPE_FU_A = 28"

definition fu_header_byte :: "u8 \<Rightarrow> bool \<Rightarrow> bool \<Rightarrow> u8" where
  "fu_header_byte nal_type is_start is_end =
     (nal_type OR (if is_start then 0x80 else 0)) OR (if is_end then 0x40 else 0)"

text \<open>
  The \<open>while offset < body.len()\<close> loop.  With a chunk size of 0 it never ends, which is the value
  \<open>None\<close>; the slice bounds satisfy \<open>offset <= end <= body.len()\<close> in every round.
\<close>

partial_function (option) h264_fu_loop ::
    "u8 \<Rightarrow> u8 \<Rightarrow> bytes \<Rightarrow> nat \<Rightarrow> u32 \<Rightarrow> bool \<Rightarrow> nat \<Rightarrow> bytes list \<Rightarrow> video_packetizer \<Rightarrow>
     (bytes list \<times> video_packetizer) option" where
  "h264_fu_loop fu_indicator nal_type body chunk_size timestamp end_of_au offset packets pk =
     (if offset < length body then
        let e = min (offset + chunk_size) (length body);
            is_start = (offset = 0);
            is_end = (e = length body);
            body_buf = [fu_indicator, fu_header_byte nal_type is_start is_end] @
              take (e - offset) (drop offset body);
            (pkt, pk') = emit_packet (end_of_au \<and> is_end) timestamp body_buf pk in
        h264_fu_loop fu_indicator nal_type body chunk_size timestamp end_of_au e (packets @ [pkt]) pk'
      else Some (packets, pk))"

definition h264_packetize ::
    "bytes \<Rightarrow> u32 \<Rightarrow> bool \<Rightarrow> video_packetizer \<Rightarrow> (bytes list \<times> video_packetizer) option" where
  "h264_packetize nalu timestamp end_of_au pk =
     (case nalu of [] \<Rightarrow> Some ([], pk)
      | nal_header # body \<Rightarrow>
          if length nalu \<le> pk_mtu pk then
            (let (pkt, pk') = emit_packet end_of_au timestamp nalu pk in Some ([pkt], pk'))
          else
            let nri = nal_header AND 0x60; nal_type = nal_header AND 0x1F;
                fu_indicator = nri OR NAL_TYPE_FU_A in
            h264_fu_loop fu_indicator nal_type body (pk_mtu pk - 2) timestamp end_of_au 0 [] pk)"

section \<open>HEVC packetization\<close>

definition HEVC_NAL_TYPE_AP :: u8 where "HEVC_NAL_TYPE_AP = 48"
definition HEVC_NAL_TYPE_FU :: u8 where "HEVC_NAL_TYPE_FU = 49"

partial_function (option) hevc_fu_loop ::
    "u8 \<Rightarrow> u8 \<Rightarrow> u8 \<Rightarrow> bytes \<Rightarrow> nat \<Rightarrow> u32 \<Rightarrow> bool \<Rightarrow> nat \<Rightarrow> bytes list \<Rightarrow> video_packetizer \<Rightarrow>
     (bytes list \<times> video_packetizer) option" where
  "hevc_fu_loop hdr0 hdr1 nal_type body chunk_size timestamp end_of_au offset packets pk =
     (if offset < length body then
        let e = min (offset + chunk_size) (length body);
            is_start = (offset = 0);
            is_end = (e = length body);
            body_buf = [hdr0, hdr1, fu_header_byte nal_type is_start is_end] @
              take (e - offset) (drop offset body);
            (pkt, pk') = emit_packet (end_of_au \<and> is_end) timestamp body_buf pk in
        hevc_fu_loop hdr0 hdr1 nal_type body chunk_size timestamp end_of_au e (packets @ [pkt]) pk'
      else Some (packets, pk))"

definition hevc_packetize ::
    "bytes \<Rightarrow> u32 \<Rightarrow> bool \<Rightarrow> video_packetizer \<Rightarrow> (bytes list \<times> video_packetizer) option" where
  "hevc_packetize nalu timestamp end_of_au pk =
     (case nalu of
        b0 # b1 # body \<Rightarrow>
          if length nalu \<le> pk_mtu pk then
            (let (pkt, pk') = emit_packet end_of_au timestamp nalu pk in Some ([pkt], pk'))
          else
            let nal_type = drop_bit 1 b0 AND 0x3F;
                payload_hdr_byte0 = (b0 AND 0x81) OR push_bit 1 HEVC_NAL_TYPE_FU in
            hevc_fu_loop payload_hdr_byte0 b1 nal_type body (pk_mtu pk - 3) timestamp end_of_au 0 [] pk
      | _ \<Rightarrow> Some ([], pk))"

section \<open>Depacketization\<close>

record depack_result =
  dr_nalus :: "bytes list"
  dr_keyframe :: bool
  dr_timestamp :: u32
  dr_marker :: bool

text \<open>\<open>H264Depacketizer\<close> and \<open>HevcDepacketizer\<close> have the same two fields.\<close>

record depacketizer =
  fu_buf :: bytes
  fu_active :: bool

definition depacketizer_new :: depacketizer where
  "depacketizer_new = \<lparr>fu_buf = [], fu_active = False\<rparr>"

text \<open>The \<open>while offset + 2 <= len\<close> loop over 16-bit length prefixes, with the keyframe test of the codec.\<close>

function aggregation_loop ::
    "(bytes \<Rightarrow> bool) \<Rightarrow> bytes \<Rightarrow> nat \<Rightarrow> bytes list \<Rightarrow> bool \<Rightarrow> (bytes list \<times> bool, unit) outcome" where
  "aggregation_loop is_key payload offset nalus keyframe =
     (if offset + 2 \<le> length payload then
        obind (idx payload offset) (\<lambda>l0. obind (idx payload (offset + 1)) (\<lambda>l1.
          let nalu_len = unat (be16 l0 l1); offset = offset + 2 in
          if offset + nalu_len > length payload then Ok (nalus, keyframe)
          else obind (slice payload offset (offset + nalu_len)) (\<lambda>nalu.
            aggregation_loop is_key payload (offset + nalu_len) (nalus @ [nalu])
              (keyframe \<or> is_key nalu))))
      else Ok (nalus, keyframe))"
  by pat_completeness auto
termination by (relation "measure (\<lambda>(_, p, i, _). length p - i)") auto

declare aggregation_loop.simps [simp del]

definition h264_nal_is_idr :: "bytes \<Rightarrow> bool" where
  "h264_nal_is_idr nalu \<longleftrightarrow> nalu \<noteq> [] \<and> nalu ! 0 AND 0x1F = 5"

definition is_hevc_keyframe :: "u8 \<Rightarrow> bool" where
  "is_hevc_keyframe nal_type \<longleftrightarrow> 19 \<le> nal_type \<and> nal_type \<le> 21"

definition hevc_nal_is_key :: "bytes \<Rightarrow> bool" where
  "hevc_nal_is_key nalu \<longleftrightarrow> 2 \<le> length nalu \<and> is_hevc_keyframe (drop_bit 1 (nalu ! 0) AND 0x3F)"

definition depack_one :: "bytes list \<Rightarrow> bool \<Rightarrow> rtp_header \<Rightarrow> depack_result" where
  "depack_one nalus keyframe header =
     \<lparr>dr_nalus = nalus, dr_keyframe = keyframe, dr_timestamp = rh_timestamp header,
      dr_marker = rh_marker header\<rparr>"

definition h264_depacketize ::
    "bytes \<Rightarrow> rtp_header \<Rightarrow> depacketizer \<Rightarrow> (depack_result option \<times> depacketizer, unit) outcome" where
  "h264_depacketize payload header st =
     (if payload = [] then Ok (None, st)
      else obind (idx payload 0) (\<lambda>p0.
        let nal_type = p0 AND 0x1F; nri = p0 AND 0x60 in
        if 1 \<le> nal_type \<and> nal_type \<le> 23 then
          Ok (Some (depack_one [payload] (nal_type = 5) header), st)
        else if nal_type = NAL_TYPE_STAP_A then
          obind (aggregation_loop h264_nal_is_idr payload 1 [] False) (\<lambda>(nalus, keyframe).
            if nalus = [] then Ok (None, st) else Ok (Some (depack_one nalus keyframe header), st))
        else if nal_type = NAL_TYPE_FU_A then
          (if length payload < 2 then Ok (None, st)
           else obind (idx payload 1) (\<lambda>fu_header.
             let start = (fu_header AND 0x80 \<noteq> 0); e = (fu_header AND 0x40 \<noteq> 0);
                 fu_nal_type = fu_header AND 0x1F in
             obind (slice payload 2 (length payload)) (\<lambda>frag.
             let st1 = (if start then Some \<lparr>fu_buf = (nri OR fu_nal_type) # frag, fu_active = True\<rparr>
                        else if fu_active st then Some (st\<lparr>fu_buf := fu_buf st @ frag\<rparr>)
                        else None) in
             case st1 of None \<Rightarrow> Ok (None, st)
             | Some st1 \<Rightarrow>
                 if e then
                   (let nalu = fu_buf st1 in
                    Ok (Some (depack_one [nalu] (h264_nal_is_idr nalu) header),
                        \<lparr>fu_buf = [], fu_active = False\<rparr>))
                 else Ok (None, st1))))
        else Ok (None, st)))"

definition hevc_depacketize ::
    "bytes \<Rightarrow> rtp_header \<Rightarrow> depacketizer \<Rightarrow> (depack_result option \<times> depacketizer, unit) outcome" where
  "hevc_depacketize payload header st =
     (if length payload < 2 then Ok (None, st)
      else obind (idx payload 0) (\<lambda>p0.
        let nal_type = drop_bit 1 p0 AND 0x3F in
        if nal_type \<le> 47 then
          Ok (Some (depack_one [payload] (is_hevc_keyframe nal_type) header), st)
        else if nal_type = HEVC_NAL_TYPE_AP then
          obind (aggregation_loop hevc_nal_is_key payload 2 [] False) (\<lambda>(nalus, keyframe).
            if nalus = [] then Ok (None, st) else Ok (Some (depack_one nalus keyframe header), st))
        else if nal_type = HEVC_NAL_TYPE_FU then
          (if length payload < 3 then Ok (None, st)
           else obind (idx payload 2) (\<lambda>fu_header. obind (idx payload 1) (\<lambda>p1.
             let start = (fu_header AND 0x80 \<noteq> 0); e = (fu_header AND 0x40 \<noteq> 0);
                 fu_nal_type = fu_header AND 0x3F in
             obind (slice payload 3 (length payload)) (\<lambda>frag.
             let byte0 = (p0 AND 0x81) OR push_bit 1 fu_nal_type;
                 st1 = (if start then Some \<lparr>fu_buf = byte0 # p1 # frag, fu_active = True\<rparr>
                        else if fu_active st then Some (st\<lparr>fu_buf := fu_buf st @ frag\<rparr>)
                        else None) in
             case st1 of None \<Rightarrow> Ok (None, st)
             | Some st1 \<Rightarrow>
                 if e then
                   (let nalu = fu_buf st1 in
                    Ok (Some (depack_one [nalu] (hevc_nal_is_key nalu) header),
                        \<lparr>fu_buf = [], fu_active = False\<rparr>))
                 else Ok (None, st1)))))
        else Ok (None, st)))"

text \<open>
  What \<open>process_rtp_frame\<close> and \<open>process_video_rtp\<close> of \<open>server.rs\<close> do with a packet: parse the header,
  take the payload behind it, and hand it to the depacketizer of the track.
\<close>

definition receive_rtp ::
    "(bytes \<Rightarrow> rtp_header \<Rightarrow> depacketizer \<Rightarrow> ('r option \<times> depacketizer, unit) outcome) \<Rightarrow>
     bytes \<Rightarrow> depacketizer \<Rightarrow> ('r option \<times> depacketizer, unit) outcome" where
  "receive_rtp depack pkt st =
     obind (parse_rtp_header pkt) (\<lambda>h. case h of None \<Rightarrow> Ok (None, st)
       | Some header \<Rightarrow> obind (slice pkt (rh_header_len header) (length pkt)) (\<lambda>payload.
           depack payload header st))"

fun receive_all ::
    "('p \<Rightarrow> depacketizer \<Rightarrow> ('r option \<times> depacketizer, unit) outcome) \<Rightarrow>
     'p list \<Rightarrow> depacketizer \<Rightarrow> ('r list \<times> depacketizer, unit) outcome" where
  "receive_all recv [] st = Ok ([], st)"
| "receive_all recv (p # ps) st =
     obind (recv p st) (\<lambda>(r, st1). obind (receive_all recv ps st1) (\<lambda>(rs, st2).
       Ok ((case r of None \<Rightarrow> [] | Some r \<Rightarrow> [r]) @ rs, st2)))"

section \<open>The WHEP packetizer\<close>

record rtp_payload =
  rp_payload :: bytes
  rp_start_of_frame :: bool
  rp_end_of_frame :: bool

definition FU_A_TYPE :: u8 where "FU_A_TYPE = 28"
definition FU_HEADER_SIZE :: nat where "FU_HEADER_SIZE = 2"

definition whep_packetizer_new :: "nat \<Rightarrow> nat" where
  "whep_packetizer_new mtu = max mtu (FU_HEADER_SIZE + 1)"

partial_function (option) whep_fu_loop ::
    "u8 \<Rightarrow> u8 \<Rightarrow> bytes \<Rightarrow> nat \<Rightarrow> nat \<Rightarrow> rtp_payload list \<Rightarrow> rtp_payload list option" where
  "whep_fu_loop f_nri nal_type body budget offset out =
     (if offset < length body then
        let e = min (offset + budget) (length body);
            chunk = take (e - offset) (drop offset body);
            is_first = (offset = 0);
            is_last = (e = length body);
            fu_header = (nal_type AND 0x1F OR (if is_first then 0x80 else 0)) OR (if is_last then 0x40 else 0) in
        whep_fu_loop f_nri nal_type body budget e
          (out @ [\<lparr>rp_payload = [f_nri OR FU_A_TYPE, fu_header] @ chunk,
                  rp_start_of_frame = False, rp_end_of_frame = False\<rparr>])
      else Some out)"

definition whep_packetize_one_nal :: "nat \<Rightarrow> bytes \<Rightarrow> rtp_payload list \<Rightarrow> (rtp_payload list option, unit) outcome" where
  "whep_packetize_one_nal mtu nal out =
     (if length nal \<le> mtu then
        Ok (Some (out @ [\<lparr>rp_payload = nal, rp_start_of_frame = False, rp_end_of_frame = False\<rparr>]))
      else
        obind (idx nal 0) (\<lambda>header.
        obind (slice nal 1 (length nal)) (\<lambda>body.
          Ok (whep_fu_loop (header AND 0xE0) (header AND 0x1F) body (mtu - FU_HEADER_SIZE) 0 out))))"

fun whep_packetize_nals ::
    "nat \<Rightarrow> bytes list \<Rightarrow> rtp_payload list \<Rightarrow> (rtp_payload list option, unit) outcome" where
  "whep_packetize_nals mtu [] out = Ok (Some out)"
| "whep_packetize_nals mtu (nal # nals) out =
     obind (whep_packetize_one_nal mtu nal out) (\<lambda>r.
       case r of None \<Rightarrow> Ok None | Some out' \<Rightarrow> whep_packetize_nals mtu nals out')"

definition mark_first :: "rtp_payload list \<Rightarrow> rtp_payload list" where
  "mark_first ps = (case ps of [] \<Rightarrow> [] | p # ps \<Rightarrow> p\<lparr>rp_start_of_frame := True\<rparr> # ps)"

definition mark_last :: "rtp_payload list \<Rightarrow> rtp_payload list" where
  "mark_last ps = (if ps = [] then [] else butlast ps @ [(last ps)\<lparr>rp_end_of_frame := True\<rparr>])"

text \<open>The outer outcome is a panic of an index, the inner \<open>None\<close> a loop that does not end.\<close>

definition whep_packetize :: "nat \<Rightarrow> bytes \<Rightarrow> (rtp_payload list option, unit) outcome" where
  "whep_packetize mtu avcc =
     obind (whep_split_avcc avcc) (\<lambda>nals.
       if nals = [] then Ok (Some [])
       else obind (whep_packetize_nals mtu nals []) (\<lambda>r.
         Ok (map_option (\<lambda>all. mark_last (mark_first all)) r)))"

section \<open>The fragmentation contract\<close>

function fu_chunks :: "nat \<Rightarrow> bytes \<Rightarrow> bytes list" where
  "fu_chunks n body = (if body = [] \<or> n = 0 then [] else take n body # fu_chunks n (drop n body))"
  by pat_completeness auto
termination by (relation "measure (\<lambda>(n, body). length body)") auto

declare fu_chunks.simps [simp del]

lemma concat_fu_chunks: "0 < n \<Longrightarrow> concat (fu_chunks n body) = body"
proof (induction n body rule: fu_chunks.induct)
  case (1 n body)
  then show ?case by (subst fu_chunks.simps) auto
qed

lemma fu_chunks_ne: "0 < n \<Longrightarrow> body \<noteq> [] \<Longrightarrow> fu_chunks n body \<noteq> []"
  by (simp add: fu_chunks.simps)

lemma fu_chunks_sizes: "list_all (\<lambda>c. c \<noteq> [] \<and> length c \<le> n) (fu_chunks n body)"
proof (induction n body rule: fu_chunks.induct)
  case (1 n body)
  then show ?case by (subst fu_chunks.simps) auto
qed

fun emit_frags :: "(bool \<Rightarrow> bool \<Rightarrow> bytes \<Rightarrow> 'acc \<Rightarrow> 'acc) \<Rightarrow> bool \<Rightarrow> bytes list \<Rightarrow> 'acc \<Rightarrow> 'acc" where
  "emit_frags emit s [] acc = acc"
| "emit_frags emit s [c] acc = emit s True c acc"
| "emit_frags emit s (c # d # cs) acc = emit_frags emit False (d # cs) (emit s False c acc)"

fun carries_all :: "(bool \<Rightarrow> bool \<Rightarrow> bytes \<Rightarrow> 'p \<Rightarrow> bool) \<Rightarrow> bool \<Rightarrow> bytes list \<Rightarrow> 'p list \<Rightarrow> bool" where
  "carries_all carries s [] ps \<longleftrightarrow> ps = []"
| "carries_all carries s [c] ps \<longleftrightarrow> (\<exists>p. ps = [p] \<and> carries s True c p)"
| "carries_all carries s (c # d # cs) ps \<longleftrightarrow>
     (\<exists>p qs. ps = p # qs \<and> carries s False c p \<and> carries_all carries False (d # cs) qs)"

text \<open>The sender's loop: one packet per chunk, the start flag on the first, the end flag on the last.\<close>

locale fragmenter =
  fixes loop :: "nat \<Rightarrow> 'acc \<Rightarrow> 'acc option"
    and emit :: "bool \<Rightarrow> bool \<Rightarrow> bytes \<Rightarrow> 'acc \<Rightarrow> 'acc"
    and body :: bytes and chunk_size :: nat
  assumes chunk_pos: "0 < chunk_size"
    and loop_step: "offset < length body \<Longrightarrow> loop offset acc =
      (let e = min (offset + chunk_size) (length body) in
       loop e (emit (offset = 0) (e = length body) (take (e - offset) (drop offset body)) acc))"
    and loop_end: "\<not> offset < length body \<Longrightarrow> loop offset acc = Some acc"
begin

lemma loop_chunks:
  "offset \<le> length body \<Longrightarrow>
     loop offset acc = Some (emit_frags emit (offset = 0) (fu_chunks chunk_size (drop offset body)) acc)"
proof (induction "length body - offset" arbitrary: offset acc rule: less_induct)
  case less
  show ?case
  proof (cases "offset < length body")
    case False
    with less.prems show ?thesis by (simp add: loop_end fu_chunks.simps)
  next
    case True
    define e where "e = min (offset + chunk_size) (length body)"
    define acc1 where "acc1 = emit (offset = 0) (e = length body) (take (e - offset) (drop offset body)) acc"
    have e: "offset < e" "e \<le> length body" using True chunk_pos by (auto simp: e_def)
    have step: "loop offset acc = loop e acc1"
      using loop_step [OF True, of acc] by (simp add: e_def acc1_def Let_def)
    have IH: "loop e acc1 = Some (emit_frags emit (e = 0) (fu_chunks chunk_size (drop e body)) acc1)"
      using e True by (intro less.hyps) auto
    have t: "take (e - offset) (drop offset body) = take chunk_size (drop offset body)"
      by (auto simp: e_def min_def)
    have d: "drop chunk_size (drop offset body) = drop e body"
      by (auto simp: e_def min_def add.commute)
    have c: "fu_chunks chunk_size (drop offset body) =
        take chunk_size (drop offset body) # fu_chunks chunk_size (drop e body)"
      using True chunk_pos d by (subst fu_chunks.simps) simp
    show ?thesis
    proof (cases "e = length body")
      case True
      then have "fu_chunks chunk_size (drop e body) = []" by (simp add: fu_chunks.simps)
      then show ?thesis using step IH c t True by (simp add: acc1_def)
    next
      case False
      then have "fu_chunks chunk_size (drop e body) \<noteq> []" using e chunk_pos by (intro fu_chunks_ne) auto
      then obtain x xs where x: "fu_chunks chunk_size (drop e body) = x # xs"
        by (cases "fu_chunks chunk_size (drop e body)") auto
      show ?thesis using step IH c t False e(1) unfolding x by (simp add: acc1_def)
    qed
  qed
qed

lemma loop_terminates: "\<exists>acc'. loop 0 acc = Some acc'"
  using loop_chunks [of 0] by simp

end

text \<open>
  A sender together with a receiver: \<open>out\<close> lists the packets written so far, \<open>carries s e c p\<close> says that
  packet \<open>p\<close> carries the chunk \<open>c\<close> with start flag \<open>s\<close> and end flag \<open>e\<close>.
\<close>

locale fu_path = fragmenter loop emit body chunk_size
  for loop :: "nat \<Rightarrow> 'acc \<Rightarrow> 'acc option" and emit body chunk_size +
  fixes out :: "'acc \<Rightarrow> 'p list"
    and carries :: "bool \<Rightarrow> bool \<Rightarrow> bytes \<Rightarrow> 'p \<Rightarrow> bool"
    and recv :: "'p \<Rightarrow> depacketizer \<Rightarrow> ('r option \<times> depacketizer, unit) outcome"
    and hdr :: bytes and result :: "bytes \<Rightarrow> 'r"
  assumes emits: "\<exists>p. out (emit s e c acc) = out acc @ [p] \<and> carries s e c p"
    and recv_first: "carries True e c p \<Longrightarrow> recv p st =
      Ok (if e then (Some (result (hdr @ c)), depacketizer_new) else (None, \<lparr>fu_buf = hdr @ c, fu_active = True\<rparr>))"
    and recv_next: "carries False e c p \<Longrightarrow> fu_active st \<Longrightarrow> recv p st =
      Ok (if e then (Some (result (fu_buf st @ c)), depacketizer_new)
          else (None, \<lparr>fu_buf = fu_buf st @ c, fu_active = True\<rparr>))"
begin

lemma emit_frags_carries:
  "\<exists>ps. out (emit_frags emit s cs acc) = out acc @ ps \<and> carries_all carries s cs ps"
proof (induction cs arbitrary: s acc)
  case (Cons c cs)
  show ?case
  proof (cases cs)
    case Nil
    then show ?thesis using emits [of s True c acc] by auto
  next
    case (Cons d ds)
    obtain p where p: "out (emit s False c acc) = out acc @ [p]" "carries s False c p"
      using emits by blast
    obtain ps where ps: "out (emit_frags emit False cs (emit s False c acc)) = out (emit s False c acc) @ ps"
      "carries_all carries False cs ps"
      using Cons.IH [of False "emit s False c acc"] by blast
    with p Cons show ?thesis by (intro exI [of _ "p # ps"]) auto
  qed
qed auto

lemma receive_rest:
  "carries_all carries False cs ps \<Longrightarrow> cs \<noteq> [] \<Longrightarrow> fu_active st \<Longrightarrow>
     receive_all recv ps st = Ok ([result (fu_buf st @ concat cs)], depacketizer_new)"
proof (induction cs arbitrary: ps st)
  case (Cons c cs)
  show ?case
  proof (cases cs)
    case Nil
    with Cons.prems show ?thesis by (auto simp: recv_next)
  next
    case (Cons d ds)
    then obtain p qs where p: "ps = p # qs" "carries False False c p" "carries_all carries False cs qs"
      using Cons.prems(1) by auto
    have ne: "qs \<noteq> []" using p(3) Cons by (cases ds) auto
    have "receive_all recv qs \<lparr>fu_buf = fu_buf st @ c, fu_active = True\<rparr> =
        Ok ([result ((fu_buf st @ c) @ concat cs)], depacketizer_new)"
      using Cons.IH [OF p(3), of "\<lparr>fu_buf = fu_buf st @ c, fu_active = True\<rparr>"] Cons by simp
    then show ?thesis using recv_next [OF p(2) Cons.prems(3)] ne by (simp add: p(1))
  qed
qed simp

lemma receive_chunks:
  assumes "carries_all carries True cs ps" and "cs \<noteq> []"
  shows "receive_all recv ps st = Ok ([result (hdr @ concat cs)], depacketizer_new)"
proof (cases cs)
  case (Cons c ds)
  show ?thesis
  proof (cases ds)
    case Nil
    with assms Cons show ?thesis by (auto simp: recv_first)
  next
    case (Cons d es)
    then obtain p qs where p: "ps = p # qs" "carries True False c p" "carries_all carries False ds qs"
      using assms(1) \<open>cs = c # ds\<close> by auto
    have ne: "qs \<noteq> []" using p(3) Cons by (cases es) auto
    have "receive_all recv qs \<lparr>fu_buf = hdr @ c, fu_active = True\<rparr> =
        Ok ([result ((hdr @ c) @ concat ds)], depacketizer_new)"
      using receive_rest [OF p(3), of "\<lparr>fu_buf = hdr @ c, fu_active = True\<rparr>"] Cons by simp
    then show ?thesis using recv_first [OF p(2)] ne \<open>cs = c # ds\<close> by (simp add: p(1))
  qed
qed (use assms in simp)

lemma path_roundtrip:
  assumes "body \<noteq> []"
  obtains acc' ps where "loop 0 acc = Some acc'" and "out acc' = out acc @ ps"
    and "acc' = emit_frags emit True (fu_chunks chunk_size body) acc"
    and "carries_all carries True (fu_chunks chunk_size body) ps"
    and "\<And>st. receive_all recv ps st = Ok ([result (hdr @ body)], depacketizer_new)"
proof -
  let ?cs = "fu_chunks chunk_size body"
  obtain ps where ps: "out (emit_frags emit True ?cs acc) = out acc @ ps" "carries_all carries True ?cs ps"
    using emit_frags_carries by blast
  have ne: "?cs \<noteq> []" using assms chunk_pos by (intro fu_chunks_ne)
  show thesis
  proof (rule that [OF _ ps(1) refl ps(2)])
    show "loop 0 acc = Some (emit_frags emit True ?cs acc)" using loop_chunks [of 0] by simp
    show "receive_all recv ps st = Ok ([result (hdr @ body)], depacketizer_new)" for st
      using receive_chunks [OF ps(2) ne] concat_fu_chunks [OF chunk_pos] by simp
  qed
qed

end

lemma carries_all_list:
  "carries_all carries s cs ps \<Longrightarrow> (\<And>s e c p. c \<in> set cs \<Longrightarrow> carries s e c p \<Longrightarrow> P p) \<Longrightarrow> list_all P ps"
proof (induction carries s cs ps rule: carries_all.induct)
  case (3 carries s c d cs ps)
  then obtain p qs where p: "ps = p # qs" "carries s False c p" "carries_all carries False (d # cs) qs"
    by auto
  have "list_all P qs" by (rule 3(1) [OF p(3)]) (use 3(3) in auto)
  moreover have "P p" by (rule 3(3) [OF _ p(2)]) simp
  ultimately show ?case by (simp add: p(1))
qed auto

lemma emit_frags_sequenced:
  assumes "\<And>s e c acc. \<exists>p. fst (emit s e c acc) = fst acc @ [p] \<and> seqno p = snd acc \<and>
    snd (emit s e c acc) = snd acc + (1 :: u16)"
  shows "\<exists>ps. fst (emit_frags emit s cs acc) = fst acc @ ps \<and>
    map seqno ps = map (\<lambda>k. snd acc + of_nat k) [0..<length ps] \<and>
    snd (emit_frags emit s cs acc) = snd acc + of_nat (length ps)"
proof (induction cs arbitrary: s acc)
  case (Cons c cs)
  show ?case
  proof (cases cs)
    case Nil
    then show ?thesis using assms [of s True c acc] by auto
  next
    case (Cons d ds)
    obtain p where p: "fst (emit s False c acc) = fst acc @ [p]" "seqno p = snd acc"
      "snd (emit s False c acc) = snd acc + 1"
      using assms by blast
    obtain ps where ps: "fst (emit_frags emit False cs (emit s False c acc)) = fst (emit s False c acc) @ ps"
      "map seqno ps = map (\<lambda>k. snd (emit s False c acc) + of_nat k) [0..<length ps]"
      "snd (emit_frags emit False cs (emit s False c acc)) = snd (emit s False c acc) + of_nat (length ps)"
      using Cons.IH [of False "emit s False c acc"] by blast
    have "map seqno (p # ps) = map (\<lambda>k. snd acc + of_nat k) (0 # map Suc [0..<length ps])"
      using p ps by (simp add: add.assoc)
    also have "0 # map Suc [0..<length ps] = [0..<length (p # ps)]"
      by (simp add: map_Suc_upt upt_conv_Cons del: upt_Suc)
    finally show ?thesis using p ps Cons by (intro exI [of _ "p # ps"]) (simp add: add.assoc)
  qed
qed simp

section \<open>The three pairs\<close>

lemma fu_header_bits:
  fixes x k :: u8
  assumes "k = 0x1F \<or> k = 0x3F"
  shows "(fu_header_byte (x AND k) s e AND 0x80 \<noteq> 0) = s"
    and "(fu_header_byte (x AND k) s e AND 0x40 \<noteq> 0) = e"
    and "fu_header_byte (x AND k) s e AND k = x AND k"
  using assms
  by (cases s; cases e; auto simp: fu_header_byte_def bit.conj_disj_distrib2 and.assoc)+

definition h264_carries ::
    "video_packetizer \<Rightarrow> u32 \<Rightarrow> bool \<Rightarrow> u8 \<Rightarrow> bool \<Rightarrow> bool \<Rightarrow> bytes \<Rightarrow> bytes \<Rightarrow> bool" where
  "h264_carries pk ts eoa b0 s e c p \<longleftrightarrow> (\<exists>seq.
     p = write_rtp_header (pk_payload_type pk) seq ts (pk_ssrc pk) (eoa \<and> e) @
       [(b0 AND 0x60) OR NAL_TYPE_FU_A, fu_header_byte (b0 AND 0x1F) s e] @ c)"

definition h264_result :: "video_packetizer \<Rightarrow> u32 \<Rightarrow> bool \<Rightarrow> bytes \<Rightarrow> depack_result" where
  "h264_result pk ts eoa nalu = \<lparr>dr_nalus = [nalu], dr_keyframe = h264_nal_is_idr nalu,
     dr_timestamp = ts, dr_marker = (eoa \<or> bit (pk_payload_type pk) 7)\<rparr>"

lemma receive_written:
  "receive_rtp depack (write_rtp_header pt seq ts ssrc m @ payload) st =
     depack payload \<lparr>rh_payload_type = pt AND 0x7F, rh_sequence = seq, rh_timestamp = ts, rh_ssrc = ssrc,
              rh_marker = (m \<or> bit pt 7), rh_header_len = 12\<rparr> st"
  by (simp add: receive_rtp_def parse_written_header)

lemma h264_fu_indicator:
  "((b0 AND 0x60) OR NAL_TYPE_FU_A) AND 0x1F = (28 :: u8)"
  "((b0 AND 0x60) OR NAL_TYPE_FU_A) AND 0x60 = (b0 AND 0x60 :: u8)"
  "(b0 AND 0x60) OR (b0 AND 0x1F) = (b0 AND 0x7F :: u8)"
  by (simp_all add: NAL_TYPE_FU_A_def bit.conj_disj_distrib2 and.assoc flip: bit.conj_disj_distrib)

lemma h264_depack_fragment:
  "h264_depacketize ([(b0 AND 0x60) OR NAL_TYPE_FU_A, fu_header_byte (b0 AND 0x1F) s e] @ c) header st =
    (if s \<or> fu_active st then
       let b = (if s then (b0 AND 0x7F) # c else fu_buf st @ c) in
       Ok (if e then (Some (depack_one [b] (h264_nal_is_idr b) header), depacketizer_new)
           else (None, \<lparr>fu_buf = b, fu_active = True\<rparr>))
     else Ok (None, st))"
  using fu_header_bits [of "0x1F" b0 s e] h264_fu_indicator [of b0]
  by (auto simp: h264_depacketize_def Let_def NAL_TYPE_STAP_A_def NAL_TYPE_FU_A_def
      depacketizer_new_def)

interpretation h264_fu: fu_path
  "\<lambda>offset (ps, seq). map_option (\<lambda>(ps, pk). (ps, pk_sequence pk))
     (h264_fu_loop ((b0 AND 0x60) OR NAL_TYPE_FU_A) (b0 AND 0x1F) body (Suc n) ts eoa offset ps
       (pk\<lparr>pk_sequence := seq\<rparr>))"
  "\<lambda>s e c (ps, seq).
     (ps @ [fst (emit_packet (eoa \<and> e) ts
        ([(b0 AND 0x60) OR NAL_TYPE_FU_A, fu_header_byte (b0 AND 0x1F) s e] @ c)
        (pk\<lparr>pk_sequence := seq\<rparr>))], seq + 1)"
  body "Suc n" fst "h264_carries pk ts eoa b0" "receive_rtp h264_depacketize" "[b0 AND 0x7F]"
  "h264_result pk ts eoa"
  for b0 body n ts eoa pk
proof (unfold_locales, goal_cases)
  case (2 offset acc)
  then show ?case
    by (cases acc, simp, subst h264_fu_loop.simps) (simp add: Let_def emit_packet_def split_def)
next
  case (3 offset acc)
  then show ?case by (cases acc, simp, subst h264_fu_loop.simps) simp
next
  case (4 s e c acc)
  then show ?case by (cases acc) (auto simp: h264_carries_def emit_packet_def)
next
  case (5 e c p st)
  then obtain seq where p: "p = write_rtp_header (pk_payload_type pk) seq ts (pk_ssrc pk) (eoa \<and> e) @
       [(b0 AND 0x60) OR NAL_TYPE_FU_A, fu_header_byte (b0 AND 0x1F) True e] @ c"
    by (auto simp: h264_carries_def)
  show ?case
    unfolding p receive_written h264_depack_fragment
    by (simp add: h264_result_def depack_one_def Let_def)
next
  case (6 e c p st)
  then obtain seq where p: "p = write_rtp_header (pk_payload_type pk) seq ts (pk_ssrc pk) (eoa \<and> e) @
       [(b0 AND 0x60) OR NAL_TYPE_FU_A, fu_header_byte (b0 AND 0x1F) False e] @ c"
    by (auto simp: h264_carries_def)
  show ?case
    unfolding p receive_written h264_depack_fragment
    using 6 by (simp add: h264_result_def depack_one_def Let_def)
qed simp_all

definition hevc_carries ::
    "video_packetizer \<Rightarrow> u32 \<Rightarrow> bool \<Rightarrow> u8 \<Rightarrow> u8 \<Rightarrow> bool \<Rightarrow> bool \<Rightarrow> bytes \<Rightarrow> bytes \<Rightarrow> bool" where
  "hevc_carries pk ts eoa b0 b1 s e c p \<longleftrightarrow> (\<exists>seq.
     p = write_rtp_header (pk_payload_type pk) seq ts (pk_ssrc pk) (eoa \<and> e) @
       [(b0 AND 0x81) OR push_bit 1 HEVC_NAL_TYPE_FU, b1, fu_header_byte (drop_bit 1 b0 AND 0x3F) s e] @ c)"

definition hevc_result :: "video_packetizer \<Rightarrow> u32 \<Rightarrow> bool \<Rightarrow> bytes \<Rightarrow> depack_result" where
  "hevc_result pk ts eoa nalu = \<lparr>dr_nalus = [nalu], dr_keyframe = hevc_nal_is_key nalu,
     dr_timestamp = ts, dr_marker = (eoa \<or> bit (pk_payload_type pk) 7)\<rparr>"

lemma hevc_header_rebuilt:
  "(b0 AND 0x81) OR push_bit 1 (drop_bit 1 b0 AND 0x3F) = (b0 :: u8)"
proof (rule bit_word_eqI)
  fix n assume "n < LENGTH(8)"
  then consider "n = 0" | "n = 1" | "n = 2" | "n = 3" | "n = 4" | "n = 5" | "n = 6" | "n = 7"
    by fastforce
  then show "bit ((b0 AND 0x81) OR push_bit 1 (drop_bit 1 b0 AND 0x3F)) n = bit b0 n"
    by cases (simp_all add: bit_simps numeral_eq_Suc del: push_bit_Suc)
qed

lemma hevc_fu_indicator:
  "drop_bit 1 ((b0 AND 0x81) OR push_bit 1 HEVC_NAL_TYPE_FU) AND 0x3F = (49 :: u8)"
  "((b0 AND 0x81) OR push_bit 1 HEVC_NAL_TYPE_FU) AND 0x81 = (b0 AND 0x81 :: u8)"
  by (simp_all add: HEVC_NAL_TYPE_FU_def bit.conj_disj_distrib2 and.assoc)

lemma hevc_depack_fu:
  assumes "drop_bit 1 p0 AND 0x3F = 49" and "(fh AND 0x80 \<noteq> 0) = s" and "(fh AND 0x40 \<noteq> 0) = e"
    and "(p0 AND 0x81) OR push_bit 1 (fh AND 0x3F) = b0"
  shows "hevc_depacketize ([p0, b1, fh] @ c) header st =
    (if s \<or> fu_active st then
       let b = (if s then b0 # b1 # c else fu_buf st @ c) in
       Ok (if e then (Some (depack_one [b] (hevc_nal_is_key b) header), depacketizer_new)
           else (None, \<lparr>fu_buf = b, fu_active = True\<rparr>))
     else Ok (None, st))"
proof -
  have i: "idx ([p0, b1, fh] @ c) 0 = (Ok p0 :: (u8, unit) outcome)"
    "idx ([p0, b1, fh] @ c) 1 = (Ok b1 :: (u8, unit) outcome)"
    "idx ([p0, b1, fh] @ c) 2 = (Ok fh :: (u8, unit) outcome)"
    "slice ([p0, b1, fh] @ c) 3 (length ([p0, b1, fh] @ c)) = (Ok c :: (bytes, unit) outcome)"
    "(length ([p0, b1, fh] @ c) < 2) = False" "(length ([p0, b1, fh] @ c) < 3) = False"
    by (simp_all add: idx_def slice_def)
  have n: "((49 :: u8) \<le> 47) = False" "((49 :: u8) = HEVC_NAL_TYPE_AP) = False"
    "((49 :: u8) = HEVC_NAL_TYPE_FU) = True"
    by (simp_all add: HEVC_NAL_TYPE_AP_def HEVC_NAL_TYPE_FU_def)
  show ?thesis
    unfolding hevc_depacketize_def i obind.simps Let_def assms n if_False if_True depacketizer_new_def
    by auto
qed

lemma hevc_depack_fragment:
  "hevc_depacketize ([(b0 AND 0x81) OR push_bit 1 HEVC_NAL_TYPE_FU, b1,
       fu_header_byte (drop_bit 1 b0 AND 0x3F) s e] @ c) header st =
    (if s \<or> fu_active st then
       let b = (if s then b0 # b1 # c else fu_buf st @ c) in
       Ok (if e then (Some (depack_one [b] (hevc_nal_is_key b) header), depacketizer_new)
           else (None, \<lparr>fu_buf = b, fu_active = True\<rparr>))
     else Ok (None, st))"
proof (rule hevc_depack_fu)
  show "(((b0 AND 0x81) OR push_bit 1 HEVC_NAL_TYPE_FU) AND 0x81) OR
      push_bit 1 (fu_header_byte (drop_bit 1 b0 AND 0x3F) s e AND 0x3F) = b0"
    using fu_header_bits(3) [of "0x3F" "drop_bit 1 b0" s e]
    by (simp only: hevc_fu_indicator hevc_header_rebuilt simp_thms)
qed (use fu_header_bits [of "0x3F" "drop_bit 1 b0" s e] hevc_fu_indicator in simp_all)

interpretation hevc_fu: fu_path
  "\<lambda>offset (ps, seq). map_option (\<lambda>(ps, pk). (ps, pk_sequence pk))
     (hevc_fu_loop ((b0 AND 0x81) OR push_bit 1 HEVC_NAL_TYPE_FU) b1 (drop_bit 1 b0 AND 0x3F) body
       (Suc n) ts eoa offset ps (pk\<lparr>pk_sequence := seq\<rparr>))"
  "\<lambda>s e c (ps, seq).
     (ps @ [fst (emit_packet (eoa \<and> e) ts
        ([(b0 AND 0x81) OR push_bit 1 HEVC_NAL_TYPE_FU, b1, fu_header_byte (drop_bit 1 b0 AND 0x3F) s e] @ c)
        (pk\<lparr>pk_sequence := seq\<rparr>))], seq + 1)"
  body "Suc n" fst "hevc_carries pk ts eoa b0 b1" "receive_rtp hevc_depacketize" "[b0, b1]"
  "hevc_result pk ts eoa"
  for b0 b1 body n ts eoa pk
proof (unfold_locales, goal_cases)
  case (2 offset acc)
  then show ?case
    by (cases acc, simp, subst hevc_fu_loop.simps) (simp add: Let_def emit_packet_def split_def)
next
  case (3 offset acc)
  then show ?case by (cases acc, simp, subst hevc_fu_loop.simps) simp
next
  case (4 s e c acc)
  then show ?case by (cases acc) (auto simp: hevc_carries_def emit_packet_def)
next
  case (5 e c p st)
  then obtain seq where p: "p = write_rtp_header (pk_payload_type pk) seq ts (pk_ssrc pk) (eoa \<and> e) @
       [(b0 AND 0x81) OR push_bit 1 HEVC_NAL_TYPE_FU, b1, fu_header_byte (drop_bit 1 b0 AND 0x3F) True e] @ c"
    by (auto simp: hevc_carries_def)
  show ?case
    unfolding p receive_written hevc_depack_fragment
    by (simp add: hevc_result_def depack_one_def Let_def)
next
  case (6 e c p st)
  then obtain seq where p: "p = write_rtp_header (pk_payload_type pk) seq ts (pk_ssrc pk) (eoa \<and> e) @
       [(b0 AND 0x81) OR push_bit 1 HEVC_NAL_TYPE_FU, b1, fu_header_byte (drop_bit 1 b0 AND 0x3F) False e] @ c"
    by (auto simp: hevc_carries_def)
  show ?case
    unfolding p receive_written hevc_depack_fragment
    using 6 by (simp add: hevc_result_def depack_one_def Let_def)
qed simp_all

text \<open>WHEP packets carry no RTP header of their own; the receiver sees any header the sender writes.\<close>

definition whep_carries :: "u8 \<Rightarrow> bool \<Rightarrow> bool \<Rightarrow> bytes \<Rightarrow> rtp_payload \<Rightarrow> bool" where
  "whep_carries h s e c p \<longleftrightarrow>
     p = \<lparr>rp_payload = [(h AND 0xE0) OR FU_A_TYPE, fu_header_byte (h AND 0x1F) s e] @ c,
          rp_start_of_frame = False, rp_end_of_frame = False\<rparr>"

lemma whep_fu_indicator:
  "((h AND 0xE0) OR FU_A_TYPE) AND 0x1F = (28 :: u8)"
  "((h AND 0xE0) OR FU_A_TYPE) AND 0x60 = (h AND 0x60 :: u8)"
  by (simp_all add: FU_A_TYPE_def bit.conj_disj_distrib2 and.assoc)

lemma whep_depack_fragment:
  "h264_depacketize ([(h AND 0xE0) OR FU_A_TYPE, fu_header_byte (h AND 0x1F) s e] @ c) header st =
    (if s \<or> fu_active st then
       let b = (if s then (h AND 0x7F) # c else fu_buf st @ c) in
       Ok (if e then (Some (depack_one [b] (h264_nal_is_idr b) header), depacketizer_new)
           else (None, \<lparr>fu_buf = b, fu_active = True\<rparr>))
     else Ok (None, st))"
  using fu_header_bits [of "0x1F" h s e] whep_fu_indicator [of h] h264_fu_indicator(3) [of h]
  by (auto simp: h264_depacketize_def Let_def NAL_TYPE_STAP_A_def NAL_TYPE_FU_A_def
      depacketizer_new_def)

interpretation whep_fu: fu_path
  "\<lambda>offset out. whep_fu_loop (h AND 0xE0) (h AND 0x1F) body (Suc n) offset out"
  "\<lambda>s e c out. out @ [\<lparr>rp_payload = [(h AND 0xE0) OR FU_A_TYPE, fu_header_byte (h AND 0x1F) s e] @ c,
                  rp_start_of_frame = False, rp_end_of_frame = False\<rparr>]"
  body "Suc n" id "whep_carries h" "\<lambda>p st. h264_depacketize (rp_payload p) header st" "[h AND 0x7F]"
  "\<lambda>nalu. depack_one [nalu] (h264_nal_is_idr nalu) header"
  for h body n header
proof (unfold_locales, goal_cases)
  case (2 offset acc)
  then show ?case
    by (subst whep_fu_loop.simps) (simp add: Let_def fu_header_byte_def and.assoc)
next
  case (3 offset acc)
  then show ?case by (subst whep_fu_loop.simps) simp
next
  case (4 s e c acc)
  then show ?case by (simp add: whep_carries_def)
next
  case (5 e c p st)
  then show ?case unfolding whep_carries_def
    by (simp only: whep_depack_fragment rtp_payload.select_convs) (simp add: Let_def)
next
  case (6 c e p st)
  then show ?case unfolding whep_carries_def
    by (simp only: whep_depack_fragment rtp_payload.select_convs) (simp add: Let_def)
qed simp_all

section \<open>Depacketizers on arbitrary input\<close>

lemma returns_aggregation: "returns (aggregation_loop is_key payload offset nalus keyframe)"
proof (induction is_key payload offset nalus keyframe rule: aggregation_loop.induct)
  case (1 is_key payload offset nalus keyframe)
  show ?case
    by (subst aggregation_loop.simps, unfold Let_def)
      (intro returns_if returns_obind returns_idx returns_slice returns_simps; use 1 in \<open>simp add: Let_def\<close>)
qed

lemma returns_h264_depacketize: "returns (h264_depacketize payload header st)"
  unfolding h264_depacketize_def Let_def
  by (intro returns_if returns_obind returns_idx returns_slice returns_case_option returns_simps
      returns_aggregation) (auto split: prod.splits intro!: returns_if)

lemma returns_hevc_depacketize: "returns (hevc_depacketize payload header st)"
  unfolding hevc_depacketize_def Let_def
  by (intro returns_if returns_obind returns_idx returns_slice returns_case_option returns_simps
      returns_aggregation) (auto split: prod.splits intro!: returns_if)

lemma returns_receive_rtp:
  assumes "\<And>payload header st. returns (depack payload header st)"
  shows "returns (receive_rtp depack pkt st)"
  unfolding receive_rtp_def
  by (intro returns_obind returns_case_option returns_parse_rtp_header returns_slice assms returns_simps)
    (auto dest: parse_rtp_header_len)

section \<open>Round trips\<close>

lemma single_nal_h264:
  assumes "1 \<le> b0 AND 0x1F" "b0 AND 0x1F \<le> 23"
  shows "h264_depacketize (b0 # body) header st =
    Ok (Some (depack_one [b0 # body] (h264_nal_is_idr (b0 # body)) header), st)"
  using assms by (simp add: h264_depacketize_def Let_def h264_nal_is_idr_def)

definition packets_ok :: "video_packetizer \<Rightarrow> bytes list \<Rightarrow> video_packetizer \<Rightarrow> bool" where
  "packets_ok pk ps pk' \<longleftrightarrow> ps \<noteq> [] \<and> pk_sequence pk' = pk_sequence pk + of_nat (length ps) \<and>
     map (\<lambda>p. be16 (p ! 2) (p ! 3)) ps = map (\<lambda>k. pk_sequence pk + of_nat k) [0..<length ps] \<and>
     list_all (\<lambda>p. length p \<le> 12 + pk_mtu pk) ps"

lemma written_sequence:
  "be16 ((write_rtp_header pt seq ts ssrc m @ xs) ! 2) ((write_rtp_header pt seq ts ssrc m @ xs) ! 3) = seq"
  by (simp add: write_rtp_header_def be16_bytes_def)

lemma h264_fu_packets:
  assumes "2 < pk_mtu pk" and "body \<noteq> []"
  shows "\<exists>ps pk'. h264_fu_loop ((b0 AND 0x60) OR NAL_TYPE_FU_A) (b0 AND 0x1F) body (pk_mtu pk - 2) ts eoa 0 [] pk
      = Some (ps, pk') \<and> packets_ok pk ps pk' \<and>
    (\<forall>st. receive_all (receive_rtp h264_depacketize) ps st =
       Ok ([h264_result pk ts eoa ((b0 AND 0x7F) # body)], depacketizer_new))"
proof -
  obtain n where n: "pk_mtu pk - 2 = Suc n" using assms(1) by (cases "pk_mtu pk - 2") auto
  let ?emit = "\<lambda>s e c (ps, seq).
     (ps @ [fst (emit_packet (eoa \<and> e) ts
        ([(b0 AND 0x60) OR NAL_TYPE_FU_A, fu_header_byte (b0 AND 0x1F) s e] @ c)
        (pk\<lparr>pk_sequence := seq\<rparr>))], seq + 1)"
  obtain acc ps where run: "map_option (\<lambda>(ps, pk). (ps, pk_sequence pk))
      (h264_fu_loop ((b0 AND 0x60) OR NAL_TYPE_FU_A) (b0 AND 0x1F) body (Suc n) ts eoa 0 []
       (pk\<lparr>pk_sequence := pk_sequence pk\<rparr>)) = Some acc"
    and out: "fst acc = [] @ ps" and acc: "acc = emit_frags ?emit True (fu_chunks (Suc n) body) ([], pk_sequence pk)"
    and carries: "carries_all (h264_carries pk ts eoa b0) True (fu_chunks (Suc n) body) ps"
    and recv: "\<And>st. receive_all (receive_rtp h264_depacketize) ps st =
      Ok ([h264_result pk ts eoa ([b0 AND 0x7F] @ body)], depacketizer_new)"
    by (rule h264_fu.path_roundtrip [OF assms(2), of b0 n ts eoa pk "([], pk_sequence pk)"]) auto
  obtain pk' where loop: "h264_fu_loop ((b0 AND 0x60) OR NAL_TYPE_FU_A) (b0 AND 0x1F) body (pk_mtu pk - 2) ts eoa 0 [] pk
      = Some (ps, pk')" "snd acc = pk_sequence pk'"
    using run out n by auto
  have "\<exists>qs. fst acc = fst ([] :: bytes list, pk_sequence pk) @ qs \<and>
    map (\<lambda>p. be16 (p ! 2) (p ! 3)) qs = map (\<lambda>k. snd ([] :: bytes list, pk_sequence pk) + of_nat k) [0..<length qs] \<and>
    snd acc = snd ([] :: bytes list, pk_sequence pk) + of_nat (length qs)"
    unfolding acc
    by (rule emit_frags_sequenced) (auto simp: emit_packet_def written_sequence simp del: append_Cons)
  then have seq: "map (\<lambda>p. be16 (p ! 2) (p ! 3)) ps = map (\<lambda>k. pk_sequence pk + of_nat k) [0..<length ps]"
    "pk_sequence pk' = pk_sequence pk + of_nat (length ps)"
    using out loop(2) by auto
  have "list_all (\<lambda>p. length p \<le> 12 + pk_mtu pk) ps"
    by (rule carries_all_list [OF carries])
      (use fu_chunks_sizes [of "Suc n" body] n in \<open>auto simp: h264_carries_def list_all_iff\<close>)
  moreover have "ps \<noteq> []" using recv [of depacketizer_new] by auto
  ultimately show ?thesis using loop seq recv by (auto simp: packets_ok_def)
qed

lemma h264_roundtrip_main:
  assumes mtu: "3 \<le> pk_mtu pk" and pt: "pk_payload_type pk < 0x80"
    and type: "1 \<le> b0 AND 0x1F" "b0 AND 0x1F \<le> 23"
  shows "\<exists>ps pk'. h264_packetize (b0 # body) ts eoa pk = Some (ps, pk') \<and> packets_ok pk ps pk' \<and>
    (\<forall>st. \<exists>st'. receive_all (receive_rtp h264_depacketize) ps st =
       Ok ([\<lparr>dr_nalus = [if length (b0 # body) \<le> pk_mtu pk then b0 # body else (b0 AND 0x7F) # body],
             dr_keyframe = (b0 AND 0x1F = 5), dr_timestamp = ts, dr_marker = eoa\<rparr>], st'))"
proof (cases "length (b0 # body) \<le> pk_mtu pk")
  case True
  let ?p = "write_rtp_header (pk_payload_type pk) (pk_sequence pk) ts (pk_ssrc pk) eoa @ b0 # body"
  have "h264_packetize (b0 # body) ts eoa pk = Some ([?p], pk\<lparr>pk_sequence := pk_sequence pk + 1\<rparr>)"
    using True by (simp add: h264_packetize_def emit_packet_def)
  moreover have "packets_ok pk [?p] (pk\<lparr>pk_sequence := pk_sequence pk + 1\<rparr>)"
    using True by (simp add: packets_ok_def written_sequence)
  moreover have "receive_all (receive_rtp h264_depacketize) [?p] st =
      Ok ([\<lparr>dr_nalus = [b0 # body], dr_keyframe = (b0 AND 0x1F = 5), dr_timestamp = ts, dr_marker = eoa\<rparr>], st)" for st
    using payload_type_bits(2) [OF pt]
    by (simp add: receive_written single_nal_h264 [OF type] depack_one_def h264_nal_is_idr_def)
  ultimately show ?thesis using True by auto
next
  case False
  then have ne: "body \<noteq> []" using mtu by auto
  obtain ps pk' where loop: "h264_packetize (b0 # body) ts eoa pk = Some (ps, pk')" "packets_ok pk ps pk'"
    and recv: "\<And>st. receive_all (receive_rtp h264_depacketize) ps st =
       Ok ([h264_result pk ts eoa ((b0 AND 0x7F) # body)], depacketizer_new)"
    using h264_fu_packets [OF _ ne, of pk b0 ts eoa] mtu False by (auto simp: h264_packetize_def Let_def)
  have res: "h264_result pk ts eoa ((b0 AND 0x7F) # body) = \<lparr>dr_nalus = [(b0 AND 0x7F) # body],
      dr_keyframe = (b0 AND 0x1F = 5), dr_timestamp = ts, dr_marker = eoa\<rparr>"
    using payload_type_bits(2) [OF pt] by (simp add: h264_result_def h264_nal_is_idr_def and.assoc)
  with loop recv False show ?thesis by auto
qed

lemma hevc_fu_packets:
  assumes "3 < pk_mtu pk" and "body \<noteq> []"
  shows "\<exists>ps pk'. hevc_fu_loop ((b0 AND 0x81) OR push_bit 1 HEVC_NAL_TYPE_FU) b1 (drop_bit 1 b0 AND 0x3F) body
      (pk_mtu pk - 3) ts eoa 0 [] pk = Some (ps, pk') \<and> packets_ok pk ps pk' \<and>
    (\<forall>st. receive_all (receive_rtp hevc_depacketize) ps st =
       Ok ([hevc_result pk ts eoa (b0 # b1 # body)], depacketizer_new))"
proof -
  obtain n where n: "pk_mtu pk - 3 = Suc n" using assms(1) by (cases "pk_mtu pk - 3") auto
  let ?emit = "\<lambda>s e c (ps, seq).
     (ps @ [fst (emit_packet (eoa \<and> e) ts
        ([(b0 AND 0x81) OR push_bit 1 HEVC_NAL_TYPE_FU, b1, fu_header_byte (drop_bit 1 b0 AND 0x3F) s e] @ c)
        (pk\<lparr>pk_sequence := seq\<rparr>))], seq + 1)"
  obtain acc ps where run: "map_option (\<lambda>(ps, pk). (ps, pk_sequence pk))
      (hevc_fu_loop ((b0 AND 0x81) OR push_bit 1 HEVC_NAL_TYPE_FU) b1 (drop_bit 1 b0 AND 0x3F) body (Suc n)
       ts eoa 0 [] (pk\<lparr>pk_sequence := pk_sequence pk\<rparr>)) = Some acc"
    and out: "fst acc = [] @ ps" and acc: "acc = emit_frags ?emit True (fu_chunks (Suc n) body) ([], pk_sequence pk)"
    and carries: "carries_all (hevc_carries pk ts eoa b0 b1) True (fu_chunks (Suc n) body) ps"
    and recv: "\<And>st. receive_all (receive_rtp hevc_depacketize) ps st =
      Ok ([hevc_result pk ts eoa ([b0, b1] @ body)], depacketizer_new)"
    by (rule hevc_fu.path_roundtrip [OF assms(2), of b0 b1 n ts eoa pk "([], pk_sequence pk)"]) auto
  obtain pk' where loop: "hevc_fu_loop ((b0 AND 0x81) OR push_bit 1 HEVC_NAL_TYPE_FU) b1
      (drop_bit 1 b0 AND 0x3F) body (pk_mtu pk - 3) ts eoa 0 [] pk = Some (ps, pk')"
    "snd acc = pk_sequence pk'"
    using run out n by auto
  have "\<exists>qs. fst acc = fst ([] :: bytes list, pk_sequence pk) @ qs \<and>
    map (\<lambda>p. be16 (p ! 2) (p ! 3)) qs = map (\<lambda>k. snd ([] :: bytes list, pk_sequence pk) + of_nat k) [0..<length qs] \<and>
    snd acc = snd ([] :: bytes list, pk_sequence pk) + of_nat (length qs)"
    unfolding acc
    by (rule emit_frags_sequenced) (auto simp: emit_packet_def written_sequence simp del: append_Cons)
  then have seq: "map (\<lambda>p. be16 (p ! 2) (p ! 3)) ps = map (\<lambda>k. pk_sequence pk + of_nat k) [0..<length ps]"
    "pk_sequence pk' = pk_sequence pk + of_nat (length ps)"
    using out loop(2) by auto
  have "list_all (\<lambda>p. length p \<le> 12 + pk_mtu pk) ps"
    by (rule carries_all_list [OF carries])
      (use fu_chunks_sizes [of "Suc n" body] n in \<open>auto simp: hevc_carries_def list_all_iff\<close>)
  moreover have "ps \<noteq> []" using recv [of depacketizer_new] by auto
  ultimately show ?thesis using loop seq recv by (auto simp: packets_ok_def)
qed

lemma hevc_roundtrip_main:
  assumes mtu: "4 \<le> pk_mtu pk" and pt: "pk_payload_type pk < 0x80"
    and type: "drop_bit 1 b0 AND 0x3F \<le> 47"
  shows "\<exists>ps pk'. hevc_packetize (b0 # b1 # body) ts eoa pk = Some (ps, pk') \<and> packets_ok pk ps pk' \<and>
    (\<forall>st. \<exists>st'. receive_all (receive_rtp hevc_depacketize) ps st =
       Ok ([\<lparr>dr_nalus = [b0 # b1 # body], dr_keyframe = is_hevc_keyframe (drop_bit 1 b0 AND 0x3F),
             dr_timestamp = ts, dr_marker = eoa\<rparr>], st'))"
proof (cases "length (b0 # b1 # body) \<le> pk_mtu pk")
  case True
  let ?p = "write_rtp_header (pk_payload_type pk) (pk_sequence pk) ts (pk_ssrc pk) eoa @ b0 # b1 # body"
  have "hevc_packetize (b0 # b1 # body) ts eoa pk = Some ([?p], pk\<lparr>pk_sequence := pk_sequence pk + 1\<rparr>)"
    using True by (simp add: hevc_packetize_def emit_packet_def)
  moreover have "packets_ok pk [?p] (pk\<lparr>pk_sequence := pk_sequence pk + 1\<rparr>)"
    using True by (simp add: packets_ok_def written_sequence)
  moreover have "receive_all (receive_rtp hevc_depacketize) [?p] st =
      Ok ([\<lparr>dr_nalus = [b0 # b1 # body], dr_keyframe = is_hevc_keyframe (drop_bit 1 b0 AND 0x3F),
            dr_timestamp = ts, dr_marker = eoa\<rparr>], st)" for st
    using payload_type_bits(2) [OF pt] type
    by (simp add: receive_written hevc_depacketize_def depack_one_def)
  ultimately show ?thesis by auto
next
  case False
  then have ne: "body \<noteq> []" using mtu by auto
  obtain ps pk' where loop: "hevc_packetize (b0 # b1 # body) ts eoa pk = Some (ps, pk')" "packets_ok pk ps pk'"
    and recv: "\<And>st. receive_all (receive_rtp hevc_depacketize) ps st =
       Ok ([hevc_result pk ts eoa (b0 # b1 # body)], depacketizer_new)"
    using hevc_fu_packets [OF _ ne, of pk b0 b1 ts eoa] mtu False by (auto simp: hevc_packetize_def Let_def)
  have "hevc_result pk ts eoa (b0 # b1 # body) = \<lparr>dr_nalus = [b0 # b1 # body],
      dr_keyframe = is_hevc_keyframe (drop_bit 1 b0 AND 0x3F), dr_timestamp = ts, dr_marker = eoa\<rparr>"
    using payload_type_bits(2) [OF pt] by (simp add: hevc_result_def hevc_nal_is_key_def)
  with loop recv show ?thesis by auto
qed

text \<open>One NAL through the WHEP packetizer and the H.264 depacketizer.\<close>

definition whep_received :: "nat \<Rightarrow> bytes \<Rightarrow> bytes" where
  "whep_received mtu nal = (if length nal \<le> mtu then nal else (nal ! 0 AND 0x7F) # drop 1 nal)"

definition h264_single_type :: "bytes \<Rightarrow> bool" where
  "h264_single_type nal \<longleftrightarrow> nal \<noteq> [] \<and> 1 \<le> nal ! 0 AND 0x1F \<and> nal ! 0 AND 0x1F \<le> 23"

definition unflagged :: "nat \<Rightarrow> rtp_payload \<Rightarrow> bool" where
  "unflagged mtu p \<longleftrightarrow> length (rp_payload p) \<le> mtu \<and> \<not> rp_start_of_frame p \<and> \<not> rp_end_of_frame p"

lemma receive_all_append:
  "receive_all recv (ps @ qs) st = obind (receive_all recv ps st) (\<lambda>(rs, st1).
     obind (receive_all recv qs st1) (\<lambda>(rs', st2). Ok (rs @ rs', st2)))"
  by (induction ps arbitrary: st) (auto simp: obind_assoc split_beta intro!: obind_cong)

lemma whep_one_nal:
  assumes mtu: "3 \<le> mtu" and nal: "h264_single_type nal"
  shows "\<exists>ps. whep_packetize_one_nal mtu nal out = Ok (Some (out @ ps)) \<and> ps \<noteq> [] \<and>
    list_all (unflagged mtu) ps \<and>
    (\<forall>st. \<exists>st'. receive_all (\<lambda>p st. h264_depacketize (rp_payload p) header st) ps st =
       Ok ([depack_one [whep_received mtu nal] (h264_nal_is_idr nal) header], st'))"
proof -
  obtain h body where n: "nal = h # body" using nal by (cases nal) (auto simp: h264_single_type_def)
  show ?thesis
  proof (cases "length nal \<le> mtu")
    case True
    have "h264_depacketize nal header st = Ok (Some (depack_one [nal] (h264_nal_is_idr nal) header), st)" for st
      using single_nal_h264 nal by (simp add: n h264_single_type_def)
    with True n show ?thesis
      by (intro exI [of _ "[\<lparr>rp_payload = nal, rp_start_of_frame = False, rp_end_of_frame = False\<rparr>]"])
        (simp add: whep_packetize_one_nal_def unflagged_def whep_received_def)
  next
    case False
    obtain k where k: "mtu - FU_HEADER_SIZE = Suc k" "mtu = k + 3"
      using that [of "mtu - 3"] mtu by (auto simp: FU_HEADER_SIZE_def)
    have ne: "body \<noteq> []" using False mtu n by auto
    obtain acc ps where run: "whep_fu_loop (h AND 0xE0) (h AND 0x1F) body (Suc k) 0 out = Some acc"
      and acc: "acc = out @ ps" "carries_all (whep_carries h) True (fu_chunks (Suc k) body) ps"
      and recv: "\<And>st. receive_all (\<lambda>p st. h264_depacketize (rp_payload p) header st) ps st =
        Ok ([depack_one [[h AND 0x7F] @ body] (h264_nal_is_idr ([h AND 0x7F] @ body)) header], depacketizer_new)"
      by (rule whep_fu.path_roundtrip [OF ne, of h k out header]) auto
    have "list_all (unflagged mtu) ps"
      by (rule carries_all_list [OF acc(2)])
        (use fu_chunks_sizes [of "Suc k" body] k in
          \<open>auto simp: whep_carries_def unflagged_def list_all_iff\<close>)
    moreover have "ps \<noteq> []" using recv [of depacketizer_new] by auto
    moreover have "whep_packetize_one_nal mtu nal out = Ok (Some (out @ ps))"
      using run acc(1) False by (simp add: whep_packetize_one_nal_def n k(1))
    moreover have "h264_nal_is_idr ((h AND 0x7F) # body) = h264_nal_is_idr nal"
      by (simp add: h264_nal_is_idr_def n and.assoc)
    ultimately show ?thesis using recv False by (auto simp: whep_received_def n)
  qed
qed

lemma whep_all_nals:
  assumes mtu: "3 \<le> mtu" and nals: "list_all h264_single_type nals"
  shows "\<exists>ps. whep_packetize_nals mtu nals out = Ok (Some (out @ ps)) \<and> (nals \<noteq> [] \<longrightarrow> ps \<noteq> []) \<and>
    list_all (unflagged mtu) ps \<and>
    (\<forall>st. \<exists>st'. receive_all (\<lambda>p st. h264_depacketize (rp_payload p) header st) ps st =
       Ok (map (\<lambda>n. depack_one [whep_received mtu n] (h264_nal_is_idr n) header) nals, st'))"
  using nals
proof (induction nals arbitrary: out)
  case (Cons n nals)
  then obtain ps where ps: "whep_packetize_one_nal mtu n out = Ok (Some (out @ ps))" "ps \<noteq> []"
    "list_all (unflagged mtu) ps"
    "\<And>st. \<exists>st'. receive_all (\<lambda>p st. h264_depacketize (rp_payload p) header st) ps st =
       Ok ([depack_one [whep_received mtu n] (h264_nal_is_idr n) header], st')"
    using whep_one_nal [OF mtu, of n out header] by auto
  obtain qs where qs: "whep_packetize_nals mtu nals (out @ ps) = Ok (Some ((out @ ps) @ qs))"
    "list_all (unflagged mtu) qs"
    "\<And>st. \<exists>st'. receive_all (\<lambda>p st. h264_depacketize (rp_payload p) header st) qs st =
       Ok (map (\<lambda>n. depack_one [whep_received mtu n] (h264_nal_is_idr n) header) nals, st')"
    using Cons.IH [of "out @ ps"] Cons.prems by auto
  have "\<exists>st'. receive_all (\<lambda>p st. h264_depacketize (rp_payload p) header st) (ps @ qs) st =
       Ok (map (\<lambda>n. depack_one [whep_received mtu n] (h264_nal_is_idr n) header) (n # nals), st')" for st
  proof -
    obtain s1 where s1: "receive_all (\<lambda>p st. h264_depacketize (rp_payload p) header st) ps st =
       Ok ([depack_one [whep_received mtu n] (h264_nal_is_idr n) header], s1)"
      using ps(4) by blast
    moreover obtain s2 where "receive_all (\<lambda>p st. h264_depacketize (rp_payload p) header st) qs s1 =
       Ok (map (\<lambda>n. depack_one [whep_received mtu n] (h264_nal_is_idr n) header) nals, s2)"
      using qs(3) by blast
    ultimately show ?thesis by (simp add: receive_all_append)
  qed
  with ps(1-3) qs(1,2) show ?case by (intro exI [of _ "ps @ qs"]) auto
qed auto

lemma map_payload_mark [simp]:
  "map rp_payload (mark_first ps) = map rp_payload ps" "map rp_payload (mark_last ps) = map rp_payload ps"
proof -
  show "map rp_payload (mark_first ps) = map rp_payload ps"
    by (cases ps) (simp_all add: mark_first_def)
  show "map rp_payload (mark_last ps) = map rp_payload ps"
    by (cases ps rule: rev_cases) (simp_all add: mark_last_def)
qed

lemma marks:
  assumes "ps \<noteq> []" "list_all (unflagged mtu) ps"
  shows "map rp_start_of_frame (mark_last (mark_first ps)) = True # replicate (length ps - 1) False"
    and "map rp_end_of_frame (mark_last (mark_first ps)) = replicate (length ps - 1) False @ [True]"
proof -
  have s: "map rp_start_of_frame ps = replicate (length ps) False" "map rp_end_of_frame ps = replicate (length ps) False"
    using assms(2) by (auto simp: list_all_iff unflagged_def map_replicate_const [symmetric] intro!: map_cong)
  have last: "map rp_start_of_frame (mark_last qs) = map rp_start_of_frame qs"
    "qs \<noteq> [] \<Longrightarrow> map rp_end_of_frame (mark_last qs) = butlast (map rp_end_of_frame qs) @ [True]" for qs
    by (cases qs rule: rev_cases, simp_all add: mark_last_def map_butlast)+
  have first: "map rp_end_of_frame (mark_first ps) = map rp_end_of_frame ps" "mark_first ps \<noteq> []"
    "map rp_start_of_frame (mark_first ps) = True # tl (map rp_start_of_frame ps)"
    using assms(1) by (cases ps; simp add: mark_first_def)+
  show "map rp_start_of_frame (mark_last (mark_first ps)) = True # replicate (length ps - 1) False"
    by (simp add: last(1) first(3) s)
  show "map rp_end_of_frame (mark_last (mark_first ps)) = replicate (length ps - 1) False @ [True]"
    by (simp add: last(2) [OF first(2)] first(1) s butlast_conv_take)
qed

lemma receive_all_map: "receive_all (\<lambda>p st. f (g p) st) ps st = receive_all f (map g ps) st"
  by (induction ps arbitrary: st) auto

section \<open>Properties\<close>

text \<open>
  C9. Every H.264 NAL unit of a single-NAL type survives the RTSP packetizer and depacketizer, for every
  MTU of at least 3: the packetizer terminates, all packets respect the MTU, their sequence numbers
  are consecutive modulo 2^16, and the receiver, in whatever state it was, gets exactly one result,
  with the NAL, its keyframe flag, the timestamp and the end-of-unit marker.  A fragmented NAL loses
  its forbidden-zero bit, which the fragmentation header does not carry.
\<close>

theorem h264_rtp_roundtrip:
  assumes "3 \<le> pk_mtu pk" and "pk_payload_type pk < 0x80"
    and "1 \<le> b0 AND 0x1F" and "b0 AND 0x1F \<le> 23"
  shows "\<exists>ps pk'. h264_packetize (b0 # body) ts eoa pk = Some (ps, pk') \<and> packets_ok pk ps pk' \<and>
    (\<forall>st. \<exists>st'. receive_all (receive_rtp h264_depacketize) ps st =
       Ok ([\<lparr>dr_nalus = [if length (b0 # body) \<le> pk_mtu pk then b0 # body else (b0 AND 0x7F) # body],
             dr_keyframe = (b0 AND 0x1F = 5), dr_timestamp = ts, dr_marker = eoa\<rparr>], st'))"
  using assms by (rule h264_roundtrip_main)

definition mtu4 :: video_packetizer where
  "mtu4 = \<lparr>pk_ssrc = 7, pk_payload_type = 96, pk_sequence = 65535, pk_mtu = 4\<rparr>"

theorem h264_rtp_roundtrip_witness:
  "\<exists>ps pk'. h264_packetize [0x65, 1, 2, 3, 4, 5] 90000 True mtu4 = Some (ps, pk') \<and>
     packets_ok mtu4 ps pk' \<and>
     (\<exists>st'. receive_all (receive_rtp h264_depacketize) ps \<lparr>fu_buf = [9], fu_active = True\<rparr> =
       Ok ([\<lparr>dr_nalus = [[0x65, 1, 2, 3, 4, 5]], dr_keyframe = True, dr_timestamp = 90000,
             dr_marker = True\<rparr>], st'))"
  using h264_rtp_roundtrip [of mtu4 "0x65" "[1, 2, 3, 4, 5]" 90000 True]
  by (simp add: mtu4_def) blast

text \<open>
  C27. Every HEVC NAL unit survives its packetizer and depacketizer bit for bit, for every MTU of at least
  4, with the same guarantees on termination, packet size, sequence numbers, timestamp and marker.
\<close>

theorem hevc_rtp_roundtrip:
  assumes "4 \<le> pk_mtu pk" and "pk_payload_type pk < 0x80" and "drop_bit 1 b0 AND 0x3F \<le> 47"
  shows "\<exists>ps pk'. hevc_packetize (b0 # b1 # body) ts eoa pk = Some (ps, pk') \<and> packets_ok pk ps pk' \<and>
    (\<forall>st. \<exists>st'. receive_all (receive_rtp hevc_depacketize) ps st =
       Ok ([\<lparr>dr_nalus = [b0 # b1 # body], dr_keyframe = is_hevc_keyframe (drop_bit 1 b0 AND 0x3F),
             dr_timestamp = ts, dr_marker = eoa\<rparr>], st'))"
  using assms by (rule hevc_roundtrip_main)

theorem hevc_rtp_roundtrip_witness:
  "\<exists>ps pk'. hevc_packetize [0x26, 1, 2, 3, 4, 5] 90000 False mtu4 = Some (ps, pk') \<and>
     packets_ok mtu4 ps pk' \<and>
     (\<exists>st'. receive_all (receive_rtp hevc_depacketize) ps depacketizer_new =
       Ok ([\<lparr>dr_nalus = [[0x26, 1, 2, 3, 4, 5]], dr_keyframe = True, dr_timestamp = 90000,
             dr_marker = False\<rparr>], st'))"
  using hevc_rtp_roundtrip [of mtu4 "0x26" 1 "[2, 3, 4, 5]" 90000 False]
  by (simp add: mtu4_def is_hevc_keyframe_def) blast

text \<open>
  A whole AVCC sample through the WHEP packetizer: for every MTU of at least 3 it terminates without
  a panic, every payload respects the MTU, the start flag is set on the first payload only and the end
  flag on the last only, and an RFC 6184 receiver gets the NAL units of the sample in order.
\<close>

theorem whep_sample_roundtrip:
  assumes "3 \<le> mtu" and "whep_split_avcc avcc = Ok nals" and "nals \<noteq> []"
    and "list_all h264_single_type nals"
  shows "\<exists>ps. whep_packetize mtu avcc = Ok (Some ps) \<and> list_all (\<lambda>p. length (rp_payload p) \<le> mtu) ps \<and>
    map rp_start_of_frame ps = True # replicate (length ps - 1) False \<and>
    map rp_end_of_frame ps = replicate (length ps - 1) False @ [True] \<and>
    (\<forall>st. \<exists>st'. receive_all (\<lambda>p st. h264_depacketize (rp_payload p) header st) ps st =
       Ok (map (\<lambda>n. depack_one [whep_received mtu n] (h264_nal_is_idr n) header) nals, st'))"
proof -
  obtain ps where ps: "whep_packetize_nals mtu nals [] = Ok (Some ps)" "ps \<noteq> []"
    "list_all (unflagged mtu) ps"
    "\<And>st. \<exists>st'. receive_all (\<lambda>p st. h264_depacketize (rp_payload p) header st) ps st =
       Ok (map (\<lambda>n. depack_one [whep_received mtu n] (h264_nal_is_idr n) header) nals, st')"
    using whep_all_nals [OF assms(1,4), of "[]" header] assms(3) by auto
  let ?qs = "mark_last (mark_first ps)"
  have "map rp_payload ?qs = map rp_payload ps" by simp
  then have "length ?qs = length ps" by (metis length_map)
  moreover have "list_all (\<lambda>b. length b \<le> mtu) (map rp_payload ?qs)"
    unfolding map_payload_mark using ps(3) by (simp add: list_all_iff unflagged_def)
  then have "\<forall>p\<in>set ?qs. length (rp_payload p) \<le> mtu"
    unfolding list_all_iff set_map by blast
  moreover have "receive_all (\<lambda>p st. h264_depacketize (rp_payload p) header st) ?qs st =
      receive_all (\<lambda>p st. h264_depacketize (rp_payload p) header st) ps st" for st
    unfolding receive_all_map [of "\<lambda>b st. h264_depacketize b header st" rp_payload] by simp
  ultimately show ?thesis
    using ps marks [OF ps(2,3)] assms(2,3)
    by (intro exI [of _ ?qs]) (simp add: whep_packetize_def list_all_iff)
qed

theorem whep_sample_roundtrip_witness:
  "\<exists>ps. whep_packetize 4 [0, 0, 0, 2, 0x67, 9, 0, 0, 0, 5, 0x65, 1, 2, 3, 4] = Ok (Some ps) \<and>
     map rp_end_of_frame ps = replicate (length ps - 1) False @ [True]"
proof -
  have e: "avcc_entry [0x67, 9] @ avcc_entry [0x65, 1, 2, 3, 4] =
      [0, 0, 0, 2, 0x67, 9, 0, 0, 0, 5, 0x65, 1, 2, 3, 4]"
    by (simp add: avcc_entry_def be32_bytes_def)
  have "whep_split_avcc [0, 0, 0, 2, 0x67, 9, 0, 0, 0, 5, 0x65, 1, 2, 3, 4] = Ok [[0x67, 9], [0x65, 1, 2, 3, 4]]"
    using avcc_nals_entries [of "[[0x67, 9], [0x65, 1, 2, 3, 4]]"]
    by (simp add: whep_split_avcc_spec e [symmetric] nal_fits_def del: append.simps)
  from whep_sample_roundtrip [OF _ this, of 4] show ?thesis by (auto simp: h264_single_type_def)
qed

text \<open>
  No packet panics the RTSP video receivers: header parsing and both depacketizers return on every
  packet in every state.
\<close>

theorem rtp_video_receivers_safe:
  "returns (receive_rtp h264_depacketize pkt st) \<and> returns (receive_rtp hevc_depacketize pkt st)"
  using returns_receive_rtp returns_h264_depacketize returns_hevc_depacketize by blast

end
