(* ===== verification/Ustr.thy ===== *)
theory Ustr
  imports Fmt
begin

text \<open>
  Rust strings: a \<open>str\<close> is a list of code points, lengths and slice bounds count its UTF-8 bytes.  The
  standard library's functions that the text protocols of the repository use (trimming, splitting,
  searching, lines, decimal numbers, letter case, UTF-8 validation) and their lemmas.
\<close>

section \<open>UTF-8 strings with byte offsets\<close>

text \<open>
  A \<open>str\<close> is the list of its code points; lengths and slice bounds count UTF-8 bytes.  A slice whose
  bound is past the end or inside a character panics.
\<close>

type_synonym ustr = "nat list"

definition utf8_width :: "nat \<Rightarrow> nat" where
  "utf8_width c = (if c < 0x80 then 1 else if c < 0x800 then 2 else if c < 0x10000 then 3 else 4)"

definition str_len :: "ustr \<Rightarrow> nat" where
  "str_len s = sum_list (map utf8_width s)"

fun str_split_at :: "ustr \<Rightarrow> nat \<Rightarrow> (ustr \<times> ustr) option" where
  "str_split_at s 0 = Some ([], s)"
| "str_split_at [] (Suc n) = None"
| "str_split_at (c # s) n =
     (if utf8_width c \<le> n then map_option (\<lambda>(a, b). (c # a, b)) (str_split_at s (n - utf8_width c))
      else None)"

definition str_slice :: "ustr \<Rightarrow> nat \<Rightarrow> nat \<Rightarrow> (ustr, unit) outcome" where
  "str_slice s a b =
     (if a \<le> b then case str_split_at s a of None \<Rightarrow> Panic
        | Some (_, r) \<Rightarrow> (case str_split_at r (b - a) of None \<Rightarrow> Panic | Some (m, _) \<Rightarrow> Ok m)
      else Panic)"

definition ustr_of :: "string \<Rightarrow> ustr" where
  "ustr_of s = map of_char s"

text \<open>Unicode \<open>White_Space\<close>, which \<open>str::trim\<close> strips on both sides.\<close>

definition is_whitespace :: "nat \<Rightarrow> bool" where
  "is_whitespace c \<longleftrightarrow> (9 \<le> c \<and> c \<le> 13) \<or>
     c \<in> {0x20, 0x85, 0xA0, 0x1680, 0x2028, 0x2029, 0x202F, 0x205F, 0x3000} \<or> (0x2000 \<le> c \<and> c \<le> 0x200A)"

definition str_trim :: "ustr \<Rightarrow> ustr" where
  "str_trim s = rev (dropWhile is_whitespace (rev (dropWhile is_whitespace s)))"

text \<open>\<open>split_once\<close> at the first separator, and \<open>split\<close>.\<close>

definition str_split_once :: "nat \<Rightarrow> ustr \<Rightarrow> (ustr \<times> ustr) option" where
  "str_split_once c s =
     (case dropWhile (\<lambda>x. x \<noteq> c) s of [] \<Rightarrow> None | _ # r \<Rightarrow> Some (takeWhile (\<lambda>x. x \<noteq> c) s, r))"

fun str_split :: "nat \<Rightarrow> ustr \<Rightarrow> ustr list" where
  "str_split c [] = [[]]"
| "str_split c (x # s) =
     (if x = c then [] # str_split c s
      else case str_split c s of [] \<Rightarrow> [[x]] | p # ps \<Rightarrow> (x # p) # ps)"

fun strip_prefix :: "ustr \<Rightarrow> ustr \<Rightarrow> ustr option" where
  "strip_prefix [] s = Some s"
| "strip_prefix (p # ps) [] = None"
| "strip_prefix (p # ps) (x # s) = (if p = x then strip_prefix ps s else None)"

section \<open>Lemmas on strings\<close>

definition ascii :: "ustr \<Rightarrow> bool" where
  "ascii s \<longleftrightarrow> list_all (\<lambda>c. c < 0x80) s"

lemma ascii_subset: "set t \<subseteq> set s \<Longrightarrow> ascii s \<Longrightarrow> ascii t"
  by (auto simp: ascii_def list_all_iff)

lemma ascii_len: "ascii s \<Longrightarrow> str_len s = length s"
  by (induction s) (auto simp: ascii_def str_len_def utf8_width_def)

lemma ascii_split_at: "ascii s \<Longrightarrow> n \<le> length s \<Longrightarrow> str_split_at s n = Some (take n s, drop n s)"
  by (induction s n rule: str_split_at.induct) (auto simp: ascii_def utf8_width_def)

lemma ascii_slice:
  "ascii s \<Longrightarrow> a \<le> b \<Longrightarrow> b \<le> length s \<Longrightarrow> str_slice s a b = Ok (take (b - a) (drop a s))"
  using ascii_split_at [of "drop a s" "b - a"] ascii_subset [of "drop a s" s]
  by (simp add: str_slice_def ascii_split_at set_drop_subset)

lemma set_str_trim: "set (str_trim s) \<subseteq> set s"
  by (auto simp: str_trim_def dest!: set_dropWhileD)

lemma set_strip_prefix: "strip_prefix p s = Some r \<Longrightarrow> set r \<subseteq> set s"
  by (induction p s rule: strip_prefix.induct) (auto split: if_splits)

lemma set_str_split: "p \<in> set (str_split c s) \<Longrightarrow> set p \<subseteq> set s"
  by (induction s arbitrary: p) (fastforce split: if_splits list.splits)+

lemma set_str_split_once: "str_split_once c s = Some (a, r) \<Longrightarrow> set r \<subseteq> set s"
proof -
  assume a: "str_split_once c s = Some (a, r)"
  then have "set r \<subseteq> set (dropWhile (\<lambda>x. x \<noteq> c) s)"
    by (auto simp: str_split_once_def split: list.splits)
  then show ?thesis by (auto dest: set_dropWhileD)
qed

lemma str_split_nonempty [simp]: "str_split c s \<noteq> []"
  by (induction s) (auto split: list.splits)

lemma str_split_sep: "c \<notin> set p \<Longrightarrow> str_split c (p @ c # s) = p # str_split c s"
  by (induction p) auto

lemma str_split_last: "c \<notin> set p \<Longrightarrow> str_split c p = [p]"
  by (induction p) auto

lemma str_split_head: "c \<notin> set p \<Longrightarrow> \<exists>ps. str_split c (p @ concat (map (\<lambda>q. c # q) qs)) = p # ps"
  by (cases qs) (auto simp: str_split_last str_split_sep)

lemma str_trim_id: "s = [] \<or> \<not> is_whitespace (hd s) \<and> \<not> is_whitespace (last s) \<Longrightarrow> str_trim s = s"
proof (cases s)
  case (Cons x t)
  assume "s = [] \<or> \<not> is_whitespace (hd s) \<and> \<not> is_whitespace (last s)"
  then have h: "\<not> is_whitespace (hd s)" and l: "\<not> is_whitespace (hd (rev s))"
    using Cons by (simp, metis hd_rev list.distinct(1) \<open>s = [] \<or> _\<close>)
  have "dropWhile is_whitespace xs = xs" if "xs \<noteq> []" "\<not> is_whitespace (hd xs)" for xs
    using that by (cases xs) auto
  with h l Cons have "dropWhile is_whitespace s = s" "dropWhile is_whitespace (rev s) = rev s"
    by auto
  then show ?thesis by (simp add: str_trim_def)
qed (simp add: str_trim_def)

lemma split_once_sep: "c \<notin> set p \<Longrightarrow> str_split_once c (p @ c # s) = Some (p, s)"
  by (induction p) (auto simp: str_split_once_def split: list.splits)

section \<open>Searching, lines and words\<close>

text \<open>\<open>find\<close> of a substring: the text before its first occurrence and the text behind it.\<close>

fun str_find :: "ustr \<Rightarrow> ustr \<Rightarrow> (ustr \<times> ustr) option" where
  "str_find p s = (case strip_prefix p s of Some r \<Rightarrow> Some ([], r)
     | None \<Rightarrow> (case s of [] \<Rightarrow> None | c # s' \<Rightarrow> map_option (\<lambda>(a, b). (c # a, b)) (str_find p s')))"

declare str_find.simps [simp del]

text \<open>
  \<open>lines\<close>: the pieces between line feeds, each without one carriage return before its line feed; what
  stands behind the last line feed is a line when it is not empty.
\<close>

definition chop_cr :: "ustr \<Rightarrow> ustr" where
  "chop_cr l = (if l \<noteq> [] \<and> last l = 13 then butlast l else l)"

fun lines_of :: "ustr list \<Rightarrow> ustr list" where
  "lines_of [] = []"
| "lines_of [l] = (if l = [] then [] else [l])"
| "lines_of (l # ls) = chop_cr l # lines_of ls"

definition str_lines :: "ustr \<Rightarrow> ustr list" where
  "str_lines s = lines_of (str_split 10 s)"

function split_whitespace :: "ustr \<Rightarrow> ustr list" where
  "split_whitespace s = (case dropWhile is_whitespace s of [] \<Rightarrow> []
     | c # r \<Rightarrow> (c # takeWhile (\<lambda>x. \<not> is_whitespace x) r) # split_whitespace (dropWhile (\<lambda>x. \<not> is_whitespace x) r))"
  by pat_completeness auto
termination
proof (relation "measure length")
  fix s c r assume "dropWhile is_whitespace s = c # r"
  then have "length (c # r) \<le> length s" by (metis length_dropWhile_le)
  moreover have "length (dropWhile (\<lambda>x. \<not> is_whitespace x) r) \<le> length r" by (rule length_dropWhile_le)
  ultimately show "(dropWhile (\<lambda>x. \<not> is_whitespace x) r, s) \<in> measure length" by simp
qed simp

declare split_whitespace.simps [simp del]

definition contains_str :: "ustr \<Rightarrow> ustr \<Rightarrow> bool" where
  "contains_str p s \<longleftrightarrow> str_find p s \<noteq> None"

section \<open>Letter case and decimal numbers\<close>

definition to_ascii_lowercase :: "ustr \<Rightarrow> ustr" where
  "to_ascii_lowercase s = map (\<lambda>c. if 65 \<le> c \<and> c \<le> 90 then c + 32 else c) s"

definition to_ascii_uppercase :: "ustr \<Rightarrow> ustr" where
  "to_ascii_uppercase s = map (\<lambda>c. if 97 \<le> c \<and> c \<le> 122 then c - 32 else c) s"

text \<open>
  \<open>parse::<uN>\<close>: an optional plus sign, at least one decimal digit, a value below the bound of the type.
\<close>

definition ustr_digit :: "nat \<Rightarrow> bool" where
  "ustr_digit c \<longleftrightarrow> 48 \<le> c \<and> c \<le> 57"

definition ustr_val :: "ustr \<Rightarrow> nat" where
  "ustr_val s = foldl (\<lambda>v c. 10 * v + (c - 48)) 0 s"

definition parse_uint :: "nat \<Rightarrow> ustr \<Rightarrow> nat option" where
  "parse_uint bound s =
     (let ds = (if s \<noteq> [] \<and> hd s = 43 then tl s else s) in
      if ds \<noteq> [] \<and> list_all ustr_digit ds \<and> ustr_val ds < bound then Some (ustr_val ds) else None)"

definition nat_str :: "nat \<Rightarrow> ustr" where
  "nat_str n = ustr_of (dec_str n)"

section \<open>UTF-8\<close>

definition scalar :: "nat \<Rightarrow> bool" where
  "scalar c \<longleftrightarrow> c < 0x110000 \<and> \<not> (0xD800 \<le> c \<and> c < 0xE000)"

lemma scalar_ascii [simp]: "c < 0x80 \<Longrightarrow> scalar c"
  by (simp add: scalar_def)

definition char_bytes :: "nat \<Rightarrow> bytes" where
  "char_bytes c =
     (if c < 0x80 then [of_nat c]
      else if c < 0x800 then [of_nat (0xC0 + c div 64), of_nat (0x80 + c mod 64)]
      else if c < 0x10000 then [of_nat (0xE0 + c div 4096), of_nat (0x80 + c div 64 mod 64), of_nat (0x80 + c mod 64)]
      else [of_nat (0xF0 + c div 262144), of_nat (0x80 + c div 4096 mod 64), of_nat (0x80 + c div 64 mod 64),
            of_nat (0x80 + c mod 64)])"

definition str_bytes :: "ustr \<Rightarrow> bytes" where
  "str_bytes s = concat (map char_bytes s)"

definition cont_byte :: "u8 \<Rightarrow> bool" where
  "cont_byte b \<longleftrightarrow> unat b div 64 = 2"

definition cont_val :: "u8 \<Rightarrow> nat" where
  "cont_val b = unat b mod 64"

text \<open>
  \<open>str::from_utf8\<close>: \<open>None\<close> for any byte sequence that is not well-formed UTF-8, a truncated character at
  the end included.
\<close>

fun from_utf8 :: "bytes \<Rightarrow> ustr option" where
  "from_utf8 [] = Some []"
| "from_utf8 (a # s) =
     (if unat a < 0x80 then map_option (\<lambda>t. unat a # t) (from_utf8 s)
      else if unat a < 0xE0 then
        (case s of
           b # s' \<Rightarrow>
             if 0xC2 \<le> unat a \<and> cont_byte b
             then map_option (\<lambda>t. ((unat a - 0xC0) * 64 + cont_val b) # t) (from_utf8 s') else None
         | _ \<Rightarrow> None)
      else if unat a < 0xF0 then
        (case s of
           b # c # s' \<Rightarrow>
             let v = (unat a - 0xE0) * 4096 + cont_val b * 64 + cont_val c in
             if cont_byte b \<and> cont_byte c \<and> 0x800 \<le> v \<and> scalar v
             then map_option (\<lambda>t. v # t) (from_utf8 s') else None
         | _ \<Rightarrow> None)
      else
        (case s of
           b # c # d # s' \<Rightarrow>
             let v = (unat a - 0xF0) * 262144 + cont_val b * 4096 + cont_val c * 64 + cont_val d in
             if unat a < 0xF8 \<and> cont_byte b \<and> cont_byte c \<and> cont_byte d \<and> 0x10000 \<le> v \<and> scalar v
             then map_option (\<lambda>t. v # t) (from_utf8 s') else None
         | _ \<Rightarrow> None))"

declare from_utf8.simps(2) [simp del]

section \<open>Lemmas: UTF-8\<close>

lemma byte_of_nat: "n < 256 \<Longrightarrow> unat (of_nat n :: u8) = n"
  by (rule unat_of_nat_id) simp

lemma shifted_mod: "(0x80 + m) mod 64 = m mod 64" "(0x80 + n mod 64) div 64 = 2" for m n :: nat
proof -
  have "(2 * 64 + m) mod 64 = m mod 64" by (rule mod_mult_self3)
  moreover have "(2 * 64 + n mod 64) div 64 = 2 + n mod 64 div 64" by (rule div_mult_self3) simp
  ultimately show "(0x80 + m) mod 64 = m mod 64" "(0x80 + n mod 64) div 64 = 2" by simp_all
qed

lemma cont_of_nat [simp]: "cont_byte (of_nat (0x80 + n mod 64))" "cont_val (of_nat (0x80 + n mod 64)) = n mod 64"
proof -
  have "unat (of_nat (0x80 + n mod 64) :: u8) = 0x80 + n mod 64"
    using mod_less_divisor [of 64 n] by (intro byte_of_nat) linarith
  then show "cont_byte (of_nat (0x80 + n mod 64))" "cont_val (of_nat (0x80 + n mod 64)) = n mod 64"
    unfolding cont_byte_def cont_val_def by (simp_all only: shifted_mod) simp_all
qed

lemma base64_split3: "n div 4096 * 4096 + n div 64 mod 64 * 64 + n mod 64 = (n :: nat)"
proof -
  have "n div 64 div 64 = n div 4096" by (simp add: div_mult2_eq [symmetric])
  then show ?thesis using div_mult_mod_eq [of n 64] div_mult_mod_eq [of "n div 64" 64] by linarith
qed

lemma base64_split4: "n div 262144 * 262144 + n div 4096 mod 64 * 4096 + n div 64 mod 64 * 64 + n mod 64 = (n :: nat)"
proof -
  have "n div 4096 div 64 = n div 262144" by (simp add: div_mult2_eq [symmetric])
  then show ?thesis using div_mult_mod_eq [of "n div 4096" 64] base64_split3 [of n] by linarith
qed

lemma from_utf8_char:
  assumes "scalar c"
  shows "from_utf8 (char_bytes c @ s) = map_option (\<lambda>t. c # t) (from_utf8 s)"
proof -
  have c: "c < 0x110000" using assms by (simp add: scalar_def)
  consider "c < 0x80" | "0x80 \<le> c \<and> c < 0x800" | "0x800 \<le> c \<and> c < 0x10000" | "0x10000 \<le> c" by linarith
  then show ?thesis
  proof cases
    case 1
    then show ?thesis by (simp add: char_bytes_def from_utf8.simps(2) byte_of_nat)
  next
    case 2
    then have u: "unat (of_nat (0xC0 + c div 64) :: u8) = 0xC0 + c div 64"
      by (intro byte_of_nat) (use div_le_mono [of c "0x7FF" 64] in simp)
    have r: "c div 64 < 32" "2 \<le> c div 64" using 2 by (simp_all add: div_less_iff_less_mult less_eq_div_iff_mult_less_eq)
    moreover have "c div 64 * 64 + c mod 64 = c" by simp
    moreover have "\<not> 0xC0 + c div 64 < 0x80" "0xC0 + c div 64 < 0xE0" "0xC2 \<le> 0xC0 + c div 64"
      using r by linarith+
    ultimately show ?thesis using 2
      by (simp only: char_bytes_def from_utf8.simps(2) u if_False if_True not_less [symmetric] append_Cons
          append_Nil list.case cont_of_nat simp_thms add_diff_cancel_left')
  next
    case 3
    then have d: "c div 4096 < 16" by (simp add: div_less_iff_less_mult)
    then have u: "unat (of_nat (0xE0 + c div 4096) :: u8) = 0xE0 + c div 4096"
      by (intro byte_of_nat) simp
    have "c div 4096 * 4096 + c div 64 mod 64 * 64 + c mod 64 = c" by (rule base64_split3)
    then show ?thesis using 3 assms d
      by (simp add: char_bytes_def from_utf8.simps(2) u Let_def del: of_nat_add)
  next
    case 4
    then have d: "c div 262144 < 5" using c by (simp add: div_less_iff_less_mult)
    then have u: "unat (of_nat (0xF0 + c div 262144) :: u8) = 0xF0 + c div 262144"
      by (intro byte_of_nat) simp
    have "c div 262144 * 262144 + c div 4096 mod 64 * 4096 + c div 64 mod 64 * 64 + c mod 64 = c"
      by (rule base64_split4)
    then show ?thesis using 4 assms d
      by (simp add: char_bytes_def from_utf8.simps(2) u Let_def del: of_nat_add)
  qed
qed

lemma from_utf8_str: "list_all scalar t \<Longrightarrow> from_utf8 (str_bytes t @ s) = map_option (\<lambda>u. t @ u) (from_utf8 s)"
proof (induction t)
  case Nil
  have "(\<lambda>u. [] @ u) = (\<lambda>u. u :: ustr)" by simp
  then show ?case by (simp only: str_bytes_def list.map concat.simps append_Nil option.map_ident)
next
  case (Cons c t)
  have "(\<lambda>u. (c # t) @ u) = (\<lambda>u. c # t @ u)" by simp
  then show ?case using Cons by (simp add: str_bytes_def from_utf8_char option.map_comp comp_def)
qed

lemma from_utf8_str_bytes: "list_all scalar t \<Longrightarrow> from_utf8 (str_bytes t) = Some t"
  using from_utf8_str [of t "[]"] by simp

lemma length_char_bytes [simp]: "length (char_bytes c) = utf8_width c"
  by (simp add: char_bytes_def utf8_width_def)

lemma length_str_bytes [simp]: "length (str_bytes s) = str_len s"
  by (induction s) (simp_all add: str_bytes_def str_len_def)

lemma str_bytes_append [simp]: "str_bytes (s @ t) = str_bytes s @ str_bytes t"
  by (simp add: str_bytes_def)

lemma str_len_append [simp]: "str_len (s @ t) = str_len s + str_len t"
  by (simp add: str_len_def)

lemma str_len_simps [simp]: "str_len [] = 0" "str_len (c # s) = utf8_width c + str_len s"
  by (simp_all add: str_len_def)

lemma cont_val_less: "cont_val b < 64"
  by (simp add: cont_val_def)

lemma from_utf8_len: "from_utf8 bs = Some t \<Longrightarrow> str_len t = length bs"
proof (induction bs arbitrary: t rule: from_utf8.induct)
  case (2 a s)
  note cont = cont_val_less
  consider "unat a < 0x80" | "0x80 \<le> unat a \<and> unat a < 0xE0" | "0xE0 \<le> unat a \<and> unat a < 0xF0" | "0xF0 \<le> unat a"
    by linarith
  then show ?case
  proof cases
    case 1
    then show ?thesis using 2 by (auto simp: from_utf8.simps(2) utf8_width_def)
  next
    case c: 2
    then obtain b s' t' where "s = b # s'" "0xC2 \<le> unat a" "cont_byte b" "from_utf8 s' = Some t'"
      "t = ((unat a - 0xC0) * 64 + cont_val b) # t'"
      using "2.prems" by (auto simp: from_utf8.simps(2) split: list.splits if_splits)
    moreover from this have "0x80 \<le> (unat a - 0xC0) * 64 + cont_val b" "(unat a - 0xC0) * 64 + cont_val b < 0x800"
      using c cont [of b] by linarith+
    ultimately show ?thesis using "2.IH"(2) c by (simp add: utf8_width_def)
  next
    case c: 3
    then obtain b b' s' t' where *: "s = b # b' # s'" "cont_byte b" "cont_byte b'" "from_utf8 s' = Some t'"
      "0x800 \<le> (unat a - 0xE0) * 4096 + cont_val b * 64 + cont_val b'"
      "t = ((unat a - 0xE0) * 4096 + cont_val b * 64 + cont_val b') # t'"
      "scalar ((unat a - 0xE0) * 4096 + cont_val b * 64 + cont_val b')"
      using "2.prems" by (auto simp: from_utf8.simps(2) Let_def split: list.splits if_splits)
    have "(unat a - 0xE0) * 4096 + cont_val b * 64 + cont_val b' < 0x10000" using c cont [of b] cont [of b'] by linarith
    then show ?thesis using "2.IH"(3) c * by (simp add: utf8_width_def)
  next
    case c: 4
    then obtain b b' b'' s' t' v where *: "s = b # b' # b'' # s'" "cont_byte b" "cont_byte b'" "cont_byte b''"
      "from_utf8 s' = Some t'" "v = (unat a - 0xF0) * 262144 + cont_val b * 4096 + cont_val b' * 64 + cont_val b''"
      "0x10000 \<le> v" "scalar v" "t = v # t'" "unat a < 0xF8"
      using "2.prems" by (auto simp: from_utf8.simps(2) Let_def split: list.splits if_splits)
    then show ?thesis using "2.IH"(4) c by (simp add: utf8_width_def)
  qed
qed simp

lemma from_utf8_append:
  "from_utf8 p = Some t \<Longrightarrow> from_utf8 (p @ x) = map_option (\<lambda>u. t @ u) (from_utf8 x)"
proof (induction p arbitrary: t rule: from_utf8.induct)
  case 1
  then show ?case by (simp add: append_Nil [abs_def] option.map_ident)
next
  case (2 a s)
  have comb: "map_option (\<lambda>t. c # t) (map_option (\<lambda>u. t' @ u) y) = map_option (\<lambda>u. (c # t') @ u) y" for c t' y
    by (cases y) auto
  consider "unat a < 0x80" | "0x80 \<le> unat a \<and> unat a < 0xE0" | "0xE0 \<le> unat a \<and> unat a < 0xF0" | "0xF0 \<le> unat a"
    by linarith
  then show ?case
  proof cases
    case c: 1
    then obtain t' where "from_utf8 s = Some t'" "t = unat a # t'"
      using "2.prems" by (auto simp: from_utf8.simps(2))
    then show ?thesis using "2.IH"(1) c by (simp add: from_utf8.simps(2) comb)
  next
    case c: 2
    then obtain b s' t' where "s = b # s'" "0xC2 \<le> unat a" "cont_byte b" "from_utf8 s' = Some t'"
      "t = ((unat a - 0xC0) * 64 + cont_val b) # t'"
      using "2.prems" by (auto simp: from_utf8.simps(2) split: list.splits if_splits)
    then show ?thesis using "2.IH"(2) c by (simp add: from_utf8.simps(2) comb)
  next
    case c: 3
    then obtain b b' s' t' v where "s = b # b' # s'" "cont_byte b" "cont_byte b'" "from_utf8 s' = Some t'"
      "v = (unat a - 0xE0) * 4096 + cont_val b * 64 + cont_val b'" "0x800 \<le> v" "scalar v" "t = v # t'"
      using "2.prems" by (auto simp: from_utf8.simps(2) Let_def split: list.splits if_splits)
    then show ?thesis using "2.IH"(3) c by (simp add: from_utf8.simps(2) comb)
  next
    case c: 4
    then obtain b b' b'' s' t' v where "s = b # b' # b'' # s'" "cont_byte b" "cont_byte b'" "cont_byte b''"
      "from_utf8 s' = Some t'" "v = (unat a - 0xF0) * 262144 + cont_val b * 4096 + cont_val b' * 64 + cont_val b''"
      "0x10000 \<le> v" "scalar v" "t = v # t'" "unat a < 0xF8"
      using "2.prems" by (auto simp: from_utf8.simps(2) Let_def split: list.splits if_splits)
    then show ?thesis using "2.IH"(4) c by (simp add: from_utf8.simps(2) comb)
  qed
qed

section \<open>Lemmas: searching and splitting\<close>

lemma strip_prefix_append [simp]: "strip_prefix p (p @ s) = Some s"
  by (induction p) auto

lemma strip_prefix_Some: "strip_prefix p s = Some r \<longleftrightarrow> s = p @ r"
  by (induction p s rule: strip_prefix.induct) auto

lemma str_find_Some: "str_find p s = Some (a, b) \<Longrightarrow> s = a @ p @ b"
proof (induction s arbitrary: a)
  case Nil
  then show ?case by (subst (asm) str_find.simps) (auto simp: strip_prefix_Some split: option.splits)
next
  case (Cons c s)
  then show ?case by (subst (asm) (2) str_find.simps) (auto simp: strip_prefix_Some split: option.splits)
qed

lemma str_find_prefix: "strip_prefix p s = Some r \<Longrightarrow> str_find p s = Some ([], r)"
  by (subst str_find.simps) simp

lemma str_find_skip: "strip_prefix p (c # s) = None \<Longrightarrow> str_find p (c # s) = map_option (\<lambda>(a, b). (c # a, b)) (str_find p s)"
  by (subst str_find.simps) simp

lemma str_find_first:
  assumes "hd p \<notin> set a" and "p \<noteq> []"
  shows "str_find p (a @ s) = map_option (\<lambda>(x, b). (a @ x, b)) (str_find p s)"
  using assms(1)
proof (induction a)
  case (Cons c a)
  have "strip_prefix p ((c # a) @ s) = None" using Cons.prems assms(2) by (cases p) auto
  then have "str_find p ((c # a) @ s) = map_option (\<lambda>(x, b). (c # x, b)) (str_find p (a @ s))"
    by (simp add: str_find_skip)
  then show ?case using Cons by (cases "str_find p s") auto
qed (cases "str_find p s", auto)

lemma dropWhile_not: "list_all (\<lambda>x. \<not> P x) xs \<Longrightarrow> dropWhile P (xs @ ys) = (if xs = [] then dropWhile P ys else xs @ ys)"
  by (cases xs) auto

lemma split_whitespace_word:
  assumes "w \<noteq> []" and "list_all (\<lambda>x. \<not> is_whitespace x) w" and "is_whitespace c"
  shows "split_whitespace (w @ c # s) = w # split_whitespace s"
proof -
  obtain x w' where w: "w = x # w'" using assms(1) by (cases w) auto
  have t: "takeWhile (\<lambda>x. \<not> is_whitespace x) (w' @ c # s) = w'" "dropWhile (\<lambda>x. \<not> is_whitespace x) (w' @ c # s) = c # s"
    using assms(2,3) w by (simp_all add: list_all_iff takeWhile_append2)
  have "split_whitespace (c # s) = split_whitespace s"
    using assms(3) by (subst (1 2) split_whitespace.simps) simp
  moreover have "dropWhile is_whitespace (w @ c # s) = x # w' @ c # s" using assms(2) w by simp
  ultimately show ?thesis using w t by (subst split_whitespace.simps) simp
qed

lemma split_whitespace_last:
  assumes "w \<noteq> []" and "list_all (\<lambda>x. \<not> is_whitespace x) w"
  shows "split_whitespace w = [w]"
proof -
  obtain x w' where w: "w = x # w'" using assms(1) by (cases w) auto
  have t: "takeWhile (\<lambda>x. \<not> is_whitespace x) w' = w'" "dropWhile (\<lambda>x. \<not> is_whitespace x) w' = []"
    using assms(2) w by (simp_all add: list_all_iff takeWhile_eq_all_conv)
  have "split_whitespace [] = []" by (subst split_whitespace.simps) simp
  moreover have "dropWhile is_whitespace w = x # w'" using assms(2) w by simp
  ultimately show ?thesis using w by (subst split_whitespace.simps) (simp only: list.case t)
qed

text \<open>The text of a list of lines as the protocols write it.\<close>

definition crlf_lines :: "ustr list \<Rightarrow> ustr" where
  "crlf_lines ls = concat (map (\<lambda>l. l @ [13, 10]) ls)"

definition plain_line :: "ustr \<Rightarrow> bool" where
  "plain_line l \<longleftrightarrow> l \<noteq> [] \<and> 10 \<notin> set l \<and> 13 \<notin> set l"

lemma plain_lineD: "plain_line l \<Longrightarrow> l \<noteq> [] \<and> 10 \<notin> set l \<and> 13 \<notin> set l"
  by (simp add: plain_line_def)

lemma crlf_lines_simps [simp]: "crlf_lines [] = []" "crlf_lines (l # ls) = l @ 13 # 10 # crlf_lines ls"
  by (simp_all add: crlf_lines_def)

lemma str_split_crlf:
  assumes "list_all plain_line ls" and "plain_line l"
  shows "str_split 10 (crlf_lines ls @ l) = map (\<lambda>x. x @ [13]) ls @ [l]"
  using assms(1)
proof (induction ls)
  case Nil
  then show ?case using assms(2) by (simp add: str_split_last plain_line_def)
next
  case (Cons x xs)
  have "str_split 10 ((x @ [13]) @ 10 # (crlf_lines xs @ l)) = (x @ [13]) # str_split 10 (crlf_lines xs @ l)"
    using Cons.prems by (intro str_split_sep) (simp add: plain_line_def)
  then show ?case using Cons by simp
qed

lemma str_lines_crlf:
  assumes "list_all plain_line ls" and "plain_line l"
  shows "str_lines (crlf_lines ls @ l) = ls @ [l]"
proof -
  have "lines_of (map (\<lambda>x. x @ [13]) ls @ [l]) = ls @ [l]"
  proof (induction ls)
    case Nil
    then show ?case using assms(2) by (simp add: plain_line_def)
  next
    case (Cons x xs)
    obtain y ys where "map (\<lambda>x. x @ [13]) xs @ [l] = y # ys" by (cases "map (\<lambda>x. x @ [13]) xs @ [l]") auto
    then have "lines_of (map (\<lambda>x. x @ [13]) (x # xs) @ [l]) = chop_cr (x @ [13]) # lines_of (map (\<lambda>x. x @ [13]) xs @ [l])"
      by simp
    then show ?case using Cons by (simp add: chop_cr_def)
  qed
  then show ?thesis by (simp add: str_lines_def str_split_crlf [OF assms])
qed

text \<open>The blank line behind a block of lines is found at its end.\<close>

lemma str_find_blank_line:
  assumes "list_all plain_line ls" and "plain_line l"
  shows "str_find [13, 10, 13, 10] (crlf_lines ls @ l @ 13 # 10 # 13 # 10 # s) = Some (crlf_lines ls @ l, s)"
  using assms(1)
proof (induction ls)
  case Nil
  have "str_find [13, 10, 13, 10] (13 # 10 # 13 # 10 # s) = Some ([], s)"
    by (rule str_find_prefix) simp
  then show ?case using assms(2) str_find_first [of "[13, 10, 13, 10]" l "13 # 10 # 13 # 10 # s"]
    by (simp add: plain_line_def)
next
  case (Cons x xs)
  let ?r = "crlf_lines xs @ l @ 13 # 10 # 13 # 10 # s"
  have "hd ?r \<noteq> 13"
    using Cons.prems assms(2) by (cases xs; cases "hd xs"; cases l) (auto simp: plain_line_def)
  then have "strip_prefix [13, 10, 13, 10] (13 # 10 # ?r) = None" by (cases ?r) auto
  then have "str_find [13, 10, 13, 10] (13 # 10 # ?r) = Some (13 # 10 # crlf_lines xs @ l, s)"
    using Cons by (simp add: str_find_skip)
  then show ?case using Cons.prems str_find_first [of "[13, 10, 13, 10]" x "13 # 10 # ?r"]
    by (simp add: plain_line_def)
qed

section \<open>Lemmas: numbers, case and trimming\<close>

lemma not_whitespaceD: "\<not> is_whitespace c \<Longrightarrow> c \<noteq> 10 \<and> c \<noteq> 13 \<and> c \<noteq> 32"
  by (auto simp: is_whitespace_def)

lemma nat_str_digits: "list_all ustr_digit (nat_str n)"
  using dec_str_digits [of n]
  by (simp add: nat_str_def ustr_of_def list_all_iff ustr_digit_def is_digit_def)

lemma nat_str_no: "\<not> ustr_digit c \<Longrightarrow> c \<notin> set (nat_str n)"
  using nat_str_digits [of n] by (auto simp: list_all_iff)

lemma nat_str_nonempty [simp]: "nat_str n \<noteq> []"
  by (simp add: nat_str_def ustr_of_def)

lemma ustr_val_nat_str [simp]: "ustr_val (nat_str n) = n"
proof -
  have "foldl (\<lambda>v c. 10 * v + (c - 48)) a (map of_char s) = foldl (\<lambda>v c. 10 * v + char_digit c) a s" for a s
    by (induction s arbitrary: a) (simp_all add: char_digit_def)
  then have "ustr_val (nat_str n) = dec_val (dec_str n)"
    by (simp add: ustr_val_def nat_str_def ustr_of_def dec_val_def)
  then show ?thesis by simp
qed

lemma parse_uint_nat_str: "parse_uint bound (nat_str n) = (if n < bound then Some n else None)"
proof -
  obtain c s where s: "nat_str n = c # s" by (cases "nat_str n") auto
  then have "c \<noteq> 43" using nat_str_digits [of n] by (auto simp: ustr_digit_def)
  then show ?thesis using s nat_str_digits [of n] ustr_val_nat_str [of n] by (simp add: parse_uint_def)
qed

lemma parse_uint_bound: "parse_uint bound s = Some n \<Longrightarrow> n < bound"
  by (auto simp: parse_uint_def Let_def split: if_splits)

lemma ustr_digit_plain: "ustr_digit c \<Longrightarrow> \<not> is_whitespace c \<and> c < 0x80 \<and> c \<noteq> 10 \<and> c \<noteq> 13 \<and> c \<noteq> 58 \<and> c \<noteq> 59"
  by (auto simp: ustr_digit_def is_whitespace_def)

lemma to_ascii_lowercase_idem [simp]: "to_ascii_lowercase (to_ascii_lowercase s) = to_ascii_lowercase s"
  by (simp add: to_ascii_lowercase_def comp_def)

definition trimmed :: "ustr \<Rightarrow> bool" where
  "trimmed s \<longleftrightarrow> s = [] \<or> \<not> is_whitespace (hd s) \<and> \<not> is_whitespace (last s)"

lemma str_trim_trimmed [simp]: "trimmed s \<Longrightarrow> str_trim s = s"
  unfolding trimmed_def by (rule str_trim_id)

lemma str_trim_space: "trimmed s \<Longrightarrow> str_trim (32 # s) = s"
  using str_trim_id [of s] by (simp add: trimmed_def str_trim_def is_whitespace_def)

lemma trimmed_no_space: "list_all (\<lambda>c. \<not> is_whitespace c) s \<Longrightarrow> trimmed s"
  by (cases "s = []") (auto simp: trimmed_def list_all_iff)

lemma trimmed_nat_str [simp]: "trimmed (nat_str n)"
  using nat_str_digits [of n] ustr_digit_plain by (intro trimmed_no_space) (auto simp: list_all_iff)

lemma trimmed_str_trim: "trimmed (str_trim s)"
proof -
  let ?d = "dropWhile is_whitespace s"
  let ?t = "dropWhile is_whitespace (rev ?d)"
  have l: "?t = [] \<or> \<not> is_whitespace (hd ?t)" using hd_dropWhile by blast
  show ?thesis
  proof (cases "?t = []")
    case False
    obtain us where us: "rev ?d = us @ ?t" by (metis takeWhile_dropWhile_id)
    then have "?d = rev ?t @ rev us" by (metis rev_append rev_rev_ident)
    moreover have "?d \<noteq> []" using False by (metis dropWhile.simps(1) rev.simps(1))
    ultimately have "hd (rev ?t) = hd ?d"
      using False hd_append2 [of "rev ?t" "rev us"] by (metis rev_is_Nil_conv)
    moreover have "\<not> is_whitespace (hd ?d)" using \<open>?d \<noteq> []\<close> hd_dropWhile by blast
    ultimately show ?thesis using l False by (simp add: trimmed_def str_trim_def last_rev)
  qed (simp add: trimmed_def str_trim_def)
qed

lemma str_split_crlf_end: "list_all plain_line ls \<Longrightarrow> str_split 10 (crlf_lines ls) = map (\<lambda>x. x @ [13]) ls @ [[]]"
proof (induction ls)
  case (Cons x xs)
  have "str_split 10 ((x @ [13]) @ 10 # crlf_lines xs) = (x @ [13]) # str_split 10 (crlf_lines xs)"
    using Cons.prems by (intro str_split_sep) (simp add: plain_line_def)
  then show ?case using Cons by simp
qed simp

lemma lines_of_terminated: "lines_of (map (\<lambda>x. x @ [13]) ls @ [[]]) = ls"
proof (induction ls)
  case (Cons x xs)
  obtain y ys where "map (\<lambda>x. x @ [13]) xs @ [[]] = y # ys" by (cases "map (\<lambda>x. x @ [13]) xs @ [[] :: ustr]") auto
  then have "lines_of (map (\<lambda>x. x @ [13]) (x # xs) @ [[]]) = chop_cr (x @ [13]) # lines_of (map (\<lambda>x. x @ [13]) xs @ [[]])"
    by simp
  then show ?case using Cons by (simp add: chop_cr_def)
qed simp

lemma str_lines_crlf_end: "list_all plain_line ls \<Longrightarrow> str_lines (crlf_lines ls) = ls"
  by (simp add: str_lines_def str_split_crlf_end lines_of_terminated)

end
