(* ===== verification/RtpAudio.thy ===== *)
theory RtpAudio
  imports RtpVideo Ustr
begin

text \<open>
  The audio payload formats of \<open>lvqr-rtsp/src/rtp.rs\<close>: AAC-hbr after RFC 3640 and Opus after RFC 7587,
  both directions, and the reader of the hexadecimal AudioSpecificConfig of an fmtp line, which
  slices a string by byte offsets (\<open>Ustr\<close>).
\<close>

text \<open>
  \<open>u8::from_str_radix(s, 16)\<close> on the strings of two bytes it is called with: a leading \<open>+\<close> is
  accepted, a leading \<open>-\<close> is not for an unsigned type, and two hexadecimal digits fit a byte.
\<close>

definition hex_digit :: "nat \<Rightarrow> nat option" where
  "hex_digit c = (if 48 \<le> c \<and> c \<le> 57 then Some (c - 48)
     else if 65 \<le> c \<and> c \<le> 70 then Some (c - 55)
     else if 97 \<le> c \<and> c \<le> 102 then Some (c - 87) else None)"

fun hex_digits :: "nat \<Rightarrow> ustr \<Rightarrow> nat option" where
  "hex_digits acc [] = Some acc"
| "hex_digits acc (c # s) = (case hex_digit c of None \<Rightarrow> None
     | Some d \<Rightarrow> if 16 * acc + d < 256 then hex_digits (16 * acc + d) s else None)"

definition u8_from_hex :: "ustr \<Rightarrow> u8 option" where
  "u8_from_hex s = (case s of [] \<Rightarrow> None
     | [c] \<Rightarrow> if c = 43 \<or> c = 45 then None else map_option of_nat (hex_digits 0 [c])
     | c # s' \<Rightarrow> map_option of_nat (hex_digits 0 (if c = 43 then s' else c # s')))"

section \<open>The fmtp configuration\<close>

text \<open>The \<open>for i in (0..hex.len()).step_by(2)\<close> loop over an even number of bytes.\<close>

function hex_bytes_from :: "ustr \<Rightarrow> nat \<Rightarrow> bytes \<Rightarrow> (bytes option, unit) outcome" where
  "hex_bytes_from hex i bs =
     (if i < str_len hex then
        obind (str_slice hex i (i + 2)) (\<lambda>digits.
          case u8_from_hex digits of None \<Rightarrow> Ok None
          | Some byte \<Rightarrow> hex_bytes_from hex (i + 2) (bs @ [byte]))
      else Ok (Some bs))"
  by pat_completeness auto
termination by (relation "measure (\<lambda>(hex, i, bs). str_len hex - i)") auto

declare hex_bytes_from.simps [simp del]

fun config_from_params :: "ustr list \<Rightarrow> (bytes option, unit) outcome" where
  "config_from_params [] = Ok None"
| "config_from_params (param # params) =
     (case strip_prefix (ustr_of ''config='') (str_trim param) of
        Some hex \<Rightarrow>
          (let hex = str_trim hex in
           if str_len hex mod 2 \<noteq> 0 then Ok None else hex_bytes_from hex 0 [])
      | None \<Rightarrow> config_from_params params)"

definition parse_aac_config_from_fmtp :: "ustr \<Rightarrow> (bytes option, unit) outcome" where
  "parse_aac_config_from_fmtp fmtp =
     (let params = (case str_split_once 32 fmtp of Some (_, rest) \<Rightarrow> rest | None \<Rightarrow> fmtp) in
      config_from_params (str_split 59 params))"

section \<open>AAC\<close>

record aac_depack_result =
  ar_frames :: "bytes list"
  ar_timestamp :: u32
  ar_marker :: bool

text \<open>The loop \<open>for i in 0..au_header_count\<close>.\<close>

fun au_sizes_from :: "bytes \<Rightarrow> nat list \<Rightarrow> (nat list, unit) outcome" where
  "au_sizes_from rtp_payload [] = Ok []"
| "au_sizes_from rtp_payload (i # js) =
     (let off = 2 + i * 2 in
      obind (idx rtp_payload off) (\<lambda>a. obind (idx rtp_payload (off + 1)) (\<lambda>b.
        obind (au_sizes_from rtp_payload js) (\<lambda>sizes. Ok (unat (drop_bit 3 (be16 a b)) # sizes)))))"

fun au_frames :: "bytes \<Rightarrow> nat \<Rightarrow> nat list \<Rightarrow> (bytes list, unit) outcome" where
  "au_frames rtp_payload data_offset [] = Ok []"
| "au_frames rtp_payload data_offset (au_size # sizes) =
     (if data_offset + au_size > length rtp_payload then Ok []
      else obind (slice rtp_payload data_offset (data_offset + au_size)) (\<lambda>frame.
        obind (au_frames rtp_payload (data_offset + au_size) sizes) (\<lambda>frames. Ok (frame # frames))))"

definition aac_depacketize :: "bytes \<Rightarrow> rtp_header \<Rightarrow> (aac_depack_result option, unit) outcome" where
  "aac_depacketize rtp_payload header =
     (if length rtp_payload < 2 then Ok None
      else obind (idx rtp_payload 0) (\<lambda>b0. obind (idx rtp_payload 1) (\<lambda>b1.
        let au_headers_length_bits = unat (be16 b0 b1);
            au_header_count = au_headers_length_bits div 16 in
        if au_header_count = 0 then Ok None
        else
          let headers_end = 2 + au_header_count * 2 in
          if headers_end > length rtp_payload then Ok None
          else obind (au_sizes_from rtp_payload [0..<au_header_count]) (\<lambda>au_sizes.
            obind (au_frames rtp_payload headers_end au_sizes) (\<lambda>frames.
              if frames = [] then Ok None
              else Ok (Some \<lparr>ar_frames = frames, ar_timestamp = rh_timestamp header,
                             ar_marker = rh_marker header\<rparr>))))))"

definition audio_packetizer_new :: "u32 \<Rightarrow> u8 \<Rightarrow> u16 \<Rightarrow> packetizer" where
  "audio_packetizer_new ssrc pt initial_sequence =
     \<lparr>pk_ssrc = ssrc, pk_payload_type = pt, pk_sequence = initial_sequence\<rparr>"

text \<open>The assertion on the 13-bit size field is the panic.\<close>

definition aac_packetize :: "bytes \<Rightarrow> u32 \<Rightarrow> packetizer \<Rightarrow> (bytes \<times> packetizer, unit) outcome" where
  "aac_packetize frame timestamp pk =
     (if length frame \<le> 0x1FFF then
        (let au_header = push_bit 3 (of_nat (length frame) :: u16);
             body = be16_bytes 16 @ be16_bytes au_header @ frame in
         Ok (write_rtp_header (pk_payload_type pk) (pk_sequence pk) timestamp (pk_ssrc pk) True @ body,
             pk\<lparr>pk_sequence := pk_sequence pk + 1\<rparr>))
      else Panic)"

section \<open>Opus\<close>

record opus_depack_result =
  or_frame :: bytes
  or_timestamp :: u32
  or_marker :: bool

definition opus_packetize :: "bytes \<Rightarrow> u32 \<Rightarrow> packetizer \<Rightarrow> bytes \<times> packetizer" where
  "opus_packetize frame timestamp pk =
     (write_rtp_header (pk_payload_type pk) (pk_sequence pk) timestamp (pk_ssrc pk) True @ frame,
      pk\<lparr>pk_sequence := pk_sequence pk + 1\<rparr>)"

definition opus_depacketize :: "bytes \<Rightarrow> rtp_header \<Rightarrow> opus_depack_result option" where
  "opus_depacketize rtp_payload header =
     (if rtp_payload = [] then None
      else Some \<lparr>or_frame = rtp_payload, or_timestamp = rh_timestamp header, or_marker = rh_marker header\<rparr>)"

section \<open>Lemmas: the fmtp reader\<close>

lemma hex_bytes_ascii:
  assumes "ascii hex" and "even (length hex)" and "even i"
  shows "returns (hex_bytes_from hex i bs)"
  using assms
proof (induction hex i bs rule: hex_bytes_from.induct)
  case (1 hex i bs)
  show ?case
  proof (cases "i < length hex")
    case True
    then have "i + 2 \<le> length hex" using "1.prems" by presburger
    then have s: "str_slice hex i (i + 2) = Ok (take 2 (drop i hex))"
      using ascii_slice [of hex i "i + 2"] "1.prems" by simp
    have l: "i < str_len hex" using True "1.prems" by (simp add: ascii_len)
    show ?thesis
      using "1.IH" [OF l s] "1.prems"
      by (subst hex_bytes_from.simps) (auto simp: l s simp del: add_2_eq_Suc' split: option.split)
  qed (use "1.prems" in \<open>simp add: hex_bytes_from.simps [of hex i bs] ascii_len\<close>)
qed

lemma config_from_params_ascii: "list_all ascii ps \<Longrightarrow> returns (config_from_params ps)"
proof (induction ps)
  case (Cons p ps)
  show ?case
  proof (cases "strip_prefix (ustr_of ''config='') (str_trim p)")
    case (Some hex)
    have "set (str_trim hex) \<subseteq> set p"
      using set_str_trim [of hex] set_str_trim [of p] set_strip_prefix [OF Some] by blast
    then have a: "ascii (str_trim hex)" using Cons.prems ascii_subset by auto
    have "returns (hex_bytes_from (str_trim hex) 0 [])" if "even (str_len (str_trim hex))"
      using that ascii_len [OF a] by (intro hex_bytes_ascii a) simp_all
    then show ?thesis using Some by (auto simp: Let_def)
  qed (use Cons in auto)
qed simp

lemma parse_aac_config_ascii: "ascii fmtp \<Longrightarrow> returns (parse_aac_config_from_fmtp fmtp)"
  unfolding parse_aac_config_from_fmtp_def Let_def
  by (intro config_from_params_ascii)
    (auto simp: list_all_iff split: option.split
      intro: ascii_subset [OF set_str_split] ascii_subset [OF set_str_split_once])

text \<open>A configuration as an SDP writes it.\<close>

definition hex_char :: "nat \<Rightarrow> nat" where
  "hex_char d = (if d < 10 then 48 + d else 87 + d)"

definition hex_str :: "bytes \<Rightarrow> ustr" where
  "hex_str bs = concat (map (\<lambda>b. [hex_char (unat b div 16), hex_char (unat b mod 16)]) bs)"

definition fmtp_line :: "ustr \<Rightarrow> ustr list \<Rightarrow> bytes \<Rightarrow> ustr list \<Rightarrow> ustr" where
  "fmtp_line pt before bs after = pt @ 32 # concat (map (\<lambda>p. p @ [59]) before) @
     (ustr_of ''config='' @ hex_str bs) @ concat (map (\<lambda>p. 59 # p) after)"

definition fmtp_ok :: "ustr \<Rightarrow> ustr list \<Rightarrow> ustr list \<Rightarrow> bool" where
  "fmtp_ok pt before after \<longleftrightarrow> 32 \<notin> set pt \<and>
     list_all (\<lambda>p. 59 \<notin> set p \<and> strip_prefix (ustr_of ''config='') (str_trim p) = None) before \<and>
     list_all (\<lambda>p. 59 \<notin> set p) after"

lemma hex_char_range: "d < 16 \<Longrightarrow> hex_char d \<noteq> 59 \<and> hex_char d \<noteq> 43 \<and> hex_char d < 0x80 \<and> \<not> is_whitespace (hex_char d)"
  by (auto simp: hex_char_def is_whitespace_def)

lemma hex_digit_char: "d < 16 \<Longrightarrow> hex_digit (hex_char d) = Some d"
  by (auto simp: hex_char_def hex_digit_def)

lemma u8_of_hex: "u8_from_hex [hex_char (unat b div 16), hex_char (unat b mod 16)] = Some b" for b :: u8
proof -
  have "unat b div 16 < 16" using unsigned_less [of b, where 'a = nat] by auto
  moreover have "16 * (unat b div 16) + unat b mod 16 < 256"
    using unsigned_less [of b, where 'a = nat] by simp
  moreover have "16 * (unat b div 16) + unat b mod 16 = unat b" by simp
  ultimately show ?thesis
    by (simp add: u8_from_hex_def hex_digit_char hex_char_range)
qed

lemma length_hex_str [simp]: "length (hex_str bs) = 2 * length bs"
  by (induction bs) (auto simp: hex_str_def)

lemma hex_str_chars: "c \<in> set (hex_str bs) \<Longrightarrow> c \<noteq> 59 \<and> c < 0x80 \<and> \<not> is_whitespace c"
proof -
  have "unat b div 16 < 16" for b :: u8 using unsigned_less [of b, where 'a = nat] by auto
  then show "c \<in> set (hex_str bs) \<Longrightarrow> c \<noteq> 59 \<and> c < 0x80 \<and> \<not> is_whitespace c"
    using hex_char_range by (auto simp: hex_str_def)
qed

lemma hex_bytes_of_pairs:
  assumes pair: "\<And>b. length (h b) = 2 \<and> ascii (h b) \<and> u8_from_hex (h b) = Some b"
  shows "hex_bytes_from (concat (map h (xs @ ys))) (2 * length xs) acc = Ok (Some (acc @ ys))"
proof (induction ys arbitrary: xs acc)
  case Nil
  have "ascii (concat (map h xs))" using pair by (auto simp: ascii_def list_all_iff)
  moreover have "length (concat (map h xs)) = 2 * length xs" using pair by (induction xs) auto
  ultimately show ?case by (simp add: hex_bytes_from.simps [of "concat (map h xs)"] ascii_len)
next
  case (Cons y ys)
  let ?h = "concat (map h (xs @ y # ys))"
  have a: "ascii ?h" using pair by (auto simp: ascii_def list_all_iff)
  have l: "length (concat (map h zs)) = 2 * length zs" for zs using pair by (induction zs) auto
  have "?h = concat (map h xs) @ h y @ concat (map h ys)" by simp
  then have d: "drop (2 * length xs) ?h = h y @ concat (map h ys)" using l [of xs] by simp
  have "2 * length xs + 2 \<le> length ?h" using l [of "xs @ y # ys"] by simp
  note ascii_slice [OF a le_add1 this]
  then have s: "str_slice ?h (2 * length xs) (2 * length xs + 2) = Ok (h y)"
    using pair [of y] by (simp only: d) simp
  have "hex_bytes_from ?h (2 * length xs) acc = hex_bytes_from ?h (2 * length xs + 2) (acc @ [y])"
    using s pair [of y] l [of "xs @ y # ys"]
    by (subst hex_bytes_from.simps) (simp only: ascii_len [OF a], simp del: map_append add_2_eq_Suc')
  also have "\<dots> = Ok (Some ((acc @ [y]) @ ys))"
    using Cons.IH [of "xs @ [y]" "acc @ [y]"] by simp
  finally show ?case by simp
qed

text \<open>The value of a \<open>config\<close> parameter in any hexadecimal spelling.\<close>

lemma config_pairs:
  assumes pair: "\<And>b. length (h b) = 2 \<and> ascii (h b) \<and> u8_from_hex (h b) = Some b \<and> list_all (\<lambda>c. \<not> is_whitespace c) (h b)"
  shows "config_from_params ((ustr_of ''config='' @ concat (map h bs)) # ps) = Ok (Some bs)"
proof -
  let ?t = "concat (map h bs)"
  have ns: "list_all (\<lambda>c. \<not> is_whitespace c) (ustr_of ''config='' @ ?t)" "list_all (\<lambda>c. \<not> is_whitespace c) ?t"
    using pair by (auto simp: list_all_iff ustr_of_def is_whitespace_def)
  have t: "str_trim (ustr_of ''config='' @ ?t) = ustr_of ''config='' @ ?t" "str_trim ?t = ?t"
    using ns trimmed_no_space by simp_all
  have "ascii ?t" using pair by (auto simp: ascii_def list_all_iff)
  moreover have "length ?t = 2 * length bs" using pair by (induction bs) auto
  ultimately have l: "str_len ?t = 2 * length bs" by (simp add: ascii_len)
  have "hex_bytes_from (concat (map h ([] @ bs))) (2 * length ([] :: bytes)) [] = Ok (Some ([] @ bs))"
    by (rule hex_bytes_of_pairs) (use pair in blast)
  then have "hex_bytes_from ?t 0 [] = Ok (Some bs)" by simp
  then show ?thesis using t l by (simp add: Let_def)
qed

lemma config_skip:
  assumes "list_all (\<lambda>p. 59 \<notin> set p \<and> strip_prefix (ustr_of ''config='') (str_trim p) = None) before"
  shows "config_from_params (str_split 59 (concat (map (\<lambda>p. p @ [59]) before) @ s)) =
    config_from_params (str_split 59 s)"
  using assms by (induction before) (simp_all add: str_split_sep)

lemma config_hex: "config_from_params ((ustr_of ''config='' @ hex_str bs) # ps) = Ok (Some bs)"
proof -
  have "unat b div 16 < 16" for b :: u8 using unsigned_less [of b, where 'a = nat] by auto
  then show ?thesis
    unfolding hex_str_def using hex_char_range u8_of_hex
    by (intro config_pairs) (simp add: ascii_def)
qed

lemma fmtp_line_config:
  assumes "fmtp_ok pt before after"
  shows "parse_aac_config_from_fmtp (fmtp_line pt before bs after) = Ok (Some bs)"
proof -
  have "59 \<notin> set (ustr_of ''config='' @ hex_str bs)"
    using hex_str_chars by (auto simp: ustr_of_def)
  then obtain ps where "str_split 59 ((ustr_of ''config='' @ hex_str bs) @ concat (map (\<lambda>q. 59 # q) after)) =
      (ustr_of ''config='' @ hex_str bs) # ps"
    using str_split_head by blast
  then show ?thesis
    using assms config_skip [of before] config_hex [of bs ps]
    by (simp add: parse_aac_config_from_fmtp_def fmtp_line_def fmtp_ok_def split_once_sep)
qed

text \<open>
  The AudioSpecificConfig of an fmtp line: the bytes written in hexadecimal behind \<open>config=\<close> come
  back, wherever the parameter stands; an ASCII line never makes the reader panic; a line with a
  two-byte character across the pairs of digits does.
\<close>

theorem aac_config_of_fmtp:
  "(\<forall>pt before bs after. fmtp_ok pt before after \<longrightarrow>
      parse_aac_config_from_fmtp (fmtp_line pt before bs after) = Ok (Some bs)) \<and>
   (\<forall>fmtp. ascii fmtp \<longrightarrow> returns (parse_aac_config_from_fmtp fmtp)) \<and>
   parse_aac_config_from_fmtp (ustr_of ''config=a'' @ [0xE9] @ ustr_of ''b'') = Panic"
proof -
  have "str_slice [97, 0xE9, 98] 0 2 = Panic"
    by (simp add: str_slice_def utf8_width_def numeral_2_eq_2)
  then have h: "hex_bytes_from [97, 0xE9, 98] 0 [] = Panic"
    by (subst hex_bytes_from.simps) (simp add: str_len_def utf8_width_def del: add_2_eq_Suc')
  have "str_len [97, 0xE9, 98] = 4" by (simp add: str_len_def utf8_width_def)
  then have "config_from_params [ustr_of ''config=a'' @ [0xE9] @ ustr_of ''b''] = Panic"
    by (simp add: ustr_of_def str_trim_def is_whitespace_def h)
  then have "parse_aac_config_from_fmtp (ustr_of ''config=a'' @ [0xE9] @ ustr_of ''b'') = Panic"
    by (simp add: parse_aac_config_from_fmtp_def ustr_of_def str_split_once_def)
  then show ?thesis using fmtp_line_config parse_aac_config_ascii by blast
qed

theorem aac_config_of_fmtp_witness:
  "parse_aac_config_from_fmtp (ustr_of ''97 mode=AAC-hbr;config=1210;sizelength=13'') = Ok (Some [0x12, 0x10])"
proof -
  have ok: "fmtp_ok (ustr_of ''97'') [ustr_of ''mode=AAC-hbr''] [ustr_of ''sizelength=13'']"
    by (simp add: fmtp_ok_def ustr_of_def str_trim_def is_whitespace_def)
  have "ustr_of ''97 mode=AAC-hbr;config=1210;sizelength=13'' =
      fmtp_line (ustr_of ''97'') [ustr_of ''mode=AAC-hbr''] [0x12, 0x10] [ustr_of ''sizelength=13'']"
    by (simp add: fmtp_line_def ustr_of_def hex_str_def hex_char_def)
  then show ?thesis using aac_config_of_fmtp ok by simp
qed

section \<open>Lemmas: AAC and Opus\<close>

text \<open>
  An AAC-hbr payload with several access units, as other senders write it, and the access units that
  survive when only the first \<open>n\<close> data bytes arrive.
\<close>

definition aac_hbr_headers :: "bytes list \<Rightarrow> bytes" where
  "aac_hbr_headers frames = be16_bytes (of_nat (16 * length frames)) @
     concat (map (\<lambda>f. be16_bytes (push_bit 3 (of_nat (length f)))) frames)"

fun whole_frames :: "nat \<Rightarrow> bytes list \<Rightarrow> bytes list" where
  "whole_frames n [] = []"
| "whole_frames n (f # fs) = (if length f \<le> n then f # whole_frames (n - length f) fs else [])"

definition aac_frames_ok :: "bytes list \<Rightarrow> bool" where
  "aac_frames_ok frames \<longleftrightarrow> frames \<noteq> [] \<and> 16 * length frames < 2 ^ 16 \<and>
     list_all (\<lambda>f. length f \<le> 0x1FFF) frames"

lemma au_header_size: "n \<le> 0x1FFF \<Longrightarrow> unat (drop_bit 3 (push_bit 3 (of_nat n :: u16))) = n"
proof -
  assume n: "n \<le> 0x1FFF"
  have "push_bit 3 (of_nat n :: u16) = of_nat (8 * n)" by (simp add: push_bit_eq_mult)
  moreover have "unat (of_nat (8 * n) :: u16) = 8 * n" using n by (intro unat_of_nat_id) simp
  ultimately have "unat (push_bit 3 (of_nat n :: u16)) = 8 * n" by metis
  then show ?thesis by (simp only: drop_bit_eq_div unat_div) simp
qed

lemma au_sizes_read:
  assumes "list_all (\<lambda>f. length f \<le> 0x1FFF) frames" and "length pre = 2 + 2 * k"
  shows "au_sizes_from (pre @ concat (map (\<lambda>f. be16_bytes (push_bit 3 (of_nat (length f)))) frames) @ rest)
    [k..<k + length frames] = Ok (map length frames)"
  using assms
proof (induction frames arbitrary: pre k)
  case (Cons f frames)
  let ?h = "be16_bytes (push_bit 3 (of_nat (length f)))"
  have "au_sizes_from ((pre @ ?h) @ concat (map (\<lambda>f. be16_bytes (push_bit 3 (of_nat (length f)))) frames) @ rest)
      [Suc k..<Suc k + length frames] = Ok (map length frames)"
    using Cons.prems by (intro Cons.IH) simp_all
  moreover have "[k..<k + length (f # frames)] = k # [Suc k..<Suc k + length frames]"
    by (simp add: upt_rec)
  ultimately show ?case
    using Cons.prems by (simp add: Let_def idx_def nth_append be16_bytes_def au_header_size)
qed simp

lemma au_frames_read:
  "n \<le> length (concat frames) \<Longrightarrow>
    au_frames (pre @ take n (concat frames)) (length pre) (map length frames) = Ok (whole_frames n frames)"
proof (induction frames arbitrary: pre n)
  case (Cons f frames)
  show ?case
  proof (cases "length f \<le> n")
    case True
    have "au_frames ((pre @ f) @ take (n - length f) (concat frames)) (length (pre @ f)) (map length frames) =
        Ok (whole_frames (n - length f) frames)"
      using Cons.prems by (intro Cons.IH) simp
    then show ?thesis using True by simp
  next
    case False
    then show ?thesis using Cons.prems by simp
  qed
qed simp

lemma aac_depacketize_frames:
  assumes "aac_frames_ok frames" and "n \<le> length (concat frames)"
  shows "aac_depacketize (aac_hbr_headers frames @ take n (concat frames)) header =
    Ok (if whole_frames n frames = [] then None
        else Some \<lparr>ar_frames = whole_frames n frames, ar_timestamp = rh_timestamp header,
                   ar_marker = rh_marker header\<rparr>)"
proof -
  let ?k = "length frames"
  let ?p = "aac_hbr_headers frames @ take n (concat frames)"
  have k: "0 < ?k" "16 * ?k < 2 ^ 16" "list_all (\<lambda>f. length f \<le> 0x1FFF) frames"
    using assms(1) by (auto simp: aac_frames_ok_def)
  have hl: "length (aac_hbr_headers frames) = 2 + ?k * 2"
    by (simp add: aac_hbr_headers_def length_concat comp_def sum_list_triv)
  have b: "idx ?p 0 = (Ok (ucast (drop_bit 8 (of_nat (16 * ?k) :: u16))) :: (u8, unit) outcome)"
    "idx ?p 1 = (Ok (ucast (of_nat (16 * ?k) :: u16)) :: (u8, unit) outcome)"
    by (simp_all add: idx_def aac_hbr_headers_def be16_bytes_def)
  have c: "unat (of_nat (16 * ?k) :: u16) div 16 = ?k"
    using k(2) by (subst unat_of_nat_id) simp_all
  have s: "au_sizes_from ?p [0..<?k] = Ok (map length frames)"
    using au_sizes_read [OF k(3), of "be16_bytes (of_nat (16 * ?k))" 0 "take n (concat frames)"]
    by (simp add: aac_hbr_headers_def)
  have f: "au_frames ?p (2 + ?k * 2) (map length frames) = Ok (whole_frames n frames)"
    using au_frames_read [OF assms(2), of "aac_hbr_headers frames"] by (simp add: hl)
  have g: "(length ?p < 2) = False" "(?k = 0) = False" "(2 + ?k * 2 > length ?p) = False"
    using k hl by auto
  show ?thesis
    unfolding aac_depacketize_def b obind.simps Let_def be16_of_bytes c g if_False s f by simp
qed

lemma whole_frames_all: "whole_frames (length (concat frames)) frames = frames"
  by (induction frames) auto

lemma returns_au_sizes: "\<forall>i\<in>set js. 2 + i * 2 + 1 < length p \<Longrightarrow> returns (au_sizes_from p js)"
  by (induction js) (auto simp: Let_def)

lemma returns_au_frames: "returns (au_frames p off sizes)"
  by (induction p off sizes rule: au_frames.induct) auto

lemma returns_aac_depacketize: "returns (aac_depacketize p header)"
  unfolding aac_depacketize_def Let_def
  by (intro returns_obind returns_if returns_idx returns_simps returns_au_sizes returns_au_frames) auto

text \<open>
  AAC-hbr depacketization: no payload makes it panic; a payload with any number of access units gives
  exactly these units, and when only the first \<open>n\<close> data bytes arrive, the units that are complete.
\<close>

theorem aac_depacketize_units:
  "returns (aac_depacketize p header) \<and>
   (aac_frames_ok frames \<and> n \<le> length (concat frames) \<longrightarrow>
     aac_depacketize (aac_hbr_headers frames @ take n (concat frames)) header =
       Ok (if whole_frames n frames = [] then None
           else Some \<lparr>ar_frames = whole_frames n frames, ar_timestamp = rh_timestamp header,
                      ar_marker = rh_marker header\<rparr>))"
  using aac_depacketize_frames returns_aac_depacketize by blast

theorem aac_depacketize_units_witness:
  "map_option ar_frames (case aac_depacketize (aac_hbr_headers [[1, 2], [3]] @ [1, 2])
     \<lparr>rh_payload_type = 97, rh_sequence = 0, rh_timestamp = 0, rh_ssrc = 0, rh_marker = True,
      rh_header_len = 12\<rparr> of Ok r \<Rightarrow> r | _ \<Rightarrow> None) = Some [[1, 2]]"
  using aac_depacketize_units [of "[]" _ "[[1, 2], [3]]" 2]
  by (simp add: aac_frames_ok_def)

lemma aac_packet_read:
  assumes "length frame \<le> 8191"
  shows "\<exists>pkt h. aac_packetize frame ts pk = Ok (pkt, pk\<lparr>pk_sequence := pk_sequence pk + 1\<rparr>) \<and>
    parse_rtp_header pkt = Ok (Some h) \<and> rh_sequence h = pk_sequence pk \<and>
    aac_depacketize (drop (rh_header_len h) pkt) h =
      Ok (Some \<lparr>ar_frames = [frame], ar_timestamp = ts, ar_marker = True\<rparr>)"
proof -
  have "aac_depacketize (be16_bytes 16 @ be16_bytes (push_bit 3 (of_nat (length frame))) @ frame) h =
      Ok (Some \<lparr>ar_frames = [frame], ar_timestamp = rh_timestamp h, ar_marker = rh_marker h\<rparr>)" for h
    using assms aac_depacketize_frames [of "[frame]" "length frame" h]
    by (simp add: aac_frames_ok_def aac_hbr_headers_def)
  then show ?thesis using assms by (simp add: aac_packetize_def parse_written_header Let_def)
qed

text \<open>
  C33. Audio over RTP is lossless: what the AAC packetizer writes for an access unit of at most 8191 bytes
  (it panics exactly above that) and what the Opus packetizer writes for a non-empty frame is read back
  by the receiver as that one unit with its timestamp, and the packet carries the packetizer's sequence
  number, which then advances by one modulo \<open>2 ^ 16\<close>.
\<close>

theorem audio_rtp_roundtrip:
  assumes "frame \<noteq> []"
  shows "(case aac_packetize frame ts pk of
      Ok (pkt, pk') \<Rightarrow> length frame \<le> 8191 \<and> pk' = pk\<lparr>pk_sequence := pk_sequence pk + 1\<rparr> \<and>
        (\<exists>h. parse_rtp_header pkt = Ok (Some h) \<and> rh_sequence h = pk_sequence pk \<and>
          aac_depacketize (drop (rh_header_len h) pkt) h =
            Ok (Some \<lparr>ar_frames = [frame], ar_timestamp = ts, ar_marker = True\<rparr>))
    | Err _ \<Rightarrow> False
    | Panic \<Rightarrow> 8191 < length frame) \<and>
   (case opus_packetize frame ts pk of (pkt, pk') \<Rightarrow> pk' = pk\<lparr>pk_sequence := pk_sequence pk + 1\<rparr> \<and>
      (\<exists>h. parse_rtp_header pkt = Ok (Some h) \<and> rh_sequence h = pk_sequence pk \<and>
        opus_depacketize (drop (rh_header_len h) pkt) h =
          Some \<lparr>or_frame = frame, or_timestamp = ts, or_marker = True\<rparr>))"
proof (rule conjI)
  show "case aac_packetize frame ts pk of
      Ok (pkt, pk') \<Rightarrow> length frame \<le> 8191 \<and> pk' = pk\<lparr>pk_sequence := pk_sequence pk + 1\<rparr> \<and>
        (\<exists>h. parse_rtp_header pkt = Ok (Some h) \<and> rh_sequence h = pk_sequence pk \<and>
          aac_depacketize (drop (rh_header_len h) pkt) h =
            Ok (Some \<lparr>ar_frames = [frame], ar_timestamp = ts, ar_marker = True\<rparr>))
    | Err _ \<Rightarrow> False
    | Panic \<Rightarrow> 8191 < length frame"
  proof (cases "length frame \<le> 8191")
    case True
    then show ?thesis using aac_packet_read [OF True, of ts pk] by auto
  qed (simp add: aac_packetize_def)
qed (use assms in \<open>simp add: opus_packetize_def opus_depacketize_def parse_written_header\<close>)

theorem audio_rtp_roundtrip_witness:
  "snd (opus_packetize [0xFC] 960 (audio_packetizer_new 7 98 0xFFFF)) = audio_packetizer_new 7 98 0"
  using audio_rtp_roundtrip [of "[0xFC]", where ts = 960 and pk = "audio_packetizer_new 7 98 0xFFFF"]
  by (auto simp: audio_packetizer_new_def split: prod.splits)

end
