(* ===== verification/Flv.thy ===== *)
theory Flv
  imports Aac
begin

text \<open>
  The FLV tag parser of \<open>lvqr-ingest/src/remux/flv.rs\<close>, through which every RTMP publisher's video and
  audio enters: the AVC and AAC tag bodies, the AVCDecoderConfigurationRecord, and the second copy of the
  record's parser that \<open>lvqr-cli/src/ws.rs\<close> applies to browser ingest.  The lemmas show that no tag body
  panics the parser, that an accepted record has exactly the ranges the box writer can encode, and the
  round trips.
\<close>

section \<open>Configurations and tags\<close>

record video_config =
  sps_list :: "bytes list"
  pps_list :: "bytes list"
  profile :: u8
  compat :: u8
  level :: u8
  nalu_length_size :: u8

definition config_sps :: "video_config \<Rightarrow> (bytes, unit) outcome" where
  "config_sps c = idx (sps_list c) 0"

definition config_pps :: "video_config \<Rightarrow> (bytes, unit) outcome" where
  "config_pps c = idx (pps_list c) 0"

definition video_codec_string :: "video_config \<Rightarrow> string" where
  "video_codec_string c = ''avc1.'' @ pad0 2 (hex_upper (unat (profile c))) @
     pad0 2 (hex_upper (unat (compat c))) @ pad0 2 (hex_upper (unat (level c)))"

record audio_config =
  ac_asc :: bytes
  ac_sample_rate :: u32
  ac_channels :: u8
  ac_object_type :: u8

definition audio_codec_string :: "audio_config \<Rightarrow> string" where
  "audio_codec_string c = ''mp4a.40.'' @ dec_str (unat (ac_object_type c))"

text \<open>The composition time of a \<open>VideoNalu\<close> is the \<open>i32\<close>, read with \<open>sint\<close>.\<close>

datatype flv_video_tag =
    VideoSequenceHeader video_config
  | VideoNalu bool u32 bytes
  | VideoEndOfSequence
  | VideoUnknown

datatype flv_audio_tag =
    AudioSequenceHeader audio_config
  | RawAac bytes
  | AudioUnknown

section \<open>The AVCDecoderConfigurationRecord\<close>

text \<open>The loops over \<open>num_sps\<close> and \<open>num_pps\<close>, which have the same body; \<open>None\<close> is the early return.\<close>

fun read_param_sets ::
    "bytes \<Rightarrow> nat \<Rightarrow> nat \<Rightarrow> bytes list \<Rightarrow> ((bytes list \<times> nat) option, unit) outcome" where
  "read_param_sets data 0 offset sets = Ok (Some (sets, offset))"
| "read_param_sets data (Suc n) offset sets =
     (if offset + 2 > length data then Ok None
      else obind (idx data offset) (\<lambda>a. obind (idx data (offset + 1)) (\<lambda>b.
        let len = unat (be16 a b); offset = offset + 2 in
        if offset + len > length data then Ok None
        else obind (slice data offset (offset + len)) (\<lambda>s.
          read_param_sets data n (offset + len) (sets @ [s])))))"

definition parse_avcc_record :: "bytes \<Rightarrow> (video_config option, unit) outcome" where
  "parse_avcc_record data =
     (if length data < 6 then Ok None
      else obind (idx data 0) (\<lambda>_. obind (idx data 1) (\<lambda>profile. obind (idx data 2) (\<lambda>compat.
        obind (idx data 3) (\<lambda>level. obind (idx data 4) (\<lambda>d4. obind (idx data 5) (\<lambda>d5.
        let nalu_length_size = (d4 AND 0x03) + 1; num_sps = unat (d5 AND 0x1F) in
        obind (read_param_sets data num_sps 6 []) (\<lambda>r. case r of None \<Rightarrow> Ok None
          | Some (sps, offset) \<Rightarrow>
            if offset \<ge> length data then Ok None
            else obind (idx data offset) (\<lambda>n.
              obind (read_param_sets data (unat n) (offset + 1) []) (\<lambda>r. case r of None \<Rightarrow> Ok None
                | Some (pps, _) \<Rightarrow>
                  if sps = [] \<or> pps = [] then Ok None
                  else Ok (Some \<lparr>sps_list = sps, pps_list = pps, profile = profile, compat = compat,
                                 level = level, nalu_length_size = nalu_length_size\<rparr>)))))))))))"

text \<open>The copy in \<open>ws.rs\<close>: it does not read the version byte, and is otherwise the same code.\<close>

definition ws_parse_avcc_record :: "bytes \<Rightarrow> (video_config option, unit) outcome" where
  "ws_parse_avcc_record data =
     (if length data < 6 then Ok None
      else obind (idx data 1) (\<lambda>profile. obind (idx data 2) (\<lambda>compat.
        obind (idx data 3) (\<lambda>level. obind (idx data 4) (\<lambda>d4. obind (idx data 5) (\<lambda>d5.
        let nalu_length_size = (d4 AND 0x03) + 1; num_sps = unat (d5 AND 0x1F) in
        obind (read_param_sets data num_sps 6 []) (\<lambda>r. case r of None \<Rightarrow> Ok None
          | Some (sps, offset) \<Rightarrow>
            if offset \<ge> length data then Ok None
            else obind (idx data offset) (\<lambda>n.
              obind (read_param_sets data (unat n) (offset + 1) []) (\<lambda>r. case r of None \<Rightarrow> Ok None
                | Some (pps, _) \<Rightarrow>
                  if sps = [] \<or> pps = [] then Ok None
                  else Ok (Some \<lparr>sps_list = sps, pps_list = pps, profile = profile, compat = compat,
                                 level = level, nalu_length_size = nalu_length_size\<rparr>))))))))))"

section \<open>Tags\<close>

definition sign_extend_24 :: "u32 \<Rightarrow> u32" where
  "sign_extend_24 cts = (if cts AND 0x800000 \<noteq> 0 then cts OR NOT 0xFFFFFF else cts)"

definition parse_video_tag :: "bytes \<Rightarrow> (flv_video_tag, unit) outcome" where
  "parse_video_tag data =
     (if length data < 2 then Ok VideoUnknown
      else obind (idx data 0) (\<lambda>d0.
        if d0 AND 0x0F \<noteq> 7 then Ok VideoUnknown
        else
        let keyframe = (drop_bit 4 d0 = 1) in
        obind (idx data 1) (\<lambda>avc_packet_type.
          if avc_packet_type = 0 then
            (if length data < 10 then Ok VideoUnknown
             else obind (slice data 5 (length data)) (\<lambda>rec. obind (parse_avcc_record rec) (\<lambda>r.
               case r of Some config \<Rightarrow> Ok (VideoSequenceHeader config) | None \<Rightarrow> Ok VideoUnknown)))
          else if avc_packet_type = 1 then
            (if length data < 5 then Ok VideoUnknown
             else obind (idx data 2) (\<lambda>d2. obind (idx data 3) (\<lambda>d3. obind (idx data 4) (\<lambda>d4.
               let cts = push_bit 16 (ucast d2) OR push_bit 8 (ucast d3) OR ucast d4 in
               obind (slice data 5 (length data)) (\<lambda>nalu_data.
                 Ok (VideoNalu keyframe (sign_extend_24 cts) nalu_data))))))
          else if avc_packet_type = 2 then Ok VideoEndOfSequence
          else Ok VideoUnknown)))"

definition parse_audio_specific_config :: "bytes \<Rightarrow> (audio_config option, unit) outcome" where
  "parse_audio_specific_config asc =
     (case parse_asc asc of
        Ok parsed \<Rightarrow> Ok (Some \<lparr>ac_asc = asc, ac_sample_rate = asc_sample_rate parsed,
          ac_channels = asc_channel_config parsed, ac_object_type = asc_object_type parsed\<rparr>)
      | Err _ \<Rightarrow> Ok None
      | Panic \<Rightarrow> Panic)"

definition parse_audio_tag :: "bytes \<Rightarrow> (flv_audio_tag, unit) outcome" where
  "parse_audio_tag data =
     (if length data < 2 then Ok AudioUnknown
      else obind (idx data 0) (\<lambda>d0.
        if drop_bit 4 d0 \<noteq> 10 then Ok AudioUnknown
        else obind (idx data 1) (\<lambda>aac_packet_type.
          if aac_packet_type = 0 then
            (if length data < 4 then Ok AudioUnknown
             else obind (slice data 2 (length data)) (\<lambda>asc. obind (parse_audio_specific_config asc) (\<lambda>r.
               case r of Some config \<Rightarrow> Ok (AudioSequenceHeader config) | None \<Rightarrow> Ok AudioUnknown)))
          else if aac_packet_type = 1 then
            (if length data \<le> 2 then Ok AudioUnknown
             else obind (slice data 2 (length data)) (\<lambda>frame. Ok (RawAac frame)))
          else Ok AudioUnknown)))"

section \<open>The record's layout\<close>

definition param_set_bytes :: "bytes \<Rightarrow> bytes" where
  "param_set_bytes s = be16_bytes (of_nat (length s)) @ s"

definition avcc_record :: "video_config \<Rightarrow> bytes" where
  "avcc_record c = [1, profile c, compat c, level c, 0xFC OR (nalu_length_size c - 1),
       0xE0 OR of_nat (length (sps_list c))] @
     concat (map param_set_bytes (sps_list c)) @ [of_nat (length (pps_list c))] @
     concat (map param_set_bytes (pps_list c))"

definition sets_ok :: "nat \<Rightarrow> bytes list \<Rightarrow> bool" where
  "sets_ok n sets \<longleftrightarrow> sets \<noteq> [] \<and> length sets \<le> n \<and> list_all (\<lambda>s. length s < 2 ^ 16) sets"

definition avcc_ok :: "video_config \<Rightarrow> bool" where
  "avcc_ok c \<longleftrightarrow> sets_ok 31 (sps_list c) \<and> sets_ok 255 (pps_list c) \<and>
     1 \<le> nalu_length_size c \<and> nalu_length_size c \<le> 4"

lemma returns_read_param_sets: "returns (read_param_sets data n offset sets)"
  by (induction data n offset sets rule: read_param_sets.induct)
    (auto simp: Let_def simp del: add_2_eq_Suc' intro!: returns_obind)

lemma read_param_sets_offset:
  "read_param_sets data n offset sets = Ok (Some (ss, offset')) \<Longrightarrow> offset \<le> length data \<Longrightarrow>
    offset' \<le> length data"
  by (induction data n offset sets rule: read_param_sets.induct)
    (auto simp: Let_def obind_eq_Ok split: if_splits)

lemma returns_parse_avcc: "returns (parse_avcc_record data)"
  unfolding parse_avcc_record_def Let_def
  by (intro returns_obind returns_if returns_idx returns_simps returns_read_param_sets)
    (auto split: option.split intro!: returns_obind returns_read_param_sets)

lemma ws_parse_avcc_eq: "ws_parse_avcc_record data = parse_avcc_record data"
  by (cases data) (simp_all add: ws_parse_avcc_record_def parse_avcc_record_def)

lemma read_param_sets_result:
  "read_param_sets data n offset sets = Ok (Some (ss, offset')) \<Longrightarrow>
    list_all (\<lambda>s. length s < 2 ^ 16) sets \<Longrightarrow>
    length ss = length sets + n \<and> list_all (\<lambda>s. length s < 2 ^ 16) ss"
proof (induction data n offset sets rule: read_param_sets.induct)
  case (2 data n offset sets)
  have "unat (be16 a b) < 65536" for a b
    using unsigned_less [of "be16 a b", where 'a = nat] by simp
  with "2" show ?case
    by (auto simp: Let_def obind_eq_Ok slice_eq_Ok split: if_splits)
qed auto

lemma unat_and_1F: "unat (d AND 0x1F :: u8) \<le> 31"
  using unat_and_mask_less [of d 5] by (simp add: mask_eq_decr_exp)

lemma nalu_size_range: "1 \<le> (d AND 0x03 :: u8) + 1 \<and> (d AND 0x03) + 1 \<le> (4 :: u8)"
proof -
  have "unat (d AND 0x03) < 4" using unat_and_mask_less [of d 2] by (simp add: mask_eq_decr_exp)
  then show ?thesis by (simp add: word_le_nat_alt unat_word_ariths)
qed

lemma parse_avcc_accepted:
  assumes "parse_avcc_record data = Ok (Some c)"
  shows "avcc_ok c"
proof -
  have d: "\<not> length data < 6" using assms by (auto simp: parse_avcc_record_def)
  then have i: "idx data k = (Ok (data ! k) :: (u8, unit) outcome)" if "k < 6" for k
    using that by simp
  let ?r = "read_param_sets data (unat (data ! 5 AND 0x1F)) 6 []"
  obtain sps offset where s: "?r = Ok (Some (sps, offset))"
    using assms d by (cases ?r) (auto simp: parse_avcc_record_def i Let_def split: option.splits)
  then have o: "offset < length data" and
    r: "obind (read_param_sets data (unat (data ! offset)) (offset + 1) []) (\<lambda>r. case r of None \<Rightarrow> Ok None
        | Some (pps, _) \<Rightarrow> if sps = [] \<or> pps = [] then Ok None
          else Ok (Some \<lparr>sps_list = sps, pps_list = pps, profile = data ! 1, compat = data ! 2,
                         level = data ! 3, nalu_length_size = (data ! 4 AND 0x03) + 1\<rparr>)) = Ok (Some c)"
    using assms d by (simp_all add: parse_avcc_record_def i Let_def del: One_nat_def split: if_splits)
  let ?q = "read_param_sets data (unat (data ! offset)) (offset + 1) []"
  from r obtain pps x where p: "?q = Ok (Some (pps, x))"
    by (cases ?q) (auto split: option.splits)
  with r have c: "sps \<noteq> []" "pps \<noteq> []" "c = \<lparr>sps_list = sps, pps_list = pps, profile = data ! 1,
      compat = data ! 2, level = data ! 3, nalu_length_size = (data ! 4 AND 0x03) + 1\<rparr>"
    by (simp_all split: if_splits)
  have "unat (data ! offset) \<le> 255" using unsigned_less [of "data ! offset", where 'a = nat] by simp
  with read_param_sets_result [OF s] read_param_sets_result [OF p] c unat_and_1F [of "data ! 5"]
    nalu_size_range [of "data ! 4"]
  show ?thesis by (simp add: avcc_ok_def sets_ok_def)
qed

lemma read_written_sets:
  assumes "list_all (\<lambda>s. length s < 2 ^ 16) sets"
  shows "read_param_sets (pre @ concat (map param_set_bytes sets) @ rest) (length sets) (length pre) acc =
    Ok (Some (acc @ sets, length pre + length (concat (map param_set_bytes sets))))"
  using assms
proof (induction sets arbitrary: pre acc)
  case (Cons s sets)
  have n: "unat (of_nat (length s) :: u16) = length s"
    using Cons.prems by (intro unat_of_nat_id) simp
  have "read_param_sets ((pre @ param_set_bytes s) @ concat (map param_set_bytes sets) @ rest) (length sets)
      (length (pre @ param_set_bytes s)) (acc @ [s]) =
    Ok (Some ((acc @ [s]) @ sets, length (pre @ param_set_bytes s) + length (concat (map param_set_bytes sets))))"
    using Cons.prems by (intro Cons.IH) simp
  moreover have "param_set_bytes s =
      ucast (drop_bit 8 (of_nat (length s) :: u16)) # ucast (of_nat (length s) :: u16) # s"
    by (simp add: param_set_bytes_def be16_bytes_def)
  ultimately show ?case by (simp add: idx_def nth_append Let_def n add.assoc)
qed simp

lemma sets_len_bits:
  assumes "n \<le> 31"
  shows "unat ((0xE0 OR of_nat n :: u8) AND 0x1F) = n"
proof -
  from assms have "n \<in> set [0..<32]" by simp
  then show ?thesis by (auto simp: upt_rec)
qed

lemma nalu_size_bits: "1 \<le> k \<Longrightarrow> k \<le> 4 \<Longrightarrow> ((0xFC OR (k - 1) :: u8) AND 0x03) + 1 = k"
proof -
  assume k: "1 \<le> k" "k \<le> 4"
  then have "unat k \<in> {1, 2, 3, 4}" by (auto simp: word_le_nat_alt)
  then have "k \<in> {1, 2, 3, 4}" by (auto simp: word_unat_eq_iff)
  then show ?thesis by auto
qed

lemma parse_written_avcc:
  assumes "avcc_ok c"
  shows "parse_avcc_record (avcc_record c @ rest) = Ok (Some c)"
proof -
  define head where "head = [1, profile c, compat c, level c, 0xFC OR (nalu_length_size c - 1),
       0xE0 OR of_nat (length (sps_list c))]"
  define mid where "mid = head @ concat (map param_set_bytes (sps_list c))"
  let ?d = "avcc_record c @ rest"
  have ok: "list_all (\<lambda>s. length s < 2 ^ 16) (sps_list c)" "list_all (\<lambda>s. length s < 2 ^ 16) (pps_list c)"
    "sps_list c \<noteq> []" "pps_list c \<noteq> []" "length (sps_list c) \<le> 31" "length (pps_list c) \<le> 255"
    "1 \<le> nalu_length_size c" "nalu_length_size c \<le> 4"
    using assms by (auto simp: avcc_ok_def sets_ok_def)
  have d1: "?d = head @ concat (map param_set_bytes (sps_list c)) @
      ([of_nat (length (pps_list c))] @ concat (map param_set_bytes (pps_list c)) @ rest)"
    by (simp add: avcc_record_def head_def)
  have d2: "?d = (mid @ [of_nat (length (pps_list c))]) @ concat (map param_set_bytes (pps_list c)) @ rest"
    by (simp add: d1 mid_def)
  have hl: "length head = 6" by (simp add: head_def)
  have s: "read_param_sets ?d (length (sps_list c)) 6 [] = Ok (Some (sps_list c, length mid))"
    using read_written_sets [OF ok(1), of head _ "[]"] unfolding d1 hl
    by (simp only: mid_def length_append hl append_Nil)
  have p: "read_param_sets ?d (length (pps_list c)) (length mid + 1) [] =
      Ok (Some (pps_list c, length mid + 1 + length (concat (map param_set_bytes (pps_list c)))))"
    using read_written_sets [OF ok(2), of "mid @ [of_nat (length (pps_list c))]"] unfolding d2 by simp
  have n: "unat (of_nat (length (pps_list c)) :: u8) = length (pps_list c)"
    using ok(6) by (intro unat_of_nat_id) simp
  have m: "idx ?d (length mid) = (Ok (of_nat (length (pps_list c))) :: (u8, unit) outcome)"
    "\<not> length ?d \<le> length mid" "\<not> length ?d < 6"
    unfolding d2 by (simp_all add: idx_def mid_def head_def)
  have i: "idx ?d 0 = (Ok 1 :: (u8, unit) outcome)" "idx ?d 1 = (Ok (profile c) :: (u8, unit) outcome)"
    "idx ?d 2 = (Ok (compat c) :: (u8, unit) outcome)" "idx ?d 3 = (Ok (level c) :: (u8, unit) outcome)"
    "idx ?d 4 = (Ok (0xFC OR (nalu_length_size c - 1)) :: (u8, unit) outcome)"
    "idx ?d 5 = (Ok (0xE0 OR of_nat (length (sps_list c))) :: (u8, unit) outcome)"
    by (simp_all add: d1 head_def idx_def)
  show ?thesis
    unfolding parse_avcc_record_def
    by (simp only: i m obind.simps Let_def sets_len_bits [OF ok(5)] s p n option.case prod.case if_False
        nalu_size_bits [OF ok(7,8)] ok(3,4) simp_thms) simp
qed

text \<open>
  The AVCDecoderConfigurationRecord: neither copy of the parser panics on any bytes and both give the
  same answer; every accepted record has between 1 and 31 SPS and between 1 and 255 PPS of less than
  65536 bytes and a length size between 1 and 4; and the record of such a configuration parses back to it.
\<close>

theorem avcc_record_roundtrip:
  "returns (parse_avcc_record data) \<and> ws_parse_avcc_record data = parse_avcc_record data \<and>
   (\<forall>c. parse_avcc_record data = Ok (Some c) \<longrightarrow> avcc_ok c) \<and>
   (avcc_ok c \<longrightarrow> parse_avcc_record (avcc_record c @ rest) = Ok (Some c))"
  using returns_parse_avcc ws_parse_avcc_eq parse_avcc_accepted parse_written_avcc by blast

definition avcc_example :: video_config where
  "avcc_example = \<lparr>sps_list = [[0x67, 0x64], [0x67]], pps_list = [[0x68]], profile = 0x64, compat = 0,
     level = 0x1F, nalu_length_size = 2\<rparr>"

lemma avcc_example_ok: "avcc_ok avcc_example"
  by (simp add: avcc_ok_def sets_ok_def avcc_example_def)

theorem avcc_record_roundtrip_witness:
  "parse_avcc_record (avcc_record avcc_example @ [9]) = Ok (Some avcc_example)"
  using avcc_record_roundtrip [of _ avcc_example "[9]"] avcc_example_ok by blast

section \<open>Tags\<close>

lemma returns_parse_video_tag: "returns (parse_video_tag data)"
  unfolding parse_video_tag_def Let_def
  by (intro returns_obind returns_if returns_idx returns_slice returns_simps)
    (auto split: option.split intro!: returns_obind returns_parse_avcc)

lemma returns_parse_audio_config: "returns (parse_audio_specific_config asc)"
  using parse_asc_no_panic [of asc]
  by (auto simp: parse_audio_specific_config_def no_panic_def split: outcome.split)

lemma returns_parse_audio_tag: "returns (parse_audio_tag data)"
  unfolding parse_audio_tag_def
  by (intro returns_obind returns_if returns_idx returns_slice returns_simps)
    (auto split: option.split intro!: returns_obind returns_parse_audio_config)

lemma nibble_byte:
  assumes "x < (16 :: u8)"
  shows "(push_bit 4 x OR 7) AND 0x0F = (7 :: u8)" and "drop_bit 4 (push_bit 4 x OR 7) = x"
    and "drop_bit 4 (0xA0 OR x) = (10 :: u8)"
proof -
  have "unat x \<in> set [0..<16]" using assms by (simp add: word_less_nat_alt)
  then have "x \<in> set (map of_nat [0..<16])" by (metis image_eqI list.set_map of_nat_unat ucast_id)
  then show "(push_bit 4 x OR 7) AND 0x0F = (7 :: u8)" and "drop_bit 4 (push_bit 4 x OR 7) = x"
    and "drop_bit 4 (0xA0 OR x) = (10 :: u8)"
    by (auto simp: upt_rec)
qed

definition i24_bytes :: "int \<Rightarrow> bytes" where
  "i24_bytes t = (let w = of_int t :: u32 in [ucast (drop_bit 16 w), ucast (drop_bit 8 w), ucast w])"

lemma i24_read:
  fixes w :: u32
  shows "push_bit 16 (ucast (ucast (drop_bit 16 w) :: u8)) OR push_bit 8 (ucast (ucast (drop_bit 8 w) :: u8)) OR
    ucast (ucast w :: u8) = take_bit 24 w"
proof (rule bit_word_eqI)
  fix n assume "n < LENGTH(32)"
  then consider "n < 8" | "8 \<le> n \<and> n < 16" | "16 \<le> n \<and> n < 24" | "24 \<le> n \<and> n < 32"
    by fastforce
  then show "bit (push_bit 16 (ucast (ucast (drop_bit 16 w) :: u8)) OR
      push_bit 8 (ucast (ucast (drop_bit 8 w) :: u8)) OR ucast (ucast w :: u8) :: u32) n = bit (take_bit 24 w) n"
    by cases (auto simp: bit_simps)
qed

lemma sign_extend_signed_take: "sign_extend_24 (take_bit 24 w) = signed_take_bit 23 w"
proof (rule bit_word_eqI)
  fix n assume n: "n < LENGTH(32)"
  have m: "(0xFFFFFF :: u32) = mask 24" by (simp add: mask_eq_decr_exp)
  have e: "(0x800000 :: u32) = push_bit 23 1" by (simp add: push_bit_eq_mult)
  have "(take_bit 24 w AND 0x800000 \<noteq> 0) = bit w 23"
    unfolding e bit_iff_and_push_bit_not_eq_0 [symmetric] by (simp add: bit_take_bit_iff)
  then show "bit (sign_extend_24 (take_bit 24 w)) n = bit (signed_take_bit 23 w) n"
    using n unfolding sign_extend_24_def m
    by (cases "bit w 23"; cases "n < 24")
      (auto simp: bit_simps min_def not_less le_Suc_eq numeral_eq_Suc less_Suc_eq_le)
qed

lemma sint_signed_take:
  assumes "- (2 ^ 23) \<le> t" and "t < 2 ^ 23"
  shows "sint (signed_take_bit 23 (of_int t :: u32)) = t"
proof -
  have "signed_take_bit 23 (of_int t :: u32) = of_int (signed_take_bit 23 t)"
    by (rule bit_word_eqI) (auto simp: bit_simps)
  moreover have "signed_take_bit 23 t = t"
    using assms by (intro signed_take_bit_int_eq_self) simp_all
  moreover have "sint (of_int t :: u32) = t"
    using assms by (subst signed_of_int) (auto intro!: signed_take_bit_int_eq_self)
  ultimately show ?thesis by simp
qed

lemma parse_raw_aac:
  assumes "lo < 16" "payload \<noteq> []"
  shows "parse_audio_tag ([0xA0 OR lo, 1] @ payload) = Ok (RawAac payload)"
  using assms nibble_byte(3) [OF assms(1)] by (cases payload) (simp_all add: parse_audio_tag_def idx_def)

text \<open>
  FLV tags never panic the parser, and the coded fields come back: an AVC NALU tag gives its keyframe
  flag, the signed 24-bit composition time and the payload; an AVC sequence header gives its record; an
  AAC frame gives its bytes.
\<close>

theorem flv_tags:
  "returns (parse_video_tag data) \<and> returns (parse_audio_tag data) \<and>
   (ft < 16 \<and> - (2 ^ 23) \<le> t \<and> t < 2 ^ 23 \<longrightarrow>
     (\<exists>cts. parse_video_tag ([push_bit 4 ft OR 7, 1] @ i24_bytes t @ payload) =
        Ok (VideoNalu (ft = 1) cts payload) \<and> sint cts = t)) \<and>
   (ft < 16 \<and> avcc_ok c \<longrightarrow>
     parse_video_tag ([push_bit 4 ft OR 7, 0, 0, 0, 0] @ avcc_record c @ rest) =
       Ok (VideoSequenceHeader c)) \<and>
   (lo < 16 \<and> payload \<noteq> [] \<longrightarrow> parse_audio_tag ([0xA0 OR lo, 1] @ payload) = Ok (RawAac payload))"
proof -
  have v: "parse_video_tag ([push_bit 4 ft OR 7, 1] @ i24_bytes t @ payload) =
        Ok (VideoNalu (ft = 1) (signed_take_bit 23 (of_int t)) payload)" if "ft < 16"
    using nibble_byte [OF that] i24_read [of "of_int t"]
    by (simp add: parse_video_tag_def i24_bytes_def Let_def sign_extend_signed_take idx_def)
  have c: "parse_video_tag ([push_bit 4 ft OR 7, 0, 0, 0, 0] @ avcc_record c @ rest) =
       Ok (VideoSequenceHeader c)" if "ft < 16" "avcc_ok c"
  proof -
    have "6 \<le> length (avcc_record c)" by (simp add: avcc_record_def)
    then show ?thesis
      using nibble_byte [OF that(1)] parse_written_avcc [OF that(2), of rest]
      by (simp add: parse_video_tag_def Let_def idx_def)
  qed
  show ?thesis
    using returns_parse_video_tag returns_parse_audio_tag v c parse_raw_aac sint_signed_take [of t] by blast
qed

theorem flv_tags_witness:
  "\<exists>cts. parse_video_tag [0x17, 1, 0xFF, 0xFF, 0xFE, 0x65] = Ok (VideoNalu True cts [0x65]) \<and> sint cts = -2"
proof -
  have "i24_bytes (- 2) = [0xFF, 0xFF, 0xFE]" by (simp add: i24_bytes_def Let_def)
  then show ?thesis using flv_tags [of "[]" 1 "-2" "[0x65]" _ _ 0] by simp
qed

end
