(* ===== verification/Mp4Read.thy ===== *)
theory Mp4Read
  imports Prelude
begin

text \<open>
  The fragmented-MP4 readers of the egress side: the box walk and the descriptor walk of
  \<open>lvqr-agent-whisper/src/asc.rs\<close> and \<open>mdat.rs\<close>, the \<open>mdat\<close> extractor of \<open>lvqr-rtsp/src/fmp4.rs\<close>, and the
  \<open>styp\<close> prefix of \<open>lvqr-cmaf/src/styp.rs\<close>.  The lemmas show that none of them panics, how they walk
  over well-formed boxes, and that the two \<open>mdat\<close> extractors agree.
\<close>

section \<open>Box framing\<close>

definition ascii_bytes :: "string \<Rightarrow> bytes" where
  "ascii_bytes s = map of_char s"

definition mp4_box :: "string \<Rightarrow> bytes \<Rightarrow> bytes" where
  "mp4_box box_type body =
     be32_bytes (of_nat (4 + length box_type + length body)) @ ascii_bytes box_type @ body"

definition read_u32_at :: "bytes \<Rightarrow> nat \<Rightarrow> (u32, unit) outcome" where
  "read_u32_at buf pos = obind (idx buf pos) (\<lambda>a. obind (idx buf (pos + 1)) (\<lambda>b.
     obind (idx buf (pos + 2)) (\<lambda>c. obind (idx buf (pos + 3)) (\<lambda>d. Ok (be32 a b c d)))))"

definition read_u64_at :: "bytes \<Rightarrow> nat \<Rightarrow> (u64, unit) outcome" where
  "read_u64_at buf pos = obind (read_u32_at buf pos) (\<lambda>hi. obind (read_u32_at buf (pos + 4)) (\<lambda>lo.
     Ok (push_bit 32 (ucast hi) OR ucast lo)))"

section \<open>The walk of the whisper agent\<close>

definition BOX_HEADER_LEN :: nat where "BOX_HEADER_LEN = 8"

text \<open>
  The \<open>while cursor + BOX_HEADER_LEN <= payload.len()\<close> loop, written four times in the source with this
  body: \<open>Some\<close> is the body of the first box of the wanted type, \<open>None\<close> a malformed size or the end of
  the buffer.
\<close>

function scan_box :: "bytes \<Rightarrow> bytes \<Rightarrow> nat \<Rightarrow> (bytes option, unit) outcome" where
  "scan_box fourcc payload cursor =
     (if cursor + BOX_HEADER_LEN \<le> length payload then
        obind (read_u32_at payload cursor) (\<lambda>sz.
          obind (slice payload (cursor + 4) (cursor + BOX_HEADER_LEN)) (\<lambda>box_type.
            let box_size = unat sz in
            if box_size < BOX_HEADER_LEN \<or> box_size > length payload - cursor then Ok None
            else if box_type = fourcc then
              obind (slice payload (cursor + BOX_HEADER_LEN) (cursor + box_size)) (\<lambda>body. Ok (Some body))
            else scan_box fourcc payload (cursor + box_size)))
      else Ok None)"
  by pat_completeness auto
termination
  by (relation "measure (\<lambda>(_, payload, cursor). length payload - cursor)") (auto simp: BOX_HEADER_LEN_def)

declare scan_box.simps [simp del]

fun descend :: "bytes \<Rightarrow> bytes list \<Rightarrow> (bytes option, unit) outcome" where
  "descend payload [] = Ok (Some payload)"
| "descend payload (fourcc # target_path) =
     obind (scan_box fourcc payload 0) (\<lambda>found. case found of None \<Rightarrow> Ok None
       | Some body \<Rightarrow> descend body target_path)"

fun descriptor_length_from :: "bytes \<Rightarrow> nat \<Rightarrow> nat \<Rightarrow> (nat \<times> nat) option" where
  "descriptor_length_from [] i len = None"
| "descriptor_length_from (byte # bs) i len =
     (let len = push_bit 7 len OR (unat byte AND 0x7F) in
      if byte AND 0x80 = 0 then Some (len, i + 1) else descriptor_length_from bs (i + 1) len)"

definition read_descriptor_length :: "bytes \<Rightarrow> (nat \<times> nat) option" where
  "read_descriptor_length buf = descriptor_length_from (take 4 buf) 0 0"

lemma descriptor_length_pos: "descriptor_length_from bs i len = Some (n, k) \<Longrightarrow> i < k \<and> k \<le> i + length bs"
  by (induction bs i len rule: descriptor_length_from.induct) (auto simp: Let_def split: if_splits)

function descriptor_loop :: "u8 \<Rightarrow> bytes \<Rightarrow> (bytes option, unit) outcome" where
  "descriptor_loop target_tag body =
     (if body \<noteq> [] then
        obind (idx body 0) (\<lambda>tag. obind (slice body 1 (length body)) (\<lambda>tail_bytes.
          case read_descriptor_length tail_bytes of None \<Rightarrow> Ok None
          | Some (len, consumed) \<Rightarrow>
              let payload_start = 1 + consumed; payload_end = payload_start + len in
              if payload_end > length body then Ok None
              else if tag = target_tag then
                obind (slice body payload_start payload_end) (\<lambda>p. Ok (Some p))
              else descriptor_loop target_tag (drop payload_end body)))
      else Ok None)"
  by pat_completeness auto
termination
  by (relation "measure (\<lambda>(_, body). length body)") auto

declare descriptor_loop.simps [simp del]

definition find_descriptor :: "bytes \<Rightarrow> u8 \<Rightarrow> nat \<Rightarrow> (bytes option, unit) outcome" where
  "find_descriptor body target_tag skip_prefix =
     (if length body < skip_prefix then Ok None
      else obind (slice body skip_prefix (length body)) (descriptor_loop target_tag))"

abbreviation and_then ::
    "('a option, unit) outcome \<Rightarrow> ('a \<Rightarrow> ('b option, unit) outcome) \<Rightarrow> ('b option, unit) outcome" where
  "and_then m f \<equiv> obind m (\<lambda>r. case r of None \<Rightarrow> Ok None | Some v \<Rightarrow> f v)"

text \<open>The fixed preambles: 8 bytes of \<open>stsd\<close>, 28 of \<open>mp4a\<close>, 4 of \<open>esds\<close>.\<close>

definition extract_asc :: "bytes \<Rightarrow> (bytes option, unit) outcome" where
  "extract_asc init_segment =
     and_then (descend init_segment (map ascii_bytes [''moov'', ''trak'', ''mdia'', ''minf'', ''stbl'', ''stsd'']))
     (\<lambda>stsd_body. if length stsd_body < 8 then Ok None
       else obind (slice stsd_body 8 (length stsd_body)) (\<lambda>entries.
         and_then (scan_box (ascii_bytes ''mp4a'') entries 0) (\<lambda>mp4a_body.
           if length mp4a_body < 28 then Ok None
           else obind (slice mp4a_body 28 (length mp4a_body)) (\<lambda>after_preamble.
             and_then (scan_box (ascii_bytes ''esds'') after_preamble 0) (\<lambda>esds_body.
               if length esds_body < 4 then Ok None
               else obind (slice esds_body 4 (length esds_body)) (\<lambda>esds_descriptors.
                 and_then (find_descriptor esds_descriptors 0x03 0) (\<lambda>es_body.
                   and_then (find_descriptor es_body 0x04 3) (\<lambda>dcd_body.
                     find_descriptor dcd_body 0x05 13))))))))"

definition extract_first_mdat :: "bytes \<Rightarrow> (bytes option, unit) outcome" where
  "extract_first_mdat payload = scan_box (ascii_bytes ''mdat'') payload 0"

section \<open>The walk of the RTSP egress\<close>

definition checked_sub :: "nat \<Rightarrow> nat \<Rightarrow> nat option" where
  "checked_sub a b = (if b \<le> a then Some (a - b) else None)"

text \<open>
  The three wire forms of the size, as \<open>(header_len, body_len)\<close>; \<open>None\<close> is the early return.  The
  addition of two \<open>usize\<close> that \<open>checked_add\<close> guards is exact here: an overflow and a body past the end
  of the buffer are both \<open>None\<close>.
\<close>

definition mdat_box_extent :: "bytes \<Rightarrow> nat \<Rightarrow> u32 \<Rightarrow> ((nat \<times> nat) option, unit) outcome" where
  "mdat_box_extent payload offset size_field =
     (if size_field = 0 then Ok (map_option (Pair 8) (checked_sub (length payload) (offset + 8)))
      else if size_field = 1 then
        (if offset + 16 > length payload then Ok None
         else obind (read_u64_at payload (offset + 8)) (\<lambda>large.
           Ok (map_option (Pair 16) (checked_sub (unat large) 16))))
      else let n = unat size_field in if n < 8 then Ok None else Ok (Some (8, n - 8)))"

lemma mdat_box_extent_header:
  "mdat_box_extent payload offset size_field = Ok (Some (h, n)) \<Longrightarrow> 8 \<le> h"
  by (auto simp: mdat_box_extent_def Let_def obind_eq_Ok split: if_splits)

function mdat_body_loop :: "bytes \<Rightarrow> nat \<Rightarrow> (bytes option, unit) outcome" where
  "mdat_body_loop payload offset =
     (if offset + 8 \<le> length payload then
        obind (read_u32_at payload offset) (\<lambda>size_field.
          obind (slice payload (offset + 4) (offset + 8)) (\<lambda>box_type.
            obind (mdat_box_extent payload offset size_field) (\<lambda>extent. case extent of None \<Rightarrow> Ok None
              | Some (header_len, body_len) \<Rightarrow>
                  let body_start = offset + header_len; body_end = body_start + body_len in
                  if body_end > length payload then Ok None
                  else if box_type = ascii_bytes ''mdat'' then
                    obind (slice payload body_start body_end) (\<lambda>body. Ok (Some body))
                  else mdat_body_loop payload body_end)))
      else Ok None)"
  by pat_completeness auto
termination
  by (relation "measure (\<lambda>(payload, offset). length payload - offset)")
    (auto dest: mdat_box_extent_header)

declare mdat_body_loop.simps [simp del]

definition extract_mdat_body :: "bytes \<Rightarrow> (bytes option, unit) outcome" where
  "extract_mdat_body payload = mdat_body_loop payload 0"

section \<open>The \<open>styp\<close> prefix\<close>

definition CMAF_CHUNK_STYP_BYTES :: bytes where
  "CMAF_CHUNK_STYP_BYTES = [0x00, 0x00, 0x00, 0x18] @ ascii_bytes ''styp'' @ ascii_bytes ''cmfc'' @
     [0x00, 0x00, 0x00, 0x00] @ ascii_bytes ''cmfc'' @ ascii_bytes ''iso6''"

definition prepend_cmaf_chunk_styp :: "bytes \<Rightarrow> bytes" where
  "prepend_cmaf_chunk_styp body = CMAF_CHUNK_STYP_BYTES @ body"

section \<open>Lemmas: safety\<close>

lemma length_ascii_bytes [simp]: "length (ascii_bytes s) = length s"
  by (simp add: ascii_bytes_def)

lemma unat_of_char: "unat (of_char c :: u8) = of_char c"
proof -
  have "(of_char c :: u8) = of_nat (of_char c)" by (simp only: of_nat_of_char)
  then show ?thesis by (simp only:) (rule unat_of_nat_id, simp)
qed

lemma ascii_bytes_inj [simp]: "ascii_bytes s = ascii_bytes t \<longleftrightarrow> s = t"
proof
  assume "ascii_bytes s = ascii_bytes t"
  moreover have "map (\<lambda>b. char_of (unat b)) (ascii_bytes u) = u" for u
    by (auto simp: ascii_bytes_def comp_def unat_of_char intro!: map_idI)
  ultimately show "s = t" by metis
qed simp

lemma length_mp4_box [simp]: "length (mp4_box ty body) = 4 + length ty + length body"
  by (simp add: mp4_box_def)

lemma returns_read_u32: "pos + 4 \<le> length buf \<Longrightarrow> returns (read_u32_at buf pos)"
  unfolding read_u32_at_def by (intro returns_obind returns_idx returns_simps) auto

lemma returns_read_u64: "pos + 8 \<le> length buf \<Longrightarrow> returns (read_u64_at buf pos)"
  unfolding read_u64_at_def by (intro returns_obind returns_read_u32 returns_simps) auto

lemma returns_scan_box: "returns (scan_box fourcc payload cursor)"
proof (induction fourcc payload cursor rule: scan_box.induct)
  case (1 fourcc payload cursor)
  show ?case
    by (subst scan_box.simps, unfold Let_def)
      (intro returns_if returns_obind returns_read_u32 returns_slice returns_simps "1",
        auto simp: BOX_HEADER_LEN_def)
qed

lemma returns_descend: "returns (descend payload path)"
  by (induction payload path rule: descend.induct)
    (auto intro!: returns_obind returns_scan_box split: option.split)

lemma returns_descriptor_loop: "returns (descriptor_loop tag body)"
proof (induction tag body rule: descriptor_loop.induct)
  case (1 tag body)
  show ?case
    by (subst descriptor_loop.simps, unfold Let_def)
      (intro returns_if returns_obind returns_idx returns_slice returns_simps,
        auto split: option.split simp: Let_def intro!: "1" simp: Suc_le_eq)
qed

lemma returns_find_descriptor: "returns (find_descriptor body tag n)"
  unfolding find_descriptor_def
  by (intro returns_if returns_obind returns_slice returns_simps returns_descriptor_loop) auto

lemma returns_and_then:
  "returns m \<Longrightarrow> (\<And>v. m = Ok (Some v) \<Longrightarrow> returns (f v)) \<Longrightarrow> returns (and_then m f)"
  by (auto intro!: returns_obind split: option.split)

lemma returns_extract_asc: "returns (extract_asc init_segment)"
  unfolding extract_asc_def
  by (intro returns_and_then returns_descend returns_scan_box returns_find_descriptor returns_if
      returns_obind returns_slice returns_simps) auto

lemma returns_mdat_box_extent: "offset + 8 \<le> length payload \<Longrightarrow> returns (mdat_box_extent payload offset w)"
  unfolding mdat_box_extent_def Let_def
  by (intro returns_if returns_obind returns_read_u64 returns_simps) auto

lemma returns_mdat_body_loop: "returns (mdat_body_loop payload offset)"
proof (induction payload offset rule: mdat_body_loop.induct)
  case (1 payload offset)
  show ?case
    by (subst mdat_body_loop.simps, unfold Let_def)
      (intro returns_if returns_obind returns_read_u32 returns_slice returns_mdat_box_extent returns_simps,
        auto split: option.split simp: Let_def intro!: "1")
qed

section \<open>Lemmas: walking well-formed boxes\<close>

definition box_fits :: "string \<Rightarrow> bytes \<Rightarrow> bool" where
  "box_fits ty body \<longleftrightarrow> length ty = 4 \<and> 8 + length body < 2 ^ 32"

lemma read_u32_bytes:
  "read_u32_at (pre @ be32_bytes w @ rest) (length pre) = Ok w"
  by (simp add: read_u32_at_def be32_bytes_def idx_def nth_append)

lemma scan_box_step:
  assumes "box_fits ty body"
  shows "scan_box fourcc (pre @ mp4_box ty body @ rest) (length pre) =
    (if ascii_bytes ty = fourcc then Ok (Some body)
     else scan_box fourcc ((pre @ mp4_box ty body) @ rest) (length (pre @ mp4_box ty body)))"
proof -
  let ?p = "pre @ mp4_box ty body @ rest"
  have ty: "length ty = 4" and n: "8 + length body < 2 ^ 32" using assms by (simp_all add: box_fits_def)
  have r: "read_u32_at ?p (length pre) = Ok (of_nat (8 + length body))"
    using read_u32_bytes [of pre "of_nat (8 + length body)" "ascii_bytes ty @ body @ rest"] ty
    by (simp add: mp4_box_def)
  have u: "unat (of_nat (8 + length body) :: u32) = 8 + length body"
    using n by (intro unat_of_nat_id) simp
  have s: "slice ?p (length pre + 4) (length pre + BOX_HEADER_LEN) = (Ok (ascii_bytes ty) :: (bytes, unit) outcome)"
    by (simp add: slice_def mp4_box_def BOX_HEADER_LEN_def ty)
  have b: "slice ?p (length pre + BOX_HEADER_LEN) (length pre + (8 + length body)) =
      (Ok body :: (bytes, unit) outcome)"
    by (simp add: slice_def mp4_box_def BOX_HEADER_LEN_def ty)
  have l: "length pre + BOX_HEADER_LEN \<le> length ?p" by (simp add: BOX_HEADER_LEN_def ty)
  have g: "8 + length body < BOX_HEADER_LEN \<or> 8 + length body > length ?p - length pre \<longleftrightarrow> False"
    by (simp add: BOX_HEADER_LEN_def ty)
  have lp: "length pre + (8 + length body) = length (pre @ mp4_box ty body)" by (simp add: ty)
  show ?thesis
    by (subst scan_box.simps)
      (simp only: l if_True r s obind.simps u Let_def g if_False lp b [unfolded lp] append_assoc)
qed

definition box_list :: "(string \<times> bytes) list \<Rightarrow> bytes" where
  "box_list bs = concat (map (\<lambda>(ty, body). mp4_box ty body) bs)"

lemma scan_box_finds:
  assumes "\<forall>(t, b)\<in>set sibs. t \<noteq> ty \<and> box_fits t b" and "box_fits ty body"
  shows "scan_box (ascii_bytes ty) (pre @ box_list sibs @ mp4_box ty body @ rest) (length pre) = Ok (Some body)"
  using assms(1)
proof (induction sibs arbitrary: pre)
  case Nil
  then show ?case using scan_box_step [OF assms(2), of "ascii_bytes ty" pre rest] by (simp add: box_list_def)
next
  case (Cons s sibs)
  obtain t b where s: "s = (t, b)" by (cases s)
  with Cons.prems have t: "t \<noteq> ty" "box_fits t b" by auto
  have "scan_box (ascii_bytes ty) ((pre @ mp4_box t b) @ box_list sibs @ mp4_box ty body @ rest)
      (length (pre @ mp4_box t b)) = Ok (Some body)"
    using Cons.prems by (intro Cons.IH) simp
  then show ?case
    using scan_box_step [OF t(2), of "ascii_bytes ty" pre "box_list sibs @ mp4_box ty body @ rest"] t(1)
    by (simp add: s box_list_def)
qed

lemma descend_step:
  assumes "\<forall>(t, b)\<in>set sibs. t \<noteq> ty \<and> box_fits t b" and "box_fits ty body"
  shows "descend (box_list sibs @ mp4_box ty body @ rest) (ascii_bytes ty # path) = descend body path"
  using scan_box_finds [OF assms, of "[]" rest] by simp

section \<open>Lemmas: the two extractors\<close>

lemma mdat_loop_agrees:
  "scan_box (ascii_bytes ''mdat'') payload cursor = Ok (Some body) \<Longrightarrow>
    mdat_body_loop payload cursor = Ok (Some body)"
proof (induction "ascii_bytes ''mdat''" payload cursor rule: scan_box.induct)
  case (1 payload cursor)
  have l: "cursor + 8 \<le> length payload"
    using "1.prems" by (auto simp: scan_box.simps [of _ payload] BOX_HEADER_LEN_def split: if_splits)
  then obtain w where w: "read_u32_at payload cursor = Ok w"
    using returns_read_u32 [of cursor payload] by (auto simp: returns_def)
  have s: "slice payload (cursor + 4) (cursor + 8) = (Ok (take 4 (drop (cursor + 4) payload)) :: (bytes, unit) outcome)"
    using l by simp
  have b: "\<not> unat w < 8" "\<not> unat w > length payload - cursor"
    using "1.prems" l by (auto simp: scan_box.simps [of _ payload] BOX_HEADER_LEN_def w s Let_def split: if_splits)
  then have "w \<noteq> 0" "w \<noteq> 1" by auto
  then have e: "mdat_box_extent payload cursor w = Ok (Some (8, unat w - 8))"
    using b by (simp add: mdat_box_extent_def Let_def)
  have n: "cursor + 8 + (unat w - 8) = cursor + unat w" "\<not> cursor + unat w > length payload"
    using b l by auto
  note step = mdat_body_loop.simps [of payload cursor, unfolded w s e obind.simps option.case prod.case Let_def n(1)]
  show ?case
  proof (cases "take 4 (drop (cursor + 4) payload) = ascii_bytes ''mdat''")
    case True
    then show ?thesis
      using "1.prems" l b n
      by (simp add: step scan_box.simps [of _ payload cursor] BOX_HEADER_LEN_def w s Let_def)
  next
    case False
    have "scan_box (ascii_bytes ''mdat'') payload (cursor + unat w) = Ok (Some body)"
      using "1.prems" l b False by (simp add: scan_box.simps [of _ payload cursor] BOX_HEADER_LEN_def w s Let_def)
    then have "mdat_body_loop payload (cursor + unat w) = Ok (Some body)"
      using "1.hyps" [of w "take 4 (drop (cursor + 4) payload)" "unat w"] l w s b False
      by (simp add: BOX_HEADER_LEN_def)
    then show ?thesis using l n False by (simp add: step)
  qed
qed

lemma idx_shift: "idx (pre @ p) (length pre + i) = idx p i"
  by (simp add: idx_def nth_append)

lemma slice_shift: "slice (pre @ p) (length pre + a) (length pre + b) = slice p a b"
  by (simp add: slice_def)

lemma read_u32_shift: "read_u32_at (pre @ p) (length pre + i) = read_u32_at p i"
  unfolding read_u32_at_def by (simp only: add.assoc idx_shift)

lemma scan_box_shift: "scan_box fourcc (pre @ p) (length pre + c) = scan_box fourcc p c"
proof (induction fourcc p c rule: scan_box.induct)
  case (1 fourcc p c)
  have l: "length pre + (c + BOX_HEADER_LEN) \<le> length (pre @ p) \<longleftrightarrow> c + BOX_HEADER_LEN \<le> length p"
    "length (pre @ p) - (length pre + c) = length p - c"
    by simp_all
  show ?case
  proof (cases "c + BOX_HEADER_LEN \<le> length p")
    case True
    then obtain w where w: "read_u32_at p c = Ok w"
      using returns_read_u32 [of c p] by (auto simp: returns_def BOX_HEADER_LEN_def)
    obtain ty where ty: "slice p (c + 4) (c + BOX_HEADER_LEN) = (Ok ty :: (bytes, unit) outcome)"
      using True by (auto simp: BOX_HEADER_LEN_def)
    have ih: "scan_box fourcc (pre @ p) (length pre + (c + unat w)) = scan_box fourcc p (c + unat w)"
      if "\<not> (unat w < BOX_HEADER_LEN \<or> unat w > length p - c)" "ty \<noteq> fourcc"
      using "1" [OF True w ty refl that(1)] that(2) by simp
    have e: "scan_box fourcc p c =
        (if unat w < BOX_HEADER_LEN \<or> unat w > length p - c then Ok None
         else if ty = fourcc then obind (slice p (c + BOX_HEADER_LEN) (c + unat w)) (\<lambda>body. Ok (Some body))
         else scan_box fourcc p (c + unat w))"
      by (subst scan_box.simps) (simp only: True if_True w ty obind.simps Let_def)
    have "scan_box fourcc (pre @ p) (length pre + c) =
        (if unat w < BOX_HEADER_LEN \<or> unat w > length p - c then Ok None
         else if ty = fourcc then obind (slice p (c + BOX_HEADER_LEN) (c + unat w)) (\<lambda>body. Ok (Some body))
         else scan_box fourcc (pre @ p) (length pre + (c + unat w)))"
      by (subst scan_box.simps)
        (simp only: l True if_True add.assoc read_u32_shift slice_shift w ty obind.simps Let_def)
    then show ?thesis using e ih by simp
  qed (simp add: scan_box.simps [of fourcc p c] scan_box.simps [of fourcc "pre @ p"])
qed

lemma styp_box: "CMAF_CHUNK_STYP_BYTES = mp4_box ''styp'' (ascii_bytes ''cmfc'' @ [0, 0, 0, 0] @
    ascii_bytes ''cmfc'' @ ascii_bytes ''iso6'')"
  by (simp add: CMAF_CHUNK_STYP_BYTES_def mp4_box_def be32_bytes_def)

lemma styp_skipped:
  "extract_first_mdat (prepend_cmaf_chunk_styp payload) = extract_first_mdat payload"
proof -
  let ?b = "ascii_bytes ''cmfc'' @ [0, 0, 0, 0] @ ascii_bytes ''cmfc'' @ ascii_bytes ''iso6''"
  have "box_fits ''styp'' ?b" by (simp add: box_fits_def)
  from scan_box_step [OF this, of "ascii_bytes ''mdat''" "[]" payload]
  show ?thesis
    using scan_box_shift [of "ascii_bytes ''mdat''" CMAF_CHUNK_STYP_BYTES payload 0]
    by (simp add: extract_first_mdat_def prepend_cmaf_chunk_styp_def styp_box)
qed

text \<open>
  Reading fragments on the egress side: no reader panics on any buffer, whatever the whisper agent's
  extractor finds as the \<open>mdat\<close> body the RTSP extractor finds too, and both find the same body when the
  HTTP servers' \<open>styp\<close> prefix stands before the fragment.
\<close>

theorem mdat_extractors:
  "returns (extract_first_mdat payload) \<and> returns (extract_mdat_body payload) \<and>
   returns (extract_asc payload) \<and>
   (extract_first_mdat payload = Ok (Some body) \<longrightarrow>
     extract_mdat_body payload = Ok (Some body) \<and>
     extract_first_mdat (prepend_cmaf_chunk_styp payload) = Ok (Some body) \<and>
     extract_mdat_body (prepend_cmaf_chunk_styp payload) = Ok (Some body))"
proof -
  have "extract_first_mdat p = Ok (Some body) \<Longrightarrow> extract_mdat_body p = Ok (Some body)" for p
    using mdat_loop_agrees by (simp add: extract_first_mdat_def extract_mdat_body_def)
  moreover have "returns (extract_first_mdat payload)" "returns (extract_mdat_body payload)"
    using returns_scan_box returns_mdat_body_loop by (simp_all add: extract_first_mdat_def extract_mdat_body_def)
  ultimately show ?thesis using returns_extract_asc styp_skipped by metis
qed

theorem mdat_extractors_witness:
  "extract_mdat_body (prepend_cmaf_chunk_styp (mp4_box ''moof'' [1, 2] @ mp4_box ''mdat'' [7, 8, 9])) =
     Ok (Some [7, 8, 9])"
proof -
  have "extract_first_mdat (mp4_box ''moof'' [1, 2] @ mp4_box ''mdat'' [7, 8, 9]) = Ok (Some [7, 8, 9])"
    using scan_box_finds [of "[(''moof'', [1, 2])]" "''mdat''" "[7, 8, 9]" "[]" "[]"]
    by (simp add: extract_first_mdat_def box_fits_def box_list_def)
  then show ?thesis using mdat_extractors by blast
qed

end
