(* ===== verification/Fmp4.thy ===== *)
theory Fmp4
  imports Flv Mp4Read
begin

text \<open>
  The fragmented-MP4 writer of \<open>lvqr-ingest/src/remux/fmp4.rs\<close>: box and descriptor framing with sizes
  patched in after the body, the H.264 and AAC init segments, and the audio media segment whose
  \<open>trun\<close> data offset is patched by walking the boxes just written.  A writer is a state transformer on
  the buffer; \<open>appends\<close> says that it only adds bytes at the end, and the framing lemmas turn every writer
  into the box it appends.
\<close>

section \<open>Writers\<close>

type_synonym writer = "bytes \<Rightarrow> (bytes, unit) outcome"

primrec put_all :: "writer list \<Rightarrow> writer" where
  "put_all [] buf = Ok buf"
| "put_all (w # ws) buf = obind (w buf) (put_all ws)"

definition put_slice :: "bytes \<Rightarrow> writer" where "put_slice s buf = Ok (buf @ s)"
definition put_u8 :: "u8 \<Rightarrow> writer" where "put_u8 b buf = Ok (buf @ [b])"
definition put_u16 :: "u16 \<Rightarrow> writer" where "put_u16 w buf = Ok (buf @ be16_bytes w)"
definition put_u32 :: "u32 \<Rightarrow> writer" where "put_u32 w buf = Ok (buf @ be32_bytes w)"
definition put_zeros :: "nat \<Rightarrow> writer" where "put_zeros n buf = Ok (buf @ replicate n 0)"

definition be64_bytes :: "u64 \<Rightarrow> bytes" where
  "be64_bytes w = be32_bytes (ucast (drop_bit 32 w)) @ be32_bytes (ucast w)"

definition put_u64 :: "u64 \<Rightarrow> writer" where "put_u64 w buf = Ok (buf @ be64_bytes w)"

text \<open>\<open>buf[pos..pos + n].copy_from_slice(s)\<close>.\<close>

definition overwrite :: "nat \<Rightarrow> bytes \<Rightarrow> writer" where
  "overwrite pos s buf =
     (if pos + length s \<le> length buf then Ok (take pos buf @ s @ drop (pos + length s) buf) else Panic)"

definition write_box :: "string \<Rightarrow> writer \<Rightarrow> writer" where
  "write_box box_type f buf =
     (let start = length buf in
      obind (put_all [put_u32 0, put_slice (ascii_bytes box_type), f] buf) (\<lambda>buf.
        let size = of_nat (length buf - start) :: u32 in overwrite start (be32_bytes size) buf))"

definition write_full_box :: "string \<Rightarrow> u8 \<Rightarrow> u32 \<Rightarrow> writer \<Rightarrow> writer" where
  "write_full_box box_type version flags f =
     write_box box_type (put_all [put_u8 version, put_u8 (ucast (drop_bit 16 flags)),
       put_u8 (ucast (drop_bit 8 flags)), put_u8 (ucast flags), f])"

definition write_mpeg4_descriptor :: "u8 \<Rightarrow> writer \<Rightarrow> writer" where
  "write_mpeg4_descriptor tag f buf =
     obind (put_u8 tag buf) (\<lambda>buf.
       let size_pos = length buf in
       obind (put_zeros 4 buf) (\<lambda>buf.
         let payload_start = length buf in
         obind (f buf) (\<lambda>buf.
           let size = length buf - payload_start in
           if size < 2 ^ 28 then
             overwrite size_pos
               [0x80 OR of_nat (drop_bit 21 size AND 0x7F), 0x80 OR of_nat (drop_bit 14 size AND 0x7F),
                0x80 OR of_nat (drop_bit 7 size AND 0x7F), of_nat (size AND 0x7F)] buf
           else Panic)))"

section \<open>Boxes shared by both init segments\<close>

definition write_ftyp :: writer where
  "write_ftyp = write_box ''ftyp'' (put_all [put_slice (ascii_bytes ''isom''), put_u32 0,
     put_slice (ascii_bytes ''isom''), put_slice (ascii_bytes ''iso6''), put_slice (ascii_bytes ''msdh''),
     put_slice (ascii_bytes ''msix'')])"

definition identity_matrix :: writer where
  "identity_matrix = put_all (map put_u32 [0x00010000, 0, 0, 0, 0x00010000, 0, 0, 0, 0x40000000])"

definition write_mvhd :: "u32 \<Rightarrow> writer" where
  "write_mvhd timescale = write_full_box ''mvhd'' 0 0 (put_all [put_u32 0, put_u32 0, put_u32 timescale,
     put_u32 0, put_u32 0x00010000, put_u16 0x0100, put_zeros 10, identity_matrix, put_zeros 24, put_u32 2])"

definition write_tkhd :: "u16 \<Rightarrow> u32 \<Rightarrow> u32 \<Rightarrow> writer" where
  "write_tkhd volume width height = write_full_box ''tkhd'' 0 0x03 (put_all [put_u32 0, put_u32 0,
     put_u32 1, put_u32 0, put_u32 0, put_zeros 8, put_u16 0, put_u16 0, put_u16 volume, put_u16 0,
     identity_matrix, put_u32 width, put_u32 height])"

definition write_mdhd :: "u32 \<Rightarrow> writer" where
  "write_mdhd timescale = write_full_box ''mdhd'' 0 0 (put_all [put_u32 0, put_u32 0, put_u32 timescale,
     put_u32 0, put_u32 0x55C40000])"

definition write_hdlr :: "string \<Rightarrow> string \<Rightarrow> writer" where
  "write_hdlr handler_type handler_name = write_full_box ''hdlr'' 0 0 (put_all [put_u32 0,
     put_slice (ascii_bytes handler_type), put_zeros 12, put_slice (ascii_bytes handler_name @ [0])])"

definition write_dinf :: writer where
  "write_dinf = write_box ''dinf'' (write_full_box ''dref'' 0 0 (put_all [put_u32 1,
     write_full_box ''url '' 0 1 (put_all [])]))"

definition empty_tables :: writer where
  "empty_tables = put_all [write_full_box ''stts'' 0 0 (put_u32 0), write_full_box ''stsc'' 0 0 (put_u32 0),
     write_full_box ''stsz'' 0 0 (put_all [put_u32 0, put_u32 0]), write_full_box ''stco'' 0 0 (put_u32 0)]"

definition write_mvex :: writer where
  "write_mvex = write_box ''mvex'' (write_full_box ''trex'' 0 0 (put_all [put_u32 1, put_u32 1, put_u32 0,
     put_u32 0, put_u32 0]))"

section \<open>The video init segment\<close>

definition put_param_sets :: "bytes list \<Rightarrow> writer" where
  "put_param_sets sets =
     put_all (concat (map (\<lambda>s. [put_u16 (of_nat (length s)), put_slice s]) sets))"

definition write_avcc :: "video_config \<Rightarrow> writer" where
  "write_avcc config = write_box ''avcC'' (put_all [put_u8 1, put_u8 (profile config),
     put_u8 (compat config), put_u8 (level config), put_u8 0xFF,
     put_u8 (0xE0 OR of_nat (length (sps_list config))), put_param_sets (sps_list config),
     put_u8 (of_nat (length (pps_list config))), put_param_sets (pps_list config)])"

definition write_avc1 :: "video_config \<Rightarrow> u16 \<Rightarrow> u16 \<Rightarrow> writer" where
  "write_avc1 config width height = write_box ''avc1'' (put_all [put_zeros 6, put_u16 1, put_zeros 16,
     put_u16 width, put_u16 height, put_u32 0x00480000, put_u32 0x00480000, put_u32 0, put_u16 1,
     put_zeros 32, put_u16 0x0018, put_u16 (- 1), write_avcc config])"

definition write_video_stbl :: "video_config \<Rightarrow> u16 \<Rightarrow> u16 \<Rightarrow> writer" where
  "write_video_stbl config width height = write_box ''stbl'' (put_all [
     write_full_box ''stsd'' 0 0 (put_all [put_u32 1, write_avc1 config width height]), empty_tables])"

definition write_video_trak :: "video_config \<Rightarrow> u16 \<Rightarrow> u16 \<Rightarrow> writer" where
  "write_video_trak config width height = write_box ''trak'' (put_all [
     write_tkhd 0 (push_bit 16 (ucast width)) (push_bit 16 (ucast height)),
     write_box ''mdia'' (put_all [write_mdhd 90000, write_hdlr ''vide'' ''LVQR Video'',
       write_box ''minf'' (put_all [write_full_box ''vmhd'' 0 1 (put_all [put_u16 0, put_zeros 6]),
         write_dinf, write_video_stbl config width height])])])"

definition video_init_segment_with_size :: "video_config \<Rightarrow> u16 \<Rightarrow> u16 \<Rightarrow> (bytes, unit) outcome" where
  "video_init_segment_with_size config width height =
     put_all [write_ftyp, write_box ''moov'' (put_all [write_mvhd 90000,
       write_video_trak config width height, write_mvex])] []"

definition video_init_segment :: "video_config \<Rightarrow> (bytes, unit) outcome" where
  "video_init_segment config = video_init_segment_with_size config 0 0"

section \<open>The audio init segment\<close>

definition write_esds :: "bytes \<Rightarrow> writer" where
  "write_esds asc = write_full_box ''esds'' 0 0 (write_mpeg4_descriptor 0x03 (put_all [put_u16 1, put_u8 0,
     write_mpeg4_descriptor 0x04 (put_all [put_u8 0x40, put_u8 0x15, put_u8 0, put_u16 0, put_u32 0,
       put_u32 0, write_mpeg4_descriptor 0x05 (put_slice asc)]),
     write_mpeg4_descriptor 0x06 (put_u8 0x02)]))"

definition write_mp4a :: "audio_config \<Rightarrow> writer" where
  "write_mp4a config = write_box ''mp4a'' (put_all [put_zeros 6, put_u16 1, put_zeros 8,
     put_u16 (ucast (ac_channels config)), put_u16 16, put_u16 0, put_u16 0,
     put_u32 (push_bit 16 (ac_sample_rate config)), write_esds (ac_asc config)])"

definition write_audio_stbl :: "audio_config \<Rightarrow> writer" where
  "write_audio_stbl config = write_box ''stbl'' (put_all [
     write_full_box ''stsd'' 0 0 (put_all [put_u32 1, write_mp4a config]), empty_tables])"

definition write_audio_trak :: "audio_config \<Rightarrow> writer" where
  "write_audio_trak config = write_box ''trak'' (put_all [write_tkhd 0x0100 0 0,
     write_box ''mdia'' (put_all [write_mdhd (ac_sample_rate config), write_hdlr ''soun'' ''LVQR Audio'',
       write_box ''minf'' (put_all [write_full_box ''smhd'' 0 0 (put_all [put_u16 0, put_u16 0]),
         write_dinf, write_audio_stbl config])])])"

definition audio_init_segment :: "audio_config \<Rightarrow> (bytes, unit) outcome" where
  "audio_init_segment config =
     put_all [write_ftyp, write_box ''moov'' (put_all [write_mvhd (ac_sample_rate config),
       write_audio_trak config, write_mvex])] []"

section \<open>The audio media segment\<close>

text \<open>
  \<open>patch_trun_data_offset\<close>: the outer loop over the boxes of the movie fragment and the inner loop over
  the boxes of a \<open>traf\<close>.  The sizes come from the buffer and may be 0, so the loops may run forever,
  which is the value \<open>None\<close>.  \<open>Ok (Some buf)\<close> is the early \<open>return\<close> behind the patch and \<open>Ok None\<close> the
  end of the inner loop.
\<close>

partial_function (option) patch_traf_loop ::
    "u32 \<Rightarrow> nat \<Rightarrow> bytes \<Rightarrow> nat \<Rightarrow> (bytes option, unit) outcome option" where
  "patch_traf_loop data_offset traf_end buf inner =
     (if inner + 8 \<le> traf_end then
        (case obind (read_u32_at buf inner) (\<lambda>sz. obind (slice buf (inner + 4) (inner + 8)) (\<lambda>ty.
            Ok (unat sz, ty))) of
           Panic \<Rightarrow> Some Panic
         | Err e \<Rightarrow> Some (Err e)
         | Ok (inner_size, inner_type) \<Rightarrow>
             if inner_type = ascii_bytes ''trun'' then
               Some (omap Some (overwrite (inner + 8 + 4 + 4) (be32_bytes data_offset) buf))
             else patch_traf_loop data_offset traf_end buf (inner + inner_size))
      else Some (Ok None))"

partial_function (option) patch_moof_loop ::
    "u32 \<Rightarrow> bytes \<Rightarrow> nat \<Rightarrow> (bytes, unit) outcome option" where
  "patch_moof_loop data_offset buf pos =
     (if pos + 8 \<le> length buf then
        (case obind (read_u32_at buf pos) (\<lambda>sz. obind (slice buf (pos + 4) (pos + 8)) (\<lambda>ty.
            Ok (unat sz, ty))) of
           Panic \<Rightarrow> Some Panic
         | Err e \<Rightarrow> Some (Err e)
         | Ok (box_size, box_type) \<Rightarrow>
             if box_type = ascii_bytes ''traf'' then
               Option.bind (patch_traf_loop data_offset (pos + box_size) buf (pos + 8)) (\<lambda>r.
                 case r of
                   Panic \<Rightarrow> Some Panic
                 | Err e \<Rightarrow> Some (Err e)
                 | Ok (Some buf') \<Rightarrow> Some (Ok buf')
                 | Ok None \<Rightarrow> patch_moof_loop data_offset buf (pos + box_size))
             else patch_moof_loop data_offset buf (pos + box_size))
      else Some (Ok buf))"

definition patch_trun_data_offset :: "bytes \<Rightarrow> nat \<Rightarrow> u32 \<Rightarrow> (bytes, unit) outcome option" where
  "patch_trun_data_offset buf moof_start data_offset = patch_moof_loop data_offset buf (moof_start + 8)"

definition write_audio_moof :: "u32 \<Rightarrow> u64 \<Rightarrow> u32 \<Rightarrow> bytes \<Rightarrow> writer" where
  "write_audio_moof sequence base_dts duration data = write_box ''moof'' (put_all [
     write_full_box ''mfhd'' 0 0 (put_u32 sequence),
     write_box ''traf'' (put_all [
       write_full_box ''tfhd'' 0 0x020000 (put_u32 1),
       write_full_box ''tfdt'' 1 0 (put_u64 base_dts),
       write_full_box ''trun'' 0 (0x000001 OR 0x000100 OR 0x000200) (put_all [put_u32 1, put_u32 0,
         put_u32 duration, put_u32 (of_nat (length data))])])])"

definition audio_segment :: "u32 \<Rightarrow> u64 \<Rightarrow> u32 \<Rightarrow> bytes \<Rightarrow> (bytes, unit) outcome option" where
  "audio_segment sequence base_dts duration data =
     (case write_audio_moof sequence base_dts duration data [] of
        Panic \<Rightarrow> Some Panic
      | Err e \<Rightarrow> Some (Err e)
      | Ok buf \<Rightarrow>
          (let moof_size = length buf - 0; data_offset = of_nat (moof_size + 8) :: u32 in
           Option.bind (patch_trun_data_offset buf 0 data_offset) (\<lambda>r.
             Some (obind r (write_box ''mdat'' (put_slice data))))))"

section \<open>Lemmas: writers append\<close>

definition appends :: "writer \<Rightarrow> bytes \<Rightarrow> bool" where
  "appends w body \<longleftrightarrow> (\<forall>buf. w buf = Ok (buf @ body))"

text \<open>\<open>puts w n\<close>: the writer appends \<open>n\<close> bytes, whatever they are.\<close>

definition puts :: "writer \<Rightarrow> nat \<Rightarrow> bool" where
  "puts w n \<longleftrightarrow> (\<exists>body. appends w body \<and> length body = n)"

named_theorems appends_intros \<open>what each writer appends\<close>
named_theorems puts_intros \<open>how many bytes each writer appends\<close>

lemma appends_primitive [appends_intros]:
  "appends (put_slice s) s" "appends (put_u8 b) [b]" "appends (put_u16 v) (be16_bytes v)"
  "appends (put_u32 w) (be32_bytes w)" "appends (put_u64 d) (be64_bytes d)"
  "appends (put_zeros n) (replicate n 0)"
  by (simp_all add: appends_def put_slice_def put_u8_def put_u16_def put_u32_def put_u64_def put_zeros_def)

lemma appends_put_all_Nil [appends_intros]: "appends (put_all []) []"
  by (simp add: appends_def)

lemma appends_put_all_Cons [appends_intros]:
  "appends w b \<Longrightarrow> appends (put_all ws) bs \<Longrightarrow> appends (put_all (w # ws)) (b @ bs)"
  by (simp add: appends_def)

lemma appends_put_all_map: "(\<And>x. appends (w x) (b x)) \<Longrightarrow> appends (put_all (map w xs)) (concat (map b xs))"
  by (induction xs) (simp_all add: appends_def)

lemma appends_box [appends_intros]:
  assumes "appends f body"
  shows "appends (write_box ty f) (mp4_box ty body)"
proof -
  have "put_all [put_u32 0, put_slice (ascii_bytes ty), f] buf =
      Ok (buf @ be32_bytes 0 @ ascii_bytes ty @ body)" for buf
    using assms by (simp add: appends_def put_u32_def put_slice_def)
  then show ?thesis
    by (simp add: appends_def write_box_def overwrite_def mp4_box_def add.assoc)
qed

definition full_body :: "u8 \<Rightarrow> u32 \<Rightarrow> bytes \<Rightarrow> bytes" where
  "full_body version flags body =
     [version, ucast (drop_bit 16 flags), ucast (drop_bit 8 flags), ucast flags] @ body"

lemma length_full_body [simp]: "length (full_body v fl body) = 4 + length body"
  by (simp add: full_body_def)

lemma appends_full_box [appends_intros]:
  assumes "appends f body"
  shows "appends (write_full_box ty v fl f) (mp4_box ty (full_body v fl body))"
proof -
  have "appends (put_all [put_u8 v, put_u8 (ucast (drop_bit 16 fl)), put_u8 (ucast (drop_bit 8 fl)),
      put_u8 (ucast fl), f]) (full_body v fl body)"
    using assms by (simp add: appends_def put_u8_def full_body_def)
  then show ?thesis unfolding write_full_box_def by (rule appends_box)
qed

definition descriptor_size_bytes :: "nat \<Rightarrow> bytes" where
  "descriptor_size_bytes n = [0x80 OR of_nat (drop_bit 21 n AND 0x7F), 0x80 OR of_nat (drop_bit 14 n AND 0x7F),
     0x80 OR of_nat (drop_bit 7 n AND 0x7F), of_nat (n AND 0x7F)]"

definition mp4_descriptor :: "u8 \<Rightarrow> bytes \<Rightarrow> bytes" where
  "mp4_descriptor tag body = tag # descriptor_size_bytes (length body) @ body"

lemma length_mp4_descriptor [simp]: "length (mp4_descriptor tag body) = 5 + length body"
  by (simp add: mp4_descriptor_def descriptor_size_bytes_def)

lemma overwrite_mid: "length s = length old \<Longrightarrow> overwrite (length pre) s (pre @ old @ post) = Ok (pre @ s @ post)"
  by (simp add: overwrite_def)

lemma appends_descriptor [appends_intros]:
  assumes "appends f body" and "length body < 2 ^ 28"
  shows "appends (write_mpeg4_descriptor tag f) (mp4_descriptor tag body)"
proof -
  have "write_mpeg4_descriptor tag f buf = Ok (buf @ mp4_descriptor tag body)" for buf
  proof -
    have f: "f ((buf @ [tag]) @ replicate 4 0) = Ok ((buf @ [tag]) @ replicate 4 0 @ body)"
      using assms(1) by (simp add: appends_def)
    have n: "length ((buf @ [tag]) @ replicate 4 0 @ body) - length ((buf @ [tag]) @ replicate 4 (0 :: u8)) =
        length body"
      by simp
    have o: "overwrite (length (buf @ [tag])) (descriptor_size_bytes (length body))
        ((buf @ [tag]) @ replicate 4 0 @ body) =
        Ok ((buf @ [tag]) @ descriptor_size_bytes (length body) @ body)"
      by (rule overwrite_mid) (simp add: descriptor_size_bytes_def)
    show ?thesis
      unfolding write_mpeg4_descriptor_def put_u8_def put_zeros_def obind.simps Let_def f n
        descriptor_size_bytes_def [symmetric] o
      using assms(2) by (simp add: mp4_descriptor_def)
  qed
  then show ?thesis by (simp add: appends_def)
qed

lemma puts_primitive [puts_intros]:
  "puts (put_slice s) (length s)" "puts (put_u8 b) 1" "puts (put_u16 v) 2" "puts (put_u32 w) 4"
  "puts (put_u64 d) 8" "puts (put_zeros n) n"
  unfolding puts_def be64_bytes_def
  by (auto intro!: exI appends_primitive simp: be64_bytes_def)

lemma puts_put_all [puts_intros]:
  "puts (put_all []) 0" "puts w n \<Longrightarrow> puts (put_all ws) m \<Longrightarrow> puts (put_all (w # ws)) (n + m)"
  unfolding puts_def by (blast intro: appends_put_all_Nil, metis appends_put_all_Cons length_append)

lemma puts_box [puts_intros]: "puts f n \<Longrightarrow> puts (write_box ty f) (4 + length ty + n)"
  unfolding puts_def by (metis appends_box length_mp4_box)

lemma puts_full_box [puts_intros]: "puts f n \<Longrightarrow> puts (write_full_box ty v fl f) (4 + length ty + (4 + n))"
  unfolding puts_def by (metis appends_full_box length_mp4_box length_full_body)

lemma puts_cong: "puts w n \<Longrightarrow> n = m \<Longrightarrow> puts w m"
  by simp

definition boxes :: "writer \<Rightarrow> string \<Rightarrow> nat \<Rightarrow> bool" where
  "boxes w ty n \<longleftrightarrow> (\<exists>body. length body = n \<and> appends w (mp4_box ty body))"

lemma boxes_box: "puts f m \<Longrightarrow> m = n \<Longrightarrow> boxes (write_box ty f) ty n"
  unfolding puts_def boxes_def by (metis appends_box)

lemma boxes_full: "puts f m \<Longrightarrow> 4 + m = n \<Longrightarrow> boxes (write_full_box ty v fl f) ty n"
  unfolding puts_def boxes_def by (metis appends_full_box length_full_body)

lemma boxesE:
  assumes "boxes w ty n"
  obtains body where "length body = n" and "appends w (mp4_box ty body)"
  using assms unfolding boxes_def by blast

lemma puts_identity_matrix [puts_intros]: "puts identity_matrix 36"
  unfolding identity_matrix_def by (rule puts_cong, simp only: list.map, (rule puts_intros)+) simp

lemma puts_empty_tables [puts_intros]: "puts empty_tables 68"
  unfolding empty_tables_def by (rule puts_cong, (rule puts_intros)+) simp

lemma length_ascii [simp]: "length (ascii_bytes s) = length s"
  by (fact length_ascii_bytes)

text \<open>The boxes beside the path to the sample entry, with their types and body lengths.\<close>

lemma side_boxes:
  "boxes write_ftyp ''ftyp'' 24" "boxes (write_mvhd ts) ''mvhd'' 100"
  "boxes (write_tkhd vol w h) ''tkhd'' 84" "boxes (write_mdhd ts) ''mdhd'' 24"
  "boxes write_mvex ''mvex'' 32" "boxes write_dinf ''dinf'' 28"
  unfolding write_ftyp_def write_mvhd_def write_tkhd_def write_mdhd_def write_mvex_def write_dinf_def
  by ((rule boxes_box boxes_full, (rule puts_intros)+, simp))+

lemma hdlr_box: "boxes (write_hdlr ty nm) ''hdlr'' (21 + length ty + length nm)"
  unfolding write_hdlr_def by (rule boxes_full, (rule puts_intros)+, simp)

text \<open>
  The path from the top of an init segment down to the sample description, for any writer of the shape
  both init segments have.
\<close>

lemma init_path:
  assumes ts: "boxes mvhd ''mvhd'' n0" "boxes tkhd ''tkhd'' n1" "boxes mdhd ''mdhd'' n2" "boxes hdlr ''hdlr'' n3"
    "boxes xmhd ty n4" "ty \<noteq> ''stbl''" "length ty = 4" "n0 + n1 + n2 + n3 + n4 < 1000000"
    and e: "appends entry e" "length e < 2 ^ 31"
  shows "\<exists>seg. put_all [write_ftyp, write_box ''moov'' (put_all [mvhd,
      write_box ''trak'' (put_all [tkhd, write_box ''mdia'' (put_all [mdhd, hdlr,
        write_box ''minf'' (put_all [xmhd, write_dinf, write_box ''stbl'' (put_all [
          write_full_box ''stsd'' 0 0 (put_all [put_u32 1, entry]), empty_tables])])])]),
      write_mvex])] [] = Ok seg \<and>
    descend seg (map ascii_bytes [''moov'', ''trak'', ''mdia'', ''minf'', ''stbl'', ''stsd'']) =
      Ok (Some (full_body 0 0 (be32_bytes 1 @ e)))"
proof -
  obtain ftyp where ftyp: "length ftyp = 24" "appends write_ftyp (mp4_box ''ftyp'' ftyp)"
    using side_boxes(1) by (rule boxesE)
  obtain b0 where b0: "length b0 = n0" "appends mvhd (mp4_box ''mvhd'' b0)" using ts(1) by (rule boxesE)
  obtain b1 where b1: "length b1 = n1" "appends tkhd (mp4_box ''tkhd'' b1)" using ts(2) by (rule boxesE)
  obtain b2 where b2: "length b2 = n2" "appends mdhd (mp4_box ''mdhd'' b2)" using ts(3) by (rule boxesE)
  obtain b3 where b3: "length b3 = n3" "appends hdlr (mp4_box ''hdlr'' b3)" using ts(4) by (rule boxesE)
  obtain b4 where b4: "length b4 = n4" "appends xmhd (mp4_box ty b4)" using ts(5) by (rule boxesE)
  obtain dinf where dinf: "length dinf = 28" "appends write_dinf (mp4_box ''dinf'' dinf)"
    using side_boxes(6) by (rule boxesE)
  obtain mvex where mvex: "length mvex = 32" "appends write_mvex (mp4_box ''mvex'' mvex)"
    using side_boxes(5) by (rule boxesE)
  obtain tables where tables: "length tables = 68" "appends empty_tables tables"
    using puts_empty_tables by (auto simp: puts_def)
  define stsd where "stsd = full_body 0 0 (be32_bytes 1 @ e)"
  define stbl where "stbl = mp4_box ''stsd'' stsd @ tables"
  define minf where "minf = mp4_box ty b4 @ mp4_box ''dinf'' dinf @ mp4_box ''stbl'' stbl"
  define mdia where "mdia = mp4_box ''mdhd'' b2 @ mp4_box ''hdlr'' b3 @ mp4_box ''minf'' minf"
  define trak where "trak = mp4_box ''tkhd'' b1 @ mp4_box ''mdia'' mdia"
  define moov where "moov = mp4_box ''mvhd'' b0 @ mp4_box ''trak'' trak @ mp4_box ''mvex'' mvex"
  note intros = appends_put_all_Cons appends_put_all_Nil appends_box appends_full_box
  have "appends (write_full_box ''stsd'' 0 0 (put_all [put_u32 1, entry])) (mp4_box ''stsd'' stsd)"
    unfolding stsd_def using e(1) appends_primitive(4) [of 1]
    by (intro appends_full_box) (simp add: appends_def)
  then have "appends (write_box ''stbl'' (put_all [write_full_box ''stsd'' 0 0 (put_all [put_u32 1, entry]),
      empty_tables])) (mp4_box ''stbl'' stbl)" (is "appends ?stbl _")
    unfolding stbl_def using tables(2) by (intro appends_box) (simp add: appends_def)
  then have "appends (write_box ''minf'' (put_all [xmhd, write_dinf, ?stbl])) (mp4_box ''minf'' minf)"
    (is "appends ?minf _")
    unfolding minf_def using b4(2) dinf(2) by (intro appends_box) (simp add: appends_def)
  then have "appends (write_box ''mdia'' (put_all [mdhd, hdlr, ?minf])) (mp4_box ''mdia'' mdia)"
    (is "appends ?mdia _")
    unfolding mdia_def using b2(2) b3(2) by (intro appends_box) (simp add: appends_def)
  then have "appends (write_box ''trak'' (put_all [tkhd, ?mdia])) (mp4_box ''trak'' trak)"
    (is "appends ?trak _")
    unfolding trak_def using b1(2) by (intro appends_box) (simp add: appends_def)
  then have "appends (write_box ''moov'' (put_all [mvhd, ?trak, write_mvex])) (mp4_box ''moov'' moov)"
    (is "appends ?moov _")
    unfolding moov_def using b0(2) mvex(2) by (intro appends_box) (simp add: appends_def)
  then have w: "put_all [write_ftyp, ?moov] [] = Ok (mp4_box ''ftyp'' ftyp @ mp4_box ''moov'' moov)"
    using ftyp(2) by (simp add: appends_def)
  have l: "length stsd < 2 ^ 31 + 8" "length stbl < 2 ^ 31 + 84" "length minf < 2 ^ 31 + 144 + n4"
    "length mdia < 2 ^ 31 + 168 + n4 + n2 + n3" "length trak < 2 ^ 31 + 184 + n4 + n2 + n3 + n1"
    "length moov < 2 ^ 31 + 240 + n4 + n2 + n3 + n1 + n0"
    using e(2) by (simp_all add: stsd_def stbl_def minf_def mdia_def trak_def moov_def tables(1) dinf(1)
        mvex(1) b0(1) b1(1) b2(1) b3(1) b4(1) ts(7))
  have fits: "box_fits ''stsd'' stsd" "box_fits ''stbl'' stbl" "box_fits ''minf'' minf"
    "box_fits ''mdia'' mdia" "box_fits ''trak'' trak" "box_fits ''moov'' moov" "box_fits ''ftyp'' ftyp"
    "box_fits ''mvhd'' b0" "box_fits ''tkhd'' b1" "box_fits ''mdhd'' b2" "box_fits ''hdlr'' b3"
    "box_fits ty b4" "box_fits ''dinf'' dinf"
    using l ts(7,8) by (simp_all add: box_fits_def ftyp(1) dinf(1) b0(1) b1(1) b2(1) b3(1) b4(1))
  note step = descend_step [unfolded box_list_def]
  have d1: "descend (mp4_box ''ftyp'' ftyp @ mp4_box ''moov'' moov) (ascii_bytes ''moov'' # p) = descend moov p" for p
    using step [of "[(''ftyp'', ftyp)]" "''moov''" moov "[]" p] fits by simp
  have d2: "descend moov (ascii_bytes ''trak'' # p) = descend trak p" for p
    using step [of "[(''mvhd'', b0)]" "''trak''" trak "mp4_box ''mvex'' mvex" p] fits by (simp add: moov_def)
  have d3: "descend trak (ascii_bytes ''mdia'' # p) = descend mdia p" for p
    using step [of "[(''tkhd'', b1)]" "''mdia''" mdia "[]" p] fits by (simp add: trak_def)
  have d4: "descend mdia (ascii_bytes ''minf'' # p) = descend minf p" for p
    using step [of "[(''mdhd'', b2), (''hdlr'', b3)]" "''minf''" minf "[]" p] fits by (simp add: mdia_def)
  have d5: "descend minf (ascii_bytes ''stbl'' # p) = descend stbl p" for p
    using step [of "[(ty, b4), (''dinf'', dinf)]" "''stbl''" stbl "[]" p] fits ts(6) by (simp add: minf_def)
  have d6: "descend stbl (ascii_bytes ''stsd'' # p) = descend stsd p" for p
    using step [of "[]" "''stsd''" stsd tables p] fits by (simp add: stbl_def)
  show ?thesis
    by (intro exI conjI, rule w) (simp only: list.map d1 d2 d3 d4 d5 d6 descend.simps(1) stsd_def)
qed

section \<open>The avcC record of the video init segment\<close>

lemma appends_param_sets: "appends (put_param_sets sets) (concat (map param_set_bytes sets))"
  unfolding put_param_sets_def
  by (induction sets) (simp_all add: appends_def param_set_bytes_def put_u16_def put_slice_def)

lemma appends_avcc: "appends (write_avcc c) (mp4_box ''avcC'' (avcc_record (c\<lparr>nalu_length_size := 4\<rparr>)))"
  unfolding write_avcc_def
  by (intro appends_box)
    (use appends_param_sets in \<open>simp add: appends_def put_u8_def avcc_record_def\<close>)

lemma length_param_sets:
  "list_all (\<lambda>s. length s < 2 ^ 16) sets \<Longrightarrow> length (concat (map param_set_bytes sets)) \<le> 65537 * length sets"
  by (induction sets) (auto simp: param_set_bytes_def)

lemma length_avcc_record: "avcc_ok c \<Longrightarrow> length (avcc_record c) < 2 ^ 30"
proof -
  assume ok: "avcc_ok c"
  then have "length (concat (map param_set_bytes (sps_list c))) \<le> 65537 * 31"
    and "length (concat (map param_set_bytes (pps_list c))) \<le> 65537 * 255"
    using length_param_sets [of "sps_list c"] length_param_sets [of "pps_list c"]
    unfolding avcc_ok_def sets_ok_def by linarith+
  then show ?thesis by (simp add: avcc_record_def del: length_concat)
qed

definition avc1_fields :: "u16 \<Rightarrow> u16 \<Rightarrow> bytes" where
  "avc1_fields width height = replicate 6 0 @ be16_bytes 1 @ replicate 16 0 @ be16_bytes width @
     be16_bytes height @ be32_bytes 0x00480000 @ be32_bytes 0x00480000 @ be32_bytes 0 @ be16_bytes 1 @
     replicate 32 0 @ be16_bytes 0x0018 @ be16_bytes (- 1)"

lemma length_avc1_fields [simp]: "length (avc1_fields width height) = 78"
  by (simp add: avc1_fields_def)

lemma appends_avc1:
  "appends (write_avc1 c width height)
    (mp4_box ''avc1'' (avc1_fields width height @ mp4_box ''avcC'' (avcc_record (c\<lparr>nalu_length_size := 4\<rparr>))))"
  unfolding write_avc1_def
  by (intro appends_box) (use appends_avcc [of c] in
    \<open>simp add: appends_def avc1_fields_def put_zeros_def put_u16_def put_u32_def\<close>)

lemma vmhd_box: "boxes (write_full_box ''vmhd'' 0 1 (put_all [put_u16 0, put_zeros 6])) ''vmhd'' 12"
  by (rule boxes_full, (rule puts_intros)+, simp)

lemma video_init_path:
  assumes "avcc_ok c"
  shows "\<exists>seg. video_init_segment_with_size c width height = Ok seg \<and>
    descend seg (map ascii_bytes [''moov'', ''trak'', ''mdia'', ''minf'', ''stbl'', ''stsd'']) =
      Ok (Some (full_body 0 0 (be32_bytes 1 @ mp4_box ''avc1''
        (avc1_fields width height @ mp4_box ''avcC'' (avcc_record (c\<lparr>nalu_length_size := 4\<rparr>))))))"
  unfolding video_init_segment_with_size_def write_video_trak_def write_video_stbl_def
proof (rule init_path [OF side_boxes(2,3,4) hdlr_box vmhd_box _ _ _ appends_avc1])
  have "avcc_ok (c\<lparr>nalu_length_size := 4\<rparr>)" using assms by (simp add: avcc_ok_def)
  then show "length (mp4_box ''avc1'' (avc1_fields width height @
      mp4_box ''avcC'' (avcc_record (c\<lparr>nalu_length_size := 4\<rparr>)))) < 2 ^ 31"
    using length_avcc_record by fastforce
qed simp_all

text \<open>
  The video init segment carries its configuration: for every configuration the record parser can
  produce, the segment is written, a box walk down to the sample description finds the \<open>avc1\<close> entry and
  its \<open>avcC\<close>, and the record in it parses back to the configuration, except that its length size is
  always 4.
\<close>

theorem video_init_roundtrip:
  assumes "parse_avcc_record data = Ok (Some c)"
  shows "\<exists>seg stsd avc1 record. video_init_segment_with_size c width height = Ok seg \<and>
    descend seg (map ascii_bytes [''moov'', ''trak'', ''mdia'', ''minf'', ''stbl'', ''stsd'']) = Ok (Some stsd) \<and>
    scan_box (ascii_bytes ''avc1'') (drop 8 stsd) 0 = Ok (Some avc1) \<and>
    take 4 (drop 24 avc1) = be16_bytes width @ be16_bytes height \<and>
    scan_box (ascii_bytes ''avcC'') (drop 78 avc1) 0 = Ok (Some record) \<and>
    parse_avcc_record record = Ok (Some (c\<lparr>nalu_length_size := 4\<rparr>))"
proof -
  have ok: "avcc_ok c" by (rule parse_avcc_accepted [OF assms])
  then have ok4: "avcc_ok (c\<lparr>nalu_length_size := 4\<rparr>)" by (simp add: avcc_ok_def)
  let ?r = "avcc_record (c\<lparr>nalu_length_size := 4\<rparr>)"
  let ?a = "avc1_fields width height @ mp4_box ''avcC'' ?r"
  have "box_fits ''avcC'' ?r" "box_fits ''avc1'' ?a"
    using length_avcc_record [OF ok4] by (simp_all add: box_fits_def)
  then have s: "scan_box (ascii_bytes ''avc1'') (mp4_box ''avc1'' ?a) 0 = Ok (Some ?a)"
    "scan_box (ascii_bytes ''avcC'') (mp4_box ''avcC'' ?r) 0 = Ok (Some ?r)"
    using scan_box_finds [of "[]" "''avc1''" ?a "[]" "[]"] scan_box_finds [of "[]" "''avcC''" ?r "[]" "[]"]
    by (simp_all add: box_list_def)
  have f: "take 4 (drop 24 ?a) = be16_bytes width @ be16_bytes height"
    by (simp add: avc1_fields_def be16_bytes_def)
  obtain seg where seg: "video_init_segment_with_size c width height = Ok seg"
    "descend seg (map ascii_bytes [''moov'', ''trak'', ''mdia'', ''minf'', ''stbl'', ''stsd'']) =
      Ok (Some (full_body 0 0 (be32_bytes 1 @ mp4_box ''avc1'' ?a)))"
    using video_init_path [OF ok] by blast
  have d: "drop 8 (full_body 0 0 (be32_bytes 1 @ mp4_box ''avc1'' ?a)) = mp4_box ''avc1'' ?a"
    "drop 78 ?a = mp4_box ''avcC'' ?r"
    by (simp_all add: full_body_def)
  show ?thesis
    using seg s f parse_written_avcc [OF ok4, of "[]"] by (intro exI conjI) (assumption | simp add: d)+
qed

theorem video_init_roundtrip_witness:
  "\<exists>seg stsd avc1 record. video_init_segment_with_size avcc_example 1280 720 = Ok seg \<and>
    descend seg (map ascii_bytes [''moov'', ''trak'', ''mdia'', ''minf'', ''stbl'', ''stsd'']) = Ok (Some stsd) \<and>
    scan_box (ascii_bytes ''avc1'') (drop 8 stsd) 0 = Ok (Some avc1) \<and>
    scan_box (ascii_bytes ''avcC'') (drop 78 avc1) 0 = Ok (Some record) \<and>
    parse_avcc_record record = Ok (Some (avcc_example\<lparr>nalu_length_size := 4\<rparr>)) \<and>
    nalu_length_size avcc_example = 2"
proof -
  have "parse_avcc_record (avcc_record avcc_example @ []) = Ok (Some avcc_example)"
    by (rule parse_written_avcc [OF avcc_example_ok])
  from video_init_roundtrip [OF this, of 1280 720] show ?thesis
    by (fastforce simp: avcc_example_def)
qed

section \<open>The AudioSpecificConfig of the audio init segment\<close>

lemma continuation_byte:
  assumes "m < 128"
  shows "(0x80 OR of_nat m :: u8) AND 0x80 \<noteq> 0" and "unat (0x80 OR of_nat m :: u8) AND 0x7F = m"
    and "(of_nat m :: u8) AND 0x80 = 0" and "unat (of_nat m :: u8) AND 0x7F = m"
proof -
  have e: "(0x80 :: u8) = push_bit 7 1" by (simp add: push_bit_eq_mult)
  have b7: "bit (0x80 :: u8) k = (k = 7)" for k by (subst e) (auto simp only: bit_push_bit_iff bit_1_iff, auto)
  have m: "(0x7F :: nat) = mask 7" by (simp add: mask_eq_exp_minus_1)
  have t: "take_bit 7 m = m" using assms by (intro take_bit_nat_eq_self) simp
  have bm: "bit m k \<Longrightarrow> k < 7" for k using t by (metis bit_take_bit_iff)
  have u: "unat (of_nat m :: u8) = m" using assms by (intro unat_of_nat_id) simp
  have "\<not> bit (of_nat m :: u8) 7" using bm [of 7] by (auto simp: bit_simps)
  then show "(of_nat m :: u8) AND 0x80 = 0" unfolding e using bit_iff_and_push_bit_not_eq_0 by blast
  show "(0x80 OR of_nat m :: u8) AND 0x80 \<noteq> 0"
    using bit_iff_and_push_bit_not_eq_0 [of "0x80 OR of_nat m :: u8" 7] b7 [of 7]
    unfolding e [symmetric] by (simp add: bit_or_iff)
  show "unat (of_nat m :: u8) AND 0x7F = m" by (simp add: u m take_bit_eq_mask [symmetric] t)
  have "take_bit 7 (0x80 OR of_nat m :: u8) = of_nat m"
    by (rule bit_word_eqI) (auto simp: b7 bit_simps dest: bm)
  then have "unat (take_bit 7 (0x80 OR of_nat m :: u8)) = m" by (simp add: u)
  then show "unat (0x80 OR of_nat m :: u8) AND 0x7F = m"
    by (simp only: m take_bit_eq_mask [symmetric] unsigned_take_bit_eq)
qed

lemma seven_bit_groups:
  assumes "n < (2 :: nat) ^ 28"
  shows "push_bit 7 (push_bit 7 (push_bit 7 (drop_bit 21 n AND 0x7F) OR (drop_bit 14 n AND 0x7F)) OR
    (drop_bit 7 n AND 0x7F)) OR (n AND 0x7F) = n"
proof (rule bit_eqI)
  fix k :: nat
  have m: "(0x7F :: nat) = mask 7" by (simp add: mask_eq_exp_minus_1)
  have t: "take_bit 28 n = n" using assms by (intro take_bit_nat_eq_self)
  consider "k < 7" | "7 \<le> k \<and> k < 14" | "14 \<le> k \<and> k < 21" | "21 \<le> k \<and> k < 28" | "28 \<le> k" by fastforce
  then show "bit (push_bit 7 (push_bit 7 (push_bit 7 (drop_bit 21 n AND 0x7F) OR (drop_bit 14 n AND 0x7F)) OR
    (drop_bit 7 n AND 0x7F)) OR (n AND 0x7F)) k = bit n k"
  proof cases
    case 5
    then have "\<not> bit n k" using t by (metis bit_take_bit_iff linorder_not_le)
    with 5 show ?thesis by (simp add: m bit_simps)
  qed (auto simp: m bit_simps)
qed

lemma and_7F_less: "(n AND 0x7F :: nat) < 128"
proof -
  have "(0x7F :: nat) = mask 7" by (simp add: mask_eq_exp_minus_1)
  then have "n AND 0x7F = take_bit 7 n" by (simp add: take_bit_eq_mask)
  then show ?thesis by (simp add: take_bit_eq_mod)
qed

lemma read_written_length:
  assumes "n < 2 ^ 28"
  shows "read_descriptor_length (descriptor_size_bytes n @ rest) = Some (n, 4)"
  using seven_bit_groups [OF assms] continuation_byte [OF and_7F_less]
  by (simp add: read_descriptor_length_def descriptor_size_bytes_def Let_def)

lemma descriptor_loop_written:
  assumes "length body < 2 ^ 28"
  shows "descriptor_loop target (mp4_descriptor tag body @ rest) =
    (if tag = target then Ok (Some body) else descriptor_loop target rest)"
proof -
  have l: "read_descriptor_length (descriptor_size_bytes (length body) @ body @ rest) = Some (length body, 4)"
    by (rule read_written_length [OF assms])
  have d: "length (descriptor_size_bytes (length body)) = 4" by (simp add: descriptor_size_bytes_def)
  have r: "drop (5 + length body) (mp4_descriptor tag body @ rest) = rest"
    using append_eq_conv_conj [of "mp4_descriptor tag body" rest] by simp
  have s: "slice (mp4_descriptor tag body @ rest) 1 (length (mp4_descriptor tag body @ rest)) =
      (Ok (descriptor_size_bytes (length body) @ body @ rest) :: (bytes, unit) outcome)"
    "idx (mp4_descriptor tag body @ rest) 0 = (Ok tag :: (u8, unit) outcome)"
    "slice (mp4_descriptor tag body @ rest) 5 (5 + length body) = (Ok body :: (bytes, unit) outcome)"
    by (simp_all add: mp4_descriptor_def idx_def slice_def d eval_nat_numeral)
  have g: "mp4_descriptor tag body @ rest \<noteq> []" "\<not> 5 + length body > length (mp4_descriptor tag body @ rest)"
    by (simp_all add: mp4_descriptor_def d)
  have n: "1 + 4 = (5 :: nat)" by simp
  show ?thesis
    by (subst descriptor_loop.simps)
      (simp only: g if_True if_False s obind.simps l option.case prod.case Let_def n r
        not_False_eq_True)
qed

definition decoder_config_fields :: bytes where
  "decoder_config_fields = [0x40, 0x15, 0] @ be16_bytes 0 @ be32_bytes 0 @ be32_bytes 0"

definition esds_body :: "bytes \<Rightarrow> bytes" where
  "esds_body asc = mp4_descriptor 0x03 (be16_bytes 1 @ [0] @
     mp4_descriptor 0x04 (decoder_config_fields @ mp4_descriptor 0x05 asc) @ mp4_descriptor 0x06 [0x02])"

lemma length_decoder_config [simp]: "length decoder_config_fields = 13"
  by (simp add: decoder_config_fields_def)

lemma appends_esds:
  assumes "length asc + 32 < 2 ^ 28"
  shows "appends (write_esds asc) (mp4_box ''esds'' (full_body 0 0 (esds_body asc)))"
proof -
  have "appends (write_mpeg4_descriptor 0x05 (put_slice asc)) (mp4_descriptor 0x05 asc)"
    using assms by (intro appends_descriptor appends_primitive) simp
  then have "appends (put_all [put_u8 0x40, put_u8 0x15, put_u8 0, put_u16 0, put_u32 0, put_u32 0,
      write_mpeg4_descriptor 0x05 (put_slice asc)]) (decoder_config_fields @ mp4_descriptor 0x05 asc)"
    (is "appends ?dc _")
    by (simp add: appends_def decoder_config_fields_def put_u8_def put_u16_def put_u32_def)
  then have "appends (write_mpeg4_descriptor 0x04 ?dc)
      (mp4_descriptor 0x04 (decoder_config_fields @ mp4_descriptor 0x05 asc))" (is "appends ?d4 _")
    using assms by (intro appends_descriptor) simp_all
  moreover have "appends (write_mpeg4_descriptor 0x06 (put_u8 0x02)) (mp4_descriptor 0x06 [0x02])"
    (is "appends ?d6 _")
    by (intro appends_descriptor appends_primitive) simp
  ultimately have "appends (put_all [put_u16 1, put_u8 0, ?d4, ?d6]) (be16_bytes 1 @ [0] @
      mp4_descriptor 0x04 (decoder_config_fields @ mp4_descriptor 0x05 asc) @ mp4_descriptor 0x06 [0x02])"
    (is "appends ?es ?esb")
    by (simp add: appends_def put_u8_def put_u16_def)
  then have "appends (write_mpeg4_descriptor 0x03 ?es) (esds_body asc)"
    unfolding esds_body_def using assms by (intro appends_descriptor) simp_all
  then show ?thesis unfolding write_esds_def by (rule appends_full_box)
qed

lemma find_written_asc:
  assumes "length asc + 32 < 2 ^ 28"
  shows "and_then (find_descriptor (esds_body asc) 0x03 0) (\<lambda>es_body.
    and_then (find_descriptor es_body 0x04 3) (\<lambda>dcd_body. find_descriptor dcd_body 0x05 13)) = Ok (Some asc)"
proof -
  define dcd where "dcd = decoder_config_fields @ mp4_descriptor 0x05 asc"
  define es where "es = be16_bytes 1 @ [0] @ mp4_descriptor 0x04 dcd @ mp4_descriptor 0x06 [0x02]"
  have len: "length dcd < 2 ^ 28" "length es < 2 ^ 28" "length asc < 2 ^ 28"
    using assms by (simp_all add: dcd_def es_def)
  have e: "esds_body asc = mp4_descriptor 0x03 es @ []"
    by (simp add: esds_body_def es_def dcd_def)
  have "find_descriptor (esds_body asc) 0x03 0 = Ok (Some es)"
    unfolding find_descriptor_def e using descriptor_loop_written [OF len(2), of 3 3 "[]"] by simp
  moreover have "find_descriptor es 0x04 3 = Ok (Some dcd)"
    using descriptor_loop_written [OF len(1), of 4 4]
    by (simp add: find_descriptor_def es_def be16_bytes_def numeral_3_eq_3)
  moreover have "find_descriptor dcd 0x05 13 = Ok (Some asc)"
    using descriptor_loop_written [OF len(3), of 5 5 "[]"] by (simp add: find_descriptor_def dcd_def)
  ultimately show ?thesis by simp
qed

definition mp4a_fields :: "audio_config \<Rightarrow> bytes" where
  "mp4a_fields c = replicate 6 0 @ be16_bytes 1 @ replicate 8 0 @ be16_bytes (ucast (ac_channels c)) @
     be16_bytes 16 @ be16_bytes 0 @ be16_bytes 0 @ be32_bytes (push_bit 16 (ac_sample_rate c))"

lemma length_mp4a_fields [simp]: "length (mp4a_fields c) = 28"
  by (simp add: mp4a_fields_def)

lemma appends_mp4a:
  assumes "length (ac_asc c) + 32 < 2 ^ 28"
  shows "appends (write_mp4a c)
    (mp4_box ''mp4a'' (mp4a_fields c @ mp4_box ''esds'' (full_body 0 0 (esds_body (ac_asc c)))))"
  unfolding write_mp4a_def
  by (intro appends_box) (use appends_esds [OF assms] in
    \<open>simp add: appends_def mp4a_fields_def put_zeros_def put_u16_def put_u32_def\<close>)

lemma smhd_box: "boxes (write_full_box ''smhd'' 0 0 (put_all [put_u16 0, put_u16 0])) ''smhd'' 8"
  by (rule boxes_full, (rule puts_intros)+, simp)

lemma length_esds_body: "length (esds_body asc) = length asc + 37"
  by (simp add: esds_body_def)

lemma audio_init_path:
  assumes "length (ac_asc c) + 32 < 2 ^ 28"
  shows "\<exists>seg. audio_init_segment c = Ok seg \<and>
    descend seg (map ascii_bytes [''moov'', ''trak'', ''mdia'', ''minf'', ''stbl'', ''stsd'']) =
      Ok (Some (full_body 0 0 (be32_bytes 1 @ mp4_box ''mp4a''
        (mp4a_fields c @ mp4_box ''esds'' (full_body 0 0 (esds_body (ac_asc c)))))))"
  unfolding audio_init_segment_def write_audio_trak_def write_audio_stbl_def
  by (rule init_path [OF side_boxes(2,3,4) hdlr_box smhd_box _ _ _ appends_mp4a [OF assms]])
    (use assms in \<open>simp_all add: length_esds_body\<close>)

lemma audio_init_asc:
  assumes "length (ac_asc c) + 32 < 2 ^ 28"
  shows "\<exists>seg. audio_init_segment c = Ok seg \<and> extract_asc seg = Ok (Some (ac_asc c))"
proof -
  let ?e = "full_body 0 0 (esds_body (ac_asc c))"
  let ?m = "mp4a_fields c @ mp4_box ''esds'' ?e"
  have fits: "box_fits ''esds'' ?e" "box_fits ''mp4a'' ?m"
    using assms by (simp_all add: box_fits_def length_esds_body)
  have s: "scan_box (ascii_bytes ''mp4a'') (mp4_box ''mp4a'' ?m) 0 = Ok (Some ?m)"
    "scan_box (ascii_bytes ''esds'') (mp4_box ''esds'' ?e) 0 = Ok (Some ?e)"
    using scan_box_finds [OF _ fits(2), of "[]" "[]" "[]"] scan_box_finds [OF _ fits(1), of "[]" "[]" "[]"]
    by (simp_all add: box_list_def)
  obtain seg where seg: "audio_init_segment c = Ok seg"
    "descend seg (map ascii_bytes [''moov'', ''trak'', ''mdia'', ''minf'', ''stbl'', ''stsd'']) =
      Ok (Some (full_body 0 0 (be32_bytes 1 @ mp4_box ''mp4a'' ?m)))"
    using audio_init_path [OF assms] by blast
  have d: "slice (full_body 0 0 (be32_bytes 1 @ mp4_box ''mp4a'' ?m)) 8
      (length (full_body 0 0 (be32_bytes 1 @ mp4_box ''mp4a'' ?m))) = (Ok (mp4_box ''mp4a'' ?m) :: (bytes, unit) outcome)"
    "slice ?m 28 (length ?m) = (Ok (mp4_box ''esds'' ?e) :: (bytes, unit) outcome)"
    "slice ?e 4 (length ?e) = (Ok (esds_body (ac_asc c)) :: (bytes, unit) outcome)"
    by (simp_all add: full_body_def)
  have g: "\<not> length (full_body 0 0 (be32_bytes 1 @ mp4_box ''mp4a'' ?m)) < 8" "\<not> length ?m < 28"
    "\<not> length ?e < 4"
    by simp_all
  show ?thesis
    unfolding extract_asc_def
    using seg(1) find_written_asc [OF assms]
    by (intro exI conjI) (assumption, simp only: seg(2) obind.simps option.case g if_False d s)
qed

lemma sequence_header_asc:
  assumes "parse_audio_tag data = Ok (AudioSequenceHeader c)"
  shows "ac_asc c = drop 2 data"
proof -
  have l: "\<not> length data < 2" using assms by (auto simp: parse_audio_tag_def)
  then have i: "idx data 0 = (Ok (data ! 0) :: (u8, unit) outcome)" "idx data 1 = (Ok (data ! 1) :: (u8, unit) outcome)"
    "slice data 2 (length data) = (Ok (drop 2 data) :: (bytes, unit) outcome)"
    by (auto simp: idx_def slice_def)
  have "parse_audio_specific_config (drop 2 data) = Ok (Some c)"
    using assms l unfolding parse_audio_tag_def i obind.simps
    by (cases "parse_audio_specific_config (drop 2 data)") (simp_all split: if_splits option.splits)
  then show ?thesis
    by (cases "parse_asc (drop 2 data)") (auto simp: parse_audio_specific_config_def)
qed

text \<open>
  The whisper agent reads what the audio init segment says: for every AAC sequence header that the FLV
  parser accepts, the segment is written and the agent's extractor returns exactly the
  AudioSpecificConfig bytes of the tag, whatever their length up to the descriptor's limit.
\<close>

theorem audio_init_roundtrip:
  assumes "parse_audio_tag data = Ok (AudioSequenceHeader c)" and "length data < 2 ^ 28 - 32"
  shows "\<exists>seg. audio_init_segment c = Ok seg \<and> extract_asc seg = Ok (Some (drop 2 data))"
  using audio_init_asc [of c] sequence_header_asc [OF assms(1)] assms(2) by simp

theorem audio_init_roundtrip_witness:
  "\<exists>c seg. parse_audio_tag [0xAF, 0, 0x11, 0x90] = Ok (AudioSequenceHeader c) \<and>
     audio_init_segment c = Ok seg \<and> extract_asc seg = Ok (Some [0x11, 0x90])"
proof -
  have "case parse_audio_tag [0xAF, 0, 0x11, 0x90] of Ok (AudioSequenceHeader c) \<Rightarrow> True | _ \<Rightarrow> False"
    by code_simp
  then have "\<exists>c. parse_audio_tag [0xAF, 0, 0x11, 0x90] = Ok (AudioSequenceHeader c)"
    by (auto split: outcome.splits flv_audio_tag.splits)
  then show ?thesis using audio_init_roundtrip [of "[0xAF, 0, 0x11, 0x90]"] by fastforce
qed

section \<open>The audio media segment\<close>

definition audio_moof :: "u32 \<Rightarrow> u64 \<Rightarrow> u32 \<Rightarrow> u32 \<Rightarrow> bytes \<Rightarrow> bytes" where
  "audio_moof sequence base_dts duration data_offset data =
     mp4_box ''moof'' (mp4_box ''mfhd'' (full_body 0 0 (be32_bytes sequence)) @
       mp4_box ''traf'' (mp4_box ''tfhd'' (full_body 0 0x020000 (be32_bytes 1)) @
         mp4_box ''tfdt'' (full_body 1 0 (be64_bytes base_dts)) @
         mp4_box ''trun'' (full_body 0 0x301 (be32_bytes 1 @ be32_bytes data_offset @
           be32_bytes duration @ be32_bytes (of_nat (length data))))))"

lemma length_be64_bytes [simp]: "length (be64_bytes w) = 8"
  by (simp add: be64_bytes_def)

lemma length_audio_moof [simp]: "length (audio_moof s t d off data) = 96"
  by (simp add: audio_moof_def)

lemma appends_audio_moof: "appends (write_audio_moof s t d data) (audio_moof s t d 0 data)"
proof -
  have "appends (write_full_box ''mfhd'' 0 0 (put_u32 s)) (mp4_box ''mfhd'' (full_body 0 0 (be32_bytes s)))"
    and "appends (write_full_box ''tfhd'' 0 0x020000 (put_u32 1)) (mp4_box ''tfhd'' (full_body 0 0x020000 (be32_bytes 1)))"
    and "appends (write_full_box ''tfdt'' 1 0 (put_u64 t)) (mp4_box ''tfdt'' (full_body 1 0 (be64_bytes t)))"
    by (intro appends_full_box appends_primitive)+
  moreover have "appends (write_full_box ''trun'' 0 (0x000001 OR 0x000100 OR 0x000200) (put_all [put_u32 1,
      put_u32 0, put_u32 d, put_u32 (of_nat (length data))])) (mp4_box ''trun'' (full_body 0 0x301
        (be32_bytes 1 @ be32_bytes 0 @ be32_bytes d @ be32_bytes (of_nat (length data)))))"
  proof -
    have "(0x000001 OR 0x000100 OR 0x000200 :: u32) = 0x301" by simp
    then show ?thesis by (simp only:) (intro appends_full_box, simp add: appends_def put_u32_def)
  qed
  ultimately have "appends (write_box ''traf'' (put_all [
       write_full_box ''tfhd'' 0 0x020000 (put_u32 1),
       write_full_box ''tfdt'' 1 0 (put_u64 t),
       write_full_box ''trun'' 0 (0x000001 OR 0x000100 OR 0x000200) (put_all [put_u32 1, put_u32 0,
         put_u32 d, put_u32 (of_nat (length data))])]))
     (mp4_box ''traf'' (mp4_box ''tfhd'' (full_body 0 0x020000 (be32_bytes 1)) @
         mp4_box ''tfdt'' (full_body 1 0 (be64_bytes t)) @
         mp4_box ''trun'' (full_body 0 0x301 (be32_bytes 1 @ be32_bytes 0 @
           be32_bytes d @ be32_bytes (of_nat (length data))))))"
    (is "appends ?w ?b")
    by (intro appends_box) (simp add: appends_def)
  moreover note \<open>appends (write_full_box ''mfhd'' 0 0 (put_u32 s)) _\<close>
  ultimately show ?thesis
    unfolding write_audio_moof_def audio_moof_def by (intro appends_box) (simp add: appends_def)
qed

text \<open>One box header at a position that is known.\<close>

lemma box_header:
  assumes "box_fits ty body"
  shows "obind (read_u32_at (pre @ mp4_box ty body @ rest) (length pre)) (\<lambda>sz.
      obind (slice (pre @ mp4_box ty body @ rest) (length pre + 4) (length pre + 8)) (\<lambda>t. Ok (unat sz, t))) =
    Ok (8 + length body, ascii_bytes ty)"
proof -
  have ty: "length ty = 4" and n: "8 + length body < 2 ^ 32" using assms by (simp_all add: box_fits_def)
  have r: "read_u32_at (pre @ mp4_box ty body @ rest) (length pre) = Ok (of_nat (8 + length body))"
    using read_u32_bytes [of pre "of_nat (8 + length body)" "ascii_bytes ty @ body @ rest"] ty
    by (simp add: mp4_box_def)
  have u: "unat (of_nat (8 + length body) :: u32) = 8 + length body"
    using n by (intro unat_of_nat_id) simp
  have s: "slice (pre @ mp4_box ty body @ rest) (length pre + 4) (length pre + 8) =
      (Ok (ascii_bytes ty) :: (bytes, unit) outcome)"
    by (simp add: slice_def mp4_box_def ty)
  show ?thesis by (simp only: r s obind.simps u)
qed

lemma patch_traf_skip:
  assumes "box_fits ty body" "ty \<noteq> ''trun''" "length pre + 8 \<le> traf_end"
  shows "patch_traf_loop off traf_end (pre @ mp4_box ty body @ rest) (length pre) =
    patch_traf_loop off traf_end ((pre @ mp4_box ty body) @ rest) (length (pre @ mp4_box ty body))"
proof -
  have lp: "length pre + (8 + length body) = length (pre @ mp4_box ty body)"
    using assms(1) by (simp add: box_fits_def)
  show ?thesis
    by (subst patch_traf_loop.simps)
      (simp only: assms(2,3) if_True if_False box_header [OF assms(1)] outcome.case prod.case
        ascii_bytes_inj lp append_assoc)
qed

lemma patch_traf_hit:
  assumes "box_fits ''trun'' (full_body v fl (a @ old @ post))" "length pre + 8 \<le> traf_end"
    and "length a = 4" "length old = 4"
  shows "patch_traf_loop off traf_end (pre @ mp4_box ''trun'' (full_body v fl (a @ old @ post)) @ rest) (length pre) =
    Some (Ok (Some (pre @ mp4_box ''trun'' (full_body v fl (a @ be32_bytes off @ post)) @ rest)))"
proof -
  let ?n = "of_nat (4 + length ''trun'' + length (full_body v fl (a @ old @ post))) :: u32"
  let ?head = "pre @ be32_bytes ?n @ ascii_bytes ''trun'' @
      [v, ucast (drop_bit 16 fl), ucast (drop_bit 8 fl), ucast fl] @ a"
  have h: "length ?head = length pre + 8 + 4 + 4" using assms(3) by simp
  have b: "pre @ mp4_box ''trun'' (full_body v fl (a @ old @ post)) @ rest = ?head @ old @ (post @ rest)"
    "pre @ mp4_box ''trun'' (full_body v fl (a @ be32_bytes off @ post)) @ rest =
      ?head @ be32_bytes off @ (post @ rest)"
    using assms(3,4) by (simp_all add: mp4_box_def full_body_def)
  have "overwrite (length pre + 8 + 4 + 4) (be32_bytes off) (?head @ old @ (post @ rest)) =
      Ok (?head @ be32_bytes off @ (post @ rest))"
    unfolding h [symmetric] by (rule overwrite_mid) (use assms(4) in simp)
  then have o: "overwrite (length pre + 8 + 4 + 4) (be32_bytes off)
      (pre @ mp4_box ''trun'' (full_body v fl (a @ old @ post)) @ rest) =
      Ok (pre @ mp4_box ''trun'' (full_body v fl (a @ be32_bytes off @ post)) @ rest)"
    unfolding b .
  show ?thesis
    by (subst patch_traf_loop.simps) (simp only: assms(2) if_True box_header [OF assms(1)] outcome.case
        prod.case o omap.simps ascii_bytes_inj refl)
qed

lemma patch_moof_skip:
  assumes "box_fits ty body" "ty \<noteq> ''traf''"
  shows "patch_moof_loop off (pre @ mp4_box ty body @ rest) (length pre) =
    patch_moof_loop off ((pre @ mp4_box ty body) @ rest) (length (pre @ mp4_box ty body))"
proof -
  have lp: "length pre + (8 + length body) = length (pre @ mp4_box ty body)"
    and l: "length pre + 8 \<le> length (pre @ mp4_box ty body @ rest)"
    using assms(1) by (simp_all add: box_fits_def)
  show ?thesis
    by (subst patch_moof_loop.simps)
      (simp only: assms(2) l if_True if_False box_header [OF assms(1)] outcome.case prod.case
        ascii_bytes_inj lp append_assoc)
qed

lemma patch_moof_traf:
  assumes "box_fits ''traf'' body"
    and "patch_traf_loop off (length pre + (8 + length body)) (pre @ mp4_box ''traf'' body @ rest) (length pre + 8) =
      Some (Ok (Some buf'))"
  shows "patch_moof_loop off (pre @ mp4_box ''traf'' body @ rest) (length pre) = Some (Ok buf')"
proof -
  have l: "length pre + 8 \<le> length (pre @ mp4_box ''traf'' body @ rest)"
    using assms(1) by (simp add: box_fits_def)
  show ?thesis
    by (subst patch_moof_loop.simps)
      (simp only: l if_True box_header [OF assms(1)] outcome.case prod.case ascii_bytes_inj
        assms(2) Option.bind.simps option.case refl)
qed

lemma patched_moof:
  "patch_trun_data_offset (audio_moof s t d 0 data) 0 off = Some (Ok (audio_moof s t d off data))"
proof -
  define mfhd where "mfhd = full_body 0 0 (be32_bytes s)"
  define tfhd where "tfhd = full_body 0 0x020000 (be32_bytes 1)"
  define tfdt where "tfdt = full_body 1 0 (be64_bytes t)"
  define trun where "trun x = full_body 0 0x301 (be32_bytes 1 @ be32_bytes x @ be32_bytes d @
      be32_bytes (of_nat (length data)))" for x :: u32
  define traf where "traf x = mp4_box ''tfhd'' tfhd @ mp4_box ''tfdt'' tfdt @ mp4_box ''trun'' (trun x)" for x
  define hd where "hd = be32_bytes 96 @ ascii_bytes ''moof''"
  define th where "th = be32_bytes 72 @ ascii_bytes ''traf''"
  define p0 where "p0 = hd @ mp4_box ''mfhd'' mfhd"
  have len: "length mfhd = 8" "length tfhd = 8" "length tfdt = 12" "length (trun x) = 20" "length (traf x) = 64"
    "length hd = 8" "length p0 = 24" "length th = 8" for x
    by (simp_all add: mfhd_def tfhd_def tfdt_def trun_def traf_def hd_def p0_def th_def)
  have fits: "box_fits ''mfhd'' mfhd" "box_fits ''tfhd'' tfhd" "box_fits ''tfdt'' tfdt"
    "box_fits ''trun'' (trun x)" "box_fits ''traf'' (traf x)" for x
    by (simp_all add: box_fits_def len)
  have moof: "audio_moof s t d x data = hd @ mp4_box ''mfhd'' mfhd @ mp4_box ''traf'' (traf x) @ []" for x
    by (simp add: audio_moof_def mp4_box_def [of "''moof''"] hd_def traf_def mfhd_def tfhd_def tfdt_def trun_def)
  have box: "mp4_box ''traf'' (traf x) = th @ traf x" for x
    by (simp add: mp4_box_def [of "''traf''"] th_def len)
  have "patch_traf_loop off (length p0 + (8 + length (traf 0))) (p0 @ mp4_box ''traf'' (traf 0) @ []) (length p0 + 8) =
      patch_traf_loop off 96 ((p0 @ th) @ mp4_box ''tfhd'' tfhd @ mp4_box ''tfdt'' tfdt @ mp4_box ''trun'' (trun 0) @ [])
        (length (p0 @ th))"
    unfolding box len by (simp add: traf_def len)
  also have "\<dots> = patch_traf_loop off 96 (((p0 @ th) @ mp4_box ''tfhd'' tfhd) @ mp4_box ''tfdt'' tfdt @
      mp4_box ''trun'' (trun 0) @ []) (length ((p0 @ th) @ mp4_box ''tfhd'' tfhd))"
    by (rule patch_traf_skip [OF fits(2)]) (simp_all add: len)
  also have "\<dots> = patch_traf_loop off 96 ((((p0 @ th) @ mp4_box ''tfhd'' tfhd) @ mp4_box ''tfdt'' tfdt) @
      mp4_box ''trun'' (trun 0) @ []) (length (((p0 @ th) @ mp4_box ''tfhd'' tfhd) @ mp4_box ''tfdt'' tfdt))"
    by (rule patch_traf_skip [OF fits(3)]) (simp_all add: len)
  also have "\<dots> = Some (Ok (Some ((((p0 @ th) @ mp4_box ''tfhd'' tfhd) @ mp4_box ''tfdt'' tfdt) @
      mp4_box ''trun'' (trun off) @ [])))"
    unfolding trun_def using fits(4) [of 0]
    by (intro patch_traf_hit) (simp_all add: len trun_def)
  also have "(((p0 @ th) @ mp4_box ''tfhd'' tfhd) @ mp4_box ''tfdt'' tfdt) @ mp4_box ''trun'' (trun off) @ [] =
      p0 @ mp4_box ''traf'' (traf off) @ []"
    unfolding box by (simp add: traf_def)
  finally have "patch_moof_loop off (p0 @ mp4_box ''traf'' (traf 0) @ []) (length p0) =
      Some (Ok (p0 @ mp4_box ''traf'' (traf off) @ []))"
    by (rule patch_moof_traf [OF fits(5)])
  moreover have "patch_moof_loop off (hd @ mp4_box ''mfhd'' mfhd @ mp4_box ''traf'' (traf 0) @ []) (length hd) =
      patch_moof_loop off ((hd @ mp4_box ''mfhd'' mfhd) @ mp4_box ''traf'' (traf 0) @ [])
        (length (hd @ mp4_box ''mfhd'' mfhd))"
    by (rule patch_moof_skip [OF fits(1)]) simp
  ultimately show ?thesis
    unfolding patch_trun_data_offset_def moof by (simp add: p0_def len)
qed

lemma audio_segment_bytes:
  "audio_segment s t d data = Some (Ok (audio_moof s t d 104 data @ mp4_box ''mdat'' data))"
proof -
  have w: "write_audio_moof s t d data [] = Ok (audio_moof s t d 0 data)"
    using appends_audio_moof [of s t d data] by (simp add: appends_def)
  have m: "write_box ''mdat'' (put_slice data) (audio_moof s t d off data) =
      Ok (audio_moof s t d off data @ mp4_box ''mdat'' data)" for off
    using appends_box [OF appends_primitive(1), of "''mdat''" data] by (simp add: appends_def)
  have "(of_nat (96 - 0 + 8) :: u32) = 104" by simp
  then show ?thesis
    by (simp only: audio_segment_def w outcome.case length_audio_moof Let_def patched_moof Option.bind.simps
        obind.simps m)
qed

lemma audio_segment_read:
  assumes "length data < 2 ^ 32 - 8"
  shows "\<exists>seg. audio_segment sequence base_dts duration data = Some (Ok seg) \<and>
    (\<exists>off. read_u32_at seg 84 = Ok off \<and> drop (unat off) seg = data) \<and>
    extract_first_mdat seg = Ok (Some data) \<and> extract_mdat_body seg = Ok (Some data)"
proof -
  let ?seg = "audio_moof sequence base_dts duration 104 data @ mp4_box ''mdat'' data"
  obtain m where m: "audio_moof sequence base_dts duration 104 data = mp4_box ''moof'' m" "length m = 88"
    by (simp add: audio_moof_def)
  have e: "extract_first_mdat ?seg = Ok (Some data)"
    using scan_box_finds [of "[(''moof'', m)]" "''mdat''" data "[]" "[]"] assms
    by (simp add: extract_first_mdat_def box_list_def m box_fits_def)
  then have "extract_mdat_body ?seg = Ok (Some data)"
    using mdat_loop_agrees by (simp add: extract_first_mdat_def extract_mdat_body_def)
  moreover have "read_u32_at ?seg 84 = Ok 104"
  proof -
    define pre where "pre = take 84 ?seg"
    have "\<exists>rest. ?seg = pre @ be32_bytes 104 @ rest"
      unfolding pre_def audio_moof_def mp4_box_def full_body_def be64_bytes_def be32_bytes_def ascii_bytes_def
      by simp
    moreover have "length pre = 84" by (simp add: pre_def)
    ultimately show ?thesis using read_u32_bytes by metis
  qed
  moreover have "drop 104 ?seg = data" by (simp add: mp4_box_def)
  ultimately show ?thesis using e audio_segment_bytes by (intro exI conjI) (assumption | simp)+
qed

text \<open>
  C31. An audio media segment is written without panic or endless loop, the data offset patched into its
  \<open>trun\<close> box is the position of the first media byte, and both egress readers take exactly the access
  unit out of it.
\<close>

theorem audio_segment_readable:
  assumes "length data < 2 ^ 32 - 8"
  shows "\<exists>seg. audio_segment sequence base_dts duration data = Some (Ok seg) \<and>
    (\<exists>off. read_u32_at seg 84 = Ok off \<and> drop (unat off) seg = data) \<and>
    extract_first_mdat seg = Ok (Some data) \<and> extract_mdat_body seg = Ok (Some data)"
  by (rule audio_segment_read [OF assms])

theorem audio_segment_readable_witness:
  "\<exists>seg. audio_segment 1 0 1024 [0x21, 0x10] = Some (Ok seg) \<and> extract_mdat_body seg = Ok (Some [0x21, 0x10])"
  using audio_segment_readable [of "[0x21, 0x10]" 1 0 1024] by auto

end
