(* ===== verification/Mesh.thy ===== *)
theory Mesh
  imports Prelude
begin

text \<open>
  The peer relay tree of \<open>lvqr-mesh\<close> (\<open>tree.rs\<close>, \<open>coordinator.rs\<close>, \<open>error.rs\<close>) and the handlers of
  \<open>lvqr-cli\<close> that drive it (\<open>lib.rs\<close>, \<open>ws.rs\<close>).  The concurrent map of peers is a partial map; every
  method of the coordinator is one atomic step, so a run of steps is any interleaving of the handlers.
  Where the source iterates over the map the order is an argument, any enumeration of its keys.  Clock
  readings are milliseconds and arguments too.  The metrics and log calls are left out.
\<close>

section \<open>Peers\<close>

type_synonym peer_id = string

datatype peer_role = Root | Relay | Leaf

record peer_info =
  pi_id :: peer_id
  pi_track :: string
  pi_role :: peer_role
  pi_parent :: "peer_id option"
  pi_children :: "peer_id list"
  pi_depth :: u32
  pi_upload_kbps :: u32
  pi_forwarded_frames :: u64
  pi_capacity :: "u32 option"
  pi_joined_at :: "nat option"
  pi_last_heartbeat :: "nat option"

definition peer_info_new :: "nat \<Rightarrow> peer_id \<Rightarrow> string \<Rightarrow> peer_info" where
  "peer_info_new now i track = \<lparr>pi_id = i, pi_track = track, pi_role = Leaf, pi_parent = None,
     pi_children = [], pi_depth = 0, pi_upload_kbps = 5000, pi_forwarded_frames = 0, pi_capacity = None,
     pi_joined_at = Some now, pi_last_heartbeat = Some now\<rparr>"

definition effective_capacity :: "nat \<Rightarrow> peer_info \<Rightarrow> nat" where
  "effective_capacity default_max p =
     (case pi_capacity p of Some c \<Rightarrow> min (unat c) default_max | None \<Rightarrow> default_max)"

definition can_accept_child :: "nat \<Rightarrow> peer_info \<Rightarrow> bool" where
  "can_accept_child default_max p \<longleftrightarrow> length (pi_children p) < effective_capacity default_max p"

definition child_count :: "peer_info \<Rightarrow> nat" where
  "child_count p = length (pi_children p)"

record peer_assignment =
  pa_peer_id :: peer_id
  pa_role :: peer_role
  pa_parent :: "peer_id option"
  pa_depth :: u32

datatype mesh_error =
    PeerNotFound peer_id
  | MeshFull nat
  | TreeDepthExceeded nat
  | NoAvailableParent

section \<open>The coordinator\<close>

record mesh_config =
  max_children :: nat
  root_peer_count :: nat
  max_depth :: u32
  heartbeat_timeout_secs :: u64

definition mesh_config_default :: mesh_config where
  "mesh_config_default =
     \<lparr>max_children = 3, root_peer_count = 30, max_depth = 6, heartbeat_timeout_secs = 10\<rparr>"

type_synonym peer_map = "peer_id \<rightharpoonup> peer_info"

definition mesh_new :: peer_map where
  "mesh_new = Map.empty"

text \<open>\<open>get_mut\<close> followed by an assignment.\<close>

definition modify_peer :: "peer_id \<Rightarrow> (peer_info \<Rightarrow> peer_info) \<Rightarrow> peer_map \<Rightarrow> peer_map" where
  "modify_peer i f peers = (case peers i of None \<Rightarrow> peers | Some p \<Rightarrow> peers(i \<mapsto> f p))"

definition root_count :: "peer_id list \<Rightarrow> peer_map \<Rightarrow> nat" where
  "root_count order peers =
     length (filter (\<lambda>i. case peers i of Some p \<Rightarrow> pi_role p = Root | None \<Rightarrow> False) order)"

fun best_scan ::
    "mesh_config \<Rightarrow> peer_map \<Rightarrow> peer_id list \<Rightarrow> (peer_id \<times> u32 \<times> nat) option \<Rightarrow> (peer_id \<times> u32 \<times> nat) option" where
  "best_scan cfg peers [] best = best"
| "best_scan cfg peers (i # order) best =
     (case peers i of
        None \<Rightarrow> best_scan cfg peers order best
      | Some peer \<Rightarrow>
          if \<not> can_accept_child (max_children cfg) peer then best_scan cfg peers order best
          else if pi_depth peer \<ge> max_depth cfg then best_scan cfg peers order best
          else
            let candidate = (pi_id peer, pi_depth peer, child_count peer) in
            case best of
              None \<Rightarrow> best_scan cfg peers order (Some candidate)
            | Some (_, best_depth, best_children) \<Rightarrow>
                if pi_depth peer < best_depth \<or> (pi_depth peer = best_depth \<and> child_count peer < best_children)
                then best_scan cfg peers order (Some candidate)
                else best_scan cfg peers order best)"

definition find_best_parent :: "mesh_config \<Rightarrow> peer_id list \<Rightarrow> peer_map \<Rightarrow> (peer_id, mesh_error) outcome" where
  "find_best_parent cfg order peers =
     (case best_scan cfg peers order None of Some (i, _, _) \<Rightarrow> Ok i | None \<Rightarrow> Err NoAvailableParent)"

definition add_peer ::
    "mesh_config \<Rightarrow> nat \<Rightarrow> peer_id list \<Rightarrow> peer_id \<Rightarrow> string \<Rightarrow> u32 option \<Rightarrow> peer_map \<Rightarrow>
     (peer_assignment, mesh_error) outcome \<times> peer_map" where
  "add_peer cfg now order i track capacity peers =
     (let peer = (peer_info_new now i track)\<lparr>pi_capacity := capacity\<rparr> in
      if root_count order peers < root_peer_count cfg then
        (Ok \<lparr>pa_peer_id = i, pa_role = Root, pa_parent = None, pa_depth = 0\<rparr>,
         peers(i \<mapsto> peer\<lparr>pi_role := Root, pi_depth := 0\<rparr>))
      else
        case find_best_parent cfg order peers of
          Err e \<Rightarrow> (Err e, peers)
        | Panic \<Rightarrow> (Panic, peers)
        | Ok parent \<Rightarrow>
            let depth = (case peers parent of Some p \<Rightarrow> pi_depth p + 1 | None \<Rightarrow> 1);
                peer = peer\<lparr>pi_role := Relay, pi_parent := Some parent, pi_depth := depth\<rparr> in
            if depth > max_depth cfg then (Err (TreeDepthExceeded (unat (max_depth cfg))), peers)
            else
              (Ok \<lparr>pa_peer_id = i, pa_role = Relay, pa_parent = Some parent, pa_depth = depth\<rparr>,
               modify_peer parent (\<lambda>p. p\<lparr>pi_children := pi_children p @ [i]\<rparr>) (peers(i \<mapsto> peer))))"

definition retain_not :: "peer_id \<Rightarrow> peer_info \<Rightarrow> peer_info" where
  "retain_not i p = p\<lparr>pi_children := filter (\<lambda>c. c \<noteq> i) (pi_children p)\<rparr>"

definition remove_peer :: "peer_id \<Rightarrow> peer_map \<Rightarrow> peer_id list \<times> peer_map" where
  "remove_peer i peers =
     (case peers i of
        None \<Rightarrow> ([], peers)
      | Some peer \<Rightarrow>
          let peers = peers(i := None);
              peers = (case pi_parent peer of None \<Rightarrow> peers
                | Some parent_id \<Rightarrow> modify_peer parent_id (retain_not i) peers);
              orphans = pi_children peer in
          (orphans, fold (\<lambda>orphan_id. modify_peer orphan_id (\<lambda>p. p\<lparr>pi_parent := None\<rparr>)) orphans peers))"

definition reassign_peer ::
    "mesh_config \<Rightarrow> peer_id list \<Rightarrow> peer_id \<Rightarrow> peer_map \<Rightarrow> (peer_assignment, mesh_error) outcome \<times> peer_map" where
  "reassign_peer cfg order i peers =
     (case peers i of
        None \<Rightarrow> (Err (PeerNotFound i), peers)
      | Some entry \<Rightarrow>
          (case find_best_parent cfg order peers of
             Err e \<Rightarrow> (Err e, peers)
           | Panic \<Rightarrow> (Panic, peers)
           | Ok parent \<Rightarrow>
               let parent_depth = (case peers parent of Some p \<Rightarrow> pi_depth p | None \<Rightarrow> 0);
                   old_parent = pi_parent entry;
                   entry = entry\<lparr>pi_parent := Some parent, pi_depth := parent_depth + 1\<rparr>;
                   assignment = \<lparr>pa_peer_id = i, pa_role = pi_role entry, pa_parent = Some parent,
                     pa_depth = pi_depth entry\<rparr>;
                   peers = peers(i \<mapsto> entry);
                   peers = (case old_parent of None \<Rightarrow> peers
                     | Some old_parent_id \<Rightarrow>
                         if old_parent_id \<noteq> parent then modify_peer old_parent_id (retain_not i) peers
                         else peers) in
               (Ok assignment, modify_peer parent (\<lambda>p. p\<lparr>pi_children := pi_children p @ [i]\<rparr>) peers)))"

definition heartbeat :: "nat \<Rightarrow> peer_id \<Rightarrow> peer_map \<Rightarrow> peer_map" where
  "heartbeat now i = modify_peer i (\<lambda>p. p\<lparr>pi_last_heartbeat := Some now\<rparr>)"

definition record_forward_report :: "peer_id \<Rightarrow> u64 \<Rightarrow> peer_map \<Rightarrow> peer_map" where
  "record_forward_report i forwarded_frames =
     modify_peer i (\<lambda>p. p\<lparr>pi_forwarded_frames := forwarded_frames\<rparr>)"

definition find_dead_peers :: "mesh_config \<Rightarrow> nat \<Rightarrow> peer_id list \<Rightarrow> peer_map \<Rightarrow> peer_id list" where
  "find_dead_peers cfg now order peers =
     filter (\<lambda>i. case peers i of None \<Rightarrow> False
       | Some p \<Rightarrow> (case pi_last_heartbeat p of None \<Rightarrow> True
           | Some hb \<Rightarrow> now - hb > unat (heartbeat_timeout_secs cfg) * 1000)) order"

definition get_peer :: "peer_id \<Rightarrow> peer_map \<Rightarrow> peer_info option" where
  "get_peer i peers = peers i"

definition peer_count :: "peer_id list \<Rightarrow> nat" where
  "peer_count order = length order"

section \<open>The handlers\<close>

text \<open>
  What a disconnect does, in the relay callback, the reaper, the signal callback and the WebSocket relay
  alike: remove the peer and reassign each orphan, ignoring errors.  Every reassignment iterates in its
  own order.
\<close>

fun reassign_all :: "mesh_config \<Rightarrow> (peer_id \<times> peer_id list) list \<Rightarrow> peer_map \<Rightarrow> peer_map" where
  "reassign_all cfg [] peers = peers"
| "reassign_all cfg ((orphan, order) # rest) peers =
     reassign_all cfg rest (snd (reassign_peer cfg order orphan peers))"

definition peer_disconnect :: "mesh_config \<Rightarrow> peer_id list list \<Rightarrow> peer_id \<Rightarrow> peer_map \<Rightarrow> peer_map" where
  "peer_disconnect cfg orders i peers =
     (let (orphans, peers) = remove_peer i peers in reassign_all cfg (zip orphans orders) peers)"

text \<open>The \<open>Register\<close> branch of the signal callback: reuse an existing entry, else add with the clamped capacity.\<close>

definition signal_register ::
    "mesh_config \<Rightarrow> u32 \<Rightarrow> nat \<Rightarrow> peer_id list \<Rightarrow> peer_id \<Rightarrow> string \<Rightarrow> u32 option \<Rightarrow> peer_map \<Rightarrow>
     peer_assignment option \<times> peer_map" where
  "signal_register cfg global_max_children now order i track capacity peers =
     (case get_peer i peers of
        Some existing \<Rightarrow> (Some \<lparr>pa_peer_id = i, pa_role = pi_role existing, pa_parent = pi_parent existing,
          pa_depth = pi_depth existing\<rparr>, peers)
      | None \<Rightarrow>
          (case add_peer cfg now order i track (map_option (min global_max_children) capacity) peers of
             (Ok a, peers) \<Rightarrow> (Some a, peers)
           | (_, peers) \<Rightarrow> (None, peers)))"

section \<open>Steps\<close>

definition iterates :: "peer_id list \<Rightarrow> peer_map \<Rightarrow> bool" where
  "iterates order peers \<longleftrightarrow> distinct order \<and> set order = dom peers"

inductive mesh_step :: "mesh_config \<Rightarrow> peer_map \<Rightarrow> peer_map \<Rightarrow> bool" for cfg where
  step_add: "iterates order peers \<Longrightarrow> peers i = None \<Longrightarrow>
    mesh_step cfg peers (snd (add_peer cfg now order i track capacity peers))"
| step_remove: "mesh_step cfg peers (snd (remove_peer i peers))"
| step_reassign: "iterates order peers \<Longrightarrow> mesh_step cfg peers (snd (reassign_peer cfg order i peers))"
| step_heartbeat: "mesh_step cfg peers (heartbeat now i peers)"
| step_report: "mesh_step cfg peers (record_forward_report i n peers)"

inductive_cases mesh_stepE: "mesh_step cfg peers peers'"

section \<open>Lemmas: the map operations\<close>

lemma modify_peer_apply: "modify_peer i f peers j = (if j = i then map_option f (peers i) else peers j)"
  by (simp add: modify_peer_def split: option.split)

lemma dom_modify_peer [simp]: "dom (modify_peer i f peers) = dom peers"
  by (auto simp: modify_peer_apply split: if_splits)

lemma fold_clear_apply:
  "fold (\<lambda>k. modify_peer k (\<lambda>p. p\<lparr>pi_parent := None\<rparr>)) os peers j =
    (if j \<in> set os then map_option (\<lambda>p. p\<lparr>pi_parent := None\<rparr>) (peers j) else peers j)"
  by (induction os arbitrary: peers) (auto simp: modify_peer_apply option.map_comp comp_def)

section \<open>Lemmas: the best parent\<close>

definition eligible :: "mesh_config \<Rightarrow> peer_info \<Rightarrow> bool" where
  "eligible cfg p \<longleftrightarrow> can_accept_child (max_children cfg) p \<and> pi_depth p < max_depth cfg"

definition better :: "u32 \<times> nat \<Rightarrow> u32 \<times> nat \<Rightarrow> bool" where
  "better a b \<longleftrightarrow> fst a < fst b \<or> fst a = fst b \<and> snd a \<le> snd b"

lemma better_trans: "better a b \<Longrightarrow> better b c \<Longrightarrow> better a c"
  by (auto simp: better_def)

lemma best_scan_step:
  "peers i = Some p \<Longrightarrow> best_scan cfg peers (i # order) best =
    best_scan cfg peers order
      (if eligible cfg p \<and> (case best of None \<Rightarrow> True
         | Some (_, d, c) \<Rightarrow> pi_depth p < d \<or> pi_depth p = d \<and> child_count p < c)
       then Some (pi_id p, pi_depth p, child_count p) else best)"
  by (auto simp: eligible_def not_less Let_def split: option.split)

lemma best_scan_result:
  "best_scan cfg peers order best = Some (i, d, c) \<Longrightarrow>
    best = Some (i, d, c) \<or> (\<exists>k\<in>set order. \<exists>p. peers k = Some p \<and> eligible cfg p \<and>
      i = pi_id p \<and> d = pi_depth p \<and> c = child_count p)"
proof (induction order arbitrary: best)
  case (Cons k order)
  show ?case
  proof (cases "peers k")
    case None
    then show ?thesis using Cons by fastforce
  next
    case (Some p)
    from Cons.IH [OF Cons.prems [unfolded best_scan_step [of peers k p, OF Some]]] Some
    show ?thesis by (auto split: if_splits)
  qed
qed simp

lemma best_scan_minimal:
  "best_scan cfg peers order best = Some (i, d, c) \<Longrightarrow>
    (\<forall>j e f. best = Some (j, e, f) \<longrightarrow> better (d, c) (e, f)) \<and>
    (\<forall>k\<in>set order. \<forall>p. peers k = Some p \<and> eligible cfg p \<longrightarrow> better (d, c) (pi_depth p, child_count p))"
proof (induction order arbitrary: best)
  case (Cons k order)
  show ?case
  proof (cases "peers k")
    case None
    then show ?thesis using Cons by fastforce
  next
    case (Some p)
    let ?take = "eligible cfg p \<and> (case best of None \<Rightarrow> True
         | Some (_, d, c) \<Rightarrow> pi_depth p < d \<or> pi_depth p = d \<and> child_count p < c)"
    note ih = Cons.IH [OF Cons.prems [unfolded best_scan_step [of peers k p, OF Some]]]
    show ?thesis
    proof (cases ?take)
      case True
      then have "better (d, c) (pi_depth p, child_count p)" using ih by simp
      moreover have "better (pi_depth p, child_count p) (e, f)" if "best = Some (j, e, f)" for j e f
        using True that by (auto simp: better_def)
      ultimately show ?thesis using ih True Some better_trans by (auto; blast)
    next
      case False
      then have b: "\<forall>j e f. best = Some (j, e, f) \<longrightarrow> better (d, c) (e, f)" using ih by auto
      have "better (d, c) (pi_depth p, child_count p)" if el: "eligible cfg p"
      proof -
        obtain j e f where best: "best = Some (j, e, f)" using False el by (cases best) auto
        then have "better (e, f) (pi_depth p, child_count p)"
          using False el by (auto simp: better_def not_less)
        then show ?thesis using b best better_trans by blast
      qed
      then show ?thesis using ih False Some b by auto
    qed
  qed
qed (simp add: better_def)

lemma best_scan_None:
  "best_scan cfg peers order best = None \<longleftrightarrow>
    best = None \<and> (\<forall>k\<in>set order. \<forall>p. peers k = Some p \<longrightarrow> \<not> eligible cfg p)"
proof (induction order arbitrary: best)
  case (Cons k order)
  show ?case
  proof (cases "peers k")
    case (Some p)
    show ?thesis
      unfolding best_scan_step [of peers k p, OF Some] Cons.IH using Some by (auto split: option.splits)
  qed (use Cons in auto)
qed simp

lemma find_best_parent_no_panic: "find_best_parent cfg order peers \<noteq> Panic"
  by (auto simp: find_best_parent_def split: option.split)

section \<open>Invariants: bounds\<close>

definition keyed :: "peer_map \<Rightarrow> bool" where
  "keyed peers \<longleftrightarrow> (\<forall>i p. peers i = Some p \<longrightarrow> pi_id p = i)"

definition roots :: "peer_map \<Rightarrow> peer_id set" where
  "roots peers = {i. \<exists>p. peers i = Some p \<and> pi_role p = Root}"

definition mesh_bounded :: "mesh_config \<Rightarrow> peer_map \<Rightarrow> bool" where
  "mesh_bounded cfg peers \<longleftrightarrow> finite (dom peers) \<and> keyed peers \<and>
     (\<forall>i p. peers i = Some p \<longrightarrow> length (pi_children p) \<le> max_children cfg \<and> pi_depth p \<le> max_depth cfg) \<and>
     card (roots peers) \<le> root_peer_count cfg"

lemma best_parent_eligible:
  assumes "find_best_parent cfg order peers = Ok q" and "keyed peers"
  obtains p where "peers q = Some p" and "eligible cfg p"
proof -
  obtain d c where "best_scan cfg peers order None = Some (q, d, c)"
    using assms(1) by (auto simp: find_best_parent_def split: option.splits)
  from best_scan_result [OF this] assms(2) show ?thesis using that by (auto simp: keyed_def)
qed

lemma root_count_card: "iterates order peers \<Longrightarrow> root_count order peers = card (roots peers)"
proof -
  assume ord: "iterates order peers"
  have "set (filter (\<lambda>i. case peers i of Some p \<Rightarrow> pi_role p = Root | None \<Rightarrow> False) order) = roots peers"
    using ord by (auto simp: iterates_def roots_def split: option.splits)
  then show ?thesis
    using ord distinct_card [of "filter (\<lambda>i. case peers i of Some p \<Rightarrow> pi_role p = Root | None \<Rightarrow> False) order"]
    by (simp add: root_count_def iterates_def)
qed

lemma depth_step: "d < m \<Longrightarrow> d + 1 \<le> (m :: u32)"
  by (metis inc_le)

lemma finite_roots: "finite (dom peers) \<Longrightarrow> finite (roots peers)"
  by (rule finite_subset [of _ "dom peers"]) (auto simp: roots_def)

lemma bounded_add:
  assumes "mesh_bounded cfg peers" and "iterates order peers"
  shows "mesh_bounded cfg (snd (add_peer cfg now order i track capacity peers))"
proof (cases "root_count order peers < root_peer_count cfg")
  case True
  let ?p = "(peer_info_new now i track)\<lparr>pi_capacity := capacity, pi_role := Root, pi_depth := 0\<rparr>"
  have "roots (peers(i \<mapsto> ?p)) \<subseteq> insert i (roots peers)"
    by (auto simp: roots_def)
  moreover have fin: "finite (roots peers)"
    using assms(1) by (simp add: mesh_bounded_def finite_roots)
  ultimately have "card (roots (peers(i \<mapsto> ?p))) \<le> card (insert i (roots peers))"
    by (intro card_mono) simp_all
  also have "\<dots> \<le> Suc (card (roots peers))" using fin by (simp add: card_insert_if)
  finally have c: "card (roots (peers(i \<mapsto> ?p))) \<le> root_peer_count cfg"
    using True root_count_card [OF assms(2)] by simp
  have "snd (add_peer cfg now order i track capacity peers) = peers(i \<mapsto> ?p)"
    using True by (simp add: add_peer_def Let_def)
  then show ?thesis
    using assms(1) c by (auto simp: mesh_bounded_def keyed_def peer_info_new_def simp del: fun_upd_apply)
      (auto simp: peer_info_new_def split: if_splits)
next
  case False
  show ?thesis
  proof (cases "find_best_parent cfg order peers")
    case (Ok q)
    obtain p where p: "peers q = Some p" "eligible cfg p"
      using best_parent_eligible [OF Ok] assms(1) by (auto simp: mesh_bounded_def)
    let ?n = "(peer_info_new now i track)\<lparr>pi_capacity := capacity, pi_role := Relay, pi_parent := Some q,
      pi_depth := pi_depth p + 1\<rparr>"
    let ?t = "modify_peer q (\<lambda>p. p\<lparr>pi_children := pi_children p @ [i]\<rparr>) (peers(i \<mapsto> ?n))"
    have d: "pi_depth p + 1 \<le> max_depth cfg" using p(2) by (auto simp: eligible_def intro: inc_le)
    have c: "length (pi_children p) < max_children cfg"
      using p(2) by (auto simp: eligible_def can_accept_child_def effective_capacity_def split: option.splits)
    have "snd (add_peer cfg now order i track capacity peers) = ?t"
      using False Ok p leD [OF d] by (simp add: add_peer_def Let_def)
    moreover have "roots ?t \<subseteq> roots peers"
      by (auto simp: roots_def modify_peer_apply split: if_splits option.splits)
    then have "card (roots ?t) \<le> card (roots peers)"
      using assms(1) by (auto simp: mesh_bounded_def intro: card_mono finite_roots)
    ultimately show ?thesis
      using assms(1) p(1) d c by (auto simp: mesh_bounded_def keyed_def modify_peer_apply peer_info_new_def
          split: if_splits)
  qed (use False assms in \<open>simp_all add: add_peer_def Let_def\<close>)
qed

lemma bounded_pointwise:
  assumes "mesh_bounded cfg peers"
    and "\<And>j p'. peers' j = Some p' \<Longrightarrow> \<exists>p. peers j = Some p \<and> pi_id p' = pi_id p \<and> pi_role p' = pi_role p \<and>
      length (pi_children p') \<le> max (length (pi_children p)) (max_children cfg) \<and>
      pi_depth p' \<le> max_depth cfg"
  shows "mesh_bounded cfg peers'"
proof -
  have "dom peers' \<subseteq> dom peers" using assms(2) by fastforce
  then have f: "finite (dom peers')" using assms(1) finite_subset by (auto simp: mesh_bounded_def)
  have "roots peers' \<subseteq> roots peers" using assms(2) by (fastforce simp: roots_def)
  then have "card (roots peers') \<le> card (roots peers)"
    using assms(1) by (intro card_mono finite_roots) (simp_all add: mesh_bounded_def)
  moreover have "pi_id p' = j \<and> length (pi_children p') \<le> max_children cfg \<and> pi_depth p' \<le> max_depth cfg"
    if "peers' j = Some p'" for j p'
    using assms(2) [OF that] assms(1) by (force simp: mesh_bounded_def keyed_def)
  ultimately show ?thesis using f assms(1) by (auto simp: mesh_bounded_def keyed_def)
qed

lemma bounded_modify:
  assumes "mesh_bounded cfg peers"
    and "\<And>p. pi_id (f p) = pi_id p \<and> pi_role (f p) = pi_role p \<and>
      length (pi_children (f p)) \<le> length (pi_children p) \<and> pi_depth (f p) = pi_depth p"
  shows "mesh_bounded cfg (modify_peer i f peers)"
  by (rule bounded_pointwise [OF assms(1)])
    (use assms in \<open>auto simp: modify_peer_apply mesh_bounded_def le_max_iff_disj split: if_splits\<close>)

lemma bounded_fold:
  assumes "\<And>i peers. mesh_bounded cfg peers \<Longrightarrow> mesh_bounded cfg (g i peers)"
  shows "mesh_bounded cfg peers \<Longrightarrow> mesh_bounded cfg (fold g is peers)"
  by (induction "is" arbitrary: peers) (auto intro: assms)

lemma bounded_remove:
  assumes "mesh_bounded cfg peers"
  shows "mesh_bounded cfg (snd (remove_peer i peers))"
proof -
  have "mesh_bounded cfg (peers(i := None))"
    by (rule bounded_pointwise [OF assms]) (use assms in \<open>auto simp: mesh_bounded_def le_max_iff_disj split: if_splits\<close>)
  then have "mesh_bounded cfg (modify_peer q (retain_not i) (peers(i := None)))" for q
    by (rule bounded_modify) (simp add: retain_not_def)
  with \<open>mesh_bounded cfg (peers(i := None))\<close> show ?thesis
    using assms by (auto simp: remove_peer_def Let_def split: option.splits
        intro!: bounded_fold bounded_modify simp: retain_not_def)
qed

lemma bounded_reassign:
  assumes "mesh_bounded cfg peers"
  shows "mesh_bounded cfg (snd (reassign_peer cfg order i peers))"
proof (cases "peers i = None \<or> (\<forall>q. find_best_parent cfg order peers \<noteq> Ok q)")
  case True
  then show ?thesis
    using assms by (auto simp: reassign_peer_def split: option.splits outcome.splits)
next
  case False
  then obtain entry q where e: "peers i = Some entry" and q: "find_best_parent cfg order peers = Ok q" by auto
  obtain p where p: "peers q = Some p" "eligible cfg p"
    using best_parent_eligible [OF q] assms by (auto simp: mesh_bounded_def)
  have d: "pi_depth p + 1 \<le> max_depth cfg" using p(2) by (auto simp: eligible_def intro: inc_le)
  have c: "length (pi_children p) < max_children cfg"
    using p(2) by (auto simp: eligible_def can_accept_child_def effective_capacity_def split: option.splits)
  let ?s1 = "peers(i \<mapsto> entry\<lparr>pi_parent := Some q, pi_depth := pi_depth p + 1\<rparr>)"
  define s2 where "s2 = (case pi_parent entry of None \<Rightarrow> ?s1
     | Some old \<Rightarrow> if old \<noteq> q then modify_peer old (retain_not i) ?s1 else ?s1)"
  have b1: "mesh_bounded cfg ?s1"
    by (rule bounded_pointwise [OF assms]) (use assms e d in \<open>auto simp: mesh_bounded_def le_max_iff_disj split: if_splits\<close>)
  then have "mesh_bounded cfg (modify_peer old (retain_not i) ?s1)" for old
    by (rule bounded_modify) (simp add: retain_not_def)
  with b1 have b2: "mesh_bounded cfg s2" by (simp add: s2_def split: option.split)
  have "pi_children p' = pi_children p" if "s2 q = Some p'" for p'
    using that p(1) e by (auto simp: s2_def modify_peer_apply retain_not_def split: option.splits if_splits)
  then have "mesh_bounded cfg (modify_peer q (\<lambda>p. p\<lparr>pi_children := pi_children p @ [i]\<rparr>) s2)"
    by (intro bounded_pointwise [OF b2])
      (use b2 c in \<open>auto simp: modify_peer_apply mesh_bounded_def le_max_iff_disj Suc_le_eq split: if_splits\<close>)
  moreover have "snd (reassign_peer cfg order i peers) =
      modify_peer q (\<lambda>p. p\<lparr>pi_children := pi_children p @ [i]\<rparr>) s2"
    by (simp add: reassign_peer_def e q p(1) Let_def s2_def)
  ultimately show ?thesis by simp
qed

interpretation bounds: step_invariant mesh_new "mesh_step cfg" "mesh_bounded cfg" for cfg
proof
  show "mesh_bounded cfg mesh_new"
    by (simp add: mesh_bounded_def mesh_new_def keyed_def roots_def)
next
  fix s t assume "mesh_bounded cfg s" and "mesh_step cfg s t"
  then show "mesh_bounded cfg t"
    by (elim mesh_stepE)
      (auto intro!: bounded_add bounded_remove bounded_reassign bounded_modify
        simp: heartbeat_def record_forward_report_def)
qed

section \<open>Invariants: links\<close>

text \<open>Parents and children agree: \<open>c\<close> is in the list of \<open>i\<close> exactly when \<open>i\<close> is the parent of \<open>c\<close>.\<close>

definition parent_of :: "peer_map \<Rightarrow> peer_id \<Rightarrow> peer_id option" where
  "parent_of peers c = Option.bind (peers c) pi_parent"

definition kids :: "peer_map \<Rightarrow> peer_id \<Rightarrow> peer_id set" where
  "kids peers i = (case peers i of None \<Rightarrow> {} | Some p \<Rightarrow> set (pi_children p))"

definition mesh_linked :: "peer_map \<Rightarrow> bool" where
  "mesh_linked peers \<longleftrightarrow> keyed peers \<and> (\<forall>i c. c \<in> kids peers i \<longleftrightarrow> parent_of peers c = Some i)"

lemma keyed_modify: "keyed peers \<Longrightarrow> (\<And>p. pi_id (f p) = pi_id p) \<Longrightarrow> keyed (modify_peer i f peers)"
  by (auto simp: keyed_def modify_peer_apply split: if_splits)

lemma keyed_fold:
  assumes "\<And>i peers. keyed peers \<Longrightarrow> keyed (g i peers)"
  shows "keyed peers \<Longrightarrow> keyed (fold g is peers)"
  by (induction "is" arbitrary: peers) (auto intro: assms)

lemma linked_modify:
  assumes "mesh_linked peers"
    and "\<And>p. pi_id (f p) = pi_id p \<and> pi_parent (f p) = pi_parent p \<and> pi_children (f p) = pi_children p"
  shows "mesh_linked (modify_peer i f peers)"
proof -
  have "parent_of (modify_peer i f peers) = parent_of peers" "kids (modify_peer i f peers) = kids peers"
    using assms(2) by (auto simp: fun_eq_iff modify_peer_apply parent_of_def kids_def option.case_eq_if map_option_case)
  then show ?thesis using assms by (simp add: mesh_linked_def keyed_modify)
qed

text \<open>What each operation does to the links.\<close>

lemma parent_of_upd: "parent_of (peers(i \<mapsto> p)) c = (if c = i then pi_parent p else parent_of peers c)"
  by (simp add: parent_of_def)

lemma kids_upd: "kids (peers(i \<mapsto> p)) j = (if j = i then set (pi_children p) else kids peers j)"
  by (simp add: kids_def)

lemma kids_retain: "kids (modify_peer q (retain_not i) peers) j = kids peers j - (if j = q then {i} else {})"
  by (cases "peers q") (auto simp: retain_not_def kids_def modify_peer_apply)

lemma parent_retain: "parent_of (modify_peer q (retain_not i) peers) c = parent_of peers c"
  by (cases "peers q") (auto simp: retain_not_def parent_of_def modify_peer_apply)

lemma kids_push:
  "peers q \<noteq> None \<Longrightarrow> kids (modify_peer q (\<lambda>p. p\<lparr>pi_children := pi_children p @ [i]\<rparr>) peers) j =
    kids peers j \<union> (if j = q then {i} else {})"
  by (auto simp: modify_peer_apply kids_def)

lemma parent_push:
  "parent_of (modify_peer q (\<lambda>p. p\<lparr>pi_children := pi_children p @ [i]\<rparr>) peers) c = parent_of peers c"
  by (cases "peers q") (auto simp: parent_of_def modify_peer_apply)

lemmas link_simps = parent_of_upd kids_upd kids_retain parent_retain kids_push parent_push

lemma add_links:
  assumes "keyed peers" and "peers i = None"
  shows "snd (add_peer cfg now order i track capacity peers) = peers \<or>
    (\<exists>q. (q = None \<or> (\<exists>j. q = Some j \<and> j \<noteq> i \<and> peers j \<noteq> None)) \<and>
      parent_of (snd (add_peer cfg now order i track capacity peers)) = (parent_of peers)(i := q) \<and>
      kids (snd (add_peer cfg now order i track capacity peers)) =
        (\<lambda>j. if j = i then {} else kids peers j \<union> (if q = Some j then {i} else {})))"
proof (cases "root_count order peers < root_peer_count cfg")
  case True
  then show ?thesis
    using assms(2) by (intro disjI2 exI [of _ None])
      (auto simp: add_peer_def Let_def link_simps peer_info_new_def fun_eq_iff)
next
  case False
  show ?thesis
  proof (cases "find_best_parent cfg order peers")
    case (Ok q)
    obtain p where p: "peers q = Some p" by (rule best_parent_eligible [OF Ok assms(1)])
    then have iq: "i \<noteq> q" using assms(2) by auto
    let ?n = "(peer_info_new now i track)\<lparr>pi_capacity := capacity, pi_role := Relay, pi_parent := Some q,
      pi_depth := pi_depth p + 1\<rparr>"
    let ?t = "modify_peer q (\<lambda>p. p\<lparr>pi_children := pi_children p @ [i]\<rparr>) (peers(i \<mapsto> ?n))"
    have par: "parent_of ?t = (parent_of peers)(i := Some q)"
      by (auto simp: fun_eq_iff link_simps)
    have kid: "kids ?t = (\<lambda>j. if j = i then {} else kids peers j \<union> (if Some q = Some j then {i} else {}))"
      using iq p by (auto simp: fun_eq_iff link_simps peer_info_new_def)
    consider "snd (add_peer cfg now order i track capacity peers) = peers"
      | "snd (add_peer cfg now order i track capacity peers) = ?t"
      using False Ok p by (cases "max_depth cfg < pi_depth p + 1") (auto simp: add_peer_def Let_def)
    then show ?thesis
    proof cases
      case 2
      show ?thesis
        unfolding 2 using par kid p iq by (intro disjI2 exI [of _ "Some q"] conjI) auto
    qed simp
  qed (use False in \<open>simp_all add: add_peer_def Let_def\<close>)
qed

lemma add_keyed: "keyed peers \<Longrightarrow> keyed (snd (add_peer cfg now order i track capacity peers))"
  by (auto simp: add_peer_def Let_def keyed_def modify_peer_apply peer_info_new_def
      split: outcome.splits if_splits option.splits)

lemma linked_add:
  assumes "mesh_linked peers" and fresh: "peers i = None"
  shows "mesh_linked (snd (add_peer cfg now order i track capacity peers))"
proof -
  let ?t = "snd (add_peer cfg now order i track capacity peers)"
  have k: "keyed peers" and l: "\<And>i c. c \<in> kids peers i \<longleftrightarrow> parent_of peers c = Some i"
    using assms(1) by (simp_all add: mesh_linked_def)
  have p0: "parent_of peers i = None" "kids peers i = {}" using fresh by (simp_all add: parent_of_def kids_def)
  have no: "parent_of peers c \<noteq> Some i" for c using l [of c i] p0(2) by simp
  from add_links [OF k fresh, of cfg now order track capacity] show ?thesis
  proof (elim disjE exE conjE)
    fix q assume q: "q = None" "parent_of ?t = (parent_of peers)(i := q)"
      "kids ?t = (\<lambda>j. if j = i then {} else kids peers j \<union> (if q = Some j then {i} else {}))"
    show ?thesis unfolding mesh_linked_def q using add_keyed [OF k] l p0 no by auto
  next
    fix q j assume q: "q = Some j" "j \<noteq> i" "parent_of ?t = (parent_of peers)(i := q)"
      "kids ?t = (\<lambda>j. if j = i then {} else kids peers j \<union> (if q = Some j then {i} else {}))"
    show ?thesis unfolding mesh_linked_def q(3,4) using add_keyed [OF k] q(1,2) l p0 no by auto
  qed (simp add: assms(1))
qed

lemma parent_fold_clear:
  "parent_of (fold (\<lambda>k. modify_peer k (\<lambda>p. p\<lparr>pi_parent := None\<rparr>)) os peers) c =
    (if c \<in> set os then None else parent_of peers c)"
  by (cases "peers c") (simp_all add: parent_of_def fold_clear_apply)

lemma kids_fold_clear: "kids (fold (\<lambda>k. modify_peer k (\<lambda>p. p\<lparr>pi_parent := None\<rparr>)) os peers) = kids peers"
  by (rule ext) (auto simp: kids_def fold_clear_apply split: option.split)

lemma remove_links:
  assumes "mesh_linked peers"
  shows "parent_of (snd (remove_peer i peers)) =
      (\<lambda>c. if c = i \<or> parent_of peers c = Some i then None else parent_of peers c)"
    and "kids (snd (remove_peer i peers)) = (\<lambda>j. if j = i then {} else kids peers j - {i})"
proof -
  have l: "\<And>i c. c \<in> kids peers i \<longleftrightarrow> parent_of peers c = Some i" and k: "keyed peers"
    using assms by (simp_all add: mesh_linked_def)
  have "parent_of (snd (remove_peer i peers)) =
      (\<lambda>c. if c = i \<or> parent_of peers c = Some i then None else parent_of peers c) \<and>
    kids (snd (remove_peer i peers)) = (\<lambda>j. if j = i then {} else kids peers j - {i})"
  proof (cases "peers i")
    case None
    then have p0: "parent_of peers i = None" "kids peers i = {}" by (simp_all add: parent_of_def kids_def)
    have "i \<notin> kids peers j" for j using l p0 by simp
    moreover have "parent_of peers c \<noteq> Some i" for c using l [of c i] p0 by simp
    ultimately show ?thesis using None p0 by (auto simp: remove_peer_def fun_eq_iff)
  next
    case (Some p)
    have kid: "set (pi_children p) = kids peers i" "pi_parent p = parent_of peers i"
      using Some by (simp_all add: kids_def parent_of_def)
    have del: "parent_of (peers(i := None)) c = (if c = i then None else parent_of peers c)"
      "kids (peers(i := None)) j = (if j = i then {} else kids peers j)" for c j
      by (simp_all add: parent_of_def kids_def)
    have "i \<in> kids peers j \<longleftrightarrow> pi_parent p = Some j" for j using l kid(2) by simp
    then show ?thesis
      using Some l
      by (auto simp: remove_peer_def Let_def parent_fold_clear kids_fold_clear link_simps del kid(1)
          fun_eq_iff split: option.splits)
  qed
  then show "parent_of (snd (remove_peer i peers)) =
      (\<lambda>c. if c = i \<or> parent_of peers c = Some i then None else parent_of peers c)"
    and "kids (snd (remove_peer i peers)) = (\<lambda>j. if j = i then {} else kids peers j - {i})"
    by simp_all
qed

lemma remove_keyed: "keyed peers \<Longrightarrow> keyed (snd (remove_peer i peers))"
proof -
  assume "keyed peers"
  then have "keyed (peers(i := None))" by (auto simp: keyed_def split: if_splits)
  then show ?thesis
    using \<open>keyed peers\<close> by (auto simp: remove_peer_def Let_def retain_not_def split: option.split
        intro!: keyed_fold keyed_modify)
qed

lemma linked_remove: "mesh_linked peers \<Longrightarrow> mesh_linked (snd (remove_peer i peers))"
  by (simp add: mesh_linked_def [of "snd (remove_peer i peers)"] remove_links remove_keyed mesh_linked_def)

lemma reassign_links:
  assumes "mesh_linked peers" and "reassign_peer cfg order i peers = (Ok a, peers')" and "pa_parent a = Some q"
  shows "parent_of peers' = (parent_of peers)(i := Some q)"
    and "kids peers' = (\<lambda>j. (kids peers j - {i}) \<union> (if j = q then {i} else {}))"
    and "peers q \<noteq> None" and "keyed peers'"
proof -
  have l: "\<And>i c. c \<in> kids peers i \<longleftrightarrow> parent_of peers c = Some i" and k: "keyed peers"
    using assms(1) by (simp_all add: mesh_linked_def)
  obtain entry where e: "peers i = Some entry" and b: "find_best_parent cfg order peers = Ok q"
    using assms(2,3) by (auto simp: reassign_peer_def Let_def split: option.splits outcome.splits)
  obtain p where p: "peers q = Some p" by (rule best_parent_eligible [OF b k])
  have old: "pi_parent entry = parent_of peers i" using e by (simp add: parent_of_def)
  let ?s1 = "peers(i \<mapsto> entry\<lparr>pi_parent := Some q, pi_depth := pi_depth p + 1\<rparr>)"
  define s2 where "s2 = (case pi_parent entry of None \<Rightarrow> ?s1
     | Some r \<Rightarrow> if r \<noteq> q then modify_peer r (retain_not i) ?s1 else ?s1)"
  have t: "peers' = modify_peer q (\<lambda>p. p\<lparr>pi_children := pi_children p @ [i]\<rparr>) s2"
    using assms(2) by (simp add: reassign_peer_def e b p Let_def s2_def)
  have k1: "kids ?s1 = kids peers" using e by (auto simp: fun_eq_iff kids_def)
  have s2: "parent_of s2 = (parent_of peers)(i := Some q)" "s2 q \<noteq> None" "keyed s2"
    "kids s2 = (\<lambda>j. if parent_of peers i = Some j \<and> j \<noteq> q then kids peers j - {i} else kids peers j)"
    using p k e by (auto simp: s2_def old fun_eq_iff link_simps k1 keyed_def modify_peer_apply retain_not_def
        split: option.splits if_splits)
  show "peers q \<noteq> None" using p by simp
  show "parent_of peers' = (parent_of peers)(i := Some q)" unfolding t using s2(1) by (auto simp: fun_eq_iff link_simps)
  show "keyed peers'" unfolding t using s2(3) by (intro keyed_modify) auto
  show "kids peers' = (\<lambda>j. (kids peers j - {i}) \<union> (if j = q then {i} else {}))"
    unfolding t using s2(2,4) l by (auto simp: fun_eq_iff link_simps)
qed

lemma reassign_cases:
  obtains a peers' q where "reassign_peer cfg order i peers = (Ok a, peers')" "pa_parent a = Some q"
  | "snd (reassign_peer cfg order i peers) = peers"
  by (cases "peers i"; cases "find_best_parent cfg order peers") (auto simp: reassign_peer_def Let_def)

lemma linked_reassign: "mesh_linked peers \<Longrightarrow> mesh_linked (snd (reassign_peer cfg order i peers))"
proof (cases rule: reassign_cases [of cfg order i peers])
  case (1 a peers' q)
  assume "mesh_linked peers"
  from reassign_links [OF this 1] this 1 show ?thesis by (simp add: mesh_linked_def)
qed simp

interpretation links: step_invariant mesh_new "mesh_step cfg" mesh_linked for cfg
proof
  show "mesh_linked mesh_new"
    by (simp add: mesh_linked_def mesh_new_def keyed_def kids_def parent_of_def)
next
  fix s t assume "mesh_linked s" and "mesh_step cfg s t"
  then show "mesh_linked t"
    by (elim mesh_stepE)
      (auto intro!: linked_add linked_remove linked_reassign linked_modify
        simp: heartbeat_def record_forward_report_def)
qed

section \<open>Cycles\<close>

definition parent_rel :: "peer_map \<Rightarrow> (peer_id \<times> peer_id) set" where
  "parent_rel peers = {(c, p). parent_of peers c = Some p}"

text \<open>A path that ends in \<open>i\<close> can be cut at its first visit of \<open>i\<close>.\<close>

lemma rtrancl_avoid: "(q, i) \<in> r\<^sup>* \<Longrightarrow> (q, i) \<in> (r - {i} \<times> UNIV)\<^sup>*"
proof (induction rule: converse_rtrancl_induct)
  case (step x y)
  then show ?case by (cases "x = i") (auto intro: converse_rtrancl_into_rtrancl)
qed simp

lemma reassign_acyclic:
  assumes "mesh_linked peers" and "reassign_peer cfg order i peers = (Ok a, peers')" and "pa_parent a = Some q"
    and "acyclic (parent_rel peers)"
  shows "acyclic (parent_rel peers') \<longleftrightarrow> (q, i) \<notin> (parent_rel peers)\<^sup>*"
proof -
  let ?r = "parent_rel peers - {i} \<times> UNIV"
  have "parent_rel peers' = insert (i, q) ?r"
    by (auto simp: parent_rel_def reassign_links(1) [OF assms(1-3)] split: if_splits)
  then have "acyclic (parent_rel peers') \<longleftrightarrow> (q, i) \<notin> ?r\<^sup>*"
    using assms(4) acyclic_subset [of "parent_rel peers" ?r] by (auto simp: acyclic_insert)
  also have "\<dots> \<longleftrightarrow> (q, i) \<notin> (parent_rel peers)\<^sup>*"
    using rtrancl_avoid [of q i "parent_rel peers"] rtrancl_mono [of ?r "parent_rel peers"] by blast
  finally show ?thesis .
qed

lemma add_acyclic:
  assumes "mesh_linked peers" and "peers i = None" and "acyclic (parent_rel peers)"
  shows "acyclic (parent_rel (snd (add_peer cfg now order i track capacity peers)))"
proof -
  have l: "\<And>i c. c \<in> kids peers i \<longleftrightarrow> parent_of peers c = Some i" and k: "keyed peers"
    using assms(1) by (simp_all add: mesh_linked_def)
  have no: "(x, i) \<notin> parent_rel peers" for x
    using l [of x i] assms(2) by (simp add: parent_rel_def kids_def)
  have p0: "parent_of peers i = None" using assms(2) by (simp add: parent_of_def)
  let ?t = "snd (add_peer cfg now order i track capacity peers)"
  from add_links [OF k assms(2), of cfg now order track capacity] show ?thesis
  proof (elim disjE exE conjE)
    fix q assume q: "q = None" "parent_of ?t = (parent_of peers)(i := q)"
    then have "parent_rel ?t = parent_rel peers" using p0 by (auto simp: parent_rel_def split: if_splits)
    then show ?thesis using assms(3) by simp
  next
    fix q j assume q: "q = Some j" "j \<noteq> i" "parent_of ?t = (parent_of peers)(i := q)"
    then have "parent_rel ?t = insert (i, j) (parent_rel peers)" using p0
      by (auto simp: parent_rel_def split: if_splits)
    moreover have "(j, i) \<notin> (parent_rel peers)\<^sup>*" using q(2) no by (auto elim: rtranclE)
    ultimately show ?thesis using assms(3) by (simp add: acyclic_insert)
  qed (simp add: assms(3))
qed

lemma remove_acyclic:
  "mesh_linked peers \<Longrightarrow> acyclic (parent_rel peers) \<Longrightarrow> acyclic (parent_rel (snd (remove_peer i peers)))"
  by (erule acyclic_subset) (auto simp: parent_rel_def remove_links split: if_splits)

lemma modify_parent_rel:
  "(\<And>p. pi_parent (f p) = pi_parent p) \<Longrightarrow> parent_rel (modify_peer i f peers) = parent_rel peers"
  by (cases "peers i") (auto simp: parent_rel_def parent_of_def modify_peer_apply split: if_splits)

lemma parent_rel_mono: "parent_of s = parent_of t \<Longrightarrow> parent_rel s = parent_rel t"
  by (simp add: parent_rel_def)

text \<open>A depth beyond the limit is never assigned: the parent chosen is strictly above the limit.\<close>

lemma add_not_too_deep: "keyed peers \<Longrightarrow> fst (add_peer cfg now order i track capacity peers) \<noteq> Err (TreeDepthExceeded d)"
proof -
  assume k: "keyed peers"
  have False if best: "find_best_parent cfg order peers = Ok q" and at: "peers q = Some p" and deep: "max_depth cfg < pi_depth p + 1" for q p
  proof -
    obtain p' where "peers q = Some p'" "eligible cfg p'" by (rule best_parent_eligible [OF best k])
    then have "pi_depth p + 1 \<le> max_depth cfg" using at by (auto simp: eligible_def intro: inc_le)
    with deep show False by simp
  qed
  note deep = this
  show ?thesis
  proof (cases "find_best_parent cfg order peers")
    case (Ok q)
    obtain p where p: "peers q = Some p" by (rule best_parent_eligible [OF Ok k])
    then show ?thesis using deep [OF Ok p] Ok by (auto simp: add_peer_def Let_def)
  next
    case (Err e)
    then have "e = NoAvailableParent" by (auto simp: find_best_parent_def split: option.splits)
    then show ?thesis using Err by (simp add: add_peer_def Let_def)
  qed (simp add: add_peer_def Let_def)
qed

lemma linked_reassign_all: "mesh_linked peers \<Longrightarrow> mesh_linked (reassign_all cfg jobs peers)"
  by (induction cfg jobs peers rule: reassign_all.induct) (auto intro: linked_reassign)

lemma linked_disconnect: "mesh_linked peers \<Longrightarrow> mesh_linked (peer_disconnect cfg orders i peers)"
  by (auto simp: peer_disconnect_def split: prod.split
      intro!: linked_reassign_all dest!: linked_remove [of peers i])

lemma linked_register:
  "mesh_linked peers \<Longrightarrow> mesh_linked (snd (signal_register cfg g now order i track capacity peers))"
  using linked_add [of peers i cfg now order track "map_option (min g) capacity"]
  by (auto simp: signal_register_def get_peer_def split: option.split prod.split outcome.split)

lemma reassign_dom: "dom (snd (reassign_peer cfg order i peers)) = dom peers"
  by (cases "peers i"; cases "find_best_parent cfg order peers")
    (auto simp: reassign_peer_def Let_def modify_peer_apply split: option.splits if_splits)

lemma reassign_all_dom: "dom (reassign_all cfg jobs peers) = dom peers"
  by (induction cfg jobs peers rule: reassign_all.induct) (simp_all add: reassign_dom)

lemma fold_modify_dom: "dom (fold (\<lambda>k. modify_peer k f) ks peers) = dom peers"
  by (induction ks arbitrary: peers) simp_all

lemma remove_dom: "dom (snd (remove_peer i peers)) = dom peers - {i}"
  by (auto simp: remove_peer_def Let_def fold_modify_dom split: option.split)

lemma disconnect_dom: "dom (peer_disconnect cfg orders i peers) = dom peers - {i}"
  using remove_dom [of i peers] by (cases "remove_peer i peers") (simp add: peer_disconnect_def reassign_all_dom)

section \<open>Properties\<close>



text \<open>
  The parent search returns a peer that has a free slot and is above the depth limit, with the least
  depth and among those the fewest children; it fails exactly when no such peer exists.  The order in
  which the map is iterated decides only between peers that are equal in both.
\<close>

theorem best_parent_optimal:
  assumes "(mesh_step cfg)\<^sup>*\<^sup>* mesh_new peers" and "iterates order peers"
  shows "(find_best_parent cfg order peers = Ok q \<longrightarrow> (\<exists>p. peers q = Some p \<and>
      can_accept_child (max_children cfg) p \<and> pi_depth p < max_depth cfg \<and>
      (\<forall>k r. peers k = Some r \<longrightarrow> can_accept_child (max_children cfg) r \<longrightarrow> pi_depth r < max_depth cfg \<longrightarrow>
        pi_depth p < pi_depth r \<or> pi_depth p = pi_depth r \<and> child_count p \<le> child_count r))) \<and>
    (find_best_parent cfg order peers = Err e \<longleftrightarrow> e = NoAvailableParent \<and>
      (\<forall>k r. peers k = Some r \<longrightarrow> \<not> (can_accept_child (max_children cfg) r \<and> pi_depth r < max_depth cfg)))"
proof -
  have k: "keyed peers" using links.inv_reachable [OF assms(1)] by (simp add: mesh_linked_def)
  have ord: "k \<in> set order" if "peers k = Some r" for k r using that assms(2) by (auto simp: iterates_def)
  have "\<exists>p. peers q = Some p \<and> can_accept_child (max_children cfg) p \<and> pi_depth p < max_depth cfg \<and>
      (\<forall>k r. peers k = Some r \<longrightarrow> can_accept_child (max_children cfg) r \<longrightarrow> pi_depth r < max_depth cfg \<longrightarrow>
        pi_depth p < pi_depth r \<or> pi_depth p = pi_depth r \<and> child_count p \<le> child_count r)"
    if ok: "find_best_parent cfg order peers = Ok q"
  proof -
    obtain d c where s: "best_scan cfg peers order None = Some (q, d, c)"
      using ok by (auto simp: find_best_parent_def split: option.splits)
    from best_scan_result [OF s] k obtain p where p: "peers q = Some p" "eligible cfg p"
      "d = pi_depth p" "c = child_count p" by (auto simp: keyed_def)
    have "pi_depth p < pi_depth r \<or> pi_depth p = pi_depth r \<and> child_count p \<le> child_count r"
      if r: "peers k = Some r" "can_accept_child (max_children cfg) r" "pi_depth r < max_depth cfg" for k r
      using best_scan_minimal [OF s] ord [OF r(1)] r p(3,4) by (force simp: better_def eligible_def)
    with p(1,2) show ?thesis by (auto simp: eligible_def)
  qed
  moreover have "find_best_parent cfg order peers = Err e \<longleftrightarrow> e = NoAvailableParent \<and>
      (\<forall>k r. peers k = Some r \<longrightarrow> \<not> (can_accept_child (max_children cfg) r \<and> pi_depth r < max_depth cfg))"
    using best_scan_None [of cfg peers order None] ord
    by (auto simp: find_best_parent_def eligible_def split: option.splits)
  ultimately show ?thesis by blast
qed

text \<open>
  Adding and removing peers never closes a cycle of parents in the tree.  A reassignment does so exactly
  when the parent the search chose is the peer itself or one of its descendants: nothing in
  \<open>reassign_peer\<close> excludes these.
\<close>

theorem mesh_acyclic:
  assumes "(mesh_step cfg)\<^sup>*\<^sup>* mesh_new peers" and "acyclic (parent_rel peers)"
  shows "(peers i = None \<longrightarrow> acyclic (parent_rel (snd (add_peer cfg now order i track capacity peers)))) \<and>
    acyclic (parent_rel (snd (remove_peer i peers))) \<and>
    (reassign_peer cfg order i peers = (Ok a, peers') \<longrightarrow> pa_parent a = Some q \<longrightarrow>
      (acyclic (parent_rel peers') \<longleftrightarrow> (q, i) \<notin> (parent_rel peers)\<^sup>*))"
proof -
  have l: "mesh_linked peers" by (rule links.inv_reachable [OF assms(1)])
  then show ?thesis
    using add_acyclic [OF l _ assms(2)] remove_acyclic [OF l assms(2)] reassign_acyclic [OF l _ _ assms(2)]
    by blast
qed

text \<open>A mesh with one root slot, its viewer, and the run in which the root leaves.\<close>

definition one_root :: mesh_config where
  "one_root = mesh_config_default\<lparr>root_peer_count := 1\<rparr>"

definition root_added :: peer_map where
  "root_added = snd (add_peer one_root 0 [] ''a'' ''live'' None mesh_new)"

definition viewer_added :: peer_map where
  "viewer_added = snd (add_peer one_root 0 [''a''] ''b'' ''live'' None root_added)"

lemma root_added_state: "root_added = [''a'' \<mapsto> (peer_info_new 0 ''a'' ''live'')\<lparr>pi_role := Root\<rparr>]"
  by (simp add: root_added_def add_peer_def Let_def root_count_def one_root_def mesh_config_default_def
      mesh_new_def peer_info_new_def)

lemma viewer_added_state: "viewer_added =
  [''a'' \<mapsto> (peer_info_new 0 ''a'' ''live'')\<lparr>pi_role := Root, pi_children := [''b'']\<rparr>,
   ''b'' \<mapsto> (peer_info_new 0 ''b'' ''live'')\<lparr>pi_role := Relay, pi_parent := Some ''a'', pi_depth := 1\<rparr>]"
  by (auto simp: viewer_added_def root_added_state add_peer_def Let_def root_count_def one_root_def
      mesh_config_default_def peer_info_new_def find_best_parent_def can_accept_child_def effective_capacity_def
      child_count_def modify_peer_def fun_eq_iff)

lemma viewer_added_reachable: "(mesh_step one_root)\<^sup>*\<^sup>* mesh_new viewer_added"
proof -
  have "mesh_step one_root mesh_new root_added"
    unfolding root_added_def by (rule step_add) (simp_all add: iterates_def mesh_new_def)
  moreover have "mesh_step one_root root_added viewer_added"
    unfolding viewer_added_def by (rule step_add) (simp_all add: iterates_def root_added_state)
  ultimately show ?thesis by simp
qed

lemma viewer_added_acyclic: "acyclic (parent_rel viewer_added)"
proof -
  have "parent_rel viewer_added = {(''b'', ''a'')}"
    by (auto simp: parent_rel_def parent_of_def viewer_added_state peer_info_new_def split: if_splits)
  then show ?thesis by (simp add: acyclic_def trancl_insert)
qed

text \<open>What the reassignments do when the root of that mesh leaves.\<close>

lemma root_left_state: "snd (remove_peer ''a'' viewer_added) =
  [''b'' \<mapsto> (peer_info_new 0 ''b'' ''live'')\<lparr>pi_role := Relay, pi_depth := 1\<rparr>]"
  by (auto simp: remove_peer_def viewer_added_state peer_info_new_def modify_peer_def fun_eq_iff)

lemma depth_1_allowed [simp]: "\<not> (6 :: u32) \<le> 1"
  by (simp add: word_le_nat_alt)

lemma orphan_state: "peer_disconnect one_root [[''b'']] ''a'' viewer_added =
  [''b'' \<mapsto> (peer_info_new 0 ''b'' ''live'')\<lparr>pi_role := Relay, pi_parent := Some ''b'', pi_children := [''b''],
     pi_depth := 2\<rparr>]"
proof -
  have o1: "fst (remove_peer ''a'' viewer_added) = [''b'']"
    by (simp add: remove_peer_def viewer_added_state Let_def)
  have "peer_disconnect one_root [[''b'']] ''a'' viewer_added =
      snd (reassign_peer one_root [''b''] ''b'' (snd (remove_peer ''a'' viewer_added)))"
    by (simp add: peer_disconnect_def case_prod_unfold o1)
  also have "\<dots> = [''b'' \<mapsto> (peer_info_new 0 ''b'' ''live'')\<lparr>pi_role := Relay, pi_parent := Some ''b'',
      pi_children := [''b''], pi_depth := 2\<rparr>]"
    by (auto simp: root_left_state reassign_peer_def find_best_parent_def can_accept_child_def
        effective_capacity_def child_count_def one_root_def mesh_config_default_def modify_peer_def
        peer_info_new_def Let_def fun_eq_iff)
  finally show ?thesis .
qed



lemma viewer_added_iterates: "iterates [''a'', ''b''] viewer_added"
  by (auto simp: iterates_def viewer_added_state)

lemma viewer_added_best: "find_best_parent one_root [''a'', ''b''] viewer_added = Ok ''a''"
  by (simp add: find_best_parent_def viewer_added_state can_accept_child_def effective_capacity_def
      child_count_def one_root_def mesh_config_default_def peer_info_new_def Let_def)

theorem best_parent_optimal_witness:
  "\<exists>p. viewer_added ''a'' = Some p \<and> can_accept_child 3 p \<and>
    (\<forall>r. viewer_added ''b'' = Some r \<and> can_accept_child 3 r \<and> pi_depth r < 6 \<longrightarrow> pi_depth p \<le> pi_depth r)"
  using best_parent_optimal [OF viewer_added_reachable viewer_added_iterates, of "''a''" NoAvailableParent]
    viewer_added_best
  by (simp add: one_root_def mesh_config_default_def) (metis order.strict_implies_order order_refl)

theorem mesh_acyclic_witness:
  "acyclic (parent_rel (snd (remove_peer ''a'' viewer_added)))"
  using mesh_acyclic [OF viewer_added_reachable viewer_added_acyclic, of "''a''"] by blast

text \<open>
  A viewer can be cut off from the source: in a mesh with one root slot, when the root leaves, the
  disconnect handler makes its only child the child of itself, one level below itself, although a root
  slot is free.
\<close>

theorem orphan_becomes_own_parent:
  "(mesh_step one_root)\<^sup>*\<^sup>* mesh_new viewer_added \<and>
    parent_of (peer_disconnect one_root [[''b'']] ''a'' viewer_added) ''b'' = Some ''b'' \<and>
    root_count [''b''] (peer_disconnect one_root [[''b'']] ''a'' viewer_added) < root_peer_count one_root"
  unfolding orphan_state using viewer_added_reachable
  by (simp add: parent_of_def root_count_def one_root_def mesh_config_default_def peer_info_new_def)

end
