(* ===== verification/Cmaf.thy ===== *)
theory Cmaf
  imports Mp4Read Fmt
begin

text \<open>
  The segmenter of \<open>lvqr-cmaf\<close>: the boundary policy (\<open>policy.rs\<close>), the per-track sample coalescer and its
  fragment writer (\<open>coalescer.rs\<close>), the chunk and sample types (\<open>chunk.rs\<close>, \<open>sample.rs\<close>) and the
  pass-through segmenter (\<open>segmenter.rs\<close>).  The encoder of the \<open>moof\<close> box is the third-party crate
  \<open>mp4-atom\<close>: it is the parameter \<open>enc\<close>, whose failure is the panic of \<open>expect\<close>.  The lemmas show that the
  coalescer implements a one-pass specification of the chunk boundaries, and that its classification of
  the chunks is the policy's.
\<close>

section \<open>Samples and chunks\<close>

record raw_sample =
  rs_track_id :: u32
  rs_dts :: u64
  rs_cts_offset :: u32
  rs_duration :: u32
  rs_payload :: bytes
  rs_keyframe :: bool

definition sample_keyframe :: "u32 \<Rightarrow> u64 \<Rightarrow> u32 \<Rightarrow> bytes \<Rightarrow> raw_sample" where
  "sample_keyframe track_id dts duration payload = \<lparr>rs_track_id = track_id, rs_dts = dts,
     rs_cts_offset = 0, rs_duration = duration, rs_payload = payload, rs_keyframe = True\<rparr>"

definition sample_delta :: "u32 \<Rightarrow> u64 \<Rightarrow> u32 \<Rightarrow> bytes \<Rightarrow> raw_sample" where
  "sample_delta track_id dts duration payload = \<lparr>rs_track_id = track_id, rs_dts = dts,
     rs_cts_offset = 0, rs_duration = duration, rs_payload = payload, rs_keyframe = False\<rparr>"

datatype cmaf_chunk_kind = Partial | PartialIndependent | Segment

fun is_independent :: "cmaf_chunk_kind \<Rightarrow> bool" where
  "is_independent PartialIndependent = True"
| "is_independent Segment = True"
| "is_independent Partial = False"

fun is_segment_start :: "cmaf_chunk_kind \<Rightarrow> bool" where
  "is_segment_start Segment = True"
| "is_segment_start _ = False"

record cmaf_chunk =
  ck_track_id :: string
  ck_payload :: bytes
  ck_dts :: u64
  ck_duration :: u64
  ck_kind :: cmaf_chunk_kind

section \<open>The policy\<close>

record cmaf_policy =
  partial_duration :: u64
  segment_duration :: u64

definition VIDEO_90KHZ_DEFAULT :: cmaf_policy where
  "VIDEO_90KHZ_DEFAULT = \<lparr>partial_duration = 18000, segment_duration = 180000\<rparr>"

definition AUDIO_48KHZ_DEFAULT :: cmaf_policy where
  "AUDIO_48KHZ_DEFAULT = \<lparr>partial_duration = 9600, segment_duration = 96000\<rparr>"

definition for_timescale :: "u32 \<Rightarrow> cmaf_policy" where
  "for_timescale timescale = (let ts = ucast timescale :: u64 in
     \<lparr>partial_duration = ts div 5, segment_duration = ts * 2\<rparr>)"

definition with_durations :: "u32 \<Rightarrow> u32 \<Rightarrow> u32 \<Rightarrow> cmaf_policy" where
  "with_durations timescale segment_duration_ms part_duration_ms = (let ts = ucast timescale :: u64 in
     \<lparr>partial_duration = ts * ucast part_duration_ms div 1000,
      segment_duration = ts * ucast segment_duration_ms div 1000\<rparr>)"

record cmaf_policy_state =
  ps_policy :: cmaf_policy
  last_segment_start_dts :: "u64 option"
  last_partial_start_dts :: "u64 option"

definition policy_state_new :: "cmaf_policy \<Rightarrow> cmaf_policy_state" where
  "policy_state_new policy =
     \<lparr>ps_policy = policy, last_segment_start_dts = None, last_partial_start_dts = None\<rparr>"

definition policy_step ::
    "bool \<Rightarrow> u64 \<Rightarrow> cmaf_policy_state \<Rightarrow> (cmaf_chunk_kind \<times> cmaf_policy_state, unit) outcome" where
  "policy_step keyframe dts st =
     (case last_segment_start_dts st of
        None \<Rightarrow> Ok (Segment, st\<lparr>last_segment_start_dts := Some dts, last_partial_start_dts := Some dts\<rparr>)
      | Some seg_start \<Rightarrow>
          if keyframe \<and> segment_duration (ps_policy st) \<le> sat_sub dts seg_start then
            Ok (Segment, st\<lparr>last_segment_start_dts := Some dts, last_partial_start_dts := Some dts\<rparr>)
          else if keyframe then
            Ok (PartialIndependent, st\<lparr>last_partial_start_dts := Some dts\<rparr>)
          else (case last_partial_start_dts st of
              None \<Rightarrow> Panic
            | Some par_start \<Rightarrow>
                Ok (Partial, if partial_duration (ps_policy st) \<le> sat_sub dts par_start
                  then st\<lparr>last_partial_start_dts := Some dts\<rparr> else st)))"

text \<open>The pass-through segmenter annotates each fragment with the policy's decision.\<close>

record fragment =
  fr_track_id :: string
  fr_dts :: u64
  fr_duration :: u64
  fr_keyframe :: bool
  fr_payload :: bytes

definition fragment_to_chunk ::
    "fragment \<Rightarrow> cmaf_policy_state \<Rightarrow> (cmaf_chunk \<times> cmaf_policy_state, unit) outcome" where
  "fragment_to_chunk frag st =
     obind (policy_step (fr_keyframe frag) (fr_dts frag) st) (\<lambda>(kind, st).
       Ok (\<lparr>ck_track_id = fr_track_id frag, ck_payload = fr_payload frag, ck_dts = fr_dts frag,
            ck_duration = fr_duration frag, ck_kind = kind\<rparr>, st))"

section \<open>The fragment writer\<close>

definition sample_flags :: "bool \<Rightarrow> u32" where
  "sample_flags keyframe = (if keyframe then 0x02000000 else 0x01010000)"

text \<open>The part of \<open>mp4_atom::Moof\<close> that varies: everything else is a default.\<close>

record trun_entry =
  te_duration :: u32
  te_size :: u32
  te_flags :: u32
  te_cts :: u32

record moof =
  mf_sequence_number :: u32
  mf_track_id :: u32
  mf_base_media_decode_time :: u64
  mf_data_offset :: u32
  mf_entries :: "trun_entry list"

type_synonym moof_encoder = "moof \<Rightarrow> bytes option"

definition trun_entry_of :: "raw_sample \<Rightarrow> trun_entry" where
  "trun_entry_of s = \<lparr>te_duration = rs_duration s, te_size = of_nat (length (rs_payload s)),
     te_flags = sample_flags (rs_keyframe s), te_cts = rs_cts_offset s\<rparr>"

definition expect :: "'a option \<Rightarrow> ('a, unit) outcome" where
  "expect x = (case x of None \<Rightarrow> Panic | Some v \<Rightarrow> Ok v)"

definition build_moof_mdat ::
    "moof_encoder \<Rightarrow> u32 \<Rightarrow> u32 \<Rightarrow> u64 \<Rightarrow> raw_sample list \<Rightarrow> (bytes, unit) outcome" where
  "build_moof_mdat enc sequence track_id base_dts samples =
     (let moof = \<lparr>mf_sequence_number = sequence, mf_track_id = track_id,
            mf_base_media_decode_time = base_dts, mf_data_offset = 0,
            mf_entries = map trun_entry_of samples\<rparr> in
      obind (expect (enc moof)) (\<lambda>buf.
        let moof_size = length buf; data_offset = of_nat (moof_size + 8) in
        obind (expect (enc (moof\<lparr>mf_data_offset := data_offset\<rparr>))) (\<lambda>buf.
          let mdat_body_len = sum_list (map (\<lambda>s. length (rs_payload s)) samples);
              mdat_size = 8 + mdat_body_len in
          Ok (buf @ be32_bytes (of_nat mdat_size) @ ascii_bytes ''mdat'' @
            concat (map rs_payload samples)))))"

section \<open>The coalescer\<close>

record track_coalescer =
  tc_track_id :: u32
  tc_policy :: cmaf_policy
  tc_pending :: "raw_sample list"
  tc_pending_duration_ticks :: u64
  tc_pending_dts :: "u64 option"
  tc_partial_start_dts :: "u64 option"
  tc_segment_start_dts :: "u64 option"
  tc_pending_kind :: cmaf_chunk_kind
  tc_next_sequence :: u32

definition track_coalescer_new :: "u32 \<Rightarrow> cmaf_policy \<Rightarrow> track_coalescer" where
  "track_coalescer_new track_id policy = \<lparr>tc_track_id = track_id, tc_policy = policy, tc_pending = [],
     tc_pending_duration_ticks = 0, tc_pending_dts = None, tc_partial_start_dts = None,
     tc_segment_start_dts = None, tc_pending_kind = Segment, tc_next_sequence = 1\<rparr>"

definition flush_pending ::
    "moof_encoder \<Rightarrow> track_coalescer \<Rightarrow> (cmaf_chunk \<times> track_coalescer, unit) outcome" where
  "flush_pending enc tc =
     (let samples = tc_pending tc in
      obind (expect (tc_pending_dts tc)) (\<lambda>dts.
        let duration = tc_pending_duration_ticks tc; kind = tc_pending_kind tc;
            sequence = tc_next_sequence tc in
        obind (build_moof_mdat enc sequence (tc_track_id tc) dts samples) (\<lambda>payload.
          Ok (\<lparr>ck_track_id = dec_str (unat (tc_track_id tc)) @ ''.mp4'', ck_payload = payload,
               ck_dts = dts, ck_duration = duration, ck_kind = kind\<rparr>,
              tc\<lparr>tc_pending := [], tc_next_sequence := sequence + 1, tc_pending_duration_ticks := 0,
                 tc_pending_dts := None, tc_partial_start_dts := None\<rparr>))))"

definition flush_chunk ::
    "moof_encoder \<Rightarrow> track_coalescer \<Rightarrow> (cmaf_chunk option \<times> track_coalescer, unit) outcome" where
  "flush_chunk enc tc =
     (if tc_pending tc = [] then Ok (None, tc)
      else obind (flush_pending enc tc) (\<lambda>(c, tc). Ok (Some c, tc)))"

text \<open>Step 1 of \<open>push\<close>: does the sample close the pending batch?\<close>

definition close_pending ::
    "moof_encoder \<Rightarrow> raw_sample \<Rightarrow> track_coalescer \<Rightarrow> (cmaf_chunk option \<times> track_coalescer, unit) outcome" where
  "close_pending enc sample tc =
     (if tc_pending tc \<noteq> [] then
        obind (expect (tc_partial_start_dts tc)) (\<lambda>partial_start.
        obind (expect (tc_segment_start_dts tc)) (\<lambda>segment_start.
          let crosses_partial = partial_duration (tc_policy tc) \<le> sat_sub (rs_dts sample) partial_start;
              forces_segment = (rs_keyframe sample \<and>
                segment_duration (tc_policy tc) \<le> sat_sub (rs_dts sample) segment_start) in
          if crosses_partial \<or> forces_segment then
            obind (flush_pending enc tc) (\<lambda>(c, tc). Ok (Some c, tc))
          else Ok (None, tc)))
      else Ok (None, tc))"

text \<open>Step 2: classify the sample when nothing is pending.\<close>

definition classify_first :: "raw_sample \<Rightarrow> track_coalescer \<Rightarrow> cmaf_chunk_kind \<times> track_coalescer" where
  "classify_first sample tc =
     (case tc_segment_start_dts tc of
        None \<Rightarrow> (Segment, tc\<lparr>tc_segment_start_dts := Some (rs_dts sample)\<rparr>)
      | Some segment_start \<Rightarrow>
          if rs_keyframe sample \<and> segment_duration (tc_policy tc) \<le> sat_sub (rs_dts sample) segment_start
          then (Segment, tc\<lparr>tc_segment_start_dts := Some (rs_dts sample)\<rparr>)
          else if rs_keyframe sample then (PartialIndependent, tc)
          else (Partial, tc))"

definition push_sample ::
    "moof_encoder \<Rightarrow> raw_sample \<Rightarrow> track_coalescer \<Rightarrow> (cmaf_chunk option \<times> track_coalescer, unit) outcome" where
  "push_sample enc sample tc =
     obind (close_pending enc sample tc) (\<lambda>(emitted, tc).
       let tc = (if tc_pending tc = [] then
              (let (kind, tc) = classify_first sample tc in
               tc\<lparr>tc_pending_kind := kind, tc_partial_start_dts := Some (rs_dts sample),
                  tc_pending_dts := Some (rs_dts sample)\<rparr>)
            else tc) in
       Ok (emitted, tc\<lparr>tc_pending_duration_ticks := tc_pending_duration_ticks tc + ucast (rs_duration sample),
                       tc_pending := tc_pending tc @ [sample]\<rparr>))"

text \<open>A whole stream: every sample pushed, then the final flush.\<close>

fun coalesce ::
    "moof_encoder \<Rightarrow> track_coalescer \<Rightarrow> raw_sample list \<Rightarrow> (cmaf_chunk list \<times> track_coalescer, unit) outcome" where
  "coalesce enc tc [] = obind (flush_chunk enc tc) (\<lambda>(c, tc). Ok (case c of None \<Rightarrow> [] | Some c \<Rightarrow> [c], tc))"
| "coalesce enc tc (s # ss) =
     obind (push_sample enc s tc) (\<lambda>(c, tc).
       obind (coalesce enc tc ss) (\<lambda>(cs, tc). Ok ((case c of None \<Rightarrow> [] | Some c \<Rightarrow> [c]) @ cs, tc)))"

section \<open>The specification of the chunk boundaries\<close>

text \<open>
  A chunk starts with a sample and takes the samples behind it as long as they stay inside the partial
  window that this sample opened and do not force a segment.  \<open>seg\<close> is where the current segment
  started.
\<close>

definition stays :: "cmaf_policy \<Rightarrow> u64 \<Rightarrow> u64 \<Rightarrow> raw_sample \<Rightarrow> bool" where
  "stays p start seg x \<longleftrightarrow> \<not> (partial_duration p \<le> sat_sub (rs_dts x) start \<or>
     rs_keyframe x \<and> segment_duration p \<le> sat_sub (rs_dts x) seg)"

definition kind_at :: "cmaf_policy \<Rightarrow> u64 option \<Rightarrow> raw_sample \<Rightarrow> cmaf_chunk_kind" where
  "kind_at p seg s =
     (if seg = None \<or> rs_keyframe s \<and> segment_duration p \<le> sat_sub (rs_dts s) (the seg) then Segment
      else if rs_keyframe s then PartialIndependent else Partial)"

definition segment_at :: "cmaf_policy \<Rightarrow> u64 option \<Rightarrow> raw_sample \<Rightarrow> u64" where
  "segment_at p seg s = (if kind_at p seg s = Segment then rs_dts s else the seg)"

function batches :: "cmaf_policy \<Rightarrow> u64 option \<Rightarrow> raw_sample list \<Rightarrow> (cmaf_chunk_kind \<times> raw_sample list) list" where
  "batches p seg [] = []"
| "batches p seg (s # ss) =
     (kind_at p seg s, s # takeWhile (stays p (rs_dts s) (segment_at p seg s)) ss) #
     batches p (Some (segment_at p seg s)) (dropWhile (stays p (rs_dts s) (segment_at p seg s)) ss)"
  by pat_completeness auto
termination
  by (relation "measure (\<lambda>(_, _, ss). length ss)") (auto simp: le_imp_less_Suc length_dropWhile_le)

definition chunk_of :: "moof_encoder \<Rightarrow> u32 \<Rightarrow> u32 \<Rightarrow> cmaf_chunk_kind \<times> raw_sample list \<Rightarrow> (cmaf_chunk, unit) outcome" where
  "chunk_of enc track n b =
     obind (build_moof_mdat enc n track (rs_dts (hd (snd b))) (snd b)) (\<lambda>payload.
       Ok \<lparr>ck_track_id = dec_str (unat track) @ ''.mp4'', ck_payload = payload, ck_dts = rs_dts (hd (snd b)),
           ck_duration = sum_list (map (\<lambda>s. ucast (rs_duration s)) (snd b)), ck_kind = fst b\<rparr>)"

fun chunks_of :: "moof_encoder \<Rightarrow> u32 \<Rightarrow> u32 \<Rightarrow> (cmaf_chunk_kind \<times> raw_sample list) list \<Rightarrow> (cmaf_chunk list, unit) outcome" where
  "chunks_of enc track n [] = Ok []"
| "chunks_of enc track n (b # bs) =
     obind (chunk_of enc track n b) (\<lambda>c. obind (chunks_of enc track (n + 1) bs) (\<lambda>cs. Ok (c # cs)))"

section \<open>Refinement\<close>

text \<open>The two shapes of a reachable coalescer: idle, or with a batch that its first sample opened.\<close>

definition idle :: "u32 \<Rightarrow> cmaf_policy \<Rightarrow> u64 option \<Rightarrow> cmaf_chunk_kind \<Rightarrow> u32 \<Rightarrow> track_coalescer" where
  "idle track p seg k n = \<lparr>tc_track_id = track, tc_policy = p, tc_pending = [],
     tc_pending_duration_ticks = 0, tc_pending_dts = None, tc_partial_start_dts = None,
     tc_segment_start_dts = seg, tc_pending_kind = k, tc_next_sequence = n\<rparr>"

definition filling :: "u32 \<Rightarrow> cmaf_policy \<Rightarrow> raw_sample list \<Rightarrow> u64 \<Rightarrow> cmaf_chunk_kind \<Rightarrow> u32 \<Rightarrow> track_coalescer" where
  "filling track p batch seg k n = \<lparr>tc_track_id = track, tc_policy = p, tc_pending = batch,
     tc_pending_duration_ticks = sum_list (map (\<lambda>s. ucast (rs_duration s)) batch),
     tc_pending_dts = Some (rs_dts (hd batch)), tc_partial_start_dts = Some (rs_dts (hd batch)),
     tc_segment_start_dts = Some seg, tc_pending_kind = k, tc_next_sequence = n\<rparr>"

lemma filling_sel [simp]:
  "tc_track_id (filling track p batch seg k n) = track" "tc_policy (filling track p batch seg k n) = p"
  "tc_pending (filling track p batch seg k n) = batch"
  "tc_partial_start_dts (filling track p batch seg k n) = Some (rs_dts (hd batch))"
  "tc_segment_start_dts (filling track p batch seg k n) = Some seg"
  by (simp_all add: filling_def)

lemma expect_Some [simp]: "expect (Some v) = Ok v"
  by (simp add: expect_def)

lemma flush_filling:
  "flush_pending enc (filling track p batch seg k n) =
    obind (chunk_of enc track n (k, batch)) (\<lambda>c. Ok (c, idle track p (Some seg) k (n + 1)))"
  by (simp add: flush_pending_def filling_def idle_def chunk_of_def expect_def Let_def obind_assoc)

lemma push_idle:
  "push_sample enc s (idle track p seg k n) =
    Ok (None, filling track p [s] (segment_at p seg s) (kind_at p seg s) n)"
  by (cases seg) (simp_all add: push_sample_def close_pending_def classify_first_def idle_def filling_def
      kind_at_def segment_at_def Let_def)

lemma push_stays:
  assumes "batch \<noteq> []" and "stays p (rs_dts (hd batch)) seg x"
  shows "push_sample enc x (filling track p batch seg k n) = Ok (None, filling track p (batch @ [x]) seg k n)"
proof -
  have c: "close_pending enc x (filling track p batch seg k n) = Ok (None, filling track p batch seg k n)"
    using assms by (auto simp: close_pending_def stays_def Let_def)
  show ?thesis
    unfolding push_sample_def c using assms(1) by (simp add: filling_def)
qed

lemma push_cuts:
  assumes "batch \<noteq> []" and "\<not> stays p (rs_dts (hd batch)) seg x"
  shows "push_sample enc x (filling track p batch seg k n) =
    obind (chunk_of enc track n (k, batch)) (\<lambda>c.
      Ok (Some c, filling track p [x] (segment_at p (Some seg) x) (kind_at p (Some seg) x) (n + 1)))"
proof -
  have c: "close_pending enc x (filling track p batch seg k n) =
      obind (chunk_of enc track n (k, batch)) (\<lambda>c. Ok (Some c, idle track p (Some seg) k (n + 1)))"
    using assms unfolding close_pending_def stays_def
    by (auto simp: flush_filling obind_assoc Let_def)
  have i: "close_pending enc x (idle track p (Some seg) k (n + 1)) = Ok (None, idle track p (Some seg) k (n + 1))"
    by (simp add: close_pending_def idle_def)
  show ?thesis
    using push_idle [of enc x track p "Some seg" k "n + 1"]
    unfolding push_sample_def c i obind_assoc obind.simps prod.case
    by (simp add: Let_def)
qed

lemma coalesce_filling:
  "batch \<noteq> [] \<Longrightarrow> omap fst (coalesce enc (filling track p batch seg k n) ss) =
    chunks_of enc track n ((k, batch @ takeWhile (stays p (rs_dts (hd batch)) seg) ss) #
      batches p (Some seg) (dropWhile (stays p (rs_dts (hd batch)) seg) ss))"
proof (induction ss arbitrary: batch seg k n)
  case Nil
  have "tc_pending (filling track p batch seg k n) \<noteq> []" using Nil by (simp add: filling_def)
  then show ?case
    by (simp add: flush_chunk_def flush_filling obind_assoc omap_obind)
next
  case (Cons x ss)
  show ?case
  proof (cases "stays p (rs_dts (hd batch)) seg x")
    case True
    then show ?thesis
      using Cons.IH [of "batch @ [x]" seg k n] Cons.prems
      by (simp add: push_stays obind_assoc omap_obind split_def flip: obind_omap)
  next
    case False
    have "omap fst (coalesce enc (filling track p [x] (segment_at p (Some seg) x) (kind_at p (Some seg) x) (n + 1)) ss) =
        chunks_of enc track (n + 1) (batches p (Some seg) (x # ss))"
      using Cons.IH [of "[x]" "segment_at p (Some seg) x" "kind_at p (Some seg) x" "n + 1"] by simp
    then have "obind (coalesce enc (filling track p [x] (segment_at p (Some seg) x)
          (kind_at p (Some seg) x) (n + 1)) ss) (\<lambda>r. Ok (c # fst r)) =
        obind (chunks_of enc track (n + 1) (batches p (Some seg) (x # ss))) (\<lambda>cs. Ok (c # cs))" for c
      using obind_omap [of fst "coalesce enc (filling track p [x] (segment_at p (Some seg) x)
          (kind_at p (Some seg) x) (n + 1)) ss" "\<lambda>cs. Ok (c # cs)"]
      by (simp only:)
    then show ?thesis
      using False Cons.prems
      by (simp add: push_cuts obind_assoc omap_obind split_def del: batches.simps)
  qed
qed

lemma coalesce_new:
  "omap fst (coalesce enc (track_coalescer_new track p) samples) = chunks_of enc track 1 (batches p None samples)"
proof -
  have n: "track_coalescer_new track p = idle track p None Segment 1"
    by (simp add: track_coalescer_new_def idle_def)
  show ?thesis
  proof (cases samples)
    case Nil
    then show ?thesis by (simp add: n flush_chunk_def idle_def)
  next
    case (Cons s ss)
    then show ?thesis
      using coalesce_filling [of "[s]" enc track p "segment_at p None s" "kind_at p None s" 1 ss]
      by (simp add: n push_idle split_def flip: obind_omap)
  qed
qed

lemma batches_partition:
  "concat (map snd (batches p seg ss)) = ss \<and> list_all (\<lambda>b. snd b \<noteq> []) (batches p seg ss)"
  by (induction p seg ss rule: batches.induct) auto

text \<open>
  C1. The coalescer implements the boundary specification: pushing the samples of a track one by one and
  flushing at the end gives exactly the chunks of the one-pass batches, in order, with consecutive
  sequence numbers from 1, the first sample's DTS, the summed durations and the batch's kind; and the
  batches are a partition of the samples into non-empty runs, the first of which starts a segment.
\<close>

theorem coalescer_refines:
  "omap fst (coalesce enc (track_coalescer_new track p) samples) = chunks_of enc track 1 (batches p None samples) \<and>
   concat (map snd (batches p None samples)) = samples \<and>
   list_all (\<lambda>b. snd b \<noteq> []) (batches p None samples) \<and>
   list_all (\<lambda>k. k = Segment) (take 1 (map fst (batches p None samples)))"
proof (intro conjI)
  show "list_all (\<lambda>k. k = Segment) (take 1 (map fst (batches p None samples)))"
    by (cases samples) (simp_all add: kind_at_def)
qed (simp_all add: coalesce_new batches_partition)

section \<open>The fragment's bytes\<close>

text \<open>
  What the writer relies on from \<open>mp4-atom\<close>: encoding succeeds, gives one \<open>moof\<close> box, and its length
  depends only on the number of samples (every field is fixed-width).
\<close>

definition encoder_ok :: "moof_encoder \<Rightarrow> (nat \<Rightarrow> nat) \<Rightarrow> bool" where
  "encoder_ok enc body_size \<longleftrightarrow>
     (\<forall>m. \<exists>body. enc m = Some (mp4_box ''moof'' body) \<and> length body = body_size (length (mf_entries m)))"

definition media :: "raw_sample list \<Rightarrow> bytes" where
  "media samples = concat (map rs_payload samples)"

lemma length_media: "length (media samples) = sum_list (map (\<lambda>s. length (rs_payload s)) samples)"
  by (simp add: media_def length_concat comp_def)

lemma built_fragment:
  assumes "encoder_ok enc body_size"
  obtains body where "length body = body_size (length samples)"
    and "enc \<lparr>mf_sequence_number = n, mf_track_id = track, mf_base_media_decode_time = dts,
        mf_data_offset = of_nat (8 + length body + 8), mf_entries = map trun_entry_of samples\<rparr> =
      Some (mp4_box ''moof'' body)"
    and "build_moof_mdat enc n track dts samples = Ok (mp4_box ''moof'' body @ mp4_box ''mdat'' (media samples))"
proof -
  let ?m = "\<lambda>off. \<lparr>mf_sequence_number = n, mf_track_id = track, mf_base_media_decode_time = dts,
        mf_data_offset = off, mf_entries = map trun_entry_of samples\<rparr>"
  obtain b0 where b0: "enc (?m 0) = Some (mp4_box ''moof'' b0)" "length b0 = body_size (length samples)"
    using assms unfolding encoder_ok_def by (metis length_map moof.select_convs(5))
  obtain b where b: "enc (?m (of_nat (8 + length b0 + 8))) = Some (mp4_box ''moof'' b)"
    "length b = body_size (length samples)"
    using assms unfolding encoder_ok_def by (metis length_map moof.select_convs(5))
  have o: "(of_nat (length (mp4_box ''moof'' b0) + 8) :: u32) = of_nat (8 + length b0 + 8)"
    by (simp add: ac_simps)
  have u: "(?m 0)\<lparr>mf_data_offset := off\<rparr> = ?m off" for off by simp
  have "build_moof_mdat enc n track dts samples = Ok (mp4_box ''moof'' b @ mp4_box ''mdat'' (media samples))"
    unfolding build_moof_mdat_def Let_def b0(1) expect_Some obind.simps o u b(1)
    by (simp add: mp4_box_def [of "''mdat''"] media_def length_concat comp_def add.assoc)
  then show ?thesis using that [of b] b b0 by simp
qed

lemma fragment_media:
  assumes "box_fits ''moof'' body" and "length data < 2 ^ 32 - 8"
  shows "extract_first_mdat (mp4_box ''moof'' body @ mp4_box ''mdat'' data) = Ok (Some data)"
    and "extract_mdat_body (mp4_box ''moof'' body @ mp4_box ''mdat'' data) = Ok (Some data)"
proof -
  show e: "extract_first_mdat (mp4_box ''moof'' body @ mp4_box ''mdat'' data) = Ok (Some data)"
    using scan_box_finds [of "[(''moof'', body)]" "''mdat''" data "[]" "[]"] assms
    by (simp add: extract_first_mdat_def box_list_def box_fits_def)
  then show "extract_mdat_body (mp4_box ''moof'' body @ mp4_box ''mdat'' data) = Ok (Some data)"
    using mdat_loop_agrees by (simp add: extract_first_mdat_def extract_mdat_body_def)
qed

lemma fragment_readable:
  assumes "encoder_ok enc body_size" and "8 + body_size (length samples) < 2 ^ 32"
    and "length (media samples) < 2 ^ 32 - 8"
  shows "\<exists>payload. build_moof_mdat enc n track dts samples = Ok payload \<and>
    extract_first_mdat payload = Ok (Some (media samples)) \<and> extract_mdat_body payload = Ok (Some (media samples))"
proof -
  obtain body where b: "length body = body_size (length samples)"
    "build_moof_mdat enc n track dts samples = Ok (mp4_box ''moof'' body @ mp4_box ''mdat'' (media samples))"
    by (rule built_fragment [OF assms(1)])
  then have "box_fits ''moof'' body" using assms(2) by (simp add: box_fits_def)
  then show ?thesis using b(2) fragment_media assms(3) by blast
qed

text \<open>
  A media fragment is self-consistent: the second encoding pass writes the data offset that points at
  the first media byte, and both egress extractors return the concatenated sample payloads.
\<close>

theorem moof_mdat_readable:
  assumes "encoder_ok enc body_size" and "16 + body_size (length samples) < 2 ^ 32"
    and "length (media samples) < 2 ^ 32 - 8"
  shows "\<exists>payload moof. build_moof_mdat enc sequence track base_dts samples = Ok payload \<and>
    enc moof = Some (take (length payload - (8 + length (media samples))) payload) \<and>
    mf_entries moof = map trun_entry_of samples \<and>
    drop (unat (mf_data_offset moof)) payload = media samples \<and>
    extract_first_mdat payload = Ok (Some (media samples)) \<and> extract_mdat_body payload = Ok (Some (media samples))"
proof -
  obtain body where b: "length body = body_size (length samples)"
    "enc \<lparr>mf_sequence_number = sequence, mf_track_id = track, mf_base_media_decode_time = base_dts,
        mf_data_offset = of_nat (8 + length body + 8), mf_entries = map trun_entry_of samples\<rparr> =
      Some (mp4_box ''moof'' body)" (is "enc ?m = _")
    "build_moof_mdat enc sequence track base_dts samples = Ok (mp4_box ''moof'' body @ mp4_box ''mdat'' (media samples))"
    (is "_ = Ok ?p")
    by (rule built_fragment [OF assms(1)])
  have n: "unat (of_nat (8 + length body + 8) :: u32) = 16 + length body"
    using assms(2) b(1) by (subst unat_of_nat_id) simp_all
  have "box_fits ''moof'' body" using assms(2) b(1) by (simp add: box_fits_def)
  note e = fragment_media [OF this assms(3)]
  have "drop (unat (mf_data_offset ?m)) ?p = media samples"
    by (simp only: moof.select_convs n) (simp add: mp4_box_def [of "''mdat''"])
  moreover have "enc ?m = Some (take (length ?p - (8 + length (media samples))) ?p)" using b(2) by simp
  ultimately show ?thesis
    using b(3) e by (intro exI [of _ ?p] exI [of _ ?m]) simp
qed

lemma chunks_of_bodies:
  assumes "encoder_ok enc body_size"
    and "\<forall>b\<in>set bs. 8 + body_size (length (snd b)) < 2 ^ 32 \<and> length (media (snd b)) < 2 ^ 32 - 8"
  shows "\<exists>cs. chunks_of enc track n bs = Ok cs \<and> map ck_kind cs = map fst bs \<and>
    map (\<lambda>c. extract_mdat_body (ck_payload c)) cs = map (\<lambda>b. Ok (Some (media (snd b)))) bs"
  using assms(2)
proof (induction bs arbitrary: n)
  case (Cons b bs)
  obtain payload where p: "build_moof_mdat enc n track (rs_dts (hd (snd b))) (snd b) = Ok payload"
    "extract_mdat_body payload = Ok (Some (media (snd b)))"
    using fragment_readable [OF assms(1)] Cons.prems by auto blast
  obtain cs where "chunks_of enc track (n + 1) bs = Ok cs" "map ck_kind cs = map fst bs"
    "map (\<lambda>c. extract_mdat_body (ck_payload c)) cs = map (\<lambda>b. Ok (Some (media (snd b)))) bs"
    using Cons.IH [of "n + 1"] Cons.prems by auto
  then show ?case using p by (simp add: chunk_of_def)
qed simp

lemma media_append: "media (a @ b) = media a @ media b"
  by (simp add: media_def)

lemma media_concat: "media (concat ss) = concat (map media ss)"
  by (induction ss) (simp_all add: media_def)

lemma media_member_length: "b \<in> set bs \<Longrightarrow> length (media b) \<le> length (media (concat bs))"
  by (induction bs) (auto simp: media_append)

lemma batch_length: "b \<in> set bs \<Longrightarrow> length b \<le> length (concat bs)"
  by (induction bs) auto

lemma coalescer_bodies:
  assumes "encoder_ok enc body_size" and "\<forall>n\<le>length samples. 8 + body_size n < 2 ^ 32"
    and "length (media samples) < 2 ^ 32 - 8"
  shows "\<exists>cs bodies. omap fst (coalesce enc (track_coalescer_new track p) samples) = Ok cs \<and>
    map (\<lambda>c. extract_mdat_body (ck_payload c)) cs = map (\<lambda>b. Ok (Some b)) bodies \<and>
    concat bodies = media samples"
proof -
  let ?bs = "batches p None samples"
  have part: "concat (map snd ?bs) = samples" using batches_partition by blast
  have "\<forall>b\<in>set ?bs. 8 + body_size (length (snd b)) < 2 ^ 32 \<and> length (media (snd b)) < 2 ^ 32 - 8"
  proof
    fix b assume "b \<in> set ?bs"
    then have "snd b \<in> set (map snd ?bs)" by simp
    from batch_length [OF this] media_member_length [OF this] part
    show "8 + body_size (length (snd b)) < 2 ^ 32 \<and> length (media (snd b)) < 2 ^ 32 - 8"
      using assms(2,3) by auto
  qed
  then obtain cs where cs: "chunks_of enc track 1 ?bs = Ok cs"
    "map (\<lambda>c. extract_mdat_body (ck_payload c)) cs = map (\<lambda>b. Ok (Some (media (snd b)))) ?bs"
    using chunks_of_bodies [OF assms(1)] by blast
  have "concat (map (\<lambda>b. media (snd b)) ?bs) = media samples"
    using media_concat [of "map snd ?bs"] part by (simp add: comp_def)
  then show ?thesis
    using cs coalesce_new [of enc track p samples]
    by (intro exI [of _ cs] exI [of _ "map (\<lambda>b. media (snd b)) ?bs"]) (simp add: comp_def)
qed


text \<open>An encoder that meets the assumption: a header of fixed-width fields per sample.\<close>

definition flat_encoder :: moof_encoder where
  "flat_encoder m = Some (mp4_box ''moof'' (be32_bytes (mf_sequence_number m) @
     be32_bytes (mf_data_offset m) @ concat (map (\<lambda>e. be32_bytes (te_size e)) (mf_entries m))))"

lemma flat_encoder_ok: "encoder_ok flat_encoder (\<lambda>n. 8 + 4 * n)"
  by (auto simp: encoder_ok_def flat_encoder_def length_concat comp_def sum_list_triv)

definition example_samples :: "raw_sample list" where
  "example_samples = [sample_keyframe 1 0 3000 [1, 2], sample_delta 1 18000 3000 [3],
     sample_keyframe 1 180000 3000 [4]]"

theorem moof_mdat_readable_witness:
  "\<exists>payload. build_moof_mdat flat_encoder 1 1 0 example_samples = Ok payload \<and>
     extract_mdat_body payload = Ok (Some [1, 2, 3, 4])"
  using moof_mdat_readable [OF flat_encoder_ok, of example_samples 1 1 0]
  by (auto simp: example_samples_def media_def sample_keyframe_def sample_delta_def)


section \<open>The policy\<close>

fun policy_run ::
    "cmaf_policy_state \<Rightarrow> (bool \<times> u64) list \<Rightarrow> (cmaf_chunk_kind list, unit) outcome" where
  "policy_run st [] = Ok []"
| "policy_run st ((keyframe, dts) # xs) =
     obind (policy_step keyframe dts st) (\<lambda>(k, st). obind (policy_run st xs) (\<lambda>ks. Ok (k # ks)))"

definition policy_wf :: "cmaf_policy_state \<Rightarrow> bool" where
  "policy_wf st \<longleftrightarrow> (last_partial_start_dts st = None \<longrightarrow> last_segment_start_dts st = None)"

text \<open>The rule of the classification, on the keyframe flag and the DTS.\<close>

definition classify :: "cmaf_policy \<Rightarrow> u64 option \<Rightarrow> bool \<times> u64 \<Rightarrow> cmaf_chunk_kind" where
  "classify p seg x = (case seg of None \<Rightarrow> Segment
     | Some g \<Rightarrow> if fst x \<and> segment_duration p \<le> sat_sub (snd x) g then Segment
         else if fst x then PartialIndependent else Partial)"

lemma kind_at_classify: "kind_at p seg s = classify p seg (rs_keyframe s, rs_dts s)"
  by (auto simp: kind_at_def classify_def split: option.split)

lemma policy_step_cases:
  assumes "policy_wf st"
  obtains k st' where "policy_step keyframe dts st = Ok (k, st')" and "policy_wf st'"
    and "ps_policy st' = ps_policy st"
    and "k = classify (ps_policy st) (last_segment_start_dts st) (keyframe, dts)"
    and "last_segment_start_dts st' = (if k = Segment then Some dts else last_segment_start_dts st)"
proof (cases "policy_step keyframe dts st")
  case (Ok r)
  obtain k st' where r: "r = (k, st')" by (cases r)
  show ?thesis
    by (rule that [of k st']) (use assms Ok r in \<open>auto simp: policy_step_def policy_wf_def classify_def
        split: option.splits if_splits\<close>)
next
  case (Err e)
  then show ?thesis by (simp add: policy_step_def split: option.splits if_splits)
next
  case Panic
  then show ?thesis using assms by (auto simp: policy_step_def policy_wf_def split: option.splits if_splits)
qed

lemma policy_run_batches:
  "policy_wf st \<Longrightarrow> ps_policy st = p \<Longrightarrow> last_segment_start_dts st = seg \<Longrightarrow>
    policy_run st (map (\<lambda>b. (rs_keyframe (hd (snd b)), rs_dts (hd (snd b)))) (batches p seg ss)) =
      Ok (map fst (batches p seg ss))"
proof (induction p seg ss arbitrary: st rule: batches.induct)
  case (2 p seg s ss)
  obtain k st' where st': "policy_step (rs_keyframe s) (rs_dts s) st = Ok (k, st')" "policy_wf st'"
    "ps_policy st' = ps_policy st"
    and k: "k = classify (ps_policy st) (last_segment_start_dts st) (rs_keyframe s, rs_dts s)"
    and l: "last_segment_start_dts st' = (if k = Segment then Some (rs_dts s) else last_segment_start_dts st)"
    by (rule policy_step_cases [OF "2.prems"(1)])
  have kind: "k = kind_at p seg s"
    using k "2.prems"(2,3) by (simp add: kind_at_classify)
  have "last_segment_start_dts st' = Some (segment_at p seg s)"
    using l "2.prems"(3) by (cases seg) (auto simp: kind segment_at_def kind_at_def)
  then show ?case using "2.IH" [OF st'(2)] st' "2.prems"(2) kind by simp
qed simp

lemma policy_run_length: "policy_run st xs = Ok ks \<Longrightarrow> length ks = length xs"
  by (induction st xs arbitrary: ks rule: policy_run.induct) (auto simp: obind_eq_Ok)

text \<open>The segment starts among the classified fragments, as the positions of \<open>Segment\<close>.\<close>

definition last_segment_before :: "u64 option \<Rightarrow> (bool \<times> u64) list \<Rightarrow> cmaf_chunk_kind list \<Rightarrow> nat \<Rightarrow> u64 option" where
  "last_segment_before seg xs ks i = foldl (\<lambda>g j. if ks ! j = Segment then Some (snd (xs ! j)) else g) seg [0..<i]"

lemma last_segment_before_Cons:
  "last_segment_before seg (x # xs) (k # ks) (Suc i) =
    last_segment_before (if k = Segment then Some (snd x) else seg) xs ks i"
  unfolding last_segment_before_def
  by (simp add: upt_conv_Cons del: upt_Suc)
    (simp add: map_Suc_upt [symmetric] foldl_map del: upt_Suc cong: if_cong)

lemma policy_run_kinds:
  "policy_wf st \<Longrightarrow> \<exists>ks. policy_run st xs = Ok ks \<and>
    (\<forall>i<length xs. ks ! i = classify (ps_policy st) (last_segment_before (last_segment_start_dts st) xs ks i) (xs ! i))"
proof (induction xs arbitrary: st)
  case (Cons x xs)
  obtain keyframe dts where x: "x = (keyframe, dts)" by (cases x)
  obtain k st' where st': "policy_step keyframe dts st = Ok (k, st')" "policy_wf st'" "ps_policy st' = ps_policy st"
    and k: "k = classify (ps_policy st) (last_segment_start_dts st) (keyframe, dts)"
    and l: "last_segment_start_dts st' = (if k = Segment then Some dts else last_segment_start_dts st)"
    by (rule policy_step_cases [OF Cons.prems])
  obtain ks where ks: "policy_run st' xs = Ok ks"
    and nth: "\<forall>i<length xs. ks ! i = 
      classify (ps_policy st') (last_segment_before (last_segment_start_dts st') xs ks i) (xs ! i)"
    using Cons.IH [OF st'(2)] by blast
  have "(k # ks) ! i = 
      classify (ps_policy st) (last_segment_before (last_segment_start_dts st) (x # xs) (k # ks) i) ((x # xs) ! i)"
    if "i < length (x # xs)" for i
  proof (cases i)
    case 0
    then show ?thesis using k by (simp add: x last_segment_before_def)
  next
    case (Suc j)
    then show ?thesis
      using nth [rule_format, of j] that l st'(3) by (simp add: last_segment_before_Cons x)
  qed
  then show ?case using ks st'(1) by (intro exI [of _ "k # ks"]) (simp add: x)
qed simp

text \<open>
  The boundary policy never panics and classifies by one rule: a fragment starts a segment exactly when
  none has started yet, or it is a keyframe at least a segment duration behind the last segment start;
  any other keyframe is an independent partial and everything else a plain partial.  Run over the first
  samples of the coalescer's chunks it gives the kinds the coalescer gave them.
\<close>

theorem policy_classifies:
  "(\<exists>ks. policy_run (policy_state_new p) xs = Ok ks \<and>
     (\<forall>i<length xs. ks ! i = classify p (last_segment_before None xs ks i) (xs ! i))) \<and>
   policy_run (policy_state_new p) (map (\<lambda>b. (rs_keyframe (hd (snd b)), rs_dts (hd (snd b)))) (batches p None ss)) =
     Ok (map fst (batches p None ss))"
proof -
  have "policy_wf (policy_state_new p)" by (simp add: policy_wf_def policy_state_new_def)
  then show ?thesis
    using policy_run_kinds [of "policy_state_new p" xs] policy_run_batches [of "policy_state_new p" p None ss]
    by (simp add: policy_state_new_def)
qed

theorem policy_classifies_witness:
  "policy_run (policy_state_new VIDEO_90KHZ_DEFAULT) [(True, 0), (False, 18000), (True, 180000)] =
    Ok [Segment, Partial, Segment]"
proof -
  have "batches VIDEO_90KHZ_DEFAULT None example_samples = [(Segment, [sample_keyframe 1 0 3000 [1, 2]]),
      (Partial, [sample_delta 1 18000 3000 [3]]), (Segment, [sample_keyframe 1 180000 3000 [4]])]"
    by (simp add: example_samples_def stays_def kind_at_def segment_at_def VIDEO_90KHZ_DEFAULT_def
        sample_keyframe_def sample_delta_def sat_sub_def)
  then show ?thesis
    using policy_classifies [of VIDEO_90KHZ_DEFAULT "[]" example_samples]
    by (simp add: sample_keyframe_def sample_delta_def)
qed

end
