(* ===== verification/Calendar.thy ===== *)
theory Calendar
  imports Fmt
begin

text \<open>
  The wall-clock formatting of \<open>lvqr-hls/src/manifest.rs\<close> (\<open>format_program_date_time\<close>): days since the epoch
  turned into a Gregorian date by a closed formula, printed as ISO 8601.  The formula is proved equal to
  counting the days one by one from 1970-01-01.
\<close>

section \<open>The formula\<close>

text \<open>
  The arithmetic is on \<open>i64\<close> and \<open>u32\<close> in the source; the day number is below \<open>2 ^ 64 / 86400000\<close> and
  every intermediate value in range, so unbounded integers give the same results.
\<close>

definition year_of_era :: "int \<Rightarrow> int" where
  "year_of_era doe = (doe - doe div 1460 + doe div 36524 - doe div 146096) div 365"

definition civil_from_days :: "int \<Rightarrow> int \<times> int \<times> int" where
  "civil_from_days days =
     (let z = days + 719468;
          era = (if z \<ge> 0 then z else z - 146096) div 146097;
          doe = z - era * 146097;
          yoe = year_of_era doe;
          y = yoe + era * 400;
          doy = doe - (365 * yoe + yoe div 4 - yoe div 100);
          mp = (5 * doy + 2) div 153;
          d = doy - (153 * mp + 2) div 5 + 1;
          m = (if mp < 10 then mp + 3 else mp - 9);
          y = (if m \<le> 2 then y + 1 else y) in
      (y, m, d))"

definition format_program_date_time :: "u64 \<Rightarrow> string" where
  "format_program_date_time epoch_millis =
     (let total_secs = int (unat epoch_millis div 1000);
          millis = unat epoch_millis mod 1000;
          day_secs = total_secs mod 86400;
          h = day_secs div 3600;
          min = (day_secs mod 3600) div 60;
          s = day_secs mod 60;
          (y, m, d) = civil_from_days (total_secs div 86400) in
      pad0 4 (dec_str (nat y)) @ ''-'' @ pad0 2 (dec_str (nat m)) @ ''-'' @ pad0 2 (dec_str (nat d)) @ ''T'' @
      pad0 2 (dec_str (nat h)) @ '':'' @ pad0 2 (dec_str (nat min)) @ '':'' @ pad0 2 (dec_str (nat s)) @ ''.'' @
      pad0 3 (dec_str millis) @ ''Z'')"

section \<open>Counting days\<close>

definition leap_year :: "int \<Rightarrow> bool" where
  "leap_year y \<longleftrightarrow> y mod 4 = 0 \<and> (y mod 100 \<noteq> 0 \<or> y mod 400 = 0)"

definition month_days :: "int \<Rightarrow> int \<Rightarrow> int" where
  "month_days y m = (if m = 2 then (if leap_year y then 29 else 28)
     else if m \<in> {4, 6, 9, 11} then 30 else 31)"

fun next_day :: "int \<times> int \<times> int \<Rightarrow> int \<times> int \<times> int" where
  "next_day (y, m, d) = (if d < month_days y m then (y, m, d + 1)
     else if m < 12 then (y, m + 1, 1) else (y + 1, 1, 1))"

section \<open>The year of the era\<close>

definition year_start :: "int \<Rightarrow> int" where
  "year_start k = 365 * k + k div 4 - k div 100"

lemma year_of_era_split:
  fixes c q s :: int
  assumes "0 \<le> c" "c \<le> 3" "0 \<le> q" "q \<le> 24" "0 \<le> s" "s \<le> 1460" "1461 * q + s \<le> 36523"
  shows "year_of_era (36524 * c + 1461 * q + s) = 100 * c + 4 * q + min 3 (s div 365)"
proof -
  let ?doe = "36524 * c + 1461 * q + s"
  define e where "e = (if 1460 \<le> 24 * c + q + s then 1 else 0 :: int)"
  have a: "?doe div 1460 = 25 * c + q + e"
    by (rule int_div_pos_eq [where r = "24 * c + q + s - 1460 * e"]) (use assms in \<open>auto simp: e_def\<close>)
  have b: "?doe div 36524 = c"
    by (rule int_div_pos_eq [where r = "1461 * q + s"]) (use assms in auto)
  have c: "?doe div 146096 = 0" using assms by simp
  have d: "year_of_era ?doe = (365 * (100 * c + 4 * q) + (s - e)) div 365"
    unfolding year_of_era_def a b c by (simp add: algebra_simps)
  consider "s < 365" | "365 \<le> s" "s < 730" | "730 \<le> s" "s < 1095" | "1095 \<le> s" by linarith
  then show ?thesis
  proof cases
    case 1
    have "(365 * (100 * c + 4 * q) + (s - e)) div 365 = 100 * c + 4 * q"
      by (rule int_div_pos_eq [where r = "s - e"]) (use 1 assms in \<open>auto simp: e_def\<close>)
    then show ?thesis unfolding d using 1 assms by simp
  next
    case 2
    have "(365 * (100 * c + 4 * q) + (s - e)) div 365 = 100 * c + 4 * q + 1"
      by (rule int_div_pos_eq [where r = "s - 365 - e"]) (use 2 assms in \<open>auto simp: e_def\<close>)
    moreover have "s div 365 = 1" by (rule int_div_pos_eq [where r = "s - 365"]) (use 2 in auto)
    ultimately show ?thesis unfolding d by simp
  next
    case 3
    have "(365 * (100 * c + 4 * q) + (s - e)) div 365 = 100 * c + 4 * q + 2"
      by (rule int_div_pos_eq [where r = "s - 730 - e"]) (use 3 assms in \<open>auto simp: e_def\<close>)
    moreover have "s div 365 = 2" by (rule int_div_pos_eq [where r = "s - 730"]) (use 3 in auto)
    ultimately show ?thesis unfolding d by simp
  next
    case 4
    have "(365 * (100 * c + 4 * q) + (s - e)) div 365 = 100 * c + 4 * q + 3"
      by (rule int_div_pos_eq [where r = "s - 1095 - e"]) (use 4 assms in \<open>auto simp: e_def\<close>)
    moreover have "3 \<le> s div 365" using 4 zdiv_mono1 [of 1095 s 365] by simp
    ultimately show ?thesis unfolding d by (simp add: min_def)
  qed
qed

text \<open>The last day of the era belongs to its last year.\<close>

lemma year_of_era_last: "year_of_era 146096 = 399"
  by (simp add: year_of_era_def)

text \<open>
  Years run from March here: year \<open>k\<close> of the era holds the end of February of the calendar year \<open>k + 1\<close>.
\<close>

definition march_year_days :: "int \<Rightarrow> int" where
  "march_year_days k = (if leap_year (k + 1) then 366 else 365)"

lemma year_start_split:
  fixes c q a :: int
  assumes "0 \<le> c" "c \<le> 3" "0 \<le> q" "q \<le> 24" "0 \<le> a" "a \<le> 3"
  shows "year_start (100 * c + 4 * q + a) = 36524 * c + 1461 * q + 365 * a"
proof -
  have "(100 * c + 4 * q + a) div 4 = 25 * c + q"
    by (rule int_div_pos_eq [where r = a]) (use assms in auto)
  moreover have "(100 * c + 4 * q + a) div 100 = c"
    by (rule int_div_pos_eq [where r = "4 * q + a"]) (use assms in auto)
  ultimately show ?thesis by (simp add: year_start_def)
qed

lemma era_split:
  assumes "0 \<le> doe" "doe < 146096"
  obtains c q s :: int where "doe = 36524 * c + 1461 * q + s" "0 \<le> c" "c \<le> 3" "0 \<le> q" "q \<le> 24"
    "0 \<le> s" "s \<le> 1460" "1461 * q + s \<le> 36523"
proof -
  define c r where "c = doe div 36524" and "r = doe mod 36524"
  define q s where "q = r div 1461" and "s = r mod 1461"
  have b: "0 \<le> r" "r < 36524" "0 \<le> s" "s < 1461" by (simp_all add: r_def s_def)
  have e: "r = 1461 * q + s" "doe = 36524 * c + r" by (simp_all add: q_def s_def c_def r_def)
  have "0 \<le> c" using assms(1) by (simp add: c_def pos_imp_zdiv_nonneg_iff)
  moreover have "0 \<le> q" using b(1) by (simp add: q_def pos_imp_zdiv_nonneg_iff)
  moreover have "c \<le> 3" "q \<le> 24" using e b assms(2) by linarith+
  ultimately show ?thesis using b e by (intro that [of c q s]) linarith+
qed

lemma leap_in_era:
  fixes c q a :: int
  assumes "0 \<le> c" "c \<le> 3" "0 \<le> q" "q \<le> 24" "0 \<le> a" "a \<le> 3"
  shows "leap_year (100 * c + 4 * q + a + 1) \<longleftrightarrow> a = 3 \<and> (q < 24 \<or> c = 3)"
proof -
  consider "a < 3" | "a = 3" "q < 24" | "a = 3" "q = 24" using assms by linarith
  then show ?thesis
  proof cases
    case 1
    then have "(100 * c + 4 * q + a + 1) mod 4 = a + 1"
      using assms(5) by presburger
    with 1 assms show ?thesis by (simp add: leap_year_def)
  next
    case 2
    have "(100 * c + 4 * q + 4) mod 100 = 4 * q + 4"
      using 2 assms mod_mult_self4 [of c 100 "4 * q + 4"] by (simp add: mod_pos_pos_trivial add.assoc)
    moreover have "(100 * c + 4 * q + 4) mod 4 = 0" by presburger
    moreover have e: "100 * c + 4 * q + a + 1 = 100 * c + 4 * q + 4" using 2 by simp
    moreover have "4 * q + 4 \<noteq> 0" using assms by linarith
    ultimately have "leap_year (100 * c + 4 * q + a + 1)" unfolding leap_year_def e by metis
    then show ?thesis using 2 by simp
  next
    case 3
    have "c = 0 \<or> c = 1 \<or> c = 2 \<or> c = 3" using assms by linarith
    then show ?thesis using 3 by (auto simp: leap_year_def)
  qed
qed

text \<open>The formula finds the year in which the day lies.\<close>

lemma year_of_era_correct:
  assumes "0 \<le> doe" "doe < 146097"
  shows "0 \<le> year_of_era doe \<and> year_of_era doe < 400 \<and> year_start (year_of_era doe) \<le> doe \<and>
    doe < year_start (year_of_era doe) + march_year_days (year_of_era doe)"
proof (cases "doe = 146096")
  case True
  then show ?thesis
    by (simp add: year_of_era_last year_start_def march_year_days_def leap_year_def)
next
  case False
  then have l: "doe < 146096" using assms(2) by simp
  obtain c q s where doe: "doe = 36524 * c + 1461 * q + s" and b: "0 \<le> c" "c \<le> 3" "0 \<le> q" "q \<le> 24"
    "0 \<le> s" "s \<le> 1460" "1461 * q + s \<le> 36523"
    by (rule era_split [OF assms(1) l])
  define a where "a = min 3 (s div 365)"
  have a: "0 \<le> a" "a \<le> 3" "365 * a \<le> s" using b(5) by (auto simp: a_def min_def)
  have s: "s < 365 * a + 365 \<or> a = 3 \<and> s \<le> 1460"
    using b(6) by (auto simp: a_def min_def)
  have y: "year_of_era doe = 100 * c + 4 * q + a"
    unfolding doe a_def by (rule year_of_era_split [OF b])
  have "march_year_days (100 * c + 4 * q + a) = (if a = 3 \<and> (q < 24 \<or> c = 3) then 366 else 365)"
    by (simp add: march_year_days_def leap_in_era [OF b(1-4) a(1,2)])
  then show ?thesis
    unfolding y year_start_split [OF b(1-4) a(1,2)] unfolding doe using a b s by auto
qed

section \<open>One day further\<close>

text \<open>Month and day of the day \<open>doy\<close> of a year that starts with March.\<close>

definition march_date :: "int \<Rightarrow> int \<times> int" where
  "march_date doy = (let mp = (5 * doy + 2) div 153 in
     (if mp < 10 then mp + 3 else mp - 9, doy - (153 * mp + 2) div 5 + 1))"

definition march_civil :: "int \<Rightarrow> int \<Rightarrow> int \<times> int \<times> int" where
  "march_civil k doy = (case march_date doy of (m, d) \<Rightarrow> (if m \<le> 2 then k + 1 else k, m, d))"

lemma civil_from_days_march:
  assumes "0 \<le> doe" "doe < 146097" "days + 719468 = 146097 * era + doe" "0 \<le> era"
  shows "civil_from_days days = march_civil (year_of_era doe + era * 400) (doe - year_start (year_of_era doe))"
proof -
  have z: "0 \<le> days + 719468" using assms by simp
  have e: "(days + 719468) div 146097 = era"
    by (rule int_div_pos_eq [where r = doe]) (use assms in auto)
  have d: "days + 719468 - era * 146097 = doe" using assms(3) by simp
  show ?thesis
    unfolding civil_from_days_def Let_def if_P [OF z] e d march_civil_def march_date_def year_start_def
    by simp
qed

lemma leap_era: "leap_year (k + era * 400) \<longleftrightarrow> leap_year k"
proof -
  have "(k + era * 400) mod 400 = k mod 400" by simp
  moreover have "(k + era * 400) mod 100 = k mod 100" "(k + era * 400) mod 4 = k mod 4"
    using mod_mult_self1 [of k "4 * era" 100] mod_mult_self1 [of k "100 * era" 4] by (simp_all add: mult.commute)
  ultimately show ?thesis by (simp add: leap_year_def)
qed

definition march_month :: "int \<Rightarrow> int" where
  "march_month mp = (if mp < 10 then mp + 3 else mp - 9)"

lemma march_date_eq:
  assumes "153 * mp \<le> 5 * doy + 2" "5 * doy + 2 < 153 * mp + 153"
  shows "march_date doy = (march_month mp, doy - (153 * mp + 2) div 5 + 1)"
proof -
  have "(5 * doy + 2) div 153 = mp"
    by (rule int_div_pos_eq [where r = "5 * doy + 2 - 153 * mp"]) (use assms in auto)
  then show ?thesis by (simp add: march_date_def march_month_def)
qed

lemma march_date_next:
  assumes "153 * mp \<le> 5 * doy + 2" "5 * doy + 2 < 153 * mp + 153"
  shows "march_date (doy + 1) = (if 5 * doy + 7 < 153 * mp + 153 then (march_month mp, doy - (153 * mp + 2) div 5 + 2)
    else (march_month (mp + 1), doy + 2 - (155 + 153 * mp) div 5))"
  using march_date_eq [of mp "doy + 1"] march_date_eq [of "mp + 1" "doy + 1"] assms by simp

lemma below_twelve: "0 \<le> (n :: int) \<Longrightarrow> n \<le> 11 \<Longrightarrow> n \<in> {0, 1, 2, 3, 4, 5, 6, 7, 8, 9, 10, 11}"
  unfolding insert_iff empty_iff by presburger

lemma march_range:
  fixes doy :: int
  assumes "0 \<le> doy" "doy \<le> 365"
  obtains mp where "mp \<in> {0, 1, 2, 3, 4, 5, 6, 7, 8, 9, 10, 11}" "153 * mp \<le> 5 * doy + 2"
    "5 * doy + 2 < 153 * mp + 153"
proof
  let ?mp = "(5 * doy + 2) div 153"
  have m: "5 * doy + 2 = 153 * ?mp + (5 * doy + 2) mod 153" by simp
  have r: "0 \<le> (5 * doy + 2) mod 153" "(5 * doy + 2) mod 153 < 153" by simp_all
  show "153 * ?mp \<le> 5 * doy + 2" "5 * doy + 2 < 153 * ?mp + 153" using m r by linarith+
  then have "0 \<le> ?mp" "?mp \<le> 11" using assms by linarith+
  then show "?mp \<in> {0, 1, 2, 3, 4, 5, 6, 7, 8, 9, 10, 11}" by (rule below_twelve)
qed

lemma march_civil_next:
  assumes "0 \<le> doy" "doy + 1 < march_year_days k"
  shows "march_civil k (doy + 1) = next_day (march_civil k doy)"
proof -
  have len: "doy \<le> 364" "leap_year (k + 1) \<or> doy \<le> 363" using assms by (auto simp: march_year_days_def split: if_splits)
  obtain mp where mp: "mp \<in> {0, 1, 2, 3, 4, 5, 6, 7, 8, 9, 10, 11}" "153 * mp \<le> 5 * doy + 2"
    "5 * doy + 2 < 153 * mp + 153" by (rule march_range [of doy]) (use assms len in auto)
  have "march_civil k (doy + 1) = next_day (march_civil k doy)"
    if c: "mp = n" "153 * n \<le> 5 * doy + 2" "5 * doy + 2 < 153 * n + 153" "n \<in> {0, 1, 2, 3, 4, 5, 6, 7, 8, 9, 10, 11}" for n
    using c(4) march_date_eq [OF c(2,3)] march_date_next [OF c(2,3)] c(2,3) len
    by (elim insertE) (auto simp: march_civil_def march_month_def month_days_def)
  from this [OF refl mp(2,3,1)] show ?thesis .
qed

lemma march_civil_year:
  "march_civil (k + 1) 0 = next_day (march_civil k (march_year_days k - 1))"
proof -
  have "march_date 0 = (3, 1)" "march_date 364 = (2, 28)" "march_date 365 = (2, 29)" by (simp_all add: march_date_def)
  then show ?thesis by (simp add: march_civil_def march_year_days_def month_days_def)
qed

lemma div_step:
  assumes "0 < (n :: int)"
  shows "(k + 1) div n = k div n + (if (k + 1) mod n = 0 then 1 else 0)"
proof (cases "k mod n + 1 < n")
  case True
  then have "(k + 1) mod n = k mod n + 1"
    using int_mod_pos_eq [of "k + 1" n "k div n" "k mod n + 1"] assms by simp
  moreover have "(k + 1) div n = k div n"
    by (rule int_div_pos_eq [where r = "k mod n + 1"]) (use True assms in auto)
  moreover have "0 \<le> k mod n" using assms by simp
  ultimately show ?thesis by simp
next
  case False
  then have m: "k mod n = n - 1" using assms pos_mod_bound [of n k] by linarith
  have "k = n * (k div n) + (n - 1)" using m mult_div_mod_eq [of n k] by simp
  then have e: "k + 1 = n * (k div n + 1) + 0" by (simp add: algebra_simps)
  then have "(k + 1) mod n = 0" using mod_mult_self1_is_0 [of n "k div n + 1"] by simp
  moreover have "(k + 1) div n = k div n + 1" by (rule int_div_pos_eq [OF e]) (use assms in auto)
  ultimately show ?thesis by simp
qed

lemma year_start_step: "0 \<le> k \<Longrightarrow> k < 399 \<Longrightarrow> year_start (k + 1) = year_start k + march_year_days k"
proof -
  assume k: "0 \<le> k" "k < 399"
  have "(k + 1) mod 4 = 0" if "(k + 1) mod 100 = 0"
    using that dvd_trans [of 4 100 "k + 1"] by (simp add: dvd_eq_mod_eq_0 [symmetric])
  moreover have "(k + 1) mod 400 \<noteq> 0" using k by simp
  ultimately show ?thesis
    unfolding year_start_def march_year_days_def leap_year_def
      div_step [of 4 k, OF zero_less_numeral] div_step [of 100 k, OF zero_less_numeral]
    by simp
qed

lemma year_start_mono:
  assumes "0 \<le> j" "j \<le> k" "k \<le> 399"
  shows "year_start j + march_year_days j \<le> year_start k + march_year_days k"
proof -
  have "year_start j + march_year_days j \<le> year_start (j + int n) + march_year_days (j + int n)"
    if "j + int n \<le> 399" for n
    using that
  proof (induction n)
    case (Suc n)
    have "year_start (j + int n + 1) = year_start (j + int n) + march_year_days (j + int n)"
      by (rule year_start_step) (use assms(1) Suc.prems in auto)
    moreover have "0 \<le> march_year_days (j + int n + 1)" by (simp add: march_year_days_def)
    moreover have "j + int (Suc n) = j + int n + 1" by simp
    ultimately show ?case using Suc.IH Suc.prems by (simp only:) linarith
  qed simp
  from this [of "nat (k - j)"] assms show ?thesis by simp
qed

lemma year_of_era_unique:
  assumes "0 \<le> k" "k \<le> 399" "year_start k \<le> doe" "doe < year_start k + march_year_days k"
  shows "year_of_era doe = k"
proof -
  have "year_start k + march_year_days k \<le> year_start 399 + march_year_days 399"
    by (rule year_start_mono) (use assms in auto)
  also have "\<dots> = 146097" by (simp add: year_start_def march_year_days_def leap_year_def)
  finally have hi: "doe < 146097" using assms(4) by simp
  have "0 \<le> year_start k" using assms(1) by (simp add: year_start_def; presburger)
  then have lo: "0 \<le> doe" using assms(3) by simp
  let ?y = "year_of_era doe"
  note y = year_of_era_correct [OF lo hi]
  show ?thesis
  proof (rule ccontr)
    assume "?y \<noteq> k"
    then consider "?y \<le> k - 1" | "k \<le> ?y - 1" by linarith
    then show False
    proof cases
      case 1
      have "year_start ?y + march_year_days ?y \<le> year_start (k - 1) + march_year_days (k - 1)"
        by (rule year_start_mono) (use y 1 assms in auto)
      also have "\<dots> = year_start k" using year_start_step [of "k - 1"] y 1 assms by simp
      finally show False using y assms(3) by linarith
    next
      case 2
      have "year_start k + march_year_days k \<le> year_start (?y - 1) + march_year_days (?y - 1)"
        by (rule year_start_mono) (use y 2 assms in auto)
      also have "\<dots> = year_start ?y" using year_start_step [of "?y - 1"] y 2 assms by simp
      finally show False using y assms(4) by linarith
    qed
  qed
qed

lemma march_days_era: "march_year_days (k + era * 400) = march_year_days k"
  using leap_era [of "k + 1" era] by (simp add: march_year_days_def ac_simps)

text \<open>The three ways to the next day: inside the year, into the next year, into the next era.\<close>

lemma civil_next_same:
  assumes "0 \<le> doe" "days + 719468 = 146097 * era + doe" "0 \<le> era" and k: "0 \<le> k" "k < 400"
    and y: "year_start k \<le> doe" "doe + 1 < year_start k + march_year_days k"
  shows "civil_from_days (days + 1) = next_day (march_civil (k + era * 400) (doe - year_start k))"
proof -
  have k': "year_of_era (doe + 1) = k" by (rule year_of_era_unique) (use k y in auto)
  have hi: "doe + 1 < 146097"
    using year_start_mono [of k 399] k y by (simp add: year_start_def march_year_days_def leap_year_def)
  have "civil_from_days (days + 1) = march_civil (k + era * 400) (doe + 1 - year_start k)"
    using civil_from_days_march [of "doe + 1" "days + 1" era] assms(1-3) hi unfolding k' by simp
  moreover have "march_civil (k + era * 400) (doe - year_start k + 1) =
      next_day (march_civil (k + era * 400) (doe - year_start k))"
    by (rule march_civil_next) (use y in \<open>auto simp: march_days_era\<close>)
  moreover have "doe + 1 - year_start k = doe - year_start k + 1" by simp
  ultimately show ?thesis by simp
qed

lemma civil_next_year:
  assumes "0 \<le> doe" "days + 719468 = 146097 * era + doe" "0 \<le> era" and k: "0 \<le> k" "k < 399"
    and y: "doe + 1 = year_start k + march_year_days k"
  shows "civil_from_days (days + 1) = next_day (march_civil (k + era * 400) (doe - year_start k))"
proof -
  have s: "year_start (k + 1) = doe + 1" using year_start_step [of k] k y by simp
  have pos: "0 < march_year_days (k + 1)" by (simp add: march_year_days_def)
  have k': "year_of_era (doe + 1) = k + 1" by (rule year_of_era_unique) (use k s pos in auto)
  have hi: "doe + 1 < 146097"
    using year_start_mono [of "k + 1" 399] k s pos by (simp add: year_start_def march_year_days_def leap_year_def)
  have "civil_from_days (days + 1) = march_civil (k + 1 + era * 400) (doe + 1 - year_start (k + 1))"
    using civil_from_days_march [of "doe + 1" "days + 1" era] assms(1-3) hi unfolding k' by simp
  moreover have "march_civil (k + era * 400 + 1) 0 =
      next_day (march_civil (k + era * 400) (march_year_days k - 1))"
    using march_civil_year [of "k + era * 400"] by (simp add: march_days_era)
  moreover have "march_year_days k - 1 = doe - year_start k" "k + 1 + era * 400 = k + era * 400 + 1"
    using y by simp_all
  ultimately show ?thesis using s by simp
qed

lemma civil_next_era:
  assumes "days + 719468 = 146097 * era + 146096" "0 \<le> era"
  shows "civil_from_days (days + 1) = next_day (march_civil (399 + era * 400) (146096 - year_start 399))"
proof -
  have "days + 1 + 719468 = 146097 * (era + 1) + 0" using assms(1) by (simp add: algebra_simps)
  from civil_from_days_march [OF _ _ this] assms(2)
  have "civil_from_days (days + 1) = march_civil ((era + 1) * 400) 0"
    by (simp add: year_of_era_def year_start_def)
  moreover have "march_civil (399 + era * 400 + 1) 0 =
      next_day (march_civil (399 + era * 400) (march_year_days 399 - 1))"
    using march_civil_year [of "399 + era * 400"] by (simp add: march_days_era)
  moreover have "march_year_days 399 - 1 = 146096 - year_start 399"
    by (simp add: march_year_days_def leap_year_def year_start_def)
  moreover have "(era + 1) * 400 = 399 + era * 400 + 1" by simp
  ultimately show ?thesis by metis
qed

lemma civil_next:
  assumes "0 \<le> days"
  shows "civil_from_days (days + 1) = next_day (civil_from_days days)"
proof -
  define era doe where "era = (days + 719468) div 146097" and "doe = (days + 719468) mod 146097"
  have e: "days + 719468 = 146097 * era + doe" unfolding era_def doe_def by (rule mult_div_mod_eq [symmetric])
  have d: "0 \<le> doe" "doe < 146097" unfolding doe_def by simp_all
  have era: "0 \<le> era" unfolding era_def using assms by (simp add: pos_imp_zdiv_nonneg_iff)
  define k where "k = year_of_era doe"
  have y: "0 \<le> k" "k < 400" "year_start k \<le> doe" "doe < year_start k + march_year_days k"
    using year_of_era_correct [OF d] unfolding k_def by blast+
  have now: "civil_from_days days = march_civil (k + era * 400) (doe - year_start k)"
    unfolding k_def by (rule civil_from_days_march [OF d e era])
  consider (same) "doe + 1 < year_start k + march_year_days k"
    | (year) "doe + 1 = year_start k + march_year_days k" "k < 399"
    | (era) "doe + 1 = year_start k + march_year_days k" "k = 399" using y by linarith
  then show ?thesis
  proof cases
    case same
    show ?thesis unfolding now by (rule civil_next_same [OF d(1) e era y(1,2,3) same])
  next
    case year
    show ?thesis unfolding now by (rule civil_next_year [OF d(1) e era y(1) year(2,1)])
  next
    case era
    then have doe: "doe = 146096" by (simp add: year_start_def march_year_days_def leap_year_def)
    show ?thesis unfolding now doe era(2) by (rule civil_next_era [OF e [unfolded doe] \<open>0 \<le> era\<close>])
  qed
qed

lemma civil_epoch: "civil_from_days 0 = (1970, 1, 1)"
proof -
  have "year_of_era 135080 = 369" by (simp add: year_of_era_def)
  then show ?thesis
    using civil_from_days_march [of 135080 0 4] by (simp add: march_civil_def march_date_def year_start_def)
qed

lemma civil_counts: "civil_from_days (int n) = (next_day ^^ n) (1970, 1, 1)"
proof (induction n)
  case (Suc n)
  have "civil_from_days (int n + 1) = next_day (civil_from_days (int n))" by (rule civil_next) (rule of_nat_0_le_iff)
  moreover have "int (Suc n) = int n + 1" by simp
  ultimately show ?case using Suc by (metis funpow.simps(2) comp_apply)
qed (simp add: civil_epoch)

section \<open>The printed text\<close>

definition valid_date :: "int \<times> int \<times> int \<Rightarrow> bool" where
  "valid_date = (\<lambda>(y, m, d). 1970 \<le> y \<and> 1 \<le> m \<and> m \<le> 12 \<and> 1 \<le> d \<and> d \<le> month_days y m)"

lemma valid_next_day: "valid_date t \<Longrightarrow> valid_date (next_day t)"
  by (cases t) (auto simp: valid_date_def month_days_def split: if_splits)

lemma valid_counted: "valid_date ((next_day ^^ n) (1970, 1, 1))"
  by (induction n) (simp_all add: valid_next_day, simp add: valid_date_def month_days_def)

definition iso_8601 :: "int \<times> int \<times> int \<Rightarrow> nat \<Rightarrow> string" where
  "iso_8601 = (\<lambda>(y, m, d) t.
     pad0 4 (dec_str (nat y)) @ ''-'' @ pad0 2 (dec_str (nat m)) @ ''-'' @ pad0 2 (dec_str (nat d)) @ ''T'' @
     pad0 2 (dec_str (t div 3600000)) @ '':'' @ pad0 2 (dec_str (t div 60000 mod 60)) @ '':'' @
     pad0 2 (dec_str (t div 1000 mod 60)) @ ''.'' @ pad0 3 (dec_str (t mod 1000)) @ ''Z'')"

lemma day_time_split:
  fixes t :: nat
  shows "t div 1000 mod 86400 div 3600 = t mod 86400000 div 3600000"
    and "t div 1000 mod 86400 mod 3600 div 60 = t mod 86400000 div 60000 mod 60"
    and "t div 1000 mod 86400 mod 60 = t mod 86400000 div 1000 mod 60"
    and "t mod 1000 = t mod 86400000 mod 1000" and "t div 1000 div 86400 = t div 86400000"
proof -
  have e: "t mod 86400000 div 1000 = t div 1000 mod 86400"
    using mod_mult2_eq [of t 1000 86400] by simp
  show "t div 1000 div 86400 = t div 86400000" by (simp add: div_mult2_eq [symmetric])
  show "t div 1000 mod 86400 mod 60 = t mod 86400000 div 1000 mod 60" by (simp only: e)
  have "t mod 86400000 div 3600000 = t mod 86400000 div 1000 div 3600" by (simp add: div_mult2_eq [symmetric])
  then show "t div 1000 mod 86400 div 3600 = t mod 86400000 div 3600000" by (simp only: e)
  have "t mod 86400000 div 60000 = t mod 86400000 div 1000 div 60" by (simp add: div_mult2_eq [symmetric])
  then show "t div 1000 mod 86400 mod 3600 div 60 = t mod 86400000 div 60000 mod 60"
    using mod_mult2_eq [of "t div 1000 mod 86400" 60 60] by (simp add: e)
  show "t mod 1000 = t mod 86400000 mod 1000" by (simp add: mod_mod_cancel)
qed

text \<open>
  C40. The closed date formula is right for every timestamp: the date printed for a number of milliseconds
  since the epoch is what counting the days one by one from 1970-01-01 with the Gregorian leap years
  gives, it is a valid date, and the time of day is that of the remaining milliseconds.
\<close>

theorem program_date_time_correct:
  "format_program_date_time t =
      iso_8601 ((next_day ^^ (unat t div 86400000)) (1970, 1, 1)) (unat t mod 86400000) \<and>
    valid_date ((next_day ^^ (unat t div 86400000)) (1970, 1, 1))"
proof -
  let ?t = "unat t"
  have days: "civil_from_days (int (?t div 1000) div 86400) = (next_day ^^ (?t div 86400000)) (1970, 1, 1)"
  proof -
    have "int (?t div 1000) div 86400 = int (?t div 1000 div 86400)" by (simp only: zdiv_int of_nat_numeral)
    then show ?thesis unfolding day_time_split(5) by (simp only: civil_counts)
  qed
  have parts: "nat (int (?t div 1000) mod 86400 div 3600) = ?t mod 86400000 div 3600000"
    "nat (int (?t div 1000) mod 86400 mod 3600 div 60) = ?t mod 86400000 div 60000 mod 60"
    "nat (int (?t div 1000) mod 86400 mod 60) = ?t mod 86400000 div 1000 mod 60"
    unfolding day_time_split [symmetric] by (simp_all add: nat_div_distrib nat_mod_distrib)
  obtain y m d where date: "(next_day ^^ (?t div 86400000)) (1970, 1, 1) = (y, m, d)" by (metis prod_cases3)
  have "format_program_date_time t = iso_8601 (y, m, d) (?t mod 86400000)"
    unfolding format_program_date_time_def iso_8601_def Let_def days date prod.case parts
      day_time_split(4) [of ?t] by (rule refl)
  then show ?thesis using valid_counted unfolding date [symmetric] by blast
qed

end
