(* ===== verification/HlsPlaylist.thy ===== *)
theory HlsPlaylist
  imports Cmaf Calendar Complex_Main
begin

text \<open>
  The LL-HLS playlist of \<open>lvqr-hls/src/manifest.rs\<close>: the builder that turns the chunks of a track into
  segments and parts, with its sliding window, and the renderer.  \<open>f32\<close> and \<open>f64\<close> seconds are exact
  rationals here, and the renderer gives the lines of the playlist as values; the rounding of a
  seconds value to the printed decimals is not modelled.  A \<open>Duration\<close> is its number of seconds.
\<close>

section \<open>Data\<close>

datatype hls_error = NonMonotonic u64 u64 | ZeroDuration

record part =
  pt_uri :: string
  pt_duration_ticks :: u64
  pt_independent :: bool

record segment =
  sg_sequence :: u64
  sg_uri :: string
  sg_duration_ticks :: u64
  sg_parts :: "part list"
  sg_program_date_time_millis :: "u64 option"
  sg_discontinuity :: bool

datatype date_range_kind = SpliceOut | SpliceIn | Cmd

fun attribute_name :: "date_range_kind \<Rightarrow> string" where
  "attribute_name SpliceOut = ''SCTE35-OUT''"
| "attribute_name SpliceIn = ''SCTE35-IN''"
| "attribute_name Cmd = ''SCTE35-CMD''"

record date_range =
  dr_id :: string
  dr_class :: "string option"
  dr_start_date_millis :: u64
  dr_duration_secs :: "rat option"
  dr_kind :: date_range_kind
  dr_scte35_hex :: string

record server_control =
  can_block_reload :: bool
  part_hold_back :: rat
  hold_back :: rat
  can_skip_until :: "rat option"

definition server_control_default :: server_control where
  "server_control_default = \<lparr>can_block_reload = True, part_hold_back = 6 / 10, hold_back = 6,
     can_skip_until = Some 12\<rparr>"

record manifest =
  mf_version :: u8
  mf_timescale :: u32
  mf_target_duration_secs :: u32
  mf_part_target_secs :: rat
  mf_server_control :: server_control
  mf_map_uri :: string
  mf_segments :: "segment list"
  mf_preliminary_parts :: "part list"
  mf_preload_hint_uri :: "string option"
  mf_ended :: bool
  mf_date_ranges :: "date_range list"

record playlist_builder_config =
  pc_timescale :: u32
  pc_starting_sequence :: u64
  pc_map_uri :: string
  pc_uri_prefix :: string
  pc_target_duration_secs :: u32
  pc_part_target_secs :: rat
  pc_max_segments :: "nat option"
  pc_program_date_time_base :: "u64 option"

definition playlist_builder_config_default :: playlist_builder_config where
  "playlist_builder_config_default = \<lparr>pc_timescale = 90000, pc_starting_sequence = 0,
     pc_map_uri = ''init.mp4'', pc_uri_prefix = '''', pc_target_duration_secs = 2,
     pc_part_target_secs = 2 / 10, pc_max_segments = None, pc_program_date_time_base = None\<rparr>"

record playlist_builder =
  pb_config :: playlist_builder_config
  pb_manifest :: manifest
  pb_pending_parts :: "part list"
  pb_pending_duration_ticks :: u64
  pb_next_sequence :: u64
  pb_last_dts :: "u64 option"
  pb_part_index :: u32
  pb_evicted_uris :: "string list"
  pb_cumulative_duration_millis :: u64
  pb_pending_discontinuity :: bool

section \<open>The builder\<close>

definition playlist_builder_new :: "playlist_builder_config \<Rightarrow> playlist_builder" where
  "playlist_builder_new config =
     (let manifest = \<lparr>mf_version = 9, mf_timescale = pc_timescale config,
            mf_target_duration_secs = pc_target_duration_secs config,
            mf_part_target_secs = pc_part_target_secs config,
            mf_server_control = \<lparr>can_block_reload = True,
              part_hold_back = pc_part_target_secs config * 3,
              hold_back = of_nat (unat (pc_target_duration_secs config) * 3),
              can_skip_until = Some (of_nat (unat (pc_target_duration_secs config) * 6))\<rparr>,
            mf_map_uri = pc_map_uri config, mf_segments = [], mf_preliminary_parts = [],
            mf_preload_hint_uri = None, mf_ended = False, mf_date_ranges = []\<rparr> in
      \<lparr>pb_config = config, pb_manifest = manifest, pb_pending_parts = [], pb_pending_duration_ticks = 0,
       pb_next_sequence = pc_starting_sequence config, pb_last_dts = None, pb_part_index = 0,
       pb_evicted_uris = [], pb_cumulative_duration_millis = 0, pb_pending_discontinuity = False\<rparr>)"

definition mark_discontinuity_pending :: "playlist_builder \<Rightarrow> playlist_builder" where
  "mark_discontinuity_pending b = b\<lparr>pb_pending_discontinuity := True\<rparr>"

definition next_part_uri :: "playlist_builder \<Rightarrow> string" where
  "next_part_uri b = pc_uri_prefix (pb_config b) @ ''part-'' @ dec_str (unat (pb_next_sequence b)) @ ''-'' @
     dec_str (unat (pb_part_index b)) @ ''.m4s''"

definition segment_uri :: "string \<Rightarrow> u64 \<Rightarrow> string" where
  "segment_uri prefix sequence = prefix @ ''seg-'' @ dec_str (unat sequence) @ ''.m4s''"

text \<open>The URIs of an evicted segment, its parts first.\<close>

definition segment_uris :: "segment \<Rightarrow> string list" where
  "segment_uris s = map pt_uri (sg_parts s) @ [sg_uri s]"

definition evict :: "playlist_builder \<Rightarrow> playlist_builder" where
  "evict b =
     (let segments = mf_segments (pb_manifest b) in
      case pc_max_segments (pb_config b) of
        None \<Rightarrow> b
      | Some limit \<Rightarrow>
          if length segments > limit then
            let overflow = length segments - limit in
            b\<lparr>pb_evicted_uris := pb_evicted_uris b @ concat (map segment_uris (take overflow segments)),
              pb_manifest := (pb_manifest b)\<lparr>mf_segments := drop overflow segments\<rparr>\<rparr>
          else b)"

definition prune_date_ranges :: "manifest \<Rightarrow> manifest" where
  "prune_date_ranges m =
     (case mf_segments m of
        [] \<Rightarrow> m
      | first # _ \<Rightarrow>
          (case sg_program_date_time_millis first of
             None \<Rightarrow> m
           | Some first_pdt \<Rightarrow>
               m\<lparr>mf_date_ranges := filter (\<lambda>dr. dr_start_date_millis dr \<ge> first_pdt) (mf_date_ranges m)\<rparr>))"

definition close_pending_segment :: "playlist_builder \<Rightarrow> playlist_builder" where
  "close_pending_segment b =
     (if pb_pending_parts b = [] then b
      else
        let config = pb_config b;
            sequence = pb_next_sequence b;
            uri = segment_uri (pc_uri_prefix config) sequence;
            pdt_millis = map_option (\<lambda>base. base + pb_cumulative_duration_millis b)
              (pc_program_date_time_base config);
            duration_millis = (if pc_timescale config > 0
              then pb_pending_duration_ticks b * 1000 div ucast (pc_timescale config) else 0);
            seg = \<lparr>sg_sequence = sequence, sg_uri = uri, sg_duration_ticks = pb_pending_duration_ticks b,
              sg_parts = pb_pending_parts b, sg_program_date_time_millis = pdt_millis,
              sg_discontinuity = pb_pending_discontinuity b\<rparr>;
            m = pb_manifest b;
            b = b\<lparr>pb_pending_discontinuity := False, pb_pending_parts := [],
              pb_manifest := m\<lparr>mf_segments := mf_segments m @ [seg], mf_preliminary_parts := []\<rparr>,
              pb_cumulative_duration_millis := pb_cumulative_duration_millis b + duration_millis,
              pb_pending_duration_ticks := 0, pb_next_sequence := pb_next_sequence b + 1,
              pb_part_index := 0\<rparr>;
            b = b\<lparr>pb_manifest := (pb_manifest b)\<lparr>mf_preload_hint_uri := Some (next_part_uri b)\<rparr>\<rparr>;
            b = evict b in
        b\<lparr>pb_manifest := prune_date_ranges (pb_manifest b)\<rparr>)"

definition accept_chunk :: "cmaf_chunk \<Rightarrow> playlist_builder \<Rightarrow> playlist_builder" where
  "accept_chunk chunk b =
     (let b = b\<lparr>pb_last_dts := Some (ck_dts chunk)\<rparr>;
          part = \<lparr>pt_uri = next_part_uri b, pt_duration_ticks = ck_duration chunk,
            pt_independent = is_independent (ck_kind chunk)\<rparr>;
          b = b\<lparr>pb_part_index := pb_part_index b + 1\<rparr>;
          b = (if is_segment_start (ck_kind chunk) \<and> pb_pending_parts b \<noteq> []
            then close_pending_segment b else b);
          b = b\<lparr>pb_pending_parts := pb_pending_parts b @ [part],
            pb_pending_duration_ticks := pb_pending_duration_ticks b + ck_duration chunk\<rparr> in
      b\<lparr>pb_manifest := (pb_manifest b)\<lparr>mf_preliminary_parts := pb_pending_parts b,
        mf_preload_hint_uri := Some (next_part_uri b)\<rparr>\<rparr>)"

definition push_chunk :: "cmaf_chunk \<Rightarrow> playlist_builder \<Rightarrow> (playlist_builder, hls_error) outcome" where
  "push_chunk chunk b =
     (if ck_duration chunk = 0 then Err ZeroDuration
      else
        case pb_last_dts b of
          Some last_dts \<Rightarrow> if ck_dts chunk < last_dts then Err (NonMonotonic last_dts (ck_dts chunk))
            else Ok (accept_chunk chunk b)
        | None \<Rightarrow> Ok (accept_chunk chunk b))"

definition push_date_range :: "date_range \<Rightarrow> playlist_builder \<Rightarrow> playlist_builder" where
  "push_date_range dr b =
     (let m = pb_manifest b in
      if \<exists>existing \<in> set (mf_date_ranges m). dr_id existing = dr_id dr \<and> dr_kind existing = dr_kind dr then b
      else b\<lparr>pb_manifest := m\<lparr>mf_date_ranges := mf_date_ranges m @ [dr]\<rparr>\<rparr>)"

definition drain_evicted_uris :: "playlist_builder \<Rightarrow> string list \<times> playlist_builder" where
  "drain_evicted_uris b = (pb_evicted_uris b, b\<lparr>pb_evicted_uris := []\<rparr>)"

definition finalize :: "playlist_builder \<Rightarrow> playlist_builder" where
  "finalize b =
     (let b = close_pending_segment b in
      b\<lparr>pb_manifest := (pb_manifest b)\<lparr>mf_preliminary_parts := [], mf_preload_hint_uri := None,
        mf_ended := True\<rparr>\<rparr>)"

section \<open>The renderer\<close>

fun escape_attr :: "string \<Rightarrow> string" where
  "escape_attr [] = []"
| "escape_attr (c # s) =
     (if c = CHR 0x22 then CHR 0x5C # CHR 0x22 # escape_attr s
      else if c = CHR 0x5C then CHR 0x5C # CHR 0x5C # escape_attr s
      else if c = CHR 0x0A \<or> c = CHR 0x0D then escape_attr s
      else c # escape_attr s)"

definition ticks_to_secs :: "u64 \<Rightarrow> u32 \<Rightarrow> rat" where
  "ticks_to_secs ticks timescale =
     (if timescale = 0 then 0 else of_nat (unat ticks) / of_nat (unat timescale))"

datatype playlist_line =
    ExtM3u
  | Version u8
  | IndependentSegments
  | TargetDuration u32
  | ServerControlLine bool rat rat "rat option"
  | PartInf rat
  | ExtMap string
  | MediaSequence u64
  | Skip nat
  | DateRangeLine string "string option" string "rat option" string string
  | Discontinuity
  | ProgramDateTime string
  | PartLine rat string bool
  | ExtInf rat string
  | Endlist
  | PreloadHint string

definition div_ceil :: "u64 \<Rightarrow> u64 \<Rightarrow> u64" where
  "div_ceil a b = (if a mod b = 0 then a div b else a div b + 1)"

definition effective_target :: "manifest \<Rightarrow> u32" where
  "effective_target m =
     (let observed_ceil = (case map sg_duration_ticks (mf_segments m) of
            [] \<Rightarrow> 0
          | d # ds \<Rightarrow> ucast (div_ceil (fold max ds d) (ucast (max (mf_timescale m) 1)))) in
      max (mf_target_duration_secs m) observed_ceil)"

definition part_line :: "u32 \<Rightarrow> part \<Rightarrow> playlist_line" where
  "part_line timescale p = PartLine (ticks_to_secs (pt_duration_ticks p) timescale) (pt_uri p) (pt_independent p)"

definition date_range_line :: "date_range \<Rightarrow> playlist_line" where
  "date_range_line dr = DateRangeLine (escape_attr (dr_id dr)) (map_option escape_attr (dr_class dr))
     (format_program_date_time (dr_start_date_millis dr)) (dr_duration_secs dr)
     (attribute_name (dr_kind dr)) (dr_scte35_hex dr)"

definition segment_lines :: "u32 \<Rightarrow> segment \<Rightarrow> playlist_line list" where
  "segment_lines timescale seg =
     (if sg_discontinuity seg then [Discontinuity] else []) @
     (case sg_program_date_time_millis seg of None \<Rightarrow> []
      | Some millis \<Rightarrow> [ProgramDateTime (format_program_date_time millis)]) @
     map (part_line timescale) (sg_parts seg) @
     [ExtInf (ticks_to_secs (sg_duration_ticks seg) timescale) (sg_uri seg)]"

definition render_with_skip :: "nat \<Rightarrow> manifest \<Rightarrow> playlist_line list" where
  "render_with_skip skip_count m =
     (let skip_count = min skip_count (length (mf_segments m)); sc = mf_server_control m in
      [ExtM3u, Version (mf_version m), IndependentSegments, TargetDuration (effective_target m),
       ServerControlLine (can_block_reload sc) (part_hold_back sc) (hold_back sc) (can_skip_until sc),
       PartInf (mf_part_target_secs m), ExtMap (mf_map_uri m)] @
      (case mf_segments m of [] \<Rightarrow> [] | first # _ \<Rightarrow> [MediaSequence (sg_sequence first)]) @
      (if skip_count > 0 then [Skip skip_count] else []) @
      map date_range_line (mf_date_ranges m) @
      concat (map (segment_lines (mf_timescale m)) (drop skip_count (mf_segments m))) @
      map (part_line (mf_timescale m)) (mf_preliminary_parts m) @
      (if mf_ended m then [Endlist]
       else case mf_preload_hint_uri m of None \<Rightarrow> [] | Some uri \<Rightarrow> [PreloadHint uri]))"

definition render :: "manifest \<Rightarrow> playlist_line list" where
  "render m = render_with_skip 0 m"

section \<open>Delta playlists\<close>

text \<open>The cast from \<open>f64\<close> to \<open>u64\<close> saturates and rounds towards zero.\<close>

definition secs_to_ticks :: "rat \<Rightarrow> u64 \<Rightarrow> u64" where
  "secs_to_ticks secs ts = (let t = secs * of_nat (unat ts) in
     if t \<le> 0 then 0 else if t \<ge> 2 ^ 64 then - 1 else of_int \<lfloor>t\<rfloor>)"

fun skip_candidates :: "u64 \<Rightarrow> u64 \<Rightarrow> u64 \<Rightarrow> u64 \<Rightarrow> segment list \<Rightarrow> nat" where
  "skip_candidates total_ticks skip_until_ticks min_remaining_ticks elapsed [] = 0"
| "skip_candidates total_ticks skip_until_ticks min_remaining_ticks elapsed (seg # segs) =
     (let elapsed = elapsed + sg_duration_ticks seg; remaining_after = total_ticks - elapsed in
      if remaining_after > skip_until_ticks \<and> remaining_after \<ge> min_remaining_ticks
      then Suc (skip_candidates total_ticks skip_until_ticks min_remaining_ticks elapsed segs)
      else 0)"

definition delta_skip_count :: "manifest \<Rightarrow> nat" where
  "delta_skip_count m =
     (case can_skip_until (mf_server_control m) of
        None \<Rightarrow> 0
      | Some skip_until \<Rightarrow>
          if mf_timescale m = 0 \<or> mf_segments m = [] then 0
          else
            let ts = ucast (mf_timescale m);
                skip_until_ticks = secs_to_ticks skip_until ts;
                td_ticks = ucast (mf_target_duration_secs m) * ts;
                total_ticks = sum_list (map sg_duration_ticks (mf_segments m)) in
            if total_ticks < 6 * td_ticks then 0
            else skip_candidates total_ticks skip_until_ticks (4 * td_ticks) 0 (mf_segments m))"

section \<open>Runs\<close>

text \<open>
  What the server does with a builder, with the URIs it has drained for its cache so far.  A counter at
  its largest value would wrap (or abort a debug build), so a step starts below that.
\<close>

datatype playlist_op = OpPush cmaf_chunk | OpClose | OpMark | OpDateRange date_range | OpDrain | OpFinalize

fun playlist_exec :: "playlist_op \<Rightarrow> string list \<times> playlist_builder \<Rightarrow> string list \<times> playlist_builder" where
  "playlist_exec (OpPush c) (purged, b) = (purged, case push_chunk c b of Ok b' \<Rightarrow> b' | _ \<Rightarrow> b)"
| "playlist_exec OpClose (purged, b) = (purged, close_pending_segment b)"
| "playlist_exec OpMark (purged, b) = (purged, mark_discontinuity_pending b)"
| "playlist_exec (OpDateRange dr) (purged, b) = (purged, push_date_range dr b)"
| "playlist_exec OpDrain (purged, b) = (let (uris, b) = drain_evicted_uris b in (purged @ uris, b))"
| "playlist_exec OpFinalize (purged, b) = (purged, finalize b)"

inductive playlist_step :: "string list \<times> playlist_builder \<Rightarrow> string list \<times> playlist_builder \<Rightarrow> bool" where
  "pb_part_index b < - 1 \<Longrightarrow> pb_next_sequence b < - 1 \<Longrightarrow> playlist_step (purged, b) (playlist_exec op (purged, b))"

inductive_cases playlist_stepE: "playlist_step s t"

section \<open>Lemmas: what closing a segment does\<close>

definition closed_segment :: "playlist_builder \<Rightarrow> segment" where
  "closed_segment b = \<lparr>sg_sequence = pb_next_sequence b,
     sg_uri = segment_uri (pc_uri_prefix (pb_config b)) (pb_next_sequence b),
     sg_duration_ticks = pb_pending_duration_ticks b, sg_parts = pb_pending_parts b,
     sg_program_date_time_millis = map_option (\<lambda>base. base + pb_cumulative_duration_millis b)
       (pc_program_date_time_base (pb_config b)),
     sg_discontinuity = pb_pending_discontinuity b\<rparr>"

definition overflow :: "playlist_builder_config \<Rightarrow> nat \<Rightarrow> nat" where
  "overflow cfg n = (case pc_max_segments cfg of None \<Rightarrow> 0 | Some limit \<Rightarrow> n - limit)"

lemma evict_eq: "evict b =
    b\<lparr>pb_evicted_uris := pb_evicted_uris b @ concat (map segment_uris
        (take (overflow (pb_config b) (length (mf_segments (pb_manifest b)))) (mf_segments (pb_manifest b)))),
      pb_manifest := (pb_manifest b)\<lparr>mf_segments :=
        drop (overflow (pb_config b) (length (mf_segments (pb_manifest b)))) (mf_segments (pb_manifest b))\<rparr>\<rparr>"
  by (auto simp: evict_def overflow_def Let_def split: option.split)

lemma prune_fields [simp]:
  "mf_segments (prune_date_ranges m) = mf_segments m"
  "mf_preliminary_parts (prune_date_ranges m) = mf_preliminary_parts m"
  "mf_preload_hint_uri (prune_date_ranges m) = mf_preload_hint_uri m"
  "mf_ended (prune_date_ranges m) = mf_ended m"
  by (simp_all add: prune_date_ranges_def split: list.split option.split)

lemma next_part_uri_cong:
  "pb_config b = pb_config b' \<Longrightarrow> pb_next_sequence b = pb_next_sequence b' \<Longrightarrow> pb_part_index b = pb_part_index b' \<Longrightarrow>
    next_part_uri b = next_part_uri b'"
  by (simp add: next_part_uri_def)

lemma close_none [simp]: "pb_pending_parts b = [] \<Longrightarrow> close_pending_segment b = b"
  by (simp add: close_pending_segment_def)

lemma close_fields:
  assumes "pb_pending_parts b \<noteq> []"
  shows "pb_config (close_pending_segment b) = pb_config b"
    and "pb_pending_parts (close_pending_segment b) = []"
    and "pb_pending_duration_ticks (close_pending_segment b) = 0"
    and "pb_next_sequence (close_pending_segment b) = pb_next_sequence b + 1"
    and "pb_part_index (close_pending_segment b) = 0"
    and "pb_last_dts (close_pending_segment b) = pb_last_dts b"
    and "mf_preliminary_parts (pb_manifest (close_pending_segment b)) = []"
    and "mf_preload_hint_uri (pb_manifest (close_pending_segment b)) = Some (next_part_uri (close_pending_segment b))"
    and "mf_segments (pb_manifest (close_pending_segment b)) =
      drop (overflow (pb_config b) (Suc (length (mf_segments (pb_manifest b)))))
        (mf_segments (pb_manifest b) @ [closed_segment b])"
    and "pb_evicted_uris (close_pending_segment b) = pb_evicted_uris b @ concat (map segment_uris
      (take (overflow (pb_config b) (Suc (length (mf_segments (pb_manifest b)))))
        (mf_segments (pb_manifest b) @ [closed_segment b])))"
  using assms
  by (simp_all add: close_pending_segment_def Let_def evict_eq closed_segment_def next_part_uri_def)

lemma close_kept [simp]:
  "pb_config (close_pending_segment b) = pb_config b"
  "pb_last_dts (close_pending_segment b) = pb_last_dts b"
  "mf_ended (pb_manifest (close_pending_segment b)) = mf_ended (pb_manifest b)"
  by (simp_all add: close_pending_segment_def Let_def evict_eq)

text \<open>Accepting a chunk, split into the possible close and the new part.\<close>

definition new_part :: "cmaf_chunk \<Rightarrow> playlist_builder \<Rightarrow> part" where
  "new_part c b = \<lparr>pt_uri = next_part_uri b, pt_duration_ticks = ck_duration c,
     pt_independent = is_independent (ck_kind c)\<rparr>"

definition opened :: "cmaf_chunk \<Rightarrow> playlist_builder \<Rightarrow> playlist_builder" where
  "opened c b =
     (let b = b\<lparr>pb_last_dts := Some (ck_dts c), pb_part_index := pb_part_index b + 1\<rparr> in
      if is_segment_start (ck_kind c) then close_pending_segment b else b)"

lemma accept_fields:
  "pb_config (accept_chunk c b) = pb_config b"
  "pb_pending_parts (accept_chunk c b) = pb_pending_parts (opened c b) @ [new_part c b]"
  "pb_pending_duration_ticks (accept_chunk c b) = pb_pending_duration_ticks (opened c b) + ck_duration c"
  "pb_next_sequence (accept_chunk c b) = pb_next_sequence (opened c b)"
  "pb_part_index (accept_chunk c b) = pb_part_index (opened c b)"
  "pb_last_dts (accept_chunk c b) = Some (ck_dts c)"
  "pb_evicted_uris (accept_chunk c b) = pb_evicted_uris (opened c b)"
  "mf_segments (pb_manifest (accept_chunk c b)) = mf_segments (pb_manifest (opened c b))"
  "mf_preliminary_parts (pb_manifest (accept_chunk c b)) = pb_pending_parts (opened c b) @ [new_part c b]"
  "mf_preload_hint_uri (pb_manifest (accept_chunk c b)) = Some (next_part_uri (accept_chunk c b))"
  "mf_ended (pb_manifest (accept_chunk c b)) = mf_ended (pb_manifest b)"
  by (cases "is_segment_start (ck_kind c) \<and> pb_pending_parts b \<noteq> []";
      auto simp: accept_chunk_def opened_def new_part_def Let_def next_part_uri_def)+

lemma opened_eq: "opened c b = (if is_segment_start (ck_kind c)
    then close_pending_segment (b\<lparr>pb_last_dts := Some (ck_dts c), pb_part_index := pb_part_index b + 1\<rparr>)
    else b\<lparr>pb_last_dts := Some (ck_dts c), pb_part_index := pb_part_index b + 1\<rparr>)"
  by (simp add: opened_def Let_def)

lemma push_chunk_Ok: "push_chunk c b = Ok b' \<longleftrightarrow> b' = accept_chunk c b \<and> ck_duration c \<noteq> 0 \<and>
    (\<forall>last_dts. pb_last_dts b = Some last_dts \<longrightarrow> last_dts \<le> ck_dts c)"
  by (auto simp: push_chunk_def split: option.split)

section \<open>Invariant: the window\<close>

definition segment_ok :: "playlist_builder_config \<Rightarrow> segment \<Rightarrow> bool" where
  "segment_ok cfg s \<longleftrightarrow> sg_parts s \<noteq> [] \<and> sg_uri s = segment_uri (pc_uri_prefix cfg) (sg_sequence s) \<and>
     sg_duration_ticks s = sum_list (map pt_duration_ticks (sg_parts s))"

definition window_ok :: "playlist_builder_config \<Rightarrow> nat \<Rightarrow> segment list \<Rightarrow> bool" where
  "window_ok cfg n segs \<longleftrightarrow> length segs \<le> n \<and> map (unat \<circ> sg_sequence) segs = [n - length segs..<n] \<and>
     list_all (segment_ok cfg) segs \<and>
     (case pc_max_segments cfg of None \<Rightarrow> True | Some limit \<Rightarrow> length segs \<le> limit)"

definition playlist_window :: "playlist_builder_config \<Rightarrow> string list \<times> playlist_builder \<Rightarrow> bool" where
  "playlist_window cfg = (\<lambda>(purged, b). pb_config b = cfg \<and>
     window_ok cfg (unat (pb_next_sequence b)) (mf_segments (pb_manifest b)) \<and>
     pb_pending_duration_ticks b = sum_list (map pt_duration_ticks (pb_pending_parts b)))"

definition playlist_preview :: "playlist_builder \<Rightarrow> bool" where
  "playlist_preview b \<longleftrightarrow> mf_preliminary_parts (pb_manifest b) = pb_pending_parts b \<and>
     (mf_preload_hint_uri (pb_manifest b) = None \<or>
      mf_preload_hint_uri (pb_manifest b) = Some (next_part_uri b))"

lemma unat_succ: "(x :: 'a::len word) < - 1 \<Longrightarrow> unat (x + 1) = Suc (unat x)"
  by (metis add.commute unatSuc word_not_simps(3) add.inverse_inverse add_eq_0_iff order_less_irrefl)

lemma window_ok_close:
  assumes "window_ok cfg n segs" and "unat (sg_sequence s) = n" and "segment_ok cfg s"
  shows "window_ok cfg (Suc n) (drop (overflow cfg (Suc (length segs))) (segs @ [s]))"
proof -
  define k where "k = overflow cfg (Suc (length segs))"
  have w: "length segs \<le> n" "map (unat \<circ> sg_sequence) segs = [n - length segs..<n]"
    "list_all (segment_ok cfg) segs"
    using assms(1) by (simp_all add: window_ok_def)
  have k: "k \<le> Suc (length segs)" by (simp add: k_def overflow_def split: option.split)
  have "map (unat \<circ> sg_sequence) (segs @ [s]) = [n - length segs..<Suc n]" using w assms(2) by simp
  then have "map (unat \<circ> sg_sequence) (drop k (segs @ [s])) = [n - length segs + k..<Suc n]"
    unfolding drop_map [symmetric] by (simp only: drop_upt)
  moreover have "Suc n - (Suc (length segs) - k) = n - length segs + k" using w(1) k by linarith
  moreover have "list_all (segment_ok cfg) (drop k (segs @ [s]))"
    using w(3) assms(3) by (auto simp: list_all_iff dest: in_set_dropD)
  moreover have "case pc_max_segments cfg of None \<Rightarrow> True | Some limit \<Rightarrow> Suc (length segs) - k \<le> limit"
    by (auto simp: k_def overflow_def split: option.split)
  moreover have "length (drop k (segs @ [s])) = Suc (length segs) - k" by simp
  moreover have "Suc (length segs) - k \<le> Suc n" using w(1) by linarith
  ultimately show ?thesis
    unfolding k_def [symmetric] window_ok_def by (simp only: simp_thms)
qed

lemma window_close:
  assumes "playlist_window cfg (purged, b)" and "pb_next_sequence b < - 1"
  shows "playlist_window cfg (purged', close_pending_segment b)"
proof (cases "pb_pending_parts b = []")
  case True
  then show ?thesis using assms(1) by (simp add: playlist_window_def)
next
  case False
  have "segment_ok cfg (closed_segment b)" "unat (sg_sequence (closed_segment b)) = unat (pb_next_sequence b)"
    using False assms(1) by (simp_all add: segment_ok_def closed_segment_def playlist_window_def)
  then show ?thesis
    using window_ok_close [of cfg "unat (pb_next_sequence b)"] assms
    by (simp add: playlist_window_def close_fields [OF False] unat_succ)
qed

lemma window_opened:
  assumes "playlist_window cfg (purged, b)" and "pb_next_sequence b < - 1"
  shows "playlist_window cfg (purged, opened c b)"
proof -
  have "playlist_window cfg (purged, b\<lparr>pb_last_dts := Some (ck_dts c), pb_part_index := pb_part_index b + 1\<rparr>)"
    using assms(1) by (simp add: playlist_window_def)
  then show ?thesis using assms(2) by (simp add: opened_eq window_close)
qed

lemma window_accept:
  assumes "playlist_window cfg (purged, b)" and "pb_next_sequence b < - 1"
  shows "playlist_window cfg (purged, accept_chunk c b)"
  using window_opened [OF assms, of c] assms(1)
  by (simp add: playlist_window_def accept_fields new_part_def)

lemma window_exec:
  assumes "playlist_window cfg (purged, b)" and "pb_next_sequence b < - 1"
  shows "playlist_window cfg (playlist_exec op (purged, b))"
proof (cases op)
  case (OpPush c)
  then show ?thesis
    using assms window_accept [OF assms, of c] push_chunk_Ok [of c b] by (auto split: outcome.split)
next
  case OpFinalize
  then show ?thesis
    using window_close [OF assms, of purged] by (simp add: finalize_def Let_def playlist_window_def)
qed (use assms window_close [OF assms] in \<open>auto simp: playlist_window_def mark_discontinuity_pending_def
    push_date_range_def drain_evicted_uris_def Let_def\<close>)

lemma preview_close: "playlist_preview b \<Longrightarrow> playlist_preview (close_pending_segment b)"
  by (cases "pb_pending_parts b = []") (simp_all add: playlist_preview_def close_fields)

lemma preview_exec: "playlist_preview b \<Longrightarrow> playlist_preview (snd (playlist_exec op (purged, b)))"
proof (cases op)
  case (OpPush c)
  assume "playlist_preview b"
  then show ?thesis
    using OpPush push_chunk_Ok [of c b] by (auto simp: playlist_preview_def accept_fields split: outcome.split)
next
  case OpClose
  assume "playlist_preview b"
  then show ?thesis using OpClose preview_close [of b] by simp
next
  case OpFinalize
  assume "playlist_preview b"
  then show ?thesis
    using OpFinalize preview_close [of b] by (cases "pb_pending_parts b = []")
      (simp_all add: playlist_preview_def finalize_def Let_def close_fields)
qed (auto simp: playlist_preview_def mark_discontinuity_pending_def push_date_range_def drain_evicted_uris_def
    Let_def next_part_uri_def)

definition playlist_good :: "playlist_builder_config \<Rightarrow> string list \<times> playlist_builder \<Rightarrow> bool" where
  "playlist_good cfg s \<longleftrightarrow> playlist_window cfg s \<and> playlist_preview (snd s)"

interpretation playlist: step_invariant "([], playlist_builder_new cfg)" playlist_step "playlist_good cfg" for cfg
proof
  show "playlist_good cfg ([], playlist_builder_new cfg)"
    by (simp add: playlist_good_def playlist_window_def window_ok_def playlist_preview_def
        playlist_builder_new_def Let_def split: option.split)
next
  fix s t assume "playlist_good cfg s" and "playlist_step s t"
  then show "playlist_good cfg t"
    by (auto simp: playlist_good_def elim!: playlist_stepE intro!: window_exec preview_exec)
qed

section \<open>Invariant: the ledger of URIs\<close>

text \<open>
  Every URI the playlist has announced, in order: those the server has purged from its cache, those waiting
  to be purged, and those in the playlist.
\<close>

definition playlist_uris :: "playlist_builder \<Rightarrow> string list" where
  "playlist_uris b = concat (map segment_uris (mf_segments (pb_manifest b))) @ map pt_uri (pb_pending_parts b)"

definition ledger :: "string list \<times> playlist_builder \<Rightarrow> string list" where
  "ledger = (\<lambda>(purged, b). purged @ pb_evicted_uris b @ playlist_uris b)"

definition part_uri :: "string \<Rightarrow> nat \<Rightarrow> nat \<Rightarrow> string" where
  "part_uri prefix s i = prefix @ ''part-'' @ dec_str s @ ''-'' @ dec_str i @ ''.m4s''"

lemma part_uri_inj: "part_uri p s i = part_uri p t j \<longleftrightarrow> s = t \<and> i = j"
proof
  assume "part_uri p s i = part_uri p t j"
  then have e: "dec_str s @ CHR ''-'' # dec_str i @ ''.m4s'' = dec_str t @ CHR ''-'' # dec_str j @ ''.m4s''"
    by (simp add: part_uri_def)
  have "s = t \<and> dec_str i @ ''.m4s'' = dec_str j @ ''.m4s''"
    by (rule dec_str_sep_inject [OF _ e]) (simp add: is_digit_def)
  then show "s = t \<and> i = j" by simp
qed simp

lemma segment_uri_inj: "segment_uri p s = segment_uri p t \<longleftrightarrow> s = t"
  by (simp add: segment_uri_def word_unat_eq_iff)

lemma part_not_segment: "part_uri p s i \<noteq> segment_uri p t"
  by (simp add: part_uri_def segment_uri_def)

definition announced :: "playlist_builder \<Rightarrow> string set" where
  "announced b = {part_uri (pc_uri_prefix (pb_config b)) s i | s i.
      s < unat (pb_next_sequence b) \<or> s = unat (pb_next_sequence b) \<and> i < unat (pb_part_index b)} \<union>
    {segment_uri (pc_uri_prefix (pb_config b)) s | s. s < pb_next_sequence b}"

definition ledger_ok :: "string list \<times> playlist_builder \<Rightarrow> bool" where
  "ledger_ok s \<longleftrightarrow> distinct (ledger s) \<and> set (ledger s) \<subseteq> announced (snd s)"

lemma next_part_uri_eq: "next_part_uri b = part_uri (pc_uri_prefix (pb_config b))
    (unat (pb_next_sequence b)) (unat (pb_part_index b))"
  by (simp add: next_part_uri_def part_uri_def)

lemma ledger_close:
  "ledger (purged, close_pending_segment b) = ledger (purged, b) @
    (if pb_pending_parts b = [] then [] else [segment_uri (pc_uri_prefix (pb_config b)) (pb_next_sequence b)])"
proof (cases "pb_pending_parts b = []")
  case False
  let ?k = "overflow (pb_config b) (Suc (length (mf_segments (pb_manifest b))))"
  let ?segs = "mf_segments (pb_manifest b) @ [closed_segment b]"
  have join: "concat (map segment_uris (take k xs)) @ concat (map segment_uris (drop k xs)) = concat (map segment_uris xs)"
    for k xs by (metis append_take_drop_id concat_append map_append)
  have "ledger (purged, close_pending_segment b) = purged @ pb_evicted_uris b @
      concat (map segment_uris (take ?k ?segs)) @ concat (map segment_uris (drop ?k ?segs))"
    by (simp only: ledger_def playlist_uris_def close_fields [OF False] prod.case append_assoc list.map append_Nil2)
  also have "\<dots> = purged @ pb_evicted_uris b @ concat (map segment_uris ?segs)" by (simp only: join)
  finally show ?thesis
    using False by (simp add: ledger_def playlist_uris_def segment_uris_def closed_segment_def)
qed simp

lemma ledger_accept:
  "ledger (purged, accept_chunk c b) = ledger (purged, opened c b) @ [next_part_uri b]"
  by (simp add: ledger_def playlist_uris_def accept_fields new_part_def)

lemma word_less_succ: "(x :: 'a::len word) < - 1 \<Longrightarrow> s < x + 1 \<longleftrightarrow> s \<le> x"
  using unat_succ [of x] by (simp add: word_less_nat_alt word_le_nat_alt less_Suc_eq_le)

lemma announced_close:
  assumes "pb_next_sequence b < - 1"
  shows "announced b \<subseteq> announced (close_pending_segment b)"
    and "pb_pending_parts b \<noteq> [] \<Longrightarrow>
      segment_uri (pc_uri_prefix (pb_config b)) (pb_next_sequence b) \<in> announced (close_pending_segment b) - announced b"
proof -
  show "announced b \<subseteq> announced (close_pending_segment b)"
  proof (cases "pb_pending_parts b = []")
    case False
    then show ?thesis
      using assms by (auto simp: announced_def close_fields unat_succ word_less_succ)
  qed simp
  show "segment_uri (pc_uri_prefix (pb_config b)) (pb_next_sequence b) \<in> announced (close_pending_segment b) - announced b"
    if "pb_pending_parts b \<noteq> []"
    using that assms by (auto simp: announced_def close_fields word_less_succ part_not_segment [symmetric] segment_uri_inj)
qed

lemma ledger_ok_close:
  assumes "ledger_ok (purged, b)" and "pb_next_sequence b < - 1"
  shows "ledger_ok (purged, close_pending_segment b)"
  using assms announced_close [OF assms(2)] by (auto simp: ledger_ok_def ledger_close)

lemma announced_index:
  assumes "pb_part_index b < - 1"
  shows "announced (b\<lparr>pb_last_dts := d, pb_part_index := pb_part_index b + 1\<rparr>) = insert (next_part_uri b) (announced b)"
  using assms by (auto simp: announced_def next_part_uri_eq unat_succ less_Suc_eq)

lemma next_not_announced: "next_part_uri b \<notin> announced b"
  by (auto simp: announced_def next_part_uri_eq part_uri_inj part_not_segment)

lemma ledger_ok_accept:
  assumes ok: "ledger_ok (purged, b)" and i: "pb_part_index b < - 1" and n: "pb_next_sequence b < - 1"
  shows "ledger_ok (purged, accept_chunk c b)"
proof -
  let ?b = "b\<lparr>pb_last_dts := Some (ck_dts c), pb_part_index := pb_part_index b + 1\<rparr>"
  have l: "ledger (purged, ?b) = ledger (purged, b)" by (simp add: ledger_def playlist_uris_def)
  have "ledger_ok (purged, ?b)"
    using ok unfolding ledger_ok_def l snd_conv announced_index [OF i] by blast
  then have o: "ledger_ok (purged, opened c b)" using n by (simp add: opened_eq ledger_ok_close)
  have "next_part_uri b \<notin> set (ledger (purged, opened c b))"
    using ok next_not_announced [of b] l
    by (auto simp: opened_eq ledger_close ledger_ok_def next_part_uri_eq part_not_segment split: if_splits)
  moreover have "next_part_uri b \<in> announced (opened c b)"
    using announced_index [OF i, of "Some (ck_dts c)"] announced_close(1) [of ?b] n by (auto simp: opened_eq)
  moreover have "announced (accept_chunk c b) = announced (opened c b)"
    by (simp add: announced_def accept_fields opened_eq)
  ultimately show ?thesis using o by (simp add: ledger_ok_def ledger_accept)
qed

lemma ledger_ok_exec:
  assumes "ledger_ok (purged, b)" "pb_part_index b < - 1" "pb_next_sequence b < - 1"
  shows "ledger_ok (playlist_exec op (purged, b))"
proof (cases op)
  case (OpPush c)
  then show ?thesis
    using assms ledger_ok_accept [OF assms, of c] push_chunk_Ok [of c b] by (auto split: outcome.split)
next
  case OpClose
  then show ?thesis using ledger_ok_close [OF assms(1,3)] by simp
next
  case OpFinalize
  then show ?thesis using ledger_ok_close [OF assms(1,3)]
    by (simp add: finalize_def Let_def ledger_ok_def ledger_def playlist_uris_def announced_def)
qed (use assms(1) in \<open>auto simp: ledger_ok_def ledger_def playlist_uris_def announced_def
    mark_discontinuity_pending_def push_date_range_def drain_evicted_uris_def Let_def\<close>)

interpretation cache: step_invariant "([], playlist_builder_new cfg)" playlist_step ledger_ok for cfg
proof
  show "ledger_ok ([], playlist_builder_new cfg)"
    by (simp add: ledger_ok_def ledger_def playlist_uris_def playlist_builder_new_def Let_def)
next
  fix s t assume "ledger_ok s" and "playlist_step s t"
  then show "ledger_ok t" by (auto elim!: playlist_stepE intro!: ledger_ok_exec)
qed

section \<open>Lemmas: rendering\<close>

lemma unat_div_ceil:
  assumes "0 < unat b"
  shows "unat a \<le> unat (div_ceil a b) * unat b"
    and "unat (div_ceil a b) \<le> (unat a + unat b - 1) div unat b"
proof -
  have q: "unat (a div b) = unat a div unat b" by (simp add: unat_div)
  have r: "unat (a mod b) = unat a mod unat b" by (simp add: unat_mod)
  have e: "unat a = unat a div unat b * unat b + unat a mod unat b" by simp
  have "unat (div_ceil a b) = (if unat a mod unat b = 0 then unat a div unat b else unat a div unat b + 1)"
  proof (cases "unat a mod unat b = 0")
    case True
    then have "a mod b = 0" using r by (metis unat_eq_0)
    then show ?thesis using True q by (simp add: div_ceil_def)
  next
    case False
    then have "a mod b \<noteq> 0" using r by (metis unsigned_0)
    have "unat b \<noteq> 1" using False by auto
    then have "2 \<le> unat b" using assms by linarith
    then have "unat a div unat b \<le> unat a div 2" by (simp add: div_le_mono2)
    moreover have "unat a div 2 < 9223372036854775808"
      using unsigned_less [of a, where 'a = nat] by (simp add: div_less_iff_less_mult)
    ultimately have "unat (a div b) + 1 < 18446744073709551616" using q by linarith
    then have "unat (a div b + 1) = unat (a div b) + 1" 
      using unat_succ [of "a div b"]
      by (simp add: word_less_nat_alt unsigned_minus_1_eq_mask mask_eq_exp_minus_1)
    then show ?thesis using False \<open>a mod b \<noteq> 0\<close> q by (simp add: div_ceil_def)
  qed
  note u = this
  show "unat a \<le> unat (div_ceil a b) * unat b"
    using u e dividend_less_times_div [of "unat b" "unat a"] assms by (auto simp: mult.commute)
  show "unat (div_ceil a b) \<le> (unat a + unat b - 1) div unat b"
  proof (cases "unat a mod unat b = 0")
    case True
    have "unat a div unat b \<le> (unat a + unat b - 1) div unat b" using assms by (intro div_le_mono) simp
    then show ?thesis using u True by simp
  next
    case False
    then have "unat a div unat b * unat b < unat a" using e by linarith
    then have "(unat a div unat b + 1) * unat b \<le> unat a + unat b - 1" unfolding distrib_right mult_1 by linarith
    then have "unat a div unat b + 1 \<le> (unat a + unat b - 1) div unat b"
      using assms by (simp add: less_eq_div_iff_mult_less_eq)
    then show ?thesis using u False by simp
  qed
qed

lemma fold_max: "(x :: u64) \<in> set (d # ds) \<Longrightarrow> x \<le> fold max ds d"
  "fold max ds d \<in> set (d # ds)"
proof -
  have "Max (set (d # ds)) = fold max ds d" by (rule Max.set_eq_fold)
  then show "x \<in> set (d # ds) \<Longrightarrow> x \<le> fold max ds d" "fold max ds d \<in> set (d # ds)"
    using Max_ge [of "set (d # ds)" x] Max_in [of "set (d # ds)"] by auto
qed

lemma effective_target_covers:
  assumes ts: "mf_timescale m \<noteq> 0" and s: "s \<in> set (mf_segments m)"
    and small: "\<forall>s\<in>set (mf_segments m). unat (sg_duration_ticks s) \<le> (2 ^ 32 - 1) * unat (mf_timescale m)"
  shows "unat (sg_duration_ticks s) \<le> unat (effective_target m) * unat (mf_timescale m)"
proof -
  let ?ts = "unat (mf_timescale m)"
  obtain d ds where l: "map sg_duration_ticks (mf_segments m) = d # ds" using s by (cases "mf_segments m") auto
  let ?w = "ucast (max (mf_timescale m) 1) :: u64"
  have pos: "0 < ?ts" using ts by (simp add: unat_gt_0)
  have "1 \<le> mf_timescale m" using ts by (simp add: word_le_nat_alt Suc_le_eq unat_gt_0)
  then have w: "unat ?w = ?ts"
    using unsigned_less [of "mf_timescale m", where 'a = nat]
    by (simp add: max_absorb1 unsigned_ucast_eq take_bit_nat_eq_self)
  have mem: "sg_duration_ticks s \<in> set (d # ds)" using s unfolding l [symmetric] by simp
  define top where "top = fold max ds d"
  have top: "sg_duration_ticks s \<le> top" "top \<in> set (d # ds)"
    using fold_max(1) [where d = d and ds = ds] fold_max(2) [where d = d and ds = ds] mem by (simp_all add: top_def)
  then have "top \<in> sg_duration_ticks ` set (mf_segments m)" unfolding l [symmetric] by simp
  then have le: "unat top \<le> (2 ^ 32 - 1) * ?ts" using small by auto
  have c: "unat top \<le> unat (div_ceil top ?w) * ?ts" "unat (div_ceil top ?w) \<le> (unat top + ?ts - 1) div ?ts"
    using unat_div_ceil [of ?w top] w pos by simp_all
  have "(unat top + ?ts - 1) div ?ts \<le> ((2 ^ 32 - 1) * ?ts + (?ts - 1)) div ?ts"
    using le pos by (intro div_le_mono) linarith
  also have "\<dots> = (?ts - 1 + (2 ^ 32 - 1) * ?ts) div ?ts" by (simp only: add.commute)
  also have "\<dots> = (2 ^ 32 - 1) + (?ts - 1) div ?ts" by (rule div_mult_self1) (use pos in simp)
  also have "\<dots> = 2 ^ 32 - 1" using pos by simp
  finally have "unat (ucast (div_ceil top ?w) :: u32) = unat (div_ceil top ?w)"
    using c(2) by (simp add: unsigned_ucast_eq take_bit_nat_eq_self)
  moreover have "ucast (div_ceil top ?w) \<le> effective_target m"
    by (simp add: effective_target_def l top_def Let_def)
  then have "unat (ucast (div_ceil top ?w) :: u32) \<le> unat (effective_target m)" by (simp add: word_le_nat_alt)
  ultimately have t: "unat (div_ceil top ?w) \<le> unat (effective_target m)" by (simp only:)
  have "unat (sg_duration_ticks s) \<le> unat top" using top(1) by (simp only: word_le_nat_alt)
  also note c(1)
  also have "unat (div_ceil top ?w) * ?ts \<le> unat (effective_target m) * ?ts" using t by (rule mult_le_mono1)
  finally show ?thesis .
qed

section \<open>Lemmas: delta playlists\<close>

definition ticks_of :: "segment list \<Rightarrow> nat" where
  "ticks_of segs = sum_list (map (unat \<circ> sg_duration_ticks) segs)"

lemma ticks_of_simps [simp]: "ticks_of [] = 0" "ticks_of (s # segs) = unat (sg_duration_ticks s) + ticks_of segs"
  by (simp_all add: ticks_of_def)

lemma unat_total: "ticks_of segs < 2 ^ 64 \<Longrightarrow> unat (sum_list (map sg_duration_ticks segs)) = ticks_of segs"
proof (induction segs)
  case (Cons s segs)
  then show ?case by (simp add: unat_word_ariths)
qed simp

text \<open>What may be skipped: how much playlist is left behind the first \<open>k\<close> segments decides.\<close>

definition may_skip :: "nat \<Rightarrow> nat \<Rightarrow> segment list \<Rightarrow> nat \<Rightarrow> bool" where
  "may_skip skip_until min_remaining segs k \<longleftrightarrow>
     skip_until < ticks_of (drop k segs) \<and> min_remaining \<le> ticks_of (drop k segs)"

lemma skip_candidates_correct:
  assumes "unat elapsed + ticks_of segs = unat total_ticks"
  shows "skip_candidates total_ticks su mr elapsed segs \<le> length segs \<and>
    (\<forall>k. 0 < k \<longrightarrow> k \<le> skip_candidates total_ticks su mr elapsed segs \<longrightarrow> may_skip (unat su) (unat mr) segs k) \<and>
    \<not> may_skip (unat su) (unat mr) segs (Suc (skip_candidates total_ticks su mr elapsed segs))"
  using assms
proof (induction segs arbitrary: elapsed)
  case Nil
  then show ?case by (simp add: may_skip_def)
next
  case (Cons s segs)
  let ?e = "elapsed + sg_duration_ticks s"
  have le: "unat elapsed + unat (sg_duration_ticks s) \<le> unat total_ticks" using Cons.prems by simp
  then have e: "unat ?e = unat elapsed + unat (sg_duration_ticks s)"
    using unsigned_less [of total_ticks, where 'a = nat] by (simp add: unat_word_ariths)
  then have rest: "unat ?e + ticks_of segs = unat total_ticks" using Cons.prems by simp
  then have r: "unat (total_ticks - ?e) = ticks_of segs" by (simp add: unat_sub_if_size)
  have one: "may_skip (unat su) (unat mr) (s # segs) (Suc k) \<longleftrightarrow> may_skip (unat su) (unat mr) segs k" for k
    by (simp add: may_skip_def)
  show ?case
  proof (cases "su < total_ticks - ?e \<and> mr \<le> total_ticks - ?e")
    case True
    have zero: "may_skip (unat su) (unat mr) segs 0"
      using True r by (simp add: may_skip_def word_less_nat_alt word_le_nat_alt)
    have "may_skip (unat su) (unat mr) (s # segs) k"
      if k: "0 < k" "k \<le> Suc (skip_candidates total_ticks su mr ?e segs)" for k
    proof (cases k)
      case (Suc j)
      then show ?thesis unfolding Suc one using Cons.IH [OF rest] k(2) [unfolded Suc] zero by (cases j) auto
    qed (use k in simp)
    then show ?thesis using Cons.IH [OF rest] True by (simp add: Let_def one)
  next
    case False
    then have "\<not> may_skip (unat su) (unat mr) segs 0"
      using r by (auto simp: may_skip_def word_less_nat_alt word_le_nat_alt)
    then show ?thesis using False by (auto simp: Let_def one)
  qed
qed

lemma secs_to_ticks_whole:
  assumes "n * unat ts < 2 ^ 64"
  shows "unat (secs_to_ticks (of_nat n) ts) = n * unat ts"
proof -
  have t: "(of_nat n * of_nat (unat ts) :: rat) = of_nat (n * unat ts)" by simp
  have "\<not> (2 ^ 64 :: rat) \<le> of_nat (n * unat ts)"
    using assms by (metis not_less of_nat_less_iff of_nat_numeral of_nat_power)
  moreover have "\<lfloor>of_nat (n * unat ts) :: rat\<rfloor> = int (n * unat ts)" by (rule floor_of_nat)
  moreover have w: "unat (of_nat (n * unat ts) :: u64) = n * unat ts"
    by (rule unat_of_nat_id) (use assms in simp)
  ultimately have "secs_to_ticks (of_nat n) ts = (if n * unat ts = 0 then 0 else of_nat (n * unat ts))"
    unfolding secs_to_ticks_def Let_def t by (simp only: of_int_of_nat_eq of_nat_le_0_iff if_False)
  then show ?thesis using w by (cases "n * unat ts = 0") auto
qed

lemma pending_closed: "pb_pending_parts (close_pending_segment b) = []"
  by (cases "pb_pending_parts b = []") (simp_all add: close_fields)

lemma finalize_fields:
  "pb_pending_parts (finalize b) = []" "mf_preload_hint_uri (pb_manifest (finalize b)) = None"
  "mf_ended (pb_manifest (finalize b))" "pb_last_dts (finalize b) = pb_last_dts b"
  by (simp_all add: finalize_def Let_def pending_closed)

lemma render_ended: "mf_ended m \<Longrightarrow> last (render m) = Endlist"
  unfolding render_def render_with_skip_def Let_def by (simp only: if_True append_assoc [symmetric] last_snoc)

section \<open>Lemmas: a stream of chunks\<close>

fun push_all :: "cmaf_chunk list \<Rightarrow> playlist_builder \<Rightarrow> (playlist_builder, hls_error) outcome" where
  "push_all [] b = Ok b"
| "push_all (c # cs) b = obind (push_chunk c b) (push_all cs)"

lemma push_all_accepts:
  assumes "sorted (map ck_dts cs)" and "\<forall>c\<in>set cs. ck_duration c \<noteq> 0"
    and "\<forall>d. pb_last_dts b = Some d \<longrightarrow> (\<forall>c\<in>set cs. d \<le> ck_dts c)"
  shows "\<exists>b'. push_all cs b = Ok b' \<and> pb_config b' = pb_config b"
  using assms
proof (induction cs arbitrary: b)
  case (Cons c cs)
  then have "push_chunk c b = Ok (accept_chunk c b)" by (simp add: push_chunk_Ok)
  moreover have "\<exists>b'. push_all cs (accept_chunk c b) = Ok b' \<and> pb_config b' = pb_config (accept_chunk c b)"
    using Cons.prems by (intro Cons.IH) (simp_all add: accept_fields)
  ultimately show ?case by (simp add: accept_fields)
qed simp

section \<open>Properties\<close>

text \<open>
  C28. In every reachable state the playlist is a window of consecutive segments: their sequence numbers
  count up to the next one, so the media sequence tag and the segment count fit together, there are at
  most \<open>max_segments\<close> of them, none is empty, and each has its own file name and the summed duration of
  its parts.  The parts shown behind the segments are those of the open segment, and the preload hint,
  when there is one, is the URI that the next accepted part gets.
\<close>

theorem playlist_is_window:
  assumes "playlist_step\<^sup>*\<^sup>* ([], playlist_builder_new cfg) (purged, b)"
  shows "map (unat \<circ> sg_sequence) (mf_segments (pb_manifest b)) =
      [unat (pb_next_sequence b) - length (mf_segments (pb_manifest b))..<unat (pb_next_sequence b)] \<and>
    (\<forall>limit. pc_max_segments cfg = Some limit \<longrightarrow> length (mf_segments (pb_manifest b)) \<le> limit) \<and>
    (\<forall>s\<in>set (mf_segments (pb_manifest b)). sg_parts s \<noteq> [] \<and>
      sg_uri s = segment_uri (pc_uri_prefix cfg) (sg_sequence s) \<and>
      sg_duration_ticks s = sum_list (map pt_duration_ticks (sg_parts s))) \<and>
    mf_preliminary_parts (pb_manifest b) = pb_pending_parts b \<and>
    (\<forall>uri c b'. mf_preload_hint_uri (pb_manifest b) = Some uri \<longrightarrow> push_chunk c b = Ok b' \<longrightarrow>
      pt_uri (last (mf_preliminary_parts (pb_manifest b'))) = uri)"
proof -
  from playlist.inv_reachable [OF assms]
  have w: "window_ok cfg (unat (pb_next_sequence b)) (mf_segments (pb_manifest b))" and p: "playlist_preview b"
    by (simp_all add: playlist_good_def playlist_window_def)
  have "pt_uri (last (mf_preliminary_parts (pb_manifest b'))) = uri"
    if "mf_preload_hint_uri (pb_manifest b) = Some uri" "push_chunk c b = Ok b'" for uri c b'
    using that p by (auto simp: push_chunk_Ok accept_fields new_part_def playlist_preview_def)
  then show ?thesis
    using w p by (auto simp: window_ok_def segment_ok_def list_all_iff playlist_preview_def split: option.splits)
qed

text \<open>
  C29. The byte cache and the playlist stay in step: over any run, the URIs already purged, those waiting to
  be purged and those in the playlist are all different, so nothing is purged while it is still listed, or
  twice; and an accepted chunk adds exactly its part, behind the segment it closes, and loses nothing.
\<close>

theorem cache_in_step:
  assumes "playlist_step\<^sup>*\<^sup>* ([], playlist_builder_new cfg) (purged, b)"
  shows "distinct (purged @ pb_evicted_uris b @ playlist_uris b) \<and>
    (\<forall>c b'. push_chunk c b = Ok b' \<longrightarrow>
      pb_evicted_uris b' @ playlist_uris b' = pb_evicted_uris b @ playlist_uris b @
        (if is_segment_start (ck_kind c) \<and> pb_pending_parts b \<noteq> []
         then [segment_uri (pc_uri_prefix (pb_config b)) (pb_next_sequence b)] else []) @ [next_part_uri b])"
proof -
  have "distinct (ledger (purged, b))" using cache.inv_reachable [OF assms] by (simp add: ledger_ok_def)
  moreover have "ledger ([], b') = ledger ([], b) @ (if is_segment_start (ck_kind c) \<and> pb_pending_parts b \<noteq> []
         then [segment_uri (pc_uri_prefix (pb_config b)) (pb_next_sequence b)] else []) @ [next_part_uri b]"
    if "push_chunk c b = Ok b'" for c b'
    using that by (simp add: push_chunk_Ok ledger_accept opened_eq ledger_close)
      (simp add: ledger_def playlist_uris_def)
  ultimately show ?thesis by (simp add: ledger_def)
qed

text \<open>
  Finalizing closes the open segment and leaves a playlist that ends with the end tag and hints at
  nothing.  It does not shut the builder: a later chunk whose time stamp does not go back is still
  accepted, and its part is listed in the ended playlist.
\<close>

theorem finalize_not_final:
  assumes "pb_last_dts b = Some d" and "d \<le> ck_dts c" and "ck_duration c \<noteq> 0"
  shows "pb_pending_parts (finalize b) = [] \<and> mf_preload_hint_uri (pb_manifest (finalize b)) = None \<and>
    last (render (pb_manifest (finalize b))) = Endlist \<and>
    (\<exists>b'. push_chunk c (finalize b) = Ok b' \<and> last (render (pb_manifest b')) = Endlist \<and>
      map pt_uri (mf_preliminary_parts (pb_manifest b')) = [next_part_uri (finalize b)])"
proof -
  let ?f = "finalize b"
  note f = finalize_fields [of b] and l = render_ended
  have p: "push_chunk c ?f = Ok (accept_chunk c ?f)"
    unfolding push_chunk_Ok f(4) assms(1) using assms(2,3) by blast
  have none: "pb_pending_parts (opened c ?f) = []" using f(1) by (simp add: opened_eq)
  have m: "map pt_uri (mf_preliminary_parts (pb_manifest (accept_chunk c ?f))) = [next_part_uri ?f]"
    unfolding accept_fields none by (simp add: new_part_def)
  have "mf_ended (pb_manifest (accept_chunk c ?f))" unfolding accept_fields by (rule f(3))
  from l [OF this] show ?thesis
    by (intro conjI exI [of _ "accept_chunk c ?f"] f(1,2) l [OF f(3)] p m)
qed

lemma unat_mult_small: "unat a * unat b < 2 ^ LENGTH('a) \<Longrightarrow> unat (a * b :: 'a::len word) = unat a * unat b"
  by (simp add: unat_word_ariths)

lemma unat_ucast_u64: "unat (ucast (x :: u32) :: u64) = unat x"
  using unsigned_less [of x, where 'a = nat] by (simp add: unsigned_ucast_eq take_bit_nat_eq_self)

lemma target_ticks:
  assumes "6 * (unat (td :: u32) * unat (ts :: u32)) < 2 ^ 64"
  shows "unat (ucast td * ucast ts :: u64) = unat td * unat ts"
    and "unat (4 * (ucast td * ucast ts) :: u64) = 4 * (unat td * unat ts)"
    and "unat (6 * (ucast td * ucast ts) :: u64) = 6 * (unat td * unat ts)"
proof -
  define T where "T = unat td * unat ts"
  have lt: "T < 2 ^ LENGTH(64)" "4 * T < 2 ^ LENGTH(64)" "6 * T < 2 ^ LENGTH(64)"
    using assms unfolding T_def [symmetric] by simp_all
  have td: "unat (ucast td * ucast ts :: u64) = T"
    unfolding T_def using unat_mult_small [of "ucast td :: u64" "ucast ts"] lt(1)
    unfolding unat_ucast_u64 T_def by blast
  show "unat (ucast td * ucast ts :: u64) = unat td * unat ts" using td unfolding T_def .
  have n: "unat (4 :: u64) = 4" "unat (6 :: u64) = 6" by simp_all
  show "unat (4 * (ucast td * ucast ts) :: u64) = 4 * (unat td * unat ts)"
    using unat_mult_small [of "4 :: u64" "ucast td * ucast ts"] lt(2) unfolding td n T_def [symmetric] by blast
  show "unat (6 * (ucast td * ucast ts) :: u64) = 6 * (unat td * unat ts)"
    using unat_mult_small [of "6 :: u64" "ucast td * ucast ts"] lt(3) unfolding td n T_def [symmetric] by blast
qed

text \<open>
  The number of segments a delta playlist skips is exact: nothing when the playlist is shorter than six
  target durations; otherwise behind every skipped segment more than the skip window and at least four
  target durations are left, and one segment more would break one of the two.
\<close>

theorem delta_skip_exact:
  assumes "can_skip_until (mf_server_control m) = Some (of_nat n)" and "mf_timescale m \<noteq> 0"
    and "ticks_of (mf_segments m) < 2 ^ 64" and "n * unat (mf_timescale m) < 2 ^ 64"
    and "6 * (unat (mf_target_duration_secs m) * unat (mf_timescale m)) < 2 ^ 64"
  shows "if ticks_of (mf_segments m) < 6 * (unat (mf_target_duration_secs m) * unat (mf_timescale m))
    then delta_skip_count m = 0
    else delta_skip_count m \<le> length (mf_segments m) \<and>
      (\<forall>k. 0 < k \<longrightarrow> k \<le> delta_skip_count m \<longrightarrow> may_skip (n * unat (mf_timescale m))
        (4 * (unat (mf_target_duration_secs m) * unat (mf_timescale m))) (mf_segments m) k) \<and>
      \<not> may_skip (n * unat (mf_timescale m)) (4 * (unat (mf_target_duration_secs m) * unat (mf_timescale m)))
        (mf_segments m) (Suc (delta_skip_count m))"
proof (cases "mf_segments m = []")
  case True
  have "delta_skip_count m = 0" using True by (simp add: delta_skip_count_def split: option.split)
  then show ?thesis using True by (simp only: may_skip_def drop_Nil ticks_of_simps) simp
next
  case False
  let ?ts = "ucast (mf_timescale m) :: u64" and ?T = "unat (mf_target_duration_secs m) * unat (mf_timescale m)"
  let ?td = "ucast (mf_target_duration_secs m) * ?ts"
  let ?total = "sum_list (map sg_duration_ticks (mf_segments m))"
  note td = target_ticks [OF assms(5)]
  have su: "unat (secs_to_ticks (of_nat n) ?ts) = n * unat (mf_timescale m)"
    using secs_to_ticks_whole [of n ?ts] assms(4) unfolding unat_ucast_u64 by blast
  have tot: "unat ?total = ticks_of (mf_segments m)" by (rule unat_total [OF assms(3)])
  have "?total < 6 * ?td \<longleftrightarrow> ticks_of (mf_segments m) < 6 * ?T" by (simp only: word_less_nat_alt td(3) tot)
  then have c: "delta_skip_count m = (if ticks_of (mf_segments m) < 6 * ?T then 0
      else skip_candidates ?total (secs_to_ticks (of_nat n) ?ts) (4 * ?td) 0 (mf_segments m))"
    using False assms(1,2) unfolding delta_skip_count_def Let_def by (simp only: option.case simp_thms if_False)
  have "unat (0 :: u64) + ticks_of (mf_segments m) = unat ?total" using tot by simp
  from skip_candidates_correct [OF this, of "secs_to_ticks (of_nat n) ?ts" "4 * ?td", unfolded su td(2)]
  show ?thesis unfolding c by (simp only: if_False if_True split: if_split) blast
qed

text \<open>The segments a playlist lists, and its media sequence tags.\<close>

definition listed_segments :: "playlist_line list \<Rightarrow> string list" where
  "listed_segments ls = concat (map (\<lambda>l. case l of ExtInf _ uri \<Rightarrow> [uri] | _ \<Rightarrow> []) ls)"

definition media_sequences :: "playlist_line list \<Rightarrow> u64 list" where
  "media_sequences ls = concat (map (\<lambda>l. case l of MediaSequence n \<Rightarrow> [n] | _ \<Rightarrow> []) ls)"

lemma line_lists [simp]:
  "listed_segments (xs @ ys) = listed_segments xs @ listed_segments ys"
  "media_sequences (xs @ ys) = media_sequences xs @ media_sequences ys"
  "listed_segments [] = []" "media_sequences [] = []"
  "listed_segments (map (part_line ts) ps) = []" "media_sequences (map (part_line ts) ps) = []"
  "listed_segments (map date_range_line drs) = []" "media_sequences (map date_range_line drs) = []"
  by (simp_all add: listed_segments_def media_sequences_def part_line_def date_range_line_def comp_def)

lemma segment_lines_lists:
  "listed_segments (concat (map (segment_lines ts) segs)) = map sg_uri segs"
  "media_sequences (concat (map (segment_lines ts) segs)) = []"
proof (induction segs)
  case (Cons s segs)
  { case 1 show ?case
      using Cons(1) by (cases "sg_program_date_time_millis s")
        (simp_all add: segment_lines_def, simp_all add: listed_segments_def part_line_def) }
  { case 2 show ?case
      using Cons(2) by (cases "sg_program_date_time_millis s")
        (simp_all add: segment_lines_def, simp_all add: media_sequences_def part_line_def) }
qed simp_all

lemma render_lists:
  "listed_segments (render_with_skip k m) = map sg_uri (drop k (mf_segments m))"
  "media_sequences (render_with_skip k m) = (case mf_segments m of [] \<Rightarrow> [] | s # _ \<Rightarrow> [sg_sequence s])"
proof -
  have d: "drop (min k (length xs)) xs = drop k xs" for xs :: "segment list" by (simp add: min_def)
  show "listed_segments (render_with_skip k m) = map sg_uri (drop k (mf_segments m))"
    unfolding render_with_skip_def Let_def line_lists segment_lines_lists d
    by (cases "mf_segments m"; cases "mf_preload_hint_uri m") (simp_all add: listed_segments_def)
  show "media_sequences (render_with_skip k m) = (case mf_segments m of [] \<Rightarrow> [] | s # _ \<Rightarrow> [sg_sequence s])"
    unfolding render_with_skip_def Let_def line_lists segment_lines_lists
    by (cases "mf_segments m"; cases "mf_preload_hint_uri m") (simp_all add: media_sequences_def)
qed

text \<open>
  A rendered playlist is consistent: the target duration it declares covers every segment, it lists
  exactly the segments that are not skipped, in order, and its media sequence tag stays that of the first
  segment however many a delta playlist skips.
\<close>

theorem rendered_playlist:
  assumes "mf_timescale m \<noteq> 0"
    and "\<forall>s\<in>set (mf_segments m). unat (sg_duration_ticks s) \<le> (2 ^ 32 - 1) * unat (mf_timescale m)"
  shows "TargetDuration (effective_target m) \<in> set (render_with_skip k m) \<and>
    (\<forall>s\<in>set (mf_segments m). unat (sg_duration_ticks s) \<le> unat (effective_target m) * unat (mf_timescale m)) \<and>
    listed_segments (render_with_skip k m) = map sg_uri (drop k (mf_segments m)) \<and>
    media_sequences (render_with_skip k m) = (case mf_segments m of [] \<Rightarrow> [] | s # _ \<Rightarrow> [sg_sequence s])"
proof -
  have "TargetDuration (effective_target m) \<in> set (render_with_skip k m)"
    by (simp add: render_with_skip_def Let_def)
  then show ?thesis using effective_target_covers [OF assms(1) _ assms(2)] render_lists by blast
qed

text \<open>Reading a quoted attribute value up to its closing quote.\<close>

fun read_quoted :: "string \<Rightarrow> (string \<times> string) option" where
  "read_quoted [] = None"
| "read_quoted (c # s) =
     (if c = CHR 0x22 then Some ([], s)
      else if c = CHR 0x0A \<or> c = CHR 0x0D then None
      else if c = CHR 0x5C then
        (case s of [] \<Rightarrow> None | e # s' \<Rightarrow> map_option (\<lambda>(v, rest). (e # v, rest)) (read_quoted s'))
      else map_option (\<lambda>(v, rest). (c # v, rest)) (read_quoted s))"

text \<open>
  No attribute value can break out of its quotes or its line: reading back an escaped value stops at the
  closing quote the renderer wrote, and gives the value without its line breaks.
\<close>

theorem escaped_attribute_reads_back:
  "read_quoted (escape_attr s @ CHR 0x22 # rest) = Some (filter (\<lambda>c. c \<noteq> CHR 0x0A \<and> c \<noteq> CHR 0x0D) s, rest)"
  by (induction s) auto

section \<open>Witnesses\<close>

text \<open>One segment of two seconds, pushed and closed.\<close>

definition two_seconds :: "u64 \<Rightarrow> cmaf_chunk" where
  "two_seconds dts = \<lparr>ck_track_id = ''0.mp4'', ck_payload = [], ck_dts = dts, ck_duration = 180000, ck_kind = Segment\<rparr>"

definition one_part :: playlist_builder where
  "one_part = accept_chunk (two_seconds 0) (playlist_builder_new playlist_builder_config_default)"

lemma one_part_state: "pb_config one_part = playlist_builder_config_default" "pb_part_index one_part = 1"
  "pb_next_sequence one_part = 0" "pb_pending_parts one_part \<noteq> []" "pb_last_dts one_part = Some 0"
  by (simp_all add: one_part_def accept_fields opened_eq two_seconds_def playlist_builder_new_def Let_def
      playlist_builder_config_default_def)

lemma below_max: "(0 :: u64) < - 1" "(0 :: u32) < - 1" "(1 :: u32) < - 1"
  by (simp_all add: word_less_nat_alt unsigned_minus_1_eq_mask mask_eq_exp_minus_1)

lemma one_segment_reachable:
  "playlist_step\<^sup>*\<^sup>* ([], playlist_builder_new playlist_builder_config_default) ([], close_pending_segment one_part)"
proof -
  let ?b = "playlist_builder_new playlist_builder_config_default"
  have 0: "pb_part_index ?b = 0" "pb_next_sequence ?b = 0" "pb_last_dts ?b = None"
    by (simp_all add: playlist_builder_new_def Let_def playlist_builder_config_default_def)
  have "push_chunk (two_seconds 0) ?b = Ok one_part"
    unfolding push_chunk_Ok one_part_def using 0 by (simp add: two_seconds_def)
  then have "playlist_step ([], ?b) ([], one_part)"
    using playlist_step.intros [of ?b "[]" "OpPush (two_seconds 0)"] 0 below_max by simp
  moreover have "playlist_step ([], one_part) ([], close_pending_segment one_part)"
    using playlist_step.intros [of one_part "[]" OpClose] one_part_state below_max by simp
  ultimately show ?thesis by simp
qed

lemma one_segment: "length (mf_segments (pb_manifest (close_pending_segment one_part))) = 1"
  "pb_next_sequence (close_pending_segment one_part) = 1"
  using one_part_state by (simp_all add: close_fields overflow_def playlist_builder_config_default_def)
    (simp add: one_part_def accept_fields opened_eq two_seconds_def playlist_builder_new_def Let_def)

theorem playlist_is_window_witness:
  "map (unat \<circ> sg_sequence) (mf_segments (pb_manifest (close_pending_segment one_part))) = [0]"
  using playlist_is_window [OF one_segment_reachable] one_segment by simp

theorem cache_in_step_witness:
  "distinct (pb_evicted_uris (close_pending_segment one_part) @ playlist_uris (close_pending_segment one_part))"
  using cache_in_step [OF one_segment_reachable] by simp

theorem finalize_not_final_witness:
  "\<exists>b'. push_chunk (two_seconds 180000) (finalize one_part) = Ok b' \<and> last (render (pb_manifest b')) = Endlist"
  using finalize_not_final [of one_part 0 "two_seconds 180000"] one_part_state
  by (auto simp: two_seconds_def)

text \<open>Ten segments of two seconds.\<close>

definition ten_segments :: manifest where
  "ten_segments = (pb_manifest (playlist_builder_new playlist_builder_config_default))\<lparr>mf_segments := replicate 10
     \<lparr>sg_sequence = 0, sg_uri = '''', sg_duration_ticks = 180000, sg_parts = [],
      sg_program_date_time_millis = None, sg_discontinuity = False\<rparr>\<rparr>"

lemma ten_segments_state: "can_skip_until (mf_server_control ten_segments) = Some (of_nat 12)"
  "mf_timescale ten_segments = 90000" "mf_target_duration_secs ten_segments = 2"
  "ticks_of (mf_segments ten_segments) = 1800000"
  by (simp_all add: ten_segments_def ticks_of_def sum_list_replicate playlist_builder_new_def Let_def
      playlist_builder_config_default_def)

theorem delta_skip_exact_witness:
  "delta_skip_count ten_segments \<le> length (mf_segments ten_segments) \<and>
   \<not> may_skip 1080000 720000 (mf_segments ten_segments) (Suc (delta_skip_count ten_segments))"
  using delta_skip_exact [of ten_segments 12] ten_segments_state by simp

theorem rendered_playlist_witness:
  "listed_segments (render_with_skip 3 ten_segments) = map sg_uri (drop 3 (mf_segments ten_segments))"
  using rendered_playlist [of ten_segments 3] ten_segments_state by (simp add: ten_segments_def)

end
