(* ===== verification/HlsServer.thy ===== *)
theory HlsServer
  imports HlsPlaylist
begin

text \<open>
  The rendition server of \<open>lvqr-hls/src/server.rs\<close>: the playlist builder with the byte cache that the
  playlist's URIs are served from.  Every method is one atomic step (the source holds the builder's lock
  for the builder's part and the cache's lock for the cache's part of it).  The codec strings read out of
  the init segment, the HTTP layer and the wait for a notification are left out.
\<close>

section \<open>The server\<close>

type_synonym byte_cache = "string \<rightharpoonup> bytes"

record hls_state =
  hs_builder :: playlist_builder
  hs_init_segment :: "bytes option"
  hs_cache :: byte_cache
  hs_target_duration_secs :: u32

definition hls_server_new :: "playlist_builder_config \<Rightarrow> hls_state" where
  "hls_server_new config = \<lparr>hs_builder = playlist_builder_new config, hs_init_segment = None,
     hs_cache = Map.empty, hs_target_duration_secs = pc_target_duration_secs config\<rparr>"

definition push_init :: "bytes \<Rightarrow> hls_state \<Rightarrow> hls_state" where
  "push_init bs st =
     (let was_initialized = (hs_init_segment st \<noteq> None);
          st = st\<lparr>hs_init_segment := Some bs\<rparr> in
      if was_initialized then st\<lparr>hs_builder := mark_discontinuity_pending (hs_builder st)\<rparr> else st)"

definition last_sequence :: "manifest \<Rightarrow> u64 option" where
  "last_sequence m = (if mf_segments m = [] then None else Some (sg_sequence (last (mf_segments m))))"

definition current_rendition_position :: "hls_state \<Rightarrow> (u64 \<times> u32 option) option" where
  "current_rendition_position st =
     (let m = pb_manifest (hs_builder st) in
      if mf_preliminary_parts m \<noteq> [] then
        let open_seq = (case last_sequence m of None \<Rightarrow> 0 | Some s \<Rightarrow> s + 1) in
        Some (open_seq, Some (of_nat (length (mf_preliminary_parts m) - 1)))
      else if mf_segments m \<noteq> [] then
        let seg = last (mf_segments m) in
        if sg_parts seg = [] then Some (sg_sequence seg, None)
        else Some (sg_sequence seg, Some (of_nat (length (sg_parts seg) - 1)))
      else None)"

definition collect_coalesce_work :: "manifest \<Rightarrow> u64 option \<Rightarrow> (string \<times> string list) list" where
  "collect_coalesce_work m prev_last_seq =
     map (\<lambda>seg. (sg_uri seg, map pt_uri (sg_parts seg)))
       (filter (\<lambda>seg. case prev_last_seq of Some prev \<Rightarrow> sg_sequence seg > prev | None \<Rightarrow> True) (mf_segments m))"

definition cached_bytes :: "byte_cache \<Rightarrow> string list \<Rightarrow> bytes" where
  "cached_bytes cache uris = concat (map (\<lambda>u. case cache u of None \<Rightarrow> [] | Some b \<Rightarrow> b) uris)"

fun coalesce_closed_segments :: "(string \<times> string list) list \<Rightarrow> byte_cache \<Rightarrow> byte_cache" where
  "coalesce_closed_segments [] cache = cache"
| "coalesce_closed_segments ((seg_uri, part_uris) # work) cache =
     coalesce_closed_segments work
       (if cache seg_uri \<noteq> None then cache
        else if length (cached_bytes cache part_uris) = 0 then cache
        else cache(seg_uri \<mapsto> cached_bytes cache part_uris))"

definition purge_evicted_uris :: "string list \<Rightarrow> byte_cache \<Rightarrow> byte_cache" where
  "purge_evicted_uris evicted cache = fold (\<lambda>uri cache. cache(uri := None)) evicted cache"

definition push_chunk_bytes :: "cmaf_chunk \<Rightarrow> bytes \<Rightarrow> hls_state \<Rightarrow> (unit, hls_error) outcome \<times> hls_state" where
  "push_chunk_bytes chunk body st =
     (let prev_last_seq = last_sequence (pb_manifest (hs_builder st)) in
      case push_chunk chunk (hs_builder st) of
        Err e \<Rightarrow> (Err e, st)
      | Panic \<Rightarrow> (Panic, st)
      | Ok builder \<Rightarrow>
          let parts = mf_preliminary_parts (pb_manifest builder);
              uri = (if parts = [] then [] else pt_uri (last parts));
              coalesce_work = collect_coalesce_work (pb_manifest builder) prev_last_seq;
              (evicted, builder) = drain_evicted_uris builder;
              cache = (if uri \<noteq> [] then (hs_cache st)(uri \<mapsto> prepend_cmaf_chunk_styp body) else hs_cache st) in
          (Ok (), st\<lparr>hs_builder := builder,
             hs_cache := purge_evicted_uris evicted (coalesce_closed_segments coalesce_work cache)\<rparr>))"

definition server_push_date_range :: "date_range \<Rightarrow> hls_state \<Rightarrow> hls_state" where
  "server_push_date_range dr st = st\<lparr>hs_builder := push_date_range dr (hs_builder st)\<rparr>"

text \<open>What \<open>close_pending_segment\<close> and \<open>finalize\<close> do behind the builder's method of that name.\<close>

definition settle :: "u64 option \<Rightarrow> playlist_builder \<Rightarrow> hls_state \<Rightarrow> hls_state" where
  "settle prev_last_seq builder st =
     (let coalesce_work = collect_coalesce_work (pb_manifest builder) prev_last_seq;
          (evicted, builder) = drain_evicted_uris builder in
      st\<lparr>hs_builder := builder,
         hs_cache := purge_evicted_uris evicted (coalesce_closed_segments coalesce_work (hs_cache st))\<rparr>)"

definition server_close_pending_segment :: "hls_state \<Rightarrow> hls_state" where
  "server_close_pending_segment st =
     settle (last_sequence (pb_manifest (hs_builder st))) (close_pending_segment (hs_builder st)) st"

definition server_finalize :: "hls_state \<Rightarrow> hls_state" where
  "server_finalize st =
     settle (last_sequence (pb_manifest (hs_builder st))) (finalize (hs_builder st)) st"

section \<open>Requests\<close>

text \<open>Whether a playlist request with \<open>_HLS_msn\<close> and \<open>_HLS_part\<close> is answered at once.\<close>

definition playlist_ready :: "u64 option \<Rightarrow> u32 option \<Rightarrow> manifest \<Rightarrow> bool" where
  "playlist_ready hls_msn hls_part m =
     (case hls_msn of
        None \<Rightarrow> True
      | Some target_msn \<Rightarrow>
          let closed = (\<exists>s\<in>set (mf_segments m). sg_sequence s \<ge> target_msn) in
          (case hls_part of
             None \<Rightarrow> closed
           | Some target_part \<Rightarrow>
               closed \<or>
               (let open_seq = (case last_sequence m of None \<Rightarrow> 0 | Some s \<Rightarrow> s + 1) in
                open_seq = target_msn \<and> of_nat (length (mf_preliminary_parts m)) > target_part)))"

definition playlist_response :: "bool \<Rightarrow> manifest \<Rightarrow> playlist_line list" where
  "playlist_response want_delta m =
     (let skip = (if want_delta then delta_skip_count m else 0) in render_with_skip skip m)"

definition render_uri :: "hls_state \<Rightarrow> string \<Rightarrow> bytes option" where
  "render_uri st uri = hs_cache st uri"

section \<open>Steps\<close>

datatype server_op =
    ServeInit bytes
  | ServePush cmaf_chunk bytes
  | ServeDateRange date_range
  | ServeClose
  | ServeFinalize

fun server_exec :: "server_op \<Rightarrow> hls_state \<Rightarrow> hls_state" where
  "server_exec (ServeInit bs) st = push_init bs st"
| "server_exec (ServePush c body) st = snd (push_chunk_bytes c body st)"
| "server_exec (ServeDateRange dr) st = server_push_date_range dr st"
| "server_exec ServeClose st = server_close_pending_segment st"
| "server_exec ServeFinalize st = server_finalize st"

inductive server_step :: "hls_state \<Rightarrow> hls_state \<Rightarrow> bool" where
  "pb_part_index (hs_builder st) < - 1 \<Longrightarrow> pb_next_sequence (hs_builder st) < - 1 \<Longrightarrow>
    server_step st (server_exec op st)"

inductive_cases server_stepE: "server_step s t"

section \<open>Lemmas: the cache\<close>

lemma purge_apply: "purge_evicted_uris us c u = (if u \<in> set us then None else c u)"
  unfolding purge_evicted_uris_def by (induction us arbitrary: c) auto

lemma cached_bytes_upd: "u \<notin> set us \<Longrightarrow> cached_bytes (c(u \<mapsto> x)) us = cached_bytes c us"
  by (induction us) (auto simp: cached_bytes_def)

lemma coalesce_upd:
  "u \<notin> fst ` set work \<Longrightarrow> \<forall>(s, ps)\<in>set work. u \<notin> set ps \<Longrightarrow>
    coalesce_closed_segments work (c(u \<mapsto> x)) = (coalesce_closed_segments work c)(u \<mapsto> x)"
  by (induction work c rule: coalesce_closed_segments.induct)
    (auto simp: cached_bytes_upd fun_upd_twist)

text \<open>The cache serves the playlist of the builder.\<close>

definition serves :: "playlist_builder \<Rightarrow> byte_cache \<Rightarrow> bool" where
  "serves b c \<longleftrightarrow> dom c = set (playlist_uris b) \<and> (\<forall>u x. c u = Some x \<longrightarrow> x \<noteq> []) \<and>
     (\<forall>s\<in>set (mf_segments (pb_manifest b)). c (sg_uri s) = Some (cached_bytes c (map pt_uri (sg_parts s))))"

lemma cached_bytes_cong: "(\<And>u. u \<in> set us \<Longrightarrow> c u = c' u) \<Longrightarrow> cached_bytes c us = cached_bytes c' us"
  by (simp add: cached_bytes_def cong: map_cong)

lemma cached_bytes_nonempty: "u \<in> set us \<Longrightarrow> c u = Some x \<Longrightarrow> x \<noteq> [] \<Longrightarrow> cached_bytes c us \<noteq> []"
  by (force simp: cached_bytes_def)

lemma segment_uris_in: "s \<in> set (mf_segments (pb_manifest b)) \<Longrightarrow>
    sg_uri s \<in> set (playlist_uris b) \<and> pt_uri ` set (sg_parts s) \<subseteq> set (playlist_uris b)"
  by (auto simp: playlist_uris_def segment_uris_def)

section \<open>Lemmas: a segment closes\<close>

text \<open>The part of the builder's state that the cache depends on.\<close>

definition drained :: "playlist_builder \<Rightarrow> playlist_builder" where
  "drained b = snd (drain_evicted_uris b)"

lemma drained_fields [simp]:
  "pb_config (drained b) = pb_config b" "pb_manifest (drained b) = pb_manifest b"
  "pb_pending_parts (drained b) = pb_pending_parts b" "pb_next_sequence (drained b) = pb_next_sequence b"
  "pb_part_index (drained b) = pb_part_index b" "pb_evicted_uris (drained b) = []"
  "playlist_uris (drained b) = playlist_uris b"
  by (simp_all add: drained_def drain_evicted_uris_def playlist_uris_def)

definition closed_window :: "playlist_builder \<Rightarrow> segment list" where
  "closed_window b = drop (overflow (pb_config b) (Suc (length (mf_segments (pb_manifest b)))))
     (mf_segments (pb_manifest b) @ [closed_segment b])"

lemma closed_segment_fields [simp]:
  "sg_uri (closed_segment b) = segment_uri (pc_uri_prefix (pb_config b)) (pb_next_sequence b)"
  "sg_parts (closed_segment b) = pb_pending_parts b" "sg_sequence (closed_segment b) = pb_next_sequence b"
  by (simp_all add: closed_segment_def)

lemma in_closed_window: "s \<in> set (closed_window b) \<Longrightarrow> s \<in> set (mf_segments (pb_manifest b)) \<or> s = closed_segment b"
  by (auto simp: closed_window_def dest: in_set_dropD)

text \<open>Only the segment that has just closed is coalesced, and only while it is in the window.\<close>

lemma work_of_close:
  assumes w: "window_ok cfg (unat (pb_next_sequence b)) (mf_segments (pb_manifest b))"
    and m: "mf_segments m = closed_window b" and p: "mf_segments (pb_manifest b) = mf_segments m0"
  shows "collect_coalesce_work m (last_sequence m0) = [] \<and> closed_segment b \<notin> set (closed_window b) \<or>
    collect_coalesce_work m (last_sequence m0) = [(sg_uri (closed_segment b), map pt_uri (pb_pending_parts b))] \<and>
    closed_segment b \<in> set (closed_window b)"
proof -
  let ?segs = "mf_segments (pb_manifest b)" and ?n = "unat (pb_next_sequence b)"
  let ?keep = "\<lambda>seg. case last_sequence m0 of Some prev \<Rightarrow> sg_sequence seg > prev | None \<Rightarrow> True"
  have seqs: "map (unat \<circ> sg_sequence) ?segs = [?n - length ?segs..<?n]" using w by (simp add: window_ok_def)
  have le: "unat (sg_sequence s) < ?n" if "s \<in> set ?segs" for s
  proof -
    have "unat (sg_sequence s) \<in> set (map (unat \<circ> sg_sequence) ?segs)" using that by auto
    then show ?thesis unfolding seqs by simp
  qed
  have old: "\<not> ?keep s" if s: "s \<in> set ?segs" for s
  proof -
    have ne: "?segs \<noteq> []" using s by auto
    have "unat (sg_sequence (last ?segs)) = last (map (unat \<circ> sg_sequence) ?segs)" using ne by (simp add: last_map)
    also have "\<dots> = ?n - 1" unfolding seqs using ne le [OF s] by simp
    finally have "unat (sg_sequence s) \<le> unat (sg_sequence (last ?segs))" using le [OF s] by simp
    then show ?thesis using ne p by (simp add: last_sequence_def word_le_nat_alt not_less)
  qed
  have new: "?keep (closed_segment b)"
  proof (cases "?segs = []")
    case False
    have "last ?segs \<in> set ?segs" using False by simp
    then show ?thesis using False p le by (simp add: last_sequence_def word_less_nat_alt)
  qed (simp add: last_sequence_def p [symmetric])
  have notin: "closed_segment b \<notin> set ?segs" using le by force
  consider "closed_window b = []" | "closed_window b = drop (overflow (pb_config b) (Suc (length ?segs))) ?segs @ [closed_segment b]"
    by (cases "overflow (pb_config b) (Suc (length ?segs)) \<le> length ?segs") (auto simp: closed_window_def)
  then show ?thesis
  proof cases
    case 1
    then show ?thesis by (simp add: collect_coalesce_work_def m)
  next
    case 2
    have "filter ?keep (drop k ?segs) = []" for k using old by (auto simp: filter_empty_conv dest: in_set_dropD)
    then have "filter ?keep (closed_window b) = [closed_segment b]" using 2 new by simp
    then show ?thesis using 2 by (simp add: collect_coalesce_work_def m)
  qed
qed

lemma serves_close:
  assumes ok: "ledger_ok (purged, b)" and good: "playlist_window cfg (purged, b)" and ev: "pb_evicted_uris b = []"
    and n: "pb_next_sequence b < - 1" and pend: "pb_pending_parts b \<noteq> []" and sv: "serves b c"
    and m0: "mf_segments (pb_manifest b) = mf_segments m0"
    and b': "mf_segments (pb_manifest b') = closed_window b" "pb_pending_parts b' = []"
      "pb_evicted_uris b' = pb_evicted_uris (close_pending_segment b)"
  shows "serves (drained b') (purge_evicted_uris (pb_evicted_uris b')
    (coalesce_closed_segments (collect_coalesce_work (pb_manifest b') (last_sequence m0)) c))"
proof -
  let ?seg = "closed_segment b" and ?ev = "pb_evicted_uris b'"
  define body where "body = cached_bytes c (map pt_uri (pb_pending_parts b))"
  have d: "dom c = set (playlist_uris b)" and ne: "\<And>u x. c u = Some x \<Longrightarrow> x \<noteq> []" using sv by (auto simp: serves_def)
  have l: "?ev @ playlist_uris b' = playlist_uris b @ [sg_uri ?seg]"
    using ledger_close [of "[]" b] pend ev b'
    by (simp add: ledger_def playlist_uris_def close_fields(2,9) [OF pend] closed_window_def)
  have dist: "distinct (?ev @ playlist_uris b')"
    using ledger_ok_close [OF ok n] b' by (simp add: ledger_ok_def ledger_def playlist_uris_def
        close_fields(2,9) [OF pend] closed_window_def)
  have fresh: "c (sg_uri ?seg) = None"
    using dist d unfolding l by (auto simp: domIff [symmetric] simp del: closed_segment_fields)
  obtain p ps where pp: "pb_pending_parts b = p # ps" using pend by (cases "pb_pending_parts b") auto
  then have "pt_uri p \<in> dom c" unfolding d by (simp add: playlist_uris_def)
  then obtain x where "c (pt_uri p) = Some x" by auto
  then have body_ne: "body \<noteq> []" unfolding body_def using ne pp by (intro cached_bytes_nonempty [of "pt_uri p"]) auto
  define c1 where "c1 = coalesce_closed_segments (collect_coalesce_work (pb_manifest b') (last_sequence m0)) c"
  have w: "window_ok cfg (unat (pb_next_sequence b)) (mf_segments (pb_manifest b))"
    using good by (simp add: playlist_window_def)
  have c1: "c1 = (if ?seg \<in> set (closed_window b) then c(sg_uri ?seg \<mapsto> body) else c)"
    using work_of_close [OF w b'(1) m0] fresh body_ne by (auto simp: c1_def body_def)
  define c2 where "c2 = purge_evicted_uris ?ev c1"
  have c2: "c2 u = (if u \<in> set ?ev then None else c1 u)" for u by (simp add: c2_def purge_apply)
  have agree: "c2 u = c u" if "u \<in> set (playlist_uris b)" "u \<in> set (playlist_uris b')" for u
  proof -
    have "u \<notin> set ?ev" "u \<noteq> sg_uri ?seg" using that dist dist [unfolded l] by auto
    then show ?thesis by (simp add: c2 c1)
  qed
  have "?seg \<in> set (closed_window b) \<or> sg_uri ?seg \<in> set ?ev"
  proof (rule disjCI)
    assume "sg_uri ?seg \<notin> set ?ev"
    then have "playlist_uris b' \<noteq> []" using l by (metis append_Nil2 in_set_conv_decomp)
    then have "closed_window b \<noteq> []" using b' by (auto simp: playlist_uris_def)
    then show "?seg \<in> set (closed_window b)"
      by (cases "overflow (pb_config b) (Suc (length (mf_segments (pb_manifest b)))) \<le> length (mf_segments (pb_manifest b))")
        (auto simp: closed_window_def)
  qed
  then have "dom c2 = (set (playlist_uris b) \<union> {sg_uri ?seg}) - set ?ev"
    using domD [of _ c] by (auto simp: c2 c1 d [symmetric] split: if_splits)
  also have "\<dots> = set (?ev @ playlist_uris b') - set ?ev" unfolding l by simp
  also have "\<dots> = set (playlist_uris b')" using dist by auto
  finally have dom: "dom c2 = set (playlist_uris b')" .
  have nonempty: "x \<noteq> []" if "c2 u = Some x" for u x
    using that ne body_ne by (auto simp: c2 c1 split: if_splits)
  have "c2 (sg_uri s) = Some (cached_bytes c2 (map pt_uri (sg_parts s)))" if s: "s \<in> set (closed_window b)" for s
  proof -
    have in': "sg_uri s \<in> set (playlist_uris b')" "pt_uri ` set (sg_parts s) \<subseteq> set (playlist_uris b')"
      using segment_uris_in [of s b'] s b'(1) by simp_all
    from in_closed_window [OF s] show ?thesis
    proof
      assume old: "s \<in> set (mf_segments (pb_manifest b))"
      note io = segment_uris_in [OF old]
      have "cached_bytes c2 (map pt_uri (sg_parts s)) = cached_bytes c (map pt_uri (sg_parts s))"
        by (rule cached_bytes_cong) (use io in' agree in auto)
      then show ?thesis using agree io in' old sv by (simp add: serves_def)
    next
      assume new: "s = ?seg"
      have "cached_bytes c2 (map pt_uri (pb_pending_parts b)) = body"
        unfolding body_def by (rule cached_bytes_cong) (use in' new agree in \<open>auto simp: playlist_uris_def\<close>)
      moreover have "sg_uri ?seg \<notin> set ?ev" using in'(1) new dist by auto
      ultimately show ?thesis using s new by (simp add: c2 c1)
    qed
  qed
  then show ?thesis
    unfolding c1_def [symmetric] c2_def [symmetric] serves_def using dom nonempty b'(1) by simp
qed

section \<open>Lemmas: a part arrives\<close>

lemma serves_part:
  assumes sv: "serves b c" and new: "pt_uri p \<notin> set (playlist_uris b)" and x: "x \<noteq> []"
    and b': "mf_segments (pb_manifest b') = mf_segments (pb_manifest b)" "pb_pending_parts b' = pb_pending_parts b @ [p]"
  shows "serves b' (c(pt_uri p \<mapsto> x))"
proof -
  have u: "playlist_uris b' = playlist_uris b @ [pt_uri p]" using b' by (simp add: playlist_uris_def)
  have "(c(pt_uri p \<mapsto> x)) (sg_uri s) = Some (cached_bytes (c(pt_uri p \<mapsto> x)) (map pt_uri (sg_parts s)))"
    if s: "s \<in> set (mf_segments (pb_manifest b))" for s
  proof -
    have "sg_uri s \<noteq> pt_uri p" "pt_uri p \<notin> set (map pt_uri (sg_parts s))"
      using segment_uris_in [OF s] new by auto
    then show ?thesis using sv s by (simp add: serves_def cached_bytes_upd)
  qed
  then show ?thesis using sv x b'(1) unfolding serves_def u by auto
qed

section \<open>The server's invariant\<close>

definition server_ok :: "playlist_builder_config \<Rightarrow> hls_state \<Rightarrow> bool" where
  "server_ok cfg st \<longleftrightarrow> (\<exists>purged. playlist_good cfg (purged, hs_builder st) \<and> ledger_ok (purged, hs_builder st)) \<and>
     pb_evicted_uris (hs_builder st) = [] \<and> serves (hs_builder st) (hs_cache st)"

lemma drained_exec: "playlist_exec OpDrain (purged, b) = (purged @ pb_evicted_uris b, drained b)"
  by (simp add: drained_def drain_evicted_uris_def)

lemma builder_settles:
  assumes "playlist_good cfg (purged, b)" "ledger_ok (purged, b)"
  shows "\<exists>purged'. playlist_good cfg (purged', drained b) \<and> ledger_ok (purged', drained b)"
proof -
  have "playlist_good cfg (playlist_exec OpDrain (purged, b))"
    using assms(1) by (auto simp: playlist_good_def playlist_window_def playlist_preview_def drain_evicted_uris_def
        next_part_uri_def)
  moreover have "ledger_ok (playlist_exec OpDrain (purged, b))"
    using assms(2) by (simp add: ledger_ok_def ledger_def playlist_uris_def announced_def drain_evicted_uris_def)
  ultimately show ?thesis unfolding drained_exec by blast
qed

lemma collect_no_close:
  assumes "window_ok cfg n (mf_segments m)"
  shows "collect_coalesce_work m (last_sequence m) = []"
proof (cases "mf_segments m = []")
  case False
  have seqs: "map (unat \<circ> sg_sequence) (mf_segments m) = [n - length (mf_segments m)..<n]"
    using assms by (simp add: window_ok_def)
  have n: "0 < n" using False assms by (cases n) (auto simp: window_ok_def)
  have "unat (sg_sequence s) \<le> unat (sg_sequence (last (mf_segments m)))" if "s \<in> set (mf_segments m)" for s
  proof -
    have "unat (sg_sequence s) \<in> set (map (unat \<circ> sg_sequence) (mf_segments m))" using that by auto
    moreover have "unat (sg_sequence (last (mf_segments m))) = last (map (unat \<circ> sg_sequence) (mf_segments m))"
      using False by (simp add: last_map)
    ultimately show ?thesis unfolding seqs using False n by auto
  qed
  then show ?thesis using False
    by (auto simp: collect_coalesce_work_def last_sequence_def filter_empty_conv word_le_nat_alt not_less)
qed (simp add: collect_coalesce_work_def last_sequence_def)

lemma serves_cong:
  "playlist_uris b = playlist_uris b' \<Longrightarrow> mf_segments (pb_manifest b) = mf_segments (pb_manifest b') \<Longrightarrow>
    serves b c \<Longrightarrow> serves b' c"
  by (simp add: serves_def)

lemma server_ok_finish:
  assumes "playlist_good cfg (playlist_exec op (purged, b))" "ledger_ok (playlist_exec op (purged, b))"
    and "playlist_exec op (purged, b) = (purged, b')" and "serves (drained b') c"
  shows "server_ok cfg (st\<lparr>hs_builder := drained b', hs_cache := c\<rparr>)"
  using builder_settles [of cfg purged b'] assms by (simp add: server_ok_def)

lemma settle_eq: "settle prev b st = st\<lparr>hs_builder := drained b,
    hs_cache := purge_evicted_uris (pb_evicted_uris b)
      (coalesce_closed_segments (collect_coalesce_work (pb_manifest b) prev) (hs_cache st))\<rparr>"
  by (simp add: settle_def drained_def drain_evicted_uris_def)

lemma push_chunk_bytes_eq:
  "push_chunk c (hs_builder st) = Ok b \<Longrightarrow> push_chunk_bytes c body st = (Ok (), st\<lparr>hs_builder := drained b,
    hs_cache := purge_evicted_uris (pb_evicted_uris b)
      (coalesce_closed_segments (collect_coalesce_work (pb_manifest b) (last_sequence (pb_manifest (hs_builder st))))
        ((hs_cache st)(next_part_uri (hs_builder st) \<mapsto> prepend_cmaf_chunk_styp body)))\<rparr>)"
proof -
  assume "push_chunk c (hs_builder st) = Ok b"
  moreover from this have "b = accept_chunk c (hs_builder st)" by (simp add: push_chunk_Ok)
  moreover have "next_part_uri (hs_builder st) \<noteq> []" by (simp add: next_part_uri_def)
  ultimately show ?thesis
    by (simp add: push_chunk_bytes_def Let_def drained_def drain_evicted_uris_def accept_fields new_part_def)
qed

lemma coalesce_away:
  assumes "u \<notin> set (playlist_uris b)"
  shows "coalesce_closed_segments (collect_coalesce_work (pb_manifest b) prev) (c(u \<mapsto> x)) =
    (coalesce_closed_segments (collect_coalesce_work (pb_manifest b) prev) c)(u \<mapsto> x)"
proof (rule coalesce_upd)
  have in': "sg_uri s \<noteq> u \<and> u \<notin> pt_uri ` set (sg_parts s)" if "s \<in> set (mf_segments (pb_manifest b))" for s
    using segment_uris_in [OF that] assms by auto
  show "u \<notin> fst ` set (collect_coalesce_work (pb_manifest b) prev)"
    by (auto simp: collect_coalesce_work_def dest!: in')
  show "\<forall>(s, ps)\<in>set (collect_coalesce_work (pb_manifest b) prev). u \<notin> set ps"
    by (auto simp: collect_coalesce_work_def dest!: in')
qed

lemma good_exec:
  "playlist_good cfg (purged, b) \<Longrightarrow> pb_next_sequence b < - 1 \<Longrightarrow> playlist_good cfg (playlist_exec op (purged, b))"
  unfolding playlist_good_def snd_conv by (intro conjI window_exec preview_exec) blast+

lemma server_ok_push:
  assumes ok: "server_ok cfg st" and i: "pb_part_index (hs_builder st) < - 1" and n: "pb_next_sequence (hs_builder st) < - 1"
  shows "server_ok cfg (snd (push_chunk_bytes c body st))"
proof (cases "push_chunk c (hs_builder st)")
  case (Ok b')
  let ?b = "hs_builder st" and ?x = "prepend_cmaf_chunk_styp body" and ?uri = "next_part_uri (hs_builder st)"
  let ?m = "pb_manifest (hs_builder st)"
  let ?i = "?b\<lparr>pb_last_dts := Some (ck_dts c), pb_part_index := pb_part_index ?b + 1\<rparr>"
  have b': "b' = accept_chunk c ?b" using Ok by (simp add: push_chunk_Ok)
  obtain purged where g: "playlist_good cfg (purged, ?b)" and l: "ledger_ok (purged, ?b)"
    and ev: "pb_evicted_uris ?b = []" and sv: "serves ?b (hs_cache st)" using ok by (auto simp: server_ok_def)
  have x: "?x \<noteq> []" by (simp add: prepend_cmaf_chunk_styp_def CMAF_CHUNK_STYP_BYTES_def)
  have step: "playlist_exec (OpPush c) (purged, ?b) = (purged, b')" using Ok by simp
  have inv: "playlist_good cfg (playlist_exec (OpPush c) (purged, ?b))" "ledger_ok (playlist_exec (OpPush c) (purged, ?b))"
    by (rule good_exec [OF g n], rule ledger_ok_exec [OF l i n])
  have new: "?uri \<notin> set (playlist_uris ?b)"
    using l next_not_announced [of ?b] by (auto simp: ledger_ok_def ledger_def)
  have w: "playlist_window cfg (purged, ?b)" using g by (simp add: playlist_good_def)
  have svi: "serves ?i (hs_cache st)" by (rule serves_cong [OF _ _ sv]) (simp_all add: playlist_uris_def)
  have "serves (drained b') (purge_evicted_uris (pb_evicted_uris b')
      (coalesce_closed_segments (collect_coalesce_work (pb_manifest b') (last_sequence ?m)) ((hs_cache st)(?uri \<mapsto> ?x))))"
  proof (cases "is_segment_start (ck_kind c) \<and> pb_pending_parts ?b \<noteq> []")
    case True
    define o' where "o' = opened c ?b"
    have o': "o' = close_pending_segment ?i" using True by (simp add: o'_def opened_eq)
    have pend: "pb_pending_parts ?i \<noteq> []" using True by simp
    have li: "ledger_ok (purged, ?i)"
      using l announced_index [OF i, of "Some (ck_dts c)"] by (auto simp: ledger_ok_def ledger_def playlist_uris_def)
    have wi: "playlist_window cfg (purged, ?i)" using w by (simp add: playlist_window_def)
    have oc: "mf_segments (pb_manifest o') = closed_window ?i" "pb_pending_parts o' = []"
      unfolding o' closed_window_def close_fields(2,9) [OF pend] by simp_all
    let ?work = "collect_coalesce_work (pb_manifest o') (last_sequence ?m)"
    have s: "serves (drained o') (purge_evicted_uris (pb_evicted_uris o') (coalesce_closed_segments ?work (hs_cache st)))"
      by (rule serves_close [OF li wi _ _ pend svi _ oc]) (use ev n o' in simp_all)
    have wk: "?work = collect_coalesce_work (pb_manifest b') (last_sequence ?m)" and e: "pb_evicted_uris b' = pb_evicted_uris o'"
      by (simp_all add: collect_coalesce_work_def b' accept_fields o'_def)
    have led: "pb_evicted_uris o' @ playlist_uris o' = playlist_uris ?b @ [segment_uri (pc_uri_prefix (pb_config ?b)) (pb_next_sequence ?b)]"
      using ledger_close [of "[]" ?i] pend ev unfolding o' by (simp add: ledger_def playlist_uris_def)
    have nu: "?uri \<noteq> segment_uri (pc_uri_prefix (pb_config ?b)) (pb_next_sequence ?b)"
      unfolding next_part_uri_eq by (rule part_not_segment)
    have far: "?uri \<notin> set (pb_evicted_uris o' @ playlist_uris o')"
      unfolding led using new nu by simp
    have "coalesce_closed_segments ?work ((hs_cache st)(?uri \<mapsto> ?x)) = (coalesce_closed_segments ?work (hs_cache st))(?uri \<mapsto> ?x)"
      by (rule coalesce_away) (use far in simp)
    moreover have "purge_evicted_uris (pb_evicted_uris o') (d(?uri \<mapsto> ?x)) = (purge_evicted_uris (pb_evicted_uris o') d)(?uri \<mapsto> ?x)" for d
      using far by (auto simp: purge_apply fun_eq_iff)
    moreover have "serves (drained b') ((purge_evicted_uris (pb_evicted_uris o') (coalesce_closed_segments ?work (hs_cache st)))(?uri \<mapsto> ?x))"
      using serves_part [OF s, of "new_part c ?b" ?x "drained b'"] far x oc
      by (simp add: new_part_def b' accept_fields o'_def)
    ultimately show ?thesis unfolding wk [symmetric] e by simp
  next
    case False
    then have o': "pb_pending_parts (opened c ?b) = pb_pending_parts ?b" "mf_segments (pb_manifest (opened c ?b)) = mf_segments ?m"
      "pb_evicted_uris (opened c ?b) = []"
      using ev by (auto simp: opened_eq)
    have "collect_coalesce_work (pb_manifest b') (last_sequence ?m) = collect_coalesce_work ?m (last_sequence ?m)"
      by (simp add: collect_coalesce_work_def b' accept_fields o')
    also have "\<dots> = []" using w collect_no_close by (auto simp: playlist_window_def)
    finally show ?thesis
      using serves_part [OF sv, of "new_part c ?b" ?x "drained b'"] new x o'
      by (simp add: new_part_def b' accept_fields purge_evicted_uris_def)
  qed
  then show ?thesis
    unfolding push_chunk_bytes_eq [OF Ok] snd_conv by (intro server_ok_finish [OF inv step])
qed (simp_all add: push_chunk_bytes_def ok)

text \<open>Closing and finalizing.\<close>

lemma server_ok_settle:
  assumes ok: "server_ok cfg st" and i: "pb_part_index (hs_builder st) < - 1" and n: "pb_next_sequence (hs_builder st) < - 1"
    and op: "playlist_exec op (purged, hs_builder st) = (purged, b')" "\<And>purged. playlist_exec op (purged, hs_builder st) = (purged, b')"
    and b': "mf_segments (pb_manifest b') = mf_segments (pb_manifest (close_pending_segment (hs_builder st)))"
      "pb_pending_parts b' = []" "pb_evicted_uris b' = pb_evicted_uris (close_pending_segment (hs_builder st))"
  shows "server_ok cfg (settle (last_sequence (pb_manifest (hs_builder st))) b' st)"
proof -
  let ?b = "hs_builder st"
  obtain purged where g: "playlist_good cfg (purged, ?b)" and l: "ledger_ok (purged, ?b)"
    and ev: "pb_evicted_uris ?b = []" and sv: "serves ?b (hs_cache st)" using ok by (auto simp: server_ok_def)
  have w: "playlist_window cfg (purged, ?b)" using g by (simp add: playlist_good_def)
  have "serves (drained b') (purge_evicted_uris (pb_evicted_uris b')
      (coalesce_closed_segments (collect_coalesce_work (pb_manifest b') (last_sequence (pb_manifest ?b))) (hs_cache st)))"
  proof (cases "pb_pending_parts ?b = []")
    case True
    then have b: "mf_segments (pb_manifest b') = mf_segments (pb_manifest ?b)" "pb_evicted_uris b' = []"
      using b' ev by simp_all
    then have "collect_coalesce_work (pb_manifest b') (last_sequence (pb_manifest ?b)) = []"
      using collect_no_close [of cfg _ "pb_manifest ?b"] w by (auto simp: playlist_window_def collect_coalesce_work_def)
    moreover have "serves (drained b') (hs_cache st)"
      by (rule serves_cong [OF _ _ sv]) (use b b'(2) True in \<open>simp_all add: playlist_uris_def\<close>)
    ultimately show ?thesis using b(2) by (simp add: purge_evicted_uris_def)
  next
    case False
    have "mf_segments (pb_manifest b') = closed_window ?b"
      unfolding b'(1) closed_window_def close_fields(9) [OF False] ..
    from serves_close [OF l w ev n False sv refl this b'(2,3)] show ?thesis .
  qed
  then show ?thesis
    unfolding settle_eq by (intro server_ok_finish [OF good_exec [OF g n, of op] ledger_ok_exec [OF l i n, of op] op(2)])
qed

lemma server_ok_exec:
  assumes ok: "server_ok cfg st" and i: "pb_part_index (hs_builder st) < - 1" and n: "pb_next_sequence (hs_builder st) < - 1"
  shows "server_ok cfg (server_exec op st)"
proof (cases op)
  case (ServePush c body)
  then show ?thesis using server_ok_push [OF assms] by simp
next
  case ServeClose
  have "server_ok cfg (settle (last_sequence (pb_manifest (hs_builder st))) (close_pending_segment (hs_builder st)) st)"
    by (rule server_ok_settle [OF assms, of OpClose]) (simp_all add: pending_closed)
  then show ?thesis using ServeClose by (simp add: server_close_pending_segment_def)
next
  case ServeFinalize
  have "server_ok cfg (settle (last_sequence (pb_manifest (hs_builder st))) (finalize (hs_builder st)) st)"
    by (rule server_ok_settle [OF assms, of OpFinalize])
      (simp_all add: finalize_fields, simp_all add: finalize_def Let_def)
  then show ?thesis using ServeFinalize by (simp add: server_finalize_def)
next
  case (ServeInit bs)
  then show ?thesis
    using ok by (auto simp: push_init_def Let_def server_ok_def playlist_good_def playlist_window_def
        playlist_preview_def mark_discontinuity_pending_def next_part_uri_def ledger_ok_def ledger_def playlist_uris_def
        announced_def serves_def)
next
  case (ServeDateRange dr)
  then show ?thesis
    using ok by (auto simp: server_push_date_range_def push_date_range_def Let_def server_ok_def playlist_good_def
        playlist_window_def playlist_preview_def next_part_uri_def ledger_ok_def ledger_def playlist_uris_def
        announced_def serves_def)
qed

interpretation server: step_invariant "hls_server_new cfg" server_step "server_ok cfg" for cfg
proof
  have "playlist_good cfg ([], playlist_builder_new cfg)" by (rule playlist.inv_start)
  moreover have "ledger_ok ([], playlist_builder_new cfg)" by (rule cache.inv_start)
  moreover have "serves (playlist_builder_new cfg) Map.empty"
    by (simp add: serves_def playlist_uris_def playlist_builder_new_def Let_def)
  ultimately show "server_ok cfg (hls_server_new cfg)"
    by (auto simp: server_ok_def hls_server_new_def) (simp add: playlist_builder_new_def Let_def)
next
  fix s t assume "server_ok cfg s" and "server_step s t"
  then show "server_ok cfg t" by (auto elim!: server_stepE intro: server_ok_exec)
qed

section \<open>Properties\<close>


text \<open>
  The position a rendition reports to its siblings can be requested at once, and while a segment is open
  behind a closed one it is the sequence number of that segment and the index of its newest part.
\<close>

theorem reported_position_is_ready:
  assumes "server_step\<^sup>*\<^sup>* (hls_server_new cfg) st"
    and "length (mf_preliminary_parts (pb_manifest (hs_builder st))) < 2 ^ 32"
    and "current_rendition_position st = Some (msn, part)"
  shows "playlist_ready (Some msn) part (pb_manifest (hs_builder st)) \<and>
    (mf_segments (pb_manifest (hs_builder st)) \<noteq> [] \<longrightarrow> mf_preliminary_parts (pb_manifest (hs_builder st)) \<noteq> [] \<longrightarrow>
      msn = pb_next_sequence (hs_builder st) \<and>
      part = Some (of_nat (length (mf_preliminary_parts (pb_manifest (hs_builder st)))) - 1))"
proof -
  let ?m = "pb_manifest (hs_builder st)" and ?n = "unat (pb_next_sequence (hs_builder st))"
  obtain purged where "playlist_good cfg (purged, hs_builder st)"
    using server.inv_reachable [OF assms(1)] by (auto simp: server_ok_def)
  then have w: "window_ok cfg ?n (mf_segments ?m)" by (simp add: playlist_good_def playlist_window_def)
  have seq: "sg_sequence (last (mf_segments ?m)) + 1 = pb_next_sequence (hs_builder st)" if ne: "mf_segments ?m \<noteq> []"
  proof -
    have n: "0 < ?n" using ne w by (cases ?n) (auto simp: window_ok_def)
    have "unat (sg_sequence (last (mf_segments ?m))) = last (map (unat \<circ> sg_sequence) (mf_segments ?m))"
      using ne by (simp add: last_map)
    also have "\<dots> = ?n - 1" using w ne n by (simp add: window_ok_def)
    finally have "sg_sequence (last (mf_segments ?m)) = pb_next_sequence (hs_builder st) - 1"
      using n by (metis less_irrefl unat_minus_one unat_0 word_unat_eq_iff)
    then show ?thesis by simp
  qed
  show ?thesis
  proof (cases "mf_preliminary_parts ?m = []")
    case True
    then show ?thesis using assms(3)
      by (auto simp: current_rendition_position_def playlist_ready_def Let_def split: if_splits intro!: bexI [of _ "last (mf_segments ?m)"])
  next
    case False
    then have len: "(of_nat (length (mf_preliminary_parts ?m) - 1) :: u32) < of_nat (length (mf_preliminary_parts ?m))"
      using assms(2) by (simp add: word_less_nat_alt unat_of_nat_id)
    have "of_nat (length (mf_preliminary_parts ?m) - 1) = (of_nat (length (mf_preliminary_parts ?m)) - 1 :: u32)"
      using False by (simp add: of_nat_diff Suc_leI)
    then show ?thesis
      using False assms(3) seq len
      by (auto simp: current_rendition_position_def playlist_ready_def Let_def last_sequence_def)
  qed
qed

section \<open>Witnesses\<close>

text \<open>A server that has got one chunk.\<close>

definition one_chunk :: hls_state where
  "one_chunk = server_exec (ServePush (two_seconds 0) [1, 2, 3]) (hls_server_new playlist_builder_config_default)"

lemma one_chunk_reachable: "server_step\<^sup>*\<^sup>* (hls_server_new playlist_builder_config_default) one_chunk"
proof -
  have "server_step (hls_server_new playlist_builder_config_default) one_chunk"
    unfolding one_chunk_def
    by (rule server_step.intros) (simp_all add: hls_server_new_def playlist_builder_new_def Let_def
        playlist_builder_config_default_def below_max)
  then show ?thesis by simp
qed

lemma one_chunk_builder: "hs_builder one_chunk = drained one_part"
proof -
  let ?st = "hls_server_new playlist_builder_config_default"
  have "push_chunk (two_seconds 0) (hs_builder ?st) = Ok one_part"
    unfolding push_chunk_Ok one_part_def
    by (simp add: hls_server_new_def two_seconds_def playlist_builder_new_def Let_def)
  from push_chunk_bytes_eq [OF this] show ?thesis by (simp add: one_chunk_def)
qed

lemma one_part_manifest: "mf_segments (pb_manifest one_part) = []"
  "length (mf_preliminary_parts (pb_manifest one_part)) = 1"
  by (simp_all add: one_part_def accept_fields opened_eq two_seconds_def playlist_builder_new_def Let_def)


theorem reported_position_is_ready_witness:
  "playlist_ready (Some 0) (Some 0) (pb_manifest one_part)"
proof -
  have "mf_preliminary_parts (pb_manifest one_part) \<noteq> []" using one_part_manifest(2) by auto
  then have "current_rendition_position one_chunk = Some (0, Some 0)"
    using one_chunk_builder one_part_manifest
    by (simp add: current_rendition_position_def last_sequence_def Let_def)
  then show ?thesis
    using reported_position_is_ready [OF one_chunk_reachable, of 0 "Some 0"] one_chunk_builder one_part_manifest by simp
qed

end
