(* ===== verification/HashMap.thy ===== *)
theory HashMap
  imports Main "HOL-Library.AList" "HOL-Library.Multiset"
begin

text \<open>
  The standard library's \<open>HashMap\<close>: an association list with distinct keys for its contents, and a function
  \<open>order\<close> for the order in which its iterators visit the entries, of which the library only promises
  that it is a permutation.  Definitions that iterate take the order as an argument, and a property of
  such code holds for every order.
\<close>

type_synonym ('k, 'v) hash_map = "('k \<times> 'v) list"
type_synonym ('k, 'v) hash_order = "('k \<times> 'v) list \<Rightarrow> ('k \<times> 'v) list"

definition order_ok :: "('k, 'v) hash_order \<Rightarrow> bool" where
  "order_ok order \<longleftrightarrow> (\<forall>m. mset (order m) = mset m)"

definition hm_insert :: "'k \<Rightarrow> 'v \<Rightarrow> ('k, 'v) hash_map \<Rightarrow> ('k, 'v) hash_map" where
  "hm_insert k v m = AList.update k v m"

definition hm_remove :: "'k \<Rightarrow> ('k, 'v) hash_map \<Rightarrow> ('k, 'v) hash_map" where
  "hm_remove k m = AList.delete k m"

abbreviation hm_ok :: "('k, 'v) hash_map \<Rightarrow> bool" where
  "hm_ok m \<equiv> distinct (map fst m)"

lemma hm_ok_insert [simp]: "hm_ok m \<Longrightarrow> hm_ok (hm_insert k v m)"
  by (simp add: hm_insert_def distinct_update)

lemma hm_ok_remove [simp]: "hm_ok m \<Longrightarrow> hm_ok (hm_remove k m)"
  by (simp add: hm_remove_def distinct_delete)

lemma map_of_hm_insert [simp]: "map_of (hm_insert k v m) = (map_of m)(k \<mapsto> v)"
  by (simp add: hm_insert_def update_conv')

lemma map_of_hm_remove [simp]: "map_of (hm_remove k m) = (map_of m)(k := None)"
  by (simp add: hm_remove_def delete_conv')

lemma order_set: "order_ok order \<Longrightarrow> set (order m) = set m"
  unfolding order_ok_def by (metis set_mset_mset)

lemma order_id [simp]: "order_ok (\<lambda>m. m)" and order_rev [simp]: "order_ok rev"
  by (simp_all add: order_ok_def)

text \<open>An iterator search with one possible hit does not depend on the order.\<close>

lemma find_unique:
  assumes "x \<in> set xs" and "P x" and "\<And>y. y \<in> set xs \<Longrightarrow> P y \<Longrightarrow> y = x"
  shows "find P xs = Some x"
proof (cases "find P xs")
  case None
  then show ?thesis using assms(1,2) by (auto simp: find_None_iff)
next
  case (Some y)
  then have "P y" "y \<in> set xs" by (auto simp: find_Some_iff)
  then show ?thesis using Some assms(3) by blast
qed

lemma find_SomeD: "find P xs = Some x \<Longrightarrow> x \<in> set xs \<and> P x"
  by (auto simp: find_Some_iff)

end
