(* ===== verification/RtspProto.thy ===== *)
theory RtspProto
  imports Ustr HashMap RtpWire
begin

text \<open>
  The RTSP/1.0 message layer of \<open>lvqr-rtsp/src/proto.rs\<close> and the receive loop of \<open>server.rs\<close>: methods,
  headers, the request parser, responses and the Transport header.  A header map is a \<open>HashMap\<close>, so what
  iterates over it takes the iteration order as an argument.  A \<open>usize\<close> has 64 bits here, because the
  parser adds a client-controlled number to an offset.
\<close>

section \<open>Methods\<close>

datatype rtsp_method = Options | Describe | Announce | Setup | Play | Pause | RtspRecord | Teardown
  | GetParameter | SetParameter

definition method_parse :: "ustr \<Rightarrow> rtsp_method option" where
  "method_parse s =
     (if s = ustr_of ''OPTIONS'' then Some Options
      else if s = ustr_of ''DESCRIBE'' then Some Describe
      else if s = ustr_of ''ANNOUNCE'' then Some Announce
      else if s = ustr_of ''SETUP'' then Some Setup
      else if s = ustr_of ''PLAY'' then Some Play
      else if s = ustr_of ''PAUSE'' then Some Pause
      else if s = ustr_of ''RECORD'' then Some RtspRecord
      else if s = ustr_of ''TEARDOWN'' then Some Teardown
      else if s = ustr_of ''GET_PARAMETER'' then Some GetParameter
      else if s = ustr_of ''SET_PARAMETER'' then Some SetParameter
      else None)"

primrec method_as_str :: "rtsp_method \<Rightarrow> ustr" where
  "method_as_str Options = ustr_of ''OPTIONS''"
| "method_as_str Describe = ustr_of ''DESCRIBE''"
| "method_as_str Announce = ustr_of ''ANNOUNCE''"
| "method_as_str Setup = ustr_of ''SETUP''"
| "method_as_str Play = ustr_of ''PLAY''"
| "method_as_str Pause = ustr_of ''PAUSE''"
| "method_as_str RtspRecord = ustr_of ''RECORD''"
| "method_as_str Teardown = ustr_of ''TEARDOWN''"
| "method_as_str GetParameter = ustr_of ''GET_PARAMETER''"
| "method_as_str SetParameter = ustr_of ''SET_PARAMETER''"

section \<open>Headers and messages\<close>

type_synonym headers = "(ustr, ustr) hash_map"
type_synonym headers_order = "(ustr, ustr) hash_order"

definition headers_get :: "headers_order \<Rightarrow> headers \<Rightarrow> ustr \<Rightarrow> ustr option" where
  "headers_get order hs key =
     map_option snd (find (\<lambda>(k, v). to_ascii_lowercase k = to_ascii_lowercase key) (order hs))"

definition headers_insert :: "ustr \<Rightarrow> ustr \<Rightarrow> headers \<Rightarrow> headers" where
  "headers_insert key v hs = hm_insert key v hs"

datatype rtsp_version = V1_0

definition version_str :: "rtsp_version \<Rightarrow> ustr" where
  "version_str v = ustr_of ''RTSP/1.0''"

record request =
  rq_method :: rtsp_method
  rq_uri :: ustr
  rq_version :: rtsp_version
  rq_headers :: headers
  rq_body :: bytes

definition cseq :: "headers_order \<Rightarrow> request \<Rightarrow> u32 option" where
  "cseq order r = (case headers_get order (rq_headers r) (ustr_of ''CSeq'') of None \<Rightarrow> None
     | Some v \<Rightarrow> map_option of_nat (parse_uint (2 ^ 32) v))"

definition session_id :: "headers_order \<Rightarrow> request \<Rightarrow> ustr option" where
  "session_id order r = map_option (\<lambda>v. str_trim (case str_split 59 v of p # _ \<Rightarrow> p | [] \<Rightarrow> v))
     (headers_get order (rq_headers r) (ustr_of ''Session''))"

record response =
  rp_version :: rtsp_version
  rp_status :: u16
  rp_reason :: ustr
  rp_headers :: headers
  rp_body :: bytes

definition response_new :: "u16 \<Rightarrow> ustr \<Rightarrow> response" where
  "response_new status reason =
     \<lparr>rp_version = V1_0, rp_status = status, rp_reason = reason, rp_headers = [], rp_body = []\<rparr>"

definition response_ok :: response where
  "response_ok = response_new 200 (ustr_of ''OK'')"

definition response_method_not_allowed :: response where
  "response_method_not_allowed = response_new 405 (ustr_of ''Method Not Allowed'')"

definition response_bad_request :: response where
  "response_bad_request = response_new 400 (ustr_of ''Bad Request'')"

definition response_session_not_found :: response where
  "response_session_not_found = response_new 454 (ustr_of ''Session Not Found'')"

definition response_unauthorized :: response where
  "response_unauthorized = response_new 401 (ustr_of ''Unauthorized'')"

definition response_unsupported_media_type :: response where
  "response_unsupported_media_type = response_new 415 (ustr_of ''Unsupported Media Type'')"

definition with_header :: "ustr \<Rightarrow> ustr \<Rightarrow> response \<Rightarrow> response" where
  "with_header key v r = r\<lparr>rp_headers := headers_insert key v (rp_headers r)\<rparr>"

definition with_cseq :: "u32 \<Rightarrow> response \<Rightarrow> response" where
  "with_cseq c r = with_header (ustr_of ''CSeq'') (nat_str (unat c)) r"

definition with_body :: "ustr \<Rightarrow> bytes \<Rightarrow> response \<Rightarrow> response" where
  "with_body content_type body r =
     r\<lparr>rp_headers := headers_insert (ustr_of ''Content-Type'') content_type
         (headers_insert (ustr_of ''Content-Length'') (nat_str (length body)) (rp_headers r)),
       rp_body := body\<rparr>"

definition response_found :: "ustr \<Rightarrow> response" where
  "response_found location =
     with_header (ustr_of ''Location'') location (response_new 302 (ustr_of ''Moved Temporarily''))"

definition serialize :: "headers_order \<Rightarrow> response \<Rightarrow> bytes" where
  "serialize order r =
     str_bytes (version_str (rp_version r) @ 32 # nat_str (unat (rp_status r)) @ 32 # rp_reason r @ [13, 10]) @
     concat (map (\<lambda>(k, v). str_bytes k @ str_bytes (ustr_of '': '') @ str_bytes v @ str_bytes [13, 10])
       (order (rp_headers r))) @
     str_bytes [13, 10] @ rp_body r"

section \<open>The request parser\<close>

datatype parse_error = Incomplete | InvalidRequestLine | UnknownMethod ustr | UnsupportedVersion
  | MalformedHeader | BodyTruncated

fun parse_headers :: "ustr list \<Rightarrow> headers \<Rightarrow> (headers, parse_error) outcome" where
  "parse_headers [] hs = Ok hs"
| "parse_headers (line # ls) hs = (case str_split_once 58 line of
     None \<Rightarrow> Err MalformedHeader
   | Some (key, v) \<Rightarrow> parse_headers ls (headers_insert (str_trim key) (str_trim v) hs))"

definition content_length :: "headers_order \<Rightarrow> headers \<Rightarrow> nat" where
  "content_length order hs = (case headers_get order hs (ustr_of ''Content-Length'') of None \<Rightarrow> 0
     | Some v \<Rightarrow> (case parse_uint (2 ^ 64) v of None \<Rightarrow> 0 | Some n \<Rightarrow> n))"

definition parse_request :: "headers_order \<Rightarrow> bytes \<Rightarrow> (request \<times> nat, parse_error) outcome" where
  "parse_request order buf =
     (case from_utf8 buf of None \<Rightarrow> Err InvalidRequestLine | Some text \<Rightarrow>
      (case str_find [13, 10, 13, 10] text of None \<Rightarrow> Err Incomplete | Some (header_section, _) \<Rightarrow>
       (case str_lines header_section of [] \<Rightarrow> Err InvalidRequestLine | request_line # ls \<Rightarrow>
        (case split_whitespace request_line of
           method_str # uri # version # _ \<Rightarrow>
             (case method_parse method_str of None \<Rightarrow> Err (UnknownMethod method_str) | Some method \<Rightarrow>
              if version \<noteq> ustr_of ''RTSP/1.0'' then Err UnsupportedVersion
              else obind (parse_headers ls []) (\<lambda>hs.
                let body_start = str_len header_section + 4;
                    end_of_body = (body_start + content_length order hs) mod 2 ^ 64 in
                if length buf < end_of_body then Err Incomplete
                else obind (slice buf body_start end_of_body) (\<lambda>body.
                  Ok (\<lparr>rq_method = method, rq_uri = uri, rq_version = V1_0, rq_headers = hs, rq_body = body\<rparr>,
                      end_of_body))))
         | _ \<Rightarrow> Err InvalidRequestLine))))"

section \<open>The Transport header\<close>

record transport_spec =
  ts_protocol :: ustr
  ts_unicast :: bool
  ts_interleaved :: "(u8 \<times> u8) option"
  ts_client_port :: "(u16 \<times> u16) option"

definition parse_range :: "nat \<Rightarrow> ustr \<Rightarrow> (nat \<times> nat) option option" where
  "parse_range bound rest = (case str_split_once 45 rest of None \<Rightarrow> None
     | Some (a, b) \<Rightarrow> Some (case (parse_uint bound a, parse_uint bound b) of
         (Some x, Some y) \<Rightarrow> Some (x, y) | _ \<Rightarrow> None))"

definition transport_part :: "transport_spec \<Rightarrow> ustr \<Rightarrow> transport_spec" where
  "transport_part spec part =
     (let part = str_trim part in
      if contains_str (ustr_of ''RTP/'') part then spec\<lparr>ts_protocol := part\<rparr>
      else if part = ustr_of ''unicast'' then spec\<lparr>ts_unicast := True\<rparr>
      else case strip_prefix (ustr_of ''interleaved='') part of
        Some rest \<Rightarrow> (case parse_range (2 ^ 8) rest of None \<Rightarrow> spec
          | Some r \<Rightarrow> spec\<lparr>ts_interleaved := map_option (\<lambda>(a, b). (of_nat a, of_nat b)) r\<rparr>)
      | None \<Rightarrow> (case strip_prefix (ustr_of ''client_port='') part of
          Some rest \<Rightarrow> (case parse_range (2 ^ 16) rest of None \<Rightarrow> spec
            | Some r \<Rightarrow> spec\<lparr>ts_client_port := map_option (\<lambda>(a, b). (of_nat a, of_nat b)) r\<rparr>)
        | None \<Rightarrow> spec))"

definition parse_transport :: "ustr \<Rightarrow> transport_spec" where
  "parse_transport v = foldl transport_part
     \<lparr>ts_protocol = [], ts_unicast = False, ts_interleaved = None, ts_client_port = None\<rparr> (str_split 59 v)"

section \<open>Lemmas: methods and headers\<close>

lemma method_parse_as_str [simp]: "method_parse (method_as_str m) = Some m"
  by (cases m) (simp_all add: method_parse_def ustr_of_def)

lemma method_parse_Some: "method_parse s = Some m \<longleftrightarrow> s = method_as_str m"
proof
  assume "method_parse s = Some m"
  then show "s = method_as_str m" by (cases m) (simp_all add: method_parse_def split: if_splits)
qed simp

lemma method_as_str_plain: "method_as_str m \<noteq> [] \<and> list_all (\<lambda>c. \<not> is_whitespace c \<and> c < 0x80) (method_as_str m)"
  by (cases m) (simp_all add: ustr_of_def is_whitespace_def)

text \<open>Header names are unique up to letter case; then a lookup does not depend on the iteration order.\<close>

definition names_unique :: "headers \<Rightarrow> bool" where
  "names_unique hs \<longleftrightarrow> distinct (map (\<lambda>h. to_ascii_lowercase (fst h)) hs)"

lemma names_uniqueD:
  "names_unique hs \<Longrightarrow> (k, v) \<in> set hs \<Longrightarrow> (k', v') \<in> set hs \<Longrightarrow>
    to_ascii_lowercase k = to_ascii_lowercase k' \<Longrightarrow> (k, v) = (k', v')"
  unfolding names_unique_def distinct_map by (metis fst_conv inj_onD)

lemma names_unique_keys: "names_unique hs \<Longrightarrow> hm_ok hs"
proof -
  assume "names_unique hs"
  then have "distinct (map to_ascii_lowercase (map fst hs))" by (simp add: names_unique_def comp_def)
  then show "hm_ok hs" unfolding distinct_map [of to_ascii_lowercase] by blast
qed

lemma headers_get_present:
  assumes "order_ok order" and "names_unique hs" and "(k, v) \<in> set hs"
    and "to_ascii_lowercase k = to_ascii_lowercase key"
  shows "headers_get order hs key = Some v"
proof -
  have "find (\<lambda>(k, v). to_ascii_lowercase k = to_ascii_lowercase key) (order hs) = Some (k, v)"
  proof (rule find_unique)
    show "(k, v) \<in> set (order hs)" using assms(1,3) by (simp add: order_set)
    show "y = (k, v)" if y: "y \<in> set (order hs)"
      and p: "case y of (k, v) \<Rightarrow> to_ascii_lowercase k = to_ascii_lowercase key" for y
    proof -
      obtain k' v' where y': "y = (k', v')" by force
      then have "(k', v') \<in> set hs" using y assms(1) by (simp add: order_set)
      moreover have "to_ascii_lowercase k' = to_ascii_lowercase k" using p y' assms(4) by simp
      ultimately show ?thesis using names_uniqueD [OF assms(2) _ assms(3)] y' by blast
    qed
  qed (use assms(4) in simp)
  then show ?thesis by (simp add: headers_get_def)
qed

lemma headers_get_absent:
  assumes "order_ok order" and "\<And>k v. (k, v) \<in> set hs \<Longrightarrow> to_ascii_lowercase k \<noteq> to_ascii_lowercase key"
  shows "headers_get order hs key = None"
  using assms by (auto simp: headers_get_def find_None_iff order_set)

text \<open>Header lines read back in order.\<close>

definition header_line :: "ustr \<times> ustr \<Rightarrow> ustr" where
  "header_line h = fst h @ 58 # 32 # snd h"

definition header_ok :: "ustr \<times> ustr \<Rightarrow> bool" where
  "header_ok h \<longleftrightarrow> list_all scalar (fst h) \<and> list_all scalar (snd h) \<and> trimmed (fst h) \<and> trimmed (snd h) \<and>
     58 \<notin> set (fst h) \<and> 10 \<notin> set (fst h) \<and> 13 \<notin> set (fst h) \<and> 10 \<notin> set (snd h) \<and> 13 \<notin> set (snd h)"

lemma header_line_plain: "header_ok h \<Longrightarrow> plain_line (header_line h)"
  by (auto simp: header_ok_def header_line_def plain_line_def)

lemma hm_insert_fresh: "k \<notin> fst ` set m \<Longrightarrow> hm_insert k v m = m @ [(k, v)]"
  by (simp add: hm_insert_def update_nonempty) (induction m, auto)

lemma parse_headers_lines:
  "list_all header_ok hs \<Longrightarrow> distinct (map fst (acc @ hs)) \<Longrightarrow>
    parse_headers (map header_line hs) acc = Ok (acc @ hs)"
proof (induction hs arbitrary: acc)
  case (Cons h hs)
  obtain k v where h: "h = (k, v)" by force
  have "str_split_once 58 (header_line h) = Some (k, 32 # v)"
    using Cons.prems(1) h by (simp add: header_line_def header_ok_def split_once_sep)
  moreover have "str_trim k = k" "str_trim (32 # v) = v"
    using Cons.prems(1) h by (simp_all add: header_ok_def str_trim_space)
  moreover have "k \<notin> fst ` set acc" using Cons.prems(2) h by auto
  moreover have "parse_headers (map header_line hs) (acc @ [h]) = Ok ((acc @ [h]) @ hs)"
    using Cons.prems by (intro Cons.IH) auto
  ultimately show ?case by (simp add: headers_insert_def hm_insert_fresh h)
qed simp

section \<open>Lemmas: the request parser\<close>

text \<open>A request as a client writes it.\<close>

definition request_line :: "request \<Rightarrow> ustr" where
  "request_line r = method_as_str (rq_method r) @ 32 # rq_uri r @ 32 # version_str (rq_version r)"

definition request_lines :: "request \<Rightarrow> ustr list" where
  "request_lines r = request_line r # map header_line (rq_headers r)"

definition request_head :: "request \<Rightarrow> ustr" where
  "request_head r = crlf_lines (butlast (request_lines r)) @ last (request_lines r)"

definition write_request :: "request \<Rightarrow> bytes" where
  "write_request r = str_bytes (request_head r @ [13, 10, 13, 10]) @ rq_body r"

definition request_ok :: "request \<Rightarrow> bool" where
  "request_ok r \<longleftrightarrow> rq_uri r \<noteq> [] \<and> list_all (\<lambda>c. scalar c \<and> \<not> is_whitespace c) (rq_uri r) \<and>
     list_all header_ok (rq_headers r) \<and> names_unique (rq_headers r) \<and>
     (if \<exists>v. (ustr_of ''Content-Length'', v) \<in> set (rq_headers r)
      then (ustr_of ''Content-Length'', nat_str (length (rq_body r))) \<in> set (rq_headers r)
      else rq_body r = [] \<and> (\<forall>(k, v)\<in>set (rq_headers r).
        to_ascii_lowercase k \<noteq> to_ascii_lowercase (ustr_of ''Content-Length''))) \<and>
     length (write_request r) < 2 ^ 64"

lemma version_str_plain: "version_str v \<noteq> [] \<and> list_all (\<lambda>c. \<not> is_whitespace c \<and> c < 0x80) (version_str v)"
  by (simp add: version_str_def ustr_of_def is_whitespace_def)

lemma request_line_plain: "request_ok r \<Longrightarrow> plain_line (request_line r)"
proof -
  assume "request_ok r"
  then have "list_all (\<lambda>c. \<not> is_whitespace c) (rq_uri r)" by (simp add: request_ok_def list_all_iff)
  moreover have "list_all (\<lambda>c. \<not> is_whitespace c) (method_as_str (rq_method r))"
    using method_as_str_plain [of "rq_method r"] by (simp add: list_all_iff)
  ultimately have "10 \<notin> set (request_line r)" "13 \<notin> set (request_line r)"
    using version_str_plain [of "rq_version r"]
    by (auto simp: request_line_def list_all_iff dest: not_whitespaceD)
  then show ?thesis by (simp add: plain_line_def request_line_def)
qed

lemma request_line_words:
  "request_ok r \<Longrightarrow> split_whitespace (request_line r) =
    [method_as_str (rq_method r), rq_uri r, version_str (rq_version r)]"
proof -
  assume "request_ok r"
  then have u: "rq_uri r \<noteq> []" "list_all (\<lambda>c. \<not> is_whitespace c) (rq_uri r)"
    by (simp_all add: request_ok_def list_all_iff)
  have m: "method_as_str (rq_method r) \<noteq> []" "list_all (\<lambda>c. \<not> is_whitespace c) (method_as_str (rq_method r))"
    using method_as_str_plain [of "rq_method r"] by (simp_all add: list_all_iff)
  have v: "version_str (rq_version r) \<noteq> []" "list_all (\<lambda>c. \<not> is_whitespace c) (version_str (rq_version r))"
    using version_str_plain [of "rq_version r"] by (simp_all add: list_all_iff)
  have s: "is_whitespace 32" by (simp add: is_whitespace_def)
  show ?thesis
    unfolding request_line_def
    by (simp only: split_whitespace_word [OF m s] split_whitespace_word [OF u s] split_whitespace_last [OF v])
qed

lemma request_lines_plain: "request_ok r \<Longrightarrow> list_all plain_line (request_lines r)"
  using request_line_plain [of r] header_line_plain
  by (auto simp: request_lines_def request_ok_def list_all_iff)

lemma request_head_lines: "request_ok r \<Longrightarrow> str_lines (request_head r) = request_lines r"
proof -
  assume "request_ok r"
  then have p: "list_all plain_line (request_lines r)" by (rule request_lines_plain)
  have ne: "request_lines r \<noteq> []" by (simp add: request_lines_def)
  then have "list_all plain_line (butlast (request_lines r))" "plain_line (last (request_lines r))"
    using p by (auto simp: list_all_iff dest: in_set_butlastD)
  then show ?thesis using str_lines_crlf ne unfolding request_head_def by (metis append_butlast_last_id)
qed

lemma request_head_found:
  "request_ok r \<Longrightarrow> str_find [13, 10, 13, 10] (request_head r @ 13 # 10 # 13 # 10 # s) = Some (request_head r, s)"
proof -
  assume "request_ok r"
  then have p: "list_all plain_line (request_lines r)" by (rule request_lines_plain)
  have "request_lines r \<noteq> []" by (simp add: request_lines_def)
  then have "list_all plain_line (butlast (request_lines r))" "plain_line (last (request_lines r))"
    using p by (auto simp: list_all_iff dest: in_set_butlastD)
  then show ?thesis using str_find_blank_line by (simp add: request_head_def)
qed

lemma scalar_crlf_lines: "list_all (list_all scalar) ls \<Longrightarrow> list_all scalar (crlf_lines ls)"
  by (induction ls) auto

lemma request_lines_scalar: "request_ok r \<Longrightarrow> list_all (list_all scalar) (request_lines r)"
proof -
  assume ok: "request_ok r"
  have "list_all scalar (method_as_str (rq_method r))" "list_all scalar (version_str (rq_version r))"
    using method_as_str_plain [of "rq_method r"] version_str_plain [of "rq_version r"]
    by (simp_all add: list_all_iff)
  then have "list_all scalar (request_line r)"
    using ok unfolding request_ok_def by (simp add: request_line_def list_all_iff ball_Un)
  moreover have "list_all scalar (header_line h)" if "h \<in> set (rq_headers r)" for h
    using that ok by (simp add: request_ok_def list_all_iff header_ok_def header_line_def ball_Un)
  ultimately show ?thesis by (simp add: request_lines_def list_all_iff)
qed

lemma request_head_scalar: "request_ok r \<Longrightarrow> list_all scalar (request_head r @ [13, 10, 13, 10])"
proof -
  assume "request_ok r"
  then have s: "list_all (list_all scalar) (request_lines r)" by (rule request_lines_scalar)
  have "request_lines r \<noteq> []" by (simp add: request_lines_def)
  then have "list_all (list_all scalar) (butlast (request_lines r))" "list_all scalar (last (request_lines r))"
    using s by (auto simp: list_all_iff dest: in_set_butlastD)
  then show ?thesis using scalar_crlf_lines by (simp add: request_head_def)
qed

lemma content_length_of_request:
  assumes "request_ok r" and "order_ok order"
  shows "content_length order (rq_headers r) = length (rq_body r)"
proof (cases "\<exists>v. (ustr_of ''Content-Length'', v) \<in> set (rq_headers r)")
  case True
  then have "(ustr_of ''Content-Length'', nat_str (length (rq_body r))) \<in> set (rq_headers r)"
    using assms(1) by (simp add: request_ok_def)
  then have "headers_get order (rq_headers r) (ustr_of ''Content-Length'') = Some (nat_str (length (rq_body r)))"
    using assms by (intro headers_get_present) (auto simp: request_ok_def)
  moreover have "length (rq_body r) < 2 ^ 64"
    using assms(1) unfolding request_ok_def write_request_def length_append by linarith
  ultimately show ?thesis by (simp add: content_length_def parse_uint_nat_str)
next
  case False
  then have "headers_get order (rq_headers r) (ustr_of ''Content-Length'') = None"
    using assms by (intro headers_get_absent) (auto simp: request_ok_def)
  then show ?thesis using False assms(1) by (simp add: content_length_def request_ok_def)
qed

text \<open>What the parser does with a well-formed head whatever its Content-Length and the bytes behind it.\<close>

lemma parse_request_head:
  assumes "from_utf8 buf = Some text" and "str_find [13, 10, 13, 10] text = Some (head, s)"
    and "str_lines head = request_line r # ls" and "request_ok r" and "parse_headers ls [] = Ok hs"
  shows "parse_request order buf =
    (let body_start = str_len head + 4; end_of_body = (body_start + content_length order hs) mod 2 ^ 64 in
     if length buf < end_of_body then Err Incomplete
     else obind (slice buf body_start end_of_body) (\<lambda>body.
       Ok (\<lparr>rq_method = rq_method r, rq_uri = rq_uri r, rq_version = V1_0, rq_headers = hs, rq_body = body\<rparr>,
           end_of_body)))"
  using assms request_line_words [of r] by (simp add: parse_request_def Let_def version_str_def)

lemma request_roundtrip_core:
  assumes "request_ok r" and "order_ok order" and "from_utf8 (rq_body r @ rest) \<noteq> None"
  shows "parse_request order (write_request r @ rest) = Ok (r, length (write_request r))"
proof -
  obtain t where t: "from_utf8 (rq_body r @ rest) = Some t" using assms(3) by blast
  let ?head = "request_head r"
  have decoded: "from_utf8 (write_request r @ rest) = Some (?head @ 13 # 10 # 13 # 10 # t)"
    using from_utf8_str [OF request_head_scalar [OF assms(1)], of "rq_body r @ rest"] t
    by (simp add: write_request_def)
  have hs: "parse_headers (map header_line (rq_headers r)) [] = Ok (rq_headers r)"
    using parse_headers_lines [of "rq_headers r" "[]"] names_unique_keys [of "rq_headers r"] assms(1)
    by (simp add: request_ok_def)
  have lines: "str_lines ?head = request_line r # map header_line (rq_headers r)"
    using request_head_lines [OF assms(1)] by (simp add: request_lines_def)
  have len: "length (write_request r) = str_len ?head + 4 + length (rq_body r)"
    by (simp add: write_request_def utf8_width_def)
  have small: "(str_len ?head + 4 + length (rq_body r)) mod 2 ^ 64 = str_len ?head + 4 + length (rq_body r)"
    using assms(1) len unfolding request_ok_def by (intro mod_less) linarith
  have body: "drop (str_len ?head + 4) (write_request r @ rest) = rq_body r @ rest"
    by (simp add: write_request_def utf8_width_def)
  have "slice (write_request r @ rest) (str_len ?head + 4) (str_len ?head + 4 + length (rq_body r)) = Ok (rq_body r)"
    using body len by (simp add: slice_def)
  moreover have "rq_version r = V1_0" by (cases "rq_version r") simp
  moreover note parse_request_head [OF decoded request_head_found [OF assms(1)] lines assms(1) hs, of order]
  ultimately show ?thesis
    using len by (simp only: Let_def content_length_of_request [OF assms(1,2)] small) (simp add: len)
qed

lemma strip_prefix_extend: "strip_prefix p s = Some r \<Longrightarrow> strip_prefix p (s @ t) = Some (r @ t)"
  by (simp add: strip_prefix_Some)

lemma str_find_extend:
  "str_find p s = Some (a, b) \<Longrightarrow>
    \<exists>a' b'. str_find p (s @ t) = Some (a', b') \<and> length a' \<le> length a"
proof (induction s arbitrary: a)
  case Nil
  then have "p = []" "a = []" using str_find_Some [of p "[]" a b] by auto
  then show ?case using str_find_prefix [of p t t] by simp
next
  case (Cons c s)
  show ?case
  proof (cases "strip_prefix p (c # s)")
    case (Some r)
    then have "str_find p ((c # s) @ t) = Some ([], r @ t)"
      using strip_prefix_extend [OF Some, of t] by (intro str_find_prefix) simp
    then show ?thesis by simp
  next
    case None
    then obtain a0 where a: "str_find p s = Some (a0, b)" "a = c # a0"
      using Cons.prems str_find_skip [OF None] by auto
    then obtain a' b' where *: "str_find p (s @ t) = Some (a', b')" "length a' \<le> length a0"
      using Cons.IH by blast
    show ?thesis
    proof (cases "strip_prefix p (c # s @ t)")
      case None
      then show ?thesis using * a(2) by (simp add: str_find_skip)
    next
      case (Some r)
      then show ?thesis by (simp add: str_find_prefix)
    qed
  qed
qed

lemma request_incomplete_core:
  assumes "request_ok r" and "order_ok order" and "from_utf8 p \<noteq> None" and "write_request r = p @ q" and "q \<noteq> []"
  shows "parse_request order p = Err Incomplete"
proof -
  obtain t where t: "from_utf8 p = Some t" using assms(3) by blast
  let ?head = "request_head r"
  have len: "length (write_request r) = str_len ?head + 4 + length (rq_body r)"
    by (simp add: write_request_def utf8_width_def)
  have scalar_head: "list_all scalar (?head @ [13, 10, 13, 10])" by (rule request_head_scalar [OF assms(1)])
  show ?thesis
  proof (cases "str_len ?head + 4 \<le> length p")
    case True
    define pre where "pre = str_bytes (?head @ [13, 10, 13, 10])"
    have "length pre = str_len ?head + 4" by (simp add: pre_def utf8_width_def)
    then obtain u where u: "p = pre @ u"
      using assms(4) True append_eq_append_conv_if [of pre "rq_body r" p q]
      by (metis append_take_drop_id pre_def write_request_def)
    have bu: "from_utf8 (pre @ u) = map_option (\<lambda>v. (?head @ [13, 10, 13, 10]) @ v) (from_utf8 u)"
      unfolding pre_def by (rule from_utf8_str [OF scalar_head])
    then obtain v where v: "t = ?head @ 13 # 10 # 13 # 10 # v" using t u by (cases "from_utf8 u") auto
    have hs: "parse_headers (map header_line (rq_headers r)) [] = Ok (rq_headers r)"
      using parse_headers_lines [of "rq_headers r" "[]"] names_unique_keys [of "rq_headers r"] assms(1)
      by (simp add: request_ok_def)
    have lines: "str_lines ?head = request_line r # map header_line (rq_headers r)"
      using request_head_lines [OF assms(1)] by (simp add: request_lines_def)
    have "length p < length (write_request r)" using assms(4,5) by simp
    moreover have "length (write_request r) < 2 ^ 64" using assms(1) by (simp add: request_ok_def)
    moreover from this have "(str_len ?head + 4 + length (rq_body r)) mod 2 ^ 64 = length (write_request r)"
      using len by (metis mod_less)
    moreover note parse_request_head [OF t [unfolded v] request_head_found [OF assms(1)] lines assms(1) hs, of order]
    ultimately show ?thesis
      by (simp only: Let_def content_length_of_request [OF assms(1,2)] if_True)
  next
    case False
    have "str_find [13, 10, 13, 10] t = None"
    proof (rule ccontr)
      assume "str_find [13, 10, 13, 10] t \<noteq> None"
      then obtain a b where ab: "str_find [13, 10, 13, 10] t = Some (a, b)" by force
      define x where "x = drop (length p) (str_bytes (?head @ [13, 10, 13, 10]))"
      have hlen: "length (str_bytes (?head @ [13, 10, 13, 10])) = str_len ?head + 4" by (simp add: utf8_width_def)
      have "take (length p) (write_request r) = p" using assms(4) by simp
      moreover have "length p - length (str_bytes (?head @ [13, 10, 13, 10])) = 0" using False hlen by linarith
      ultimately have "take (length p) (str_bytes (?head @ [13, 10, 13, 10])) = p"
        unfolding write_request_def take_append [of _ "str_bytes (?head @ [13, 10, 13, 10])"]
        by (simp only: take_0 append_Nil2)
      then have px: "p @ x = str_bytes (?head @ [13, 10, 13, 10])"
        unfolding x_def by (metis append_take_drop_id)
      have "from_utf8 (p @ x) = Some (?head @ [13, 10, 13, 10])"
        unfolding px by (rule from_utf8_str_bytes [OF scalar_head])
      then obtain w where w: "?head @ [13, 10, 13, 10] = t @ w" and fw: "from_utf8 x = Some w"
        using from_utf8_append [OF t, of x] by (cases "from_utf8 x") (simp, metis option.inject option.map(2))
      have "length x \<noteq> 0" using False by (simp add: x_def utf8_width_def)
      then have "w \<noteq> []" using from_utf8_len [OF fw] by auto
      obtain a' b' where *: "str_find [13, 10, 13, 10] (t @ w) = Some (a', b')" "length a' \<le> length a"
        using str_find_extend [OF ab] by blast
      have "str_find [13, 10, 13, 10] (t @ w) = Some (?head, [])"
        using request_head_found [OF assms(1), of "[]"] w by simp
      then have "length ?head \<le> length a" using * by simp
      have "t = a @ [13, 10, 13, 10] @ b" by (rule str_find_Some [OF ab])
      then have "length ?head + 4 \<le> length t" using \<open>length ?head \<le> length a\<close> by simp
      moreover have "length ?head + 4 = length t + length w" using arg_cong [OF w, of length] by simp
      ultimately show False using \<open>w \<noteq> []\<close> by simp
    qed
    then show ?thesis using t by (simp add: parse_request_def)
  qed
qed

text \<open>
  Where a request's body starts and how long the client says it is, for input whose request line and
  headers are accepted.
\<close>

definition request_framing :: "headers_order \<Rightarrow> bytes \<Rightarrow> (nat \<times> nat) option" where
  "request_framing order buf =
     (case from_utf8 buf of None \<Rightarrow> None | Some text \<Rightarrow>
      (case str_find [13, 10, 13, 10] text of None \<Rightarrow> None | Some (head, _) \<Rightarrow>
       (case str_lines head of [] \<Rightarrow> None | line # ls \<Rightarrow>
        (case split_whitespace line of
           m # uri # version # _ \<Rightarrow>
             if method_parse m \<noteq> None \<and> version = ustr_of ''RTSP/1.0''
             then (case parse_headers ls [] of Ok hs \<Rightarrow> Some (str_len head + 4, content_length order hs) | _ \<Rightarrow> None)
             else None
         | _ \<Rightarrow> None))))"

lemma content_length_bound: "content_length order hs < 2 ^ 64"
  by (auto simp: content_length_def split: option.splits dest: parse_uint_bound)

lemma parse_headers_no_panic: "parse_headers ls hs \<noteq> Panic"
  by (induction ls arbitrary: hs) (auto split: option.splits)

lemma framing_bound: "request_framing order buf = Some (b, n) \<Longrightarrow> b \<le> length buf \<and> n < 2 ^ 64"
proof -
  assume "request_framing order buf = Some (b, n)"
  then obtain t head s hs where *: "from_utf8 buf = Some t" "str_find [13, 10, 13, 10] t = Some (head, s)"
    "b = str_len head + 4" "n = content_length order hs"
    by (auto simp: request_framing_def split: option.splits list.splits if_splits outcome.splits)
  have "t = head @ [13, 10, 13, 10] @ s" by (rule str_find_Some [OF *(2)])
  then show ?thesis
    using * from_utf8_len [OF *(1)] content_length_bound by (simp add: utf8_width_def)
qed

lemma parse_request_framing:
  "request_framing order buf = None \<Longrightarrow> parse_request order buf \<noteq> Panic"
  "request_framing order buf = Some (b, n) \<Longrightarrow> parse_request order buf = Panic \<longleftrightarrow>
    (b + n) mod 2 ^ 64 \<le> length buf \<and> \<not> (b \<le> (b + n) mod 2 ^ 64)"
  by (auto simp: request_framing_def parse_request_def parse_headers_no_panic Let_def slice_def not_less
      split: option.splits list.splits if_splits outcome.splits)

lemma mod_wraps: "b < m \<Longrightarrow> n < m \<Longrightarrow> (b + n) mod m = (if b + n < m then b + n else b + n - m)" for m :: nat
  by (simp add: mod_if)

lemma request_panics_core:
  assumes "length buf < 2 ^ 64"
  shows "parse_request order buf = Panic \<longleftrightarrow>
    (\<exists>b n. request_framing order buf = Some (b, n) \<and> 2 ^ 64 \<le> b + n)"
proof (cases "request_framing order buf")
  case None
  then show ?thesis using parse_request_framing(1) by simp
next
  case (Some f)
  obtain b n where f: "f = (b, n)" by force
  have b: "b \<le> length buf" "n < 2 ^ 64" using framing_bound Some f by blast+
  then have "(b + n) mod 2 ^ 64 = (if b + n < 2 ^ 64 then b + n else b + n - 2 ^ 64)"
    using assms by (intro mod_wraps) linarith+
  then have "(b + n) mod 2 ^ 64 \<le> length buf \<and> \<not> b \<le> (b + n) mod 2 ^ 64 \<longleftrightarrow> 2 ^ 64 \<le> b + n"
    using b assms by (auto split: if_splits)
  moreover have "request_framing order buf = Some (b, n)" using Some f by simp
  moreover note parse_request_framing(2) [OF this]
  ultimately show ?thesis by simp
qed

text \<open>A request that claims the longest body a \<open>usize\<close> can express.\<close>

definition overflow_request :: bytes where
  "overflow_request = str_bytes (crlf_lines [ustr_of ''OPTIONS * RTSP/1.0''] @
     (ustr_of ''Content-Length: '' @ nat_str (2 ^ 64 - 1)) @ 13 # 10 # 13 # 10 # [])"

lemma overflow_request_framing: "\<exists>b. request_framing (\<lambda>hs. hs) overflow_request = Some (b, 2 ^ 64 - 1) \<and> 4 \<le> b"
proof -
  let ?l1 = "ustr_of ''OPTIONS'' @ 32 # ustr_of ''*'' @ 32 # ustr_of ''RTSP/1.0''"
  let ?l2 = "ustr_of ''Content-Length: '' @ nat_str (2 ^ 64 - 1)"
  have l1: "ustr_of ''OPTIONS * RTSP/1.0'' = ?l1" by (simp add: ustr_of_def)
  have d: "c < 0x80 \<and> c \<noteq> 10 \<and> c \<noteq> 13 \<and> scalar c" if "c \<in> set (nat_str m)" for c m
    using nat_str_digits [of m] ustr_digit_plain that by (auto simp: list_all_iff)
  have p: "list_all plain_line [?l1]" "plain_line ?l2"
    using d by (auto simp: plain_line_def ustr_of_def)
  have "list_all scalar (crlf_lines [?l1] @ ?l2 @ 13 # 10 # 13 # 10 # [])"
    using d by (auto simp: ustr_of_def list_all_iff)
  then have u: "from_utf8 overflow_request = Some (crlf_lines [?l1] @ ?l2 @ 13 # 10 # 13 # 10 # [])"
    unfolding overflow_request_def l1 by (rule from_utf8_str_bytes)
  have s: "is_whitespace 32" by (simp add: is_whitespace_def)
  have "split_whitespace ?l1 = [ustr_of ''OPTIONS'', ustr_of ''*'', ustr_of ''RTSP/1.0'']"
  proof -
    have w: "ustr_of ''OPTIONS'' \<noteq> []" "list_all (\<lambda>x. \<not> is_whitespace x) (ustr_of ''OPTIONS'')"
      "ustr_of ''*'' \<noteq> []" "list_all (\<lambda>x. \<not> is_whitespace x) (ustr_of ''*'')"
      "ustr_of ''RTSP/1.0'' \<noteq> []" "list_all (\<lambda>x. \<not> is_whitespace x) (ustr_of ''RTSP/1.0'')"
      by (simp_all add: ustr_of_def is_whitespace_def)
    show ?thesis
      by (simp only: split_whitespace_word [OF w(1,2) s] split_whitespace_word [OF w(3,4) s]
          split_whitespace_last [OF w(5,6)])
  qed
  moreover have "str_split_once 58 ?l2 = Some (ustr_of ''Content-Length'', 32 # nat_str (2 ^ 64 - 1))"
    by (simp add: ustr_of_def str_split_once_def)
  moreover have "str_trim (ustr_of ''Content-Length'') = ustr_of ''Content-Length''"
    by (intro str_trim_id) (simp add: ustr_of_def is_whitespace_def)
  moreover have "method_parse (ustr_of ''OPTIONS'') = Some Options" by (simp add: method_parse_def)
  moreover have "content_length (\<lambda>hs. hs) [(ustr_of ''Content-Length'', nat_str (2 ^ 64 - 1))] = 2 ^ 64 - 1"
    by (simp add: content_length_def headers_get_def parse_uint_nat_str)
  ultimately show ?thesis
    using str_find_blank_line [OF p, of "[]"] str_lines_crlf [OF p]
    by (simp add: request_framing_def u str_trim_space headers_insert_def hm_insert_def)
qed

lemma request_binary_core:
  assumes "request_ok r" and "from_utf8 (rq_body r @ rest) = None"
  shows "parse_request order (write_request r @ rest) = Err InvalidRequestLine"
  using from_utf8_str [OF request_head_scalar [OF assms(1)], of "rq_body r @ rest"] assms(2)
  by (simp add: parse_request_def write_request_def)

text \<open>The Transport header that the server answers a SETUP with, read back by its own parser.\<close>

definition interleaved_transport :: "u8 \<Rightarrow> u8 \<Rightarrow> ustr" where
  "interleaved_transport a b = ustr_of ''RTP/AVP/TCP;unicast;interleaved='' @ nat_str (unat a) @ 45 # nat_str (unat b)"

lemma contains_none: "hd p \<notin> set s \<Longrightarrow> p \<noteq> [] \<Longrightarrow> \<not> contains_str p s"
  using str_find_first [of p s "[]"] by (cases p) (simp_all add: contains_str_def str_find.simps [of _ "[]"])

lemma parse_transport_interleaved:
  "ts_interleaved (parse_transport (interleaved_transport a b)) = Some (a, b)"
proof -
  let ?i = "ustr_of ''interleaved='' @ nat_str (unat a) @ 45 # nat_str (unat b)"
  have "59 \<notin> set ?i" by (simp add: ustr_of_def nat_str_no ustr_digit_def)
  then have "str_split 59 (interleaved_transport a b) = [ustr_of ''RTP/AVP/TCP'', ustr_of ''unicast'', ?i]"
    using str_split_sep [of 59 "ustr_of ''RTP/AVP/TCP''"] str_split_sep [of 59 "ustr_of ''unicast''"] str_split_last [of 59 ?i]
    by (simp add: interleaved_transport_def ustr_of_def)
  moreover have "str_trim ?i = ?i"
    using nat_str_digits [of "unat b"] last_in_set [of "nat_str (unat b)"] ustr_digit_plain
    by (intro str_trim_id) (auto simp: ustr_of_def is_whitespace_def list_all_iff)
  moreover have "\<not> contains_str (ustr_of ''RTP/'') ?i"
    by (rule contains_none) (simp_all add: ustr_of_def nat_str_no ustr_digit_def)
  moreover have "?i \<noteq> ustr_of ''unicast''" by (simp add: ustr_of_def)
  moreover have "parse_range (2 ^ 8) (nat_str (unat a) @ 45 # nat_str (unat b)) = Some (Some (unat a, unat b))"
    using unsigned_less [of a, where 'a = nat] unsigned_less [of b, where 'a = nat]
    by (simp add: parse_range_def split_once_sep nat_str_no ustr_digit_def parse_uint_nat_str)
  ultimately show ?thesis
    by (simp add: parse_transport_def transport_part_def Let_def)
qed

text \<open>
  C17. The RTSP request parser inverts the wire format: a well-formed request at the front of the buffer
  is returned with its exact length, for every iteration order of the header map; a buffer that ends
  before the request does is reported as incomplete; and when what stands behind the head is not UTF-8, as
  in a buffer where RTP data follows the request, the request is rejected as malformed.
\<close>

theorem rtsp_request_roundtrip:
  assumes "request_ok r" and "order_ok order"
  shows "(\<forall>rest. parse_request order (write_request r @ rest) =
      (if from_utf8 (rq_body r @ rest) = None then Err InvalidRequestLine else Ok (r, length (write_request r)))) \<and>
    (\<forall>p q. write_request r = p @ q \<longrightarrow> q \<noteq> [] \<longrightarrow> from_utf8 p \<noteq> None \<longrightarrow>
      parse_request order p = Err Incomplete)"
  using request_roundtrip_core [OF assms] request_incomplete_core [OF assms] request_binary_core [OF assms(1)]
  by simp

text \<open>
  C36. The request parser panics exactly on the requests whose Content-Length, added to the offset of the
  body, exceeds 64 bits: the sum wraps to an end in front of the body.
\<close>

theorem rtsp_request_panics:
  assumes "length buf < 2 ^ 64"
  shows "parse_request order buf = Panic \<longleftrightarrow>
    (\<exists>b n. request_framing order buf = Some (b, n) \<and> 2 ^ 64 \<le> b + n)"
  by (rule request_panics_core [OF assms])

section \<open>Witnesses\<close>

definition announce_request :: request where
  "announce_request = \<lparr>rq_method = Announce, rq_uri = ustr_of ''rtsp://h/live/cam1'', rq_version = V1_0,
     rq_headers = [(ustr_of ''CSeq'', nat_str 2), (ustr_of ''Content-Length'', nat_str 3)], rq_body = [118, 61, 48]\<rparr>"

lemma announce_request_ok: "request_ok announce_request"
proof -
  have "nat_str 2 = [50]" "nat_str 3 = [51]" "nat_str (Suc (Suc (Suc 0))) = [51]"
    by (simp_all add: nat_str_def ustr_of_def dec_str_def base_str.simps digit_char_def)
  then show ?thesis
    by (simp add: request_ok_def announce_request_def header_ok_def trimmed_def names_unique_def is_whitespace_def
        to_ascii_lowercase_def write_request_def request_head_def request_lines_def request_line_def
        version_str_def header_line_def ustr_of_def utf8_width_def)
qed

theorem rtsp_request_roundtrip_witness:
  "parse_request rev (write_request announce_request) = Ok (announce_request, length (write_request announce_request)) \<and>
   parse_request rev (write_request announce_request @ [0x24, 0, 0, 1, 0x80]) = Err InvalidRequestLine"
proof -
  have "from_utf8 [118, 61, 48] \<noteq> None" "from_utf8 [118, 61, 48, 0x24, 0, 0, 1, 0x80] = None"
    by (simp_all add: from_utf8.simps(2))
  then show ?thesis
    using rtsp_request_roundtrip [OF announce_request_ok order_rev]
    by (metis (no_types, lifting) announce_request_def append.right_neutral append_Cons append_Nil request.select_convs(5))
qed

theorem rtsp_request_panics_witness: "parse_request (\<lambda>hs. hs) overflow_request = Panic"
proof -
  obtain b where b: "request_framing (\<lambda>hs. hs) overflow_request = Some (b, 2 ^ 64 - 1)" "4 \<le> b"
    using overflow_request_framing by blast
  have "str_len (nat_str (2 ^ 64 - 1)) = length (nat_str (2 ^ 64 - 1))"
    using nat_str_digits ustr_digit_plain by (intro ascii_len) (auto simp: ascii_def list_all_iff)
  moreover have "length (nat_str (2 ^ 64 - 1)) = 20"
    by (simp add: nat_str_def ustr_of_def dec_str_def base_str.simps)
  ultimately have "length overflow_request < 2 ^ 64"
    by (simp add: overflow_request_def ustr_of_def utf8_width_def)
  from rtsp_request_panics [OF this] show ?thesis using b by fastforce
qed

end
