(* ===== verification/InitSegment.thy ===== *)
theory InitSegment
  imports Aac Hevc Fmt
begin

text \<open>
  The init segments of \<open>lvqr-cmaf/src/init.rs\<close>: what the four writers put into the movie box, and what the
  extractors of the egress side read from it.  The boxes themselves are written and read by the crate
  \<open>mp4-atom\<close>, so its encoder, its decoder and its constructor of an \<open>avcC\<close> from parameter sets are
  arguments; the movie is a record of the fields that carry information, and the fields that every writer
  leaves at zero or at their default are left out.
\<close>

section \<open>The movie\<close>

record avcc =
  av_profile_indication :: u8
  av_profile_compatibility :: u8
  av_level_indication :: u8
  av_sequence_parameter_sets :: "bytes list"
  av_picture_parameter_sets :: "bytes list"

record hvcc_array =
  ha_completeness :: bool
  ha_nal_unit_type :: u8
  ha_nalus :: "bytes list"

record hvcc =
  hv_general_profile_space :: u8
  hv_general_tier_flag :: bool
  hv_general_profile_idc :: u8
  hv_general_profile_compatibility_flags :: "u8 \<times> u8 \<times> u8 \<times> u8"
  hv_general_constraint_indicator_flags :: bytes
  hv_general_level_idc :: u8
  hv_chroma_format_idc :: u8
  hv_num_temporal_layers :: u8
  hv_temporal_id_nested :: bool
  hv_length_size_minus_one :: u8
  hv_arrays :: "hvcc_array list"

record decoder_specific =
  ds_profile :: u8
  ds_freq_index :: u8
  ds_chan_conf :: u8

record dops =
  do_output_channel_count :: u8
  do_pre_skip :: u16
  do_input_sample_rate :: u32
  do_output_gain :: u16

record audio_entry =
  ae_channel_count :: u16
  ae_sample_size :: u16
  ae_sample_rate :: u16

datatype mp4_codec =
    Avc1 (avc_width: u16) (avc_height: u16) (avc_record: avcc)
  | Hev1 (hev_width: u16) (hev_height: u16) (hev_record: hvcc)
  | Mp4a (mp4a_audio: audio_entry) (mp4a_specific: decoder_specific)
  | OpusEntry (opus_audio: audio_entry) (opus_specific: dops)
  | OtherCodec

record trak =
  tk_track_id :: u32
  tk_volume :: u8
  tk_width :: u16
  tk_height :: u16
  tk_timescale :: u32
  tk_handler :: string
  tk_name :: string
  tk_codecs :: "mp4_codec list"

record moov =
  mv_timescale :: u32
  mv_next_track_id :: u32
  mv_trex_track_id :: u32
  mv_traks :: "trak list"

definition ftyp_brands :: "string list" where
  "ftyp_brands = [''isom'', ''iso6'', ''msdh'', ''msix'']"

datatype init_segment_error = EncodeError | InvalidAsc codec_error | UnsupportedAacSampleRate u32

text \<open>
  The encoder writes a file type box with the given brands and the movie box, or fails; the decoder reads
  both.  The law of the crate: what was written is read back.
\<close>

type_synonym mp4_encoder = "string list \<Rightarrow> moov \<Rightarrow> bytes option"
type_synonym mp4_decoder = "bytes \<Rightarrow> moov option"

definition mp4_ok :: "mp4_encoder \<Rightarrow> mp4_decoder \<Rightarrow> bool" where
  "mp4_ok enc dec \<longleftrightarrow> (\<forall>brands m bs. enc brands m = Some bs \<longrightarrow> dec bs = Some m)"

definition encode_init :: "mp4_encoder \<Rightarrow> moov \<Rightarrow> (bytes, init_segment_error) outcome" where
  "encode_init enc m = (case enc ftyp_brands m of None \<Rightarrow> Err EncodeError | Some bs \<Rightarrow> Ok bs)"

definition video_moov :: "u32 \<Rightarrow> u16 \<Rightarrow> u16 \<Rightarrow> mp4_codec \<Rightarrow> moov" where
  "video_moov timescale width height codec =
     \<lparr>mv_timescale = timescale, mv_next_track_id = 2, mv_trex_track_id = 1,
      mv_traks = [\<lparr>tk_track_id = 1, tk_volume = 0, tk_width = width, tk_height = height,
        tk_timescale = timescale, tk_handler = ''vide'', tk_name = ''LVQR Video'', tk_codecs = [codec]\<rparr>]\<rparr>"

definition audio_moov :: "u32 \<Rightarrow> string \<Rightarrow> mp4_codec \<Rightarrow> moov" where
  "audio_moov timescale name codec =
     \<lparr>mv_timescale = timescale, mv_next_track_id = 2, mv_trex_track_id = 1,
      mv_traks = [\<lparr>tk_track_id = 1, tk_volume = 1, tk_width = 0, tk_height = 0,
        tk_timescale = timescale, tk_handler = ''soun'', tk_name = name, tk_codecs = [codec]\<rparr>]\<rparr>"

section \<open>The writers\<close>

record video_init_params =
  vi_sps :: bytes
  vi_pps :: bytes
  vi_width :: u16
  vi_height :: u16
  vi_timescale :: u32

definition write_avc_init_segment ::
    "mp4_encoder \<Rightarrow> (bytes \<Rightarrow> bytes \<Rightarrow> avcc option) \<Rightarrow> video_init_params \<Rightarrow> (bytes, init_segment_error) outcome" where
  "write_avc_init_segment enc avcc_new p =
     (case avcc_new (vi_sps p) (vi_pps p) of None \<Rightarrow> Err EncodeError
      | Some avcc \<Rightarrow> encode_init enc (video_moov (vi_timescale p) (vi_width p) (vi_height p)
          (Avc1 (vi_width p) (vi_height p) avcc)))"

record hevc_init_params =
  hi_vps :: bytes
  hi_sps :: bytes
  hi_pps :: bytes
  hi_sps_info :: hevc_sps
  hi_timescale :: u32

definition be32_quad :: "u32 \<Rightarrow> u8 \<times> u8 \<times> u8 \<times> u8" where
  "be32_quad w = (ucast (drop_bit 24 w), ucast (drop_bit 16 w), ucast (drop_bit 8 w), ucast w)"

definition hvcc_of_sps :: "hevc_init_params \<Rightarrow> hvcc" where
  "hvcc_of_sps p =
     \<lparr>hv_general_profile_space = general_profile_space (hi_sps_info p),
      hv_general_tier_flag = general_tier_flag (hi_sps_info p),
      hv_general_profile_idc = general_profile_idc (hi_sps_info p),
      hv_general_profile_compatibility_flags = be32_quad (general_profile_compatibility_flags (hi_sps_info p)),
      hv_general_constraint_indicator_flags = replicate 6 0,
      hv_general_level_idc = general_level_idc (hi_sps_info p),
      hv_chroma_format_idc = ucast (chroma_format_idc (hi_sps_info p) AND 3),
      hv_num_temporal_layers = 1, hv_temporal_id_nested = True, hv_length_size_minus_one = 3,
      hv_arrays =
        [\<lparr>ha_completeness = True, ha_nal_unit_type = 32, ha_nalus = [hi_vps p]\<rparr>,
         \<lparr>ha_completeness = True, ha_nal_unit_type = 33, ha_nalus = [hi_sps p]\<rparr>,
         \<lparr>ha_completeness = True, ha_nal_unit_type = 34, ha_nalus = [hi_pps p]\<rparr>]\<rparr>"

definition write_hevc_init_segment :: "mp4_encoder \<Rightarrow> hevc_init_params \<Rightarrow> (bytes, init_segment_error) outcome" where
  "write_hevc_init_segment enc p =
     (let width = ucast (pic_width_in_luma_samples (hi_sps_info p)) :: u16;
          height = ucast (pic_height_in_luma_samples (hi_sps_info p)) :: u16 in
      encode_init enc (video_moov (hi_timescale p) width height (Hev1 width height (hvcc_of_sps p))))"

record audio_init_params =
  ai_asc :: bytes
  ai_timescale :: u32

fun list_position :: "'a \<Rightarrow> 'a list \<Rightarrow> nat option" where
  "list_position x [] = None"
| "list_position x (y # ys) = (if y = x then Some 0 else map_option Suc (list_position x ys))"

definition build_mp4a :: "audio_specific_config \<Rightarrow> (mp4_codec, init_segment_error) outcome" where
  "build_mp4a asc =
     (case list_position (asc_sample_rate asc) AAC_SAMPLE_FREQUENCIES of
        None \<Rightarrow> Err (UnsupportedAacSampleRate (asc_sample_rate asc))
      | Some freq_index \<Rightarrow>
          if 31 < asc_object_type asc
          then Err (InvalidAsc (MalformedAsc
            ''AAC object type >= 32 (escape-encoded) cannot round-trip through mp4-atom esds''))
          else Ok (Mp4a
            \<lparr>ae_channel_count = ucast (asc_channel_config asc), ae_sample_size = 16,
             ae_sample_rate = ucast (asc_sample_rate asc)\<rparr>
            \<lparr>ds_profile = asc_object_type asc, ds_freq_index = of_nat freq_index,
             ds_chan_conf = asc_channel_config asc\<rparr>))"

definition write_aac_init_segment :: "mp4_encoder \<Rightarrow> audio_init_params \<Rightarrow> (bytes, init_segment_error) outcome" where
  "write_aac_init_segment enc p =
     (case parse_asc (ai_asc p) of Panic \<Rightarrow> Panic | Err e \<Rightarrow> Err (InvalidAsc e)
      | Ok asc \<Rightarrow> obind (build_mp4a asc) (\<lambda>mp4a.
          if 65535 < asc_sample_rate asc then Err (UnsupportedAacSampleRate (asc_sample_rate asc))
          else encode_init enc (audio_moov (ai_timescale p) ''LVQR Audio'' mp4a)))"

record opus_init_params =
  oi_channel_count :: u8
  oi_pre_skip :: u16
  oi_input_sample_rate :: u32
  oi_timescale :: u32

definition write_opus_init_segment :: "mp4_encoder \<Rightarrow> opus_init_params \<Rightarrow> (bytes, init_segment_error) outcome" where
  "write_opus_init_segment enc p =
     (if oi_channel_count p = 0 \<or> 2 < oi_channel_count p then Err EncodeError
      else if 65535 < oi_timescale p then Err (UnsupportedAacSampleRate (oi_timescale p))
      else encode_init enc (audio_moov (oi_timescale p) ''LVQR Opus''
        (OpusEntry
          \<lparr>ae_channel_count = ucast (oi_channel_count p), ae_sample_size = 16, ae_sample_rate = ucast (oi_timescale p)\<rparr>
          \<lparr>do_output_channel_count = oi_channel_count p, do_pre_skip = oi_pre_skip p,
           do_input_sample_rate = oi_input_sample_rate p, do_output_gain = 0\<rparr>)))"

section \<open>The extractors\<close>

definition movie_codecs :: "mp4_decoder \<Rightarrow> bytes \<Rightarrow> mp4_codec list" where
  "movie_codecs dec init = (case dec init of None \<Rightarrow> [] | Some m \<Rightarrow> concat (map tk_codecs (mv_traks m)))"

fun first_some :: "('a \<Rightarrow> 'b option) \<Rightarrow> 'a list \<Rightarrow> 'b option" where
  "first_some f [] = None"
| "first_some f (x # xs) = (case f x of None \<Rightarrow> first_some f xs | Some y \<Rightarrow> Some y)"

definition hex2 :: "u8 \<Rightarrow> string" where
  "hex2 b = pad0 2 (hex_upper (unat b))"

definition hvc1_codec_string :: "hvcc \<Rightarrow> string" where
  "hvc1_codec_string h =
     (let space = (if hv_general_profile_space h = 1 then ''A'' else if hv_general_profile_space h = 2 then ''B''
           else if hv_general_profile_space h = 3 then ''C'' else '''');
          compat = (case hv_general_profile_compatibility_flags h of (a, b, c, d) \<Rightarrow> be32 a b c d);
          tier = (if hv_general_tier_flag h then ''H'' else ''L'');
          start = ''hvc1.'' @ space @ dec_str (unat (hv_general_profile_idc h)) @ ''.'' @
            hex_upper (unat (word_reverse compat)) @ ''.'' @ tier @ dec_str (unat (hv_general_level_idc h)) @ ''.'' in
      if list_all (\<lambda>b. b = 0) (hv_general_constraint_indicator_flags h) then start @ ''B0''
      else start @ hex2 (case find (\<lambda>b. b \<noteq> 0) (hv_general_constraint_indicator_flags h) of None \<Rightarrow> 0 | Some b \<Rightarrow> b))"

definition codec_string_for_codec :: "mp4_codec \<Rightarrow> string option" where
  "codec_string_for_codec codec = (case codec of
     Avc1 _ _ a \<Rightarrow> Some (''avc1.'' @ hex2 (av_profile_indication a) @ hex2 (av_profile_compatibility a) @
       hex2 (av_level_indication a))
   | Hev1 _ _ h \<Rightarrow> Some (hvc1_codec_string h)
   | _ \<Rightarrow> None)"

definition detect_video_codec_string :: "mp4_decoder \<Rightarrow> bytes \<Rightarrow> string option" where
  "detect_video_codec_string dec init = first_some codec_string_for_codec (movie_codecs dec init)"

definition audio_codec_string_for_codec :: "mp4_codec \<Rightarrow> string option" where
  "audio_codec_string_for_codec codec = (case codec of
     Mp4a _ ds \<Rightarrow> Some (''mp4a.40.'' @ dec_str (unat (ds_profile ds)))
   | OpusEntry _ _ \<Rightarrow> Some ''opus''
   | _ \<Rightarrow> None)"

definition detect_audio_codec_string :: "mp4_decoder \<Rightarrow> bytes \<Rightarrow> string option" where
  "detect_audio_codec_string dec init = first_some audio_codec_string_for_codec (movie_codecs dec init)"

record avc_parameter_sets =
  ap_sps_list :: "bytes list"
  ap_pps_list :: "bytes list"

definition extract_avc_parameter_sets :: "mp4_decoder \<Rightarrow> bytes \<Rightarrow> avc_parameter_sets option" where
  "extract_avc_parameter_sets dec init = first_some (\<lambda>codec. case codec of
     Avc1 _ _ a \<Rightarrow> Some \<lparr>ap_sps_list = av_sequence_parameter_sets a, ap_pps_list = av_picture_parameter_sets a\<rparr>
   | _ \<Rightarrow> None) (movie_codecs dec init)"

record hevc_parameter_sets =
  hp_vps_list :: "bytes list"
  hp_sps_list :: "bytes list"
  hp_pps_list :: "bytes list"
  hp_general_profile_space :: u8
  hp_general_tier_flag :: bool
  hp_general_profile_idc :: u8
  hp_general_profile_compatibility_flags :: "u8 \<times> u8 \<times> u8 \<times> u8"
  hp_general_constraint_indicator_flags :: bytes
  hp_general_level_idc :: u8

fun add_hvcc_arrays :: "hvcc_array list \<Rightarrow> hevc_parameter_sets \<Rightarrow> hevc_parameter_sets" where
  "add_hvcc_arrays [] out = out"
| "add_hvcc_arrays (a # as) out = add_hvcc_arrays as
     (if ha_nal_unit_type a = 32 then out\<lparr>hp_vps_list := hp_vps_list out @ ha_nalus a\<rparr>
      else if ha_nal_unit_type a = 33 then out\<lparr>hp_sps_list := hp_sps_list out @ ha_nalus a\<rparr>
      else if ha_nal_unit_type a = 34 then out\<lparr>hp_pps_list := hp_pps_list out @ ha_nalus a\<rparr>
      else out)"

definition hevc_sets_of_hvcc :: "hvcc \<Rightarrow> hevc_parameter_sets" where
  "hevc_sets_of_hvcc h = add_hvcc_arrays (hv_arrays h)
     \<lparr>hp_vps_list = [], hp_sps_list = [], hp_pps_list = [],
      hp_general_profile_space = hv_general_profile_space h,
      hp_general_tier_flag = hv_general_tier_flag h,
      hp_general_profile_idc = hv_general_profile_idc h,
      hp_general_profile_compatibility_flags = hv_general_profile_compatibility_flags h,
      hp_general_constraint_indicator_flags = hv_general_constraint_indicator_flags h,
      hp_general_level_idc = hv_general_level_idc h\<rparr>"

definition extract_hevc_parameter_sets :: "mp4_decoder \<Rightarrow> bytes \<Rightarrow> hevc_parameter_sets option" where
  "extract_hevc_parameter_sets dec init = first_some (\<lambda>codec. case codec of
     Hev1 _ _ h \<Rightarrow> Some (hevc_sets_of_hvcc h) | _ \<Rightarrow> None) (movie_codecs dec init)"

record aac_config =
  ac_asc :: bytes
  ac_object_type :: u8
  ac_sample_rate :: u32
  ac_channels :: u8

definition aac_sample_rate_from_freq_index :: "u8 \<Rightarrow> u32" where
  "aac_sample_rate_from_freq_index i =
     (if i = 0 then 96000 else if i = 1 then 88200 else if i = 2 then 64000 else if i = 3 then 48000
      else if i = 4 then 44100 else if i = 5 then 32000 else if i = 6 then 24000 else if i = 7 then 22050
      else if i = 8 then 16000 else if i = 9 then 12000 else if i = 10 then 11025 else if i = 11 then 8000
      else if i = 12 then 7350 else 0)"

definition build_short_asc :: "u8 \<Rightarrow> u8 \<Rightarrow> u8 \<Rightarrow> bytes" where
  "build_short_asc profile freq_index chan_conf =
     [push_bit 3 profile OR drop_bit 1 freq_index, push_bit 7 (freq_index AND 1) OR push_bit 3 chan_conf]"

text \<open>The search stops at the first \<open>mp4a\<close> entry, also when its frequency index is unknown.\<close>

definition extract_aac_config :: "mp4_decoder \<Rightarrow> bytes \<Rightarrow> aac_config option" where
  "extract_aac_config dec init =
     (case first_some (\<lambda>codec. case codec of Mp4a _ ds \<Rightarrow> Some ds | _ \<Rightarrow> None) (movie_codecs dec init) of
        None \<Rightarrow> None
      | Some ds \<Rightarrow>
          (let sample_rate = aac_sample_rate_from_freq_index (ds_freq_index ds) in
           if sample_rate = 0 then None
           else Some \<lparr>ac_asc = build_short_asc (ds_profile ds) (ds_freq_index ds) (ds_chan_conf ds),
             ac_object_type = ds_profile ds, ac_sample_rate = sample_rate, ac_channels = ds_chan_conf ds\<rparr>))"

record opus_config =
  oc_channels :: u8
  oc_pre_skip :: u16
  oc_input_sample_rate :: u32
  oc_output_gain :: u16
  oc_dops_bytes :: bytes

definition extract_opus_config :: "mp4_decoder \<Rightarrow> bytes \<Rightarrow> opus_config option" where
  "extract_opus_config dec init = first_some (\<lambda>codec. case codec of
     OpusEntry _ d \<Rightarrow> Some \<lparr>oc_channels = do_output_channel_count d, oc_pre_skip = do_pre_skip d,
       oc_input_sample_rate = do_input_sample_rate d, oc_output_gain = do_output_gain d,
       oc_dops_bytes = [0, do_output_channel_count d] @ be16_bytes (do_pre_skip d) @
         be32_bytes (do_input_sample_rate d) @ be16_bytes (do_output_gain d) @ [0]\<rparr>
   | _ \<Rightarrow> None) (movie_codecs dec init)"

section \<open>Lemmas\<close>

lemma encode_init_read:
  "mp4_ok enc dec \<Longrightarrow> encode_init enc m = Ok bs \<Longrightarrow> movie_codecs dec bs = concat (map tk_codecs (mv_traks m))"
  by (auto simp: encode_init_def mp4_ok_def movie_codecs_def split: option.splits)

lemma video_init_codecs:
  "mp4_ok enc dec \<Longrightarrow> encode_init enc (video_moov ts w h c) = Ok bs \<Longrightarrow> movie_codecs dec bs = [c]"
  by (simp add: encode_init_read video_moov_def)

lemma audio_init_codecs:
  "mp4_ok enc dec \<Longrightarrow> encode_init enc (audio_moov ts name c) = Ok bs \<Longrightarrow> movie_codecs dec bs = [c]"
  by (simp add: encode_init_read audio_moov_def)

lemma list_position_Some: "list_position x xs = Some i \<Longrightarrow> i < length xs \<and> xs ! i = x"
  by (induction xs arbitrary: i) (auto split: if_splits)

lemma frequency_table:
  "i < 13 \<Longrightarrow> aac_sample_rate_from_freq_index (of_nat i) = AAC_SAMPLE_FREQUENCIES ! i"
proof -
  assume "i < 13"
  then have "i \<in> set [0..<13]" by simp
  moreover have "list_all (\<lambda>i. aac_sample_rate_from_freq_index (of_nat i) = AAC_SAMPLE_FREQUENCIES ! i) [0..<13]"
    by code_simp
  ultimately show ?thesis by (simp add: list_all_iff)
qed

lemma nat_bit_above: "i < 2 ^ n \<Longrightarrow> n \<le> k \<Longrightarrow> \<not> bit i k" for i :: nat
proof -
  assume "i < 2 ^ n" "n \<le> k"
  then have "i < 2 ^ k" by (meson less_le_trans one_le_numeral power_increasing)
  then show ?thesis by (simp add: bit_iff_odd)
qed

lemma bit_u8_of_nat: "k < 8 \<Longrightarrow> bit (of_nat i :: u8) k \<longleftrightarrow> bit i k"
  by (simp add: bit_simps)

lemma short_asc_bits:
  assumes "t < 32" and "i < 16" and "ch < 16"
  shows "bit_stream (build_short_asc (of_nat t) (of_nat i) (of_nat ch)) =
    nat_bits 5 t @ nat_bits 4 i @ nat_bits 4 ch @ [False, False, False]"
proof -
  have above: "\<not> bit i k" "\<not> bit ch k" if "4 \<le> k" for k
    using nat_bit_above [of i 4 k] nat_bit_above [of ch 4 k] assms that by simp_all
  have b0: "byte_bits (push_bit 3 (of_nat t) OR drop_bit 1 (of_nat i)) = nat_bits 5 t @ [bit i 3, bit i 2, bit i 1]"
    using above(1) by (simp add: byte_bits_def nat_bits_def upt_rec bit_simps bit_u8_of_nat) (simp add: numeral_2_eq_2 numeral_3_eq_3)
  have b1: "byte_bits (push_bit 7 (of_nat i AND 1) OR push_bit 3 (of_nat ch)) =
      bit i 0 # nat_bits 4 ch @ [False, False, False]"
    using above(2) by (simp add: byte_bits_def nat_bits_def upt_rec bit_simps bit_u8_of_nat)
  show ?thesis
    unfolding bit_stream_def build_short_asc_def list.map concat.simps b0 b1 append_Nil2
    by (simp add: nat_bits_def upt_rec numeral_2_eq_2)
qed

lemma short_asc_plain:
  assumes "t < 31" and "i < 13" and "ch < 16" and "t \<noteq> 5" and "t \<noteq> 29"
  shows "parse_asc (build_short_asc (of_nat t) (of_nat i) (of_nat ch)) =
    Ok \<lparr>asc_object_type = of_nat t, asc_sample_rate = AAC_SAMPLE_FREQUENCIES ! i,
        asc_channel_config = of_nat ch, asc_sbr_present = False, asc_ps_present = False\<rparr>"
proof -
  let ?bs = "build_short_asc (of_nat t) (of_nat i) (of_nat ch)"
  have "bit_stream ?bs = asc_code t (Indexed i) ch (Indexed 0) 2 @ [False, False, False]"
    using assms by (simp add: short_asc_bits asc_code_def object_type_code_def)
  from reads_new [OF reads_asc this] assms show ?thesis
    by (simp add: parse_asc_def object_type_ok_def) (simp add: build_short_asc_def)
qed

lemma short_asc_sbr:
  assumes "t = 5 \<or> t = 29" and "i < 13" and "ch < 16"
  shows "parse_asc (build_short_asc (of_nat t) (of_nat i) (of_nat ch)) = Err (EndOfStream 4 3)"
proof -
  let ?bs = "build_short_asc (of_nat t) (of_nat i) (of_nat ch)"
  have t: "t < 31" using assms(1) by auto
  have bits: "bit_stream ?bs = object_type_code t @ rate_code (Indexed i) @ nat_bits 4 ch @ [False, False, False]"
    using assms t by (simp add: short_asc_bits object_type_code_def)
  define r where "r = reader_new ?bs"
  have 1: "read_object_type r = Ok (of_nat t, rd_advance 5 r)"
    using readsD [OF reads_object_type, of t r] bits t
    by (simp add: r_def object_type_ok_def object_type_code_def)
  have 2: "read_sample_rate (rd_advance 5 r) = Ok (AAC_SAMPLE_FREQUENCIES ! i, rd_advance 9 r)"
    using readsD [OF reads_sample_rate, of "Indexed i" "rd_advance 5 r"] bits t assms(2)
    by (simp add: r_def rd_rest_advance object_type_code_def)
  have 3: "read_bits 4 (rd_advance 9 r) = Ok (of_nat ch, rd_advance 13 r)"
    using readsD [OF reads_read_bits [of 4 ch], of "rd_advance 9 r"] bits t assms(2,3)
    by (simp add: r_def rd_rest_advance object_type_code_def)
  have "length (rd_rest (rd_advance 13 r)) = 3" using bits t by (simp add: r_def rd_rest_advance object_type_code_def)
  then have 4: "read_bits 4 (rd_advance 13 r) = Err (EndOfStream 4 3)"
    by (simp add: read_bits_def length_rd_rest)
  have "(of_nat t :: u8) = 5 \<or> (of_nat t :: u8) = 29" using assms(1) by auto
  then have "parse_asc_reader r = Err (EndOfStream 4 3)"
    by (auto simp: parse_asc_reader_def rd_bind_def 1 2 3 4 read_sbr_extension_def Let_def)
  then show ?thesis by (simp add: parse_asc_def r_def [symmetric]) (simp add: build_short_asc_def)
qed

lemma u8_as_nat: "\<exists>n < 256. (b :: u8) = of_nat n"
  using unsigned_less [of b, where 'a = nat] by (intro exI [of _ "unat b"]) simp

lemma byte_of_nat_unat: "n < 256 \<Longrightarrow> unat (of_nat n :: u8) = n"
  by (rule unat_of_nat_id) simp

lemma build_mp4a_read:
  assumes "parse_asc asc = Ok c" and "build_mp4a c = Ok m"
  shows "\<exists>a i. m = Mp4a a \<lparr>ds_profile = asc_object_type c, ds_freq_index = of_nat i, ds_chan_conf = asc_channel_config c\<rparr> \<and>
    i < 13 \<and> AAC_SAMPLE_FREQUENCIES ! i = asc_sample_rate c \<and> \<not> 31 < asc_object_type c"
proof -
  have "length AAC_SAMPLE_FREQUENCIES = 13" by (simp add: AAC_SAMPLE_FREQUENCIES_def)
  then show ?thesis
    using assms(2) list_position_Some [of "asc_sample_rate c" AAC_SAMPLE_FREQUENCIES]
    by (auto simp: build_mp4a_def split: option.splits if_splits)
qed

lemma frequency_nonzero: "i < 13 \<Longrightarrow> AAC_SAMPLE_FREQUENCIES ! i \<noteq> 0"
proof -
  assume "i < 13"
  then have "AAC_SAMPLE_FREQUENCIES ! i \<in> set AAC_SAMPLE_FREQUENCIES"
    by (intro nth_mem) (simp add: AAC_SAMPLE_FREQUENCIES_def)
  then show ?thesis using table_bounds by fastforce
qed

lemma short_asc_of_config:
  assumes "asc_wf c" and "\<not> 31 < asc_object_type c" and "i < 13" and "AAC_SAMPLE_FREQUENCIES ! i = asc_sample_rate c"
  shows "parse_asc (build_short_asc (asc_object_type c) (of_nat i) (asc_channel_config c)) =
    (if asc_sbr_present c then Err (EndOfStream 4 3) else Ok c)"
proof -
  obtain t where t: "asc_object_type c = of_nat t" "t < 256" using u8_as_nat by blast
  obtain ch where ch: "asc_channel_config c = of_nat ch" "ch < 256" using u8_as_nat by blast
  have ch16: "ch < 16" using assms(1) ch byte_of_nat_unat [of ch] by (simp add: asc_wf_def)
  have "unat (asc_object_type c) \<le> 31" using assms(2) by (simp add: not_less word_le_nat_alt)
  moreover have "t \<noteq> 31" using assms(1) t by (auto simp: asc_wf_def)
  ultimately have t31: "t < 31" using t byte_of_nat_unat [of t] by simp
  have sbr: "asc_sbr_present c = (t = 5 \<or> t = 29)" "asc_ps_present c = (t = 29)"
    using assms(1) t by (simp_all add: asc_wf_def of_nat_u8_numeral)
  show ?thesis
  proof (cases "asc_sbr_present c")
    case True
    then show ?thesis using short_asc_sbr [of t i ch] sbr assms(3) ch16 t ch by simp
  next
    case False
    then have "c = \<lparr>asc_object_type = of_nat t, asc_sample_rate = AAC_SAMPLE_FREQUENCIES ! i,
        asc_channel_config = of_nat ch, asc_sbr_present = False, asc_ps_present = False\<rparr>"
      using sbr assms(4) t ch by simp
    then show ?thesis using short_asc_plain [of t i ch] False sbr assms(3) ch16 t31 t ch by simp
  qed
qed


text \<open>The constructor of an \<open>avcC\<close> from one SPS and one PPS, as the crate documents it.\<close>

definition avcc_ok :: "(bytes \<Rightarrow> bytes \<Rightarrow> avcc option) \<Rightarrow> bool" where
  "avcc_ok avcc_new \<longleftrightarrow> (\<forall>sps pps a. avcc_new sps pps = Some a \<longrightarrow> 4 \<le> length sps \<and>
     av_sequence_parameter_sets a = [sps] \<and> av_picture_parameter_sets a = [pps] \<and>
     av_profile_indication a = sps ! 1 \<and> av_profile_compatibility a = sps ! 2 \<and> av_level_indication a = sps ! 3)"

lemma avc_sets_extracted:
  assumes "mp4_ok enc dec" and "avcc_ok avcc_new" and "write_avc_init_segment enc avcc_new p = Ok bs"
  shows "extract_avc_parameter_sets dec bs = Some \<lparr>ap_sps_list = [vi_sps p], ap_pps_list = [vi_pps p]\<rparr>"
    and "extract_hevc_parameter_sets dec bs = None"
    and "detect_video_codec_string dec bs = Some (''avc1.'' @ hex2 (vi_sps p ! 1) @ hex2 (vi_sps p ! 2) @ hex2 (vi_sps p ! 3))"
proof -
  from assms(3) obtain a where a: "avcc_new (vi_sps p) (vi_pps p) = Some a"
    "encode_init enc (video_moov (vi_timescale p) (vi_width p) (vi_height p) (Avc1 (vi_width p) (vi_height p) a)) = Ok bs"
    by (auto simp: write_avc_init_segment_def split: option.splits)
  have "movie_codecs dec bs = [Avc1 (vi_width p) (vi_height p) a]" by (rule video_init_codecs [OF assms(1) a(2)])
  moreover have "av_sequence_parameter_sets a = [vi_sps p]" "av_picture_parameter_sets a = [vi_pps p]"
    "av_profile_indication a = vi_sps p ! 1" "av_profile_compatibility a = vi_sps p ! 2"
    "av_level_indication a = vi_sps p ! 3"
    using assms(2) a(1) by (simp_all add: avcc_ok_def)
  ultimately show "extract_avc_parameter_sets dec bs = Some \<lparr>ap_sps_list = [vi_sps p], ap_pps_list = [vi_pps p]\<rparr>"
    "extract_hevc_parameter_sets dec bs = None"
    "detect_video_codec_string dec bs = Some (''avc1.'' @ hex2 (vi_sps p ! 1) @ hex2 (vi_sps p ! 2) @ hex2 (vi_sps p ! 3))"
    by (simp_all add: extract_avc_parameter_sets_def extract_hevc_parameter_sets_def detect_video_codec_string_def
        codec_string_for_codec_def)
qed

lemma hevc_sets_of_written:
  "hevc_sets_of_hvcc (hvcc_of_sps p) =
    \<lparr>hp_vps_list = [hi_vps p], hp_sps_list = [hi_sps p], hp_pps_list = [hi_pps p],
     hp_general_profile_space = general_profile_space (hi_sps_info p),
     hp_general_tier_flag = general_tier_flag (hi_sps_info p),
     hp_general_profile_idc = general_profile_idc (hi_sps_info p),
     hp_general_profile_compatibility_flags = be32_quad (general_profile_compatibility_flags (hi_sps_info p)),
     hp_general_constraint_indicator_flags = replicate 6 0,
     hp_general_level_idc = general_level_idc (hi_sps_info p)\<rparr>"
  by (simp add: hevc_sets_of_hvcc_def hvcc_of_sps_def)

lemma hevc_sets_extracted:
  assumes "mp4_ok enc dec" and "write_hevc_init_segment enc p = Ok bs"
  shows "extract_hevc_parameter_sets dec bs = Some (hevc_sets_of_hvcc (hvcc_of_sps p))"
    and "extract_avc_parameter_sets dec bs = None"
    and "detect_video_codec_string dec bs = Some (hvc1_codec_string (hvcc_of_sps p))"
proof -
  obtain w h where "movie_codecs dec bs = [Hev1 w h (hvcc_of_sps p)]"
    using video_init_codecs [OF assms(1)] assms(2) by (auto simp: write_hevc_init_segment_def Let_def)
  then show "extract_hevc_parameter_sets dec bs = Some (hevc_sets_of_hvcc (hvcc_of_sps p))"
    "extract_avc_parameter_sets dec bs = None"
    "detect_video_codec_string dec bs = Some (hvc1_codec_string (hvcc_of_sps p))"
    by (simp_all add: extract_avc_parameter_sets_def extract_hevc_parameter_sets_def detect_video_codec_string_def
        codec_string_for_codec_def)
qed

lemma opus_config_extracted:
  assumes "mp4_ok enc dec" and "write_opus_init_segment enc p = Ok bs"
  shows "\<exists>cfg. extract_opus_config dec bs = Some cfg \<and> oc_channels cfg = oi_channel_count p \<and>
    (oi_channel_count p = 1 \<or> oi_channel_count p = 2) \<and> oc_pre_skip cfg = oi_pre_skip p \<and>
    oc_input_sample_rate cfg = oi_input_sample_rate p \<and> length (oc_dops_bytes cfg) = 11 \<and>
    extract_aac_config dec bs = None"
proof -
  have c: "\<not> (oi_channel_count p = 0 \<or> 2 < oi_channel_count p)"
    using assms(2) by (auto simp: write_opus_init_segment_def)
  then have "unat (oi_channel_count p) \<noteq> 0" "unat (oi_channel_count p) \<le> 2"
    by (simp_all add: word_le_nat_alt not_less unat_eq_0)
  then have "unat (oi_channel_count p) = 1 \<or> unat (oi_channel_count p) = 2" by linarith
  then have "oi_channel_count p = 1 \<or> oi_channel_count p = 2" by (auto simp: word_unat_eq_iff)
  moreover obtain a where "movie_codecs dec bs = [OpusEntry a \<lparr>do_output_channel_count = oi_channel_count p,
      do_pre_skip = oi_pre_skip p, do_input_sample_rate = oi_input_sample_rate p, do_output_gain = 0\<rparr>]"
    using audio_init_codecs [OF assms(1)] assms(2) c by (auto simp: write_opus_init_segment_def split: if_splits)
  ultimately show ?thesis by (simp add: extract_opus_config_def extract_aac_config_def)
qed


section \<open>Witnesses\<close>

text \<open>A box codec for a single movie, which satisfies the law.\<close>

definition one_movie_encoder :: "moov \<Rightarrow> mp4_encoder" where
  "one_movie_encoder m0 brands m = (if m = m0 then Some [1] else None)"

definition one_movie_decoder :: "moov \<Rightarrow> mp4_decoder" where
  "one_movie_decoder m0 bs = (if bs = [1] then Some m0 else None)"

lemma one_movie_ok: "mp4_ok (one_movie_encoder m0) (one_movie_decoder m0)"
  by (simp add: mp4_ok_def one_movie_encoder_def one_movie_decoder_def)

definition he_aac_moov :: moov where
  "he_aac_moov = audio_moov 24000 ''LVQR Audio'' (Mp4a
     \<lparr>ae_channel_count = 1, ae_sample_size = 16, ae_sample_rate = 24000\<rparr>
     \<lparr>ds_profile = 29, ds_freq_index = 6, ds_chan_conf = 1\<rparr>)"


definition sps_avcc :: "bytes \<Rightarrow> bytes \<Rightarrow> avcc option" where
  "sps_avcc sps pps = (if length sps < 4 then None
     else Some \<lparr>av_profile_indication = sps ! 1, av_profile_compatibility = sps ! 2, av_level_indication = sps ! 3,
       av_sequence_parameter_sets = [sps], av_picture_parameter_sets = [pps]\<rparr>)"

definition cam_params :: video_init_params where
  "cam_params = \<lparr>vi_sps = [0x67, 0x42, 0x00, 0x1F], vi_pps = [0x68, 0xEB], vi_width = 1280, vi_height = 720,
     vi_timescale = 90000\<rparr>"

definition cam_moov :: moov where
  "cam_moov = video_moov 90000 1280 720 (Avc1 1280 720
     \<lparr>av_profile_indication = 0x42, av_profile_compatibility = 0, av_level_indication = 0x1F,
       av_sequence_parameter_sets = [[0x67, 0x42, 0x00, 0x1F]], av_picture_parameter_sets = [[0x68, 0xEB]]\<rparr>)"


end
