(* ===== verification/Sdp.thy ===== *)
theory Sdp
  imports Ustr InitSegment RtpAudio
begin

text \<open>
  Session descriptions: the renderer of the PLAY description, \<open>lvqr-rtsp/src/sdp.rs\<close>, and the track parser
  that reads the body of an ANNOUNCE, in \<open>session.rs\<close>.  The base64 encoder is the crate \<open>base64\<close>, an
  argument here; the printed host address is part of the description.
\<close>

section \<open>Tracks and their parser\<close>

datatype media_type = VideoMedia | AudioMedia

datatype track_codec = H264Codec | H265Codec | AacCodec | OpusCodec | UnknownCodec

record track_info =
  ti_media_type :: media_type
  ti_codec :: track_codec
  ti_clock_rate :: u32
  ti_control :: ustr
  ti_fmtp :: "ustr option"

definition track_codec_of_name :: "ustr \<Rightarrow> track_codec" where
  "track_codec_of_name name =
     (let name = to_ascii_uppercase name in
      if name = ustr_of ''H264'' then H264Codec
      else if name = ustr_of ''H265'' \<or> name = ustr_of ''HEVC'' then H265Codec
      else if name = ustr_of ''MPEG4-GENERIC'' then AacCodec
      else if name = ustr_of ''OPUS'' then OpusCodec
      else UnknownCodec)"

definition media_line :: "ustr \<Rightarrow> track_info option" where
  "media_line rest =
     (case split_whitespace rest of
        kind # _ # _ # pt # _ \<Rightarrow>
          if kind \<noteq> ustr_of ''video'' \<and> kind \<noteq> ustr_of ''audio'' then None
          else Some \<lparr>ti_media_type = if kind = ustr_of ''video'' then VideoMedia else AudioMedia,
            ti_codec = UnknownCodec,
            ti_clock_rate = (case parse_uint (2 ^ 32) pt of None \<Rightarrow> 90000 | Some n \<Rightarrow> of_nat n),
            ti_control = [], ti_fmtp = None\<rparr>
      | _ \<Rightarrow> None)"

definition rtpmap_attribute :: "ustr \<Rightarrow> track_info \<Rightarrow> track_info" where
  "rtpmap_attribute val track =
     (let codec_part = (case split_whitespace (str_trim val) of _ # c # _ \<Rightarrow> c | _ \<Rightarrow> []);
          (codec_name, rate_str) = (case str_split_once 47 codec_part of Some p \<Rightarrow> p | None \<Rightarrow> (codec_part, []));
          track = track\<lparr>ti_codec := track_codec_of_name codec_name\<rparr> in
      case parse_uint (2 ^ 32) (hd (str_split 47 rate_str)) of
        Some rate \<Rightarrow> track\<lparr>ti_clock_rate := of_nat rate\<rparr> | None \<Rightarrow> track)"

definition attribute_line :: "ustr \<Rightarrow> track_info \<Rightarrow> track_info" where
  "attribute_line rest track =
     (case strip_prefix (ustr_of ''control:'') rest of Some val \<Rightarrow> track\<lparr>ti_control := str_trim val\<rparr>
      | None \<Rightarrow> (case strip_prefix (ustr_of ''rtpmap:'') rest of Some val \<Rightarrow> rtpmap_attribute val track
      | None \<Rightarrow> (case strip_prefix (ustr_of ''fmtp:'') rest of
          Some val \<Rightarrow> track\<lparr>ti_fmtp := Some (str_trim val)\<rparr> | None \<Rightarrow> track)))"

text \<open>One line of the loop: the finished tracks and the one being filled.\<close>

definition trim_end_cr :: "ustr \<Rightarrow> ustr" where
  "trim_end_cr line = rev (dropWhile (\<lambda>c. c = 13) (rev line))"

definition sdp_line :: "track_info list \<times> track_info option \<Rightarrow> ustr \<Rightarrow> track_info list \<times> track_info option" where
  "sdp_line st line =
     (let line = trim_end_cr line; (tracks, current) = st in
      case strip_prefix (ustr_of ''m='') line of
        Some rest \<Rightarrow> (case current of Some t \<Rightarrow> tracks @ [t] | None \<Rightarrow> tracks, media_line rest)
      | None \<Rightarrow> (case strip_prefix (ustr_of ''a='') line of
          Some rest \<Rightarrow> (tracks, map_option (attribute_line rest) current)
        | None \<Rightarrow> (tracks, current)))"

definition finish_tracks :: "track_info list \<times> track_info option \<Rightarrow> track_info list" where
  "finish_tracks st = (case st of (tracks, Some t) \<Rightarrow> tracks @ [t] | (tracks, None) \<Rightarrow> tracks)"

definition parse_sdp_tracks :: "ustr \<Rightarrow> track_info list" where
  "parse_sdp_tracks sdp = finish_tracks (foldl sdp_line ([], None) (str_lines sdp))"

section \<open>The PLAY description\<close>

record h264_track =
  h4_payload_type :: u8
  h4_clock_rate :: u32
  h4_control :: ustr
  h4_params :: avc_parameter_sets

record hevc_track =
  h5_payload_type :: u8
  h5_clock_rate :: u32
  h5_control :: ustr
  h5_params :: hevc_parameter_sets

record aac_track =
  at_payload_type :: u8
  at_control :: ustr
  at_config :: aac_config

record opus_track =
  ot_payload_type :: u8
  ot_control :: ustr
  ot_config :: opus_config

datatype video_description = H264Video h264_track | HevcVideo hevc_track

datatype audio_description = AacAudio aac_track | OpusAudio opus_track

record play_sdp =
  ps_session_name :: ustr
  ps_host_is_v4 :: bool
  ps_host_text :: ustr
  ps_video :: "video_description option"
  ps_audio :: "audio_description option"

type_synonym base64_encoder = "bytes \<Rightarrow> ustr"

definition ustr_join :: "ustr \<Rightarrow> ustr list \<Rightarrow> ustr" where
  "ustr_join sep parts = (case parts of [] \<Rightarrow> [] | p # ps \<Rightarrow> p @ concat (map (\<lambda>q. sep @ q) ps))"

definition u8_dec :: "u8 \<Rightarrow> ustr" where
  "u8_dec b = nat_str (unat b)"

definition hex2_ustr :: "u8 \<Rightarrow> ustr" where
  "hex2_ustr b = ustr_of (hex2 b)"

definition profile_level_id_from_avc :: "avc_parameter_sets \<Rightarrow> ustr" where
  "profile_level_id_from_avc params =
     (case ap_sps_list params of
        nal # _ \<Rightarrow> if 4 \<le> length nal then hex2_ustr (nal ! 1) @ hex2_ustr (nal ! 2) @ hex2_ustr (nal ! 3)
          else ustr_of ''640028''
      | [] \<Rightarrow> ustr_of ''640028'')"

definition sprop_parameter_sets :: "base64_encoder \<Rightarrow> avc_parameter_sets \<Rightarrow> ustr" where
  "sprop_parameter_sets b64 params = ustr_join (ustr_of '','') (map b64 (ap_sps_list params) @ map b64 (ap_pps_list params))"

definition join_base64 :: "base64_encoder \<Rightarrow> bytes list \<Rightarrow> ustr" where
  "join_base64 b64 nalus = ustr_join (ustr_of '','') (map b64 nalus)"

definition fmtp_value :: "u8 \<Rightarrow> ustr list \<Rightarrow> ustr" where
  "fmtp_value pt parts = u8_dec pt @ 32 # ustr_join (ustr_of '';'') parts"

definition block_lines :: "ustr \<Rightarrow> ustr \<Rightarrow> u8 \<Rightarrow> ustr \<Rightarrow> ustr list \<Rightarrow> ustr \<Rightarrow> ustr list" where
  "block_lines kind addr_family pt rtpmap fmtp_parts control =
     [ustr_of ''m='' @ kind @ ustr_of '' 0 RTP/AVP '' @ u8_dec pt,
      ustr_of ''c=IN '' @ addr_family @ ustr_of '' 0.0.0.0'',
      ustr_of ''a=rtpmap:'' @ u8_dec pt @ 32 # rtpmap,
      ustr_of ''a=fmtp:'' @ fmtp_value pt fmtp_parts,
      ustr_of ''a=control:'' @ control]"

definition h264_fmtp :: "base64_encoder \<Rightarrow> avc_parameter_sets \<Rightarrow> ustr list" where
  "h264_fmtp b64 params =
     [ustr_of ''profile-level-id='' @ profile_level_id_from_avc params,
      ustr_of ''packetization-mode=1'',
      ustr_of ''sprop-parameter-sets='' @ sprop_parameter_sets b64 params]"

definition render_h264_block :: "base64_encoder \<Rightarrow> ustr \<Rightarrow> h264_track \<Rightarrow> ustr list" where
  "render_h264_block b64 addr_family v =
     block_lines (ustr_of ''video'') addr_family (h4_payload_type v)
       (ustr_of ''H264/'' @ nat_str (unat (h4_clock_rate v))) (h264_fmtp b64 (h4_params v)) (h4_control v)"

definition hex8_ustr :: "u32 \<Rightarrow> ustr" where
  "hex8_ustr w = ustr_of (pad0 8 (hex_upper (unat w)))"

definition hevc_fmtp :: "base64_encoder \<Rightarrow> hevc_parameter_sets \<Rightarrow> ustr list" where
  "hevc_fmtp b64 p =
     [ustr_of ''profile-space='' @ u8_dec (hp_general_profile_space p),
      ustr_of ''profile-id='' @ u8_dec (hp_general_profile_idc p),
      ustr_of ''tier-flag='' @ u8_dec (if hp_general_tier_flag p then 1 else 0),
      ustr_of ''level-id='' @ u8_dec (hp_general_level_idc p),
      ustr_of ''profile-compatibility-indicator='' @
        (case hp_general_profile_compatibility_flags p of (a, b, c, d) \<Rightarrow> hex8_ustr (be32 a b c d)),
      ustr_of ''interop-constraints='' @ concat (map hex2_ustr (hp_general_constraint_indicator_flags p)),
      ustr_of ''sprop-vps='' @ join_base64 b64 (hp_vps_list p),
      ustr_of ''sprop-sps='' @ join_base64 b64 (hp_sps_list p),
      ustr_of ''sprop-pps='' @ join_base64 b64 (hp_pps_list p)]"

definition render_hevc_block :: "base64_encoder \<Rightarrow> ustr \<Rightarrow> hevc_track \<Rightarrow> ustr list" where
  "render_hevc_block b64 addr_family v =
     block_lines (ustr_of ''video'') addr_family (h5_payload_type v)
       (ustr_of ''H265/'' @ nat_str (unat (h5_clock_rate v))) (hevc_fmtp b64 (h5_params v)) (h5_control v)"

definition aac_profile_level_id :: "aac_config \<Rightarrow> u8" where
  "aac_profile_level_id config = 1"

definition aac_fmtp :: "aac_config \<Rightarrow> ustr list" where
  "aac_fmtp config =
     [ustr_of ''streamtype=5'',
      ustr_of ''profile-level-id='' @ u8_dec (aac_profile_level_id config),
      ustr_of ''mode=AAC-hbr'', ustr_of ''sizelength=13'', ustr_of ''indexlength=3'', ustr_of ''indexdeltalength=3'',
      ustr_of ''config='' @ concat (map hex2_ustr (ac_asc config))]"

definition render_aac_block :: "ustr \<Rightarrow> aac_track \<Rightarrow> ustr list" where
  "render_aac_block addr_family a =
     block_lines (ustr_of ''audio'') addr_family (at_payload_type a)
       (ustr_of ''mpeg4-generic/'' @ nat_str (unat (ac_sample_rate (at_config a))) @ 47 # u8_dec (ac_channels (at_config a)))
       (aac_fmtp (at_config a)) (at_control a)"

definition opus_fmtp :: "opus_config \<Rightarrow> ustr list" where
  "opus_fmtp config =
     [ustr_of ''sprop-stereo='' @ u8_dec (if 2 \<le> oc_channels config then 1 else 0), ustr_of ''useinbandfec=1'']"

definition render_opus_block :: "ustr \<Rightarrow> opus_track \<Rightarrow> ustr list" where
  "render_opus_block addr_family t =
     block_lines (ustr_of ''audio'') addr_family (ot_payload_type t)
       (ustr_of ''opus/48000/'' @ u8_dec (max (oc_channels (ot_config t)) 1))
       (opus_fmtp (ot_config t)) (ot_control t)"

definition sdp_render_lines :: "base64_encoder \<Rightarrow> play_sdp \<Rightarrow> ustr list" where
  "sdp_render_lines b64 sdp =
     (let addr_family = (if ps_host_is_v4 sdp then ustr_of ''IP4'' else ustr_of ''IP6'') in
      [ustr_of ''v=0'', ustr_of ''o=- 0 0 IN '' @ addr_family @ 32 # ps_host_text sdp,
       ustr_of ''s='' @ ps_session_name sdp, ustr_of ''t=0 0'', ustr_of ''a=control:*''] @
      (case ps_video sdp of Some (H264Video v) \<Rightarrow> render_h264_block b64 addr_family v
         | Some (HevcVideo v) \<Rightarrow> render_hevc_block b64 addr_family v | None \<Rightarrow> []) @
      (case ps_audio sdp of Some (AacAudio a) \<Rightarrow> render_aac_block addr_family a
         | Some (OpusAudio t) \<Rightarrow> render_opus_block addr_family t | None \<Rightarrow> []))"

definition sdp_render :: "base64_encoder \<Rightarrow> play_sdp \<Rightarrow> ustr" where
  "sdp_render b64 sdp = crlf_lines (sdp_render_lines b64 sdp)"

section \<open>Lemmas: one media block\<close>

lemma ustr_join_simps [simp]:
  "ustr_join sep [] = []" "ustr_join sep [p] = p" "ustr_join sep (p # q # ps) = p @ sep @ ustr_join sep (q # ps)"
  by (simp_all add: ustr_join_def)

lemma str_split_join:
  "ps \<noteq> [] \<Longrightarrow> list_all (\<lambda>p. c \<notin> set p) ps \<Longrightarrow> str_split c (ustr_join [c] ps) = ps"
proof (induction ps rule: induct_list012)
  case (3 p q ps)
  then show ?case by (simp add: str_split_sep)
qed (simp_all add: str_split_last)

definition no_space :: "ustr \<Rightarrow> bool" where
  "no_space s \<longleftrightarrow> list_all (\<lambda>c. \<not> is_whitespace c) s"

lemma no_space_simps [simp]: "no_space []" "no_space (c # s) \<longleftrightarrow> \<not> is_whitespace c \<and> no_space s"
  "no_space (s @ t) \<longleftrightarrow> no_space s \<and> no_space t"
  by (simp_all add: no_space_def)

lemma no_space_concat [simp]: "no_space (concat ss) \<longleftrightarrow> list_all no_space ss"
  by (induction ss) auto

lemma no_space_join [simp]: "no_space sep \<Longrightarrow> list_all no_space ps \<Longrightarrow> no_space (ustr_join sep ps)"
  by (cases ps) (auto simp: ustr_join_def list_all_iff)

lemma no_space_nat_str [simp]: "no_space (nat_str n)"
  using nat_str_digits [of n] ustr_digit_plain by (auto simp: no_space_def list_all_iff)

lemma no_space_u8_dec [simp]: "no_space (u8_dec b)"
  by (simp add: u8_dec_def)

lemma no_space_no_crlf: "no_space s \<Longrightarrow> 13 \<notin> set s \<and> 10 \<notin> set s \<and> 32 \<notin> set s"
  unfolding no_space_def list_all_iff using not_whitespaceD by blast

lemma trim_end_cr_id: "13 \<notin> set s \<Longrightarrow> trim_end_cr s = s"
proof -
  assume "13 \<notin> set s"
  then have "dropWhile (\<lambda>c. c = 13) (rev s) = rev s"
    by (subst dropWhile_eq_self_iff) (metis hd_in_set set_rev)
  then show ?thesis by (simp add: trim_end_cr_def)
qed

lemma trimmed_words: "no_space s \<Longrightarrow> no_space t \<Longrightarrow> s \<noteq> [] \<Longrightarrow> t \<noteq> [] \<Longrightarrow> trimmed (s @ 32 # t)"
proof -
  assume a: "no_space s" "no_space t" "s \<noteq> []" "t \<noteq> []"
  then have "hd s \<in> set s" "last t \<in> set t" by simp_all
  with a(1,2) have "\<not> is_whitespace (hd s)" "\<not> is_whitespace (last t)"
    unfolding no_space_def list_all_iff by blast+
  then show ?thesis using a(3,4) by (simp add: trimmed_def)
qed

lemma split_words2: "no_space s \<Longrightarrow> no_space t \<Longrightarrow> s \<noteq> [] \<Longrightarrow> t \<noteq> [] \<Longrightarrow> split_whitespace (s @ 32 # t) = [s, t]"
  by (subst split_whitespace_word) (simp_all add: no_space_def split_whitespace_last is_whitespace_def)

lemma u8_dec_nonempty [simp]: "u8_dec b \<noteq> []"
  by (simp add: u8_dec_def)

text \<open>What a rendered block parses to, for an encoding name and a rate that fit a word.\<close>

definition block_track :: "media_type \<Rightarrow> track_codec \<Rightarrow> u32 \<Rightarrow> u8 \<Rightarrow> ustr list \<Rightarrow> ustr \<Rightarrow> track_info" where
  "block_track kind codec rate pt parts control =
     \<lparr>ti_media_type = kind, ti_codec = codec, ti_clock_rate = rate, ti_control = control,
      ti_fmtp = Some (fmtp_value pt parts)\<rparr>"

lemma media_line_block:
  assumes "kind = ustr_of ''video'' \<or> kind = ustr_of ''audio''"
  shows "media_line (kind @ ustr_of '' 0 RTP/AVP '' @ u8_dec pt) =
    Some \<lparr>ti_media_type = if kind = ustr_of ''video'' then VideoMedia else AudioMedia, ti_codec = UnknownCodec,
      ti_clock_rate = ucast pt, ti_control = [], ti_fmtp = None\<rparr>"
proof -
  have s: "is_whitespace 32" by (simp add: is_whitespace_def)
  have k: "kind \<noteq> []" "list_all (\<lambda>c. \<not> is_whitespace c) kind"
    using assms by (auto simp: ustr_of_def is_whitespace_def)
  have w: "[48] \<noteq> ([] :: ustr)" "list_all (\<lambda>c. \<not> is_whitespace c) [48]"
    "ustr_of ''RTP/AVP'' \<noteq> []" "list_all (\<lambda>c. \<not> is_whitespace c) (ustr_of ''RTP/AVP'')"
    "u8_dec pt \<noteq> []" "list_all (\<lambda>c. \<not> is_whitespace c) (u8_dec pt)"
    using no_space_u8_dec [of pt] by (simp_all add: ustr_of_def is_whitespace_def no_space_def)
  have e: "kind @ ustr_of '' 0 RTP/AVP '' @ u8_dec pt = kind @ 32 # [48] @ 32 # ustr_of ''RTP/AVP'' @ 32 # u8_dec pt"
    by (simp add: ustr_of_def)
  have "split_whitespace (kind @ ustr_of '' 0 RTP/AVP '' @ u8_dec pt) = [kind, [48], ustr_of ''RTP/AVP'', u8_dec pt]"
    unfolding e by (simp only: split_whitespace_word [OF k s] split_whitespace_word [OF w(1,2) s]
        split_whitespace_word [OF w(3,4) s] split_whitespace_last [OF w(5,6)])
  moreover have "unat pt < 2 ^ 32" using unsigned_less [of pt, where 'a = nat] by simp
  moreover have "(of_nat (unat pt) :: u32) = ucast pt" by (simp add: word_unat_eq_iff unsigned_ucast_eq unsigned_of_nat take_bit_eq_mod)
  ultimately show ?thesis using assms by (auto simp: media_line_def u8_dec_def parse_uint_nat_str)
qed

lemma rtpmap_block:
  assumes "no_space name" and "name \<noteq> []" and "47 \<notin> set name" and "tail = [] \<or> (\<exists>t. tail = 47 # t \<and> no_space t)"
  shows "rtpmap_attribute (u8_dec pt @ 32 # name @ 47 # nat_str (unat rate) @ tail) track =
    track\<lparr>ti_codec := track_codec_of_name name, ti_clock_rate := rate\<rparr>"
proof -
  let ?c = "name @ 47 # nat_str (unat rate) @ tail"
  have sl: "\<not> is_whitespace 47" by (simp add: is_whitespace_def)
  have c: "no_space ?c" "?c \<noteq> []" using assms sl by auto
  have "trimmed (u8_dec pt @ 32 # ?c)" by (rule trimmed_words [OF no_space_u8_dec c(1)]) simp_all
  moreover have "split_whitespace (u8_dec pt @ 32 # ?c) = [u8_dec pt, ?c]"
    by (rule split_words2 [OF no_space_u8_dec c(1)]) simp_all
  moreover have "str_split_once 47 ?c = Some (name, nat_str (unat rate) @ tail)"
    by (rule split_once_sep [OF assms(3)])
  moreover have "hd (str_split 47 (nat_str (unat rate) @ tail)) = nat_str (unat rate)"
    using assms(4) nat_str_no [of 47 "unat rate"] by (auto simp: str_split_last str_split_sep ustr_digit_def)
  moreover have "unat rate < 2 ^ 32" using unsigned_less [of rate, where 'a = nat] by simp
  ultimately show ?thesis by (simp add: rtpmap_attribute_def Let_def parse_uint_nat_str)
qed

lemma fmtp_value_trimmed:
  assumes "list_all no_space parts" and "parts \<noteq> []" and "hd parts \<noteq> []"
  shows "trimmed (fmtp_value pt parts)" and "13 \<notin> set (fmtp_value pt parts)" and "10 \<notin> set (fmtp_value pt parts)"
proof -
  have j: "no_space (ustr_join (ustr_of '';'') parts)"
    using assms(1) by (intro no_space_join) (simp_all add: ustr_of_def is_whitespace_def)
  moreover have "ustr_join (ustr_of '';'') parts \<noteq> []" using assms(2,3) by (cases parts) (auto simp: ustr_join_def)
  ultimately show "trimmed (fmtp_value pt parts)" unfolding fmtp_value_def by (intro trimmed_words) simp_all
  show "13 \<notin> set (fmtp_value pt parts)" "10 \<notin> set (fmtp_value pt parts)"
    using no_space_no_crlf [OF j] no_space_no_crlf [OF no_space_u8_dec [of pt]] by (simp_all add: fmtp_value_def)
qed

definition control_ok :: "ustr \<Rightarrow> bool" where
  "control_ok s \<longleftrightarrow> trimmed s \<and> 10 \<notin> set s \<and> 13 \<notin> set s"

lemma sdp_line_m: "13 \<notin> set rest \<Longrightarrow> sdp_line (tracks, cur) (ustr_of ''m='' @ rest) =
    (case cur of Some t \<Rightarrow> tracks @ [t] | None \<Rightarrow> tracks, media_line rest)"
  by (simp add: sdp_line_def Let_def trim_end_cr_id ustr_of_def)

lemma sdp_line_a: "13 \<notin> set rest \<Longrightarrow> sdp_line (tracks, cur) (ustr_of ''a='' @ rest) =
    (tracks, map_option (attribute_line rest) cur)"
  by (simp add: sdp_line_def Let_def trim_end_cr_id ustr_of_def)

lemma sdp_line_other: "13 \<notin> set l \<Longrightarrow> hd l \<noteq> 109 \<Longrightarrow> hd l \<noteq> 97 \<Longrightarrow> l \<noteq> [] \<Longrightarrow> sdp_line (tracks, cur) l = (tracks, cur)"
  by (cases l) (simp_all add: sdp_line_def Let_def trim_end_cr_id ustr_of_def)

lemma attribute_control: "control_ok c \<Longrightarrow> attribute_line (ustr_of ''control:'' @ c) t = t\<lparr>ti_control := c\<rparr>"
  by (simp add: attribute_line_def control_ok_def)

lemma attribute_rtpmap: "attribute_line (ustr_of ''rtpmap:'' @ v) t = rtpmap_attribute v t"
  by (simp add: attribute_line_def) (simp add: ustr_of_def)

lemma attribute_fmtp: "trimmed v \<Longrightarrow> attribute_line (ustr_of ''fmtp:'' @ v) t = t\<lparr>ti_fmtp := Some v\<rparr>"
  by (simp add: attribute_line_def) (simp add: ustr_of_def)

lemma block_parsed:
  assumes kind: "kind = ustr_of ''video'' \<or> kind = ustr_of ''audio''"
    and name: "no_space name" "name \<noteq> []" "47 \<notin> set name" "tail = [] \<or> (\<exists>t. tail = 47 # t \<and> no_space t)"
    and parts: "list_all no_space parts" "parts \<noteq> []" "hd parts \<noteq> []"
    and control: "control_ok control" and fam: "no_space fam"
  shows "foldl sdp_line (tracks, cur)
      (block_lines kind fam pt (name @ 47 # nat_str (unat rate) @ tail) parts control) =
    (case cur of Some t \<Rightarrow> tracks @ [t] | None \<Rightarrow> tracks,
     Some (block_track (if kind = ustr_of ''video'' then VideoMedia else AudioMedia) (track_codec_of_name name) rate pt parts control))"
proof -
  have cr: "13 \<notin> set (kind @ ustr_of '' 0 RTP/AVP '' @ u8_dec pt)"
    using kind no_space_no_crlf [OF no_space_u8_dec [of pt]] by (auto simp: ustr_of_def)
  have c: "13 \<notin> set (ustr_of ''c=IN '' @ fam @ ustr_of '' 0.0.0.0'')"
    using no_space_no_crlf [OF fam] by (simp add: ustr_of_def)
  have sl: "\<not> is_whitespace 47" by (simp add: is_whitespace_def)
  have "no_space (name @ 47 # nat_str (unat rate) @ tail)" using name sl by auto
  then have r: "13 \<notin> set (ustr_of ''rtpmap:'' @ u8_dec pt @ 32 # name @ 47 # nat_str (unat rate) @ tail)"
    using no_space_no_crlf [OF no_space_u8_dec [of pt]] no_space_no_crlf by (simp add: ustr_of_def)
  have f: "13 \<notin> set (ustr_of ''fmtp:'' @ fmtp_value pt parts)"
    using fmtp_value_trimmed(2) [OF parts, of pt] by (simp add: ustr_of_def)
  have l: "13 \<notin> set (ustr_of ''control:'' @ control)" using control by (simp add: control_ok_def ustr_of_def)
  have split: "ustr_of ''a=rtpmap:'' = ustr_of ''a='' @ ustr_of ''rtpmap:''" "ustr_of ''a=fmtp:'' = ustr_of ''a='' @ ustr_of ''fmtp:''"
    "ustr_of ''a=control:'' = ustr_of ''a='' @ ustr_of ''control:''"
    by (simp_all add: ustr_of_def)
  have o: "sdp_line (ts, x) (ustr_of ''c=IN '' @ fam @ ustr_of '' 0.0.0.0'') = (ts, x)" for ts x
    by (rule sdp_line_other [OF c]) (simp_all add: ustr_of_def)
  show ?thesis
    unfolding block_lines_def split append_assoc foldl_Cons foldl_Nil
    by (simp only: sdp_line_m [OF cr] o sdp_line_a [OF r] sdp_line_a [OF f] sdp_line_a [OF l] media_line_block [OF kind]
        option.map attribute_rtpmap rtpmap_block [OF name] attribute_fmtp [OF fmtp_value_trimmed(1) [OF parts]]
        attribute_control [OF control])
      (simp add: block_track_def)
qed

text \<open>The same for the shape of the lines.\<close>

lemma block_plain:
  assumes "kind = ustr_of ''video'' \<or> kind = ustr_of ''audio''" and "no_space rtpmap"
    and parts: "list_all no_space parts" "parts \<noteq> []" "hd parts \<noteq> []"
    and "control_ok control" and "no_space fam"
  shows "list_all plain_line (block_lines kind fam pt rtpmap parts control)"
  using assms(1,6) no_space_no_crlf [OF assms(2)] no_space_no_crlf [OF assms(7)] no_space_no_crlf [OF no_space_u8_dec [of pt]]
    fmtp_value_trimmed(2,3) [OF parts, of pt]
  by (auto simp: block_lines_def plain_line_def control_ok_def ustr_of_def)

section \<open>Lemmas: the whole description\<close>

lemma hex2_digits: "hex2 b = [digit_char (unat b div 16), digit_char (unat b mod 16)]"
proof -
  have "unat b < 256" using unsigned_less [of b, where 'a = nat] by simp
  then have "unat b div 16 < 16" by auto
  moreover have "CHR ''0'' = char_of (48 :: nat)" by (simp add: char_of_def bit_0)
  ultimately show ?thesis
    by (cases "unat b < 16") (simp_all add: hex2_def hex_upper_def pad0_def base_str.simps digit_char_def)
qed

lemma digit_char_code: "d < 16 \<Longrightarrow> (of_char (digit_char d) :: nat) = (if d < 10 then 48 + d else 55 + d)"
  by (simp add: digit_char_def)

lemma hex_digit_upper: "d < 16 \<Longrightarrow> hex_digit (of_char (digit_char d)) = Some d"
  by (auto simp: digit_char_code hex_digit_def)

lemma hex2_ustr_pair:
  "length (hex2_ustr b) = 2 \<and> ascii (hex2_ustr b) \<and> u8_from_hex (hex2_ustr b) = Some b \<and>
    list_all (\<lambda>c. \<not> is_whitespace c) (hex2_ustr b) \<and> 59 \<notin> set (hex2_ustr b)"
proof -
  have b: "unat b < 256" using unsigned_less [of b, where 'a = nat] by simp
  then have d: "unat b div 16 < 16" "unat b mod 16 < 16" by auto
  have "16 * (unat b div 16) + unat b mod 16 = unat b" by simp
  moreover have "(of_char (digit_char e) :: nat) \<noteq> 43 \<and> (of_char (digit_char e) :: nat) < 0x80 \<and>
      \<not> is_whitespace (of_char (digit_char e)) \<and> (of_char (digit_char e) :: nat) \<noteq> 59" if "e < 16" for e
    using that by (auto simp: digit_char_code is_whitespace_def)
  ultimately show ?thesis
    using d b by (simp add: hex2_ustr_def hex2_digits ustr_of_def ascii_def u8_from_hex_def hex_digit_upper)
qed

lemma no_space_hex2 [simp]: "no_space (hex2_ustr b)"
  using hex2_ustr_pair by (simp add: no_space_def)

lemma no_space_hex8 [simp]: "no_space (hex8_ustr w)"
proof -
  have "c \<in> set (base_str 16 n) \<Longrightarrow> \<exists>e < 16. c = digit_char e" for c n
  proof (induction n rule: less_induct)
    case (less n)
    show ?case
    proof (cases "n < 16")
      case True
      then show ?thesis using less.prems by (auto simp: base_str.simps)
    next
      case False
      then have "c \<in> set (base_str 16 (n div 16)) \<or> c = digit_char (n mod 16)"
        using less.prems by (subst (asm) base_str.simps) auto
      moreover have "n div 16 < n" using False by simp
      ultimately show ?thesis using less.IH by (metis mod_less_divisor zero_less_numeral)
    qed
  qed
  moreover have "\<not> is_whitespace (of_char (digit_char e))" if "e < 16" for e
    using that by (auto simp: digit_char_code is_whitespace_def)
  moreover have "\<not> is_whitespace 48" by (simp add: is_whitespace_def)
  ultimately show ?thesis
    by (auto simp: hex8_ustr_def pad0_def hex_upper_def no_space_def ustr_of_def list_all_iff)
qed

text \<open>The encoder's alphabet has no white space.\<close>

definition base64_ok :: "base64_encoder \<Rightarrow> bool" where
  "base64_ok b64 \<longleftrightarrow> (\<forall>bs. no_space (b64 bs))"

lemma no_space_base64 [simp]: "base64_ok b64 \<Longrightarrow> no_space (join_base64 b64 ns)"
  "base64_ok b64 \<Longrightarrow> no_space (sprop_parameter_sets b64 ps)"
proof -
  assume "base64_ok b64"
  then show "no_space (join_base64 b64 ns)"
    unfolding join_base64_def by (intro no_space_join) (auto simp: base64_ok_def ustr_of_def is_whitespace_def list_all_iff)
  show "no_space (sprop_parameter_sets b64 ps)"
    using \<open>base64_ok b64\<close> unfolding sprop_parameter_sets_def
    by (intro no_space_join) (auto simp: base64_ok_def ustr_of_def is_whitespace_def list_all_iff)
qed

lemma no_space_literal: "list_all (\<lambda>c. 32 < (of_char c :: nat) \<and> (of_char c :: nat) < 128) s \<Longrightarrow> no_space (ustr_of s)"
  by (induction s) (auto simp: ustr_of_def is_whitespace_def)

lemma h264_fmtp_plain: "base64_ok b64 \<Longrightarrow> list_all no_space (h264_fmtp b64 p) \<and> h264_fmtp b64 p \<noteq> [] \<and> hd (h264_fmtp b64 p) \<noteq> []"
  by (auto simp: h264_fmtp_def profile_level_id_from_avc_def no_space_literal ustr_of_def is_whitespace_def split: list.split)

lemma hevc_fmtp_plain: "base64_ok b64 \<Longrightarrow> list_all no_space (hevc_fmtp b64 p) \<and> hevc_fmtp b64 p \<noteq> [] \<and> hd (hevc_fmtp b64 p) \<noteq> []"
  by (auto simp: hevc_fmtp_def list_all_iff ustr_of_def is_whitespace_def split: prod.split)

lemma aac_fmtp_plain: "list_all no_space (aac_fmtp c) \<and> aac_fmtp c \<noteq> [] \<and> hd (aac_fmtp c) \<noteq> []"
  by (simp add: aac_fmtp_def list_all_iff ustr_of_def is_whitespace_def)

lemma opus_fmtp_plain: "list_all no_space (opus_fmtp c) \<and> opus_fmtp c \<noteq> [] \<and> hd (opus_fmtp c) \<noteq> []"
  by (simp add: opus_fmtp_def list_all_iff ustr_of_def is_whitespace_def)

definition described_video :: "base64_encoder \<Rightarrow> video_description \<Rightarrow> track_info" where
  "described_video b64 v = (case v of
     H264Video t \<Rightarrow> block_track VideoMedia H264Codec (h4_clock_rate t) (h4_payload_type t) (h264_fmtp b64 (h4_params t)) (h4_control t)
   | HevcVideo t \<Rightarrow> block_track VideoMedia H265Codec (h5_clock_rate t) (h5_payload_type t) (hevc_fmtp b64 (h5_params t)) (h5_control t))"

definition described_audio :: "audio_description \<Rightarrow> track_info" where
  "described_audio a = (case a of
     AacAudio t \<Rightarrow> block_track AudioMedia AacCodec (ac_sample_rate (at_config t)) (at_payload_type t) (aac_fmtp (at_config t)) (at_control t)
   | OpusAudio t \<Rightarrow> block_track AudioMedia OpusCodec 48000 (ot_payload_type t) (opus_fmtp (ot_config t)) (ot_control t))"

definition video_control :: "video_description \<Rightarrow> ustr" where
  "video_control v = (case v of H264Video t \<Rightarrow> h4_control t | HevcVideo t \<Rightarrow> h5_control t)"

definition audio_control :: "audio_description \<Rightarrow> ustr" where
  "audio_control a = (case a of AacAudio t \<Rightarrow> at_control t | OpusAudio t \<Rightarrow> ot_control t)"

definition sdp_ok :: "play_sdp \<Rightarrow> bool" where
  "sdp_ok sdp \<longleftrightarrow> 10 \<notin> set (ps_session_name sdp) \<and> 13 \<notin> set (ps_session_name sdp) \<and> no_space (ps_host_text sdp) \<and>
     (\<forall>v. ps_video sdp = Some v \<longrightarrow> control_ok (video_control v)) \<and>
     (\<forall>a. ps_audio sdp = Some a \<longrightarrow> control_ok (audio_control a))"

text \<open>The two kinds of blocks as one list of lines each.\<close>

definition video_lines :: "base64_encoder \<Rightarrow> ustr \<Rightarrow> video_description \<Rightarrow> ustr list" where
  "video_lines b64 fam v = (case v of H264Video t \<Rightarrow> render_h264_block b64 fam t | HevcVideo t \<Rightarrow> render_hevc_block b64 fam t)"

definition audio_lines :: "ustr \<Rightarrow> audio_description \<Rightarrow> ustr list" where
  "audio_lines fam a = (case a of AacAudio t \<Rightarrow> render_aac_block fam t | OpusAudio t \<Rightarrow> render_opus_block fam t)"

lemma codec_names:
  "track_codec_of_name (ustr_of ''H264'') = H264Codec" "track_codec_of_name (ustr_of ''H265'') = H265Codec"
  "track_codec_of_name (ustr_of ''mpeg4-generic'') = AacCodec" "track_codec_of_name (ustr_of ''opus'') = OpusCodec"
  by (simp_all add: track_codec_of_name_def to_ascii_uppercase_def ustr_of_def)

lemma name_facts:
  "no_space (ustr_of ''H264'')" "no_space (ustr_of ''H265'')" "no_space (ustr_of ''mpeg4-generic'')" "no_space (ustr_of ''opus'')"
  "47 \<notin> set (ustr_of ''H264'')" "47 \<notin> set (ustr_of ''H265'')" "47 \<notin> set (ustr_of ''mpeg4-generic'')" "47 \<notin> set (ustr_of ''opus'')"
  "ustr_of ''H264'' \<noteq> []" "ustr_of ''H265'' \<noteq> []" "ustr_of ''mpeg4-generic'' \<noteq> []" "ustr_of ''opus'' \<noteq> []"
  by (simp_all add: ustr_of_def is_whitespace_def)

lemma slash_split:
  "ustr_of ''H264/'' @ s = ustr_of ''H264'' @ 47 # s @ []" "ustr_of ''H265/'' @ s = ustr_of ''H265'' @ 47 # s @ []"
  "ustr_of ''mpeg4-generic/'' @ s = ustr_of ''mpeg4-generic'' @ 47 # s"
  "ustr_of ''opus/48000/'' @ s = ustr_of ''opus'' @ 47 # ustr_of ''48000'' @ 47 # s"
  by (simp_all add: ustr_of_def)

lemma rate_48000: "ustr_of ''48000'' = nat_str (unat (48000 :: u32))"
  by (simp add: nat_str_def dec_str_def base_str.simps ustr_of_def digit_char_def)

lemma slash_no_space: "\<not> is_whitespace 47"
  by (simp add: is_whitespace_def)

lemma video_lines_parsed:
  assumes "base64_ok b64" and "control_ok (video_control v)" and "no_space fam"
  shows "foldl sdp_line (tracks, None) (video_lines b64 fam v) = (tracks, Some (described_video b64 v))"
proof (cases v)
  case (H264Video t)
  have p: "list_all no_space (h264_fmtp b64 (h4_params t))" "h264_fmtp b64 (h4_params t) \<noteq> []" "hd (h264_fmtp b64 (h4_params t)) \<noteq> []"
    using h264_fmtp_plain [OF assms(1)] by blast+
  have c: "control_ok (h4_control t)" using assms(2) H264Video by (simp add: video_control_def)
  show ?thesis
    using block_parsed [OF disjI1 [OF refl] name_facts(1,9,5) disjI1 [OF refl] p c assms(3), of tracks None "h4_payload_type t" "h4_clock_rate t"]
    by (simp add: H264Video video_lines_def render_h264_block_def slash_split described_video_def codec_names)
next
  case (HevcVideo t)
  have p: "list_all no_space (hevc_fmtp b64 (h5_params t))" "hevc_fmtp b64 (h5_params t) \<noteq> []" "hd (hevc_fmtp b64 (h5_params t)) \<noteq> []"
    using hevc_fmtp_plain [OF assms(1)] by blast+
  have c: "control_ok (h5_control t)" using assms(2) HevcVideo by (simp add: video_control_def)
  show ?thesis
    using block_parsed [OF disjI1 [OF refl] name_facts(2,10,6) disjI1 [OF refl] p c assms(3), of tracks None "h5_payload_type t" "h5_clock_rate t"]
    by (simp add: HevcVideo video_lines_def render_hevc_block_def slash_split described_video_def codec_names)
qed

lemma audio_kind: "ustr_of ''audio'' \<noteq> ustr_of ''video''"
  by (simp add: ustr_of_def)

lemma audio_lines_parsed:
  assumes "control_ok (audio_control a)" and "no_space fam"
  shows "foldl sdp_line (tracks, cur) (audio_lines fam a) =
    (case cur of Some t \<Rightarrow> tracks @ [t] | None \<Rightarrow> tracks, Some (described_audio a))"
proof (cases a)
  case (AacAudio t)
  have c: "control_ok (at_control t)" using assms(1) AacAudio by (simp add: audio_control_def)
  have tail: "47 # u8_dec ch = [] \<or> (\<exists>s. 47 # u8_dec ch = 47 # s \<and> no_space s)" for ch by simp
  note p = aac_fmtp_plain [of "at_config t"]
  show ?thesis
    using block_parsed [OF disjI2 [OF refl] name_facts(3,11,7) tail conjunct1 [OF p] conjunct1 [OF conjunct2 [OF p]]
      conjunct2 [OF conjunct2 [OF p]] c assms(2), of tracks cur "at_payload_type t" "ac_sample_rate (at_config t)" "ac_channels (at_config t)"]
    by (simp add: AacAudio audio_lines_def render_aac_block_def slash_split described_audio_def codec_names audio_kind)
next
  case (OpusAudio t)
  have c: "control_ok (ot_control t)" using assms(1) OpusAudio by (simp add: audio_control_def)
  have tail: "47 # u8_dec ch = [] \<or> (\<exists>s. 47 # u8_dec ch = 47 # s \<and> no_space s)" for ch by simp
  note p = opus_fmtp_plain [of "ot_config t"]
  show ?thesis
    using block_parsed [OF disjI2 [OF refl] name_facts(4,12,8) tail conjunct1 [OF p] conjunct1 [OF conjunct2 [OF p]]
      conjunct2 [OF conjunct2 [OF p]] c assms(2), of tracks cur "ot_payload_type t" 48000 "max (oc_channels (ot_config t)) 1"]
    by (simp add: OpusAudio audio_lines_def render_opus_block_def slash_split described_audio_def codec_names audio_kind rate_48000
        del: unat_numeral)
qed

lemma video_lines_plain:
  assumes "base64_ok b64" and "control_ok (video_control v)" and "no_space fam"
  shows "list_all plain_line (video_lines b64 fam v)"
  using assms h264_fmtp_plain [OF assms(1)] hevc_fmtp_plain [OF assms(1)] name_facts slash_no_space
  by (cases v) (auto simp: video_lines_def render_h264_block_def render_hevc_block_def slash_split video_control_def
      intro!: block_plain)

lemma audio_lines_plain:
  assumes "control_ok (audio_control a)" and "no_space fam"
  shows "list_all plain_line (audio_lines fam a)"
  using assms aac_fmtp_plain opus_fmtp_plain name_facts slash_no_space
  by (cases a) (auto simp: audio_lines_def render_aac_block_def render_opus_block_def slash_split audio_control_def rate_48000
      simp del: unat_numeral intro!: block_plain)

lemma session_lines:
  assumes "sdp_ok sdp" and "fam = ustr_of ''IP4'' \<or> fam = ustr_of ''IP6''"
  defines "ls \<equiv> [ustr_of ''v=0'', ustr_of ''o=- 0 0 IN '' @ fam @ 32 # ps_host_text sdp,
       ustr_of ''s='' @ ps_session_name sdp, ustr_of ''t=0 0'', ustr_of ''a=control:*'']"
  shows "list_all plain_line ls" and "foldl sdp_line ([], None) ls = ([], None)"
proof -
  have host: "13 \<notin> set (ps_host_text sdp)" "10 \<notin> set (ps_host_text sdp)"
    using assms(1) no_space_no_crlf by (auto simp: sdp_ok_def)
  then show "list_all plain_line ls"
    using assms(1,2) by (auto simp: ls_def plain_line_def sdp_ok_def ustr_of_def)
  have o: "13 \<notin> set (ustr_of ''o=- 0 0 IN '' @ fam @ 32 # ps_host_text sdp)"
    using host assms(2) by (auto simp: ustr_of_def)
  have s: "13 \<notin> set (ustr_of ''s='' @ ps_session_name sdp)" using assms(1) by (simp add: sdp_ok_def ustr_of_def)
  have v: "13 \<notin> set (ustr_of ''v=0'')" "13 \<notin> set (ustr_of ''t=0 0'')" "13 \<notin> set (ustr_of ''control:*'')" by (simp_all add: ustr_of_def)
  have hd: "hd (ustr_of ''o=- 0 0 IN '' @ fam @ 32 # ps_host_text sdp) = 111" "hd (ustr_of ''s='' @ ps_session_name sdp) = 115"
    "hd (ustr_of ''v=0'') = 118" "hd (ustr_of ''t=0 0'') = 116"
    by (simp_all add: ustr_of_def)
  have a: "ustr_of ''a=control:*'' = ustr_of ''a='' @ ustr_of ''control:*''" by (simp add: ustr_of_def)
  have ne: "ustr_of ''v=0'' \<noteq> []" "ustr_of ''o=- 0 0 IN '' @ t \<noteq> []" "ustr_of ''s='' @ t \<noteq> []" "ustr_of ''t=0 0'' \<noteq> []" for t
    by (simp_all add: ustr_of_def)
  show "foldl sdp_line ([], None) ls = ([], None)"
    unfolding ls_def a foldl_Cons foldl_Nil
    by (simp only: sdp_line_other [OF v(1) _ _ ne(1)] sdp_line_other [OF o _ _ ne(2)] sdp_line_other [OF s _ _ ne(3)]
        sdp_line_other [OF v(2) _ _ ne(4)] sdp_line_a [OF v(3)] hd option.map)
qed

lemma described_tracks:
  assumes "base64_ok b64" and "sdp_ok sdp"
  shows "parse_sdp_tracks (sdp_render b64 sdp) =
    (case ps_video sdp of Some v \<Rightarrow> [described_video b64 v] | None \<Rightarrow> []) @
    (case ps_audio sdp of Some a \<Rightarrow> [described_audio a] | None \<Rightarrow> [])"
proof -
  define fam where "fam = (if ps_host_is_v4 sdp then ustr_of ''IP4'' else ustr_of ''IP6'')"
  have f: "fam = ustr_of ''IP4'' \<or> fam = ustr_of ''IP6''" "no_space fam"
    by (simp_all add: fam_def ustr_of_def is_whitespace_def)
  define ls where "ls = [ustr_of ''v=0'', ustr_of ''o=- 0 0 IN '' @ fam @ 32 # ps_host_text sdp,
       ustr_of ''s='' @ ps_session_name sdp, ustr_of ''t=0 0'', ustr_of ''a=control:*'']"
  define vs where "vs = (case ps_video sdp of Some v \<Rightarrow> video_lines b64 fam v | None \<Rightarrow> [])"
  define as where "as = (case ps_audio sdp of Some a \<Rightarrow> audio_lines fam a | None \<Rightarrow> [])"
  have lines: "sdp_render_lines b64 sdp = ls @ vs @ as"
    by (simp add: sdp_render_lines_def ls_def vs_def as_def fam_def Let_def video_lines_def audio_lines_def
        split: option.split video_description.split audio_description.split)
  have vc: "control_ok (video_control v)" if "ps_video sdp = Some v" for v using that assms(2) by (simp add: sdp_ok_def)
  have ac: "control_ok (audio_control a)" if "ps_audio sdp = Some a" for a using that assms(2) by (simp add: sdp_ok_def)
  have "list_all plain_line (sdp_render_lines b64 sdp)"
    using session_lines(1) [OF assms(2) f(1)] video_lines_plain [OF assms(1) vc f(2)] audio_lines_plain [OF ac f(2)]
    by (simp add: lines ls_def vs_def as_def split: option.split)
  then have "str_lines (sdp_render b64 sdp) = ls @ vs @ as"
    by (simp add: sdp_render_def str_lines_crlf_end lines)
  moreover have "foldl sdp_line ([], None) ls = ([], None)"
    unfolding ls_def by (rule session_lines(2) [OF assms(2) f(1)])
  moreover have "foldl sdp_line ([], None) vs = ([], map_option (described_video b64) (ps_video sdp))"
    using video_lines_parsed [OF assms(1) vc f(2)] by (simp add: vs_def split: option.split)
  moreover have "foldl sdp_line (ts, cur) as = (case ps_audio sdp of None \<Rightarrow> (ts, cur)
      | Some a \<Rightarrow> (case cur of Some t \<Rightarrow> ts @ [t] | None \<Rightarrow> ts, Some (described_audio a)))" for ts cur
    using audio_lines_parsed [OF ac f(2)] by (simp add: as_def split: option.split)
  ultimately show ?thesis
    by (simp add: parse_sdp_tracks_def finish_tracks_def split: option.split)
qed

lemma fmtp_config_found:
  "parse_aac_config_from_fmtp (fmtp_value pt (aac_fmtp config)) = Ok (Some (ac_asc config))"
proof -
  have cfg: "config_from_params ((ustr_of ''config='' @ concat (map hex2_ustr (ac_asc config))) # []) = Ok (Some (ac_asc config))"
    using hex2_ustr_pair by (intro config_pairs) blast
  have skip: "config_from_params (p # ps) = config_from_params ps" if "strip_prefix (ustr_of ''config='') (str_trim p) = None" for p ps
    using that by simp
  have t: "str_trim p = p" if "no_space p" for p using that trimmed_no_space by (simp add: no_space_def)
  have "59 \<notin> set (u8_dec b)" for b using nat_str_no [of 59] by (simp add: u8_dec_def ustr_digit_def)
  then have "list_all (\<lambda>p. 59 \<notin> set p) (aac_fmtp config)"
    using hex2_ustr_pair by (simp add: aac_fmtp_def ustr_of_def)
  then have "str_split 59 (ustr_join [59] (aac_fmtp config)) = aac_fmtp config"
    using aac_fmtp_plain by (intro str_split_join) blast+
  moreover have "32 \<notin> set (u8_dec pt)" using no_space_no_crlf [OF no_space_u8_dec] by blast
  moreover have "ustr_of '';'' = [59]" by (simp add: ustr_of_def)
  ultimately have "parse_aac_config_from_fmtp (fmtp_value pt (aac_fmtp config)) = config_from_params (aac_fmtp config)"
    by (simp add: parse_aac_config_from_fmtp_def fmtp_value_def split_once_sep)
  also have "\<dots> = config_from_params ((ustr_of ''config='' @ concat (map hex2_ustr (ac_asc config))) # [])"
  proof -
    have ns: "no_space (ustr_of ''streamtype=5'')" "no_space (ustr_of ''profile-level-id='' @ u8_dec (aac_profile_level_id config))"
      "no_space (ustr_of ''mode=AAC-hbr'')" "no_space (ustr_of ''sizelength=13'')" "no_space (ustr_of ''indexlength=3'')"
      "no_space (ustr_of ''indexdeltalength=3'')"
      using aac_fmtp_plain [of config] by (simp_all add: aac_fmtp_def)
    have st: "strip_prefix (ustr_of ''config='') (ustr_of ''streamtype=5'') = None"
      "strip_prefix (ustr_of ''config='') (ustr_of ''profile-level-id='' @ u8_dec (aac_profile_level_id config)) = None"
      "strip_prefix (ustr_of ''config='') (ustr_of ''mode=AAC-hbr'') = None"
      "strip_prefix (ustr_of ''config='') (ustr_of ''sizelength=13'') = None"
      "strip_prefix (ustr_of ''config='') (ustr_of ''indexlength=3'') = None"
      "strip_prefix (ustr_of ''config='') (ustr_of ''indexdeltalength=3'') = None"
      by (simp_all add: ustr_of_def)
    show ?thesis unfolding aac_fmtp_def by (simp only: skip t [OF ns(1)] t [OF ns(2)] t [OF ns(3)] t [OF ns(4)] t [OF ns(5)] t [OF ns(6)] st)
  qed
  finally show ?thesis using cfg by simp
qed

text \<open>
  C18. The description a DESCRIBE answers with is read back by the track parser of an ANNOUNCE: one track
  per block with the right codec, clock rate, control name and format parameters, nothing from the
  session block, and the format parameters of AAC give back the configuration bytes.
\<close>

theorem sdp_roundtrip:
  assumes "base64_ok b64" and "sdp_ok sdp"
  shows "parse_sdp_tracks (sdp_render b64 sdp) =
      (case ps_video sdp of Some v \<Rightarrow> [described_video b64 v] | None \<Rightarrow> []) @
      (case ps_audio sdp of Some a \<Rightarrow> [described_audio a] | None \<Rightarrow> []) \<and>
    (\<forall>t. ps_audio sdp = Some (AacAudio t) \<longrightarrow>
      map_option parse_aac_config_from_fmtp (ti_fmtp (described_audio (AacAudio t))) = Some (Ok (Some (ac_asc (at_config t)))))"
  using described_tracks [OF assms] fmtp_config_found by (simp add: described_audio_def block_track_def)

section \<open>Witness\<close>

definition hex_base64 :: base64_encoder where
  "hex_base64 bs = concat (map hex2_ustr bs)"

definition camera_sdp :: play_sdp where
  "camera_sdp = \<lparr>ps_session_name = ustr_of ''live/cam1'', ps_host_is_v4 = True, ps_host_text = ustr_of ''127.0.0.1'',
     ps_video = Some (H264Video \<lparr>h4_payload_type = 96, h4_clock_rate = 90000, h4_control = ustr_of ''track1'',
       h4_params = \<lparr>ap_sps_list = [[0x67, 0x42, 0x00, 0x1F]], ap_pps_list = [[0x68, 0xEB]]\<rparr>\<rparr>),
     ps_audio = Some (AacAudio \<lparr>at_payload_type = 97, at_control = ustr_of ''track2'',
       at_config = \<lparr>ac_asc = [0x12, 0x10], ac_object_type = 2, ac_sample_rate = 44100, ac_channels = 2\<rparr>\<rparr>)\<rparr>"

theorem sdp_roundtrip_witness:
  "\<exists>v a. parse_sdp_tracks (sdp_render hex_base64 camera_sdp) = [v, a] \<and> ti_codec v = H264Codec \<and>
    ti_clock_rate v = 90000 \<and> ti_codec a = AacCodec \<and> ti_clock_rate a = 44100"
proof -
  have "base64_ok hex_base64" by (simp add: base64_ok_def hex_base64_def list_all_iff)
  moreover have "sdp_ok camera_sdp"
    by (simp add: sdp_ok_def camera_sdp_def video_control_def audio_control_def control_ok_def trimmed_def ustr_of_def
        is_whitespace_def)
  ultimately show ?thesis
    using sdp_roundtrip [of hex_base64 camera_sdp]
    by (simp add: camera_sdp_def described_video_def described_audio_def block_track_def)
qed

end
