(* ===== verification/Auth.thy ===== *)
theory Auth
  imports Ustr
begin

text \<open>
  Authentication, \<open>lvqr-auth\<close>: the context that every ingest protocol builds from its carrier of the
  bearer token (\<open>extract.rs\<close>), the scopes and decisions (\<open>provider.rs\<close>), and the providers that decide
  without further state: no authentication, static tokens, and JSON web tokens, where the signature check
  of the crate \<open>jsonwebtoken\<close> is an argument.
\<close>

section \<open>Contexts, scopes, decisions\<close>

datatype auth_context =
    Publish (pub_app: ustr) (pub_key: ustr) (pub_broadcast: "ustr option")
  | Subscribe (sub_token: "ustr option") (sub_broadcast: ustr)
  | AdminAccess (admin_bearer: ustr)

datatype auth_scope = SubscribeScope | PublishScope | AdminScope

definition scope_includes :: "auth_scope \<Rightarrow> auth_scope \<Rightarrow> bool" where
  "scope_includes self other \<longleftrightarrow>
     (case (self, other) of
        (AdminScope, _) \<Rightarrow> True
      | (PublishScope, PublishScope) \<Rightarrow> True
      | (PublishScope, SubscribeScope) \<Rightarrow> True
      | (SubscribeScope, SubscribeScope) \<Rightarrow> True
      | _ \<Rightarrow> False)"

datatype auth_decision = Allow | Deny (deny_reason: ustr)

definition is_allow :: "auth_decision \<Rightarrow> bool" where
  "is_allow d \<longleftrightarrow> d = Allow"

type_synonym auth_provider = "auth_context \<Rightarrow> auth_decision"

text \<open>The scope hierarchy is a linear order: a scope includes another when it is at least as high.\<close>

primrec scope_rank :: "auth_scope \<Rightarrow> nat" where
  "scope_rank SubscribeScope = 0"
| "scope_rank PublishScope = 1"
| "scope_rank AdminScope = 2"

instantiation auth_scope :: linorder
begin

definition less_eq_auth_scope :: "auth_scope \<Rightarrow> auth_scope \<Rightarrow> bool" where
  "s \<le> t \<longleftrightarrow> scope_rank s \<le> scope_rank t"

definition less_auth_scope :: "auth_scope \<Rightarrow> auth_scope \<Rightarrow> bool" where
  "s < t \<longleftrightarrow> scope_rank s < scope_rank t"

instance
proof
  fix s t :: auth_scope
  show "s \<le> t \<Longrightarrow> t \<le> s \<Longrightarrow> s = t" by (cases s; cases t; simp add: less_eq_auth_scope_def)
qed (auto simp: less_eq_auth_scope_def less_auth_scope_def)

end

lemma scope_includes_iff: "scope_includes s t \<longleftrightarrow> t \<le> s"
  by (cases s; cases t; simp add: scope_includes_def less_eq_auth_scope_def)

section \<open>Token carriers\<close>

definition parse_bearer :: "ustr option \<Rightarrow> ustr option" where
  "parse_bearer header =
     (case header of None \<Rightarrow> None | Some raw \<Rightarrow>
      (let raw = str_trim raw in
       case (case strip_prefix (ustr_of ''Bearer '') raw of Some r \<Rightarrow> Some r
             | None \<Rightarrow> (case strip_prefix (ustr_of ''bearer '') raw of Some r \<Rightarrow> Some r
             | None \<Rightarrow> strip_prefix (ustr_of ''BEARER '') raw)) of
         None \<Rightarrow> None
       | Some rest \<Rightarrow> (let token = str_trim rest in if token = [] then None else Some token)))"

definition parse_srt_streamid :: "ustr \<Rightarrow> (ustr \<times> ustr) list" where
  "parse_srt_streamid streamid =
     (let t = (case strip_prefix (ustr_of ''#!::'') (str_trim streamid) of Some r \<Rightarrow> r | None \<Rightarrow> str_trim streamid) in
      map (\<lambda>(k, v). (str_trim k, str_trim v)) (List.map_filter (str_split_once 61) (str_split 44 t)))"

definition streamid_get :: "(ustr \<times> ustr) list \<Rightarrow> ustr \<Rightarrow> ustr option" where
  "streamid_get kv key = map_of kv key"

definition opt_default :: "ustr option \<Rightarrow> ustr" where
  "opt_default x = (case x of Some s \<Rightarrow> s | None \<Rightarrow> [])"

definition extract_rtmp :: "ustr \<Rightarrow> ustr \<Rightarrow> auth_context" where
  "extract_rtmp app stream_key = Publish app stream_key None"

definition extract_whip :: "ustr \<Rightarrow> ustr option \<Rightarrow> auth_context" where
  "extract_whip broadcast authorization =
     Publish (ustr_of ''whip'') (opt_default (parse_bearer authorization)) (Some broadcast)"

definition extract_srt :: "ustr \<Rightarrow> auth_context" where
  "extract_srt streamid =
     (let kv = parse_srt_streamid streamid in
      Publish (ustr_of ''srt'') (opt_default (streamid_get kv (ustr_of ''t''))) (streamid_get kv (ustr_of ''r'')))"

definition extract_rtsp :: "ustr \<Rightarrow> ustr option \<Rightarrow> auth_context" where
  "extract_rtsp broadcast authorization =
     Publish (ustr_of ''rtsp'') (opt_default (parse_bearer authorization)) (Some broadcast)"

definition extract_whep :: "ustr \<Rightarrow> ustr option \<Rightarrow> auth_context" where
  "extract_whep broadcast authorization = Subscribe (parse_bearer authorization) broadcast"

definition extract_ws_ingest :: "ustr option \<Rightarrow> ustr \<Rightarrow> auth_context" where
  "extract_ws_ingest resolved_token broadcast = Publish (ustr_of ''ws'') (opt_default resolved_token) (Some broadcast)"

section \<open>Providers without state\<close>

definition noop_check :: auth_provider where
  "noop_check ctx = Allow"

record static_auth_config =
  sc_admin_token :: "ustr option"
  sc_publish_key :: "ustr option"
  sc_subscribe_token :: "ustr option"

definition has_any :: "static_auth_config \<Rightarrow> bool" where
  "has_any c \<longleftrightarrow> sc_admin_token c \<noteq> None \<or> sc_publish_key c \<noteq> None \<or> sc_subscribe_token c \<noteq> None"

fun ct_diff :: "u8 \<Rightarrow> (u8 \<times> u8) list \<Rightarrow> u8" where
  "ct_diff diff [] = diff"
| "ct_diff diff ((x, y) # ps) = ct_diff (diff OR (x XOR y)) ps"

definition ct_eq :: "ustr \<Rightarrow> ustr \<Rightarrow> bool" where
  "ct_eq a b \<longleftrightarrow> (if length (str_bytes a) \<noteq> length (str_bytes b) then False
     else ct_diff 0 (zip (str_bytes a) (str_bytes b)) = 0)"

definition static_check :: "static_auth_config \<Rightarrow> auth_provider" where
  "static_check c ctx = (case ctx of
     Publish _ key _ \<Rightarrow> (case sc_publish_key c of None \<Rightarrow> Allow
       | Some expected \<Rightarrow> if ct_eq expected key then Allow else Deny (ustr_of ''invalid publish key''))
   | Subscribe token _ \<Rightarrow> (case (sc_subscribe_token c, token) of
         (None, _) \<Rightarrow> Allow
       | (Some expected, Some t) \<Rightarrow> if ct_eq expected t then Allow
           else Deny (ustr_of ''invalid or missing subscribe token'')
       | (Some _, None) \<Rightarrow> Deny (ustr_of ''invalid or missing subscribe token''))
   | AdminAccess token \<Rightarrow> (case sc_admin_token c of None \<Rightarrow> Allow
       | Some expected \<Rightarrow> if ct_eq expected token then Allow else Deny (ustr_of ''invalid admin token'')))"

record jwt_claims =
  jc_sub :: ustr
  jc_exp :: nat
  jc_scope :: auth_scope
  jc_broadcast :: "ustr option"

primrec scope_debug :: "auth_scope \<Rightarrow> ustr" where
  "scope_debug SubscribeScope = ustr_of ''Subscribe''"
| "scope_debug PublishScope = ustr_of ''Publish''"
| "scope_debug AdminScope = ustr_of ''Admin''"

text \<open>
  \<open>decode\<close> verifies signature, expiry, issuer and audience and returns the claims, or an error text.
\<close>

definition jwt_check :: "(ustr \<Rightarrow> ustr + jwt_claims) \<Rightarrow> auth_provider" where
  "jwt_check decode ctx =
     (let decide = (\<lambda>token required_scope broadcast_filter.
        case decode token of
          Inl e \<Rightarrow> Deny (ustr_of ''jwt decode failed: '' @ e)
        | Inr claims \<Rightarrow>
            if \<not> scope_includes (jc_scope claims) required_scope
            then Deny (ustr_of ''token scope '' @ scope_debug (jc_scope claims) @ ustr_of '' insufficient for '' @
              scope_debug required_scope)
            else (case (jc_broadcast claims, broadcast_filter) of
                (Some bound, Some broadcast) \<Rightarrow>
                  if bound \<noteq> broadcast then Deny (ustr_of ''token bound to different broadcast'') else Allow
              | _ \<Rightarrow> Allow)) in
      case ctx of
        Publish _ key broadcast \<Rightarrow> decide key PublishScope broadcast
      | Subscribe None _ \<Rightarrow> Deny (ustr_of ''subscribe token missing'')
      | Subscribe (Some t) broadcast \<Rightarrow> decide t SubscribeScope (Some broadcast)
      | AdminAccess token \<Rightarrow> decide token AdminScope None)"

section \<open>Constant-time comparison\<close>

lemma or_eq_0_u8: "a OR b = 0 \<longleftrightarrow> a = 0 \<and> b = (0 :: u8)"
  by (auto simp: bit_eq_iff bit_simps)

lemma xor_eq_0_u8: "a XOR b = 0 \<longleftrightarrow> a = (b :: u8)"
  by (auto simp: bit_eq_iff bit_simps)

lemma ct_diff_0: "ct_diff d ps = 0 \<longleftrightarrow> d = 0 \<and> list_all (\<lambda>(x, y). x = y) ps"
  by (induction d ps rule: ct_diff.induct) (auto simp: or_eq_0_u8 xor_eq_0_u8)

lemma zip_equal: "length xs = length ys \<Longrightarrow> list_all (\<lambda>(x, y). x = y) (zip xs ys) \<longleftrightarrow> xs = ys"
  by (induction xs ys rule: list_induct2) auto

lemma str_bytes_inj: "list_all scalar s \<Longrightarrow> list_all scalar t \<Longrightarrow> str_bytes s = str_bytes t \<longleftrightarrow> s = t"
  by (metis from_utf8_str_bytes option.inject)

lemma ct_eq_iff: "list_all scalar s \<Longrightarrow> list_all scalar t \<Longrightarrow> ct_eq s t \<longleftrightarrow> s = t"
  by (auto simp: ct_eq_def ct_diff_0 zip_equal str_bytes_inj simp del: length_str_bytes)

section \<open>One token, every protocol\<close>

definition token_ok :: "ustr \<Rightarrow> bool" where
  "token_ok t \<longleftrightarrow> t \<noteq> [] \<and> trimmed t \<and> 44 \<notin> set t"

definition name_ok :: "ustr \<Rightarrow> bool" where
  "name_ok b \<longleftrightarrow> trimmed b \<and> 44 \<notin> set b"

definition bearer_header :: "ustr \<Rightarrow> ustr" where
  "bearer_header token = ustr_of ''Bearer '' @ token"

definition srt_publish_streamid :: "ustr \<Rightarrow> ustr \<Rightarrow> ustr" where
  "srt_publish_streamid broadcast token =
     ustr_of ''m=publish,r='' @ broadcast @ ustr_of '',t='' @ token"

lemma trimmed_prefix:
  "p \<noteq> [] \<Longrightarrow> \<not> is_whitespace (hd p) \<Longrightarrow> t \<noteq> [] \<Longrightarrow> trimmed t \<Longrightarrow> trimmed (p @ t)"
  by (simp add: trimmed_def)

lemma parse_bearer_header: "token_ok t \<Longrightarrow> parse_bearer (Some (bearer_header t)) = Some t"
proof -
  assume t: "token_ok t"
  then have "trimmed (bearer_header t)"
    unfolding bearer_header_def
    by (intro trimmed_prefix) (simp_all add: token_ok_def ustr_of_def is_whitespace_def)
  then show ?thesis using t by (simp add: parse_bearer_def bearer_header_def token_ok_def)
qed

lemma streamid_split:
  assumes "name_ok b" and "token_ok t"
  shows "str_split 44 (srt_publish_streamid b t) = [ustr_of ''m=publish'', ustr_of ''r='' @ b, ustr_of ''t='' @ t]"
proof -
  have "srt_publish_streamid b t = ustr_of ''m=publish'' @ 44 # (ustr_of ''r='' @ b) @ 44 # (ustr_of ''t='' @ t)"
    by (simp add: srt_publish_streamid_def ustr_of_def)
  moreover have n: "44 \<notin> set (ustr_of ''m=publish'')" "44 \<notin> set (ustr_of ''r='' @ b)" "44 \<notin> set (ustr_of ''t='' @ t)"
    using assms by (simp_all add: ustr_of_def name_ok_def token_ok_def)
  ultimately show ?thesis by (simp only: str_split_sep [OF n(1)] str_split_sep [OF n(2)] str_split_last [OF n(3)])
qed

lemma parse_streamid:
  assumes "name_ok b" and "token_ok t"
  shows "parse_srt_streamid (srt_publish_streamid b t) =
    [(ustr_of ''m'', ustr_of ''publish''), (ustr_of ''r'', b), (ustr_of ''t'', t)]"
proof -
  have "trimmed (ustr_of ''m=publish,r='' @ b @ ustr_of '',t='' @ t)"
    unfolding append_assoc [symmetric] using assms(2)
    by (intro trimmed_prefix) (simp_all add: token_ok_def ustr_of_def is_whitespace_def)
  then have s: "str_trim (srt_publish_streamid b t) = srt_publish_streamid b t"
    by (simp add: srt_publish_streamid_def)
  have n: "strip_prefix (ustr_of ''#!::'') (srt_publish_streamid b t) = None"
    by (simp add: srt_publish_streamid_def ustr_of_def)
  have "str_split_once 61 (ustr_of ''m=publish'') = Some (ustr_of ''m'', ustr_of ''publish'')"
    "str_split_once 61 (ustr_of ''r='' @ b) = Some (ustr_of ''r'', b)"
    "str_split_once 61 (ustr_of ''t='' @ t) = Some (ustr_of ''t'', t)"
    by (simp_all add: str_split_once_def ustr_of_def)
  moreover have "str_trim (ustr_of ''m'') = ustr_of ''m''" "str_trim (ustr_of ''publish'') = ustr_of ''publish''"
    "str_trim (ustr_of ''r'') = ustr_of ''r''" "str_trim (ustr_of ''t'') = ustr_of ''t''"
    by (rule str_trim_trimmed, simp add: trimmed_def ustr_of_def is_whitespace_def)+
  moreover have "str_trim b = b" "str_trim t = t" using assms by (simp_all add: name_ok_def token_ok_def)
  ultimately show ?thesis
    by (simp add: parse_srt_streamid_def s n streamid_split [OF assms] map_filter_def)
qed

lemma extracted_contexts:
  assumes "name_ok b" and "token_ok t"
  shows "extract_whip b (Some (bearer_header t)) = Publish (ustr_of ''whip'') t (Some b)"
    and "extract_rtsp b (Some (bearer_header t)) = Publish (ustr_of ''rtsp'') t (Some b)"
    and "extract_srt (srt_publish_streamid b t) = Publish (ustr_of ''srt'') t (Some b)"
    and "extract_ws_ingest (Some t) b = Publish (ustr_of ''ws'') t (Some b)"
    and "extract_whep b (Some (bearer_header t)) = Subscribe (Some t) b"
  using assms
  by (simp_all add: extract_whip_def extract_rtsp_def extract_srt_def extract_ws_ingest_def extract_whep_def
      parse_bearer_header opt_default_def Let_def parse_streamid streamid_get_def ustr_of_def)

text \<open>What the token provider allows.\<close>

definition jwt_grants :: "(ustr \<Rightarrow> ustr + jwt_claims) \<Rightarrow> ustr \<Rightarrow> auth_scope \<Rightarrow> ustr option \<Rightarrow> bool" where
  "jwt_grants decode token scope target \<longleftrightarrow>
     (\<exists>claims. decode token = Inr claims \<and> scope \<le> jc_scope claims \<and>
       (\<forall>bound t. jc_broadcast claims = Some bound \<longrightarrow> target = Some t \<longrightarrow> bound = t))"

lemma jwt_allows:
  "jwt_check decode (Publish app key broadcast) = Allow \<longleftrightarrow> jwt_grants decode key PublishScope broadcast"
  "jwt_check decode (Subscribe token name) = Allow \<longleftrightarrow>
    (\<exists>t. token = Some t \<and> jwt_grants decode t SubscribeScope (Some name))"
  "jwt_check decode (AdminAccess key) = Allow \<longleftrightarrow> jwt_grants decode key AdminScope None"
  by (auto simp: jwt_check_def jwt_grants_def Let_def scope_includes_iff split: sum.splits option.splits)

lemma jwt_app_irrelevant: "jwt_check decode (Publish app key b) = jwt_check decode (Publish app' key b)"
  by (simp add: jwt_check_def Let_def)

lemma static_app_irrelevant: "static_check c (Publish app key b) = static_check c (Publish app' key b')"
  by (simp add: static_check_def)

text \<open>
  C26. One token opens every protocol alike: for a bearer token and a broadcast name, the WHIP, RTSP, SRT
  and WebSocket carriers give the JSON-web-token provider the same decision, and it allows exactly when the
  verified claims reach publish scope and are not bound to another broadcast; RTMP, which does not name
  the broadcast, is allowed whenever the others are; and the same token that may publish may watch.
\<close>

theorem one_token_every_protocol:
  assumes "name_ok b" and "token_ok t"
  shows "let whip = jwt_check decode (extract_whip b (Some (bearer_header t))) in
    jwt_check decode (extract_rtsp b (Some (bearer_header t))) = whip \<and>
    jwt_check decode (extract_srt (srt_publish_streamid b t)) = whip \<and>
    jwt_check decode (extract_ws_ingest (Some t) b) = whip \<and>
    (whip = Allow \<longleftrightarrow> jwt_grants decode t PublishScope (Some b)) \<and>
    (whip = Allow \<longrightarrow> jwt_check decode (extract_rtmp app t) = Allow \<and>
      jwt_check decode (extract_whep b (Some (bearer_header t))) = Allow)"
proof -
  have sub: "jwt_grants decode t SubscribeScope (Some b)" if "jwt_grants decode t PublishScope (Some b)"
    using that by (force simp: jwt_grants_def less_eq_auth_scope_def)
  have rtmp: "jwt_grants decode t PublishScope None" if "jwt_grants decode t PublishScope (Some b)"
    using that by (auto simp: jwt_grants_def)
  show ?thesis
    unfolding Let_def extracted_contexts [OF assms] extract_rtmp_def jwt_allows
    using sub rtmp jwt_app_irrelevant [of decode _ t "Some b" "ustr_of ''whip''"] by blast
qed

text \<open>
  The static provider allows a publish, subscribe or admin request exactly when no token of that
  kind is configured or the request carries that very token; a subscriber without a token is turned away
  when one is configured.
\<close>

theorem static_tokens_exact:
  assumes "\<forall>s. sc_publish_key c = Some s \<or> sc_subscribe_token c = Some s \<or> sc_admin_token c = Some s \<longrightarrow> list_all scalar s"
    and "list_all scalar key"
  shows "(static_check c (Publish app key b) = Allow \<longleftrightarrow> sc_publish_key c \<in> {None, Some key}) \<and>
    (static_check c (AdminAccess key) = Allow \<longleftrightarrow> sc_admin_token c \<in> {None, Some key}) \<and>
    (static_check c (Subscribe (Some key) name) = Allow \<longleftrightarrow> sc_subscribe_token c \<in> {None, Some key}) \<and>
    (static_check c (Subscribe None name) = Allow \<longleftrightarrow> sc_subscribe_token c = None)"
  using assms by (auto simp: static_check_def ct_eq_iff split: option.splits)

section \<open>Witnesses\<close>

definition one_token :: "ustr \<Rightarrow> jwt_claims \<Rightarrow> ustr \<Rightarrow> ustr + jwt_claims" where
  "one_token good claims t = (if t = good then Inr claims else Inl (ustr_of ''invalid token''))"

theorem one_token_every_protocol_witness:
  "jwt_check (one_token (ustr_of ''tok'') \<lparr>jc_sub = [], jc_exp = 0, jc_scope = PublishScope, jc_broadcast = Some (ustr_of ''live/a'')\<rparr>)
     (extract_srt (ustr_of ''m=publish,r=live/a,t=tok'')) = Allow"
proof -
  let ?d = "one_token (ustr_of ''tok'') \<lparr>jc_sub = [], jc_exp = 0, jc_scope = PublishScope, jc_broadcast = Some (ustr_of ''live/a'')\<rparr>"
  have n: "name_ok (ustr_of ''live/a'')" "token_ok (ustr_of ''tok'')"
    by (simp_all add: name_ok_def token_ok_def trimmed_def ustr_of_def is_whitespace_def)
  have g: "jwt_grants ?d (ustr_of ''tok'') PublishScope (Some (ustr_of ''live/a''))"
    by (simp add: jwt_grants_def one_token_def)
  have s: "srt_publish_streamid (ustr_of ''live/a'') (ustr_of ''tok'') = ustr_of ''m=publish,r=live/a,t=tok''"
    by (simp add: srt_publish_streamid_def ustr_of_def)
  show ?thesis using one_token_every_protocol [OF n, of ?d] g s by (simp add: Let_def)
qed

theorem static_tokens_exact_witness:
  "static_check \<lparr>sc_admin_token = None, sc_publish_key = Some (ustr_of ''k1''), sc_subscribe_token = None\<rparr>
    (Publish (ustr_of ''live'') (ustr_of ''k2'') None) \<noteq> Allow"
  using static_tokens_exact [where name = "[]", of "\<lparr>sc_admin_token = None, sc_publish_key = Some (ustr_of ''k1''), sc_subscribe_token = None\<rparr>"
      "ustr_of ''k2''" "ustr_of ''live''" None]
  by (simp add: ustr_of_def)

end
