(* ===== verification/Registry.thy ===== *)
theory Registry
  imports Ustr
begin

text \<open>
  The unified media model of \<open>lvqr-fragment\<close> (\<open>fragment.rs\<close>, \<open>broadcaster.rs\<close>, \<open>registry.rs\<close>) and the publish
  helpers of \<open>lvqr-ingest/src/dispatch.rs\<close>.  A broadcaster is its metadata and what it sent so far; what a
  subscriber's receiver of the tokio channel returns is an argument of \<open>next_fragment\<close>.  The registry is given
  as functions for one caller at a time, and as the lock-protected accesses that racing callers interleave.
\<close>

section \<open>Fragments\<close>

record fragment_flags =
  ff_keyframe :: bool
  ff_independent :: bool
  ff_discardable :: bool

definition FLAGS_KEYFRAME :: fragment_flags where
  "FLAGS_KEYFRAME = \<lparr>ff_keyframe = True, ff_independent = True, ff_discardable = False\<rparr>"

definition FLAGS_AUDIO :: fragment_flags where
  "FLAGS_AUDIO = \<lparr>ff_keyframe = False, ff_independent = True, ff_discardable = False\<rparr>"

definition FLAGS_DELTA_DISCARDABLE :: fragment_flags where
  "FLAGS_DELTA_DISCARDABLE = \<lparr>ff_keyframe = False, ff_independent = False, ff_discardable = True\<rparr>"

definition FLAGS_DELTA :: fragment_flags where
  "FLAGS_DELTA = \<lparr>ff_keyframe = False, ff_independent = False, ff_discardable = False\<rparr>"

record media_fragment =
  fg_track_id :: ustr
  fg_group_id :: u64
  fg_object_id :: u64
  fg_priority :: u8
  fg_dts :: u64
  fg_pts :: u64
  fg_duration :: u64
  fg_flags :: fragment_flags
  fg_payload :: bytes
  fg_ingest_time_ms :: u64

definition fragment_new ::
    "ustr \<Rightarrow> u64 \<Rightarrow> u64 \<Rightarrow> u8 \<Rightarrow> u64 \<Rightarrow> u64 \<Rightarrow> u64 \<Rightarrow> fragment_flags \<Rightarrow> bytes \<Rightarrow> media_fragment" where
  "fragment_new track_id group_id object_id priority dts pts duration flags payload =
     \<lparr>fg_track_id = track_id, fg_group_id = group_id, fg_object_id = object_id, fg_priority = priority,
      fg_dts = dts, fg_pts = pts, fg_duration = duration, fg_flags = flags, fg_payload = payload,
      fg_ingest_time_ms = 0\<rparr>"

definition with_ingest_time_ms :: "u64 \<Rightarrow> media_fragment \<Rightarrow> media_fragment" where
  "with_ingest_time_ms ms frag = frag\<lparr>fg_ingest_time_ms := ms\<rparr>"

record fragment_meta =
  fm_codec :: ustr
  fm_timescale :: u32
  fm_init_segment :: "bytes option"

definition fragment_meta_new :: "ustr \<Rightarrow> u32 \<Rightarrow> fragment_meta" where
  "fragment_meta_new codec timescale = \<lparr>fm_codec = codec, fm_timescale = timescale, fm_init_segment = None\<rparr>"

definition with_init_segment :: "bytes \<Rightarrow> fragment_meta \<Rightarrow> fragment_meta" where
  "with_init_segment init m = m\<lparr>fm_init_segment := Some init\<rparr>"

section \<open>Broadcasters and their streams\<close>

record broadcaster =
  bc_track_id :: ustr
  bc_meta :: fragment_meta
  bc_emitted :: u64
  bc_sent :: "media_fragment list"

definition broadcaster_new :: "ustr \<Rightarrow> fragment_meta \<Rightarrow> broadcaster" where
  "broadcaster_new track_id meta = \<lparr>bc_track_id = track_id, bc_meta = meta, bc_emitted = 0, bc_sent = []\<rparr>"

definition set_init_segment :: "bytes \<Rightarrow> broadcaster \<Rightarrow> broadcaster" where
  "set_init_segment init bc = bc\<lparr>bc_meta := (bc_meta bc)\<lparr>fm_init_segment := Some init\<rparr>\<rparr>"

definition replace_meta :: "fragment_meta \<Rightarrow> broadcaster \<Rightarrow> broadcaster" where
  "replace_meta m bc = bc\<lparr>bc_meta := m\<rparr>"

definition broadcaster_emit :: "media_fragment \<Rightarrow> broadcaster \<Rightarrow> broadcaster" where
  "broadcaster_emit frag bc = bc\<lparr>bc_emitted := bc_emitted bc + 1, bc_sent := bc_sent bc @ [frag]\<rparr>"

record broadcaster_stream =
  bs_meta :: fragment_meta
  bs_track_id :: ustr

definition subscribe :: "broadcaster \<Rightarrow> broadcaster_stream" where
  "subscribe bc = \<lparr>bs_meta = bc_meta bc, bs_track_id = bc_track_id bc\<rparr>"

definition refresh_meta :: "broadcaster \<Rightarrow> broadcaster_stream \<Rightarrow> broadcaster_stream" where
  "refresh_meta source st = st\<lparr>bs_meta := bc_meta source\<rparr>"

text \<open>What the receiver of the channel returns, and the loop over it: the fragment or the end of the stream,
  the number of fragments skipped, and the results not yet taken.  It waits when there are none.\<close>

datatype recv_result = Received media_fragment | Lagged u64 | Closed

fun next_fragment :: "recv_result list \<Rightarrow> u64 \<Rightarrow> (media_fragment option \<times> u64 \<times> recv_result list) option" where
  "next_fragment [] lagged_skips = None"
| "next_fragment (Received frag # rest) lagged_skips = Some (Some frag, lagged_skips, rest)"
| "next_fragment (Lagged skipped # rest) lagged_skips = next_fragment rest (lagged_skips + skipped)"
| "next_fragment (Closed # rest) lagged_skips = Some (None, lagged_skips, rest)"

section \<open>The registry, one caller at a time\<close>

type_synonym registry_key = "ustr \<times> ustr"
type_synonym registry = "registry_key \<rightharpoonup> broadcaster"

definition SCTE35_TRACK :: ustr where
  "SCTE35_TRACK = ustr_of ''scte35''"

definition get_or_create :: "ustr \<Rightarrow> ustr \<Rightarrow> fragment_meta \<Rightarrow> registry \<Rightarrow> broadcaster \<times> registry" where
  "get_or_create broadcast track meta reg =
     (case reg (broadcast, track) of Some existing \<Rightarrow> (existing, reg)
      | None \<Rightarrow> (let bc = broadcaster_new track meta in (bc, reg((broadcast, track) \<mapsto> bc))))"

definition registry_get :: "registry \<Rightarrow> ustr \<Rightarrow> ustr \<Rightarrow> broadcaster option" where
  "registry_get reg broadcast track = reg (broadcast, track)"

definition registry_subscribe :: "registry \<Rightarrow> ustr \<Rightarrow> ustr \<Rightarrow> broadcaster_stream option" where
  "registry_subscribe reg broadcast track = map_option subscribe (registry_get reg broadcast track)"

definition registry_remove :: "ustr \<Rightarrow> ustr \<Rightarrow> registry \<Rightarrow> broadcaster option \<times> registry" where
  "registry_remove broadcast track reg = (reg (broadcast, track), reg((broadcast, track) := None))"

definition registry_keys :: "registry \<Rightarrow> registry_key set" where
  "registry_keys reg = dom reg"

text \<open>\<open>dispatch.rs\<close>\<close>

definition publish_init :: "ustr \<Rightarrow> ustr \<Rightarrow> ustr \<Rightarrow> u32 \<Rightarrow> bytes \<Rightarrow> registry \<Rightarrow> registry" where
  "publish_init broadcast track codec timescale init reg =
     (let (bc, reg) = get_or_create broadcast track (fragment_meta_new codec timescale) reg in
      reg((broadcast, track) \<mapsto> set_init_segment init bc))"

definition publish_fragment :: "u64 \<Rightarrow> ustr \<Rightarrow> ustr \<Rightarrow> ustr \<Rightarrow> u32 \<Rightarrow> media_fragment \<Rightarrow> registry \<Rightarrow> registry" where
  "publish_fragment now_ms broadcast track codec timescale frag reg =
     (let frag = (if fg_ingest_time_ms frag = 0 then frag\<lparr>fg_ingest_time_ms := now_ms\<rparr> else frag);
          (bc, reg) = get_or_create broadcast track (fragment_meta_new codec timescale) reg in
      reg((broadcast, track) \<mapsto> broadcaster_emit frag bc))"

definition publish_scte35 :: "u64 \<Rightarrow> ustr \<Rightarrow> u64 \<Rightarrow> u64 \<Rightarrow> u64 \<Rightarrow> bytes \<Rightarrow> registry \<Rightarrow> registry" where
  "publish_scte35 now_ms broadcast event_id pts_90k duration_90k sec reg =
     (let (bc, reg) = get_or_create broadcast SCTE35_TRACK (fragment_meta_new (ustr_of ''scte35'') 90000) reg;
          frag = with_ingest_time_ms now_ms
            (fragment_new SCTE35_TRACK event_id 0 0 pts_90k pts_90k duration_90k FLAGS_KEYFRAME sec) in
      reg((broadcast, SCTE35_TRACK) \<mapsto> broadcaster_emit frag bc))"

lemma publish_init_lookup:
  "publish_init b t codec ts init reg (b', t') =
    (if (b', t') = (b, t) then Some (set_init_segment init
       (case reg (b, t) of Some bc \<Rightarrow> bc | None \<Rightarrow> broadcaster_new t (fragment_meta_new codec ts)))
     else reg (b', t'))"
  by (auto simp: publish_init_def get_or_create_def Let_def split: option.split)

lemma publish_fragment_lookup:
  "publish_fragment now b t codec ts frag reg (b', t') =
    (if (b', t') = (b, t) then Some (broadcaster_emit
       (if fg_ingest_time_ms frag = 0 then frag\<lparr>fg_ingest_time_ms := now\<rparr> else frag)
       (case reg (b, t) of Some bc \<Rightarrow> bc | None \<Rightarrow> broadcaster_new t (fragment_meta_new codec ts)))
     else reg (b', t'))"
  by (auto simp: publish_fragment_def get_or_create_def Let_def split: option.split)

text \<open>The fragments that were sent on an entry.\<close>

definition published_on :: "registry \<Rightarrow> registry_key \<Rightarrow> media_fragment list" where
  "published_on reg k = (case reg k of None \<Rightarrow> [] | Some bc \<Rightarrow> bc_sent bc)"

lemma published_on_fragment:
  "published_on (publish_fragment now b t codec ts frag reg) (b, t) =
     published_on reg (b, t) @ [if fg_ingest_time_ms frag = 0 then frag\<lparr>fg_ingest_time_ms := now\<rparr> else frag]"
  by (simp add: published_on_def publish_fragment_lookup broadcaster_emit_def broadcaster_new_def split: option.split)

lemma published_on_init: "published_on (publish_init b t codec ts init reg) k = published_on reg k"
  by (cases k) (simp add: published_on_def publish_init_lookup set_init_segment_def broadcaster_new_def split: option.split)

section \<open>Racing callers\<close>

text \<open>
  Handles are numbered in the order of their insertion.  A call of \<open>get_or_create\<close> reads the map, then looks
  again under the write lock, then runs a snapshot of the callbacks one by one; \<open>remove\<close> takes the entry out
  and runs the removal callbacks.  Callbacks are numbers; the log says which ran for which
  entry, and \<open>rg_due\<close> which were registered when it was inserted.
\<close>

datatype registry_op =
    Get_read registry_key
  | Get_write registry_key
  | Get_snapshot registry_key nat
  | Get_fire registry_key nat "nat list"
  | Get_done registry_key nat
  | Rem_write registry_key
  | Rem_snapshot registry_key nat
  | Rem_fire registry_key nat "nat list"
  | Rem_done registry_key "nat option"

record shared_registry =
  rg_inner :: "registry_key \<rightharpoonup> nat"
  rg_callbacks :: "nat list"
  rg_removed_callbacks :: "nat list"
  rg_ops :: "registry_op list"
  rg_inserted :: "registry_key list"
  rg_due :: "nat list list"
  rg_removed :: "nat list"
  rg_fired :: "(nat \<times> registry_key \<times> nat) list"
  rg_fired_removed :: "(nat \<times> registry_key \<times> nat) list"

definition shared_registry_new :: shared_registry where
  "shared_registry_new = \<lparr>rg_inner = Map.empty, rg_callbacks = [], rg_removed_callbacks = [], rg_ops = [],
     rg_inserted = [], rg_due = [], rg_removed = [], rg_fired = [], rg_fired_removed = []\<rparr>"

fun registry_access :: "registry_op \<Rightarrow> shared_registry \<Rightarrow> registry_op \<times> shared_registry" where
  "registry_access (Get_read key) s =
     (case rg_inner s key of Some existing \<Rightarrow> Get_done key existing | None \<Rightarrow> Get_write key, s)"
| "registry_access (Get_write key) s =
     (case rg_inner s key of Some existing \<Rightarrow> (Get_done key existing, s)
      | None \<Rightarrow> (let bc = length (rg_inserted s) in
          (Get_snapshot key bc, s\<lparr>rg_inner := (rg_inner s)(key \<mapsto> bc), rg_inserted := rg_inserted s @ [key],
            rg_due := rg_due s @ [rg_callbacks s]\<rparr>)))"
| "registry_access (Get_snapshot key bc) s = (Get_fire key bc (rg_callbacks s), s)"
| "registry_access (Get_fire key bc []) s = (Get_done key bc, s)"
| "registry_access (Get_fire key bc (cb # cbs)) s =
     (Get_fire key bc cbs, s\<lparr>rg_fired := rg_fired s @ [(cb, key, bc)]\<rparr>)"
| "registry_access (Get_done key bc) s = (Get_done key bc, s)"
| "registry_access (Rem_write key) s =
     (case rg_inner s key of None \<Rightarrow> (Rem_done key None, s)
      | Some bc \<Rightarrow> (Rem_snapshot key bc, s\<lparr>rg_inner := (rg_inner s)(key := None), rg_removed := rg_removed s @ [bc]\<rparr>))"
| "registry_access (Rem_snapshot key bc) s = (Rem_fire key bc (rg_removed_callbacks s), s)"
| "registry_access (Rem_fire key bc []) s = (Rem_done key (Some bc), s)"
| "registry_access (Rem_fire key bc (cb # cbs)) s =
     (Rem_fire key bc cbs, s\<lparr>rg_fired_removed := rg_fired_removed s @ [(cb, key, bc)]\<rparr>)"
| "registry_access (Rem_done key r) s = (Rem_done key r, s)"

inductive registry_step :: "shared_registry \<Rightarrow> shared_registry \<Rightarrow> bool" where
  reg_callback: "cb \<notin> set (rg_callbacks s) \<Longrightarrow>
     registry_step s (s\<lparr>rg_callbacks := rg_callbacks s @ [cb]\<rparr>)"
| reg_removed_callback: "cb \<notin> set (rg_removed_callbacks s) \<Longrightarrow>
     registry_step s (s\<lparr>rg_removed_callbacks := rg_removed_callbacks s @ [cb]\<rparr>)"
| reg_get: "registry_step s (s\<lparr>rg_ops := rg_ops s @ [Get_read key]\<rparr>)"
| reg_remove: "registry_step s (s\<lparr>rg_ops := rg_ops s @ [Rem_write key]\<rparr>)"
| reg_access: "n < length (rg_ops s) \<Longrightarrow> registry_access (rg_ops s ! n) s = (op', s') \<Longrightarrow>
     registry_step s (s'\<lparr>rg_ops := (rg_ops s)[n := op']\<rparr>)"

subsection \<open>The invariant\<close>

fun op_creating :: "registry_op \<Rightarrow> nat option" where
  "op_creating (Get_snapshot key bc) = Some bc"
| "op_creating (Get_fire key bc cbs) = Some bc"
| "op_creating _ = None"

fun op_removing :: "registry_op \<Rightarrow> nat option" where
  "op_removing (Rem_snapshot key bc) = Some bc"
| "op_removing (Rem_fire key bc cbs) = Some bc"
| "op_removing _ = None"

definition entry_at :: "shared_registry \<Rightarrow> registry_key \<Rightarrow> nat \<Rightarrow> bool" where
  "entry_at s key bc \<longleftrightarrow> bc < length (rg_inserted s) \<and> rg_inserted s ! bc = key"

definition fired_for :: "(nat \<times> registry_key \<times> nat) list \<Rightarrow> nat \<Rightarrow> nat set" where
  "fired_for log bc = {cb. \<exists>key. (cb, key, bc) \<in> set log}"

fun registry_op_ok :: "shared_registry \<Rightarrow> registry_op \<Rightarrow> bool" where
  "registry_op_ok s (Get_snapshot key bc) = (entry_at s key bc \<and> fired_for (rg_fired s) bc = {} \<and>
     set (rg_due s ! bc) \<subseteq> set (rg_callbacks s))"
| "registry_op_ok s (Get_fire key bc cbs) = (entry_at s key bc \<and> distinct cbs \<and> fired_for (rg_fired s) bc \<inter> set cbs = {} \<and>
     set (rg_due s ! bc) \<subseteq> fired_for (rg_fired s) bc \<union> set cbs)"
| "registry_op_ok s (Get_done key bc) = entry_at s key bc"
| "registry_op_ok s (Rem_snapshot key bc) = (entry_at s key bc \<and> bc \<in> set (rg_removed s) \<and>
     fired_for (rg_fired_removed s) bc = {})"
| "registry_op_ok s (Rem_fire key bc cbs) = (entry_at s key bc \<and> bc \<in> set (rg_removed s) \<and> distinct cbs \<and>
     fired_for (rg_fired_removed s) bc \<inter> set cbs = {})"
| "registry_op_ok s (Rem_done key (Some bc)) = (entry_at s key bc \<and> bc \<in> set (rg_removed s))"
| "registry_op_ok s _ = True"

definition registry_ok :: "shared_registry \<Rightarrow> bool" where
  "registry_ok s \<longleftrightarrow>
     (\<forall>key bc. rg_inner s key = Some bc \<longrightarrow> entry_at s key bc \<and> bc \<notin> set (rg_removed s)) \<and>
     (\<forall>bc < length (rg_inserted s). bc \<in> set (rg_removed s) \<or> rg_inner s (rg_inserted s ! bc) = Some bc) \<and>
     (\<forall>bc \<in> set (rg_removed s). bc < length (rg_inserted s)) \<and> distinct (rg_removed s) \<and>
     length (rg_due s) = length (rg_inserted s) \<and>
     distinct (rg_callbacks s) \<and> distinct (rg_removed_callbacks s) \<and>
     (\<forall>op' \<in> set (rg_ops s). registry_op_ok s op') \<and>
     apart op_creating (rg_ops s) \<and> apart op_removing (rg_ops s) \<and>
     (\<forall>(cb, key, bc) \<in> set (rg_fired s). entry_at s key bc) \<and> distinct (rg_fired s) \<and>
     (\<forall>(cb, key, bc) \<in> set (rg_fired_removed s). entry_at s key bc \<and> bc \<in> set (rg_removed s)) \<and>
     distinct (rg_fired_removed s) \<and>
     (\<forall>bc < length (rg_inserted s). (\<forall>op' \<in> set (rg_ops s). op_creating op' \<noteq> Some bc) \<longrightarrow>
        set (rg_due s ! bc) \<subseteq> fired_for (rg_fired s) bc)"

lemma fired_for_append [simp]:
  "fired_for (log @ [(cb, key, b)]) bc = (if b = bc then insert cb (fired_for log bc) else fired_for log bc)"
  by (cases key) (auto simp: fired_for_def)

lemma fired_for_nil [simp]: "fired_for [] bc = {}"
  by (simp add: fired_for_def)

lemma registry_op_mono:
  assumes "registry_op_ok s op2" and "rg_inserted s' = rg_inserted s @ xs" and "rg_due s' = rg_due s @ ys"
    and "length (rg_due s) = length (rg_inserted s)" and "set (rg_callbacks s) \<subseteq> set (rg_callbacks s')"
    and "set (rg_removed s) \<subseteq> set (rg_removed s')"
    and "\<And>bc. op_creating op2 = Some bc \<Longrightarrow> fired_for (rg_fired s') bc = fired_for (rg_fired s) bc"
    and "\<And>bc. op_removing op2 = Some bc \<Longrightarrow> fired_for (rg_fired_removed s') bc = fired_for (rg_fired_removed s) bc"
  shows "registry_op_ok s' op2"
proof -
  have e: "entry_at s' key bc" if "entry_at s key bc" for key bc
    using that assms(2) by (simp add: entry_at_def nth_append)
  have d: "rg_due s' ! bc = rg_due s ! bc" if "entry_at s key bc" for key bc
    using that assms(3,4) by (simp add: entry_at_def nth_append)
  show ?thesis
  proof (cases op2)
    case (Rem_done key r)
    then show ?thesis using assms(1,6) e by (cases r) auto
  qed (use assms(1,5-8) e d in auto)
qed

lemma registry_okD:
  assumes "registry_ok s"
  shows "rg_inner s key = Some bc \<Longrightarrow> entry_at s key bc \<and> bc \<notin> set (rg_removed s)"
    "bc < length (rg_inserted s) \<Longrightarrow> bc \<in> set (rg_removed s) \<or> rg_inner s (rg_inserted s ! bc) = Some bc"
    "bc \<in> set (rg_removed s) \<Longrightarrow> bc < length (rg_inserted s)"
    "length (rg_due s) = length (rg_inserted s)" "distinct (rg_callbacks s)" "distinct (rg_removed_callbacks s)"
    "op2 \<in> set (rg_ops s) \<Longrightarrow> registry_op_ok s op2"
    "apart op_creating (rg_ops s)" "apart op_removing (rg_ops s)"
    "(cb, key, bc) \<in> set (rg_fired s) \<Longrightarrow> entry_at s key bc"
    "(cb, key, bc) \<in> set (rg_fired_removed s) \<Longrightarrow> entry_at s key bc \<and> bc \<in> set (rg_removed s)"
    "distinct (rg_removed s)" "distinct (rg_fired s)" "distinct (rg_fired_removed s)"
    "bc < length (rg_inserted s) \<Longrightarrow> (\<And>op2. op2 \<in> set (rg_ops s) \<Longrightarrow> op_creating op2 \<noteq> Some bc) \<Longrightarrow>
       set (rg_due s ! bc) \<subseteq> fired_for (rg_fired s) bc"
  using assms unfolding registry_ok_def by blast+

lemma registry_okI:
  assumes "\<And>key bc. rg_inner s key = Some bc \<Longrightarrow> entry_at s key bc \<and> bc \<notin> set (rg_removed s)"
    "\<And>bc. bc < length (rg_inserted s) \<Longrightarrow> bc \<in> set (rg_removed s) \<or> rg_inner s (rg_inserted s ! bc) = Some bc"
    "\<And>bc. bc \<in> set (rg_removed s) \<Longrightarrow> bc < length (rg_inserted s)"
    "length (rg_due s) = length (rg_inserted s)" "distinct (rg_callbacks s)" "distinct (rg_removed_callbacks s)"
    "\<And>op2. op2 \<in> set (rg_ops s) \<Longrightarrow> registry_op_ok s op2"
    "apart op_creating (rg_ops s)" "apart op_removing (rg_ops s)"
    "\<And>cb key bc. (cb, key, bc) \<in> set (rg_fired s) \<Longrightarrow> entry_at s key bc"
    "\<And>cb key bc. (cb, key, bc) \<in> set (rg_fired_removed s) \<Longrightarrow> entry_at s key bc \<and> bc \<in> set (rg_removed s)"
    "distinct (rg_removed s)" "distinct (rg_fired s)" "distinct (rg_fired_removed s)"
    "\<And>bc. bc < length (rg_inserted s) \<Longrightarrow> (\<And>op2. op2 \<in> set (rg_ops s) \<Longrightarrow> op_creating op2 \<noteq> Some bc) \<Longrightarrow>
       set (rg_due s ! bc) \<subseteq> fired_for (rg_fired s) bc"
  shows "registry_ok s"
  unfolding registry_ok_def using assms by fast

text \<open>What one access does, for the acting call and for the shared maps.\<close>

lemma access_op:
  assumes ok: "registry_ok s" and op2: "registry_op_ok s op2" and ac: "registry_access op2 s = (op', s')"
  shows "registry_op_ok s' op'"
    and "op_creating op' = None \<or> op_creating op' = op_creating op2 \<or> op_creating op' = Some (length (rg_inserted s))"
    and "op_removing op' = None \<or> op_removing op' = op_removing op2 \<or> (\<exists>bc. op_removing op' = Some bc \<and> bc \<notin> set (rg_removed s))"
proof -
  note D = registry_okD [OF ok]
  have inner: "entry_at s key bc" "bc \<notin> set (rg_removed s)" if "rg_inner s key = Some bc" for key bc
    using D(1) [OF that] by auto
  have nofire: "fired_for (rg_fired s) (length (rg_inserted s)) = {}"
    using D(10) by (force simp: fired_for_def entry_at_def)
  have nofire_r: "fired_for (rg_fired_removed s) bc = {}" if "bc \<notin> set (rg_removed s)" for bc
    using D(11) that by (force simp: fired_for_def)
  show "registry_op_ok s' op'"
    using ac op2 inner nofire nofire_r D(4-6)
    by (induction op2 s rule: registry_access.induct)
      (auto simp: entry_at_def nth_append Let_def split: option.splits if_splits)
  show "op_creating op' = None \<or> op_creating op' = op_creating op2 \<or> op_creating op' = Some (length (rg_inserted s))"
    using ac by (induction op2 s rule: registry_access.induct) (auto simp: Let_def split: option.splits)
  show "op_removing op' = None \<or> op_removing op' = op_removing op2 \<or> (\<exists>bc. op_removing op' = Some bc \<and> bc \<notin> set (rg_removed s))"
    using ac inner(2) by (induction op2 s rule: registry_access.induct) (auto simp: Let_def split: option.splits)
qed

lemma access_shared:
  assumes ac: "registry_access op2 s = (op', s')"
  shows "\<exists>xs ys. rg_inserted s' = rg_inserted s @ xs \<and> rg_due s' = rg_due s @ ys \<and> length xs = length ys"
    and "rg_callbacks s' = rg_callbacks s" and "rg_removed_callbacks s' = rg_removed_callbacks s"
    and "set (rg_removed s) \<subseteq> set (rg_removed s')"
    and "op_creating op2 \<noteq> Some bc \<Longrightarrow> fired_for (rg_fired s') bc = fired_for (rg_fired s) bc"
    and "op_removing op2 \<noteq> Some bc \<Longrightarrow> fired_for (rg_fired_removed s') bc = fired_for (rg_fired_removed s) bc"
  using ac by (induction op2 s rule: registry_access.induct) (auto simp: Let_def split: option.splits)

lemma access_shape:
  assumes "registry_access op2 s = (op', s')"
  obtains "rg_inner s' = rg_inner s" "rg_inserted s' = rg_inserted s" "rg_removed s' = rg_removed s"
  | k where "rg_inner s k = None" "rg_inner s' = (rg_inner s)(k \<mapsto> length (rg_inserted s))"
      "rg_inserted s' = rg_inserted s @ [k]" "rg_removed s' = rg_removed s"
  | k b where "rg_inner s' = (rg_inner s)(k := None)" "rg_inner s k = Some b" "rg_inserted s' = rg_inserted s"
      "rg_removed s' = rg_removed s @ [b]"
proof -
  have fire: "rg_inner s' = rg_inner s \<and> rg_inserted s' = rg_inserted s \<and> rg_removed s' = rg_removed s"
    if "\<nexists>k. op2 = Get_write k \<or> op2 = Rem_write k"
    using assms that by (induction op2 s rule: registry_access.induct) auto
  consider k where "op2 = Get_write k" | k where "op2 = Rem_write k" | "\<nexists>k. op2 = Get_write k \<or> op2 = Rem_write k" by blast
  then show thesis
  proof cases
    case (1 k)
    show ?thesis
    proof (cases "rg_inner s k")
      case None
      show ?thesis by (rule that(2) [OF None]) (use assms 1 None in \<open>auto simp: Let_def\<close>)
    next
      case (Some bc)
      show ?thesis by (rule that(1)) (use assms 1 Some in auto)
    qed
  next
    case (2 k)
    show ?thesis
    proof (cases "rg_inner s k")
      case None
      show ?thesis by (rule that(1)) (use assms 2 None in auto)
    next
      case (Some bc)
      show ?thesis by (rule that(3) [OF _ Some]) (use assms 2 Some in auto)
    qed
  next
    case 3
    show ?thesis by (rule that(1)) (use fire [OF 3] in blast)+
  qed
qed

lemma access_maps:
  assumes ok: "registry_ok s" and ac: "registry_access op2 s = (op', s')"
  shows "rg_inner s' key = Some bc \<Longrightarrow> entry_at s' key bc \<and> bc \<notin> set (rg_removed s')"
    and "bc < length (rg_inserted s') \<Longrightarrow> bc \<in> set (rg_removed s') \<or> rg_inner s' (rg_inserted s' ! bc) = Some bc"
    and "bc \<in> set (rg_removed s') \<Longrightarrow> bc < length (rg_inserted s')"
    and "distinct (rg_removed s')"
proof -
  note D = registry_okD [OF ok]
  have inj: "rg_inserted s ! b = k \<and> b < length (rg_inserted s) \<and> b \<notin> set (rg_removed s)" if "rg_inner s k = Some b" for k b
    using D(1) [OF that] by (auto simp: entry_at_def)
  have fresh: "length (rg_inserted s) \<notin> set (rg_removed s)" using D(3) by blast
  have old: "bc \<in> set (rg_removed s) \<or> rg_inner s (rg_inserted s ! bc) = Some bc" if "bc < length (rg_inserted s)" for bc
    using D(2) that by blast
  consider "rg_inner s' = rg_inner s" "rg_inserted s' = rg_inserted s" "rg_removed s' = rg_removed s"
  | k where "rg_inner s k = None" "rg_inner s' = (rg_inner s)(k \<mapsto> length (rg_inserted s))"
      "rg_inserted s' = rg_inserted s @ [k]" "rg_removed s' = rg_removed s"
  | k b where "rg_inner s' = (rg_inner s)(k := None)" "rg_inner s k = Some b" "rg_inserted s' = rg_inserted s"
      "rg_removed s' = rg_removed s @ [b]"
    using access_shape [OF ac] by metis
  note c = this
  show "entry_at s' key bc \<and> bc \<notin> set (rg_removed s')" if k': "rg_inner s' key = Some bc"
    using c
  proof cases
    case 1
    then show ?thesis using inj [of key bc] k' by (simp add: entry_at_def)
  next
    case (2 k)
    then show ?thesis using k' fresh inj [of key bc] by (cases "key = k") (simp_all add: entry_at_def nth_append)
  next
    case (3 k b)
    then have "key \<noteq> k" "rg_inner s key = Some bc" using k' by (auto split: if_splits)
    then show ?thesis using inj [of key bc] inj [OF 3(2)] 3(3,4) by (auto simp: entry_at_def)
  qed
  show "bc \<in> set (rg_removed s') \<or> rg_inner s' (rg_inserted s' ! bc) = Some bc" if b': "bc < length (rg_inserted s')"
    using c
  proof cases
    case 1
    then show ?thesis using old b' by simp
  next
    case (2 k)
    show ?thesis
    proof (cases "bc = length (rg_inserted s)")
      case False
      then have l: "bc < length (rg_inserted s)" using b' 2(3) by simp
      then have "rg_inserted s ! bc \<noteq> k" if "rg_inner s (rg_inserted s ! bc) = Some bc" using 2(1) that by auto
      then show ?thesis using old [OF l] l 2(2-4) by (auto simp: nth_append)
    qed (use 2 in simp)
  next
    case (3 k b)
    have l: "bc < length (rg_inserted s)" using b' 3(3) by simp
    show ?thesis
    proof (cases "rg_inserted s ! bc = k")
      case True
      then show ?thesis using old [OF l] 3 by auto
    qed (use old [OF l] 3 in auto)
  qed
  show "bc < length (rg_inserted s')" if "bc \<in> set (rg_removed s')"
    using c by cases (use that D(3) [of bc] inj in auto)
  show "distinct (rg_removed s')"
    using c
  proof cases
    case (3 k b)
    then show ?thesis using inj [OF 3(2)] D(12) by simp
  qed (use D(12) in simp_all)
qed

lemma access_log:
  assumes ok: "registry_ok s" and op2: "registry_op_ok s op2" and ac: "registry_access op2 s = (op', s')"
  shows "(cb, key, bc) \<in> set (rg_fired s') \<Longrightarrow> entry_at s' key bc"
    and "(cb, key, bc) \<in> set (rg_fired_removed s') \<Longrightarrow> entry_at s' key bc \<and> bc \<in> set (rg_removed s')"
    and "distinct (rg_fired s')" and "distinct (rg_fired_removed s')"
    and "bc < length (rg_inserted s') \<Longrightarrow> op_creating op' \<noteq> Some bc \<Longrightarrow>
      op_creating op2 = Some bc \<or> length (rg_inserted s) \<le> bc \<Longrightarrow> set (rg_due s' ! bc) \<subseteq> fired_for (rg_fired s') bc"
proof -
  note D = registry_okD [OF ok]
  have e: "entry_at s k b \<Longrightarrow> entry_at s' k b" for k b
    using access_shared(1) [OF ac] by (auto simp: entry_at_def nth_append)
  have r: "b \<in> set (rg_removed s) \<Longrightarrow> b \<in> set (rg_removed s')" for b
    using access_shared(4) [OF ac] by blast
  have f: "set (rg_fired s') \<subseteq> set (rg_fired s) \<or> (\<exists>cb key bc. rg_fired s' = rg_fired s @ [(cb, key, bc)] \<and>
      entry_at s key bc \<and> cb \<notin> fired_for (rg_fired s) bc)"
    using ac op2 by (induction op2 s rule: registry_access.induct) (auto simp: Let_def split: option.splits)
  have fr: "set (rg_fired_removed s') \<subseteq> set (rg_fired_removed s) \<or> (\<exists>cb key bc. rg_fired_removed s' = rg_fired_removed s @ [(cb, key, bc)] \<and>
      entry_at s key bc \<and> bc \<in> set (rg_removed s) \<and> cb \<notin> fired_for (rg_fired_removed s) bc)"
    using ac op2 by (induction op2 s rule: registry_access.induct) (auto simp: Let_def split: option.splits)
  show "(cb, key, bc) \<in> set (rg_fired s') \<Longrightarrow> entry_at s' key bc"
    using f D(10) [of cb key bc] e [of key bc] by auto
  show "(cb, key, bc) \<in> set (rg_fired_removed s') \<Longrightarrow> entry_at s' key bc \<and> bc \<in> set (rg_removed s')"
    using fr D(11) [of cb key bc] e [of key bc] r [of bc] by auto
  show "distinct (rg_fired s')"
    using ac op2 D(13) by (induction op2 s rule: registry_access.induct)
      (auto simp: Let_def fired_for_def split: option.splits)
  show "distinct (rg_fired_removed s')"
    using ac op2 D(14) by (induction op2 s rule: registry_access.induct)
      (auto simp: Let_def fired_for_def split: option.splits)
  show "bc < length (rg_inserted s') \<Longrightarrow> op_creating op' \<noteq> Some bc \<Longrightarrow>
      op_creating op2 = Some bc \<or> length (rg_inserted s) \<le> bc \<Longrightarrow> set (rg_due s' ! bc) \<subseteq> fired_for (rg_fired s') bc"
    using ac op2 D(4) by (induction op2 s rule: registry_access.induct)
      (auto simp: Let_def split: option.splits if_splits)
qed

lemma access_keeps:
  assumes ok: "registry_ok s" and n: "n < length (rg_ops s)" and ac: "registry_access (rg_ops s ! n) s = (op', s')"
  shows "registry_ok (s'\<lparr>rg_ops := (rg_ops s)[n := op']\<rparr>)" (is "registry_ok ?s")
proof -
  note D = registry_okD [OF ok]
  have opn: "registry_op_ok s (rg_ops s ! n)" using D(7) n by simp
  note A = access_op [OF ok opn ac] and S = access_shared [OF ac]
  obtain xs ys where xs: "rg_inserted s' = rg_inserted s @ xs" "rg_due s' = rg_due s @ ys" "length xs = length ys"
    using S(1) by blast
  have cr: "bc < length (rg_inserted s)" if "op2 \<in> set (rg_ops s)" "op_creating op2 = Some bc" for op2 bc
    using D(7) [OF that(1)] that(2) by (cases op2) (auto simp: entry_at_def)
  have rm: "bc \<in> set (rg_removed s)" if "op2 \<in> set (rg_ops s)" "op_removing op2 = Some bc" for op2 bc
    using D(7) [OF that(1)] that(2) by (cases op2) auto
  have others: "registry_op_ok s' (rg_ops s ! m)" if m: "m < length (rg_ops s)" "m \<noteq> n" for m
  proof (rule registry_op_mono [OF _ xs(1,2) D(4) _ S(4)])
    show "registry_op_ok s (rg_ops s ! m)" using D(7) m(1) by simp
    show "set (rg_callbacks s) \<subseteq> set (rg_callbacks s')" by (simp add: S(2))
    show "fired_for (rg_fired s') bc = fired_for (rg_fired s) bc" if "op_creating (rg_ops s ! m) = Some bc" for bc
      using S(5) [of bc] apartD [OF D(8) n m(1), of bc] that m(2) by blast
    show "fired_for (rg_fired_removed s') bc = fired_for (rg_fired_removed s) bc" if "op_removing (rg_ops s ! m) = Some bc" for bc
      using S(6) [of bc] apartD [OF D(9) n m(1), of bc] that m(2) by blast
  qed
  have ops: "registry_op_ok s' op2" if "op2 \<in> set ((rg_ops s)[n := op'])" for op2
  proof -
    from that obtain m where "m < length (rg_ops s)" "op2 = (rg_ops s)[n := op'] ! m" by (auto simp: in_set_conv_nth)
    then show ?thesis using A(1) others [of m] n by (cases "m = n") simp_all
  qed
  have same: "registry_op_ok ?s op2 = registry_op_ok s' op2" "entry_at ?s k b = entry_at s' k b" for op2 k b
  proof -
    show e: "entry_at ?s k b = entry_at s' k b" for k b by (simp add: entry_at_def)
    show "registry_op_ok ?s op2 = registry_op_ok s' op2"
    proof (cases op2)
      case (Rem_done key r)
      then show ?thesis by (cases r) (simp_all add: e)
    qed (simp_all add: e)
  qed
  show ?thesis
  proof (rule registry_okI)
    show "apart op_creating (rg_ops ?s)"
    proof -
      have "\<forall>m < length (rg_ops s). op_creating (rg_ops s ! m) \<noteq> Some (length (rg_inserted s))"
        using cr by (metis less_irrefl nth_mem)
      then have "apart op_creating ((rg_ops s)[n := op'])"
        using apart_update_new [OF D(8) n, of op'] A(2) by metis
      then show ?thesis by simp
    qed
    show "apart op_removing (rg_ops ?s)"
    proof -
      have "\<forall>m < length (rg_ops s). op_removing (rg_ops s ! m) \<noteq> Some bc" if "bc \<notin> set (rg_removed s)" for bc
        using rm that by (metis nth_mem)
      then have "apart op_removing ((rg_ops s)[n := op'])"
        using apart_update_new [OF D(9) n, of op'] A(3) by metis
      then show ?thesis by simp
    qed
    fix bc assume bc: "bc < length (rg_inserted ?s)" and idle: "\<And>op2. op2 \<in> set (rg_ops ?s) \<Longrightarrow> op_creating op2 \<noteq> Some bc"
    have op': "op_creating op' \<noteq> Some bc" using idle [of op'] n by (simp add: set_update_memI)
    show "set (rg_due ?s ! bc) \<subseteq> fired_for (rg_fired ?s) bc"
    proof (cases "op_creating (rg_ops s ! n) = Some bc \<or> length (rg_inserted s) \<le> bc")
      case True
      then show ?thesis using access_log(5) [OF ok opn ac, of bc] bc op' by simp
    next
      case False
      have "op_creating op2 \<noteq> Some bc" if op2: "op2 \<in> set (rg_ops s)" for op2
      proof -
        from op2 obtain m where m: "m < length (rg_ops s)" "op2 = rg_ops s ! m" by (auto simp: in_set_conv_nth)
        show ?thesis
        proof (cases "m = n")
          case False
          then have "op2 \<in> set ((rg_ops s)[n := op'])" using m n by (metis length_list_update nth_list_update_neq nth_mem)
          then show ?thesis using idle [of op2] by simp
        qed (use False m in simp)
      qed
      then have "set (rg_due s ! bc) \<subseteq> fired_for (rg_fired s) bc" using D(15) False by auto
      then show ?thesis using False S(5) [of bc] xs(2) D(4) by (simp add: nth_append)
    qed
  qed (use access_maps [OF ok ac] access_log [OF ok opn ac] D S ops same xs in \<open>simp_all add: D(4)\<close>)
qed

text \<open>Registering a callback, or a new call, changes nothing the invariant looks at.\<close>

lemma registry_ok_extend:
  assumes ok: "registry_ok s" and "distinct (rg_callbacks s @ cbs)" "distinct (rg_removed_callbacks s @ rcbs)"
    and ops: "\<And>op2. op2 \<in> set ops \<Longrightarrow> registry_op_ok s op2 \<and> op_creating op2 = None \<and> op_removing op2 = None" "length ops \<le> 1"
  shows "registry_ok (s\<lparr>rg_callbacks := rg_callbacks s @ cbs, rg_removed_callbacks := rg_removed_callbacks s @ rcbs,
    rg_ops := rg_ops s @ ops\<rparr>)" (is "registry_ok ?s")
proof -
  note D = registry_okD [OF ok]
  have mono: "registry_op_ok ?s op2" if "registry_op_ok s op2" for op2
    by (rule registry_op_mono [OF that _ _ D(4), where xs = "[]" and ys = "[]"]) simp_all
  have "\<exists>op2. ops = [op2] \<or> ops = []" using ops(2) by (cases ops) auto
  then have ap: "apart op_creating (rg_ops s @ ops)" "apart op_removing (rg_ops s @ ops)"
    using D(8,9) ops(1) by (auto intro!: apart_append)
  have e: "entry_at ?s k b = entry_at s k b" for k b by (simp add: entry_at_def)
  show ?thesis
    by (rule registry_okI) (use D ops mono ap assms(2,3) in \<open>auto simp: e\<close>)
qed

lemma step_keeps_registry:
  assumes ok: "registry_ok s" and st: "registry_step s t"
  shows "registry_ok t"
  using st
proof cases
  case (reg_access n op' s')
  then show ?thesis using access_keeps [OF ok] by simp
next
  case (reg_callback cb)
  then show ?thesis using registry_ok_extend [OF ok, of "[cb]" "[]" "[]"] registry_okD(5,6) [OF ok] by simp
next
  case (reg_removed_callback cb)
  then show ?thesis using registry_ok_extend [OF ok, of "[]" "[cb]" "[]"] registry_okD(5,6) [OF ok] by simp
next
  case (reg_get key)
  then show ?thesis using registry_ok_extend [OF ok, of "[]" "[]" "[Get_read key]"] registry_okD(5,6) [OF ok] by simp
next
  case (reg_remove key)
  then show ?thesis using registry_ok_extend [OF ok, of "[]" "[]" "[Rem_write key]"] registry_okD(5,6) [OF ok] by simp
qed

interpretation shared_registry: step_invariant shared_registry_new registry_step registry_ok
proof
  show "registry_ok shared_registry_new"
    by (rule registry_okI) (simp_all add: shared_registry_new_def apart_def)
qed (rule step_keeps_registry)

text \<open>
  C6. Racing callers agree on the broadcaster of a key: in every interleaving of lookups, insertions, removals
  and callback registrations, two callers that got a handle for the same key got the same one unless an entry
  was removed in between.  A creation callback runs at most once for an entry, and once the inserting call has
  returned every callback that was registered before the insertion has run; removal callbacks run at most once,
  and only for entries that were removed.
\<close>

theorem registry_callers_agree:
  assumes "registry_step\<^sup>*\<^sup>* shared_registry_new s"
  shows "(Get_done key a \<in> set (rg_ops s) \<and> Get_done key b \<in> set (rg_ops s) \<and>
      a \<notin> set (rg_removed s) \<and> b \<notin> set (rg_removed s) \<longrightarrow> a = b) \<and>
    distinct (rg_fired s) \<and> ((cb, key, bc) \<in> set (rg_fired s) \<longrightarrow> entry_at s key bc) \<and>
    (entry_at s key bc \<and> Some bc \<notin> op_creating ` set (rg_ops s) \<and> cb \<in> set (rg_due s ! bc) \<longrightarrow>
      (cb, key, bc) \<in> set (rg_fired s)) \<and>
    distinct (rg_fired_removed s) \<and>
    ((cb, key, bc) \<in> set (rg_fired_removed s) \<longrightarrow> entry_at s key bc \<and> bc \<in> set (rg_removed s))"
proof -
  note D = registry_okD [OF shared_registry.inv_reachable [OF assms]]
  have live: "rg_inner s key = Some a" if "Get_done key a \<in> set (rg_ops s)" "a \<notin> set (rg_removed s)" for a
    using D(7) [OF that(1)] D(2) [of a] that(2) by (auto simp: entry_at_def)
  have ran: "(cb, key, bc) \<in> set (rg_fired s)"
    if e: "entry_at s key bc" and idle: "Some bc \<notin> op_creating ` set (rg_ops s)" and due: "cb \<in> set (rg_due s ! bc)"
  proof -
    have "op_creating op2 \<noteq> Some bc" if "op2 \<in> set (rg_ops s)" for op2
      using idle that by (metis imageI)
    then have "set (rg_due s ! bc) \<subseteq> fired_for (rg_fired s) bc"
      using D(15) [of bc] e by (simp add: entry_at_def)
    then obtain key' where k: "(cb, key', bc) \<in> set (rg_fired s)" using due by (auto simp: fired_for_def)
    then have "key' = key" using D(10) [OF k] e by (simp add: entry_at_def)
    then show ?thesis using k by simp
  qed
  have "Get_done key a \<in> set (rg_ops s) \<and> Get_done key b \<in> set (rg_ops s) \<and>
      a \<notin> set (rg_removed s) \<and> b \<notin> set (rg_removed s) \<longrightarrow> a = b"
    using live [of a] live [of b] by auto
  then show ?thesis using D(10,11,13,14) ran by blast
qed

definition registry_schedule :: "nat \<Rightarrow> shared_registry \<Rightarrow> shared_registry" where
  "registry_schedule n s = (let r = registry_access (rg_ops s ! n) s in (snd r)\<lparr>rg_ops := (rg_ops s)[n := fst r]\<rparr>)"

lemma schedule_steps:
  assumes "\<And>n. n \<in> set ns \<Longrightarrow> n < length (rg_ops s)"
  shows "registry_step\<^sup>*\<^sup>* s (fold registry_schedule ns s)"
  using assms
proof (induction ns arbitrary: s)
  case (Cons n ns)
  have "registry_step s (registry_schedule n s)"
    unfolding registry_schedule_def Let_def by (rule reg_access) (use Cons.prems in auto)
  moreover have "length (rg_ops (registry_schedule n s)) = length (rg_ops s)"
    by (simp add: registry_schedule_def Let_def)
  then have "registry_step\<^sup>*\<^sup>* (registry_schedule n s) (fold registry_schedule ns (registry_schedule n s))"
    using Cons.prems by (intro Cons.IH) auto
  ultimately show ?case by (simp add: converse_rtranclp_into_rtranclp)
qed simp

definition racing_gets :: shared_registry where
  "racing_gets = (let k = (ustr_of ''live/a'', ustr_of ''0.mp4'') in
     shared_registry_new\<lparr>rg_callbacks := [7], rg_ops := [Get_read k, Get_read k]\<rparr>)"

definition race_settled :: shared_registry where
  "race_settled = fold registry_schedule [0, 1, 0, 1, 0, 0, 0] racing_gets"

lemma race_settled_reached: "registry_step\<^sup>*\<^sup>* shared_registry_new race_settled"
proof -
  let ?k = "(ustr_of ''live/a'', ustr_of ''0.mp4'')"
  have "registry_step shared_registry_new (shared_registry_new\<lparr>rg_callbacks := [7]\<rparr>)"
    using reg_callback [of 7 shared_registry_new] by (simp add: shared_registry_new_def)
  moreover have "registry_step (shared_registry_new\<lparr>rg_callbacks := [7]\<rparr>)
      (shared_registry_new\<lparr>rg_callbacks := [7], rg_ops := [Get_read ?k]\<rparr>)"
    using reg_get [of "shared_registry_new\<lparr>rg_callbacks := [7]\<rparr>" ?k] by (simp add: shared_registry_new_def)
  moreover have "registry_step (shared_registry_new\<lparr>rg_callbacks := [7], rg_ops := [Get_read ?k]\<rparr>) racing_gets"
    using reg_get [of "shared_registry_new\<lparr>rg_callbacks := [7], rg_ops := [Get_read ?k]\<rparr>" ?k]
    by (simp add: racing_gets_def shared_registry_new_def Let_def)
  moreover have "registry_step\<^sup>*\<^sup>* racing_gets race_settled"
    unfolding race_settled_def by (rule schedule_steps) (auto simp: racing_gets_def Let_def)
  ultimately show ?thesis by (meson converse_rtranclp_into_rtranclp)
qed

lemma race_settled_value:
  "rg_ops race_settled = [Get_done (ustr_of ''live/a'', ustr_of ''0.mp4'') 0, Get_done (ustr_of ''live/a'', ustr_of ''0.mp4'') 0]"
  "rg_due race_settled = [[7]]" "rg_inserted race_settled = [(ustr_of ''live/a'', ustr_of ''0.mp4'')]"
  by (simp_all add: race_settled_def racing_gets_def registry_schedule_def shared_registry_new_def Let_def)

theorem registry_callers_agree_witness:
  "(7, (ustr_of ''live/a'', ustr_of ''0.mp4''), 0) \<in> set (rg_fired race_settled) \<and> distinct (rg_fired race_settled)"
  using registry_callers_agree [OF race_settled_reached, of "(ustr_of ''live/a'', ustr_of ''0.mp4'')" 0 0 7 0]
  by (simp add: race_settled_value entry_at_def)

end
