(* ===== verification/RtspServer.thy ===== *)
theory RtspServer
  imports RtspProto Sdp Auth Registry Cmaf
begin

text \<open>
  The RTSP server: the session state machine of \<open>lvqr-rtsp/src/session.rs\<close>, and from \<open>server.rs\<close> the request
  handlers, the path from interleaved RTP frames to fragments in the registry, and the loop over the receive
  buffer.  What a connection does not own is in a record: the crates \<open>mp4-atom\<close> and \<open>base64\<close>, the
  authentication provider, the cluster's owner resolver, the iteration orders of its hash maps, the session
  identifiers and the clock.  PLAY drain tasks are listed, not run.
\<close>

section \<open>Sessions\<close>

datatype session_state = InitState | ReadyState | PlayingState | RecordingState

datatype session_mode = PlaybackMode | IngestMode

record track_transport =
  tt_control_path :: ustr
  tt_interleaved :: "(u8 \<times> u8) option"

record rtsp_session =
  se_id :: ustr
  se_state :: session_state
  se_mode :: session_mode
  se_broadcast :: ustr
  se_tracks :: "track_info list"
  se_transports :: "(ustr, track_transport) hash_map"

definition session_new :: "ustr \<Rightarrow> session_mode \<Rightarrow> ustr \<Rightarrow> rtsp_session" where
  "session_new i mode broadcast = \<lparr>se_id = i, se_state = InitState, se_mode = mode, se_broadcast = broadcast,
     se_tracks = [], se_transports = []\<rparr>"

definition setup_track :: "ustr \<Rightarrow> (u8 \<times> u8) option \<Rightarrow> rtsp_session \<Rightarrow> rtsp_session" where
  "setup_track control interleaved s =
     s\<lparr>se_transports := hm_insert control \<lparr>tt_control_path = control, tt_interleaved = interleaved\<rparr> (se_transports s),
       se_state := ReadyState\<rparr>"

datatype state_error = InvalidTransition session_state string | WrongMode session_mode string

definition session_play :: "rtsp_session \<Rightarrow> (rtsp_session, state_error) outcome" where
  "session_play s =
     (if se_state s \<noteq> ReadyState then Err (InvalidTransition (se_state s) ''PLAY'')
      else if se_mode s \<noteq> PlaybackMode then Err (WrongMode (se_mode s) ''PLAY'')
      else Ok (s\<lparr>se_state := PlayingState\<rparr>))"

definition session_record :: "rtsp_session \<Rightarrow> (rtsp_session, state_error) outcome" where
  "session_record s =
     (if se_state s \<noteq> ReadyState then Err (InvalidTransition (se_state s) ''RECORD'')
      else if se_mode s \<noteq> IngestMode then Err (WrongMode (se_mode s) ''RECORD'')
      else Ok (s\<lparr>se_state := RecordingState\<rparr>))"

section \<open>The connection\<close>

type_synonym sessions = "(ustr, rtsp_session) hash_map"

record rtsp_env =
  ev_headers_order :: headers_order
  ev_sessions_order :: "(ustr, rtsp_session) hash_order"
  ev_transports_order :: "(ustr, track_transport) hash_order"
  ev_encode :: mp4_encoder
  ev_decode :: mp4_decoder
  ev_avcc_new :: "bytes \<Rightarrow> bytes \<Rightarrow> avcc option"
  ev_moof :: moof_encoder
  ev_base64 :: base64_encoder
  ev_auth :: auth_provider
  ev_owner_resolver :: "(ustr \<Rightarrow> ustr option) option"
  ev_has_registrar :: bool
  ev_host_is_v4 :: bool
  ev_host_text :: ustr
  ev_session_id :: "nat \<Rightarrow> ustr"
  ev_now_ms :: u64

datatype play_drain = DrainH264 ustr u8 u8 | DrainHevc ustr u8 u8 | DrainAac ustr u8 u8 | DrainOpus ustr u8 u8

record rtsp_conn =
  cn_sessions :: sessions
  cn_requests :: nat
  cn_registered :: "ustr list"
  cn_drains :: "play_drain list"
  cn_h264_depack :: depacketizer
  cn_hevc_depack :: depacketizer
  cn_rtp_packet_count :: u64
  cn_sps :: "bytes option"
  cn_pps :: "bytes option"
  cn_vps :: "bytes option"
  cn_video_init_emitted :: bool
  cn_video_seq :: u64
  cn_prev_video_dts :: "u64 option"
  cn_audio_init_emitted :: bool
  cn_audio_seq :: u64
  cn_audio_timescale :: u32
  cn_prev_audio_dts :: "u64 option"

definition conn_new :: rtsp_conn where
  "conn_new = \<lparr>cn_sessions = [], cn_requests = 0, cn_registered = [], cn_drains = [],
     cn_h264_depack = depacketizer_new, cn_hevc_depack = depacketizer_new, cn_rtp_packet_count = 0,
     cn_sps = None, cn_pps = None, cn_vps = None, cn_video_init_emitted = False, cn_video_seq = 0,
     cn_prev_video_dts = None, cn_audio_init_emitted = False, cn_audio_seq = 0, cn_audio_timescale = 44100,
     cn_prev_audio_dts = None\<rparr>"

definition VIDEO_TRACK :: ustr where "VIDEO_TRACK = ustr_of ''0.mp4''"
definition AUDIO_TRACK :: ustr where "AUDIO_TRACK = ustr_of ''1.mp4''"

definition supported_methods :: ustr where
  "supported_methods = ustr_of ''OPTIONS, DESCRIBE, ANNOUNCE, SETUP, PLAY, RECORD, TEARDOWN, GET_PARAMETER''"

definition uri_path :: "ustr \<Rightarrow> ustr" where
  "uri_path uri = (case strip_prefix (ustr_of ''rtsp://'') uri of
     Some rest \<Rightarrow> (case str_find [47] rest of Some (_, path) \<Rightarrow> path | None \<Rightarrow> [])
   | None \<Rightarrow> dropWhile (\<lambda>c. c = 47) uri)"

definition extract_broadcast :: "ustr \<Rightarrow> ustr" where
  "extract_broadcast uri =
     (let path = uri_path uri; parts = str_split 47 path in
      if 2 < length parts then ustr_join [47] (butlast parts) else path)"

definition extract_track_control :: "ustr \<Rightarrow> ustr" where
  "extract_track_control uri = last (str_split 47 (uri_path uri))"

section \<open>Request handlers\<close>

definition handle_options :: "u32 \<Rightarrow> response" where
  "handle_options c = with_header (ustr_of ''Public'') supported_methods (with_cseq c response_ok)"

definition init_of :: "registry \<Rightarrow> ustr \<Rightarrow> ustr \<Rightarrow> bytes option" where
  "init_of reg broadcast track =
     (case registry_get reg broadcast track of Some bc \<Rightarrow> fm_init_segment (bc_meta bc) | None \<Rightarrow> None)"

definition described_video_track :: "rtsp_env \<Rightarrow> bytes \<Rightarrow> video_description option" where
  "described_video_track ev init =
     (case extract_hevc_parameter_sets (ev_decode ev) init of
        Some params \<Rightarrow> Some (HevcVideo \<lparr>h5_payload_type = 96, h5_clock_rate = 90000,
          h5_control = ustr_of ''track1'', h5_params = params\<rparr>)
      | None \<Rightarrow> map_option (\<lambda>params. H264Video \<lparr>h4_payload_type = 96, h4_clock_rate = 90000,
          h4_control = ustr_of ''track1'', h4_params = params\<rparr>) (extract_avc_parameter_sets (ev_decode ev) init))"

definition described_audio_track :: "rtsp_env \<Rightarrow> bytes \<Rightarrow> audio_description option" where
  "described_audio_track ev init =
     (case extract_opus_config (ev_decode ev) init of
        Some config \<Rightarrow> Some (OpusAudio \<lparr>ot_payload_type = 98, ot_control = ustr_of ''track2'', ot_config = config\<rparr>)
      | None \<Rightarrow> map_option (\<lambda>config. AacAudio \<lparr>at_payload_type = 97, at_control = ustr_of ''track2'', at_config = config\<rparr>)
          (extract_aac_config (ev_decode ev) init))"

definition handle_describe :: "rtsp_env \<Rightarrow> registry \<Rightarrow> request \<Rightarrow> u32 \<Rightarrow> response" where
  "handle_describe ev reg req c =
     (let broadcast = extract_broadcast (rq_uri req);
          video = Option.bind (init_of reg broadcast VIDEO_TRACK) (described_video_track ev);
          audio = Option.bind (init_of reg broadcast AUDIO_TRACK) (described_audio_track ev);
          sdp = sdp_render (ev_base64 ev) \<lparr>ps_session_name = broadcast, ps_host_is_v4 = ev_host_is_v4 ev,
            ps_host_text = ev_host_text ev, ps_video = video, ps_audio = audio\<rparr> in
      with_body (ustr_of ''application/sdp'') (str_bytes sdp)
        (with_header (ustr_of ''Content-Base'') (rq_uri req) (with_cseq c response_ok)))"

definition announced_session :: "ustr \<Rightarrow> request \<Rightarrow> rtsp_session" where
  "announced_session i req = (session_new i IngestMode (extract_broadcast (rq_uri req)))
     \<lparr>se_tracks := parse_sdp_tracks (case from_utf8 (rq_body req) of Some t \<Rightarrow> t | None \<Rightarrow> [])\<rparr>"

definition handle_announce :: "rtsp_env \<Rightarrow> ustr \<Rightarrow> request \<Rightarrow> u32 \<Rightarrow> rtsp_conn \<Rightarrow> response \<times> rtsp_conn" where
  "handle_announce ev new_id req c conn =
     (let conn = conn\<lparr>cn_sessions := hm_insert new_id (announced_session new_id req) (cn_sessions conn)\<rparr>;
          conn = (if ev_has_registrar ev
            then conn\<lparr>cn_registered := cn_registered conn @ [extract_broadcast (rq_uri req)]\<rparr> else conn) in
      (with_header (ustr_of ''Session'') new_id (with_cseq c response_ok), conn))"

definition handle_setup :: "rtsp_env \<Rightarrow> ustr \<Rightarrow> request \<Rightarrow> u32 \<Rightarrow> rtsp_conn \<Rightarrow> response \<times> rtsp_conn" where
  "handle_setup ev new_id req c conn =
     (let control = extract_track_control (rq_uri req);
          transport_header = (case headers_get (ev_headers_order ev) (rq_headers req) (ustr_of ''Transport'') of
            Some v \<Rightarrow> v | None \<Rightarrow> []);
          transport = parse_transport transport_header;
          (sid, conn) = (case session_id (ev_headers_order ev) req of Some i \<Rightarrow> (i, conn)
            | None \<Rightarrow> (case ev_sessions_order ev (cn_sessions conn) of (i, _) # _ \<Rightarrow> (i, conn)
              | [] \<Rightarrow> (new_id, conn\<lparr>cn_sessions := hm_insert new_id
                  (session_new new_id PlaybackMode (extract_broadcast (rq_uri req))) (cn_sessions conn)\<rparr>))) in
      case map_of (cn_sessions conn) sid of
        None \<Rightarrow> (with_cseq c response_session_not_found, conn)
      | Some s \<Rightarrow>
          (let interleaved = (case ts_interleaved transport of Some p \<Rightarrow> Some p | None \<Rightarrow> Some (0, 1));
               conn = conn\<lparr>cn_sessions := hm_insert sid (setup_track control interleaved s) (cn_sessions conn)\<rparr>;
               (ch_a, ch_b) = (case interleaved of Some p \<Rightarrow> p | None \<Rightarrow> (0, 1)) in
           (with_header (ustr_of ''Transport'') (interleaved_transport ch_a ch_b)
              (with_header (ustr_of ''Session'') (sid @ ustr_of '';timeout=60'') (with_cseq c response_ok)), conn)))"

definition video_channels_of :: "rtsp_env \<Rightarrow> rtsp_session \<Rightarrow> (u8 \<times> u8) option" where
  "video_channels_of ev s =
     (case Option.bind (map_of (se_transports s) (ustr_of ''track1'')) tt_interleaved of Some p \<Rightarrow> Some p
      | None \<Rightarrow> if length (se_transports s) = 1 \<and> map_of (se_transports s) (ustr_of ''track2'') = None
          then first_some (\<lambda>(_, t). tt_interleaved t) (ev_transports_order ev (se_transports s)) else None)"

definition audio_channels_of :: "rtsp_session \<Rightarrow> (u8 \<times> u8) option" where
  "audio_channels_of s = Option.bind (map_of (se_transports s) (ustr_of ''track2'')) tt_interleaved"

definition handle_play :: "rtsp_env \<Rightarrow> registry \<Rightarrow> request \<Rightarrow> u32 \<Rightarrow> rtsp_conn \<Rightarrow> response \<times> rtsp_conn" where
  "handle_play ev reg req c conn =
     (case session_id (ev_headers_order ev) req of None \<Rightarrow> (with_cseq c response_session_not_found, conn)
      | Some sid \<Rightarrow> (case map_of (cn_sessions conn) sid of None \<Rightarrow> (with_cseq c response_session_not_found, conn)
      | Some s \<Rightarrow> (case session_play s of
          Err e \<Rightarrow> (with_cseq c response_method_not_allowed, conn)
        | Panic \<Rightarrow> (with_cseq c response_method_not_allowed, conn)
        | Ok s \<Rightarrow>
          (let conn = conn\<lparr>cn_sessions := hm_insert sid s (cn_sessions conn)\<rparr>;
               broadcast = se_broadcast s;
               video_channels = video_channels_of ev s;
               audio_channels = audio_channels_of s;
               video_init = init_of reg broadcast VIDEO_TRACK;
               is_hevc = (case video_init of Some b \<Rightarrow> extract_hevc_parameter_sets (ev_decode ev) b \<noteq> None | None \<Rightarrow> False);
               is_h264 = (case video_init of Some b \<Rightarrow> extract_avc_parameter_sets (ev_decode ev) b \<noteq> None | None \<Rightarrow> False);
               audio_init = init_of reg broadcast AUDIO_TRACK;
               is_opus = (case audio_init of Some b \<Rightarrow> extract_opus_config (ev_decode ev) b \<noteq> None | None \<Rightarrow> False);
               is_aac = (case audio_init of Some b \<Rightarrow> extract_aac_config (ev_decode ev) b \<noteq> None | None \<Rightarrow> False);
               unsupported = with_header (ustr_of ''Session'') sid (with_cseq c response_unsupported_media_type) in
           if video_channels \<noteq> None \<and> video_init \<noteq> None \<and> \<not> is_hevc \<and> \<not> is_h264 then (unsupported, conn)
           else if audio_channels \<noteq> None \<and> audio_init \<noteq> None \<and> \<not> is_opus \<and> \<not> is_aac then (unsupported, conn)
           else
             (let video_drain = (case video_channels of None \<Rightarrow> []
                    | Some (a, b) \<Rightarrow> [if is_hevc then DrainHevc broadcast a b else DrainH264 broadcast a b]);
                  audio_drain = (case audio_channels of None \<Rightarrow> []
                    | Some (a, b) \<Rightarrow> [if is_opus then DrainOpus broadcast a b else DrainAac broadcast a b]) in
              (with_header (ustr_of ''Session'') sid (with_cseq c response_ok),
               conn\<lparr>cn_drains := cn_drains conn @ video_drain @ audio_drain\<rparr>))))))"

definition handle_record :: "rtsp_env \<Rightarrow> request \<Rightarrow> u32 \<Rightarrow> rtsp_conn \<Rightarrow> response \<times> rtsp_conn" where
  "handle_record ev req c conn =
     (case session_id (ev_headers_order ev) req of None \<Rightarrow> (with_cseq c response_session_not_found, conn)
      | Some sid \<Rightarrow> (case map_of (cn_sessions conn) sid of None \<Rightarrow> (with_cseq c response_session_not_found, conn)
      | Some s \<Rightarrow> (case session_record s of
          Ok s \<Rightarrow> (with_header (ustr_of ''Session'') sid (with_cseq c response_ok),
            conn\<lparr>cn_sessions := hm_insert sid s (cn_sessions conn)\<rparr>)
        | _ \<Rightarrow> (with_cseq c response_method_not_allowed, conn))))"

definition handle_teardown :: "rtsp_env \<Rightarrow> request \<Rightarrow> u32 \<Rightarrow> rtsp_conn \<Rightarrow> response \<times> rtsp_conn" where
  "handle_teardown ev req c conn =
     (case session_id (ev_headers_order ev) req of None \<Rightarrow> (with_cseq c response_session_not_found, conn)
      | Some sid \<Rightarrow> (with_header (ustr_of ''Session'') sid (with_cseq c response_ok),
          conn\<lparr>cn_sessions := hm_remove sid (cn_sessions conn)\<rparr>))"

definition handle_get_parameter :: "u32 \<Rightarrow> response" where
  "handle_get_parameter c = with_cseq c response_ok"

definition trim_end_slash :: "ustr \<Rightarrow> ustr" where
  "trim_end_slash s = rev (dropWhile (\<lambda>c. c = 47) (rev s))"

text \<open>The redirect that precedes DESCRIBE and PLAY of a broadcast this node does not have.\<close>

definition redirect_location :: "rtsp_env \<Rightarrow> registry \<Rightarrow> request \<Rightarrow> ustr option" where
  "redirect_location ev reg req =
     (if rq_method req = Describe \<or> rq_method req = Play then
        (case ev_owner_resolver ev of None \<Rightarrow> None | Some resolver \<Rightarrow>
          (let broadcast = extract_broadcast (rq_uri req);
               local_known = (registry_get reg broadcast VIDEO_TRACK \<noteq> None \<or> registry_get reg broadcast AUDIO_TRACK \<noteq> None) in
           if local_known then None
           else map_option (\<lambda>base. trim_end_slash base @ 47 # broadcast) (resolver broadcast)))
      else None)"

definition publish_admitted :: "rtsp_env \<Rightarrow> request \<Rightarrow> bool" where
  "publish_admitted ev req \<longleftrightarrow> is_allow (ev_auth ev (extract_rtsp (extract_broadcast (rq_uri req))
     (headers_get (ev_headers_order ev) (rq_headers req) (ustr_of ''Authorization''))))"

definition handle_request :: "rtsp_env \<Rightarrow> registry \<Rightarrow> request \<Rightarrow> rtsp_conn \<Rightarrow> response \<times> rtsp_conn" where
  "handle_request ev reg req conn =
     (let c = (case cseq (ev_headers_order ev) req of Some c \<Rightarrow> c | None \<Rightarrow> 0);
          new_id = ev_session_id ev (cn_requests conn);
          conn = conn\<lparr>cn_requests := Suc (cn_requests conn)\<rparr> in
      case redirect_location ev reg req of Some location \<Rightarrow> (with_cseq c (response_found location), conn)
      | None \<Rightarrow>
          if (rq_method req = Announce \<or> rq_method req = RtspRecord) \<and> \<not> publish_admitted ev req
          then (with_cseq c response_unauthorized, conn)
          else case rq_method req of
            Options \<Rightarrow> (handle_options c, conn)
          | Describe \<Rightarrow> (handle_describe ev reg req c, conn)
          | Announce \<Rightarrow> handle_announce ev new_id req c conn
          | Setup \<Rightarrow> handle_setup ev new_id req c conn
          | Play \<Rightarrow> handle_play ev reg req c conn
          | RtspRecord \<Rightarrow> handle_record ev req c conn
          | Teardown \<Rightarrow> handle_teardown ev req c conn
          | GetParameter \<Rightarrow> (handle_get_parameter c, conn)
          | _ \<Rightarrow> (with_cseq c response_method_not_allowed, conn))"

section \<open>From RTP frames to fragments\<close>

datatype nal_filter = FilterH264 | FilterHevc

fun nal_skipped :: "nal_filter \<Rightarrow> bytes \<Rightarrow> bool" where
  "nal_skipped FilterH264 nalu = (let t = nalu ! 0 AND 0x1F in t = 7 \<or> t = 8)"
| "nal_skipped FilterHevc nalu = (if length nalu < 2 then True
     else let t = drop_bit 1 (nalu ! 0) AND 0x3F in t = 32 \<or> t = 33 \<or> t = 34)"

definition nals_to_length_prefixed :: "bytes list \<Rightarrow> nal_filter \<Rightarrow> bytes" where
  "nals_to_length_prefixed nalus filt = concat (map (\<lambda>nalu.
     if nalu = [] \<or> nal_skipped filt nalu then [] else be32_bytes (of_nat (length nalu)) @ nalu) nalus)"

definition recording_session :: "rtsp_env \<Rightarrow> rtsp_conn \<Rightarrow> rtsp_session option" where
  "recording_session ev conn =
     find (\<lambda>s. se_state s = RecordingState) (map snd (ev_sessions_order ev (cn_sessions conn)))"

fun channel_track :: "rtsp_session \<Rightarrow> u8 \<Rightarrow> track_info list \<Rightarrow> media_type option" where
  "channel_track s channel [] = None"
| "channel_track s channel (t # ts) =
     (case map_of (se_transports s) (ti_control t) of
        Some tr \<Rightarrow> (case tt_interleaved tr of
            Some (rtp_ch, _) \<Rightarrow> if rtp_ch = channel then Some (ti_media_type t) else channel_track s channel ts
          | None \<Rightarrow> channel_track s channel ts)
      | None \<Rightarrow> channel_track s channel ts)"

definition find_media_type_for_channel :: "rtsp_session \<Rightarrow> u8 \<Rightarrow> media_type" where
  "find_media_type_for_channel s channel = (case channel_track s channel (se_tracks s) of
     Some m \<Rightarrow> m | None \<Rightarrow> if 2 \<le> channel then AudioMedia else VideoMedia)"

definition frame_duration :: "u64 option \<Rightarrow> u64 \<Rightarrow> u32 \<Rightarrow> u32" where
  "frame_duration prev dts first = (case prev of Some p \<Rightarrow> if p < dts then ucast (dts - p) else first | None \<Rightarrow> first)"

definition emit_video_fragment ::
    "rtsp_env \<Rightarrow> ustr \<Rightarrow> depack_result \<Rightarrow> bytes \<Rightarrow> ustr \<Rightarrow> rtsp_conn \<Rightarrow> registry \<Rightarrow> (rtsp_conn \<times> registry, unit) outcome" where
  "emit_video_fragment ev broadcast result payload codec conn reg =
     (let dts = ucast (dr_timestamp result) :: u64;
          keyframe = dr_keyframe result;
          duration = frame_duration (cn_prev_video_dts conn) dts 3000;
          conn = conn\<lparr>cn_prev_video_dts := Some dts\<rparr>;
          raw = \<lparr>rs_track_id = 1, rs_dts = dts, rs_cts_offset = 0, rs_duration = duration, rs_payload = payload,
            rs_keyframe = keyframe\<rparr>;
          conn = conn\<lparr>cn_video_seq := cn_video_seq conn + 1\<rparr> in
      obind (build_moof_mdat (ev_moof ev) (ucast (cn_video_seq conn)) 1 dts [raw]) (\<lambda>moof_mdat.
        let frag = fragment_new VIDEO_TRACK (cn_video_seq conn) 0 0 dts dts (ucast duration)
              (if keyframe then FLAGS_KEYFRAME else FLAGS_DELTA) moof_mdat in
        Ok (conn, publish_fragment (ev_now_ms ev) broadcast VIDEO_TRACK codec 90000 frag reg)))"

fun note_h264_sets :: "bytes list \<Rightarrow> rtsp_conn \<Rightarrow> rtsp_conn" where
  "note_h264_sets [] conn = conn"
| "note_h264_sets (nalu # ns) conn = note_h264_sets ns
     (if nalu = [] then conn
      else if nalu ! 0 AND 0x1F = 7 then conn\<lparr>cn_sps := Some nalu\<rparr>
      else if nalu ! 0 AND 0x1F = 8 then conn\<lparr>cn_pps := Some nalu\<rparr> else conn)"

fun note_hevc_sets :: "bytes list \<Rightarrow> rtsp_conn \<Rightarrow> rtsp_conn" where
  "note_hevc_sets [] conn = conn"
| "note_hevc_sets (nalu # ns) conn = note_hevc_sets ns
     (if length nalu < 2 then conn
      else let t = drop_bit 1 (nalu ! 0) AND 0x3F in
        if t = 32 then conn\<lparr>cn_vps := Some nalu\<rparr>
        else if t = 33 then conn\<lparr>cn_sps := Some nalu\<rparr>
        else if t = 34 then conn\<lparr>cn_pps := Some nalu\<rparr> else conn)"

text \<open>The first half of \<open>process_h264_nalus\<close> and \<open>process_hevc_nalus\<close>: publish the init segment once, when the
  parameter sets are known.  \<open>None\<close> is the early return.\<close>

definition ensure_h264_init :: "rtsp_env \<Rightarrow> ustr \<Rightarrow> rtsp_conn \<Rightarrow> registry \<Rightarrow> ((rtsp_conn \<times> registry) option, unit) outcome" where
  "ensure_h264_init ev broadcast conn reg =
     (if cn_video_init_emitted conn then Ok (Some (conn, reg))
      else case (cn_sps conn, cn_pps conn) of
        (Some sps, Some pps) \<Rightarrow>
          (case write_avc_init_segment (ev_encode ev) (ev_avcc_new ev)
              \<lparr>vi_sps = sps, vi_pps = pps, vi_width = 0, vi_height = 0, vi_timescale = 90000\<rparr> of
             Ok buf \<Rightarrow> Ok (Some (conn\<lparr>cn_video_init_emitted := True\<rparr>,
               publish_init broadcast VIDEO_TRACK (ustr_of ''avc1'') 90000 buf reg))
           | Err e \<Rightarrow> Ok None | Panic \<Rightarrow> Panic)
      | _ \<Rightarrow> Ok None)"

definition ensure_hevc_init :: "rtsp_env \<Rightarrow> ustr \<Rightarrow> rtsp_conn \<Rightarrow> registry \<Rightarrow> ((rtsp_conn \<times> registry) option, unit) outcome" where
  "ensure_hevc_init ev broadcast conn reg =
     (if cn_video_init_emitted conn then Ok (Some (conn, reg))
      else case (cn_vps conn, cn_sps conn, cn_pps conn) of
        (Some vps, Some sps, Some pps) \<Rightarrow>
          (case parse_sps sps of Err e \<Rightarrow> Ok None | Panic \<Rightarrow> Panic
           | Ok info \<Rightarrow> (case write_hevc_init_segment (ev_encode ev)
               \<lparr>hi_vps = vps, hi_sps = sps, hi_pps = pps, hi_sps_info = info, hi_timescale = 90000\<rparr> of
                Ok buf \<Rightarrow> Ok (Some (conn\<lparr>cn_video_init_emitted := True\<rparr>,
                  publish_init broadcast VIDEO_TRACK (ustr_of ''hev1'') 90000 buf reg))
              | Err e \<Rightarrow> Ok None | Panic \<Rightarrow> Panic))
      | _ \<Rightarrow> Ok None)"

definition process_h264_nalus ::
    "rtsp_env \<Rightarrow> ustr \<Rightarrow> depack_result \<Rightarrow> rtsp_conn \<Rightarrow> registry \<Rightarrow> (rtsp_conn \<times> registry, unit) outcome" where
  "process_h264_nalus ev broadcast result conn reg =
     (let conn = note_h264_sets (dr_nalus result) conn in
      obind (ensure_h264_init ev broadcast conn reg) (\<lambda>r. case r of None \<Rightarrow> Ok (conn, reg)
        | Some (conn, reg) \<Rightarrow>
            (let avcc = nals_to_length_prefixed (dr_nalus result) FilterH264 in
             if avcc = [] then Ok (conn, reg)
             else emit_video_fragment ev broadcast result avcc (ustr_of ''avc1'') conn reg)))"

definition process_hevc_nalus ::
    "rtsp_env \<Rightarrow> ustr \<Rightarrow> depack_result \<Rightarrow> rtsp_conn \<Rightarrow> registry \<Rightarrow> (rtsp_conn \<times> registry, unit) outcome" where
  "process_hevc_nalus ev broadcast result conn reg =
     (let conn = note_hevc_sets (dr_nalus result) conn in
      obind (ensure_hevc_init ev broadcast conn reg) (\<lambda>r. case r of None \<Rightarrow> Ok (conn, reg)
        | Some (conn, reg) \<Rightarrow>
            (let hvcc = nals_to_length_prefixed (dr_nalus result) FilterHevc in
             if hvcc = [] then Ok (conn, reg)
             else emit_video_fragment ev broadcast result hvcc (ustr_of ''hev1'') conn reg)))"

definition recording_video_codec :: "rtsp_env \<Rightarrow> rtsp_conn \<Rightarrow> track_codec" where
  "recording_video_codec ev conn =
     (case Option.bind (recording_session ev conn) (\<lambda>s. find (\<lambda>t. ti_media_type t = VideoMedia) (se_tracks s)) of
        Some t \<Rightarrow> ti_codec t | None \<Rightarrow> H264Codec)"

definition process_video_rtp ::
    "rtsp_env \<Rightarrow> ustr \<Rightarrow> bytes \<Rightarrow> rtp_header \<Rightarrow> rtsp_conn \<Rightarrow> registry \<Rightarrow> (rtsp_conn \<times> registry, unit) outcome" where
  "process_video_rtp ev broadcast payload header conn reg =
     (if recording_video_codec ev conn = H265Codec then
        obind (hevc_depacketize payload header (cn_hevc_depack conn)) (\<lambda>(r, st).
          let conn = conn\<lparr>cn_hevc_depack := st\<rparr> in
          case r of None \<Rightarrow> Ok (conn, reg)
          | Some result \<Rightarrow> process_hevc_nalus ev broadcast result
              (conn\<lparr>cn_rtp_packet_count := cn_rtp_packet_count conn + 1\<rparr>) reg)
      else
        obind (h264_depacketize payload header (cn_h264_depack conn)) (\<lambda>(r, st).
          let conn = conn\<lparr>cn_h264_depack := st\<rparr> in
          case r of None \<Rightarrow> Ok (conn, reg)
          | Some result \<Rightarrow> process_h264_nalus ev broadcast result
              (conn\<lparr>cn_rtp_packet_count := cn_rtp_packet_count conn + 1\<rparr>) reg))"

definition recording_aac_track :: "rtsp_env \<Rightarrow> rtsp_conn \<Rightarrow> track_info option" where
  "recording_aac_track ev conn =
     Option.bind (recording_session ev conn) (\<lambda>s. find (\<lambda>t. ti_codec t = AacCodec) (se_tracks s))"

definition ensure_audio_init :: "rtsp_env \<Rightarrow> ustr \<Rightarrow> rtsp_conn \<Rightarrow> registry \<Rightarrow> ((rtsp_conn \<times> registry) option, unit) outcome" where
  "ensure_audio_init ev broadcast conn reg =
     (if cn_audio_init_emitted conn then Ok (Some (conn, reg))
      else obind (case Option.bind (recording_aac_track ev conn) ti_fmtp of None \<Rightarrow> Ok None
          | Some fmtp \<Rightarrow> parse_aac_config_from_fmtp fmtp) (\<lambda>asc.
        case asc of None \<Rightarrow> Ok None
        | Some asc \<Rightarrow>
            (let timescale = (case recording_aac_track ev conn of Some t \<Rightarrow> ti_clock_rate t | None \<Rightarrow> 44100) in
             case write_aac_init_segment (ev_encode ev) \<lparr>ai_asc = asc, ai_timescale = timescale\<rparr> of
               Ok buf \<Rightarrow> Ok (Some (conn\<lparr>cn_audio_init_emitted := True, cn_audio_timescale := timescale\<rparr>,
                 publish_init broadcast AUDIO_TRACK (ustr_of ''mp4a.40.2'') timescale buf reg))
             | Err e \<Rightarrow> Ok None | Panic \<Rightarrow> Panic)))"

fun emit_audio_fragments ::
    "rtsp_env \<Rightarrow> ustr \<Rightarrow> u64 \<Rightarrow> bytes list \<Rightarrow> rtsp_conn \<Rightarrow> registry \<Rightarrow> (rtsp_conn \<times> registry, unit) outcome" where
  "emit_audio_fragments ev broadcast dts [] conn reg = Ok (conn, reg)"
| "emit_audio_fragments ev broadcast dts (frame # frames) conn reg =
     (let duration = frame_duration (cn_prev_audio_dts conn) dts 1024;
          raw = \<lparr>rs_track_id = 2, rs_dts = dts, rs_cts_offset = 0, rs_duration = duration, rs_payload = frame,
            rs_keyframe = True\<rparr>;
          conn = conn\<lparr>cn_prev_audio_dts := Some dts, cn_audio_seq := cn_audio_seq conn + 1\<rparr> in
      obind (build_moof_mdat (ev_moof ev) (ucast (cn_audio_seq conn)) 2 dts [raw]) (\<lambda>moof_mdat.
        let frag = fragment_new AUDIO_TRACK (cn_audio_seq conn) 0 0 dts dts (ucast duration) FLAGS_AUDIO moof_mdat in
        emit_audio_fragments ev broadcast dts frames conn
          (publish_fragment (ev_now_ms ev) broadcast AUDIO_TRACK (ustr_of ''mp4a.40.2'') (cn_audio_timescale conn) frag reg)))"

definition process_audio_rtp ::
    "rtsp_env \<Rightarrow> ustr \<Rightarrow> bytes \<Rightarrow> rtp_header \<Rightarrow> rtsp_conn \<Rightarrow> registry \<Rightarrow> (rtsp_conn \<times> registry, unit) outcome" where
  "process_audio_rtp ev broadcast payload header conn reg =
     obind (aac_depacketize payload header) (\<lambda>r. case r of None \<Rightarrow> Ok (conn, reg)
       | Some result \<Rightarrow>
           (let conn = conn\<lparr>cn_rtp_packet_count := cn_rtp_packet_count conn + 1\<rparr> in
            obind (ensure_audio_init ev broadcast conn reg) (\<lambda>r. case r of None \<Rightarrow> Ok (conn, reg)
              | Some (conn, reg) \<Rightarrow>
                  emit_audio_fragments ev broadcast (ucast (ar_timestamp result)) (ar_frames result) conn reg)))"

definition process_rtp_frame ::
    "rtsp_env \<Rightarrow> interleaved_frame \<Rightarrow> rtsp_conn \<Rightarrow> registry \<Rightarrow> (rtsp_conn \<times> registry, unit) outcome" where
  "process_rtp_frame ev frame conn reg =
     (if if_channel frame mod 2 \<noteq> 0 then Ok (conn, reg)
      else obind (parse_rtp_header (if_payload frame)) (\<lambda>h. case h of None \<Rightarrow> Ok (conn, reg)
        | Some header \<Rightarrow> obind (slice (if_payload frame) (rh_header_len header) (length (if_payload frame))) (\<lambda>payload.
            case recording_session ev conn of None \<Rightarrow> Ok (conn, reg)
            | Some s \<Rightarrow> (case find_media_type_for_channel s (if_channel frame) of
                AudioMedia \<Rightarrow> process_audio_rtp ev (se_broadcast s) payload header conn reg
              | VideoMedia \<Rightarrow> process_video_rtp ev (se_broadcast s) payload header conn reg))))"

section \<open>The receive loop\<close>

text \<open>
  What the loop over the receive buffer ends with: waiting for more bytes, with the responses it queued and
  what is left; stuck in \<open>writer_tx.send\<close>, because the queue of responses is full and its only reader is
  the task that sends; or a panic.
\<close>

datatype loop_end = Waiting "response list" rtsp_conn registry bytes | QueueFull "response list" | LoopPanic

definition bad_request_response :: response where
  "bad_request_response = with_cseq 0 response_bad_request"

lemma interleaved_consumed: "parse_interleaved_frame buf = Ok (Some (f, c)) \<Longrightarrow> 4 \<le> c"
  by (auto simp: parse_interleaved_frame_def Let_def obind_eq_Ok split: if_splits)

lemma slice_order: "slice xs a b = Ok ys \<Longrightarrow> a \<le> b"
  by (auto simp: slice_def split: if_splits)

lemma request_consumed: "parse_request order buf = Ok (r, c) \<Longrightarrow> 4 \<le> c"
  by (auto simp: parse_request_def Let_def obind_eq_Ok split: option.splits list.splits if_splits dest!: slice_order)

function receive_loop :: "rtsp_env \<Rightarrow> nat \<Rightarrow> bytes \<Rightarrow> response list \<Rightarrow> rtsp_conn \<Rightarrow> registry \<Rightarrow> loop_end" where
  "receive_loop ev room buf sent conn reg =
     (if buf = [] then Waiting sent conn reg buf
      else if buf ! 0 = 0x24 then
        (case parse_interleaved_frame buf of
           Ok (Some (frame, consumed)) \<Rightarrow>
             (case process_rtp_frame ev frame conn reg of
                Ok (conn, reg) \<Rightarrow> receive_loop ev room (drop consumed buf) sent conn reg
              | _ \<Rightarrow> LoopPanic)
         | Ok None \<Rightarrow> Waiting sent conn reg buf
         | _ \<Rightarrow> LoopPanic)
      else
        (case parse_request (ev_headers_order ev) buf of
           Ok (req, consumed) \<Rightarrow>
             (let (resp, conn) = handle_request ev reg req conn in
              if room \<le> length sent then QueueFull sent
              else receive_loop ev room (drop consumed buf) (sent @ [resp]) conn reg)
         | Err Incomplete \<Rightarrow> Waiting sent conn reg buf
         | Err e \<Rightarrow> if room \<le> length sent then QueueFull sent else Waiting (sent @ [bad_request_response]) conn reg []
         | Panic \<Rightarrow> LoopPanic))"
  by pat_completeness auto
termination
  by (relation "measure (\<lambda>(ev, room, buf, sent, conn, reg). length buf)")
    (auto dest!: interleaved_consumed request_consumed)

declare receive_loop.simps [simp del]

text \<open>What is left when the connection ends: the events for the sessions that were active.\<close>

definition stopped_broadcasts :: "rtsp_env \<Rightarrow> rtsp_conn \<Rightarrow> ustr list" where
  "stopped_broadcasts ev conn = map se_broadcast
     (filter (\<lambda>s. se_state s = PlayingState \<or> se_state s = RecordingState) (map snd (ev_sessions_order ev (cn_sessions conn))))"

section \<open>What an RTP frame changes\<close>

text \<open>
  Publishing for one broadcast: the sessions stay, only entries of the broadcast change, and once the video
  init segment was published no other one is.
\<close>

definition publishes_for :: "ustr \<Rightarrow> rtsp_conn \<Rightarrow> registry \<Rightarrow> rtsp_conn \<Rightarrow> registry \<Rightarrow> bool" where
  "publishes_for b conn reg conn' reg' \<longleftrightarrow> cn_sessions conn' = cn_sessions conn \<and> cn_requests conn' = cn_requests conn \<and>
     (\<forall>b' t. b' \<noteq> b \<longrightarrow> reg' (b', t) = reg (b', t)) \<and>
     (cn_video_init_emitted conn \<longrightarrow> cn_video_init_emitted conn' \<and>
       (\<forall>b'. init_of reg' b' VIDEO_TRACK = init_of reg b' VIDEO_TRACK))"

lemma publishes_refl [simp]: "publishes_for b conn reg conn reg"
  by (simp add: publishes_for_def)

lemma publishes_trans:
  "publishes_for b c r c1 r1 \<Longrightarrow> publishes_for b c1 r1 c2 r2 \<Longrightarrow> publishes_for b c r c2 r2"
  by (simp add: publishes_for_def)

lemma tracks_differ [simp]: "VIDEO_TRACK \<noteq> AUDIO_TRACK" "AUDIO_TRACK \<noteq> VIDEO_TRACK"
  by (simp_all add: VIDEO_TRACK_def AUDIO_TRACK_def ustr_of_def)

lemma init_of_publish_fragment:
  "init_of (publish_fragment now b t codec ts frag reg) b' t' = init_of reg b' t'"
  by (simp add: init_of_def registry_get_def publish_fragment_lookup broadcaster_emit_def broadcaster_new_def
      fragment_meta_new_def split: option.split)

lemma init_of_publish_init:
  "init_of (publish_init b t codec ts init reg) b' t' = (if (b', t') = (b, t) then Some init else init_of reg b' t')"
  by (simp add: init_of_def registry_get_def publish_init_lookup set_init_segment_def split: option.split)

lemma note_h264_same:
  "cn_sessions (note_h264_sets ns conn) = cn_sessions conn \<and> cn_requests (note_h264_sets ns conn) = cn_requests conn \<and>
   cn_video_init_emitted (note_h264_sets ns conn) = cn_video_init_emitted conn"
  by (induction ns conn rule: note_h264_sets.induct) auto

lemma note_hevc_same:
  "cn_sessions (note_hevc_sets ns conn) = cn_sessions conn \<and> cn_requests (note_hevc_sets ns conn) = cn_requests conn \<and>
   cn_video_init_emitted (note_hevc_sets ns conn) = cn_video_init_emitted conn"
  by (induction ns conn rule: note_hevc_sets.induct) (auto simp: Let_def)

lemma emit_video_publishes:
  "emit_video_fragment ev b result payload codec conn reg = Ok (conn', reg') \<Longrightarrow> publishes_for b conn reg conn' reg'"
  by (auto simp: emit_video_fragment_def Let_def obind_eq_Ok publishes_for_def publish_fragment_lookup init_of_publish_fragment)

lemma ensure_h264_publishes:
  "ensure_h264_init ev b conn reg = Ok (Some (conn', reg')) \<Longrightarrow> publishes_for b conn reg conn' reg'"
  by (auto simp: ensure_h264_init_def publishes_for_def publish_init_lookup split: if_splits option.splits outcome.splits)

lemma ensure_hevc_publishes:
  "ensure_hevc_init ev b conn reg = Ok (Some (conn', reg')) \<Longrightarrow> publishes_for b conn reg conn' reg'"
  by (auto simp: ensure_hevc_init_def publishes_for_def publish_init_lookup split: if_splits option.splits outcome.splits)

lemma ensure_audio_publishes:
  "ensure_audio_init ev b conn reg = Ok (Some (conn', reg')) \<Longrightarrow> publishes_for b conn reg conn' reg'"
proof (cases "cn_audio_init_emitted conn")
  case False
  assume e: "ensure_audio_init ev b conn reg = Ok (Some (conn', reg'))"
  obtain asc where asc: "(case Option.bind (recording_aac_track ev conn) ti_fmtp of None \<Rightarrow> Ok None
      | Some fmtp \<Rightarrow> parse_aac_config_from_fmtp fmtp) = Ok (Some asc)"
  proof -
    from e False obtain q where q: "(case Option.bind (recording_aac_track ev conn) ti_fmtp of None \<Rightarrow> Ok None
        | Some fmtp \<Rightarrow> parse_aac_config_from_fmtp fmtp) = Ok q"
      unfolding ensure_audio_init_def obind_eq_Ok if_not_P [OF False] by blast
    then show ?thesis using e False that by (cases q) (simp_all add: ensure_audio_init_def)
  qed
  show ?thesis
    using e False unfolding ensure_audio_init_def asc
    by (auto simp: publishes_for_def publish_init_lookup init_of_publish_init Let_def split: outcome.splits)
qed (simp add: ensure_audio_init_def)

lemma emit_audio_publishes:
  "emit_audio_fragments ev b dts frames conn reg = Ok (conn', reg') \<Longrightarrow> publishes_for b conn reg conn' reg'"
proof (induction frames arbitrary: conn reg)
  case (Cons frame frames)
  then show ?case
    by (auto simp: Let_def obind_eq_Ok publishes_for_def publish_fragment_lookup init_of_publish_fragment)
qed simp

lemma process_h264_publishes:
  assumes "process_h264_nalus ev b result conn reg = Ok (conn', reg')"
  shows "publishes_for b conn reg conn' reg'"
proof -
  let ?c = "note_h264_sets (dr_nalus result) conn"
  have n: "publishes_for b conn reg ?c reg" using note_h264_same [of "dr_nalus result" conn] by (simp add: publishes_for_def)
  obtain r where r: "ensure_h264_init ev b ?c reg = Ok r"
    using assms by (auto simp: process_h264_nalus_def Let_def obind_eq_Ok)
  show ?thesis
  proof (cases r)
    case None
    then show ?thesis using assms r n by (simp add: process_h264_nalus_def)
  next
    case (Some cr)
    obtain c1 r1 where cr: "cr = (c1, r1)" by force
    have "publishes_for b ?c reg c1 r1" using r Some cr ensure_h264_publishes by simp
    moreover have "publishes_for b c1 r1 conn' reg'"
      using assms r Some cr emit_video_publishes
      by (auto simp: process_h264_nalus_def Let_def split: if_splits)
    ultimately show ?thesis using n publishes_trans by blast
  qed
qed

lemma process_hevc_publishes:
  assumes "process_hevc_nalus ev b result conn reg = Ok (conn', reg')"
  shows "publishes_for b conn reg conn' reg'"
proof -
  let ?c = "note_hevc_sets (dr_nalus result) conn"
  have n: "publishes_for b conn reg ?c reg" using note_hevc_same [of "dr_nalus result" conn] by (simp add: publishes_for_def)
  obtain r where r: "ensure_hevc_init ev b ?c reg = Ok r"
    using assms by (auto simp: process_hevc_nalus_def Let_def obind_eq_Ok)
  show ?thesis
  proof (cases r)
    case None
    then show ?thesis using assms r n by (simp add: process_hevc_nalus_def)
  next
    case (Some cr)
    obtain c1 r1 where cr: "cr = (c1, r1)" by force
    have "publishes_for b ?c reg c1 r1" using r Some cr ensure_hevc_publishes by simp
    moreover have "publishes_for b c1 r1 conn' reg'"
      using assms r Some cr emit_video_publishes
      by (auto simp: process_hevc_nalus_def Let_def split: if_splits)
    ultimately show ?thesis using n publishes_trans by blast
  qed
qed

lemma process_video_publishes:
  assumes "process_video_rtp ev b payload header conn reg = Ok (conn', reg')"
  shows "publishes_for b conn reg conn' reg'"
proof -
  have same: "publishes_for b conn reg c reg"
    if "cn_sessions c = cn_sessions conn" "cn_requests c = cn_requests conn" "cn_video_init_emitted c = cn_video_init_emitted conn" for c
    using that by (simp add: publishes_for_def)
  from assms consider c where "conn' = c" "reg' = reg" "cn_sessions c = cn_sessions conn"
      "cn_requests c = cn_requests conn" "cn_video_init_emitted c = cn_video_init_emitted conn"
    | result c where "process_hevc_nalus ev b result c reg = Ok (conn', reg') \<or> process_h264_nalus ev b result c reg = Ok (conn', reg')"
      "cn_sessions c = cn_sessions conn" "cn_requests c = cn_requests conn" "cn_video_init_emitted c = cn_video_init_emitted conn"
    by (fastforce simp: process_video_rtp_def Let_def obind_eq_Ok split: if_splits option.splits)
  then show ?thesis
  proof cases
    case (2 result c)
    then have "publishes_for b c reg conn' reg'" using process_h264_publishes process_hevc_publishes by blast
    then show ?thesis by (rule publishes_trans [OF same [OF 2(2-4)]])
  qed (use same in blast)
qed

lemma process_audio_publishes:
  assumes "process_audio_rtp ev b payload header conn reg = Ok (conn', reg')"
  shows "publishes_for b conn reg conn' reg'"
proof -
  obtain r where r: "aac_depacketize payload header = Ok r" using assms by (auto simp: process_audio_rtp_def obind_eq_Ok)
  show ?thesis
  proof (cases r)
    case None
    then show ?thesis using assms r by (simp add: process_audio_rtp_def)
  next
    case (Some result)
    let ?c = "conn\<lparr>cn_rtp_packet_count := cn_rtp_packet_count conn + 1\<rparr>"
    have n: "publishes_for b conn reg ?c reg" by (simp add: publishes_for_def)
    obtain q where q: "ensure_audio_init ev b ?c reg = Ok q"
      using assms r Some by (auto simp: process_audio_rtp_def Let_def obind_eq_Ok)
    show ?thesis
    proof (cases q)
      case None
      then show ?thesis using assms r Some q n by (simp add: process_audio_rtp_def)
    next
      case (Some cr)
      obtain c1 r1 where cr: "cr = (c1, r1)" by force
      have "publishes_for b ?c reg c1 r1" using q Some cr ensure_audio_publishes by simp
      moreover have "publishes_for b c1 r1 conn' reg'"
        using assms r \<open>r = Some result\<close> q Some cr emit_audio_publishes by (auto simp: process_audio_rtp_def)
      ultimately show ?thesis using n publishes_trans by blast
    qed
  qed
qed

lemma process_frame_publishes:
  assumes "process_rtp_frame ev frame conn reg = Ok (conn', reg')"
  shows "conn' = conn \<and> reg' = reg \<or>
    (\<exists>s. recording_session ev conn = Some s \<and> publishes_for (se_broadcast s) conn reg conn' reg')"
proof -
  consider "if_channel frame mod 2 \<noteq> 0" | h where "\<not> if_channel frame mod 2 \<noteq> 0" "parse_rtp_header (if_payload frame) = Ok h"
    using assms by (auto simp: process_rtp_frame_def obind_eq_Ok split: if_splits)
  then show ?thesis
  proof cases
    case (2 h)
    show ?thesis
    proof (cases h)
      case (Some header)
      then obtain payload where
        p: "slice (if_payload frame) (rh_header_len header) (length (if_payload frame)) = (Ok payload :: (bytes, unit) outcome)"
        using assms 2 by (auto simp: process_rtp_frame_def obind_eq_Ok)
      show ?thesis
      proof (cases "recording_session ev conn")
        case (Some s)
        then have "process_audio_rtp ev (se_broadcast s) payload header conn reg = Ok (conn', reg') \<or>
            process_video_rtp ev (se_broadcast s) payload header conn reg = Ok (conn', reg')"
          using assms 2 \<open>h = Some header\<close> p by (simp add: process_rtp_frame_def split: media_type.splits)
        then show ?thesis using Some process_audio_publishes process_video_publishes by blast
      qed (use assms 2 Some p in \<open>simp add: process_rtp_frame_def\<close>)
    qed (use assms 2 in \<open>simp add: process_rtp_frame_def\<close>)
  qed (use assms in \<open>simp add: process_rtp_frame_def\<close>)
qed

section \<open>Requests and sessions\<close>

text \<open>A session that publishes was announced, and the provider admitted the announcement.\<close>

definition session_ok :: "(ustr \<Rightarrow> bool) \<Rightarrow> rtsp_session \<Rightarrow> bool" where
  "session_ok admitted s \<longleftrightarrow> (se_state s = RecordingState \<longrightarrow> se_mode s = IngestMode) \<and>
     (se_state s = PlayingState \<longrightarrow> se_mode s = PlaybackMode) \<and> (se_mode s = IngestMode \<longrightarrow> admitted (se_broadcast s))"

definition conn_ok :: "(ustr \<Rightarrow> bool) \<Rightarrow> rtsp_conn \<Rightarrow> bool" where
  "conn_ok admitted conn \<longleftrightarrow> (\<forall>i s. map_of (cn_sessions conn) i = Some s \<longrightarrow> session_ok admitted s) \<and> hm_ok (cn_sessions conn)"

lemma conn_okD: "conn_ok admitted conn \<Longrightarrow> map_of (cn_sessions conn) i = Some s \<Longrightarrow> session_ok admitted s"
  by (simp add: conn_ok_def)

lemma conn_ok_insert:
  "conn_ok admitted conn \<Longrightarrow> session_ok admitted s \<Longrightarrow> cn_sessions conn' = hm_insert i s (cn_sessions conn) \<Longrightarrow>
    conn_ok admitted conn'"
  by (auto simp: conn_ok_def split: if_splits)

lemma conn_ok_remove:
  "conn_ok admitted conn \<Longrightarrow> cn_sessions conn' = hm_remove i (cn_sessions conn) \<Longrightarrow> conn_ok admitted conn'"
  by (auto simp: conn_ok_def split: if_splits)

lemma conn_ok_same: "conn_ok admitted conn \<Longrightarrow> cn_sessions conn' = cn_sessions conn \<Longrightarrow> conn_ok admitted conn'"
  by (simp add: conn_ok_def)

lemma session_new_ok: "session_ok admitted (session_new i PlaybackMode b)"
  by (simp add: session_ok_def session_new_def)

lemma setup_track_ok: "session_ok admitted s \<Longrightarrow> session_ok admitted (setup_track control il s)"
  by (simp add: session_ok_def setup_track_def)

lemma session_play_ok: "session_ok admitted s \<Longrightarrow> session_play s = Ok s' \<Longrightarrow> session_ok admitted s'"
  by (auto simp: session_ok_def session_play_def split: if_splits)

lemma session_record_ok: "session_ok admitted s \<Longrightarrow> session_record s = Ok s' \<Longrightarrow> session_ok admitted s'"
  by (auto simp: session_ok_def session_record_def split: if_splits)

lemma announced_session_ok: "admitted (extract_broadcast (rq_uri req)) \<Longrightarrow> session_ok admitted (announced_session i req)"
  by (simp add: session_ok_def announced_session_def session_new_def)

lemma handle_setup_ok:
  assumes "conn_ok admitted conn"
  shows "conn_ok admitted (snd (handle_setup ev new_id req c conn))"
proof -
  define r where "r = (case session_id (ev_headers_order ev) req of Some i \<Rightarrow> (i, conn)
            | None \<Rightarrow> (case ev_sessions_order ev (cn_sessions conn) of (i, _) # _ \<Rightarrow> (i, conn)
              | [] \<Rightarrow> (new_id, conn\<lparr>cn_sessions := hm_insert new_id
                  (session_new new_id PlaybackMode (extract_broadcast (rq_uri req))) (cn_sessions conn)\<rparr>)))"
  obtain sid conn1 where r1: "r = (sid, conn1)" by force
  have c1: "conn_ok admitted conn1"
    using r1 assms conn_ok_insert [OF assms session_new_ok]
    by (auto simp: r_def split: option.splits list.splits)
  show ?thesis
  proof (cases "map_of (cn_sessions conn1) sid")
    case None
    then show ?thesis using c1 r1 by (simp add: handle_setup_def r_def [symmetric])
  next
    case (Some s)
    have "session_ok admitted (setup_track control il s)" for control il
      by (rule setup_track_ok [OF conn_okD [OF c1 Some]])
    then have "conn_ok admitted (conn1\<lparr>cn_sessions := hm_insert sid (setup_track control il s) (cn_sessions conn1)\<rparr>)" for control il
      by (rule conn_ok_insert [OF c1]) simp
    then show ?thesis using r1 Some by (simp add: handle_setup_def r_def [symmetric] Let_def split: prod.split option.split)
  qed
qed

lemma handle_play_ok:
  assumes "conn_ok admitted conn"
  shows "conn_ok admitted (snd (handle_play ev reg req c conn))"
proof (cases "session_id (ev_headers_order ev) req")
  case (Some sid)
  show ?thesis
  proof (cases "map_of (cn_sessions conn) sid")
    case None
    then show ?thesis using assms Some by (simp add: handle_play_def)
  next
    case s: (Some s)
    show ?thesis
    proof (cases "session_play s")
      case (Ok s1)
      have k: "conn_ok admitted c1" if "cn_sessions c1 = hm_insert sid s1 (cn_sessions conn)" for c1
        using conn_ok_insert [OF assms session_play_ok [OF conn_okD [OF assms s] Ok] that] .
      have "\<exists>c1. snd (handle_play ev reg req c conn) = c1 \<and> cn_sessions c1 = hm_insert sid s1 (cn_sessions conn)"
        unfolding handle_play_def Some s Ok option.case outcome.case Let_def
        by (simp only: if_distrib [of snd] snd_conv) simp
      then show ?thesis using k by blast
    qed (use assms Some s in \<open>simp_all add: handle_play_def\<close>)
  qed
qed (use assms in \<open>simp add: handle_play_def\<close>)

lemma handle_record_ok:
  assumes "conn_ok admitted conn"
  shows "conn_ok admitted (snd (handle_record ev req c conn))"
  using assms conn_ok_insert [OF assms session_record_ok [OF conn_okD [OF assms]]]
  by (auto simp: handle_record_def split: option.split outcome.split)

lemma handle_request_ok:
  assumes ok: "conn_ok admitted conn"
    and adm: "rq_method req = Announce \<Longrightarrow> publish_admitted ev req \<Longrightarrow> admitted (extract_broadcast (rq_uri req))"
  shows "conn_ok admitted (snd (handle_request ev reg req conn))"
proof -
  define conn1 where "conn1 = conn\<lparr>cn_requests := Suc (cn_requests conn)\<rparr>"
  have ok1: "conn_ok admitted conn1" by (rule conn_ok_same [OF ok]) (simp add: conn1_def)
  show ?thesis
  proof (cases "redirect_location ev reg req")
    case (Some location)
    then show ?thesis using ok1 by (simp add: handle_request_def conn1_def [symmetric] Let_def)
  next
    case None
    show ?thesis
    proof (cases "(rq_method req = Announce \<or> rq_method req = RtspRecord) \<and> \<not> publish_admitted ev req")
      case True
      then show ?thesis using ok1 None by (simp add: handle_request_def conn1_def [symmetric] Let_def)
    next
      case gate: False
      show ?thesis
      proof (cases "rq_method req = Announce")
        case True
        then have "admitted (extract_broadcast (rq_uri req))" using gate adm by blast
        then have "conn_ok admitted (snd (handle_announce ev new_id req c conn1))" for new_id c
          by (auto simp: handle_announce_def Let_def intro!: conn_ok_insert [OF ok1 announced_session_ok])
        then show ?thesis using None gate True by (simp add: handle_request_def conn1_def [symmetric] Let_def)
      next
        case False
        then show ?thesis
          using None gate ok1 handle_setup_ok [OF ok1] handle_play_ok [OF ok1] handle_record_ok [OF ok1]
            conn_ok_remove [OF ok1]
          by (cases "rq_method req")
            (auto simp: handle_request_def conn1_def [symmetric] Let_def handle_teardown_def split: option.split)
      qed
    qed
  qed
qed

end
