(* ===== verification/RtspConn.thy ===== *)
theory RtspConn
  imports RtspServer
begin

text \<open>
  A connection of the RTSP server over time: the events it handles one after the other, each with the
  environment of its moment, and other writers of the registry in between.  What it may publish, how often it
  publishes an init segment, and how the receive loop cuts the bytes it reads into these events.
\<close>

section \<open>Runs of a connection\<close>

datatype conn_event = RequestIn request | FrameIn interleaved_frame | OthersWrite registry

fun conn_step :: "rtsp_env \<Rightarrow> conn_event \<Rightarrow> response list \<times> rtsp_conn \<times> registry \<Rightarrow>
    (response list \<times> rtsp_conn \<times> registry, unit) outcome" where
  "conn_step ev (RequestIn req) (sent, conn, reg) =
     (let (resp, conn) = handle_request ev reg req conn in Ok (sent @ [resp], conn, reg))"
| "conn_step ev (FrameIn frame) (sent, conn, reg) =
     omap (\<lambda>(conn, reg). (sent, conn, reg)) (process_rtp_frame ev frame conn reg)"
| "conn_step ev (OthersWrite reg') (sent, conn, reg) = Ok (sent, conn, reg')"

fun conn_run :: "(rtsp_env \<times> conn_event) list \<Rightarrow> response list \<times> rtsp_conn \<times> registry \<Rightarrow>
    (response list \<times> rtsp_conn \<times> registry, unit) outcome" where
  "conn_run [] s = Ok s"
| "conn_run ((ev, e) # es) s = obind (conn_step ev e s) (conn_run es)"

lemma conn_run_append: "conn_run (es @ es') s = obind (conn_run es s) (conn_run es')"
proof (induction es s rule: conn_run.induct)
  case (2 ev e es s)
  then show ?case by (cases "conn_step ev e s") simp_all
qed simp

text \<open>A step keeps what requests and frames keep.\<close>

lemma conn_step_cases [consumes 1, case_names request frame others]:
  assumes "conn_step ev e (sent, conn, reg) = Ok (sent', conn', reg')"
  obtains req where "e = RequestIn req" "conn' = snd (handle_request ev reg req conn)" "reg' = reg"
      "sent' = sent @ [fst (handle_request ev reg req conn)]"
    | frame where "e = FrameIn frame" "process_rtp_frame ev frame conn reg = Ok (conn', reg')" "sent' = sent"
    | "e = OthersWrite reg'" "conn' = conn" "sent' = sent"
proof (cases e)
  case (RequestIn req)
  then show ?thesis using assms that(1) by (auto simp: Let_def split: prod.splits)
next
  case (FrameIn frame)
  then show ?thesis using assms that(2) by (cases "process_rtp_frame ev frame conn reg") auto
next
  case (OthersWrite r)
  then show ?thesis using assms that(3) by simp
qed

text \<open>A broadcast whose ANNOUNCE is among the events and was admitted by the provider of that moment.\<close>

definition announced :: "(rtsp_env \<times> conn_event) list \<Rightarrow> ustr \<Rightarrow> bool" where
  "announced es b \<longleftrightarrow> (\<exists>ev req. (ev, RequestIn req) \<in> set es \<and> rq_method req = Announce \<and>
     publish_admitted ev req \<and> extract_broadcast (rq_uri req) = b)"

lemma conn_ok_new: "conn_ok admitted conn_new"
  by (simp add: conn_ok_def conn_new_def)

lemma conn_step_ok:
  assumes "conn_step ev e (sent, conn, reg) = Ok (sent', conn', reg')" and ok: "conn_ok admitted conn"
    and adm: "\<And>b. announced [(ev, e)] b \<Longrightarrow> admitted b"
  shows "conn_ok admitted conn'"
  using assms(1)
proof (cases rule: conn_step_cases)
  case (request req)
  have "admitted (extract_broadcast (rq_uri req))" if "rq_method req = Announce" "publish_admitted ev req"
    by (rule adm) (use that request in \<open>auto simp: announced_def\<close>)
  then show ?thesis using handle_request_ok [OF ok] request by blast
next
  case (frame f)
  then show ?thesis using process_frame_publishes [OF frame(2)] conn_ok_same [OF ok] ok
    by (auto simp: publishes_for_def)
qed (use ok in simp)

lemma conn_run_ok:
  assumes "conn_run es (sent, conn, reg) = Ok (sent', conn', reg')" and "conn_ok admitted conn"
    and "\<And>b. announced es b \<Longrightarrow> admitted b"
  shows "conn_ok admitted conn'"
  using assms
proof (induction es arbitrary: sent conn reg)
  case (Cons x es)
  obtain ev e where x: "x = (ev, e)" by force
  obtain sent1 conn1 reg1 where s: "conn_step ev e (sent, conn, reg) = Ok (sent1, conn1, reg1)"
    and r: "conn_run es (sent1, conn1, reg1) = Ok (sent', conn', reg')"
    using Cons.prems(1) by (auto simp: x obind_eq_Ok)
  have "admitted b" if "announced [(ev, e)] b \<or> announced es b" for b
    using that by (intro Cons.prems(3)) (auto simp: announced_def x)
  then show ?case using Cons.IH [OF r] conn_step_ok [OF s Cons.prems(2)] by blast
qed simp

lemma recording_session_ok:
  assumes "recording_session ev conn = Some s" and "order_ok (ev_sessions_order ev)" and ok: "conn_ok admitted conn"
  shows "admitted (se_broadcast s)"
proof -
  have s: "se_state s = RecordingState" "s \<in> snd ` set (ev_sessions_order ev (cn_sessions conn))"
    using assms(1) by (auto simp: recording_session_def dest!: find_SomeD)
  then obtain i where "(i, s) \<in> set (cn_sessions conn)" using order_set [OF assms(2)] by auto
  then have "map_of (cn_sessions conn) i = Some s" using ok by (simp add: conn_ok_def)
  then show ?thesis using conn_okD [OF ok] s(1) by (auto simp: session_ok_def)
qed

section \<open>One init segment per connection\<close>

lemma handle_setup_emitted: "cn_video_init_emitted (snd (handle_setup ev new_id req c conn)) = cn_video_init_emitted conn"
  by (simp add: handle_setup_def Let_def split: option.split list.split prod.split)

lemma handle_play_emitted: "cn_video_init_emitted (snd (handle_play ev reg req c conn)) = cn_video_init_emitted conn"
  by (simp add: handle_play_def Let_def split: option.split outcome.split)

lemma handle_request_emitted:
  "cn_video_init_emitted (snd (handle_request ev reg req conn)) = cn_video_init_emitted conn"
  by (cases "rq_method req")
    (simp_all add: handle_request_def Let_def handle_announce_def handle_record_def handle_teardown_def
      handle_setup_emitted handle_play_emitted split: option.split outcome.split)

definition own_events :: "(rtsp_env \<times> conn_event) list \<Rightarrow> bool" where
  "own_events es \<longleftrightarrow> (\<forall>(ev, e) \<in> set es. \<forall>reg. e \<noteq> OthersWrite reg)"

lemma run_keeps_init:
  assumes "conn_run es (sent, conn, reg) = Ok (sent', conn', reg')" and "own_events es" and "cn_video_init_emitted conn"
  shows "cn_video_init_emitted conn' \<and> init_of reg' b VIDEO_TRACK = init_of reg b VIDEO_TRACK"
  using assms
proof (induction es arbitrary: sent conn reg)
  case (Cons x es)
  obtain ev e where x: "x = (ev, e)" by force
  obtain sent1 conn1 reg1 where s: "conn_step ev e (sent, conn, reg) = Ok (sent1, conn1, reg1)"
    and r: "conn_run es (sent1, conn1, reg1) = Ok (sent', conn', reg')"
    using Cons.prems(1) by (auto simp: x obind_eq_Ok)
  have own: "own_events es" "e \<noteq> OthersWrite reg1" using Cons.prems(2) by (auto simp: own_events_def x)
  have "cn_video_init_emitted conn1 \<and> init_of reg1 b VIDEO_TRACK = init_of reg b VIDEO_TRACK"
    using s
  proof (cases rule: conn_step_cases)
    case (request req)
    then show ?thesis using Cons.prems(3) by (simp add: handle_request_emitted)
  next
    case (frame f)
    then show ?thesis using process_frame_publishes [OF frame(2)] Cons.prems(3) by (auto simp: publishes_for_def)
  qed (use own in simp)
  then show ?case using Cons.IH [OF r own(1)] by simp
qed simp

section \<open>The receive loop runs the events in the buffer\<close>

lemma write_request_starts: "\<exists>t. write_request r = str_bytes (method_as_str (rq_method r)) @ t"
proof (cases "rq_headers r")
  case Nil
  then show ?thesis by (simp add: write_request_def request_head_def request_lines_def request_line_def crlf_lines_def)
next
  case (Cons h hs)
  then show ?thesis by (simp add: write_request_def request_head_def request_lines_def request_line_def crlf_lines_def)
qed

lemma write_request_first: "write_request r \<noteq> [] \<and> write_request r ! 0 \<noteq> 0x24"
proof -
  obtain t where t: "write_request r = str_bytes (method_as_str (rq_method r)) @ t" using write_request_starts by blast
  show ?thesis unfolding t
    by (cases "rq_method r") (simp_all add: ustr_of_def str_bytes_def char_bytes_def utf8_width_def)
qed

lemma loop_frame:
  assumes "length (if_payload f) < 2 ^ 16"
  shows "receive_loop ev room (interleaved_bytes f @ rest) sent conn reg =
    (case process_rtp_frame ev f conn reg of Ok (conn, reg) \<Rightarrow> receive_loop ev room rest sent conn reg | _ \<Rightarrow> LoopPanic)"
proof -
  have "(interleaved_bytes f @ rest) ! 0 = 0x24" "interleaved_bytes f @ rest \<noteq> []"
    by (simp_all add: interleaved_bytes_def)
  moreover have "length (interleaved_bytes f) = 4 + length (if_payload f)" by (simp add: interleaved_bytes_def)
  then have "drop (4 + length (if_payload f)) (interleaved_bytes f @ rest) = rest" by simp
  ultimately show ?thesis
    by (subst receive_loop.simps) (simp only: parse_interleaved_bytes [OF assms] if_True if_False outcome.case option.case
        prod.case, simp)
qed

lemma loop_request:
  assumes "request_ok r" and "order_ok (ev_headers_order ev)" and "from_utf8 (rq_body r @ rest) \<noteq> None"
  shows "receive_loop ev room (write_request r @ rest) sent conn reg =
    (if room \<le> length sent then QueueFull sent
     else receive_loop ev room rest (sent @ [fst (handle_request ev reg r conn)]) (snd (handle_request ev reg r conn)) reg)"
proof -
  have "write_request r @ rest \<noteq> []" "(write_request r @ rest) ! 0 \<noteq> 0x24"
    using write_request_first [of r] by (simp_all add: nth_append)
  then show ?thesis
    by (subst receive_loop.simps)
      (simp only: request_roundtrip_core [OF assms] if_True if_False outcome.case prod.case Let_def append_eq_conv_conj
        drop_append split_beta, simp)
qed

lemma loop_request_binary:
  assumes "request_ok r" and "from_utf8 (rq_body r @ rest) = None" and "length sent < room"
  shows "receive_loop ev room (write_request r @ rest) sent conn reg = Waiting (sent @ [bad_request_response]) conn reg []"
proof -
  have "write_request r @ rest \<noteq> []" "(write_request r @ rest) ! 0 \<noteq> 0x24"
    using write_request_first [of r] by (simp_all add: nth_append)
  then show ?thesis
    by (subst receive_loop.simps) (use assms(3) in \<open>simp add: request_binary_core [OF assms(1,2)]\<close>)
qed

text \<open>The front of a request of which more is to come, or nothing.\<close>

definition unfinished :: "bytes \<Rightarrow> bool" where
  "unfinished p \<longleftrightarrow> p = [] \<or> (\<exists>r q. request_ok r \<and> write_request r = p @ q \<and> q \<noteq> [] \<and> from_utf8 p \<noteq> None)"

lemma unfinished_utf8: "unfinished p \<Longrightarrow> from_utf8 p \<noteq> None"
  by (auto simp: unfinished_def)

lemma loop_unfinished:
  assumes "unfinished p" and "order_ok (ev_headers_order ev)"
  shows "receive_loop ev room p sent conn reg = Waiting sent conn reg p"
proof (cases "p = []")
  case False
  then obtain r q where r: "request_ok r" "write_request r = p @ q" "q \<noteq> []" "from_utf8 p \<noteq> None"
    using assms(1) by (auto simp: unfinished_def)
  then have "p ! 0 \<noteq> 0x24" using write_request_first [of r] False by (simp add: nth_append)
  then show ?thesis
    using False request_incomplete_core [OF r(1) assms(2) r(4,2,3)] by (subst receive_loop.simps) simp
qed (simp add: receive_loop.simps)

definition requests_in :: "rtsp_env \<Rightarrow> request list \<Rightarrow> (rtsp_env \<times> conn_event) list" where
  "requests_in ev rs = map (\<lambda>r. (ev, RequestIn r)) rs"

definition frames_in :: "rtsp_env \<Rightarrow> interleaved_frame list \<Rightarrow> (rtsp_env \<times> conn_event) list" where
  "frames_in ev fs = map (\<lambda>f. (ev, FrameIn f)) fs"

definition utf8_request :: "request \<Rightarrow> bool" where
  "utf8_request r \<longleftrightarrow> request_ok r \<and> from_utf8 (rq_body r) \<noteq> None"

lemma utf8_requests:
  "list_all utf8_request rs \<Longrightarrow> from_utf8 p \<noteq> None \<Longrightarrow> from_utf8 (concat (map write_request rs) @ p) \<noteq> None"
proof (induction rs)
  case (Cons r rs)
  obtain b where b: "from_utf8 (rq_body r) = Some b" using Cons.prems by (auto simp: utf8_request_def)
  have ok: "request_ok r" using Cons.prems by (simp add: utf8_request_def)
  have "from_utf8 (rq_body r @ concat (map write_request rs) @ p) \<noteq> None"
    using from_utf8_append [OF b] Cons by simp
  then have "from_utf8 (write_request r @ concat (map write_request rs) @ p) \<noteq> None"
    using from_utf8_str [OF request_head_scalar [OF ok], of "rq_body r @ concat (map write_request rs) @ p"]
    unfolding write_request_def [of r] by simp
  then show ?case by simp
qed simp

lemma requests_run:
  "\<exists>sent' conn'. conn_run (requests_in ev rs) (sent, conn, reg) = Ok (sent @ sent', conn', reg) \<and> length sent' = length rs"
proof (induction rs arbitrary: sent conn)
  case (Cons r rs)
  obtain resp conn1 where h: "handle_request ev reg r conn = (resp, conn1)" by force
  obtain sent' conn' where "conn_run (requests_in ev rs) (sent @ [resp], conn1, reg) = Ok ((sent @ [resp]) @ sent', conn', reg)"
    "length sent' = length rs" using Cons.IH by blast
  then show ?case using h by (auto simp: requests_in_def)
qed (simp add: requests_in_def)

lemma loop_requests:
  assumes "list_all utf8_request rs" and "unfinished p" and "order_ok (ev_headers_order ev)" and "length sent \<le> room"
  shows "receive_loop ev room (concat (map write_request rs) @ p) sent conn reg =
    (case conn_run (requests_in ev rs) (sent, conn, reg) of
       Ok (sent', conn', reg') \<Rightarrow>
         if length sent + length rs \<le> room then Waiting sent' conn' reg' p else QueueFull (take room sent')
     | _ \<Rightarrow> LoopPanic)"
  using assms(1,4)
proof (induction rs arbitrary: sent conn)
  case Nil
  then show ?case using loop_unfinished [OF assms(2,3)] by (simp add: requests_in_def)
next
  case (Cons r rs)
  obtain resp conn1 where h: "handle_request ev reg r conn = (resp, conn1)" by force
  have r: "request_ok r" "from_utf8 (rq_body r @ concat (map write_request rs) @ p) \<noteq> None"
  proof -
    show "request_ok r" using Cons.prems by (simp add: utf8_request_def)
    obtain b where b: "from_utf8 (rq_body r) = Some b" using Cons.prems by (auto simp: utf8_request_def)
    have "from_utf8 (concat (map write_request rs) @ p) \<noteq> None"
      by (rule utf8_requests) (use Cons.prems unfinished_utf8 [OF assms(2)] in simp_all)
    then show "from_utf8 (rq_body r @ concat (map write_request rs) @ p) \<noteq> None" using from_utf8_append [OF b] by simp
  qed
  obtain more conn' where run: "conn_run (requests_in ev rs) (sent @ [resp], conn1, reg) = Ok ((sent @ [resp]) @ more, conn', reg)"
    using requests_run by blast
  then have run': "conn_run (requests_in ev (r # rs)) (sent, conn, reg) = Ok (sent @ resp # more, conn', reg)"
    using h by (simp add: requests_in_def)
  show ?case
  proof (cases "room \<le> length sent")
    case True
    then have "room = length sent" using Cons.prems by simp
    then show ?thesis using loop_request [OF r(1) assms(3) r(2)] run' by simp
  next
    case False
    then show ?thesis
      using loop_request [OF r(1) assms(3) r(2), of room sent conn reg] h run run' Cons.IH [of "sent @ [resp]" conn1] Cons.prems
      by simp
  qed
qed

lemma loop_frames:
  assumes "list_all (\<lambda>f. length (if_payload f) < 2 ^ 16) fs"
  shows "receive_loop ev room (concat (map interleaved_bytes fs) @ rest) sent conn reg =
    (case conn_run (frames_in ev fs) (sent, conn, reg) of
       Ok (sent', conn', reg') \<Rightarrow> receive_loop ev room rest sent' conn' reg' | _ \<Rightarrow> LoopPanic)"
  using assms
proof (induction fs arbitrary: conn reg)
  case (Cons f fs)
  then have "length (if_payload f) < 2 ^ 16" by simp
  from loop_frame [OF this] show ?case
    using Cons by (cases "process_rtp_frame ev f conn reg") (auto simp: frames_in_def)
qed (simp add: frames_in_def)

lemma frames_run_sent: "conn_run (frames_in ev fs) (sent, conn, reg) = Ok (sent', conn', reg') \<Longrightarrow> sent' = sent"
proof (induction fs arbitrary: conn reg)
  case (Cons f fs)
  then show ?case by (cases "process_rtp_frame ev f conn reg") (auto simp: frames_in_def)
qed (simp add: frames_in_def)

section \<open>Properties\<close>

text \<open>
  C15. Nothing is published without an admitted ANNOUNCE: whenever an RTP frame changes an entry of the registry,
  the entry belongs to a broadcast that the connection announced before, in a request that the authentication
  provider allowed for that very broadcast - for every order of requests, frames and other writers.
\<close>

theorem rtsp_publish_admitted:
  assumes "conn_run es ([], conn_new, reg0) = Ok (sent, conn, reg)" and "order_ok (ev_sessions_order ev)"
    and "process_rtp_frame ev frame conn reg = Ok (conn', reg')" and "reg' (b, t) \<noteq> reg (b, t)"
  shows "announced es b"
proof -
  obtain s where s: "recording_session ev conn = Some s" "publishes_for (se_broadcast s) conn reg conn' reg'"
    using process_frame_publishes [OF assms(3)] assms(4) by auto
  then have "se_broadcast s = b" using assms(4) unfolding publishes_for_def by metis
  moreover have "conn_ok (announced es) conn" by (rule conn_run_ok [OF assms(1) conn_ok_new])
  ultimately show ?thesis using recording_session_ok [OF s(1) assms(2)] by blast
qed

text \<open>
  C39. A connection publishes at most one video init segment: once it has, no further event of it - another
  ANNOUNCE and RECORD for a second broadcast included - gives any broadcast a new one, so a second broadcast
  on the same connection stays without.
\<close>

theorem one_video_init_per_connection:
  assumes "conn_run es (sent, conn, reg) = Ok (sent', conn', reg')" and "own_events es" and "cn_video_init_emitted conn"
  shows "init_of reg' b VIDEO_TRACK = init_of reg b VIDEO_TRACK"
  using run_keeps_init [OF assms] by blast

text \<open>
  C16. The receive loop handles what a read delivers as the sequence of frames and requests it encodes, answers
  the requests in order, and keeps the front of an unfinished request for the next read.  It does so only while
  the answers fit the queue, whose reader is the task that runs the loop: one request more and the task waits
  for itself.  And a request that arrives together with bytes that are not UTF-8 is refused, and the bytes dropped.
\<close>

theorem receive_loop_pipelined:
  assumes "order_ok (ev_headers_order ev)"
  shows "(list_all (\<lambda>f. length (if_payload f) < 2 ^ 16) fs \<and> list_all utf8_request rs \<and> unfinished p \<longrightarrow>
      receive_loop ev room (concat (map interleaved_bytes fs) @ concat (map write_request rs) @ p) [] conn reg =
        (case conn_run (frames_in ev fs @ requests_in ev rs) ([], conn, reg) of
           Ok (sent, conn', reg') \<Rightarrow>
             if length rs \<le> room then Waiting sent conn' reg' p else QueueFull (take room sent)
         | _ \<Rightarrow> LoopPanic)) \<and>
    (request_ok r \<and> from_utf8 (rq_body r @ bin) = None \<and> 0 < room \<longrightarrow>
      receive_loop ev room (write_request r @ bin) [] conn reg = Waiting [bad_request_response] conn reg [])"
proof (intro conjI impI)
  assume a: "list_all (\<lambda>f. length (if_payload f) < 2 ^ 16) fs \<and> list_all utf8_request rs \<and> unfinished p"
  show "receive_loop ev room (concat (map interleaved_bytes fs) @ concat (map write_request rs) @ p) [] conn reg =
        (case conn_run (frames_in ev fs @ requests_in ev rs) ([], conn, reg) of
           Ok (sent, conn', reg') \<Rightarrow>
             if length rs \<le> room then Waiting sent conn' reg' p else QueueFull (take room sent)
         | _ \<Rightarrow> LoopPanic)"
  proof (cases "conn_run (frames_in ev fs) ([], conn, reg)")
    case (Ok s)
    obtain sent1 conn1 reg1 where s: "s = (sent1, conn1, reg1)" by (cases s)
    then have "sent1 = []" using frames_run_sent Ok by blast
    then have "receive_loop ev room (concat (map interleaved_bytes fs) @ concat (map write_request rs) @ p) [] conn reg =
        receive_loop ev room (concat (map write_request rs) @ p) [] conn1 reg1"
      using loop_frames [of fs ev room "concat (map write_request rs) @ p" "[]" conn reg] a Ok s by simp
    also have "\<dots> = (case conn_run (requests_in ev rs) ([], conn1, reg1) of
         Ok (sent', conn', reg') \<Rightarrow> if length rs \<le> room then Waiting sent' conn' reg' p else QueueFull (take room sent')
       | _ \<Rightarrow> LoopPanic)"
      using loop_requests [of rs p ev "[]" room conn1 reg1] a assms by (simp only: list.size add_0 le0 simp_thms)
    finally show ?thesis using Ok s \<open>sent1 = []\<close> by (simp only: conn_run_append obind.simps)
  qed (use a loop_frames [of fs ev room "concat (map write_request rs) @ p" "[]"] in \<open>simp_all add: conn_run_append\<close>)
next
  assume "request_ok r \<and> from_utf8 (rq_body r @ bin) = None \<and> 0 < room"
  then show "receive_loop ev room (write_request r @ bin) [] conn reg = Waiting [bad_request_response] conn reg []"
    using loop_request_binary [of r bin "[]" room ev conn reg] by simp
qed

section \<open>Witnesses\<close>

definition demo_env :: rtsp_env where
  "demo_env = \<lparr>ev_headers_order = (\<lambda>hs. hs), ev_sessions_order = (\<lambda>m. m), ev_transports_order = (\<lambda>m. m),
     ev_encode = (\<lambda>brands moov. Some [1]), ev_decode = (\<lambda>bs. None), ev_avcc_new = sps_avcc, ev_moof = flat_encoder,
     ev_base64 = (\<lambda>bs. []), ev_auth = noop_check, ev_owner_resolver = None, ev_has_registrar = False,
     ev_host_is_v4 = True, ev_host_text = [], ev_session_id = (\<lambda>n. [97 + of_nat n]), ev_now_ms = 0\<rparr>"

definition demo_request :: "rtsp_method \<Rightarrow> string \<Rightarrow> request" where
  "demo_request meth uri = \<lparr>rq_method = meth, rq_uri = ustr_of uri, rq_version = V1_0,
     rq_headers = [(ustr_of ''Session'', [97])], rq_body = []\<rparr>"

definition demo_events :: "(rtsp_env \<times> conn_event) list" where
  "demo_events = [(demo_env, RequestIn (demo_request Announce ''/live/cam'')),
     (demo_env, RequestIn (demo_request Setup ''/live/cam/track1'')),
     (demo_env, RequestIn (demo_request RtspRecord ''/live/cam''))]"

text \<open>One aggregation packet with a sequence and a picture parameter set.\<close>

definition demo_frame :: interleaved_frame where
  "demo_frame = \<lparr>if_channel = 0, if_payload = [0x80, 96, 0, 1, 0, 0, 0, 0, 0, 0, 0, 1,
     24, 0, 4, 0x67, 0x42, 0, 0x1F, 0, 2, 0x68, 0xEB]\<rparr>"

lemma demo_env_sel [simp]: "ev_sessions_order demo_env = (\<lambda>m. m)" "ev_headers_order demo_env = (\<lambda>m. m)"
  "ev_owner_resolver demo_env = None" "ev_has_registrar demo_env = False" "ev_auth demo_env = noop_check"
  "ev_session_id demo_env n = [97 + n]" "ev_encode demo_env = (\<lambda>brands moov. Some [1])" "ev_avcc_new demo_env = sps_avcc"
  by (simp_all add: demo_env_def)

lemma demo_request_sel [simp]: "rq_method (demo_request meth uri) = meth" "rq_uri (demo_request meth uri) = ustr_of uri"
  "rq_body (demo_request meth uri) = []"
  "cseq (\<lambda>hs. hs) (demo_request meth uri) = None" "session_id (\<lambda>hs. hs) (demo_request meth uri) = Some [97]"
  "headers_get (\<lambda>hs. hs) (rq_headers (demo_request meth uri)) (ustr_of ''Transport'') = None"
  by (simp_all add: demo_request_def cseq_def session_id_def headers_get_def ustr_of_def to_ascii_lowercase_def
      str_trim_def is_whitespace_def)

lemma demo_uris:
  "extract_broadcast (ustr_of ''/live/cam'') = ustr_of ''live/cam''"
  "extract_track_control (ustr_of ''/live/cam/track1'') = ustr_of ''track1''"
  "ts_interleaved (parse_transport []) = None" "from_utf8 [] = Some []" "parse_sdp_tracks [] = []"
  by (simp_all add: extract_broadcast_def extract_track_control_def uri_path_def ustr_of_def parse_transport_def
      transport_part_def str_trim_def contains_str_def str_find.simps parse_sdp_tracks_def str_lines_def finish_tracks_def)

definition demo_session :: rtsp_session where
  "demo_session = \<lparr>se_id = [97], se_state = RecordingState, se_mode = IngestMode,
      se_broadcast = ustr_of ''live/cam'', se_tracks = [],
      se_transports = [(ustr_of ''track1'', \<lparr>tt_control_path = ustr_of ''track1'', tt_interleaved = Some (0, 1)\<rparr>)]\<rparr>"

definition demo_conn :: rtsp_conn where
  "demo_conn = conn_new\<lparr>cn_requests := 3, cn_sessions := [([97], demo_session)]\<rparr>"

lemma demo_run: "\<exists>sent. conn_run demo_events ([], conn_new, Map.empty) = Ok (sent, demo_conn, Map.empty)"
  by (simp add: demo_events_def handle_request_def redirect_location_def publish_admitted_def noop_check_def is_allow_def
      handle_announce_def announced_session_def handle_setup_def handle_record_def session_record_def setup_track_def
      session_new_def demo_uris hm_insert_def demo_conn_def demo_session_def conn_new_def Let_def)

definition demo_payload :: bytes where
  "demo_payload = [24, 0, 4, 0x67, 0x42, 0, 0x1F, 0, 2, 0x68, 0xEB]"

definition demo_header :: rtp_header where
  "demo_header = \<lparr>rh_payload_type = 96, rh_sequence = 1, rh_timestamp = 0, rh_ssrc = 1, rh_marker = False,
     rh_header_len = 12\<rparr>"

definition demo_result :: depack_result where
  "demo_result = \<lparr>dr_nalus = [[0x67, 0x42, 0, 0x1F], [0x68, 0xEB]], dr_keyframe = False, dr_timestamp = 0, dr_marker = False\<rparr>"

lemma demo_header_read: "parse_rtp_header (if_payload demo_frame) = Ok (Some demo_header)"
  by code_simp

lemma demo_depacketized: "omap fst (h264_depacketize demo_payload demo_header depacketizer_new) = Ok (Some demo_result)"
  by code_simp

lemma demo_frame_processed:
  "process_rtp_frame demo_env demo_frame demo_conn Map.empty =
    process_video_rtp demo_env (ustr_of ''live/cam'') demo_payload demo_header demo_conn Map.empty"
proof -
  have "recording_session demo_env demo_conn = Some demo_session"
    by (simp add: recording_session_def demo_conn_def demo_session_def)
  moreover have "find_media_type_for_channel demo_session (if_channel demo_frame) = VideoMedia"
    by (simp add: find_media_type_for_channel_def demo_session_def demo_frame_def)
  moreover have "(slice (if_payload demo_frame) (rh_header_len demo_header) (length (if_payload demo_frame)) :: (bytes, unit) outcome) =
      Ok demo_payload"
    by (simp add: demo_frame_def demo_header_def demo_payload_def slice_def)
  moreover have "if_channel demo_frame mod 2 = 0" "se_broadcast demo_session = ustr_of ''live/cam''"
    by (simp_all add: demo_frame_def demo_session_def)
  ultimately show ?thesis by (simp add: process_rtp_frame_def demo_header_read)
qed

lemma demo_init:
  assumes "cn_video_init_emitted conn = False"
  shows "\<exists>conn'. process_h264_nalus demo_env b demo_result conn reg =
    Ok (conn', publish_init b VIDEO_TRACK (ustr_of ''avc1'') 90000 [1] reg)"
proof -
  have n: "cn_sps (note_h264_sets (dr_nalus demo_result) conn) = Some [0x67, 0x42, 0, 0x1F]"
    "cn_pps (note_h264_sets (dr_nalus demo_result) conn) = Some [0x68, 0xEB]"
    by (simp_all add: demo_result_def)
  have e: "\<not> cn_video_init_emitted (note_h264_sets (dr_nalus demo_result) conn)"
    using assms note_h264_same [of "dr_nalus demo_result" conn] by simp
  have "nals_to_length_prefixed (dr_nalus demo_result) FilterH264 = []"
    by (simp add: nals_to_length_prefixed_def demo_result_def)
  then show ?thesis
    by (simp add: process_h264_nalus_def ensure_h264_init_def n e write_avc_init_segment_def sps_avcc_def encode_init_def)
qed

lemma demo_published:
  "\<exists>conn' reg'. process_rtp_frame demo_env demo_frame demo_conn Map.empty = Ok (conn', reg') \<and>
    reg' (ustr_of ''live/cam'', VIDEO_TRACK) \<noteq> None"
proof -
  obtain r where r: "h264_depacketize demo_payload demo_header depacketizer_new = Ok r" "fst r = Some demo_result"
    using demo_depacketized unfolding omap_eq_Ok by blast
  obtain st where st: "r = (Some demo_result, st)" using r(2) by (cases r) simp
  have "recording_video_codec demo_env demo_conn = H264Codec"
    by (simp add: recording_video_codec_def recording_session_def demo_conn_def demo_session_def)
  moreover have "cn_h264_depack demo_conn = depacketizer_new" "cn_video_init_emitted demo_conn = False"
    by (simp_all add: demo_conn_def conn_new_def)
  ultimately obtain conn' where "process_video_rtp demo_env (ustr_of ''live/cam'') demo_payload demo_header demo_conn Map.empty =
      Ok (conn', publish_init (ustr_of ''live/cam'') VIDEO_TRACK (ustr_of ''avc1'') 90000 [1] Map.empty)"
    using r(1) st demo_init [of "demo_conn\<lparr>cn_h264_depack := st, cn_rtp_packet_count := cn_rtp_packet_count demo_conn + 1\<rparr>"
        "ustr_of ''live/cam''" Map.empty]
    by (auto simp: process_video_rtp_def Let_def)
  then show ?thesis by (simp add: demo_frame_processed publish_init_lookup)
qed

theorem rtsp_publish_admitted_witness: "announced demo_events (ustr_of ''live/cam'')"
proof -
  obtain sent where run: "conn_run demo_events ([], conn_new, Map.empty) = Ok (sent, demo_conn, Map.empty)"
    using demo_run by blast
  obtain conn' reg' where f: "process_rtp_frame demo_env demo_frame demo_conn Map.empty = Ok (conn', reg')"
    and r: "reg' (ustr_of ''live/cam'', VIDEO_TRACK) \<noteq> None" using demo_published by blast
  show ?thesis by (rule rtsp_publish_admitted [OF run _ f, of "ustr_of ''live/cam''" VIDEO_TRACK]) (use r in simp_all)
qed

theorem one_video_init_per_connection_witness:
  "\<exists>sent conn reg. conn_run (requests_in demo_env [demo_request Announce ''/live/second''])
      ([], demo_conn\<lparr>cn_video_init_emitted := True\<rparr>, Map.empty) = Ok (sent, conn, reg) \<and>
    init_of reg (ustr_of ''live/second'') VIDEO_TRACK = None"
proof -
  let ?es = "requests_in demo_env [demo_request Announce ''/live/second'']"
  let ?conn = "demo_conn\<lparr>cn_video_init_emitted := True\<rparr>"
  obtain sent conn reg where run: "conn_run ?es ([], ?conn, Map.empty) = Ok (sent, conn, reg)"
    using requests_run by blast
  have "own_events ?es" by (simp add: own_events_def requests_in_def)
  then have "init_of reg (ustr_of ''live/second'') VIDEO_TRACK = init_of Map.empty (ustr_of ''live/second'') VIDEO_TRACK"
    by (rule one_video_init_per_connection [OF run]) simp
  then show ?thesis using run by (simp add: init_of_def registry_get_def)
qed

theorem receive_loop_pipelined_witness:
  "receive_loop demo_env 0 (write_request announce_request) [] conn_new Map.empty = QueueFull [] \<and>
   receive_loop demo_env 256 (write_request announce_request @ [0x24, 0, 0, 1, 0x80]) [] conn_new Map.empty =
     Waiting [bad_request_response] conn_new Map.empty []"
proof -
  have u: "from_utf8 (rq_body announce_request) \<noteq> None"
    and b: "from_utf8 (rq_body announce_request @ [0x24, 0, 0, 1, 0x80]) = None"
    by (simp_all add: announce_request_def from_utf8.simps(2))
  have o: "order_ok (ev_headers_order demo_env)" by simp
  obtain sent conn reg where "conn_run (frames_in demo_env [] @ requests_in demo_env [announce_request])
      ([], conn_new, Map.empty) = Ok (sent, conn, reg)"
    using requests_run [of demo_env "[announce_request]" "[]" conn_new Map.empty] by (auto simp: frames_in_def)
  moreover have "list_all utf8_request [announce_request]" using u announce_request_ok by (simp add: utf8_request_def)
  ultimately show ?thesis
    using receive_loop_pipelined [OF o, of "[]" "[announce_request]" "[]" 0 conn_new Map.empty announce_request "[]"]
      receive_loop_pipelined [OF o, of "[]" "[]" "[]" 256 conn_new Map.empty announce_request "[0x24, 0, 0, 1, 0x80]"]
      announce_request_ok b by (simp add: unfinished_def)
qed

end
