(* ===== verification/StreamKeys.thy ===== *)
theory StreamKeys
  imports Auth
begin

text \<open>
  The stream-key catalogue, \<open>lvqr-auth/src/stream_key_store.rs\<close>, and the provider that consults it before
  its fallback, \<open>multi_key_provider.rs\<close>, with the hot-reload wrapper around it.  The two \<open>DashMap\<close>s are
  maps; the random identifiers and tokens and the clock are arguments of the operations.  The operations
  are given twice: as functions, for callers that do not overlap, and as the sequence of map accesses that
  threads interleave.
\<close>

section \<open>Keys and the store\<close>

record stream_key =
  sk_id :: ustr
  sk_token :: ustr
  sk_label :: "ustr option"
  sk_broadcast :: "ustr option"
  sk_created_at :: u64
  sk_expires_at :: "u64 option"

record stream_key_spec =
  ss_label :: "ustr option"
  ss_broadcast :: "ustr option"
  ss_ttl_seconds :: "u64 option"

record key_store =
  ks_by_id :: "ustr \<rightharpoonup> stream_key"
  ks_by_token :: "ustr \<rightharpoonup> ustr"

definition store_new :: key_store where
  "store_new = \<lparr>ks_by_id = Map.empty, ks_by_token = Map.empty\<rparr>"

definition sat_add :: "u64 \<Rightarrow> u64 \<Rightarrow> u64" where
  "sat_add a b = (if a + b < a then - 1 else a + b)"

definition ttl_to_expiry :: "u64 option \<Rightarrow> u64 \<Rightarrow> u64 option" where
  "ttl_to_expiry ttl_seconds now = (case ttl_seconds of None \<Rightarrow> None
     | Some ttl \<Rightarrow> if ttl = 0 then None else Some (sat_add now ttl))"

definition is_expired :: "u64 \<Rightarrow> stream_key \<Rightarrow> bool" where
  "is_expired now key = (case sk_expires_at key of Some ex \<Rightarrow> ex \<le> now | None \<Rightarrow> False)"

definition list_keys :: "key_store \<Rightarrow> stream_key set" where
  "list_keys st = ran (ks_by_id st)"

definition get_key :: "key_store \<Rightarrow> ustr \<Rightarrow> stream_key option" where
  "get_key st i = ks_by_id st i"

definition get_by_token :: "u64 \<Rightarrow> key_store \<Rightarrow> ustr \<Rightarrow> stream_key option" where
  "get_by_token now st token =
     (case ks_by_token st token of None \<Rightarrow> None | Some i \<Rightarrow>
      (case ks_by_id st i of None \<Rightarrow> None | Some key \<Rightarrow>
       if is_expired now key then None else Some key))"

definition minted_key :: "ustr \<Rightarrow> ustr \<Rightarrow> u64 \<Rightarrow> stream_key_spec \<Rightarrow> stream_key" where
  "minted_key i token now spec =
     \<lparr>sk_id = i, sk_token = token, sk_label = ss_label spec, sk_broadcast = ss_broadcast spec,
      sk_created_at = now, sk_expires_at = ttl_to_expiry (ss_ttl_seconds spec) now\<rparr>"

definition mint :: "ustr \<Rightarrow> ustr \<Rightarrow> u64 \<Rightarrow> stream_key_spec \<Rightarrow> key_store \<Rightarrow> (stream_key \<times> key_store, unit) outcome" where
  "mint i token now spec st =
     (let key = minted_key i token now spec in
      case ks_by_token st (sk_token key) of Some prior \<Rightarrow> Panic
      | None \<Rightarrow> Ok (key, st\<lparr>ks_by_token := (ks_by_token st)(sk_token key \<mapsto> sk_id key),
          ks_by_id := (ks_by_id st)(sk_id key \<mapsto> key)\<rparr>))"

definition revoke :: "ustr \<Rightarrow> key_store \<Rightarrow> bool \<times> key_store" where
  "revoke i st = (case ks_by_id st i of None \<Rightarrow> (False, st)
     | Some key \<Rightarrow> (True, st\<lparr>ks_by_id := (ks_by_id st)(i := None),
         ks_by_token := (ks_by_token st)(sk_token key := None)\<rparr>))"

definition rotated_key :: "ustr \<Rightarrow> u64 \<Rightarrow> stream_key_spec option \<Rightarrow> stream_key \<Rightarrow> stream_key" where
  "rotated_key token now override_spec key =
     (case override_spec of
        Some spec \<Rightarrow> key\<lparr>sk_label := ss_label spec, sk_broadcast := ss_broadcast spec,
          sk_expires_at := ttl_to_expiry (ss_ttl_seconds spec) now\<rparr>
      | None \<Rightarrow> key)\<lparr>sk_token := token, sk_created_at := now\<rparr>"

definition rotate_key :: "ustr \<Rightarrow> ustr \<Rightarrow> u64 \<Rightarrow> stream_key_spec option \<Rightarrow> key_store \<Rightarrow> (stream_key option \<times> key_store, unit) outcome" where
  "rotate_key i token now override_spec st =
     (case ks_by_id st i of None \<Rightarrow> Ok (None, st)
      | Some entry \<Rightarrow>
          (let prior_token = sk_token entry;
               snapshot = rotated_key token now override_spec entry;
               by_token = (ks_by_token st)(prior_token := None) in
           case by_token token of Some prev \<Rightarrow> Panic
           | None \<Rightarrow> Ok (Some snapshot, st\<lparr>ks_by_id := (ks_by_id st)(i \<mapsto> snapshot),
               ks_by_token := by_token(token \<mapsto> i)\<rparr>)))"

section \<open>The provider in front of the fallback\<close>

definition multi_key_delegate :: "auth_provider option \<Rightarrow> auth_provider" where
  "multi_key_delegate fallback ctx = (case fallback of Some f \<Rightarrow> f ctx
     | None \<Rightarrow> Deny (ustr_of ''no fallback auth provider configured''))"

definition multi_key_check :: "(ustr \<Rightarrow> stream_key option) \<Rightarrow> auth_provider option \<Rightarrow> auth_provider" where
  "multi_key_check lookup_token fallback ctx = (case ctx of
     Publish _ key requested \<Rightarrow> (case lookup_token key of
         Some entry \<Rightarrow> (case (sk_broadcast entry, requested) of
             (None, _) \<Rightarrow> Allow
           | (Some scoped, Some req) \<Rightarrow> if scoped = req then Allow
               else Deny (ustr_of ''stream-key scoped to a different broadcast'')
           | (Some _, None) \<Rightarrow> Deny (ustr_of ''stream-key requires a broadcast scope''))
       | None \<Rightarrow> multi_key_delegate fallback ctx)
   | _ \<Rightarrow> multi_key_delegate fallback ctx)"

text \<open>The hot-reload wrapper: a cell with the current provider.\<close>

definition hot_reload_swap :: "auth_provider \<Rightarrow> auth_provider \<Rightarrow> auth_provider" where
  "hot_reload_swap new_inner inner = new_inner"

definition hot_reload_check :: "auth_provider \<Rightarrow> auth_provider" where
  "hot_reload_check inner ctx = inner ctx"

section \<open>The contract of a stream-key store\<close>

text \<open>
  What a client of the trait \<open>StreamKeyStore\<close> relies on: a token finds exactly the live key that carries
  it, and the identifier of a stored key is the one it is stored under.
\<close>

locale stream_key_store =
  fixes lookup_token :: "u64 \<Rightarrow> 's \<Rightarrow> ustr \<Rightarrow> stream_key option"
    and lookup_id :: "'s \<Rightarrow> ustr \<Rightarrow> stream_key option"
    and inv :: "'s \<Rightarrow> bool"
  assumes token_iff: "inv s \<Longrightarrow> lookup_token now s t = Some k \<longleftrightarrow>
      lookup_id s (sk_id k) = Some k \<and> sk_token k = t \<and> \<not> is_expired now k"
begin

lemma unknown_token:
  "inv s \<Longrightarrow> lookup_token now s t = None \<longleftrightarrow>
    (\<forall>k. lookup_id s (sk_id k) = Some k \<longrightarrow> sk_token k = t \<longrightarrow> is_expired now k)"
  using token_iff [of s now t] by (metis option.exhaust option.simps(3))

lemma one_key_per_token:
  "inv s \<Longrightarrow> lookup_id s (sk_id k) = Some k \<Longrightarrow> lookup_id s (sk_id k') = Some k' \<Longrightarrow>
    \<not> is_expired now k \<Longrightarrow> \<not> is_expired now k' \<Longrightarrow> sk_token k = sk_token k' \<Longrightarrow> k = k'"
  using token_iff [of s now "sk_token k"] by (metis option.inject)

lemma live_key_decides:
  assumes "inv s" and "lookup_id s (sk_id k) = Some k" and "\<not> is_expired now k"
  shows "multi_key_check (lookup_token now s) fallback (Publish app (sk_token k) requested) = Allow \<longleftrightarrow>
    sk_broadcast k = None \<or> (requested \<noteq> None \<and> sk_broadcast k = requested)"
proof -
  have "lookup_token now s (sk_token k) = Some k" using assms token_iff by blast
  then show ?thesis by (auto simp: multi_key_check_def split: option.split)
qed

lemma no_live_key_delegates:
  assumes "inv s" and "\<And>k. lookup_id s (sk_id k) = Some k \<Longrightarrow> sk_token k = t \<Longrightarrow> is_expired now k"
  shows "multi_key_check (lookup_token now s) fallback (Publish app t requested) =
    multi_key_delegate fallback (Publish app t requested)"
proof -
  have "lookup_token now s t = None" using assms unknown_token by blast
  then show ?thesis by (simp add: multi_key_check_def)
qed

end

section \<open>The two maps stay inverse\<close>

definition store_ok :: "key_store \<Rightarrow> bool" where
  "store_ok st \<longleftrightarrow>
     (\<forall>i k. ks_by_id st i = Some k \<longrightarrow> sk_id k = i \<and> ks_by_token st (sk_token k) = Some i) \<and>
     (\<forall>t i. ks_by_token st t = Some i \<longrightarrow> (\<exists>k. ks_by_id st i = Some k \<and> sk_token k = t))"

lemma store_okD:
  "store_ok st \<Longrightarrow> ks_by_id st i = Some k \<Longrightarrow> sk_id k = i \<and> ks_by_token st (sk_token k) = Some i"
  "store_ok st \<Longrightarrow> ks_by_token st t = Some i \<Longrightarrow> \<exists>k. ks_by_id st i = Some k \<and> sk_token k = t"
  by (auto simp: store_ok_def)

lemma rotated_key_fields [simp]:
  "sk_id (rotated_key t now ov k) = sk_id k" "sk_token (rotated_key t now ov k) = t"
  "sk_created_at (rotated_key t now ov k) = now"
  by (simp_all add: rotated_key_def split: option.split)

lemma minted_key_fields [simp]: "sk_id (minted_key i t now spec) = i" "sk_token (minted_key i t now spec) = t"
  by (simp_all add: minted_key_def)

lemma get_by_token_iff:
  assumes ok: "store_ok s"
  shows "get_by_token now s t = Some k \<longleftrightarrow> get_key s (sk_id k) = Some k \<and> sk_token k = t \<and> \<not> is_expired now k"
proof (cases "ks_by_token s t")
  case None
  then have "\<not> (get_key s (sk_id k) = Some k \<and> sk_token k = t)"
    using store_okD(1) [OF ok, of "sk_id k" k] by (auto simp: get_key_def)
  then show ?thesis using None by (auto simp: get_by_token_def)
next
  case (Some i)
  then obtain k' where k': "ks_by_id s i = Some k'" "sk_token k' = t" "sk_id k' = i"
    using store_okD(2) [OF ok Some] store_okD(1) [OF ok] by blast
  have "k = k'" if "ks_by_id s (sk_id k) = Some k" "sk_token k = t"
    using store_okD(1) [OF ok that(1)] that(2) Some k'(1) that(1) by simp
  then show ?thesis using Some k' by (auto simp: get_by_token_def get_key_def)
qed

interpretation keys: stream_key_store get_by_token get_key store_ok
  by unfold_locales (rule get_by_token_iff)

lemma store_ok_new: "store_ok store_new"
  by (simp add: store_ok_def store_new_def)

lemma mint_store:
  assumes "store_ok st" and "ks_by_id st i = None" and "mint i t now spec st = Ok (k, st')"
  shows "store_ok st'" and "k = minted_key i t now spec" and "ks_by_id st' = (ks_by_id st)(i \<mapsto> k)"
proof -
  from assms(3) have t: "ks_by_token st t = None" and k: "k = minted_key i t now spec"
    and st': "ks_by_id st' = (ks_by_id st)(i \<mapsto> k)" "ks_by_token st' = (ks_by_token st)(t \<mapsto> i)"
    by (auto simp: mint_def Let_def split: option.splits)
  show "store_ok st'"
    unfolding store_ok_def st'
    using store_okD [OF assms(1)] assms(2) t k by (auto; metis option.distinct(1) minted_key_fields(2))
  show "k = minted_key i t now spec" "ks_by_id st' = (ks_by_id st)(i \<mapsto> k)" using k st' by simp_all
qed

lemma revoke_store:
  assumes "store_ok st" and "revoke i st = (b, st')"
  shows "store_ok st'" and "ks_by_id st' = (ks_by_id st)(i := None)" and "b \<longleftrightarrow> get_key st i \<noteq> None"
proof -
  show "store_ok st'"
  proof (cases "ks_by_id st i")
    case (Some k)
    then have st': "ks_by_id st' = (ks_by_id st)(i := None)" "ks_by_token st' = (ks_by_token st)(sk_token k := None)"
      using assms(2) by (auto simp: revoke_def)
    show ?thesis
      unfolding store_ok_def st' using store_okD [OF assms(1)] Some by (auto simp: store_ok_def) (metis option.inject)+
  qed (use assms in \<open>auto simp: revoke_def\<close>)
  show "ks_by_id st' = (ks_by_id st)(i := None)" "b \<longleftrightarrow> get_key st i \<noteq> None"
    using assms(2) by (auto simp: revoke_def get_key_def split: option.splits)
qed

lemma rotate_some:
  assumes "rotate_key i t now ov st = Ok (r, st')" and "ks_by_id st i = Some k"
  shows "r = Some (rotated_key t now ov k)" and "t = sk_token k \<or> ks_by_token st t = None"
    and "ks_by_id st' = (ks_by_id st)(i \<mapsto> rotated_key t now ov k)"
    and "ks_by_token st' = (fun_upd (ks_by_token st) (sk_token k) None)(t \<mapsto> i)"
proof -
  have "fun_upd (ks_by_token st) (sk_token k) None t = None"
    using assms by (cases "fun_upd (ks_by_token st) (sk_token k) None t") (simp_all add: rotate_key_def Let_def)
  then show "r = Some (rotated_key t now ov k)" "t = sk_token k \<or> ks_by_token st t = None"
    "ks_by_id st' = (ks_by_id st)(i \<mapsto> rotated_key t now ov k)"
    "ks_by_token st' = (fun_upd (ks_by_token st) (sk_token k) None)(t \<mapsto> i)"
    using assms by (auto simp add: rotate_key_def Let_def simp del: fun_upd_apply split: option.splits) (auto split: if_splits)
qed

lemma rotate_none:
  assumes "rotate_key i t now ov st = Ok (r, st')" and "ks_by_id st i = None"
  shows "r = None \<and> st' = st"
  using assms by (simp add: rotate_key_def)

lemma store_ok_replace:
  assumes ok: "store_ok st" and k: "ks_by_id st i = Some k" and t: "t = sk_token k \<or> ks_by_token st t = None"
    and k1: "sk_id k1 = i" "sk_token k1 = t"
    and st': "ks_by_id st' = (ks_by_id st)(i \<mapsto> k1)"
      "ks_by_token st' = (fun_upd (ks_by_token st) (sk_token k) None)(t \<mapsto> i)"
  shows "store_ok st'"
  unfolding store_ok_def
proof (intro conjI allI impI)
  fix j k' assume j: "ks_by_id st' j = Some k'"
  have ids: "sk_id k' = j \<and> ks_by_token st (sk_token k') = Some j" if "j \<noteq> i"
    using j that st'(1) store_okD(1) [OF ok] by simp
  show "sk_id k' = j" using ids j st'(1) k1 by (cases "j = i") auto
  show "ks_by_token st' (sk_token k') = Some j"
  proof (cases "j = i")
    case True
    then show ?thesis using j st' k1 by auto
  next
    case False
    then have "sk_token k' \<noteq> sk_token k" using ids store_okD(1) [OF ok k] by auto
    then show ?thesis using ids False t st'(2) by auto
  qed
next
  fix s j assume s: "ks_by_token st' s = Some j"
  show "\<exists>k. ks_by_id st' j = Some k \<and> sk_token k = s"
  proof (cases "s = t")
    case True
    then show ?thesis using s st' k1 by auto
  next
    case False
    then have s0: "ks_by_token st s = Some j" "s \<noteq> sk_token k" using s st'(2) by (auto split: if_splits)
    then obtain k' where "ks_by_id st j = Some k'" "sk_token k' = s" using store_okD(2) [OF ok] by blast
    then show ?thesis using st'(1) k s0 by auto
  qed
qed

lemma rotate_store:
  assumes "store_ok st" and "rotate_key i t now ov st = Ok (r, st')"
  shows "store_ok st' \<and> r = map_option (rotated_key t now ov) (get_key st i) \<and>
    ks_by_id st' = (ks_by_id st)(i := r)"
proof (cases "ks_by_id st i")
  case None
  then have "r = None" "st' = st" using rotate_none [OF assms(2)] by blast+
  then show ?thesis using assms(1) None by (simp add: get_key_def fun_upd_idem)
next
  case (Some k)
  note r = rotate_some [OF assms(2) Some]
  have "store_ok st'"
    by (rule store_ok_replace [OF assms(1) Some r(2) _ _ r(3,4)])
      (simp_all add: store_okD(1) [OF assms(1) Some])
  then show ?thesis using r(1,3) Some by (simp add: get_key_def)
qed

text \<open>The store as operations change it one after the other, with identifiers that are new.\<close>

inductive key_step :: "key_store \<Rightarrow> key_store \<Rightarrow> bool" where
  step_mint: "ks_by_id st i = None \<Longrightarrow> mint i t now spec st = Ok (k, st') \<Longrightarrow> key_step st st'"
| step_revoke: "revoke i st = (b, st') \<Longrightarrow> key_step st st'"
| step_rotate: "rotate_key i t now ov st = Ok (r, st') \<Longrightarrow> key_step st st'"

interpretation key_run: step_invariant store_new key_step store_ok
proof
  show "store_ok store_new" by (rule store_ok_new)
  show "store_ok t" if "store_ok s" "key_step s t" for s t
    using that(2,1) by cases (auto dest: mint_store(1) revoke_store(1) rotate_store)
qed

lemma expiry_exact:
  "is_expired later (minted_key i t now spec) \<longleftrightarrow>
    (\<exists>ttl. ss_ttl_seconds spec = Some ttl \<and> ttl \<noteq> 0 \<and> min (unat now + unat ttl) (2 ^ 64 - 1) \<le> unat later)"
proof -
  have add: "unat (sat_add a b) = min (unat a + unat b) (2 ^ 64 - 1)" for a b
  proof (cases "unat a + unat b < 2 ^ 64")
    case True
    then have s: "unat (a + b) = unat a + unat b" by (simp add: unat_word_ariths)
    then have "\<not> a + b < a" by (simp add: word_less_nat_alt)
    then show ?thesis using s True by (simp add: sat_add_def)
  next
    case False
    have "unat a < 2 ^ 64" "unat b < 2 ^ 64" using unsigned_less [of a, where 'a = nat] unsigned_less [of b, where 'a = nat] by simp_all
    then have "unat (a + b) = unat a + unat b - 2 ^ 64" using False by (simp add: unat_word_ariths mod_if)
    then have "a + b < a" using \<open>unat b < 2 ^ 64\<close> False by (simp add: word_less_nat_alt)
    moreover have "unat (- 1 :: u64) = 2 ^ 64 - 1" by (simp add: unsigned_minus_1_eq_mask mask_eq_exp_minus_1)
    ultimately show ?thesis using False by (simp add: sat_add_def)
  qed
  show ?thesis
    by (auto simp: is_expired_def minted_key_def ttl_to_expiry_def word_le_nat_alt add split: option.splits)
qed

section \<open>Overlapping calls\<close>

text \<open>
  Each operation is a sequence of accesses to one of the two maps; an access is atomic (the shard lock of the
  \<open>DashMap\<close>) and other threads run between two of them.  A value of \<open>key_op\<close> is a call with its next access.
\<close>

datatype key_op =
    Mint_token stream_key
  | Mint_id stream_key
  | Minted stream_key
  | Revoke_id ustr
  | Revoke_token ustr
  | Revoked bool
  | Rotate_entry ustr ustr u64 "stream_key_spec option"
  | Rotate_remove ustr ustr stream_key
  | Rotate_insert ustr stream_key
  | Rotated "stream_key option"
  | Read_token ustr
  | Read_id ustr ustr
  | Read_key ustr "stream_key option"
  | Panicked

fun key_access :: "u64 \<Rightarrow> key_op \<Rightarrow> key_store \<Rightarrow> key_op \<times> key_store" where
  "key_access now (Mint_token key) st =
     (case ks_by_token st (sk_token key) of None \<Rightarrow> Mint_id key | Some prior \<Rightarrow> Panicked,
      st\<lparr>ks_by_token := (ks_by_token st)(sk_token key \<mapsto> sk_id key)\<rparr>)"
| "key_access now (Mint_id key) st = (Minted key, st\<lparr>ks_by_id := (ks_by_id st)(sk_id key \<mapsto> key)\<rparr>)"
| "key_access now (Revoke_id i) st = (case ks_by_id st i of None \<Rightarrow> (Revoked False, st)
     | Some key \<Rightarrow> (Revoke_token (sk_token key), st\<lparr>ks_by_id := (ks_by_id st)(i := None)\<rparr>))"
| "key_access now (Revoke_token t) st = (Revoked True, st\<lparr>ks_by_token := (ks_by_token st)(t := None)\<rparr>)"
| "key_access now (Rotate_entry i t at_time ov) st = (case ks_by_id st i of None \<Rightarrow> (Rotated None, st)
     | Some entry \<Rightarrow> (let snapshot = rotated_key t at_time ov entry in
         (Rotate_remove i (sk_token entry) snapshot, st\<lparr>ks_by_id := (ks_by_id st)(i \<mapsto> snapshot)\<rparr>)))"
| "key_access now (Rotate_remove i prior_token snapshot) st =
     (Rotate_insert i snapshot, st\<lparr>ks_by_token := (ks_by_token st)(prior_token := None)\<rparr>)"
| "key_access now (Rotate_insert i snapshot) st =
     (case ks_by_token st (sk_token snapshot) of None \<Rightarrow> Rotated (Some snapshot) | Some prev \<Rightarrow> Panicked,
      st\<lparr>ks_by_token := (ks_by_token st)(sk_token snapshot \<mapsto> i)\<rparr>)"
| "key_access now (Read_token t) st =
     (case ks_by_token st t of None \<Rightarrow> Read_key t None | Some i \<Rightarrow> Read_id t i, st)"
| "key_access now (Read_id t i) st = (Read_key t (case ks_by_id st i of None \<Rightarrow> None
     | Some key \<Rightarrow> if is_expired now key then None else Some key), st)"
| "key_access now op st = (op, st)"

text \<open>Calls, the tokens the generator has given out with the identifier each is for, and the identifiers a
  \<open>revoke\<close> has taken out.\<close>

record key_world =
  kw_store :: key_store
  kw_ops :: "key_op list"
  kw_issued :: "ustr \<rightharpoonup> ustr"
  kw_gone :: "ustr set"

definition world_new :: key_world where
  "world_new = \<lparr>kw_store = store_new, kw_ops = [], kw_issued = Map.empty, kw_gone = {}\<rparr>"

definition gone_after :: "key_op \<Rightarrow> key_store \<Rightarrow> ustr set \<Rightarrow> ustr set" where
  "gone_after op st gone = (case op of Revoke_id i \<Rightarrow> if ks_by_id st i = None then gone else insert i gone
     | _ \<Rightarrow> gone)"

inductive key_thread :: "key_world \<Rightarrow> key_world \<Rightarrow> bool" where
  call_mint: "i \<notin> ran (kw_issued w) \<Longrightarrow> t \<notin> dom (kw_issued w) \<Longrightarrow>
     key_thread w (w\<lparr>kw_ops := kw_ops w @ [Mint_token (minted_key i t now spec)],
       kw_issued := (kw_issued w)(t \<mapsto> i)\<rparr>)"
| call_rotate: "t \<notin> dom (kw_issued w) \<Longrightarrow>
     key_thread w (w\<lparr>kw_ops := kw_ops w @ [Rotate_entry i t now ov], kw_issued := (kw_issued w)(t \<mapsto> i)\<rparr>)"
| call_revoke: "key_thread w (w\<lparr>kw_ops := kw_ops w @ [Revoke_id i]\<rparr>)"
| call_read: "key_thread w (w\<lparr>kw_ops := kw_ops w @ [Read_token t]\<rparr>)"
| access: "n < length (kw_ops w) \<Longrightarrow> key_access now (kw_ops w ! n) (kw_store w) = (op', st') \<Longrightarrow>
     key_thread w (w\<lparr>kw_store := st', kw_ops := (kw_ops w)[n := op'],
       kw_gone := gone_after (kw_ops w ! n) (kw_store w) (kw_gone w)\<rparr>)"

text \<open>An operation that nothing interrupts does what the function says.\<close>

lemma undisturbed_mint:
  assumes "mint i t now spec st = Ok (key, st2)"
  shows "\<exists>st1. key_access now (Mint_token key) st = (Mint_id key, st1) \<and>
    key_access now (Mint_id key) st1 = (Minted key, st2)"
  using assms by (auto simp: mint_def Let_def split: option.splits)

lemma undisturbed_rotate:
  assumes "rotate_key i t now ov st = Ok (Some key, st2)" and "ks_by_id st i = Some k"
  shows "key_access now (Rotate_insert i key)
      (snd (key_access now (Rotate_remove i (sk_token k) key) (snd (key_access now (Rotate_entry i t now ov) st)))) =
    (Rotated (Some key), st2)"
proof (cases "fun_upd (ks_by_token st) (sk_token k) None t")
  case None
  then show ?thesis using assms by (auto simp: rotate_key_def Let_def simp del: fun_upd_apply)
next
  case (Some j)
  then show ?thesis using assms by (simp add: rotate_key_def Let_def del: fun_upd_apply)
qed

lemma undisturbed_revoke:
  assumes "ks_by_id st i = Some k"
  shows "\<exists>st1. key_access now (Revoke_id i) st = (Revoke_token (sk_token k), st1) \<and>
    key_access now (Revoke_token (sk_token k)) st1 = (Revoked True, snd (revoke i st))"
  using assms by (simp add: revoke_def)

lemma undisturbed_read:
  "ks_by_token st t = Some i \<Longrightarrow> key_access now (Read_token t) st = (Read_id t i, st) \<and>
    key_access now (Read_id t i) st = (Read_key t (get_by_token now st t), st)"
  by (simp add: get_by_token_def split: option.split)

text \<open>The tokens a call has yet to write, and the identifier it has yet to store.\<close>

fun op_pending :: "key_op \<Rightarrow> ustr option" where
  "op_pending (Mint_token k) = Some (sk_token k)"
| "op_pending (Rotate_entry i t now ov) = Some t"
| "op_pending (Rotate_remove i p k) = Some (sk_token k)"
| "op_pending (Rotate_insert i k) = Some (sk_token k)"
| "op_pending _ = None"

fun op_minting :: "key_op \<Rightarrow> ustr option" where
  "op_minting (Mint_token k) = Some (sk_id k)"
| "op_minting (Mint_id k) = Some (sk_id k)"
| "op_minting _ = None"

fun op_ok :: "(ustr \<rightharpoonup> ustr) \<Rightarrow> key_op \<Rightarrow> bool" where
  "op_ok iss (Mint_token k) = (iss (sk_token k) = Some (sk_id k))"
| "op_ok iss (Mint_id k) = (iss (sk_token k) = Some (sk_id k))"
| "op_ok iss (Rotate_entry i t now ov) = (iss t = Some i)"
| "op_ok iss (Rotate_remove i p k) = (iss (sk_token k) = Some i)"
| "op_ok iss (Rotate_insert i k) = (iss (sk_token k) = Some i)"
| "op_ok iss (Read_id t i) = (iss t = Some i)"
| "op_ok iss (Read_key t r) = (case r of None \<Rightarrow> True | Some k \<Rightarrow> iss t = Some (sk_id k))"
| "op_ok iss Panicked = False"
| "op_ok iss _ = True"

lemma key_access_facts:
  assumes "key_access now op st = (op', st')" and "op_ok iss op"
    and "\<And>t. op_pending op = Some t \<Longrightarrow> ks_by_token st t = None"
    and "\<And>t i. ks_by_token st t = Some i \<Longrightarrow> iss t = Some i"
    and "\<And>i k. ks_by_id st i = Some k \<Longrightarrow> sk_id k = i \<and> iss (sk_token k) = Some i"
  shows "op_ok iss op'"
    and "op_pending op' = None \<or> op_pending op' = op_pending op"
    and "op_minting op' = None \<or> op_minting op' = op_minting op"
    and "ks_by_token st' t = Some i \<Longrightarrow> ks_by_token st t = Some i \<or>
      (op_pending op = Some t \<and> op_pending op' = None \<and> iss t = Some i)"
    and "ks_by_id st' i = Some k \<Longrightarrow> ks_by_id st i = Some k \<or>
      (sk_id k = i \<and> iss (sk_token k) = Some i \<and>
        (ks_by_id st i \<noteq> None \<or> op_minting op = Some i \<and> op_minting op' = None))"
    and "op = Revoke_id i \<Longrightarrow> ks_by_id st' i = None"
  using assms
  by (induction now op st rule: key_access.induct)
    (fastforce simp: Let_def split: option.splits if_splits)+

definition world_ok :: "key_world \<Rightarrow> bool" where
  "world_ok w \<longleftrightarrow>
     (\<forall>t i. ks_by_token (kw_store w) t = Some i \<longrightarrow> kw_issued w t = Some i) \<and>
     (\<forall>i k. ks_by_id (kw_store w) i = Some k \<longrightarrow> sk_id k = i \<and> kw_issued w (sk_token k) = Some i) \<and>
     (\<forall>n < length (kw_ops w). op_ok (kw_issued w) (kw_ops w ! n) \<and>
        (\<forall>t. op_pending (kw_ops w ! n) = Some t \<longrightarrow> t \<in> dom (kw_issued w) \<and> ks_by_token (kw_store w) t = None) \<and>
        (\<forall>i. op_minting (kw_ops w ! n) = Some i \<longrightarrow> i \<in> ran (kw_issued w) \<and> ks_by_id (kw_store w) i = None \<and> i \<notin> kw_gone w)) \<and>
     apart op_pending (kw_ops w) \<and> apart op_minting (kw_ops w) \<and>
     (\<forall>i \<in> kw_gone w. i \<in> ran (kw_issued w) \<and> ks_by_id (kw_store w) i = None)"

lemma op_ok_mono:
  "op_ok iss op \<Longrightarrow> t \<notin> dom iss \<Longrightarrow> op_ok (iss(t \<mapsto> i)) op"
  by (cases op) (auto split: option.splits)

lemma ran_fresh: "t \<notin> dom m \<Longrightarrow> ran (m(t \<mapsto> i)) = insert i (ran m)"
  by (simp add: domIff ran_map_upd)

text \<open>A call joins with a new token, or with none.\<close>

lemma world_call:
  assumes w: "world_ok w" and t: "t \<notin> dom (kw_issued w)"
    and op: "op_ok ((kw_issued w)(t \<mapsto> i)) op" "op_pending op = None \<or> op_pending op = Some t"
      "op_minting op = None \<or> op_minting op = Some i \<and> i \<notin> ran (kw_issued w)"
  shows "world_ok (w\<lparr>kw_ops := kw_ops w @ [op], kw_issued := (kw_issued w)(t \<mapsto> i)\<rparr>)" (is "world_ok ?w")
proof -
  let ?iss = "(kw_issued w)(t \<mapsto> i)"
  note W = w [unfolded world_ok_def]
  have st: "\<forall>s j. ks_by_token (kw_store w) s = Some j \<longrightarrow> ?iss s = Some j"
    "\<forall>j k. ks_by_id (kw_store w) j = Some k \<longrightarrow> sk_id k = j \<and> ?iss (sk_token k) = Some j"
    using W t by (auto simp: domIff)
  have no_t: "ks_by_token (kw_store w) t = None"
    using W t by (metis domI not_None_eq)
  have no_i: "i \<notin> ran (kw_issued w) \<Longrightarrow> ks_by_id (kw_store w) i = None \<and> i \<notin> kw_gone w"
    using W by (metis ranI not_None_eq)
  have old: "op_ok ?iss (kw_ops w ! n)"
    "op_pending (kw_ops w ! n) = Some s \<Longrightarrow> s \<noteq> t \<and> s \<in> dom ?iss \<and> ks_by_token (kw_store w) s = None"
    "op_minting (kw_ops w ! n) = Some j \<Longrightarrow> (i \<notin> ran (kw_issued w) \<longrightarrow> j \<noteq> i) \<and> j \<in> ran ?iss \<and>
       ks_by_id (kw_store w) j = None \<and> j \<notin> kw_gone w"
    if "n < length (kw_ops w)" for n s j
    using W that t by (auto simp: op_ok_mono ran_fresh)
  have new: "op_pending op = Some s \<Longrightarrow> s \<in> dom ?iss \<and> ks_by_token (kw_store w) s = None"
    "op_minting op = Some j \<Longrightarrow> j \<in> ran ?iss \<and> ks_by_id (kw_store w) j = None \<and> j \<notin> kw_gone w" for s j
    using op no_t no_i t by (auto simp: ran_fresh)
  have "\<forall>n < length (kw_ops ?w). op_ok ?iss (kw_ops ?w ! n) \<and>
        (\<forall>s. op_pending (kw_ops ?w ! n) = Some s \<longrightarrow> s \<in> dom ?iss \<and> ks_by_token (kw_store w) s = None) \<and>
        (\<forall>j. op_minting (kw_ops ?w ! n) = Some j \<longrightarrow> j \<in> ran ?iss \<and> ks_by_id (kw_store w) j = None \<and> j \<notin> kw_gone w)"
  proof (intro allI impI)
    fix n assume "n < length (kw_ops ?w)"
    then consider "n < length (kw_ops w)" "kw_ops ?w ! n = kw_ops w ! n" | "kw_ops ?w ! n = op"
      by (auto simp: nth_append less_Suc_eq)
    then show "op_ok ?iss (kw_ops ?w ! n) \<and>
        (\<forall>s. op_pending (kw_ops ?w ! n) = Some s \<longrightarrow> s \<in> dom ?iss \<and> ks_by_token (kw_store w) s = None) \<and>
        (\<forall>j. op_minting (kw_ops ?w ! n) = Some j \<longrightarrow> j \<in> ran ?iss \<and> ks_by_id (kw_store w) j = None \<and> j \<notin> kw_gone w)"
      using old [of n] new op(1) by cases (metis, metis)
  qed
  moreover have "apart op_pending (kw_ops w @ [op])"
  proof (rule apart_append)
    show "apart op_pending (kw_ops w)" using W by blast
    show "op_pending (kw_ops w ! n) \<noteq> Some s" if "op_pending op = Some s" "n < length (kw_ops w)" for s n
      using old(2) [OF that(2), of s] that(1) op(2) by auto
  qed
  moreover have "apart op_minting (kw_ops w @ [op])"
  proof (rule apart_append)
    show "apart op_minting (kw_ops w)" using W by blast
    show "op_minting (kw_ops w ! n) \<noteq> Some j" if "op_minting op = Some j" "n < length (kw_ops w)" for j n
      using old(3) [OF that(2), of j] that(1) op(3) by auto
  qed
  moreover have "\<forall>j \<in> kw_gone w. j \<in> ran ?iss \<and> ks_by_id (kw_store w) j = None"
    using W t by (auto simp: ran_fresh)
  ultimately show ?thesis
    using st unfolding world_ok_def by simp
qed

lemma world_call_plain:
  assumes "world_ok w" and "op_ok (kw_issued w) op" "op_pending op = None" "op_minting op = None"
  shows "world_ok (w\<lparr>kw_ops := kw_ops w @ [op]\<rparr>)"
  using assms unfolding world_ok_def by (auto simp: nth_append less_Suc_eq intro!: apart_append)

lemma world_access:
  assumes w: "world_ok w" and n: "n < length (kw_ops w)"
    and ac: "key_access now (kw_ops w ! n) (kw_store w) = (op', st')"
  shows "world_ok (w\<lparr>kw_store := st', kw_ops := (kw_ops w)[n := op'],
    kw_gone := gone_after (kw_ops w ! n) (kw_store w) (kw_gone w)\<rparr>)" (is "world_ok ?w")
proof -
  let ?op = "kw_ops w ! n" and ?iss = "kw_issued w" and ?st = "kw_store w"
  note W = w [unfolded world_ok_def]
  have okn: "op_ok ?iss ?op" using W n by blast
  have ap: "apart op_pending (kw_ops w)" "apart op_minting (kw_ops w)" using W by blast+
  have pn: "ks_by_token ?st t = None" if "op_pending ?op = Some t" for t using W n that by blast
  have tok: "?iss t = Some i" if "ks_by_token ?st t = Some i" for t i using W that by blast
  have idm: "sk_id k = i \<and> ?iss (sk_token k) = Some i" if "ks_by_id ?st i = Some k" for i k using W that by blast
  note F = key_access_facts [OF ac okn pn tok idm]
  have tok': "\<forall>t i. ks_by_token st' t = Some i \<longrightarrow> ?iss t = Some i" using F(4) tok by blast
  have id': "\<forall>i k. ks_by_id st' i = Some k \<longrightarrow> sk_id k = i \<and> ?iss (sk_token k) = Some i" using F(5) idm by blast
  have none_t: "ks_by_token st' t = None" if "ks_by_token ?st t = None" "op_pending ?op = Some t \<Longrightarrow> op_pending op' \<noteq> None" for t
    using F(4) [of t] that by (cases "ks_by_token st' t") auto
  have none_i: "ks_by_id st' i = None" if "ks_by_id ?st i = None" "op_minting ?op = Some i \<Longrightarrow> op_minting op' \<noteq> None" for i
    using F(5) [of i] that by (cases "ks_by_id st' i") auto
  have gone: "gone_after ?op ?st (kw_gone w) \<subseteq> {i. i \<in> kw_gone w \<or> (?op = Revoke_id i \<and> ks_by_id ?st i \<noteq> None)}"
    by (auto simp: gone_after_def split: key_op.splits if_splits)
  have pend: "(\<forall>m < length (kw_ops w). op_ok ?iss ((kw_ops w)[n := op'] ! m) \<and>
        (\<forall>t. op_pending ((kw_ops w)[n := op'] ! m) = Some t \<longrightarrow> t \<in> dom ?iss \<and> ks_by_token st' t = None) \<and>
        (\<forall>i. op_minting ((kw_ops w)[n := op'] ! m) = Some i \<longrightarrow>
          i \<in> ran ?iss \<and> ks_by_id st' i = None \<and> i \<notin> gone_after ?op ?st (kw_gone w)))"
  proof (intro allI impI)
    fix m assume m: "m < length (kw_ops w)"
    let ?o = "(kw_ops w)[n := op'] ! m"
    have Wm: "op_ok ?iss (kw_ops w ! m)"
      "op_pending (kw_ops w ! m) = Some t \<Longrightarrow> t \<in> dom ?iss \<and> ks_by_token ?st t = None"
      "op_minting (kw_ops w ! m) = Some i \<Longrightarrow> i \<in> ran ?iss \<and> ks_by_id ?st i = None \<and> i \<notin> kw_gone w"
      for t i using W m by blast+
    have sub: "op_pending ?o = None \<or> op_pending ?o = op_pending (kw_ops w ! m)"
      "op_minting ?o = None \<or> op_minting ?o = op_minting (kw_ops w ! m)"
      using F(2,3) n by (auto simp: nth_list_update)
    have dt: "ks_by_token st' t = None" if "op_pending ?o = Some t" for t
    proof (rule none_t)
      show "ks_by_token ?st t = None" using sub(1) that Wm(2) by auto
      show "op_pending op' \<noteq> None" if "op_pending ?op = Some t"
        using that \<open>op_pending ?o = Some t\<close> sub(1) apartD [OF ap(1) m n] n by (cases "m = n") auto
    qed
    have di: "ks_by_id st' i = None" if "op_minting ?o = Some i" for i
    proof (rule none_i)
      show "ks_by_id ?st i = None" using sub(2) that Wm(3) by auto
      show "op_minting op' \<noteq> None" if "op_minting ?op = Some i"
        using that \<open>op_minting ?o = Some i\<close> sub(2) apartD [OF ap(2) m n] n by (cases "m = n") auto
    qed
    have "op_ok ?iss ?o" using F(1) Wm(1) n by (simp add: nth_list_update)
    then show "op_ok ?iss ?o \<and> (\<forall>t. op_pending ?o = Some t \<longrightarrow> t \<in> dom ?iss \<and> ks_by_token st' t = None) \<and>
        (\<forall>i. op_minting ?o = Some i \<longrightarrow> i \<in> ran ?iss \<and> ks_by_id st' i = None \<and> i \<notin> gone_after ?op ?st (kw_gone w))"
    proof (intro conjI allI impI)
      fix t assume t: "op_pending ?o = Some t"
      show "t \<in> dom ?iss" using t sub(1) Wm(2) [of t] by simp
      show "ks_by_token st' t = None" by (rule dt [OF t])
    next
      fix i assume i: "op_minting ?o = Some i"
      then have i0: "i \<in> ran ?iss \<and> ks_by_id ?st i = None \<and> i \<notin> kw_gone w" using sub(2) Wm(3) [of i] by simp
      then show "i \<in> ran ?iss" by blast
      show "ks_by_id st' i = None" by (rule di [OF i])
      show "i \<notin> gone_after ?op ?st (kw_gone w)" using gone i0 by blast
    qed
  qed
  have dist: "apart op_pending ((kw_ops w)[n := op'])" "apart op_minting ((kw_ops w)[n := op'])"
    using apart_update [OF ap(1) n F(2)] apart_update [OF ap(2) n F(3)] by blast+
  have "\<forall>i \<in> gone_after ?op ?st (kw_gone w). i \<in> ran ?iss \<and> ks_by_id st' i = None"
  proof
    fix i assume "i \<in> gone_after ?op ?st (kw_gone w)"
    then consider "i \<in> kw_gone w" | k where "?op = Revoke_id i" "ks_by_id ?st i = Some k" using gone by auto
    then show "i \<in> ran ?iss \<and> ks_by_id st' i = None"
    proof cases
      case 1
      then have "i \<in> ran ?iss" "ks_by_id ?st i = None" "op_minting ?op \<noteq> Some i" using W n by blast+
      then show ?thesis using none_i by blast
    next
      case 2
      then show ?thesis using F(6) idm ranI by metis
    qed
  qed
  then show ?thesis using tok' id' pend dist unfolding world_ok_def by simp
qed

interpretation key_world: step_invariant world_new key_thread world_ok
proof
  show "world_ok world_new" by (simp add: world_ok_def world_new_def store_new_def apart_def)
  show "world_ok t" if "world_ok s" "key_thread s t" for s t
    using that(2,1)
  proof cases
    case (call_mint i t spec now)
    then show ?thesis using that(1) world_call [OF that(1) call_mint(3)] by simp
  next
    case (call_rotate t i now ov)
    then show ?thesis using that(1) world_call [OF that(1) call_rotate(2)] by simp
  qed (use that(1) in \<open>auto simp: world_access world_call_plain\<close>)
qed

section \<open>What the catalogue promises\<close>

text \<open>The key a lookup hands out: none once it has expired.\<close>

definition live :: "u64 \<Rightarrow> stream_key \<Rightarrow> stream_key option" where
  "live now k = (if is_expired now k then None else Some k)"

lemma get_by_token_live:
  "store_ok st \<Longrightarrow> get_key st i = Some k \<Longrightarrow> get_by_token now st (sk_token k) = live now k"
  using store_okD(1) [of st i k] by (simp add: get_by_token_def get_key_def live_def)

lemma get_by_token_eqI:
  assumes "store_ok st" "store_ok st'"
    and "\<And>k. sk_token k = s \<Longrightarrow> get_key st' (sk_id k) = Some k \<longleftrightarrow> get_key st (sk_id k) = Some k"
  shows "get_by_token now st' s = get_by_token now st s"
proof -
  have "get_by_token now st' s = Some k \<longleftrightarrow> get_by_token now st s = Some k" for k
    using keys.token_iff [OF assms(1)] keys.token_iff [OF assms(2)] assms(3) by blast
  then show ?thesis by (metis option.exhaust)
qed

lemma get_by_token_none:
  "store_ok st \<Longrightarrow> (\<And>k. sk_token k = s \<Longrightarrow> get_key st (sk_id k) \<noteq> Some k) \<Longrightarrow> get_by_token now st s = None"
  using keys.token_iff [of st now s] by (cases "get_by_token now st s") auto

lemma token_unique:
  assumes "store_ok st" "get_key st i = Some k" "get_key st j = Some k'" "sk_token k = sk_token k'"
  shows "i = j"
  using store_okD(1) [OF assms(1), of i k] store_okD(1) [OF assms(1), of j k'] assms(2-4) by (simp add: get_key_def)

lemma mint_lookup:
  assumes "store_ok st" "get_key st i = None" "mint i t now spec st = Ok (k, st')"
  shows "get_by_token later st' s = (if s = t then live later k else get_by_token later st s)"
proof (cases "s = t")
  case True
  have k: "sk_token k = t" using mint_store(2) [OF assms(1) _ assms(3)] assms(2) by (simp add: get_key_def)
  have "get_key st' i = Some k" using mint_store(3) [OF assms(1) _ assms(3)] assms(2) by (simp add: get_key_def)
  from get_by_token_live [OF mint_store(1) [OF assms(1) _ assms(3)] this] show ?thesis
    using True k assms(2) by (simp add: get_key_def)
next
  case False
  note m = mint_store [OF assms(1) assms(2) [unfolded get_key_def] assms(3)]
  have "get_by_token later st' s = get_by_token later st s"
  proof (rule get_by_token_eqI [OF assms(1) m(1)])
    fix k' :: stream_key assume "sk_token k' = s"
    then have "k' \<noteq> k" using m(2) False by auto
    then show "get_key st' (sk_id k') = Some k' \<longleftrightarrow> get_key st (sk_id k') = Some k'"
      using m(3) assms(2) by (auto simp: get_key_def)
  qed
  then show ?thesis using False by simp
qed

lemma revoke_lookup:
  assumes "store_ok st" "revoke i st = (b, st')"
  shows "get_by_token later st' s =
    (if map_option sk_token (get_key st i) = Some s then None else get_by_token later st s)"
proof (cases "map_option sk_token (get_key st i) = Some s")
  case True
  then obtain k where k: "get_key st i = Some k" "sk_token k = s" by auto
  have "get_key st' (sk_id k') \<noteq> Some k'" if "sk_token k' = s" for k'
  proof
    assume "get_key st' (sk_id k') = Some k'"
    then have "get_key st (sk_id k') = Some k'" "sk_id k' \<noteq> i"
      unfolding get_key_def revoke_store(2) [OF assms] by (simp_all split: if_splits)
    then show False using token_unique [OF assms(1) k(1)] k(2) that by metis
  qed
  from get_by_token_none [OF revoke_store(1) [OF assms] this] show ?thesis using True by simp
next
  case False
  have "get_by_token later st' s = get_by_token later st s"
  proof (rule get_by_token_eqI [OF assms(1) revoke_store(1) [OF assms]])
    fix k' :: stream_key assume k': "sk_token k' = s"
    then have "get_key st i \<noteq> Some k'" using False by auto
    then show "get_key st' (sk_id k') = Some k' \<longleftrightarrow> get_key st (sk_id k') = Some k'"
      unfolding get_key_def revoke_store(2) [OF assms] by auto
  qed
  then show ?thesis unfolding if_not_P [OF False] .
qed

lemma rotate_lookup:
  assumes "store_ok st" "rotate_key i t now ov st = Ok (Some k, st')"
  shows "get_by_token later st' s = (if s = t then live later k
    else if map_option sk_token (get_key st i) = Some s then None else get_by_token later st s)"
proof -
  note r = rotate_store [OF assms]
  obtain k0 where k0: "get_key st i = Some k0" "k = rotated_key t now ov k0"
    using conjunct1 [OF conjunct2 [OF r]] by (cases "get_key st i") simp_all
  have kid: "sk_id k0 = i" using store_okD(1) [OF assms(1)] k0(1) by (simp add: get_key_def)
  have ids: "get_key st' j = (if j = i then Some k else get_key st j)" for j using r by (simp add: get_key_def)
  consider "s = t" | "s \<noteq> t" "s = sk_token k0" | "s \<noteq> t" "s \<noteq> sk_token k0" by blast
  then show ?thesis
  proof cases
    case 1
    have "get_key st' i = Some k" by (simp add: ids)
    from get_by_token_live [OF conjunct1 [OF r] this] show ?thesis using 1 k0(2) by simp
  next
    case 2
    have "get_key st' (sk_id k') \<noteq> Some k'" if "sk_token k' = s" for k'
    proof
      assume "get_key st' (sk_id k') = Some k'"
      moreover have "k' \<noteq> k" using that 2(1) k0(2) by auto
      ultimately have "get_key st (sk_id k') = Some k'" "sk_id k' \<noteq> i"
        unfolding ids by (auto split: if_splits)
      then show False using token_unique [OF assms(1) k0(1)] that 2(2) by metis
    qed
    from get_by_token_none [OF conjunct1 [OF r] this] show ?thesis using 2 k0(1) by simp
  next
    case 3
    have "get_by_token later st' s = get_by_token later st s"
    proof (rule get_by_token_eqI [OF assms(1) conjunct1 [OF r]])
      fix k' :: stream_key assume k': "sk_token k' = s"
      then have "k' \<noteq> k" "k' \<noteq> k0" using 3 k0(2) by auto
      then show "get_key st' (sk_id k') = Some k' \<longleftrightarrow> get_key st (sk_id k') = Some k'"
        unfolding ids using k0(1) by auto
    qed
    then show ?thesis using 3 k0(1) by simp
  qed
qed

text \<open>
  C19. Calls that do not overlap keep the catalogue exact: whatever \<open>mint\<close>, \<open>revoke\<close> and \<open>rotate\<close> calls built
  the store, a token is found after a further call as the call promises.  The new key of a \<open>mint\<close> is found
  under its token until it expires, a \<open>revoke\<close> makes the token of the key unknown and says whether there was
  one, a \<open>rotate\<close> makes the old token unknown and the new one find the key it returned; no other token is
  affected.
\<close>

theorem stream_key_lifecycle:
  assumes "key_step\<^sup>*\<^sup>* store_new st"
  shows "(mint i t now spec st = Ok (k, st') \<and> get_key st i = None \<longrightarrow>
      get_by_token later st' s = (if s = t then live later k else get_by_token later st s)) \<and>
    (revoke i st = (b, st') \<longrightarrow> (b \<longleftrightarrow> get_key st i \<noteq> None) \<and> get_by_token later st' s =
      (if map_option sk_token (get_key st i) = Some s then None else get_by_token later st s)) \<and>
    (rotate_key i t now ov st = Ok (Some k, st') \<longrightarrow> get_by_token later st' s =
      (if s = t then live later k
       else if map_option sk_token (get_key st i) = Some s then None else get_by_token later st s))"
proof (intro conjI impI; (elim conjE)?)
  note ok = key_run.inv_reachable [OF assms]
  show "get_by_token later st' s = (if s = t then live later k else get_by_token later st s)"
    if "mint i t now spec st = Ok (k, st')" "get_key st i = None"
    by (rule mint_lookup [OF ok that(2,1)])
  show "b \<longleftrightarrow> get_key st i \<noteq> None" if "revoke i st = (b, st')"
    by (rule revoke_store(3) [OF ok that])
  show "get_by_token later st' s = (if map_option sk_token (get_key st i) = Some s then None else get_by_token later st s)"
    if "revoke i st = (b, st')"
    by (rule revoke_lookup [OF ok that])
  show "get_by_token later st' s = (if s = t then live later k
      else if map_option sk_token (get_key st i) = Some s then None else get_by_token later st s)"
    if "rotate_key i t now ov st = Ok (Some k, st')"
    by (rule rotate_lookup [OF ok that])
qed

definition sample_spec :: stream_key_spec where
  "sample_spec = \<lparr>ss_label = None, ss_broadcast = Some (ustr_of ''live/a''), ss_ttl_seconds = Some 60\<rparr>"

definition sample_store :: key_store where
  "sample_store = \<lparr>ks_by_id = [ustr_of ''i'' \<mapsto> minted_key (ustr_of ''i'') (ustr_of ''a'') 1000 sample_spec],
     ks_by_token = [ustr_of ''a'' \<mapsto> ustr_of ''i'']\<rparr>"

lemma sample_mint:
  "mint (ustr_of ''i'') (ustr_of ''a'') 1000 sample_spec store_new =
    Ok (minted_key (ustr_of ''i'') (ustr_of ''a'') 1000 sample_spec, sample_store)"
  by (simp add: mint_def store_new_def sample_store_def Let_def)

lemma sample_reached: "key_step\<^sup>*\<^sup>* store_new sample_store"
  by (rule r_into_rtranclp, rule step_mint [OF _ sample_mint]) (simp add: store_new_def)

theorem stream_key_lifecycle_witness:
  "get_by_token 1059 sample_store (ustr_of ''a'') \<noteq> None \<and>
   get_by_token 1060 sample_store (ustr_of ''a'') = None \<and>
   get_by_token 1001 (snd (revoke (ustr_of ''i'') sample_store)) (ustr_of ''a'') = None \<and>
   fst (revoke (ustr_of ''i'') sample_store)"
proof -
  obtain b st' where r: "revoke (ustr_of ''i'') sample_store = (b, st')" by fastforce
  have "(b \<longleftrightarrow> get_key sample_store (ustr_of ''i'') \<noteq> None) \<and> get_by_token 1001 st' (ustr_of ''a'') = None"
    using stream_key_lifecycle [OF sample_reached, where i = "ustr_of ''i''" and b = b and st' = st' and
        later = 1001 and s = "ustr_of ''a''"] r
    by (simp add: get_key_def sample_store_def)
  then show ?thesis
    using r by (simp add: get_key_def sample_store_def get_by_token_def is_expired_def minted_key_def sample_spec_def
        ttl_to_expiry_def sat_add_def)
qed

text \<open>
  The provider in front of the fallback: a live stream key decides a publish request on its own, and it
  allows exactly the broadcast it is scoped to (every broadcast when it has no scope), whatever the fallback
  would have said.  Everything else is the fallback's decision - other requests, unknown tokens, expired keys,
  and so a token whose key was just revoked or replaced.
\<close>

theorem stream_key_decision:
  assumes "key_step\<^sup>*\<^sup>* store_new st"
  shows "(get_key st i = Some k \<and> \<not> is_expired now k \<longrightarrow>
      (multi_key_check (get_by_token now st) fallback (Publish app (sk_token k) requested) = Allow \<longleftrightarrow>
        sk_broadcast k = None \<or> (requested \<noteq> None \<and> sk_broadcast k = requested))) \<and>
    ((\<forall>i k. get_key st i = Some k \<and> sk_token k = t \<longrightarrow> is_expired now k) \<longrightarrow>
      multi_key_check (get_by_token now st) fallback (Publish app t requested) =
        multi_key_delegate fallback (Publish app t requested)) \<and>
    (revoke i st = (True, st') \<and> get_key st i = Some k \<longrightarrow>
      multi_key_check (get_by_token now st') fallback (Publish app (sk_token k) requested) =
        multi_key_delegate fallback (Publish app (sk_token k) requested))"
proof (intro conjI impI; (elim conjE)?)
  note ok = key_run.inv_reachable [OF assms]
  show "multi_key_check (get_by_token now st) fallback (Publish app (sk_token k) requested) = Allow \<longleftrightarrow>
      sk_broadcast k = None \<or> (requested \<noteq> None \<and> sk_broadcast k = requested)"
    if "get_key st i = Some k" "\<not> is_expired now k"
    using keys.live_key_decides [OF ok _ that(2)] store_okD(1) [OF ok, of i k] that(1) by (simp add: get_key_def)
  show "multi_key_check (get_by_token now st) fallback (Publish app t requested) =
        multi_key_delegate fallback (Publish app t requested)"
    if "\<forall>i k. get_key st i = Some k \<and> sk_token k = t \<longrightarrow> is_expired now k"
    using keys.no_live_key_delegates [OF ok, of t now fallback app requested] that by blast
  show "multi_key_check (get_by_token now st') fallback (Publish app (sk_token k) requested) =
        multi_key_delegate fallback (Publish app (sk_token k) requested)"
    if "revoke i st = (True, st')" "get_key st i = Some k"
    using revoke_lookup [OF ok that(1), of now "sk_token k"] that(2) by (simp add: multi_key_check_def)
qed

theorem stream_key_decision_witness:
  "multi_key_check (get_by_token 1001 sample_store) (Some (\<lambda>_. Allow))
     (Publish (ustr_of ''live'') (ustr_of ''a'') (Some (ustr_of ''live/b''))) \<noteq> Allow"
proof -
  define k where "k = minted_key (ustr_of ''i'') (ustr_of ''a'') 1000 sample_spec"
  have k: "get_key sample_store (ustr_of ''i'') = Some k" "\<not> is_expired 1001 k" "sk_token k = ustr_of ''a''"
    "sk_broadcast k = Some (ustr_of ''live/a'')"
    by (simp_all add: k_def get_key_def sample_store_def is_expired_def minted_key_def sample_spec_def
        ttl_to_expiry_def sat_add_def)
  show ?thesis
    using stream_key_decision [OF sample_reached, where i = "ustr_of ''i''" and k = k and now = 1001 and
        fallback = "Some (\<lambda>_. Allow)" and app = "ustr_of ''live''" and requested = "Some (ustr_of ''live/b'')"] k
    by (simp add: ustr_of_def)
qed

text \<open>
  C3. In every interleaving of overlapping calls, with a generator that never repeats itself, no operation hits
  its collision panic, every lookup that finds a key finds one with the identifier the presented token was
  issued for, and an identifier that a \<open>revoke\<close> took out never comes back, so none of its tokens is accepted
  again, not even in the middle of a concurrent \<open>rotate\<close>.
\<close>

theorem stream_keys_interleaved:
  assumes "key_thread\<^sup>*\<^sup>* world_new w"
  shows "Panicked \<notin> set (kw_ops w) \<and>
    (Read_key t (Some k) \<in> set (kw_ops w) \<or> get_by_token now (kw_store w) t = Some k \<longrightarrow>
      kw_issued w t = Some (sk_id k)) \<and>
    (i \<in> kw_gone w \<longrightarrow> get_key (kw_store w) i = None \<and>
      (kw_issued w t = Some i \<longrightarrow> get_by_token now (kw_store w) t = None))"
proof -
  note W = key_world.inv_reachable [OF assms, unfolded world_ok_def]
  have ops: "op_ok (kw_issued w) op'" if "op' \<in> set (kw_ops w)" for op'
    using W that by (metis in_set_conv_nth)
  have look: "kw_issued w t = Some (sk_id k) \<and> ks_by_id (kw_store w) (sk_id k) = Some k"
    if "get_by_token now (kw_store w) t = Some k" for k
  proof -
    from that obtain j where "ks_by_token (kw_store w) t = Some j" "ks_by_id (kw_store w) j = Some k"
      by (auto simp: get_by_token_def split: option.splits if_splits)
    then show ?thesis using W by metis
  qed
  have gone: "ks_by_id (kw_store w) i = None" if "i \<in> kw_gone w" using W that by blast
  have "Panicked \<notin> set (kw_ops w)" using ops [of Panicked] by auto
  moreover have "kw_issued w t = Some (sk_id k)"
    if "Read_key t (Some k) \<in> set (kw_ops w) \<or> get_by_token now (kw_store w) t = Some k"
    using ops [of "Read_key t (Some k)"] look [of k] that by auto
  moreover have "get_by_token now (kw_store w) t = None" if "i \<in> kw_gone w" "kw_issued w t = Some i"
    using look that gone by (cases "get_by_token now (kw_store w) t") auto
  ultimately show ?thesis using gone unfolding get_key_def by blast
qed

text \<open>Runs of the threads by a schedule: the number of the call that does the next access.\<close>

definition do_access :: "u64 \<Rightarrow> nat \<Rightarrow> key_world \<Rightarrow> key_world" where
  "do_access now n w = (let r = key_access now (kw_ops w ! n) (kw_store w) in
     w\<lparr>kw_store := snd r, kw_ops := (kw_ops w)[n := fst r],
       kw_gone := gone_after (kw_ops w ! n) (kw_store w) (kw_gone w)\<rparr>)"

lemma do_access_steps:
  assumes "\<And>n. n \<in> set ns \<Longrightarrow> n < length (kw_ops w)"
  shows "key_thread\<^sup>*\<^sup>* w (fold (do_access now) ns w)"
  using assms
proof (induction ns arbitrary: w)
  case (Cons n ns)
  have "key_thread w (do_access now n w)"
    unfolding do_access_def Let_def
    by (rule access [where now = now]) (use Cons.prems in auto)
  moreover have "length (kw_ops (do_access now n w)) = length (kw_ops w)"
    by (simp add: do_access_def Let_def)
  then have "key_thread\<^sup>*\<^sup>* (do_access now n w) (fold (do_access now) ns (do_access now n w))"
    using Cons.prems by (intro Cons.IH) auto
  ultimately show ?case by (simp add: converse_rtranclp_into_rtranclp)
qed simp

definition race_calls :: key_world where
  "race_calls = (let a = ustr_of ''a''; b = ustr_of ''b''; c = ustr_of ''c''; i = ustr_of ''i'' in
     \<lparr>kw_store = store_new, kw_ops = [Mint_token (minted_key i a 1000 sample_spec), Rotate_entry i b 1001 None,
        Rotate_entry i c 1001 None],
      kw_issued = [a \<mapsto> i, b \<mapsto> i, c \<mapsto> i], kw_gone = {}\<rparr>)"

lemma race_calls_reached: "key_thread\<^sup>*\<^sup>* world_new race_calls"
proof -
  let ?a = "ustr_of ''a''" and ?b = "ustr_of ''b''" and ?c = "ustr_of ''c''" and ?i = "ustr_of ''i''"
  let ?m = "Mint_token (minted_key ?i ?a 1000 sample_spec)"
  let ?w1 = "\<lparr>kw_store = store_new, kw_ops = [?m], kw_issued = [?a \<mapsto> ?i], kw_gone = {}\<rparr>"
  let ?w2 = "\<lparr>kw_store = store_new, kw_ops = [?m, Rotate_entry ?i ?b 1001 None],
    kw_issued = [?a \<mapsto> ?i, ?b \<mapsto> ?i], kw_gone = {}\<rparr>"
  have "key_thread world_new ?w1"
    using call_mint [of ?i world_new ?a 1000 sample_spec] by (simp add: world_new_def)
  moreover have "key_thread ?w1 ?w2"
    using call_rotate [of ?b ?w1 ?i 1001 None] by (simp add: ustr_of_def)
  moreover have "key_thread ?w2 race_calls"
    using call_rotate [of ?c ?w2 ?i 1001 None] by (simp add: ustr_of_def race_calls_def Let_def)
  ultimately show ?thesis
    by (meson converse_rtranclp_into_rtranclp rtranclp.rtrancl_refl)
qed

definition race_end :: key_world where
  "race_end = fold (do_access 1001) [0, 0, 1, 2, 2, 2, 1, 1] race_calls"

lemma race_end_reached: "key_thread\<^sup>*\<^sup>* world_new race_end"
  unfolding race_end_def
  by (rule rtranclp_trans [OF race_calls_reached do_access_steps]) (auto simp: race_calls_def Let_def)

fun op_returned :: "key_op \<Rightarrow> bool" where
  "op_returned (Minted k) = True"
| "op_returned (Revoked b) = True"
| "op_returned (Rotated r) = True"
| "op_returned (Read_key t r) = True"
| "op_returned _ = False"

definition race_key :: stream_key where
  "race_key = rotated_key (ustr_of ''c'') 1001 None (rotated_key (ustr_of ''b'') 1001 None
     (minted_key (ustr_of ''i'') (ustr_of ''a'') 1000 sample_spec))"

lemma race_end_world:
  "list_all op_returned (kw_ops race_end) \<and> ks_by_id (kw_store race_end) = [ustr_of ''i'' \<mapsto> race_key] \<and>
   ks_by_token (kw_store race_end) (ustr_of ''b'') = Some (ustr_of ''i'')"
  by (simp add: race_end_def race_calls_def do_access_def store_new_def Let_def ustr_of_def race_key_def
      numeral_2_eq_2)

lemma race_end_value:
  "get_by_token 1001 (kw_store race_end) (ustr_of ''b'') = Some race_key \<and> sk_token race_key = ustr_of ''c''"
proof -
  have "\<not> is_expired 1001 race_key"
    by (simp add: race_key_def rotated_key_def minted_key_def is_expired_def sample_spec_def ttl_to_expiry_def sat_add_def)
  then show ?thesis using race_end_world by (simp add: get_by_token_def race_key_def)
qed

theorem stream_keys_interleaved_witness:
  "Panicked \<notin> set (kw_ops race_end) \<and>
   (map_option sk_id (get_by_token 1001 (kw_store race_end) (ustr_of ''b'')) = kw_issued race_end (ustr_of ''b''))"
  using stream_keys_interleaved [OF race_end_reached, of "ustr_of ''b''" race_key 1001] race_end_value by simp

text \<open>
  Two overlapping \<open>rotate\<close> calls on one identifier can both return and leave a superseded token in the
  reverse index: the catalogue then accepts a token that no listed key carries, and that token outlives every
  later \<open>rotate\<close> of the key (which removes only the token the key carries).
\<close>

theorem rotate_leaves_stale_token:
  "\<exists>w t k. key_thread\<^sup>*\<^sup>* world_new w \<and> list_all op_returned (kw_ops w) \<and>
     get_by_token 1001 (kw_store w) t = Some k \<and> sk_token k \<noteq> t \<and> t \<notin> sk_token ` list_keys (kw_store w)"
proof -
  have "list_keys (kw_store race_end) = {race_key}" using race_end_world by (simp add: list_keys_def)
  then show ?thesis
    using race_end_reached race_end_world race_end_value
    by (intro exI [of _ race_end] exI [of _ "ustr_of ''b''"] exI [of _ race_key]) (simp add: ustr_of_def)
qed

end
