(* ===== verification/Webhook.thy ===== *)
theory Webhook
  imports Auth HashMap
begin

text \<open>
  The webhook authentication provider, \<open>lvqr-auth/src/webhook_provider.rs\<close>: decisions cached with their
  expiry, the map of contexts waiting for a decision, and the background task that drains it.  The clock
  counts from an arbitrary instant.  What the webhook answers, what \<open>Url::parse\<close> says and the iteration order
  of the maps are arguments.  Threads interleave at each access to shared state; a lock poisoned by a panic
  is not modelled (nothing panics while it holds one).
\<close>

section \<open>Configuration and data\<close>

record webhook_config =
  wc_url :: ustr
  wc_allow_ttl :: nat
  wc_deny_ttl :: nat
  wc_fetch_timeout :: nat
  wc_capacity :: nat

definition seconds :: "nat \<Rightarrow> nat" where
  "seconds n = n * 1000000000"

definition with_url :: "ustr \<Rightarrow> webhook_config" where
  "with_url url = \<lparr>wc_url = url, wc_allow_ttl = seconds 60, wc_deny_ttl = seconds 10,
     wc_fetch_timeout = seconds 5, wc_capacity = 4096\<rparr>"

datatype cache_key =
    KPublish ustr ustr "ustr option"
  | KSubscribe "ustr option" ustr
  | KAdmin ustr

fun key_from_ctx :: "auth_context \<Rightarrow> cache_key" where
  "key_from_ctx (Publish app key broadcast) = KPublish app key broadcast"
| "key_from_ctx (Subscribe token broadcast) = KSubscribe token broadcast"
| "key_from_ctx (AdminAccess token) = KAdmin token"

record cache_entry =
  ce_decision :: auth_decision
  ce_expires_at :: nat

type_synonym decision_cache = "(cache_key, cache_entry) hash_map"
type_synonym pending_map = "(cache_key, auth_context) hash_map"

datatype auth_error = InvalidConfig ustr

text \<open>\<open>url_scheme\<close> is the scheme \<open>Url::parse\<close> finds, or its error.\<close>

definition validate_webhook_config :: "(ustr \<Rightarrow> (ustr, ustr) outcome) \<Rightarrow> webhook_config \<Rightarrow> (unit, auth_error) outcome" where
  "validate_webhook_config url_scheme cfg =
     (if wc_url cfg = [] then Err (InvalidConfig (ustr_of ''webhook URL is empty''))
      else case url_scheme (wc_url cfg) of
        Err e \<Rightarrow> Err (InvalidConfig (ustr_of ''webhook URL parse failed: '' @ e))
      | Panic \<Rightarrow> Panic
      | Ok scheme \<Rightarrow>
          if scheme \<noteq> ustr_of ''http'' \<and> scheme \<noteq> ustr_of ''https''
          then Err (InvalidConfig (ustr_of ''webhook URL must be http(s), got scheme '' @ scheme))
          else if wc_allow_ttl cfg < seconds 1
          then Err (InvalidConfig (ustr_of ''allow_cache_ttl must be >= 1s; otherwise the webhook gets hammered per request''))
          else if wc_deny_ttl cfg = 0
          then Err (InvalidConfig (ustr_of ''deny_cache_ttl must be > 0; a failing webhook would loop forever''))
          else if wc_fetch_timeout cfg = 0
          then Err (InvalidConfig (ustr_of ''fetch_timeout must be > 0''))
          else Ok ())"

datatype webhook_body =
    BPublish ustr ustr "ustr option"
  | BSubscribe "ustr option" ustr
  | BAdmin ustr

fun body_from_ctx :: "auth_context \<Rightarrow> webhook_body" where
  "body_from_ctx (Publish app key broadcast) = BPublish app key broadcast"
| "body_from_ctx (Subscribe token broadcast) = BSubscribe token broadcast"
| "body_from_ctx (AdminAccess token) = BAdmin token"

text \<open>What comes back from a POST: an error of the transport, of the status, of the body, or a response.\<close>

datatype webhook_reply =
    SendFailed ustr
  | StatusFailed ustr
  | ParseFailed ustr
  | Response bool "ustr option"

fun post_decision :: "webhook_reply \<Rightarrow> (auth_decision, ustr) outcome" where
  "post_decision (SendFailed e) = Err (ustr_of ''send: '' @ e)"
| "post_decision (StatusFailed e) = Err (ustr_of ''status: '' @ e)"
| "post_decision (ParseFailed e) = Err (ustr_of ''parse: '' @ e)"
| "post_decision (Response allow reason) = Ok (if allow then Allow else
     Deny (case reason of Some r \<Rightarrow> r | None \<Rightarrow> ustr_of ''denied by webhook''))"

definition fetched_decision :: "webhook_reply \<Rightarrow> auth_decision" where
  "fetched_decision reply = (case post_decision reply of Ok d \<Rightarrow> d
     | Err e \<Rightarrow> Deny (ustr_of ''webhook call failed: '' @ e)
     | Panic \<Rightarrow> Deny [])"

definition ttl_of :: "webhook_config \<Rightarrow> auth_decision \<Rightarrow> nat" where
  "ttl_of cfg d = (if is_allow d then wc_allow_ttl cfg else wc_deny_ttl cfg)"

definition entry_of :: "webhook_config \<Rightarrow> webhook_reply \<Rightarrow> nat \<Rightarrow> cache_entry" where
  "entry_of cfg reply now = (let decision = fetched_decision reply in
     \<lparr>ce_decision = decision, ce_expires_at = now + ttl_of cfg decision\<rparr>)"

text \<open>\<open>min_by_key\<close> returns the first of the smallest entries.\<close>

fun oldest_entry :: "(cache_key \<times> cache_entry) list \<Rightarrow> cache_key option" where
  "oldest_entry [] = None"
| "oldest_entry [(k, e)] = Some k"
| "oldest_entry ((k, e) # (k', e') # rest) =
     (if ce_expires_at e \<le> ce_expires_at e' then oldest_entry ((k, e) # rest) else oldest_entry ((k', e') # rest))"

definition evict_if_full :: "(cache_key, cache_entry) hash_order \<Rightarrow> nat \<Rightarrow> decision_cache \<Rightarrow> decision_cache" where
  "evict_if_full order cap cache = (if length cache < cap then cache else
     case oldest_entry (order cache) of Some k \<Rightarrow> hm_remove k cache | None \<Rightarrow> cache)"

definition store_decision :: "(cache_key, cache_entry) hash_order \<Rightarrow> nat \<Rightarrow> cache_key \<Rightarrow> cache_entry \<Rightarrow> decision_cache \<Rightarrow> decision_cache" where
  "store_decision order cap key entry cache = hm_insert key entry (evict_if_full order cap cache)"

section \<open>A check and the fetcher, access by access\<close>

definition cache_miss :: auth_decision where
  "cache_miss = Deny (ustr_of ''webhook cache miss; decision pending'')"

definition cached_decision :: "nat \<Rightarrow> decision_cache \<Rightarrow> auth_context \<Rightarrow> auth_decision option" where
  "cached_decision now cache ctx = (case map_of cache (key_from_ctx ctx) of
     Some entry \<Rightarrow> if now < ce_expires_at entry then Some (ce_decision entry) else None
   | None \<Rightarrow> None)"

definition enqueue :: "auth_context \<Rightarrow> pending_map \<Rightarrow> pending_map" where
  "enqueue ctx pending = (if map_of pending (key_from_ctx ctx) = None
     then hm_insert (key_from_ctx ctx) ctx pending else pending)"

datatype check_pc =
    Check_read auth_context
  | Check_enqueue auth_context
  | Check_notify auth_context
  | Check_returned auth_context auth_decision nat

datatype fetch_pc =
    F_wait
  | F_take
  | F_batch "(cache_key \<times> auth_context) list"
  | F_store cache_key cache_entry "(cache_key \<times> auth_context) list"

record webhook =
  wk_now :: nat
  wk_cache :: decision_cache
  wk_pending :: pending_map
  wk_permit :: bool
  wk_checks :: "check_pc list"
  wk_fetcher :: fetch_pc
  wk_log :: "(auth_context \<times> webhook_reply \<times> nat) list"

definition webhook_new :: webhook where
  "webhook_new = \<lparr>wk_now = 0, wk_cache = [], wk_pending = [], wk_permit = False, wk_checks = [],
     wk_fetcher = F_wait, wk_log = []\<rparr>"

fun check_access :: "check_pc \<Rightarrow> webhook \<Rightarrow> check_pc \<times> webhook" where
  "check_access (Check_read ctx) w =
     (case cached_decision (wk_now w) (wk_cache w) ctx of
        Some d \<Rightarrow> Check_returned ctx d (wk_now w) | None \<Rightarrow> Check_enqueue ctx, w)"
| "check_access (Check_enqueue ctx) w = (Check_notify ctx, w\<lparr>wk_pending := enqueue ctx (wk_pending w)\<rparr>)"
| "check_access (Check_notify ctx) w = (Check_returned ctx cache_miss (wk_now w), w\<lparr>wk_permit := True\<rparr>)"
| "check_access (Check_returned ctx d t) w = (Check_returned ctx d t, w)"

inductive client_step :: "webhook \<Rightarrow> webhook \<Rightarrow> bool" where
  tick: "wk_now w \<le> t \<Longrightarrow> client_step w (w\<lparr>wk_now := t\<rparr>)"
| call: "client_step w (w\<lparr>wk_checks := wk_checks w @ [Check_read ctx]\<rparr>)"
| check: "i < length (wk_checks w) \<Longrightarrow> check_access (wk_checks w ! i) w = (pc, w') \<Longrightarrow>
     client_step w (w'\<lparr>wk_checks := (wk_checks w)[i := pc]\<rparr>)"

inductive fetch_step :: "webhook_config \<Rightarrow> webhook \<Rightarrow> webhook \<Rightarrow> bool" for cfg where
  fetch_wake: "wk_fetcher w = F_wait \<Longrightarrow> wk_permit w \<Longrightarrow>
     fetch_step cfg w (w\<lparr>wk_permit := False, wk_fetcher := F_take\<rparr>)"
| fetch_take: "wk_fetcher w = F_take \<Longrightarrow> mset batch = mset (wk_pending w) \<Longrightarrow>
     fetch_step cfg w (w\<lparr>wk_pending := [], wk_fetcher := F_batch batch\<rparr>)"
| fetch_reply: "wk_fetcher w = F_batch ((key, ctx) # rest) \<Longrightarrow>
     fetch_step cfg w (w\<lparr>wk_fetcher := F_store key (entry_of cfg reply (wk_now w)) rest,
       wk_log := wk_log w @ [(ctx, reply, wk_now w)]\<rparr>)"
| fetch_store: "wk_fetcher w = F_store key entry rest \<Longrightarrow> order_ok order \<Longrightarrow>
     fetch_step cfg w (w\<lparr>wk_cache := store_decision order (wc_capacity cfg) key entry (wk_cache w),
       wk_fetcher := F_batch rest\<rparr>)"
| fetch_loop: "wk_fetcher w = F_batch [] \<Longrightarrow> fetch_step cfg w (w\<lparr>wk_fetcher := F_wait\<rparr>)"

inductive_cases client_stepE: "client_step w w'"
inductive_cases fetch_stepE: "fetch_step cfg w w'"

definition webhook_step :: "webhook_config \<Rightarrow> webhook \<Rightarrow> webhook \<Rightarrow> bool" where
  "webhook_step cfg w w' \<longleftrightarrow> client_step w w' \<or> fetch_step cfg w w'"

section \<open>The cache\<close>

lemma key_from_ctx_inj: "key_from_ctx c = key_from_ctx c' \<longleftrightarrow> c = c'"
  by (cases c; cases c') auto

lemma body_decides_key: "body_from_ctx c = body_from_ctx c' \<longleftrightarrow> key_from_ctx c = key_from_ctx c'"
  by (cases c; cases c') auto

lemma oldest_entry_min:
  "xs \<noteq> [] \<Longrightarrow> \<exists>k e. oldest_entry xs = Some k \<and> (k, e) \<in> set xs \<and> (\<forall>(k', e') \<in> set xs. ce_expires_at e \<le> ce_expires_at e')"
proof (induction xs rule: oldest_entry.induct)
  case (3 k e k' e' rest)
  show ?case
  proof (cases "ce_expires_at e \<le> ce_expires_at e'")
    case True
    then show ?thesis using "3.IH"(1) by fastforce
  next
    case False
    then show ?thesis using "3.IH"(2) by fastforce
  qed
qed auto

lemma length_hm_insert: "length (hm_insert k v m) = (if k \<in> fst ` set m then length m else Suc (length m))"
  unfolding hm_insert_def by (induction m) auto

lemma length_hm_remove: "hm_ok m \<Longrightarrow> (k, v) \<in> set m \<Longrightarrow> Suc (length (hm_remove k m)) = length m"
proof (induction m)
  case (Cons x m)
  show ?case
  proof (cases "fst x = k")
    case True
    then have "k \<notin> fst ` set m" using Cons.prems by auto
    then show ?thesis using True by (simp add: hm_remove_def AList.delete_eq filter_id_conv image_iff split_beta)
  next
    case False
    then show ?thesis using Cons by (auto simp: hm_remove_def AList.delete_eq)
  qed
qed simp

lemma store_decision_bound:
  assumes "hm_ok cache" "length cache \<le> cap" "0 < cap" "order_ok order"
  shows "hm_ok (store_decision order cap key entry cache)"
    and "length (store_decision order cap key entry cache) \<le> cap"
    and "map_of (store_decision order cap key entry cache) k = Some e \<Longrightarrow>
      k = key \<and> e = entry \<or> map_of cache k = Some e"
    and "map_of (store_decision order cap key entry cache) key = Some entry"
proof -
  have "hm_ok (evict_if_full order cap cache) \<and> length (evict_if_full order cap cache) < cap \<and>
    (map_of (evict_if_full order cap cache) k = Some e \<longrightarrow> map_of cache k = Some e)"
  proof (cases "length cache < cap")
    case True
    then show ?thesis using assms by (simp add: evict_if_full_def)
  next
    case False
    then have ne: "order cache \<noteq> []" using assms(2-4) order_set [OF assms(4), of cache] by auto
    from oldest_entry_min [OF ne] obtain k' e' where "oldest_entry (order cache) = Some k'" "(k', e') \<in> set cache"
      using order_set [OF assms(4)] by blast
    then show ?thesis
      using False assms length_hm_remove [of cache k' e'] by (auto simp: evict_if_full_def split: if_splits)
  qed
  then show "hm_ok (store_decision order cap key entry cache)"
    "length (store_decision order cap key entry cache) \<le> cap"
    "map_of (store_decision order cap key entry cache) k = Some e \<Longrightarrow> k = key \<and> e = entry \<or> map_of cache k = Some e"
    "map_of (store_decision order cap key entry cache) key = Some entry"
    by (auto simp: store_decision_def length_hm_insert split: if_splits)
qed

section \<open>The invariant\<close>

text \<open>An entry rests on a reply of the webhook to a request for its key.\<close>

definition backed :: "webhook_config \<Rightarrow> webhook \<Rightarrow> cache_key \<Rightarrow> cache_entry \<Rightarrow> bool" where
  "backed cfg w key e \<longleftrightarrow> (\<exists>ctx reply s. (ctx, reply, s) \<in> set (wk_log w) \<and> s \<le> wk_now w \<and>
     key = key_from_ctx ctx \<and> e = entry_of cfg reply s)"

fun fetcher_ok :: "webhook_config \<Rightarrow> webhook \<Rightarrow> fetch_pc \<Rightarrow> bool" where
  "fetcher_ok cfg w (F_batch b) = (distinct (map fst b) \<and> list_all (\<lambda>(k, c). k = key_from_ctx c) b)"
| "fetcher_ok cfg w (F_store key e b) =
     (backed cfg w key e \<and> distinct (map fst b) \<and> list_all (\<lambda>(k, c). k = key_from_ctx c) b)"
| "fetcher_ok cfg w _ = True"

fun check_ok :: "webhook_config \<Rightarrow> webhook \<Rightarrow> check_pc \<Rightarrow> bool" where
  "check_ok cfg w (Check_returned ctx d t) = (d = cache_miss \<or>
     (\<exists>reply s. (ctx, reply, s) \<in> set (wk_log w) \<and> d = fetched_decision reply \<and> s \<le> t \<and> t < s + ttl_of cfg d))"
| "check_ok cfg w _ = True"

fun notifying :: "check_pc \<Rightarrow> bool" where
  "notifying (Check_notify ctx) = True"
| "notifying _ = False"

definition webhook_ok :: "webhook_config \<Rightarrow> webhook \<Rightarrow> bool" where
  "webhook_ok cfg w \<longleftrightarrow> hm_ok (wk_cache w) \<and> length (wk_cache w) \<le> wc_capacity cfg \<and>
     (\<forall>k e. map_of (wk_cache w) k = Some e \<longrightarrow> backed cfg w k e) \<and>
     hm_ok (wk_pending w) \<and> list_all (\<lambda>(k, c). k = key_from_ctx c) (wk_pending w) \<and>
     fetcher_ok cfg w (wk_fetcher w) \<and> list_all (check_ok cfg w) (wk_checks w) \<and>
     (wk_pending w = [] \<or> wk_permit w \<or> wk_fetcher w = F_take \<or> list_ex notifying (wk_checks w))"

lemma backed_mono:
  "backed cfg w k e \<Longrightarrow> set (wk_log w) \<subseteq> set (wk_log w') \<Longrightarrow> wk_now w \<le> wk_now w' \<Longrightarrow> backed cfg w' k e"
  unfolding backed_def by (elim exE conjE, intro exI conjI) (auto intro: order_trans)

lemma fetcher_ok_mono:
  "fetcher_ok cfg w pc \<Longrightarrow> set (wk_log w) \<subseteq> set (wk_log w') \<Longrightarrow> wk_now w \<le> wk_now w' \<Longrightarrow> fetcher_ok cfg w' pc"
  by (cases pc) (auto intro: backed_mono)

lemma check_ok_mono:
  "check_ok cfg w pc \<Longrightarrow> set (wk_log w) \<subseteq> set (wk_log w') \<Longrightarrow> check_ok cfg w' pc"
  by (cases pc) auto

lemma checks_ok_mono:
  "list_all (check_ok cfg w) pcs \<Longrightarrow> set (wk_log w) \<subseteq> set (wk_log w') \<Longrightarrow> list_all (check_ok cfg w') pcs"
  by (auto simp: list_all_iff intro: check_ok_mono)

lemma enqueue_facts:
  assumes "hm_ok p" "list_all (\<lambda>(k, c). k = key_from_ctx c) p"
  shows "hm_ok (enqueue ctx p)" and "list_all (\<lambda>(k, c). k = key_from_ctx c) (enqueue ctx p)"
    and "fst ` set (enqueue ctx p) = insert (key_from_ctx ctx) (fst ` set p)"
proof -
  have s: "set (hm_insert k v p) \<subseteq> insert (k, v) (set p)" for k v
    unfolding hm_insert_def by (induction p) auto
  show "hm_ok (enqueue ctx p)" using assms by (simp add: enqueue_def)
  show "list_all (\<lambda>(k, c). k = key_from_ctx c) (enqueue ctx p)"
    using assms(2) s [of "key_from_ctx ctx" ctx] by (auto simp: enqueue_def list_all_iff)
  show "fst ` set (enqueue ctx p) = insert (key_from_ctx ctx) (fst ` set p)"
    by (auto simp: enqueue_def map_of_eq_None_iff hm_insert_def dom_update)
qed

lemma list_all_update: "list_all P xs \<Longrightarrow> P y \<Longrightarrow> list_all P (xs[i := y])"
  using set_update_subset_insert [of xs i y] by (auto simp: list_all_iff)

lemma list_ex_update:
  "list_ex P xs \<Longrightarrow> i < length xs \<Longrightarrow> \<not> P (xs ! i) \<or> P y \<Longrightarrow> list_ex P (xs[i := y])"
  unfolding list_ex_iff by (metis in_set_conv_nth length_list_update nth_list_update)

lemma check_keeps:
  assumes w: "webhook_ok cfg w" and i: "i < length (wk_checks w)" and ac: "check_access (wk_checks w ! i) w = (pc, w1)"
  shows "webhook_ok cfg (w1\<lparr>wk_checks := (wk_checks w)[i := pc]\<rparr>)"
proof -
  note W = w [unfolded webhook_ok_def]
  have all: "list_all (check_ok cfg w) (wk_checks w)" using W by blast
  have wake: "wk_pending w = [] \<or> wk_permit w \<or> wk_fetcher w = F_take \<or> list_ex notifying ((wk_checks w)[i := pc])"
    if "\<not> notifying (wk_checks w ! i) \<or> notifying pc"
    using W list_ex_update [OF _ i that] by blast
  show ?thesis
  proof (cases "wk_checks w ! i")
    case (Check_read ctx)
    then have w1: "w1 = w" and pc: "pc = (case cached_decision (wk_now w) (wk_cache w) ctx of
        Some d \<Rightarrow> Check_returned ctx d (wk_now w) | None \<Rightarrow> Check_enqueue ctx)" using ac by auto
    have pok: "check_ok cfg w pc"
    proof (cases "cached_decision (wk_now w) (wk_cache w) ctx")
      case (Some d)
      then obtain e where "map_of (wk_cache w) (key_from_ctx ctx) = Some e" "wk_now w < ce_expires_at e" "d = ce_decision e"
        by (auto simp: cached_decision_def split: option.splits if_splits)
      then have "backed cfg w (key_from_ctx ctx) e" using W by blast
      then show ?thesis using pc Some \<open>wk_now w < ce_expires_at e\<close> \<open>d = ce_decision e\<close>
        by (auto simp: backed_def entry_of_def Let_def key_from_ctx_inj)
    qed (simp add: pc)
    have "list_all (check_ok cfg w) ((wk_checks w)[i := pc])" by (rule list_all_update [OF all pok])
    then have "list_all (check_ok cfg (w\<lparr>wk_checks := (wk_checks w)[i := pc]\<rparr>)) ((wk_checks w)[i := pc])"
      by (rule checks_ok_mono) simp
    then show ?thesis
      using W wake Check_read unfolding w1 webhook_ok_def backed_def
      by (cases "wk_fetcher w") (simp_all add: backed_def)
  next
    case (Check_enqueue ctx)
    then have w1: "w1 = w\<lparr>wk_pending := enqueue ctx (wk_pending w)\<rparr>" and pc: "pc = Check_notify ctx" using ac by simp_all
    have "list_all (check_ok cfg w) ((wk_checks w)[i := pc])" by (rule list_all_update [OF all]) (simp add: pc)
    then have c: "list_all (check_ok cfg (w1\<lparr>wk_checks := (wk_checks w)[i := pc]\<rparr>)) ((wk_checks w)[i := pc])"
      by (rule checks_ok_mono) (simp add: w1)
    have n: "list_ex notifying ((wk_checks w)[i := pc])"
      using i pc by (auto simp: list_ex_iff intro!: bexI [of _ pc] set_update_memI)
    show ?thesis
      using W c n enqueue_facts [of "wk_pending w" ctx] unfolding w1 webhook_ok_def backed_def
      by (cases "wk_fetcher w") (simp_all add: backed_def)
  next
    case (Check_notify ctx)
    then have w1: "w1 = w\<lparr>wk_permit := True\<rparr>" and pc: "pc = Check_returned ctx cache_miss (wk_now w)" using ac by simp_all
    have "list_all (check_ok cfg w) ((wk_checks w)[i := pc])" by (rule list_all_update [OF all]) (simp add: pc)
    then have c: "list_all (check_ok cfg (w1\<lparr>wk_checks := (wk_checks w)[i := pc]\<rparr>)) ((wk_checks w)[i := pc])"
      by (rule checks_ok_mono) (simp add: w1)
    show ?thesis
      using W c unfolding w1 webhook_ok_def backed_def
      by (cases "wk_fetcher w") (simp_all add: backed_def)
  next
    case (Check_returned ctx d t)
    then have "w1 = w" "pc = wk_checks w ! i" using ac by simp_all
    then show ?thesis using w by simp
  qed
qed

lemma webhook_okI:
  assumes "hm_ok (wk_cache w)" "length (wk_cache w) \<le> wc_capacity cfg"
    "\<And>k e. map_of (wk_cache w) k = Some e \<Longrightarrow> backed cfg w k e"
    "hm_ok (wk_pending w)" "list_all (\<lambda>(k, c). k = key_from_ctx c) (wk_pending w)"
    "fetcher_ok cfg w (wk_fetcher w)" "list_all (check_ok cfg w) (wk_checks w)"
    "wk_pending w = [] \<or> wk_permit w \<or> wk_fetcher w = F_take \<or> list_ex notifying (wk_checks w)"
  shows "webhook_ok cfg w"
  using assms unfolding webhook_ok_def by blast

lemma webhook_okD:
  assumes "webhook_ok cfg w"
  shows "hm_ok (wk_cache w)" "length (wk_cache w) \<le> wc_capacity cfg"
    "map_of (wk_cache w) k = Some e \<Longrightarrow> backed cfg w k e"
    "hm_ok (wk_pending w)" "list_all (\<lambda>(k, c). k = key_from_ctx c) (wk_pending w)"
    "fetcher_ok cfg w (wk_fetcher w)" "list_all (check_ok cfg w) (wk_checks w)"
    "wk_pending w = [] \<or> wk_permit w \<or> wk_fetcher w = F_take \<or> list_ex notifying (wk_checks w)"
  using assms unfolding webhook_ok_def by blast+

lemma fetch_keeps:
  assumes w: "webhook_ok cfg w" and st: "fetch_step cfg w w'" and cap: "0 < wc_capacity cfg"
  shows "webhook_ok cfg w'"
proof -
  note W = webhook_okD [OF w]
  have grow: "set (wk_log w) \<subseteq> set (wk_log w')" and same_now: "wk_now w' = wk_now w" and chk: "wk_checks w' = wk_checks w"
    using st by (auto elim: fetch_stepE)
  have all: "list_all (check_ok cfg w') (wk_checks w')"
    unfolding chk by (rule checks_ok_mono [OF W(7) grow])
  have bk: "backed cfg w' k e" if "backed cfg w k e" for k e
    by (rule backed_mono [OF that grow]) (simp add: same_now)
  from st show ?thesis
  proof cases
    case fetch_wake
    show ?thesis by (rule webhook_okI) (use W all bk fetch_wake in simp_all)
  next
    case (fetch_take batch)
    have "set batch = set (wk_pending w)" by (metis fetch_take(3) set_mset_mset)
    moreover have "distinct (map fst batch)"
      using W(4) fetch_take(3) by (metis mset_eq_imp_distinct_iff mset_map)
    ultimately have "fetcher_ok cfg w' (F_batch batch)" using W(5) by (simp add: list_all_iff)
    then show ?thesis by (intro webhook_okI) (use W all bk fetch_take in simp_all)
  next
    case (fetch_reply key ctx rest reply)
    have "key = key_from_ctx ctx" "distinct (map fst rest)" "list_all (\<lambda>(k, c). k = key_from_ctx c) rest"
      using W(6) fetch_reply(2) by simp_all
    then have f: "fetcher_ok cfg w' (F_store key (entry_of cfg reply (wk_now w)) rest)"
      using fetch_reply(1) by (auto simp: backed_def)
    have flds: "wk_cache w' = wk_cache w" "wk_pending w' = wk_pending w" "wk_permit w' = wk_permit w"
      "wk_fetcher w' = F_store key (entry_of cfg reply (wk_now w)) rest"
      using fetch_reply(1) by simp_all
    show ?thesis
      by (rule webhook_okI) (use W(1-5) W(8) f bk all fetch_reply(2) chk in \<open>simp_all add: flds\<close>)
  next
    case (fetch_store key entry rest order)
    note s = store_decision_bound [OF W(1,2) cap fetch_store(3)]
    have flds: "wk_cache w' = store_decision order (wc_capacity cfg) key entry (wk_cache w)" "wk_pending w' = wk_pending w"
      "wk_permit w' = wk_permit w" "wk_fetcher w' = F_batch rest"
      using fetch_store(1) by simp_all
    have bke: "backed cfg w key entry" and restok: "fetcher_ok cfg w' (F_batch rest)" using W(6) fetch_store(2) by simp_all
    have "backed cfg w' k e" if "map_of (wk_cache w') k = Some e" for k e
      using s(3) [of key entry k e] that bke W(3) bk unfolding flds by blast
    then show ?thesis
      by (intro webhook_okI) (use W(4,5) W(8) s(1,2) restok all fetch_store(2) chk in \<open>simp_all add: flds\<close>)
  next
    case fetch_loop
    show ?thesis by (rule webhook_okI) (use W all bk fetch_loop in simp_all)
  qed
qed

lemma client_keeps:
  assumes w: "webhook_ok cfg w" and st: "client_step w w'"
  shows "webhook_ok cfg w'"
  using st
proof cases
  case (tick t)
  note W = w [unfolded webhook_ok_def]
  have "\<forall>k e. map_of (wk_cache w) k = Some e \<longrightarrow> backed cfg w' k e" "fetcher_ok cfg w' (wk_fetcher w)"
    "list_all (check_ok cfg w') (wk_checks w)"
    using W tick backed_mono [of cfg w _ _ w'] fetcher_ok_mono [of cfg w _ w'] checks_ok_mono [of cfg w _ w'] by simp_all
  then show ?thesis using W tick unfolding webhook_ok_def by simp
next
  case (call ctx)
  note W = w [unfolded webhook_ok_def]
  have "\<forall>k e. map_of (wk_cache w) k = Some e \<longrightarrow> backed cfg w' k e" "fetcher_ok cfg w' (wk_fetcher w)"
    "list_all (check_ok cfg w') (wk_checks w)"
    using W call backed_mono [of cfg w _ _ w'] fetcher_ok_mono [of cfg w _ w'] checks_ok_mono [of cfg w _ w'] by simp_all
  then show ?thesis using W call unfolding webhook_ok_def by auto
next
  case (check i pc w1)
  then show ?thesis using check_keeps [OF w] by simp
qed

lemma webhook_ok_new: "webhook_ok cfg webhook_new"
  by (simp add: webhook_ok_def webhook_new_def)

lemma webhook_reachable:
  assumes "0 < wc_capacity cfg" and "(webhook_step cfg)\<^sup>*\<^sup>* webhook_new w"
  shows "webhook_ok cfg w"
  using assms(2)
proof (induction rule: rtranclp_induct)
  case (step w w')
  then show ?case using client_keeps fetch_keeps assms(1) unfolding webhook_step_def by blast
qed (rule webhook_ok_new)

section \<open>Safety\<close>

lemma fetched_allow: "fetched_decision reply = Allow \<longleftrightarrow> (\<exists>reason. reply = Response True reason)"
  by (cases reply) (auto simp: fetched_decision_def)

text \<open>
  C5. The cached provider only says what the webhook said: whenever a check returns \<open>Allow\<close>, the webhook
  answered a request for this very context with \<open>allow\<close> less than the allow lifetime before; a denial is the
  cache miss, or an answer (or a failed call) for this context within the deny lifetime.  This holds in every
  interleaving of checks, the fetcher and the clock, and the cache never exceeds its capacity.
\<close>

theorem webhook_decisions_backed:
  assumes "0 < wc_capacity cfg" and "(webhook_step cfg)\<^sup>*\<^sup>* webhook_new w"
  shows "length (wk_cache w) \<le> wc_capacity cfg \<and>
    (Check_returned ctx d t \<in> set (wk_checks w) \<longrightarrow>
      (d = Allow \<longrightarrow> (\<exists>reason s. (ctx, Response True reason, s) \<in> set (wk_log w) \<and> s \<le> t \<and> t < s + wc_allow_ttl cfg)) \<and>
      (d \<noteq> Allow \<and> d \<noteq> cache_miss \<longrightarrow>
        (\<exists>reply s. (ctx, reply, s) \<in> set (wk_log w) \<and> d = fetched_decision reply \<and> s \<le> t \<and> t < s + wc_deny_ttl cfg)))"
proof -
  note W = webhook_okD [OF webhook_reachable [OF assms]]
  have "d = cache_miss \<or>
     (\<exists>reply s. (ctx, reply, s) \<in> set (wk_log w) \<and> d = fetched_decision reply \<and> s \<le> t \<and> t < s + ttl_of cfg d)"
    if "Check_returned ctx d t \<in> set (wk_checks w)"
    using W(7) that by (auto simp: list_all_iff dest!: bspec)
  moreover have "cache_miss \<noteq> Allow" by (simp add: cache_miss_def)
  ultimately show ?thesis
    using W(2) fetched_allow by (auto simp: ttl_of_def is_allow_def) metis
qed

section \<open>Liveness\<close>

text \<open>
  A run is an infinite sequence of states, each reached from the one before by a step or equal to it.  It is
  fair when the fetcher moves as long as it can (its POST ends by the configured timeout) and no check stops
  for ever just before it wakes the fetcher.
\<close>

definition webhook_run :: "webhook_config \<Rightarrow> (nat \<Rightarrow> webhook) \<Rightarrow> bool" where
  "webhook_run cfg \<sigma> \<longleftrightarrow> \<sigma> 0 = webhook_new \<and> (\<forall>n. webhook_step cfg (\<sigma> n) (\<sigma> (Suc n)) \<or> \<sigma> (Suc n) = \<sigma> n)"

definition fair_run :: "webhook_config \<Rightarrow> (nat \<Rightarrow> webhook) \<Rightarrow> bool" where
  "fair_run cfg \<sigma> \<longleftrightarrow>
     (\<forall>n. Ex (fetch_step cfg (\<sigma> n)) \<longrightarrow> (\<exists>m\<ge>n. fetch_step cfg (\<sigma> m) (\<sigma> (Suc m)))) \<and>
     (\<forall>n i ctx. i < length (wk_checks (\<sigma> n)) \<and> wk_checks (\<sigma> n) ! i = Check_notify ctx \<longrightarrow>
        (\<exists>m\<ge>n. wk_checks (\<sigma> m) ! i \<noteq> Check_notify ctx))"

text \<open>How far a request for a key is from its POST: in the batch, or waiting for the next batch.\<close>

definition work :: "fetch_pc \<Rightarrow> nat" where
  "work pc = (case pc of F_take \<Rightarrow> 1 | F_wait \<Rightarrow> 2 | F_batch b \<Rightarrow> 2 * length b + 3 | F_store k e b \<Rightarrow> 2 * length b + 4)"

inductive due :: "cache_key \<Rightarrow> webhook \<Rightarrow> nat \<times> nat \<Rightarrow> bool" for key where
  due_batch: "wk_fetcher w = F_batch b \<Longrightarrow> i < length b \<Longrightarrow> fst (b ! i) = key \<Longrightarrow> due key w (0, 2 * i)"
| due_store: "wk_fetcher w = F_store k e b \<Longrightarrow> i < length b \<Longrightarrow> fst (b ! i) = key \<Longrightarrow> due key w (0, Suc (2 * i))"
| due_pending: "key \<in> fst ` set (wk_pending w) \<Longrightarrow> due key w (1, work (wk_fetcher w))"

lemma client_due:
  assumes "webhook_ok cfg w" "client_step w w'" "due key w r"
  shows "due key w' r"
proof -
  have f: "wk_fetcher w' = wk_fetcher w" and p: "fst ` set (wk_pending w) \<subseteq> fst ` set (wk_pending w')"
  proof -
    have "wk_fetcher w' = wk_fetcher w \<and> fst ` set (wk_pending w) \<subseteq> fst ` set (wk_pending w')"
      using assms(2)
    proof cases
      case (check i pc w1)
      then show ?thesis
        by (cases "wk_checks w ! i")
          (force simp: enqueue_facts(3) [OF webhook_okD(4,5) [OF assms(1)]])+
    qed auto
    then show "wk_fetcher w' = wk_fetcher w" "fst ` set (wk_pending w) \<subseteq> fst ` set (wk_pending w')" by blast+
  qed
  from assms(3) show ?thesis
  proof cases
    case due_pending
    then show ?thesis using f p due.due_pending [of key w'] by auto
  qed (use f in \<open>auto intro: due.intros\<close>)
qed

text \<open>The POST for a key just happened.\<close>

definition posted :: "webhook_config \<Rightarrow> auth_context \<Rightarrow> webhook \<Rightarrow> webhook \<Rightarrow> bool" where
  "posted cfg ctx w w' \<longleftrightarrow> (\<exists>reply rest. wk_log w' = wk_log w @ [(ctx, reply, wk_now w)] \<and>
     wk_fetcher w' = F_store (key_from_ctx ctx) (entry_of cfg reply (wk_now w)) rest)"

lemma due_step:
  "key \<in> fst ` set (wk_pending w) \<Longrightarrow> work (wk_fetcher w) < n \<Longrightarrow>
    \<exists>r'. due key w r' \<and> (r', (1, n)) \<in> less_than <*lex*> less_than"
  by (rule exI [of _ "(1, work (wk_fetcher w))"]) (simp add: due_pending del: One_nat_def)

lemma fetch_due:
  assumes ok: "webhook_ok cfg w" and st: "fetch_step cfg w w'" and d: "due (key_from_ctx ctx) w r"
  shows "posted cfg ctx w w' \<or> (\<exists>r'. due (key_from_ctx ctx) w' r' \<and> (r', r) \<in> less_than <*lex*> less_than)"
  using d
proof cases
  case (due_batch b i)
  show ?thesis
  proof (cases i)
    case 0
    then obtain c rest where b: "b = (key_from_ctx ctx, c) # rest" using due_batch by (cases b) auto
    have "c = ctx" using webhook_okD(6) [OF ok] due_batch(2) b by (simp add: key_from_ctx_inj)
    then have "posted cfg ctx w w'"
      using st due_batch(2) b by (auto elim!: fetch_stepE simp: posted_def)
    then show ?thesis ..
  next
    case (Suc j)
    then obtain x rest where b: "b = x # rest" using due_batch by (cases b) auto
    obtain k e where "wk_fetcher w' = F_store k e rest"
      using st due_batch(2) b by (auto elim!: fetch_stepE)
    then have "due (key_from_ctx ctx) w' (0, Suc (2 * j))"
      using due_batch b Suc by (intro due_store) auto
    then show ?thesis using due_batch(1) Suc by (intro disjI2 exI conjI) auto
  qed
next
  case (due_store k e b i)
  have "wk_fetcher w' = F_batch b" using st due_store(2) by (auto elim!: fetch_stepE)
  then have "due (key_from_ctx ctx) w' (0, 2 * i)" using due_store by (intro due_batch) auto
  then show ?thesis using due_store(1) by (intro disjI2 exI conjI) auto
next
  case due_pending
  show ?thesis
    using st
  proof cases
    case fetch_wake
    then show ?thesis unfolding due_pending(1)
      by (intro disjI2 due_step) (use due_pending(2) in \<open>simp_all add: work_def\<close>)
  next
    case (fetch_take batch)
    then have "key_from_ctx ctx \<in> fst ` set batch" using due_pending by (metis set_mset_mset)
    then obtain i where "i < length batch" "fst (batch ! i) = key_from_ctx ctx" by (auto simp: in_set_conv_nth)
    then have "due (key_from_ctx ctx) w' (0, 2 * i)" using fetch_take(1) by (intro due_batch) auto
    then show ?thesis using due_pending(1) by (intro disjI2 exI conjI) auto
  next
    case (fetch_reply k c rest reply)
    then show ?thesis unfolding due_pending(1)
      by (intro disjI2 due_step) (use due_pending(2) in \<open>simp_all add: work_def\<close>)
  next
    case (fetch_store k e rest order)
    then show ?thesis unfolding due_pending(1)
      by (intro disjI2 due_step) (use due_pending(2) in \<open>simp_all add: work_def\<close>)
  next
    case fetch_loop
    then show ?thesis unfolding due_pending(1)
      by (intro disjI2 due_step) (use due_pending(2) in \<open>simp_all add: work_def\<close>)
  qed
qed

lemma fetch_ready:
  assumes "due key w r"
  shows "Ex (fetch_step cfg w) \<or> (wk_fetcher w = F_wait \<and> \<not> wk_permit w \<and> wk_pending w \<noteq> [])"
proof (cases "wk_fetcher w")
  case F_wait
  have "wk_pending w \<noteq> []" using assms F_wait by (auto elim!: due.cases)
  then show ?thesis using F_wait fetch_wake by blast
next
  case F_take
  then show ?thesis using fetch_take by blast
next
  case (F_batch b)
  then show ?thesis using fetch_reply fetch_loop by (cases b) fastforce+
next
  case (F_store k e b)
  then show ?thesis using fetch_store order_id by blast
qed

lemma run_step: "webhook_run cfg \<sigma> \<Longrightarrow> webhook_step cfg (\<sigma> n) (\<sigma> (Suc n)) \<or> \<sigma> (Suc n) = \<sigma> n"
  by (simp add: webhook_run_def)

lemma run_ok:
  assumes "webhook_run cfg \<sigma>" "0 < wc_capacity cfg"
  shows "webhook_ok cfg (\<sigma> n)"
proof (induction n)
  case 0
  then show ?case using assms(1) by (simp add: webhook_run_def webhook_ok_new)
next
  case (Suc n)
  then show ?case
    using run_step [OF assms(1), of n] client_keeps fetch_keeps assms(2) unfolding webhook_step_def by metis
qed

text \<open>What is due stays due until the fetcher moves.\<close>

lemma due_waits:
  assumes run: "webhook_run cfg \<sigma>" "0 < wc_capacity cfg" and d: "due key (\<sigma> n) r" and nm: "n \<le> m"
    and idle: "\<And>k. n \<le> k \<Longrightarrow> k < m \<Longrightarrow> \<not> fetch_step cfg (\<sigma> k) (\<sigma> (Suc k))"
  shows "due key (\<sigma> m) r"
  using nm idle
proof (induction m)
  case (Suc m)
  show ?case
  proof (cases "n = Suc m")
    case False
    then have m: "due key (\<sigma> m) r" "\<not> fetch_step cfg (\<sigma> m) (\<sigma> (Suc m))" using Suc by simp_all
    then have "client_step (\<sigma> m) (\<sigma> (Suc m)) \<or> \<sigma> (Suc m) = \<sigma> m"
      using run_step [OF run(1), of m] unfolding webhook_step_def by blast
    then show ?thesis using m(1) client_due [OF run_ok [OF run]] by metis
  qed (use d in simp)
qed (use d in simp)

lemma check_moves:
  assumes "webhook_step cfg w w' \<or> w' = w" "i < length (wk_checks w)" "wk_checks w ! i = Check_notify ctx"
  shows "i < length (wk_checks w') \<and> (wk_checks w' ! i = Check_notify ctx \<or> wk_permit w')"
proof -
  have "client_step w w' \<or> fetch_step cfg w w' \<or> w' = w" using assms(1) by (auto simp: webhook_step_def)
  then show ?thesis
  proof (elim disjE)
    assume "client_step w w'"
    then show ?thesis
    proof cases
      case (check j pc w1)
      then show ?thesis
      proof (cases "j = i")
        case False
        then show ?thesis using check assms by (cases "wk_checks w ! j") auto
      qed (use assms in auto)
    qed (use assms in \<open>auto simp: nth_append\<close>)
  qed (use assms in \<open>auto elim: fetch_stepE\<close>)
qed

lemma fetcher_moves:
  assumes run: "webhook_run cfg \<sigma>" "0 < wc_capacity cfg" and fair: "fair_run cfg \<sigma>" and d: "due key (\<sigma> n) r"
  shows "\<exists>m\<ge>n. fetch_step cfg (\<sigma> m) (\<sigma> (Suc m))"
proof (rule ccontr)
  assume "\<not> ?thesis"
  then have none: "\<not> fetch_step cfg (\<sigma> m) (\<sigma> (Suc m))" if "n \<le> m" for m using that by blast
  have stuck: "\<not> Ex (fetch_step cfg (\<sigma> m))" if "n \<le> m" for m
    using fair none that unfolding fair_run_def by (meson order_trans)
  have due: "due key (\<sigma> m) r" if "n \<le> m" for m
    by (rule due_waits [OF run d that]) (use none in blast)
  have wait: "wk_fetcher (\<sigma> m) = F_wait \<and> \<not> wk_permit (\<sigma> m) \<and> wk_pending (\<sigma> m) \<noteq> []" if "n \<le> m" for m
    using fetch_ready [OF due [OF that]] stuck [OF that] by blast
  then have "list_ex notifying (wk_checks (\<sigma> n))"
    using webhook_okD(8) [OF run_ok [OF run, of n]] by (metis fetch_pc.distinct(1) order_refl)
  then obtain i ctx where i: "i < length (wk_checks (\<sigma> n))" "wk_checks (\<sigma> n) ! i = Check_notify ctx"
    by (auto simp: list_ex_iff in_set_conv_nth elim!: notifying.elims)
  have "i < length (wk_checks (\<sigma> m)) \<and> wk_checks (\<sigma> m) ! i = Check_notify ctx" if "n \<le> m" for m
    using that
  proof (induction m rule: dec_induct)
    case (step m)
    then show ?case using check_moves [OF run_step [OF run(1), of m], of i ctx] wait [of "Suc m"] by auto
  qed (use i in simp)
  then show False using fair i unfolding fair_run_def by blast
qed

lemma posted_in_run:
  assumes run: "webhook_run cfg \<sigma>" "0 < wc_capacity cfg" and fair: "fair_run cfg \<sigma>"
    and d: "due (key_from_ctx ctx) (\<sigma> n) r"
  shows "\<exists>m\<ge>n. posted cfg ctx (\<sigma> m) (\<sigma> (Suc m))"
  using d
proof (induction r arbitrary: n rule: wf_induct_rule [OF wf_lex_prod [OF wf_less_than wf_less_than]])
  case (1 r)
  define m where "m = (LEAST m. n \<le> m \<and> fetch_step cfg (\<sigma> m) (\<sigma> (Suc m)))"
  have m: "n \<le> m \<and> fetch_step cfg (\<sigma> m) (\<sigma> (Suc m))"
    unfolding m_def using fetcher_moves [OF run fair 1(2)] by (rule LeastI_ex)
  have "due (key_from_ctx ctx) (\<sigma> m) r"
  proof (rule due_waits [OF run 1(2) conjunct1 [OF m]])
    fix k assume "n \<le> k" "k < m"
    then show "\<not> fetch_step cfg (\<sigma> k) (\<sigma> (Suc k))" using not_less_Least [of k] unfolding m_def by blast
  qed
  from fetch_due [OF run_ok [OF run] conjunct2 [OF m] this] show ?case
  proof (elim disjE exE conjE)
    fix r' assume "due (key_from_ctx ctx) (\<sigma> (Suc m)) r'" "(r', r) \<in> less_than <*lex*> less_than"
    then obtain m' where "Suc m \<le> m'" "posted cfg ctx (\<sigma> m') (\<sigma> (Suc m'))" using 1(1) by blast
    then show ?thesis using m by (meson Suc_leD order_trans)
  qed (use m in blast)
qed

text \<open>The decision in hand reaches the cache.\<close>

lemma store_waits:
  assumes run: "webhook_run cfg \<sigma>" and f: "wk_fetcher (\<sigma> n) = F_store key e rest" and nm: "n \<le> m"
    and idle: "\<And>k. n \<le> k \<Longrightarrow> k < m \<Longrightarrow> \<not> fetch_step cfg (\<sigma> k) (\<sigma> (Suc k))"
  shows "wk_fetcher (\<sigma> m) = F_store key e rest"
  using nm idle
proof (induction m rule: dec_induct)
  case (step m)
  then have "wk_fetcher (\<sigma> m) = F_store key e rest" "\<not> fetch_step cfg (\<sigma> m) (\<sigma> (Suc m))" by simp_all
  moreover have "wk_fetcher w' = wk_fetcher w" if "client_step w w'" for w w'
    using that
  proof cases
    case (check i pc w1)
    then show ?thesis by (cases "wk_checks w ! i") auto
  qed auto
  ultimately show ?case using run_step [OF run, of m] unfolding webhook_step_def by metis
qed (use f in simp)

lemma stored_in_run:
  assumes run: "webhook_run cfg \<sigma>" "0 < wc_capacity cfg" and fair: "fair_run cfg \<sigma>"
    and f: "wk_fetcher (\<sigma> n) = F_store key e rest"
  shows "\<exists>m>n. map_of (wk_cache (\<sigma> m)) key = Some e"
proof -
  have "Ex (fetch_step cfg (\<sigma> n))" using fetch_store [OF f order_id] by blast
  then have ex: "\<exists>m. n \<le> m \<and> fetch_step cfg (\<sigma> m) (\<sigma> (Suc m))" using fair unfolding fair_run_def by blast
  define m where "m = (LEAST m. n \<le> m \<and> fetch_step cfg (\<sigma> m) (\<sigma> (Suc m)))"
  have m: "n \<le> m \<and> fetch_step cfg (\<sigma> m) (\<sigma> (Suc m))" unfolding m_def using ex by (rule LeastI_ex)
  have s: "wk_fetcher (\<sigma> m) = F_store key e rest"
  proof (rule store_waits [OF run(1) f conjunct1 [OF m]])
    fix k assume "n \<le> k" "k < m"
    then show "\<not> fetch_step cfg (\<sigma> k) (\<sigma> (Suc k))" using not_less_Least [of k] unfolding m_def by blast
  qed
  from conjunct2 [OF m] have "map_of (wk_cache (\<sigma> (Suc m))) key = Some e"
    by cases (use s in \<open>simp_all add: store_decision_def\<close>)
  then show ?thesis using m by (intro exI [of _ "Suc m"]) simp
qed

text \<open>
  C4. No wakeup is lost: in every fair run, after a check found no decision and queued its context, the
  fetcher asks the webhook for that context, and the answer reaches the cache under its key - however checks,
  notifications and earlier batches interleave with the moment the fetcher takes the queue.
\<close>

theorem webhook_answers_every_miss:
  assumes "0 < wc_capacity cfg" and "webhook_run cfg \<sigma>" and "fair_run cfg \<sigma>"
    and "i < length (wk_checks (\<sigma> n))" and "wk_checks (\<sigma> n) ! i = Check_enqueue ctx"
    and "wk_checks (\<sigma> (Suc n)) ! i = Check_notify ctx"
  shows "\<exists>k m reply s. n < k \<and> k < m \<and> wk_log (\<sigma> (Suc k)) = wk_log (\<sigma> k) @ [(ctx, reply, s)] \<and>
    map_of (wk_cache (\<sigma> m)) (key_from_ctx ctx) = Some (entry_of cfg reply s)"
proof -
  note run = assms(2,1)
  have "client_step (\<sigma> n) (\<sigma> (Suc n)) \<or> fetch_step cfg (\<sigma> n) (\<sigma> (Suc n))"
    using run_step [OF run(1), of n] assms(5,6) by (auto simp: webhook_step_def)
  then have "key_from_ctx ctx \<in> fst ` set (wk_pending (\<sigma> (Suc n)))"
  proof
    assume "client_step (\<sigma> n) (\<sigma> (Suc n))"
    then show ?thesis
    proof cases
      case (check j pc w1)
      then have "j = i" using assms(4-6) by (cases "j = i") auto
      then show ?thesis
        using check assms(5) enqueue_facts(3) [OF webhook_okD(4,5) [OF run_ok [OF run]], of ctx n] by auto
    qed (use assms(4-6) in \<open>auto simp: nth_append\<close>)
  qed (use assms(5,6) in \<open>auto elim: fetch_stepE\<close>)
  then have "due (key_from_ctx ctx) (\<sigma> (Suc n)) (1, work (wk_fetcher (\<sigma> (Suc n))))" by (rule due_pending)
  from posted_in_run [OF run assms(3) this] obtain k where k: "Suc n \<le> k" "posted cfg ctx (\<sigma> k) (\<sigma> (Suc k))" by blast
  then obtain reply rest where p: "wk_log (\<sigma> (Suc k)) = wk_log (\<sigma> k) @ [(ctx, reply, wk_now (\<sigma> k))]"
    "wk_fetcher (\<sigma> (Suc k)) = F_store (key_from_ctx ctx) (entry_of cfg reply (wk_now (\<sigma> k))) rest"
    unfolding posted_def by blast
  from stored_in_run [OF run assms(3) p(2)] obtain m where
    "Suc k < m" "map_of (wk_cache (\<sigma> m)) (key_from_ctx ctx) = Some (entry_of cfg reply (wk_now (\<sigma> k)))" by blast
  then show ?thesis using k(1) p(1) by (intro exI [of _ k] exI [of _ m]) auto
qed

text \<open>A run with one miss, its answer, and a check that the cache answers.\<close>

definition demo_cfg :: webhook_config where
  "demo_cfg = \<lparr>wc_url = ustr_of ''http://auth'', wc_allow_ttl = 60, wc_deny_ttl = 10, wc_fetch_timeout = 5, wc_capacity = 1\<rparr>"

definition demo_ctx :: auth_context where
  "demo_ctx = AdminAccess (ustr_of ''t'')"

definition demo_state :: "decision_cache \<Rightarrow> pending_map \<Rightarrow> bool \<Rightarrow> check_pc list \<Rightarrow> fetch_pc \<Rightarrow> bool \<Rightarrow> webhook" where
  "demo_state cache pending permit checks fetcher replied =
     \<lparr>wk_now = 0, wk_cache = cache, wk_pending = pending, wk_permit = permit, wk_checks = checks,
      wk_fetcher = fetcher, wk_log = (if replied then [(demo_ctx, Response True None, 0)] else [])\<rparr>"

definition demo_states :: "webhook list" where
  "demo_states = (let k = key_from_ctx demo_ctx; e = entry_of demo_cfg (Response True None) 0;
       miss = Check_returned demo_ctx cache_miss 0 in
     [webhook_new,
      demo_state [] [] False [Check_read demo_ctx] F_wait False,
      demo_state [] [] False [Check_enqueue demo_ctx] F_wait False,
      demo_state [] [(k, demo_ctx)] False [Check_notify demo_ctx] F_wait False,
      demo_state [] [(k, demo_ctx)] True [miss] F_wait False,
      demo_state [] [(k, demo_ctx)] False [miss] F_take False,
      demo_state [] [] False [miss] (F_batch [(k, demo_ctx)]) False,
      demo_state [] [] False [miss] (F_store k e []) True,
      demo_state [(k, e)] [] False [miss] (F_batch []) True,
      demo_state [(k, e)] [] False [miss] F_wait True,
      demo_state [(k, e)] [] False [miss, Check_read demo_ctx] F_wait True,
      demo_state [(k, e)] [] False [miss, Check_returned demo_ctx Allow 0] F_wait True])"

definition demo_run :: "nat \<Rightarrow> webhook" where
  "demo_run n = (if n < 12 then demo_states ! n else demo_states ! 11)"

lemmas demo_simps = demo_states_def demo_state_def webhook_new_def Let_def

lemma demo_steps:
  "client_step (demo_states ! 0) (demo_states ! 1)" "client_step (demo_states ! 1) (demo_states ! 2)"
  "client_step (demo_states ! 2) (demo_states ! 3)" "client_step (demo_states ! 3) (demo_states ! 4)"
  "fetch_step demo_cfg (demo_states ! 4) (demo_states ! 5)" "fetch_step demo_cfg (demo_states ! 5) (demo_states ! 6)"
  "fetch_step demo_cfg (demo_states ! 6) (demo_states ! 7)" "fetch_step demo_cfg (demo_states ! 7) (demo_states ! 8)"
  "fetch_step demo_cfg (demo_states ! 8) (demo_states ! 9)" "client_step (demo_states ! 9) (demo_states ! 10)"
  "client_step (demo_states ! 10) (demo_states ! 11)"
proof -
  show "client_step (demo_states ! 0) (demo_states ! 1)"
    using call [of webhook_new demo_ctx] by (simp add: demo_simps)
  show "client_step (demo_states ! 1) (demo_states ! 2)"
    using check [of 0 "demo_states ! 1"] by (simp add: demo_simps cached_decision_def)
  show "client_step (demo_states ! 2) (demo_states ! 3)"
    using check [of 0 "demo_states ! 2"] by (simp add: demo_simps enqueue_def hm_insert_def)
  show "client_step (demo_states ! 3) (demo_states ! 4)"
    using check [of 0 "demo_states ! 3"] by (simp add: demo_simps)
  show "fetch_step demo_cfg (demo_states ! 4) (demo_states ! 5)"
    using fetch_wake [of "demo_states ! 4"] by (simp add: demo_simps)
  show "fetch_step demo_cfg (demo_states ! 5) (demo_states ! 6)"
    using fetch_take [of "demo_states ! 5" "[(key_from_ctx demo_ctx, demo_ctx)]"] by (simp add: demo_simps)
  show "fetch_step demo_cfg (demo_states ! 6) (demo_states ! 7)"
    using fetch_reply [of "demo_states ! 6" _ _ _ demo_cfg "Response True None"] by (simp add: demo_simps)
  show "fetch_step demo_cfg (demo_states ! 7) (demo_states ! 8)"
    using fetch_store [OF _ order_id, of "demo_states ! 7" _ _ _ demo_cfg]
    by (simp add: demo_simps store_decision_def evict_if_full_def hm_insert_def demo_cfg_def)
  show "fetch_step demo_cfg (demo_states ! 8) (demo_states ! 9)"
    using fetch_loop [of "demo_states ! 8"] by (simp add: demo_simps)
  show "client_step (demo_states ! 9) (demo_states ! 10)"
    using call [of "demo_states ! 9" demo_ctx] by (simp add: demo_simps)
  show "client_step (demo_states ! 10) (demo_states ! 11)"
    using check [of 1 "demo_states ! 10"]
    by (simp add: demo_simps cached_decision_def entry_of_def ttl_of_def fetched_decision_def is_allow_def demo_cfg_def)
qed

lemma demo_run_steps: "webhook_step demo_cfg (demo_run n) (demo_run (Suc n)) \<or> demo_run (Suc n) = demo_run n"
proof (cases "n < 11")
  case True
  then have "n \<in> set [0..<11]" by simp
  then have "n \<in> {0, 1, 2, 3} \<or> n \<in> {4, 5, 6, 7} \<or> n \<in> {8, 9, 10}" by (auto simp: upt_rec)
  then show ?thesis
    using demo_steps by (auto simp: demo_run_def webhook_step_def numeral_2_eq_2 [symmetric])
next
  case False
  then consider "n = 11" | "12 \<le> n" by linarith
  then show ?thesis by cases (simp_all add: demo_run_def)
qed

lemma demo_is_run: "webhook_run demo_cfg demo_run"
  using demo_run_steps by (simp add: webhook_run_def demo_run_def demo_states_def Let_def)

lemma demo_is_fair: "fair_run demo_cfg demo_run"
  unfolding fair_run_def
proof (intro conjI allI impI)
  fix n assume en: "Ex (fetch_step demo_cfg (demo_run n))"
  show "\<exists>m\<ge>n. fetch_step demo_cfg (demo_run m) (demo_run (Suc m))"
  proof (cases "n \<le> 8")
    case True
    then show ?thesis using demo_steps(9) by (intro exI [of _ 8]) (simp add: demo_run_def)
  next
    case False
    then consider "n = 9" | "n = 10" | "11 \<le> n" by linarith
    then have "demo_run n \<in> {demo_states ! 9, demo_states ! 10, demo_states ! 11}"
    proof cases
      case 3
      then have "demo_run n = demo_states ! 11" by (cases "n = 11") (simp_all add: demo_run_def)
      then show ?thesis by blast
    qed (simp_all add: demo_run_def)
    then have "wk_fetcher (demo_run n) = F_wait \<and> \<not> wk_permit (demo_run n)"
      by (auto simp: demo_simps)
    then show ?thesis using en by (auto elim: fetch_stepE)
  qed
next
  fix n i ctx
  assume i: "i < length (wk_checks (demo_run n)) \<and> wk_checks (demo_run n) ! i = Check_notify ctx"
  have "length (wk_checks (demo_run n)) \<le> 2"
  proof -
    have "length demo_states = 12" by (simp add: demo_states_def Let_def)
    then have "demo_run n \<in> set demo_states" by (simp add: demo_run_def nth_mem)
    moreover have "list_all (\<lambda>w. length (wk_checks w) \<le> 2) demo_states" by (simp add: demo_simps)
    ultimately show ?thesis by (simp add: list_all_iff)
  qed
  then have "i = 0 \<or> i = 1" using i by linarith
  then have "wk_checks (demo_run (n + 12)) ! i \<noteq> Check_notify ctx" by (auto simp: demo_run_def demo_simps)
  then show "\<exists>m\<ge>n. wk_checks (demo_run m) ! i \<noteq> Check_notify ctx" by (intro exI [of _ "n + 12"]) simp
qed

theorem webhook_answers_every_miss_witness:
  "\<exists>k m reply s. 2 < k \<and> k < m \<and> wk_log (demo_run (Suc k)) = wk_log (demo_run k) @ [(demo_ctx, reply, s)] \<and>
    map_of (wk_cache (demo_run m)) (key_from_ctx demo_ctx) = Some (entry_of demo_cfg reply s)"
  by (rule webhook_answers_every_miss [OF _ demo_is_run demo_is_fair, where i = 0])
    (simp_all add: demo_run_def demo_simps demo_cfg_def)

theorem webhook_decisions_backed_witness:
  "Check_returned demo_ctx Allow 0 \<in> set (wk_checks (demo_run 11)) \<and>
   (\<exists>reason s. (demo_ctx, Response True reason, s) \<in> set (wk_log (demo_run 11)) \<and> s = 0)"
proof -
  have reach: "(webhook_step demo_cfg)\<^sup>*\<^sup>* webhook_new (demo_run n)" for n
  proof (induction n)
    case 0
    then show ?case using demo_is_run by (simp add: webhook_run_def)
  next
    case (Suc n)
    then show ?case using demo_run_steps [of n] by (metis rtranclp.rtrancl_into_rtrancl)
  qed
  have ret: "Check_returned demo_ctx Allow 0 \<in> set (wk_checks (demo_run 11))"
    by (simp add: demo_run_def demo_simps)
  have "0 < wc_capacity demo_cfg" by (simp add: demo_cfg_def)
  from webhook_decisions_backed [OF this reach [of 11], of demo_ctx Allow 0] ret show ?thesis by auto
qed

end
