(* ===== verification/MoqSink.thy ===== *)
theory MoqSink
  imports Registry
begin

text \<open>
  \<open>lvqr-fragment/src/moq_sink.rs\<close>, \<open>moq_timing_sink.rs\<close> and \<open>moq_stream.rs\<close>: fragments written to the groups
  and frames of a MoQ track, and read back.  The track itself is the crate \<open>moq-lite\<close>: a record of its
  operations, with the documented laws as a hypothesis.
\<close>

section \<open>The producer of a track\<close>

record 't moq_api =
  mq_append_group :: "'t \<Rightarrow> 't \<times> u64 option"
  mq_write_frame :: "u64 \<Rightarrow> bytes \<Rightarrow> 't \<Rightarrow> 't \<times> bool"
  mq_finish :: "u64 \<Rightarrow> 't \<Rightarrow> 't"
  mq_drop_group :: "u64 \<Rightarrow> 't \<Rightarrow> 't"

text \<open>
  The laws, for the groups that a subscriber reads and the tracks of a session in good health: groups are
  numbered from 0 in the order they are appended, a frame goes to the end of its group, and finishing or
  dropping the producer of a group takes nothing back.
\<close>

definition moq_ok :: "'t moq_api \<Rightarrow> ('t \<Rightarrow> (u64 \<times> bytes list) list) \<Rightarrow> ('t \<Rightarrow> bool) \<Rightarrow> bool" where
  "moq_ok api groups healthy \<longleftrightarrow> (\<forall>t. healthy t \<longrightarrow>
     (\<exists>t'. mq_append_group api t = (t', Some (of_nat (length (groups t)))) \<and> healthy t' \<and>
        groups t' = groups t @ [(of_nat (length (groups t)), [])]) \<and>
     (\<forall>gs n fs d. groups t = gs @ [(n, fs)] \<longrightarrow>
        (\<exists>t'. mq_write_frame api n d t = (t', True) \<and> healthy t' \<and> groups t' = gs @ [(n, fs @ [d])])) \<and>
     (\<forall>n. healthy (mq_finish api n t) \<and> groups (mq_finish api n t) = groups t \<and>
        healthy (mq_drop_group api n t) \<and> groups (mq_drop_group api n t) = groups t))"

section \<open>The sink\<close>

datatype moq_sink_error = AppendGroup | WriteFrame

record 't moq_sink =
  sk_track :: 't
  sk_meta :: fragment_meta
  sk_current_group :: "u64 option"

definition moq_sink_new :: "'t \<Rightarrow> fragment_meta \<Rightarrow> 't moq_sink" where
  "moq_sink_new track meta = \<lparr>sk_track = track, sk_meta = meta, sk_current_group = None\<rparr>"

definition sink_set_init_segment :: "bytes \<Rightarrow> 't moq_sink \<Rightarrow> 't moq_sink" where
  "sink_set_init_segment init s = s\<lparr>sk_meta := (sk_meta s)\<lparr>fm_init_segment := Some init\<rparr>\<rparr>"

definition finish_current_group :: "'t moq_api \<Rightarrow> 't moq_sink \<Rightarrow> 't moq_sink" where
  "finish_current_group api s =
     (case sk_current_group s of None \<Rightarrow> s
      | Some g \<Rightarrow> s\<lparr>sk_current_group := None, sk_track := mq_drop_group api g (mq_finish api g (sk_track s))\<rparr>)"

definition sink_push :: "'t moq_api \<Rightarrow> media_fragment \<Rightarrow> 't moq_sink \<Rightarrow> (u64 option, moq_sink_error) outcome \<times> 't moq_sink" where
  "sink_push api frag s =
     (if ff_keyframe (fg_flags frag) then
        (let s = finish_current_group api s;
             (track, seq) = mq_append_group api (sk_track s) in
         case seq of None \<Rightarrow> (Err AppendGroup, s\<lparr>sk_track := track\<rparr>)
         | Some g \<Rightarrow>
           (let (track, written) = (case fm_init_segment (sk_meta s) of None \<Rightarrow> (track, True)
                  | Some init \<Rightarrow> mq_write_frame api g init track) in
            if \<not> written then (Err WriteFrame, s\<lparr>sk_track := mq_drop_group api g track\<rparr>)
            else (let (track, written) = mq_write_frame api g (fg_payload frag) track in
              if \<not> written then (Err WriteFrame, s\<lparr>sk_track := mq_drop_group api g track\<rparr>)
              else (Ok (Some g), s\<lparr>sk_track := track, sk_current_group := Some g\<rparr>))))
      else (case sk_current_group s of
          Some g \<Rightarrow> (let (track, written) = mq_write_frame api g (fg_payload frag) (sk_track s) in
            if \<not> written then (Err WriteFrame, s\<lparr>sk_track := track\<rparr>) else (Ok None, s\<lparr>sk_track := track\<rparr>))
        | None \<Rightarrow> (Ok None, s)))"

section \<open>Timing anchors\<close>

definition TIMING_ANCHOR_SIZE :: nat where "TIMING_ANCHOR_SIZE = 16"
definition TIMING_TRACK_NAME :: ustr where "TIMING_TRACK_NAME = ustr_of ''0.timing''"

record timing_anchor =
  an_group_id :: u64
  an_ingest_time_ms :: u64

definition le64_bytes :: "u64 \<Rightarrow> bytes" where
  "le64_bytes w = map (\<lambda>i. ucast (drop_bit (8 * i) w)) [0..<8]"

definition le64 :: "bytes \<Rightarrow> u64" where
  "le64 bs = ucast (bs ! 0) OR push_bit 8 (ucast (bs ! 1)) OR push_bit 16 (ucast (bs ! 2)) OR push_bit 24 (ucast (bs ! 3)) OR
     push_bit 32 (ucast (bs ! 4)) OR push_bit 40 (ucast (bs ! 5)) OR push_bit 48 (ucast (bs ! 6)) OR push_bit 56 (ucast (bs ! 7))"

definition anchor_encode :: "timing_anchor \<Rightarrow> bytes" where
  "anchor_encode a = le64_bytes (an_group_id a) @ le64_bytes (an_ingest_time_ms a)"

definition anchor_decode :: "bytes \<Rightarrow> timing_anchor option" where
  "anchor_decode bs =
     (if length bs \<noteq> TIMING_ANCHOR_SIZE then None
      else Some \<lparr>an_group_id = le64 (take 8 bs), an_ingest_time_ms = le64 (drop 8 bs)\<rparr>)"

definition push_anchor :: "'t moq_api \<Rightarrow> u64 \<Rightarrow> u64 \<Rightarrow> 't \<Rightarrow> (unit, moq_sink_error) outcome \<times> 't" where
  "push_anchor api group_id ingest_time_ms track =
     (let (track, seq) = mq_append_group api track in
      case seq of None \<Rightarrow> (Err AppendGroup, track)
      | Some g \<Rightarrow>
        (let (track, written) = mq_write_frame api g
               (anchor_encode \<lparr>an_group_id = group_id, an_ingest_time_ms = ingest_time_ms\<rparr>) track in
         if \<not> written then (Err WriteFrame, mq_drop_group api g track)
         else (Ok (), mq_drop_group api g (mq_finish api g track))))"

section \<open>The readers\<close>

text \<open>
  A group consumer is the sequence of its frames that were not read yet; reading past them ends the stream,
  whether the group was finished or broke off.  A track consumer is its remaining groups.
\<close>

record moq_group_stream =
  gs_meta :: fragment_meta
  gs_sequence :: u64
  gs_frames :: "bytes list"
  gs_track_id :: ustr
  gs_emitted :: u64
  gs_expect_init_prefix :: bool

definition group_stream_new :: "ustr \<Rightarrow> fragment_meta \<Rightarrow> u64 \<times> bytes list \<Rightarrow> moq_group_stream" where
  "group_stream_new track_id meta grp =
     \<lparr>gs_meta = meta, gs_sequence = fst grp, gs_frames = snd grp, gs_track_id = track_id, gs_emitted = 0,
      gs_expect_init_prefix = (fm_init_segment meta \<noteq> None)\<rparr>"

definition group_stream_without_init_prefix :: "ustr \<Rightarrow> fragment_meta \<Rightarrow> u64 \<times> bytes list \<Rightarrow> moq_group_stream" where
  "group_stream_without_init_prefix track_id meta grp =
     \<lparr>gs_meta = meta, gs_sequence = fst grp, gs_frames = snd grp, gs_track_id = track_id, gs_emitted = 0,
      gs_expect_init_prefix = False\<rparr>"

definition group_next_payload :: "moq_group_stream \<Rightarrow> media_fragment option \<times> moq_group_stream" where
  "group_next_payload st =
     (case gs_frames st of [] \<Rightarrow> (None, st)
      | payload # frames \<Rightarrow>
          (let flags = (if gs_emitted st = 0 then FLAGS_KEYFRAME else FLAGS_DELTA);
               frag = fragment_new (gs_track_id st) (gs_sequence st) (gs_emitted st) 0 0 0 0 flags payload in
           (Some frag, st\<lparr>gs_frames := frames, gs_emitted := gs_emitted st + 1\<rparr>)))"

definition group_next_fragment :: "moq_group_stream \<Rightarrow> media_fragment option \<times> moq_group_stream" where
  "group_next_fragment st =
     (if gs_expect_init_prefix st then
        (let st = st\<lparr>gs_expect_init_prefix := False\<rparr> in
         case gs_frames st of [] \<Rightarrow> (None, st) | _ # frames \<Rightarrow> group_next_payload (st\<lparr>gs_frames := frames\<rparr>))
      else group_next_payload st)"

record moq_track_stream =
  ts_meta :: fragment_meta
  ts_groups :: "(u64 \<times> bytes list) list"
  ts_track_id :: ustr
  ts_current :: "moq_group_stream option"
  ts_expect_init_per_group :: bool

definition track_stream_new :: "ustr \<Rightarrow> fragment_meta \<Rightarrow> (u64 \<times> bytes list) list \<Rightarrow> moq_track_stream" where
  "track_stream_new track_id meta groups =
     \<lparr>ts_meta = meta, ts_groups = groups, ts_track_id = track_id, ts_current = None,
      ts_expect_init_per_group = (fm_init_segment meta \<noteq> None)\<rparr>"

definition track_stream_without_init_prefix :: "ustr \<Rightarrow> fragment_meta \<Rightarrow> (u64 \<times> bytes list) list \<Rightarrow> moq_track_stream" where
  "track_stream_without_init_prefix track_id meta groups =
     \<lparr>ts_meta = meta, ts_groups = groups, ts_track_id = track_id, ts_current = None, ts_expect_init_per_group = False\<rparr>"

definition open_group :: "moq_track_stream \<Rightarrow> u64 \<times> bytes list \<Rightarrow> moq_group_stream" where
  "open_group st grp = (if ts_expect_init_per_group st then group_stream_new (ts_track_id st) (ts_meta st) grp
     else group_stream_without_init_prefix (ts_track_id st) (ts_meta st) grp)"

fun next_from_groups :: "(u64 \<times> bytes list) list \<Rightarrow> moq_track_stream \<Rightarrow> media_fragment option \<times> moq_track_stream" where
  "next_from_groups [] st = (None, st\<lparr>ts_groups := []\<rparr>)"
| "next_from_groups (g # gs) st =
     (case group_next_fragment (open_group st g) of
        (Some frag, inner) \<Rightarrow> (Some frag, st\<lparr>ts_groups := gs, ts_current := Some inner\<rparr>)
      | (None, inner) \<Rightarrow> next_from_groups gs st)"

definition track_next_fragment :: "moq_track_stream \<Rightarrow> media_fragment option \<times> moq_track_stream" where
  "track_next_fragment st =
     (case ts_current st of
        Some stream \<Rightarrow> (case group_next_fragment stream of
            (Some frag, stream) \<Rightarrow> (Some frag, st\<lparr>ts_current := Some stream\<rparr>)
          | (None, stream) \<Rightarrow> next_from_groups (ts_groups st) (st\<lparr>ts_current := None\<rparr>))
      | None \<Rightarrow> next_from_groups (ts_groups st) st)"

section \<open>What the readers return\<close>

fun frame_fragments :: "ustr \<Rightarrow> u64 \<Rightarrow> u64 \<Rightarrow> bytes list \<Rightarrow> media_fragment list" where
  "frame_fragments tid seq k [] = []"
| "frame_fragments tid seq k (p # ps) =
     fragment_new tid seq k 0 0 0 0 (if k = 0 then FLAGS_KEYFRAME else FLAGS_DELTA) p # frame_fragments tid seq (k + 1) ps"

lemma frame_fragments_append:
  "frame_fragments tid seq k (ps @ qs) = frame_fragments tid seq k ps @ frame_fragments tid seq (k + of_nat (length ps)) qs"
  by (induction ps arbitrary: k) (simp_all add: add.assoc)

definition unread :: "moq_group_stream \<Rightarrow> media_fragment list" where
  "unread st = frame_fragments (gs_track_id st) (gs_sequence st) (gs_emitted st)
     (if gs_expect_init_prefix st then drop 1 (gs_frames st) else gs_frames st)"

definition group_fragments :: "bool \<Rightarrow> ustr \<Rightarrow> u64 \<times> bytes list \<Rightarrow> media_fragment list" where
  "group_fragments p tid grp = frame_fragments tid (fst grp) 0 (if p then drop 1 (snd grp) else snd grp)"

lemma group_next:
  "(case group_next_fragment st of (None, st') \<Rightarrow> unread st = [] | (Some f, st') \<Rightarrow> unread st = f # unread st')"
  by (cases "gs_frames st")
    (auto simp: group_next_fragment_def group_next_payload_def unread_def Let_def split: list.splits)

definition stream_ok :: "moq_track_stream \<Rightarrow> bool" where
  "stream_ok st \<longleftrightarrow> (ts_expect_init_per_group st \<longrightarrow> fm_init_segment (ts_meta st) \<noteq> None)"

definition stream_unread :: "moq_track_stream \<Rightarrow> media_fragment list" where
  "stream_unread st = (case ts_current st of None \<Rightarrow> [] | Some g \<Rightarrow> unread g) @
     concat (map (group_fragments (ts_expect_init_per_group st) (ts_track_id st)) (ts_groups st))"

lemma unread_open: "stream_ok st \<Longrightarrow> unread (open_group st g) = group_fragments (ts_expect_init_per_group st) (ts_track_id st) g"
  by (auto simp: stream_ok_def open_group_def unread_def group_fragments_def group_stream_new_def
      group_stream_without_init_prefix_def)

lemma next_groups:
  assumes "stream_ok st" and "ts_current st = None"
  shows "(case next_from_groups gs st of
      (None, st') \<Rightarrow> concat (map (group_fragments (ts_expect_init_per_group st) (ts_track_id st)) gs) = []
    | (Some f, st') \<Rightarrow> stream_ok st' \<and>
        concat (map (group_fragments (ts_expect_init_per_group st) (ts_track_id st)) gs) = f # stream_unread st')"
proof (induction gs)
  case (Cons g gs)
  then show ?case
    using group_next [of "open_group st g"] unread_open [OF assms(1), of g] assms(1)
    by (auto simp: stream_unread_def stream_ok_def split: prod.splits option.splits)
qed simp

lemma track_next:
  assumes "stream_ok st"
  shows "(case track_next_fragment st of (None, st') \<Rightarrow> stream_unread st = []
    | (Some f, st') \<Rightarrow> stream_ok st' \<and> stream_unread st = f # stream_unread st')"
proof (cases "ts_current st")
  case None
  then show ?thesis
    using next_groups [OF assms None, of "ts_groups st"]
    by (simp add: track_next_fragment_def stream_unread_def split: prod.splits option.splits)
next
  case (Some g)
  obtain r g' where g: "group_next_fragment g = (r, g')" by (cases "group_next_fragment g")
  show ?thesis
  proof (cases r)
    case None
    have "stream_ok (st\<lparr>ts_current := None\<rparr>)" using assms by (simp add: stream_ok_def)
    from next_groups [OF this, of "ts_groups st"] show ?thesis
      using group_next [of g] by (simp add: track_next_fragment_def Some g None stream_unread_def split: prod.splits option.splits)
  next
    case (Some f)
    then show ?thesis
      using group_next [of g] assms
      by (simp add: track_next_fragment_def \<open>ts_current st = Some g\<close> g stream_unread_def stream_ok_def)
  qed
qed

text \<open>The first \<open>n\<close> fragments that a reader of the track gets.\<close>

fun take_fragments :: "nat \<Rightarrow> moq_track_stream \<Rightarrow> media_fragment list" where
  "take_fragments 0 st = []"
| "take_fragments (Suc n) st = (case track_next_fragment st of
     (None, _) \<Rightarrow> [] | (Some f, st) \<Rightarrow> f # take_fragments n st)"

lemma take_fragments_eq: "stream_ok st \<Longrightarrow> take_fragments n st = take n (stream_unread st)"
proof (induction n arbitrary: st)
  case (Suc n)
  then show ?case using track_next [of st] by (auto split: prod.splits option.splits)
qed simp

section \<open>What the sink writes\<close>

datatype sink_op = Push media_fragment | SetInit bytes | FinishGroup

fun sink_step :: "'t moq_api \<Rightarrow> sink_op \<Rightarrow> 't moq_sink \<Rightarrow> 't moq_sink" where
  "sink_step api (Push frag) s = snd (sink_push api frag s)"
| "sink_step api (SetInit init) s = sink_set_init_segment init s"
| "sink_step api FinishGroup s = finish_current_group api s"

fun sink_run :: "'t moq_api \<Rightarrow> sink_op list \<Rightarrow> 't moq_sink \<Rightarrow> 't moq_sink" where
  "sink_run api [] s = s"
| "sink_run api (a # as) s = sink_run api as (sink_step api a s)"

text \<open>The specification: a delta fragment is kept only if a group is open, and what is kept is numbered by the
  groups that key frames open and by its position there.\<close>

fun kept :: "bool \<Rightarrow> sink_op list \<Rightarrow> media_fragment list" where
  "kept open_grp [] = []"
| "kept open_grp (Push f # as) = (if ff_keyframe (fg_flags f) \<or> open_grp
     then f # kept True as else kept False as)"
| "kept open_grp (SetInit init # as) = kept open_grp as"
| "kept open_grp (FinishGroup # as) = kept False as"

fun renumber :: "ustr \<Rightarrow> u64 \<Rightarrow> u64 \<Rightarrow> media_fragment list \<Rightarrow> media_fragment list" where
  "renumber tid groups obj [] = []"
| "renumber tid groups obj (f # fs) =
     (if ff_keyframe (fg_flags f)
      then fragment_new tid groups 0 0 0 0 0 FLAGS_KEYFRAME (fg_payload f) # renumber tid (groups + 1) 1 fs
      else fragment_new tid (groups - 1) obj 0 0 0 0 FLAGS_DELTA (fg_payload f) # renumber tid groups (obj + 1) fs)"

text \<open>The state between two operations: the groups so far, and the open one is the last.\<close>

definition sink_ok ::
    "('t \<Rightarrow> (u64 \<times> bytes list) list) \<Rightarrow> ('t \<Rightarrow> bool) \<Rightarrow> bool \<Rightarrow> (u64 \<times> bytes list) list \<Rightarrow> bytes list option \<Rightarrow> 't moq_sink \<Rightarrow> bool" where
  "sink_ok groups healthy p gs cur s \<longleftrightarrow> healthy (sk_track s) \<and> (fm_init_segment (sk_meta s) \<noteq> None \<longleftrightarrow> p) \<and>
     (case cur of None \<Rightarrow> sk_current_group s = None \<and> groups (sk_track s) = gs
      | Some fs \<Rightarrow> sk_current_group s = Some (of_nat (length gs)) \<and> groups (sk_track s) = gs @ [(of_nat (length gs), fs)])"

lemma moq_okD:
  assumes "moq_ok api groups healthy" and "healthy t"
  obtains t' where "mq_append_group api t = (t', Some (of_nat (length (groups t))))" "healthy t'"
    "groups t' = groups t @ [(of_nat (length (groups t)), [])]"
  using assms unfolding moq_ok_def by meson

lemma moq_ok_write:
  assumes "moq_ok api groups healthy" and "healthy t" and "groups t = gs @ [(n, fs)]"
  obtains t' where "mq_write_frame api n d t = (t', True)" "healthy t'" "groups t' = gs @ [(n, fs @ [d])]"
  using assms unfolding moq_ok_def by meson

lemma moq_ok_close:
  assumes "moq_ok api groups healthy" and "healthy t"
  shows "healthy (mq_finish api n t)" "groups (mq_finish api n t) = groups t"
    "healthy (mq_drop_group api n t)" "groups (mq_drop_group api n t) = groups t"
  using assms unfolding moq_ok_def by meson+

lemma finish_group_ok:
  assumes "moq_ok api groups healthy" and "sink_ok groups healthy p gs cur s"
  shows "sink_ok groups healthy p (case cur of None \<Rightarrow> gs | Some fs \<Rightarrow> gs @ [(of_nat (length gs), fs)]) None
    (finish_current_group api s)"
  using assms(2) moq_ok_close [OF assms(1)]
  by (auto simp: sink_ok_def finish_current_group_def split: option.splits)

lemma push_delta_ok:
  assumes "moq_ok api groups healthy" and "sink_ok groups healthy p gs (Some fs) s" and "\<not> ff_keyframe (fg_flags f)"
  shows "fst (sink_push api f s) = Ok None \<and> sink_ok groups healthy p gs (Some (fs @ [fg_payload f])) (snd (sink_push api f s))"
proof -
  have s: "healthy (sk_track s)" "groups (sk_track s) = gs @ [(of_nat (length gs), fs)]" "sk_current_group s = Some (of_nat (length gs))"
    "fm_init_segment (sk_meta s) \<noteq> None \<longleftrightarrow> p"
    using assms(2) by (simp_all add: sink_ok_def)
  obtain t where "mq_write_frame api (of_nat (length gs)) (fg_payload f) (sk_track s) = (t, True)" "healthy t"
    "groups t = gs @ [(of_nat (length gs), fs @ [fg_payload f])]"
    by (rule moq_ok_write [OF assms(1) s(1,2)])
  then show ?thesis using s assms(3) by (simp add: sink_push_def sink_ok_def)
qed

lemma push_key_ok:
  assumes "moq_ok api groups healthy" and "sink_ok groups healthy p gs None s" and "ff_keyframe (fg_flags f)"
  shows "fst (sink_push api f s) = Ok (Some (of_nat (length gs))) \<and>
    sink_ok groups healthy p gs (Some (case fm_init_segment (sk_meta s) of None \<Rightarrow> [fg_payload f] | Some i \<Rightarrow> [i, fg_payload f]))
      (snd (sink_push api f s))"
proof -
  let ?n = "of_nat (length gs) :: u64"
  have s: "healthy (sk_track s)" "groups (sk_track s) = gs" "sk_current_group s = None" "fm_init_segment (sk_meta s) \<noteq> None \<longleftrightarrow> p"
    using assms(2) by (simp_all add: sink_ok_def)
  have same: "finish_current_group api s = s" using s(3) by (simp add: finish_current_group_def)
  obtain t where t: "mq_append_group api (sk_track s) = (t, Some ?n)" "healthy t" "groups t = gs @ [(?n, [])]"
    using moq_okD [OF assms(1) s(1)] s(2) by metis
  show ?thesis
  proof (cases "fm_init_segment (sk_meta s)")
    case None
    obtain t' where "mq_write_frame api ?n (fg_payload f) t = (t', True)" "healthy t'" "groups t' = gs @ [(?n, [] @ [fg_payload f])]"
      by (rule moq_ok_write [OF assms(1) t(2,3)])
    then show ?thesis using s t(1) assms(3) None by (simp add: sink_push_def same sink_ok_def)
  next
    case (Some i)
    obtain t' where t': "mq_write_frame api ?n i t = (t', True)" "healthy t'" "groups t' = gs @ [(?n, [] @ [i])]"
      by (rule moq_ok_write [OF assms(1) t(2,3)])
    obtain t'' where "mq_write_frame api ?n (fg_payload f) t' = (t'', True)" "healthy t''"
      "groups t'' = gs @ [(?n, ([] @ [i]) @ [fg_payload f])]"
      by (rule moq_ok_write [OF assms(1) t'(2,3)])
    then show ?thesis using s t(1) t'(1) assms(3) Some by (simp add: sink_push_def same sink_ok_def)
  qed
qed

definition with_open :: "(u64 \<times> bytes list) list \<Rightarrow> bytes list option \<Rightarrow> (u64 \<times> bytes list) list" where
  "with_open gs cur = (case cur of None \<Rightarrow> gs | Some fs \<Rightarrow> gs @ [(of_nat (length gs), fs)])"

definition payloads :: "bool \<Rightarrow> bytes list \<Rightarrow> bytes list" where
  "payloads p fs = (if p then drop 1 fs else fs)"

abbreviation "all_fragments p tid gs \<equiv> concat (map (group_fragments p tid) gs)"

lemma group_fragments_payloads: "group_fragments p tid (n, fs) = frame_fragments tid n 0 (payloads p fs)"
  by (simp add: group_fragments_def payloads_def)

lemma renumber_closed: "renumber tid n k (kept False ops) = renumber tid n k' (kept False ops)"
  by (induction False ops rule: kept.induct) auto

lemma finish_idem: "finish_current_group api (finish_current_group api s) = finish_current_group api s"
  by (simp add: finish_current_group_def split: option.split)

lemma push_key_finishes:
  "ff_keyframe (fg_flags f) \<Longrightarrow> sink_push api f (finish_current_group api s) = sink_push api f s"
  by (simp add: sink_push_def finish_idem)

lemma of_nat_u64_nonzero: "0 < n \<Longrightarrow> n < 2 ^ 64 \<Longrightarrow> (of_nat n :: u64) \<noteq> 0"
  using unat_of_nat_id [of n, where 'a = 64] by auto

lemma delta_fragment:
  assumes "payloads p fs \<noteq> []" and "length fs < 2 ^ 64"
  shows "payloads p (fs @ [d]) = payloads p fs @ [d]"
    and "group_fragments p tid (n, fs @ [d]) = group_fragments p tid (n, fs) @
      [fragment_new tid n (of_nat (length (payloads p fs))) 0 0 0 0 FLAGS_DELTA d]"
proof -
  show e: "payloads p (fs @ [d]) = payloads p fs @ [d]" using assms(1) by (cases fs) (auto simp: payloads_def)
  have "length (payloads p fs) < 2 ^ 64" using assms(2) by (auto simp: payloads_def)
  then have "(of_nat (length (payloads p fs)) :: u64) \<noteq> 0" using assms(1) by (intro of_nat_u64_nonzero) simp_all
  then show "group_fragments p tid (n, fs @ [d]) = group_fragments p tid (n, fs) @
      [fragment_new tid n (of_nat (length (payloads p fs))) 0 0 0 0 FLAGS_DELTA d]"
    by (simp add: group_fragments_payloads e frame_fragments_append)
qed

lemma sink_run_fragments:
  assumes api: "moq_ok api groups healthy"
  shows "sink_ok groups healthy p gs cur s \<Longrightarrow> p \<or> (\<forall>i. SetInit i \<notin> set ops) \<Longrightarrow>
    (case cur of None \<Rightarrow> True | Some fs \<Rightarrow> payloads p fs \<noteq> [] \<and> length fs + length ops < 2 ^ 64) \<Longrightarrow> length ops + 2 < 2 ^ 64 \<Longrightarrow>
    all_fragments p tid (groups (sk_track (sink_run api ops s))) = all_fragments p tid (with_open gs cur) @
      renumber tid (of_nat (length (with_open gs cur))) (case cur of None \<Rightarrow> 0 | Some fs \<Rightarrow> of_nat (length (payloads p fs)))
        (kept (cur \<noteq> None) ops)"
proof (induction ops arbitrary: gs cur s)
  case Nil
  then show ?case by (auto simp: sink_ok_def with_open_def split: option.splits)
next
  case (Cons a ops)
  note ok = Cons.prems(1)
  show ?case
  proof (cases a)
    case (SetInit i)
    then have "sink_ok groups healthy p gs cur (sink_set_init_segment i s)"
      using ok Cons.prems(2) by (auto simp: sink_ok_def sink_set_init_segment_def split: option.splits)
    from Cons.IH [OF this] show ?thesis using Cons.prems SetInit by (auto split: option.splits)
  next
    case FinishGroup
    have "sink_ok groups healthy p (with_open gs cur) None (finish_current_group api s)"
      using finish_group_ok [OF api ok] by (simp add: with_open_def)
    from Cons.IH [OF this] show ?thesis
      using Cons.prems FinishGroup renumber_closed [of tid _ _ ops] by (auto simp: with_open_def [of _ None])
  next
    case (Push f)
    show ?thesis
    proof (cases "ff_keyframe (fg_flags f)")
      case True
      let ?s = "finish_current_group api s"
      define fs where "fs = (case fm_init_segment (sk_meta ?s) of None \<Rightarrow> [fg_payload f] | Some i \<Rightarrow> [i, fg_payload f])"
      have closed: "sink_ok groups healthy p (with_open gs cur) None ?s"
        using finish_group_ok [OF api ok] by (simp add: with_open_def)
      then have p: "payloads p fs = [fg_payload f]" by (auto simp: sink_ok_def fs_def payloads_def split: option.splits)
      have "sink_ok groups healthy p (with_open gs cur) (Some fs) (sink_step api a s)"
        using push_key_ok [OF api closed True] push_key_finishes [OF True, of api s] by (simp add: Push fs_def)
      note IH = Cons.IH [OF this]
      have "length fs \<le> 2" by (simp add: fs_def split: option.split)
      then have "all_fragments p tid (groups (sk_track (sink_run api ops (sink_step api a s)))) =
          all_fragments p tid (with_open (with_open gs cur) (Some fs)) @
          renumber tid (of_nat (length (with_open (with_open gs cur) (Some fs)))) 1 (kept True ops)"
        using IH Cons.prems(2,4) p by auto
      moreover have "all_fragments p tid (with_open (with_open gs cur) (Some fs)) = all_fragments p tid (with_open gs cur) @
          [fragment_new tid (of_nat (length (with_open gs cur))) 0 0 0 0 0 FLAGS_KEYFRAME (fg_payload f)]"
        by (simp add: with_open_def [of _ "Some fs"] group_fragments_payloads p)
      moreover have "length (with_open (with_open gs cur) (Some fs)) = length (with_open gs cur) + 1"
        by (simp add: with_open_def [of _ "Some fs"])
      ultimately show ?thesis using True Push by (simp add: add.commute)
    next
      case False
      show ?thesis
      proof (cases cur)
        case None
        then have "sink_step api a s = s" using ok False by (simp add: Push sink_ok_def sink_push_def)
        then show ?thesis using Cons.IH [OF ok] Cons.prems Push False None by simp
      next
        case (Some fs)
        have ne: "payloads p fs \<noteq> []" "length fs < 2 ^ 64" using Cons.prems(3) Some by auto
        have "sink_ok groups healthy p gs (Some (fs @ [fg_payload f])) (sink_step api a s)"
          using push_delta_ok [OF api ok [unfolded Some] False] by (simp add: Push)
        from Cons.IH [OF this] show ?thesis
          using Cons.prems Push False Some delta_fragment [OF ne]
          by (simp add: with_open_def add.commute)
      qed
    qed
  qed
qed

text \<open>The init segment is there before the first frame, or never.\<close>

fun init_before_frames :: "bool \<Rightarrow> sink_op list \<Rightarrow> bool" where
  "init_before_frames True ops = True"
| "init_before_frames False [] = True"
| "init_before_frames False (SetInit i # ops) = True"
| "init_before_frames False (FinishGroup # ops) = init_before_frames False ops"
| "init_before_frames False (Push f # ops) = (\<forall>i. SetInit i \<notin> set ops)"

lemma sink_step_meta: "sk_meta (sink_step api a s) = (case a of SetInit i \<Rightarrow> (sk_meta s)\<lparr>fm_init_segment := Some i\<rparr> | _ \<Rightarrow> sk_meta s)"
  by (cases a) (auto simp: sink_push_def finish_current_group_def sink_set_init_segment_def Let_def
      split: option.split prod.split if_split)

lemma sink_run_meta:
  "fm_init_segment (sk_meta (sink_run api ops s)) = None \<longleftrightarrow> fm_init_segment (sk_meta s) = None \<and> (\<forall>i. SetInit i \<notin> set ops)"
  by (induction ops arbitrary: s) (auto simp: sink_step_meta split: sink_op.splits)

lemma read_track:
  assumes "all_fragments p tid gs = fs" and "p \<longleftrightarrow> fm_init_segment rmeta \<noteq> None"
  shows "take_fragments n (track_stream_new tid rmeta gs) = take n fs"
proof -
  have "stream_ok (track_stream_new tid rmeta gs)" by (simp add: stream_ok_def track_stream_new_def)
  moreover have "stream_unread (track_stream_new tid rmeta gs) = fs"
    using assms by (simp add: stream_unread_def track_stream_new_def)
  ultimately show ?thesis by (simp add: take_fragments_eq)
qed

section \<open>Properties\<close>

lemma sink_run_reads:
  assumes api: "moq_ok api groups healthy" and "init_before_frames (fm_init_segment (sk_meta s) \<noteq> None) ops"
    and "sink_ok groups healthy (fm_init_segment (sk_meta s) \<noteq> None) [] None s" and "length ops + 2 < 2 ^ 64"
  shows "all_fragments (fm_init_segment (sk_meta (sink_run api ops s)) \<noteq> None) tid (groups (sk_track (sink_run api ops s))) =
    renumber tid 0 0 (kept False ops)"
  using assms(2-4)
proof (induction "fm_init_segment (sk_meta s) \<noteq> None" ops arbitrary: s rule: init_before_frames.induct)
  case (1 ops)
  from 1 have "fm_init_segment (sk_meta (sink_run api ops s)) \<noteq> None" by (simp add: sink_run_meta)
  then show ?case
    using sink_run_fragments [OF api 1(3), of ops tid] 1(1,4) by (simp add: with_open_def)
next
  case 2
  then show ?case by (simp add: sink_ok_def)
next
  case (3 i ops)
  let ?s = "sink_set_init_segment i s"
  have "sink_ok groups healthy True [] None ?s" using 3(3) by (simp add: sink_ok_def sink_set_init_segment_def)
  from sink_run_fragments [OF api this, of ops tid] 3(4) show ?case
    by (simp add: with_open_def sink_run_meta sink_set_init_segment_def)
next
  case (4 ops)
  have "finish_current_group api s = s" using 4(4) by (simp add: sink_ok_def finish_current_group_def)
  then show ?case using 4 by simp
next
  case (5 f ops)
  have none: "\<forall>i. SetInit i \<notin> set (Push f # ops)" using 5(2) unfolding 5(1) [symmetric] by simp
  have "fm_init_segment (sk_meta (sink_run api (Push f # ops) s)) = None"
    using 5(1) none sink_run_meta [of api "Push f # ops" s] by auto
  then show ?case
    using sink_run_fragments [OF api 5(3), of "Push f # ops" tid] 5(1,4) none by (simp add: with_open_def)
qed

text \<open>
  C12. Fragments survive the projection to MoQ: for any fragments pushed into a fresh sink, with the init segment
  set before the first frame or never, replaced and groups closed at any point, a reader of the track gets exactly
  those that followed a key frame in an open group, in order and byte for byte, the init segments skipped; their
  group is the number of key frames before, their object number the position in it, and their times and priority
  are lost.
\<close>

theorem moq_projection_roundtrip:
  assumes "moq_ok api groups healthy" and "healthy t" and "groups t = []"
    and "init_before_frames (fm_init_segment meta \<noteq> None) ops" and "length ops + 2 < 2 ^ 64"
  defines "sink \<equiv> sink_run api ops (moq_sink_new t meta)"
  assumes "fm_init_segment rmeta \<noteq> None \<longleftrightarrow> fm_init_segment (sk_meta sink) \<noteq> None"
  shows "take_fragments n (track_stream_new tid rmeta (groups (sk_track sink))) = take n (renumber tid 0 0 (kept False ops))"
proof -
  have ok: "sink_ok groups healthy (fm_init_segment (sk_meta (moq_sink_new t meta)) \<noteq> None) [] None (moq_sink_new t meta)"
    and i: "init_before_frames (fm_init_segment (sk_meta (moq_sink_new t meta)) \<noteq> None) ops"
    using assms(2-4) by (simp_all add: sink_ok_def moq_sink_new_def)
  show ?thesis unfolding sink_def
    by (rule read_track) (use sink_run_reads [OF assms(1) i ok assms(5)] assms(7) sink_def in simp_all)
qed

text \<open>A producer that keeps its groups in a list, for the witness.\<close>

definition list_api :: "(u64 \<times> bytes list) list moq_api" where
  "list_api = \<lparr>mq_append_group = (\<lambda>t. (t @ [(of_nat (length t), [])], Some (of_nat (length t)))),
     mq_write_frame = (\<lambda>n d t. (butlast t @ [(fst (last t), snd (last t) @ [d])], True)),
     mq_finish = (\<lambda>n t. t), mq_drop_group = (\<lambda>n t. t)\<rparr>"

lemma list_api_ok: "moq_ok list_api (\<lambda>t. t) (\<lambda>t. True)"
  by (auto simp: moq_ok_def list_api_def)

definition projection_example :: "sink_op list" where
  "projection_example =
     [Push (fragment_new [48] 7 0 9 100 100 10 FLAGS_DELTA [1]), Push (fragment_new [48] 8 0 9 200 200 10 FLAGS_KEYFRAME [2]),
      Push (fragment_new [48] 9 0 9 300 300 10 FLAGS_DELTA [3]), SetInit [0xEE], FinishGroup,
      Push (fragment_new [48] 10 0 9 400 400 10 FLAGS_DELTA [4]), Push (fragment_new [48] 11 0 9 500 500 10 FLAGS_KEYFRAME [5])]"

theorem moq_projection_roundtrip_witness:
  "take_fragments 9 (track_stream_new [48] (with_init_segment [0] (fragment_meta_new [] 90000))
     (sk_track (sink_run list_api projection_example (moq_sink_new [] (with_init_segment [0xAA] (fragment_meta_new [] 90000)))))) =
   [fragment_new [48] 0 0 0 0 0 0 FLAGS_KEYFRAME [2], fragment_new [48] 0 1 0 0 0 0 FLAGS_DELTA [3],
    fragment_new [48] 1 0 0 0 0 0 FLAGS_KEYFRAME [5]]"
  using moq_projection_roundtrip [OF list_api_ok, of "[]" "with_init_segment [0xAA] (fragment_meta_new [] 90000)" projection_example
      "with_init_segment [0] (fragment_meta_new [] 90000)" 9 "[48]"] sink_run_meta [of list_api projection_example]
  by (simp add: moq_sink_new_def projection_example_def with_init_segment_def fragment_meta_new_def fragment_new_def FLAGS_KEYFRAME_def FLAGS_DELTA_def)

lemma length_le64: "length (le64_bytes w) = 8"
  by (simp add: le64_bytes_def)

lemma le64_of_bytes: "le64 (le64_bytes w) = ucast (ucast w :: u8) OR push_bit 8 (ucast (ucast (drop_bit 8 w) :: u8)) OR
    push_bit 16 (ucast (ucast (drop_bit 16 w) :: u8)) OR push_bit 24 (ucast (ucast (drop_bit 24 w) :: u8)) OR
    push_bit 32 (ucast (ucast (drop_bit 32 w) :: u8)) OR push_bit 40 (ucast (ucast (drop_bit 40 w) :: u8)) OR
    push_bit 48 (ucast (ucast (drop_bit 48 w) :: u8)) OR push_bit 56 (ucast (ucast (drop_bit 56 w) :: u8))"
  by (simp add: le64_def le64_bytes_def)

lemma le64_roundtrip: "le64 (le64_bytes w) = w"
proof (rule bit_word_eqI)
  fix k assume "k < LENGTH(64)"
  then consider "k < 8" | "8 \<le> k \<and> k < 16" | "16 \<le> k \<and> k < 24" | "24 \<le> k \<and> k < 32" | "32 \<le> k \<and> k < 40"
    | "40 \<le> k \<and> k < 48" | "48 \<le> k \<and> k < 56" | "56 \<le> k \<and> k < 64" by (simp, linarith)
  then show "bit (le64 (le64_bytes w)) k = bit w k"
    by cases (simp_all add: le64_of_bytes bit_simps less_diff_conv2 cong: conj_cong)
qed

lemma anchor_roundtrip: "anchor_decode (anchor_encode a) = Some a"
  by (simp add: anchor_decode_def anchor_encode_def TIMING_ANCHOR_SIZE_def le64_roundtrip length_le64)


end
