(* ===== verification/RtmpBridge.thy ===== *)
theory RtmpBridge
  imports Fmp4 Scte35 Auth MoqSink Cmaf "HOL-Library.Sublist"
begin

text \<open>
  \<open>lvqr-ingest/src/bridge.rs\<close>, the session loop of \<open>rtmp.rs\<close> and \<open>remux/catalog.rs\<close>: from the events of an
  RTMP session to the fragments in the registry and the groups of the MoQ tracks.  The RTMP session itself
  (\<open>rml_rtmp\<close>), the SPS reader (\<open>h264-reader\<close>), \<open>mp4-atom\<close>, \<open>moq-lite\<close>, base64 and the clock are
  parameters; metrics and logging are left out.
\<close>

section \<open>State\<close>

record 't rtmp_env =
  re_moq :: "'t moq_api"
  re_decode_nal :: "bytes \<Rightarrow> bytes option"
  re_sps_dimensions :: "bytes \<Rightarrow> (u32 \<times> u32) option"
  re_moof :: moof_encoder
  re_now_ms :: u64
  re_has_events :: bool
  re_has_observer :: bool
  re_base64_decode :: "ustr \<Rightarrow> bytes option"
  re_validate_publish :: "(ustr \<Rightarrow> ustr \<Rightarrow> bool) option"
  re_has_registrar :: bool
  re_has_scte35 :: bool

record 't active_stream =
  as_video_sink :: "'t moq_sink"
  as_audio_sink :: "'t moq_sink"
  as_catalog_track :: 't
  as_timing_sink :: "'t option"
  as_video_config :: "video_config option"
  as_audio_config :: "audio_config option"
  as_video_init :: "bytes option"
  as_audio_init :: "bytes option"
  as_video_seq :: u32
  as_audio_seq :: u32
  as_last_video_ts :: "u32 option"

datatype relay_event = BroadcastStarted ustr | BroadcastStopped ustr

text \<open>The calls of the raw-sample observer, with stream and track.\<close>

datatype observer_call =
    ObservedVideoConfig ustr bytes
  | ObservedAudioConfig ustr bytes
  | ObservedSample ustr ustr raw_sample u64

datatype session_call = SessionRegistered ustr | SessionDeregistered ustr

record 't bridge =
  br_streams :: "ustr \<rightharpoonup> 't active_stream"
  br_registry :: registry
  br_events :: "relay_event list"
  br_observed :: "observer_call list"
  br_sessions :: "session_call list"

definition stream_name :: "ustr \<Rightarrow> ustr \<Rightarrow> ustr" where
  "stream_name app key = app @ ustr_of ''/'' @ key"

definition rtmp_video_track :: ustr where "rtmp_video_track = ustr_of ''0.mp4''"
definition rtmp_audio_track :: ustr where "rtmp_audio_track = ustr_of ''1.mp4''"

section \<open>Publishing starts and ends\<close>

text \<open>The tracks that the origin hands out, or \<open>None\<close> when the broadcast or one of its first three tracks could
  not be created; the timing track may be missing.\<close>

type_synonym 't opened = "('t \<times> 't \<times> 't \<times> 't option) option"

definition emit_event :: "'t rtmp_env \<Rightarrow> relay_event \<Rightarrow> 't bridge \<Rightarrow> 't bridge" where
  "emit_event env e br = (if re_has_events env then br\<lparr>br_events := br_events br @ [e]\<rparr> else br)"

definition on_publish :: "'t rtmp_env \<Rightarrow> ustr \<Rightarrow> ustr \<Rightarrow> 't opened \<Rightarrow> 't bridge \<Rightarrow> 't bridge" where
  "on_publish env app key opened br =
     (case opened of None \<Rightarrow> br
      | Some (video, audio, catalog, timing) \<Rightarrow>
          (let name = stream_name app key;
               br = emit_event env (BroadcastStarted name) br in
           br\<lparr>br_streams := (br_streams br)(name \<mapsto>
             \<lparr>as_video_sink = moq_sink_new video (fragment_meta_new (ustr_of ''avc1'') 90000),
              as_audio_sink = moq_sink_new audio (fragment_meta_new (ustr_of ''mp4a'') 0),
              as_catalog_track = catalog, as_timing_sink = timing, as_video_config = None, as_audio_config = None,
              as_video_init = None, as_audio_init = None, as_video_seq = 0, as_audio_seq = 0,
              as_last_video_ts = None\<rparr>)\<rparr>))"

definition on_unpublish :: "'t rtmp_env \<Rightarrow> ustr \<Rightarrow> ustr \<Rightarrow> 't bridge \<Rightarrow> 't bridge" where
  "on_unpublish env app key br =
     (let name = stream_name app key in
      case br_streams br name of None \<Rightarrow> br
      | Some st \<Rightarrow>
          (let br = emit_event env (BroadcastStopped name) (br\<lparr>br_streams := (br_streams br)(name := None)\<rparr>) in
           br\<lparr>br_registry := snd (registry_remove name rtmp_audio_track (snd (registry_remove name rtmp_video_track (br_registry br))))\<rparr>))"

section \<open>The catalog\<close>

definition generate_catalog :: "video_config option \<Rightarrow> audio_config option \<Rightarrow> string" where
  "generate_catalog video audio =
     (let tracks = (case video of None \<Rightarrow> [] | Some v \<Rightarrow>
            [''{\"name\":\"0.mp4\",\"packaging\":\"cmaf\",\"renderGroup\":0,\"codec\":\"'' @ video_codec_string v @
             ''\",\"mimeType\":\"video/mp4\"}'']) @
          (case audio of None \<Rightarrow> [] | Some a \<Rightarrow>
            [''{\"name\":\"1.mp4\",\"packaging\":\"cmaf\",\"renderGroup\":1,\"codec\":\"'' @ audio_codec_string a @
             ''\",\"mimeType\":\"audio/mp4\",\"samplerate\":'' @ dec_str (unat (ac_sample_rate a)) @
             '',\"channelCount\":'' @ dec_str (unat (ac_channels a)) @ ''}'']) in
      ''{\"version\":1,\"tracks\":['' @
        (case tracks of [] \<Rightarrow> '''' | [t] \<Rightarrow> t | t # u # _ \<Rightarrow> t @ '','' @ u) @ '']}'')"

definition maybe_write_catalog :: "'t rtmp_env \<Rightarrow> 't active_stream \<Rightarrow> 't active_stream" where
  "maybe_write_catalog env st =
     (if as_video_config st = None \<and> as_audio_config st = None then st
      else (let json = generate_catalog (as_video_config st) (as_audio_config st);
                (track, seq) = mq_append_group (re_moq env) (as_catalog_track st) in
        case seq of None \<Rightarrow> st\<lparr>as_catalog_track := track\<rparr>
        | Some g \<Rightarrow>
          (let (track, written) = mq_write_frame (re_moq env) g (ascii_bytes json) track in
           if \<not> written then st\<lparr>as_catalog_track := mq_drop_group (re_moq env) g track\<rparr>
           else st\<lparr>as_catalog_track := mq_drop_group (re_moq env) g (mq_finish (re_moq env) g track)\<rparr>)))"

definition annex_b_param_sets :: "video_config \<Rightarrow> bytes" where
  "annex_b_param_sets config =
     concat (map (\<lambda>nal. if nal = [] then [] else [0, 0, 0, 1] @ nal) (sps_list config @ pps_list config))"

section \<open>Video\<close>

definition extract_resolution :: "'t rtmp_env \<Rightarrow> bytes \<Rightarrow> (u32 \<times> u32) option" where
  "extract_resolution env sps_nalu =
     (if length sps_nalu < 2 then None
      else re_sps_dimensions env (case re_decode_nal env sps_nalu of Some rbsp \<Rightarrow> rbsp | None \<Rightarrow> drop 1 sps_nalu))"

definition observe :: "'t rtmp_env \<Rightarrow> observer_call list \<Rightarrow> 't bridge \<Rightarrow> 't bridge" where
  "observe env calls br = (if re_has_observer env then br\<lparr>br_observed := br_observed br @ calls\<rparr> else br)"

definition on_video_header ::
    "'t rtmp_env \<Rightarrow> ustr \<Rightarrow> video_config \<Rightarrow> 't active_stream \<Rightarrow> 't bridge \<Rightarrow> ('t bridge, unit) outcome" where
  "on_video_header env name config st br =
     (let (width, height) = (case Option.bind (case sps_list config of [] \<Rightarrow> None | sps # _ \<Rightarrow> Some sps)
            (extract_resolution env) of Some d \<Rightarrow> d | None \<Rightarrow> (0, 0)) in
      obind (video_init_segment_with_size config (ucast width) (ucast height)) (\<lambda>init.
        let param_sets = annex_b_param_sets config;
            br = (if param_sets \<noteq> [] then observe env [ObservedVideoConfig name param_sets] br else br);
            st = st\<lparr>as_video_sink := sink_set_init_segment init (as_video_sink st), as_video_config := Some config,
              as_video_init := Some init\<rparr>;
            br = br\<lparr>br_registry := publish_init name rtmp_video_track (ustr_of ''avc1'') 90000 init (br_registry br)\<rparr> in
        Ok (br\<lparr>br_streams := (br_streams br)(name \<mapsto> maybe_write_catalog env st)\<rparr>)))"

definition saturating_add64 :: "u64 \<Rightarrow> u64 \<Rightarrow> u64" where
  "saturating_add64 a b = (if unat a + unat b < 2 ^ 64 then a + b else - 1)"

text \<open>The fragment of a video tag.  \<open>cts\<close> is an \<open>i32\<close>: \<open>as u64\<close> extends its sign, and the product wraps.\<close>

definition video_sample :: "bool \<Rightarrow> u32 \<Rightarrow> bytes \<Rightarrow> u32 \<Rightarrow> u32 option \<Rightarrow> raw_sample" where
  "video_sample keyframe cts nalu_data timestamp prev_ts =
     (let duration_ms = (case prev_ts of Some prev \<Rightarrow> if prev \<le> timestamp then timestamp - prev else 0 | None \<Rightarrow> 33) in
      \<lparr>rs_track_id = 1, rs_dts = ucast timestamp * 90, rs_cts_offset = cts * 90, rs_duration = duration_ms * 90,
       rs_payload = nalu_data, rs_keyframe = keyframe\<rparr>)"

definition video_fragment :: "u64 \<Rightarrow> u32 \<Rightarrow> u32 \<Rightarrow> raw_sample \<Rightarrow> bytes \<Rightarrow> media_fragment" where
  "video_fragment ingest_ms video_seq cts sample seg =
     with_ingest_time_ms ingest_ms (fragment_new rtmp_video_track (ucast video_seq) 0 0 (rs_dts sample)
       (saturating_add64 (rs_dts sample) (scast cts * 90)) (ucast (rs_duration sample))
       (if rs_keyframe sample then FLAGS_KEYFRAME else FLAGS_DELTA) seg)"

definition timing_after_push ::
    "'t rtmp_env \<Rightarrow> (u64 option, moq_sink_error) outcome \<Rightarrow> media_fragment \<Rightarrow> 't option \<Rightarrow> 't option" where
  "timing_after_push env result frag timing =
     (case result of
        Ok (Some group_seq) \<Rightarrow>
          if fg_ingest_time_ms frag \<noteq> 0
          then map_option (\<lambda>t. snd (push_anchor (re_moq env) group_seq (fg_ingest_time_ms frag) t)) timing
          else timing
      | _ \<Rightarrow> timing)"

definition on_video_nalu ::
    "'t rtmp_env \<Rightarrow> ustr \<Rightarrow> bool \<Rightarrow> u32 \<Rightarrow> bytes \<Rightarrow> u32 \<Rightarrow> 't active_stream \<Rightarrow> 't bridge \<Rightarrow> ('t bridge, unit) outcome" where
  "on_video_nalu env name keyframe cts nalu_data timestamp st br =
     (if as_video_config st = None \<or> as_video_init st = None then Ok br
      else
        (let sample = video_sample keyframe cts nalu_data timestamp (as_last_video_ts st);
             ingest_ms = re_now_ms env;
             br = observe env [ObservedSample name rtmp_video_track sample ingest_ms] br;
             seq = as_video_seq st + 1 in
         obind (build_moof_mdat (re_moof env) seq 1 (rs_dts sample) [sample]) (\<lambda>seg.
           let frag = video_fragment ingest_ms seq cts sample seg;
               (result, sink) = sink_push (re_moq env) frag (as_video_sink st);
               st = st\<lparr>as_video_sink := sink, as_timing_sink := timing_after_push env result frag (as_timing_sink st),
                 as_video_seq := seq, as_last_video_ts := Some timestamp\<rparr> in
           Ok (br\<lparr>br_streams := (br_streams br)(name \<mapsto> st),
             br_registry := publish_fragment (re_now_ms env) name rtmp_video_track (ustr_of ''avc1'') 90000 frag (br_registry br)\<rparr>))))"

definition on_video :: "'t rtmp_env \<Rightarrow> ustr \<Rightarrow> ustr \<Rightarrow> bytes \<Rightarrow> u32 \<Rightarrow> 't bridge \<Rightarrow> ('t bridge, unit) outcome" where
  "on_video env app key data timestamp br =
     (let name = stream_name app key in
      case br_streams br name of None \<Rightarrow> Ok br
      | Some st \<Rightarrow> obind (parse_video_tag data) (\<lambda>tag. case tag of
            VideoSequenceHeader config \<Rightarrow> on_video_header env name config st br
          | VideoNalu keyframe cts nalu_data \<Rightarrow> on_video_nalu env name keyframe cts nalu_data timestamp st br
          | VideoEndOfSequence \<Rightarrow> Ok (br\<lparr>br_streams := (br_streams br)(name \<mapsto>
              st\<lparr>as_video_sink := finish_current_group (re_moq env) (as_video_sink st)\<rparr>)\<rparr>)
          | VideoUnknown \<Rightarrow> Ok br))"

section \<open>Audio\<close>

definition on_audio_header ::
    "'t rtmp_env \<Rightarrow> ustr \<Rightarrow> audio_config \<Rightarrow> 't active_stream \<Rightarrow> 't bridge \<Rightarrow> ('t bridge, unit) outcome" where
  "on_audio_header env name config st br =
     obind (audio_init_segment config) (\<lambda>init.
       let st = st\<lparr>as_audio_sink := sink_set_init_segment init (as_audio_sink st), as_audio_config := Some config,
             as_audio_init := Some init\<rparr>;
           br = observe env [ObservedAudioConfig name (ac_asc config)] br;
           br = br\<lparr>br_registry := publish_init name rtmp_audio_track (ustr_of ''mp4a.40.2'') (ac_sample_rate config) init (br_registry br)\<rparr> in
       Ok (br\<lparr>br_streams := (br_streams br)(name \<mapsto> maybe_write_catalog env st)\<rparr>))"

text \<open>\<open>None\<close>: the loop that patches the segment does not end.\<close>

definition on_audio_raw ::
    "'t rtmp_env \<Rightarrow> ustr \<Rightarrow> bytes \<Rightarrow> u32 \<Rightarrow> 't active_stream \<Rightarrow> 't bridge \<Rightarrow> ('t bridge, unit) outcome option" where
  "on_audio_raw env name aac_data timestamp st br =
     (case as_audio_config st of None \<Rightarrow> Some (Ok br)
      | Some config \<Rightarrow>
          if as_audio_init st = None then Some (Ok br)
          else
            (let seq = as_audio_seq st + 1; duration = 1024;
                 base_dts = ucast timestamp * ucast (ac_sample_rate config) div 1000; ingest_ms = re_now_ms env;
                 sample = \<lparr>rs_track_id = 2, rs_dts = base_dts, rs_cts_offset = 0, rs_duration = duration,
                   rs_payload = aac_data, rs_keyframe = True\<rparr>;
                 br = observe env [ObservedSample name rtmp_audio_track sample ingest_ms] br in
             Option.bind (audio_segment seq base_dts duration aac_data) (\<lambda>r. Some (obind r (\<lambda>seg.
               let frag = with_ingest_time_ms ingest_ms
                     (fragment_new rtmp_audio_track (ucast seq) 0 0 base_dts base_dts (ucast duration) FLAGS_KEYFRAME seg);
                   sink = snd (sink_push (re_moq env) frag (as_audio_sink st));
                   st = st\<lparr>as_audio_sink := finish_current_group (re_moq env) sink, as_audio_seq := seq\<rparr> in
               Ok (br\<lparr>br_streams := (br_streams br)(name \<mapsto> st),
                 br_registry := publish_fragment (re_now_ms env) name rtmp_audio_track (ustr_of ''mp4a.40.2'')
                   (ac_sample_rate config) frag (br_registry br)\<rparr>))))))"

definition on_audio :: "'t rtmp_env \<Rightarrow> ustr \<Rightarrow> ustr \<Rightarrow> bytes \<Rightarrow> u32 \<Rightarrow> 't bridge \<Rightarrow> ('t bridge, unit) outcome option" where
  "on_audio env app key data timestamp br =
     (let name = stream_name app key in
      case br_streams br name of None \<Rightarrow> Some (Ok br)
      | Some st \<Rightarrow> (case parse_audio_tag data of
            Ok (AudioSequenceHeader config) \<Rightarrow> Some (on_audio_header env name config st br)
          | Ok (RawAac aac_data) \<Rightarrow> on_audio_raw env name aac_data timestamp st br
          | Ok AudioUnknown \<Rightarrow> Some (Ok br)
          | Err e \<Rightarrow> Some (Err e) | Panic \<Rightarrow> Some Panic))"

section \<open>Cue points\<close>

datatype amf0_value = Utf8String ustr | Amf0Object "(ustr \<times> amf0_value) list" | Amf0Other

definition utf8_prop :: "(ustr \<times> amf0_value) list \<Rightarrow> string \<Rightarrow> ustr option" where
  "utf8_prop props k = (case map_of props (ustr_of k) of Some (Utf8String s) \<Rightarrow> Some s | _ \<Rightarrow> None)"

definition parse_oncuepoint_scte35 :: "'t rtmp_env \<Rightarrow> amf0_value list \<Rightarrow> bytes option" where
  "parse_oncuepoint_scte35 env vals =
     (case vals of
        Utf8String meth # Amf0Object props # _ \<Rightarrow>
          if meth \<noteq> ustr_of ''onCuePoint'' then None
          else if utf8_prop props ''name'' \<noteq> Some (ustr_of ''scte35-bin64'') then None
          else (case Option.bind (utf8_prop props ''data'') (re_base64_decode env) of
              None \<Rightarrow> None | Some decoded \<Rightarrow> if decoded = [] then None else Some decoded)
      | _ \<Rightarrow> None)"

definition on_scte35 :: "'t rtmp_env \<Rightarrow> ustr \<Rightarrow> ustr \<Rightarrow> bytes \<Rightarrow> 't bridge \<Rightarrow> ('t bridge, unit) outcome" where
  "on_scte35 env app key raw br =
     (case parse_splice_info_section raw of
        Ok info \<Rightarrow> Ok (br\<lparr>br_registry := publish_scte35 (re_now_ms env) (stream_name app key)
          (ucast (case si_event_id info of Some i \<Rightarrow> i | None \<Rightarrow> 0))
          (case absolute_pts info of Some p \<Rightarrow> p | None \<Rightarrow> 0)
          (case si_duration info of Some d \<Rightarrow> d | None \<Rightarrow> 0) raw (br_registry br)\<rparr>)
      | Err e \<Rightarrow> Ok br | Panic \<Rightarrow> Panic)"

section \<open>The session\<close>

text \<open>
  What one \<open>handle_input\<close> of the protocol library gives.  The flags tell whether the write to the socket, or the
  library's acceptance of a request and its writes, succeed; a publish request carries what the origin will
  hand out for it.
\<close>

datatype 't rtmp_event =
    OutboundResponse bool
  | ConnectionRequested ustr bool
  | PublishRequested ustr ustr bool "'t opened"
  | VideoData ustr ustr bytes u32
  | AudioData ustr ustr bytes u32
  | PublishFinished ustr ustr
  | MetadataChanged "u32 option" "u32 option"
  | Amf0Data ustr ustr "amf0_value list"
  | OtherRtmpEvent

text \<open>What the read loop waits for: input, input that the library rejects, end of file, a read error, or the
  cancellation of the session by an administrator.\<close>

datatype 't rtmp_read = InputRead "'t rtmp_event list" | InputRejected | ReadEof | ReadFailed | SessionCancelled

record rtmp_session =
  rt_app :: ustr
  rt_key :: ustr
  rt_registered :: "ustr option"

datatype session_status = SessionRunning | SessionOver | SessionError

definition register_session :: "'t rtmp_env \<Rightarrow> ustr \<Rightarrow> rtmp_session \<Rightarrow> 't bridge \<Rightarrow> rtmp_session \<times> 't bridge" where
  "register_session env name s br =
     (if re_has_registrar env
      then (s\<lparr>rt_registered := Some name\<rparr>, br\<lparr>br_sessions := br_sessions br @ [SessionRegistered name]\<rparr>) else (s, br))"

definition unpublish_current :: "'t rtmp_env \<Rightarrow> rtmp_session \<Rightarrow> 't bridge \<Rightarrow> 't bridge" where
  "unpublish_current env s br = (if rt_app s \<noteq> [] \<and> rt_key s \<noteq> [] then on_unpublish env (rt_app s) (rt_key s) br else br)"

text \<open>A callback that panics or never returns takes the session with it.\<close>

definition run_callback ::
    "('t bridge, unit) outcome option \<Rightarrow> rtmp_session \<Rightarrow> (session_status \<times> rtmp_session \<times> 't bridge, unit) outcome option" where
  "run_callback r s = (case r of None \<Rightarrow> None | Some r \<Rightarrow> Some (obind r (\<lambda>br. Ok (SessionRunning, s, br))))"

definition rtmp_event_step ::
    "'t rtmp_env \<Rightarrow> 't rtmp_event \<Rightarrow> rtmp_session \<Rightarrow> 't bridge \<Rightarrow> (session_status \<times> rtmp_session \<times> 't bridge, unit) outcome option" where
  "rtmp_event_step env e s br =
     (case e of
        OutboundResponse written \<Rightarrow> Some (Ok (if written then SessionRunning else SessionError, s, br))
      | ConnectionRequested app accepted \<Rightarrow>
          Some (Ok (if accepted then SessionRunning else SessionError, s\<lparr>rt_app := app\<rparr>, br))
      | PublishRequested app key accepted opened \<Rightarrow>
          (if (case re_validate_publish env of None \<Rightarrow> False | Some validate \<Rightarrow> \<not> validate app key)
           then Some (Ok (SessionOver, s, br))
           else if \<not> accepted then Some (Ok (SessionError, s\<lparr>rt_key := key\<rparr>, br))
           else (let (s, br) = register_session env (stream_name app key) (s\<lparr>rt_key := key\<rparr>) (on_publish env app key opened br) in
             Some (Ok (SessionRunning, s, br))))
      | VideoData app key data timestamp \<Rightarrow> run_callback (Some (on_video env app key data timestamp br)) s
      | AudioData app key data timestamp \<Rightarrow> run_callback (on_audio env app key data timestamp br) s
      | PublishFinished app key \<Rightarrow> Some (Ok (SessionRunning, s\<lparr>rt_key := []\<rparr>, on_unpublish env app key br))
      | MetadataChanged video audio \<Rightarrow>
          (case video of
             Some i \<Rightarrow> if i \<noteq> 7 then Some (Ok (SessionOver, s, unpublish_current env s br))
               else Some (Ok (SessionRunning, s, br))
           | None \<Rightarrow> Some (Ok (SessionRunning, s, br)))
      | Amf0Data app key data \<Rightarrow>
          (case parse_oncuepoint_scte35 env data of
             Some sec \<Rightarrow> if re_has_scte35 env then run_callback (Some (on_scte35 env app key sec br)) s
               else Some (Ok (SessionRunning, s, br))
           | None \<Rightarrow> Some (Ok (SessionRunning, s, br)))
      | OtherRtmpEvent \<Rightarrow> Some (Ok (SessionRunning, s, br)))"

fun rtmp_events ::
    "'t rtmp_env \<Rightarrow> 't rtmp_event list \<Rightarrow> rtmp_session \<Rightarrow> 't bridge \<Rightarrow> (session_status \<times> rtmp_session \<times> 't bridge, unit) outcome option" where
  "rtmp_events env [] s br = Some (Ok (SessionRunning, s, br))"
| "rtmp_events env (e # es) s br =
     (case rtmp_event_step env e s br of
        Some (Ok (SessionRunning, s, br)) \<Rightarrow> rtmp_events env es s br
      | r \<Rightarrow> r)"

text \<open>The environment of each turn of the loop is that turn's own: its clock moves.\<close>

fun rtmp_reads ::
    "('t rtmp_env \<times> 't rtmp_read) list \<Rightarrow> rtmp_session \<Rightarrow> 't bridge \<Rightarrow> (session_status \<times> rtmp_session \<times> 't bridge, unit) outcome option" where
  "rtmp_reads [] s br = Some (Ok (SessionRunning, s, br))"
| "rtmp_reads ((env, r) # rs) s br =
     (case r of
        SessionCancelled \<Rightarrow> Some (Ok (SessionOver, s, unpublish_current env s br))
      | ReadEof \<Rightarrow> Some (Ok (SessionOver, s, unpublish_current env s br))
      | ReadFailed \<Rightarrow> Some (Ok (SessionError, s, br))
      | InputRejected \<Rightarrow> Some (Ok (SessionError, s, br))
      | InputRead es \<Rightarrow> (case rtmp_events env es s br of
            Some (Ok (SessionRunning, s, br)) \<Rightarrow> rtmp_reads rs s br
          | r \<Rightarrow> r))"

text \<open>
  The whole of \<open>handle_rtmp_session\<close>: the bytes behind the handshake are given to the library but only its
  responses are sent; then the read loop; the guard deregisters on every way out.
\<close>

definition rtmp_session_new :: rtmp_session where
  "rtmp_session_new = \<lparr>rt_app = [], rt_key = [], rt_registered = None\<rparr>"

fun responses_written :: "'t rtmp_event list \<Rightarrow> bool" where
  "responses_written [] = True"
| "responses_written (OutboundResponse written # es) = (written \<and> responses_written es)"
| "responses_written (e # es) = responses_written es"

definition deregister_guard :: "'t rtmp_env \<Rightarrow> rtmp_session \<Rightarrow> 't bridge \<Rightarrow> 't bridge" where
  "deregister_guard env s br = (case rt_registered s of
     Some name \<Rightarrow> if re_has_registrar env then br\<lparr>br_sessions := br_sessions br @ [SessionDeregistered name]\<rparr> else br
   | None \<Rightarrow> br)"

definition handle_rtmp_session ::
    "'t rtmp_env \<Rightarrow> bool \<Rightarrow> 't rtmp_event list option \<Rightarrow> ('t rtmp_env \<times> 't rtmp_read) list \<Rightarrow> 't bridge \<Rightarrow>
     (session_status \<times> 't bridge, unit) outcome option" where
  "handle_rtmp_session env greeted remaining turns br =
     (if \<not> greeted then Some (Ok (SessionError, br))
      else case remaining of None \<Rightarrow> Some (Ok (SessionError, br))
      | Some es \<Rightarrow>
          if \<not> responses_written es then Some (Ok (SessionError, br))
          else (case rtmp_reads turns rtmp_session_new br of
              None \<Rightarrow> None
            | Some r \<Rightarrow> Some (obind r (\<lambda>(status, s, br).
                Ok (status, if status = SessionRunning then br else deregister_guard env s br)))))"

section \<open>The video callback as operations of the sink\<close>

fun pushes :: "sink_op list \<Rightarrow> media_fragment list" where
  "pushes [] = []"
| "pushes (Push f # as) = f # pushes as"
| "pushes (_ # as) = pushes as"

lemma pushes_append [simp]: "pushes (as @ bs) = pushes as @ pushes bs"
  by (induction as rule: pushes.induct) simp_all

lemma sink_run_append: "sink_run api (as @ bs) s = sink_run api bs (sink_run api as s)"
  by (induction as arbitrary: s) simp_all

text \<open>The sink together with the timing track.\<close>

fun timed_step :: "'t moq_api \<Rightarrow> sink_op \<Rightarrow> 't moq_sink \<times> 't option \<Rightarrow> 't moq_sink \<times> 't option" where
  "timed_step api (Push f) (s, timing) = (snd (sink_push api f s),
     (case fst (sink_push api f s) of
        Ok (Some g) \<Rightarrow> if fg_ingest_time_ms f \<noteq> 0 then map_option (\<lambda>t. snd (push_anchor api g (fg_ingest_time_ms f) t)) timing
          else timing
      | _ \<Rightarrow> timing))"
| "timed_step api a (s, timing) = (sink_step api a s, timing)"

fun timed_run :: "'t moq_api \<Rightarrow> sink_op list \<Rightarrow> 't moq_sink \<times> 't option \<Rightarrow> 't moq_sink \<times> 't option" where
  "timed_run api [] p = p"
| "timed_run api (a # as) p = timed_run api as (timed_step api a p)"

lemma timed_run_append: "timed_run api (as @ bs) p = timed_run api bs (timed_run api as p)"
  by (induction as arbitrary: p) simp_all

lemma timed_step_sink: "fst (timed_step api a p) = sink_step api a (fst p)"
  by (cases a; cases p) simp_all

lemma timed_run_sink: "fst (timed_run api as p) = sink_run api as (fst p)"
  by (induction as arbitrary: p) (simp_all add: timed_step_sink)

definition video_state :: "'t active_stream \<Rightarrow> 't moq_sink \<times> 't option" where
  "video_state st = (as_video_sink st, as_timing_sink st)"

lemma catalog_keeps [simp]:
  "as_video_sink (maybe_write_catalog env st) = as_video_sink st"
  "as_timing_sink (maybe_write_catalog env st) = as_timing_sink st"
  "as_video_config (maybe_write_catalog env st) = as_video_config st"
  "as_video_init (maybe_write_catalog env st) = as_video_init st"
  by (simp_all add: maybe_write_catalog_def Let_def split_def split: option.split)

text \<open>Frames are only pushed when the init segment is there.\<close>

definition video_ready :: "'t active_stream \<Rightarrow> bool" where
  "video_ready st \<longleftrightarrow> (as_video_init st \<noteq> None \<longrightarrow> fm_init_segment (sk_meta (as_video_sink st)) \<noteq> None)"

lemma on_video_ops:
  assumes "br_streams br (stream_name app key) = Some st" and "re_moq env = api" and "video_ready st"
    and "on_video env app key data timestamp br = Ok br'"
  shows "\<exists>ops st'. br_streams br' (stream_name app key) = Some st' \<and> video_ready st' \<and> length ops \<le> 1 \<and>
    video_state st' = timed_run api ops (video_state st) \<and>
    published_on (br_registry br') (stream_name app key, rtmp_video_track) =
      published_on (br_registry br) (stream_name app key, rtmp_video_track) @ pushes ops \<and>
    (\<forall>f \<in> set (pushes ops). fg_ingest_time_ms f = re_now_ms env) \<and>
    (fm_init_segment (sk_meta (as_video_sink st)) = None \<longrightarrow> pushes ops = [])"
proof -
  let ?n = "stream_name app key"
  obtain tag where tag: "parse_video_tag data = Ok tag"
    using assms(1,4) by (auto simp: on_video_def Let_def obind_eq_Ok)
  have run: "(case tag of VideoSequenceHeader config \<Rightarrow> on_video_header env ?n config st br
      | VideoNalu keyframe cts nalu_data \<Rightarrow> on_video_nalu env ?n keyframe cts nalu_data timestamp st br
      | VideoEndOfSequence \<Rightarrow> Ok (br\<lparr>br_streams := (br_streams br)(?n \<mapsto>
          st\<lparr>as_video_sink := finish_current_group (re_moq env) (as_video_sink st)\<rparr>)\<rparr>)
      | VideoUnknown \<Rightarrow> Ok br) = Ok br'"
    using assms(1,4) tag by (simp add: on_video_def Let_def)
  show ?thesis
  proof (cases tag)
    case (VideoSequenceHeader config)
    then obtain init where init: "br_registry br' = publish_init ?n rtmp_video_track (ustr_of ''avc1'') 90000 init (br_registry br)"
      "br_streams br' ?n = Some (maybe_write_catalog env (st\<lparr>as_video_sink := sink_set_init_segment init (as_video_sink st),
         as_video_config := Some config, as_video_init := Some init\<rparr>))"
      using run by (auto simp: on_video_header_def observe_def obind_eq_Ok Let_def split_def split: if_splits)
    show ?thesis
      by (intro exI [of _ "[SetInit init]"] exI conjI)
        (auto simp: init video_state_def video_ready_def published_on_init sink_set_init_segment_def)
  next
    case VideoEndOfSequence
    then show ?thesis
      using run assms(2,3)
      by (intro exI [of _ "[FinishGroup]"]) (auto simp: video_state_def video_ready_def finish_current_group_def
          split: option.split)
  next
    case VideoUnknown
    then show ?thesis using run assms(1,3) by (intro exI [of _ "[]"]) auto
  next
    case (VideoNalu keyframe cts nalu_data)
    show ?thesis
    proof (cases "as_video_config st = None \<or> as_video_init st = None")
      case True
      then show ?thesis using run assms(1,3) VideoNalu by (intro exI [of _ "[]"]) (auto simp: on_video_nalu_def)
    next
      case False
      define sample where "sample = video_sample keyframe cts nalu_data timestamp (as_last_video_ts st)"
      obtain seg where seg: "build_moof_mdat (re_moof env) (as_video_seq st + 1) 1 (rs_dts sample) [sample] = Ok seg"
        using run VideoNalu False by (auto simp: on_video_nalu_def Let_def obind_eq_Ok sample_def)
      define frag where "frag = video_fragment (re_now_ms env) (as_video_seq st + 1) cts sample seg"
      have ing: "fg_ingest_time_ms frag = re_now_ms env" by (simp add: frag_def video_fragment_def with_ingest_time_ms_def)
      then have same: "(if fg_ingest_time_ms frag = 0 then frag\<lparr>fg_ingest_time_ms := re_now_ms env\<rparr> else frag) = frag" by simp
      have br': "br_registry br' = publish_fragment (re_now_ms env) ?n rtmp_video_track (ustr_of ''avc1'') 90000 frag (br_registry br)"
        "br_streams br' ?n = Some (st\<lparr>as_video_sink := snd (sink_push api frag (as_video_sink st)),
           as_timing_sink := timing_after_push env (fst (sink_push api frag (as_video_sink st))) frag (as_timing_sink st),
           as_video_seq := as_video_seq st + 1, as_last_video_ts := Some timestamp\<rparr>)"
        using run VideoNalu False seg assms(2)
        by (auto simp: on_video_nalu_def Let_def observe_def sample_def [symmetric] frag_def split_def)
      have meta: "sk_meta (snd (sink_push api frag s)) = sk_meta s" for s
        using sink_step_meta [of api "Push frag" s] by simp
      have ready: "fm_init_segment (sk_meta (as_video_sink st)) \<noteq> None" using False assms(3) by (auto simp: video_ready_def)
      show ?thesis
      proof (intro exI [of _ "[Push frag]"] exI conjI)
        show "br_streams br' ?n = Some (st\<lparr>as_video_sink := snd (sink_push api frag (as_video_sink st)),
           as_timing_sink := timing_after_push env (fst (sink_push api frag (as_video_sink st))) frag (as_timing_sink st),
           as_video_seq := as_video_seq st + 1, as_last_video_ts := Some timestamp\<rparr>)" by (rule br'(2))
      qed (use assms(2,3) ready in \<open>auto simp: video_ready_def meta video_state_def timing_after_push_def br'(1)
          published_on_fragment same ing\<close>)
    qed
  qed
qed

section \<open>All video callbacks of a stream\<close>

fun on_videos :: "ustr \<Rightarrow> ustr \<Rightarrow> ('t rtmp_env \<times> bytes \<times> u32) list \<Rightarrow> 't bridge \<Rightarrow> ('t bridge, unit) outcome" where
  "on_videos app key [] br = Ok br"
| "on_videos app key ((env, data, timestamp) # cs) br = obind (on_video env app key data timestamp br) (on_videos app key cs)"

lemma init_before_append:
  "(\<not> b \<longrightarrow> pushes as = []) \<Longrightarrow> init_before_frames (b \<or> (\<exists>i. SetInit i \<in> set as)) bs \<Longrightarrow> init_before_frames b (as @ bs)"
proof (induction as)
  case (Cons a as)
  then show ?case by (cases a; cases b) auto
qed auto

lemma on_videos_ops:
  assumes "\<forall>c \<in> set cs. re_moq (fst c) = api"
  shows "br_streams br (stream_name app key) = Some st \<Longrightarrow> video_ready st \<Longrightarrow> on_videos app key cs br = Ok br' \<Longrightarrow>
    \<exists>ops st'. br_streams br' (stream_name app key) = Some st' \<and> length ops \<le> length cs \<and>
    video_state st' = timed_run api ops (video_state st) \<and>
    published_on (br_registry br') (stream_name app key, rtmp_video_track) =
      published_on (br_registry br) (stream_name app key, rtmp_video_track) @ pushes ops \<and>
    (\<forall>f \<in> set (pushes ops). \<exists>c \<in> set cs. fg_ingest_time_ms f = re_now_ms (fst c)) \<and>
    init_before_frames (fm_init_segment (sk_meta (as_video_sink st)) \<noteq> None) ops"
  using assms
proof (induction cs arbitrary: br st)
  case Nil
  then show ?case by (intro exI [of _ "[]"]) (auto elim: init_before_frames.elims, cases "fm_init_segment (sk_meta (as_video_sink st)) = None", auto)
next
  case (Cons c cs)
  obtain env data ts where c: "c = (env, data, ts)" by (cases c)
  obtain br1 where b1: "on_video env app key data ts br = Ok br1" "on_videos app key cs br1 = Ok br'"
    using Cons.prems(3) by (auto simp: c obind_eq_Ok)
  have api: "re_moq env = api" using Cons.prems(4) c by simp
  obtain ops1 st1 where o1: "br_streams br1 (stream_name app key) = Some st1" "video_ready st1" "length ops1 \<le> 1"
    "video_state st1 = timed_run api ops1 (video_state st)"
    "published_on (br_registry br1) (stream_name app key, rtmp_video_track) =
      published_on (br_registry br) (stream_name app key, rtmp_video_track) @ pushes ops1"
    "\<forall>f \<in> set (pushes ops1). fg_ingest_time_ms f = re_now_ms env"
    "fm_init_segment (sk_meta (as_video_sink st)) = None \<longrightarrow> pushes ops1 = []"
    using on_video_ops [OF Cons.prems(1) api Cons.prems(2) b1(1)] by (elim exE conjE) (rule that, assumption+)
  obtain ops2 st2 where o2: "br_streams br' (stream_name app key) = Some st2" "length ops2 \<le> length cs"
    "video_state st2 = timed_run api ops2 (video_state st1)"
    "published_on (br_registry br') (stream_name app key, rtmp_video_track) =
      published_on (br_registry br1) (stream_name app key, rtmp_video_track) @ pushes ops2"
    "\<forall>f \<in> set (pushes ops2). \<exists>c \<in> set cs. fg_ingest_time_ms f = re_now_ms (fst c)"
    "init_before_frames (fm_init_segment (sk_meta (as_video_sink st1)) \<noteq> None) ops2"
    using Cons.IH [OF o1(1,2) b1(2)] Cons.prems(4) by auto
  have "as_video_sink st1 = sink_run api ops1 (as_video_sink st)"
    using arg_cong [OF o1(4), of fst] by (simp add: timed_run_sink video_state_def)
  then have "(fm_init_segment (sk_meta (as_video_sink st1)) \<noteq> None) =
      (fm_init_segment (sk_meta (as_video_sink st)) \<noteq> None \<or> (\<exists>i. SetInit i \<in> set ops1))"
    using sink_run_meta [of api ops1 "as_video_sink st"] by auto
  then have "init_before_frames (fm_init_segment (sk_meta (as_video_sink st)) \<noteq> None) (ops1 @ ops2)"
    using o1(7) o2(6) by (intro init_before_append) auto
  then show ?case
    using o1 o2 c by (intro exI [of _ "ops1 @ ops2"] exI [of _ st2]) (auto simp: timed_run_append)
qed

fun anchors :: "nat \<Rightarrow> media_fragment list \<Rightarrow> (u64 \<times> bytes list) list" where
  "anchors n [] = []"
| "anchors n (f # fs) = (of_nat n, [anchor_encode \<lparr>an_group_id = of_nat n, an_ingest_time_ms = fg_ingest_time_ms f\<rparr>]) # anchors (n + 1) fs"

lemma push_anchor_ok:
  assumes api: "moq_ok api groups healthy" and "healthy t"
  shows "fst (push_anchor api g ms t) = Ok ()" and "healthy (snd (push_anchor api g ms t))"
    and "groups (snd (push_anchor api g ms t)) =
      groups t @ [(of_nat (length (groups t)), [anchor_encode \<lparr>an_group_id = g, an_ingest_time_ms = ms\<rparr>])]"
proof -
  let ?n = "of_nat (length (groups t)) :: u64" and ?a = "anchor_encode \<lparr>an_group_id = g, an_ingest_time_ms = ms\<rparr>"
  obtain t1 where t1: "mq_append_group api t = (t1, Some ?n)" "healthy t1" "groups t1 = groups t @ [(?n, [])]"
    by (rule moq_okD [OF assms])
  obtain t2 where t2: "mq_write_frame api ?n ?a t1 = (t2, True)" "healthy t2" "groups t2 = groups t @ [(?n, [] @ [?a])]"
    by (rule moq_ok_write [OF api t1(2,3)])
  have p: "push_anchor api g ms t = (Ok (), mq_drop_group api ?n (mq_finish api ?n t2))"
    by (simp add: push_anchor_def t1(1) t2(1))
  show "fst (push_anchor api g ms t) = Ok ()" "healthy (snd (push_anchor api g ms t))"
    "groups (snd (push_anchor api g ms t)) = groups t @ [(?n, [?a])]"
    using moq_ok_close [OF api] t2(2,3) by (simp_all add: p)
qed

lemma timed_run_anchors:
  assumes api: "moq_ok api groups healthy" "moq_ok api groups healthy"
  shows "sink_ok groups healthy p gs cur s \<Longrightarrow> p \<or> (\<forall>i. SetInit i \<notin> set ops) \<Longrightarrow> healthy t \<Longrightarrow>
    length (groups t) = length (with_open gs cur) \<Longrightarrow> \<forall>f \<in> set (pushes ops). fg_ingest_time_ms f \<noteq> 0 \<Longrightarrow>
    \<exists>s' t'. timed_run api ops (s, Some t) = (s', Some t') \<and>
      groups t' = groups t @ anchors (length (groups t)) (filter (\<lambda>f. ff_keyframe (fg_flags f)) (pushes ops))"
proof (induction ops arbitrary: gs cur s t)
  case (Cons a ops)
  note ok = Cons.prems(1)
  show ?case
  proof (cases a)
    case (SetInit i)
    then have "sink_ok groups healthy p gs cur (sink_set_init_segment i s)"
      using ok Cons.prems(2) by (auto simp: sink_ok_def sink_set_init_segment_def split: option.splits)
    from Cons.IH [OF this _ Cons.prems(3,4)] show ?thesis using Cons.prems SetInit by auto
  next
    case FinishGroup
    have "sink_ok groups healthy p (with_open gs cur) None (finish_current_group api s)"
      using finish_group_ok [OF api(1) ok] by (simp add: with_open_def)
    from Cons.IH [OF this _ Cons.prems(3)] show ?thesis
      using Cons.prems FinishGroup by (auto simp: with_open_def [of _ None])
  next
    case (Push f)
    show ?thesis
    proof (cases "ff_keyframe (fg_flags f)")
      case True
      let ?s = "finish_current_group api s" and ?n = "length (with_open gs cur)"
      define fs where "fs = (case fm_init_segment (sk_meta ?s) of None \<Rightarrow> [fg_payload f] | Some i \<Rightarrow> [i, fg_payload f])"
      have closed: "sink_ok groups healthy p (with_open gs cur) None ?s"
        using finish_group_ok [OF api(1) ok] by (simp add: with_open_def)
      have push: "fst (sink_push api f s) = Ok (Some (of_nat ?n))"
        "sink_ok groups healthy p (with_open gs cur) (Some fs) (snd (sink_push api f s))"
        using push_key_ok [OF api(1) closed True] push_key_finishes [OF True, of api s] by (simp_all add: fs_def)
      let ?t = "snd (push_anchor api (of_nat ?n) (fg_ingest_time_ms f) t)"
      have t: "healthy ?t" "groups ?t = groups t @ [(of_nat (length (groups t)),
          [anchor_encode \<lparr>an_group_id = of_nat ?n, an_ingest_time_ms = fg_ingest_time_ms f\<rparr>])]"
        using push_anchor_ok [OF api(1) Cons.prems(3)] by simp_all
      have len: "length (groups ?t) = length (with_open (with_open gs cur) (Some fs))"
        using t(2) Cons.prems(4) by (simp add: with_open_def [of _ "Some fs"])
      have step: "timed_step api a (s, Some t) = (snd (sink_push api f s), Some ?t)"
        using Push push(1) Cons.prems(5) by simp
      obtain s' t' where r: "timed_run api ops (snd (sink_push api f s), Some ?t) = (s', Some t')"
        "groups t' = groups ?t @ anchors (length (groups ?t)) (filter (\<lambda>f. ff_keyframe (fg_flags f)) (pushes ops))"
        using Cons.IH [OF push(2) _ t(1) len] Cons.prems(2,5) Push by auto
      show ?thesis
        using r True Push step t(2) Cons.prems(4) by (intro exI [of _ s'] exI [of _ t']) simp
    next
      case False
      show ?thesis
      proof (cases cur)
        case None
        then have "timed_step api a (s, Some t) = (s, Some t)" using ok False by (simp add: Push sink_ok_def sink_push_def)
        then show ?thesis using Cons.IH [OF ok _ Cons.prems(3,4)] Cons.prems Push False by auto
      next
        case (Some fs)
        have push: "fst (sink_push api f s) = Ok None" "sink_ok groups healthy p gs (Some (fs @ [fg_payload f])) (snd (sink_push api f s))"
          using push_delta_ok [OF api(1) ok [unfolded Some] False] by simp_all
        have "length (groups t) = length (with_open gs (Some (fs @ [fg_payload f])))"
          using Cons.prems(4) Some by (simp add: with_open_def)
        from Cons.IH [OF push(2) _ Cons.prems(3) this] show ?thesis using Cons.prems Push False push(1) by auto
      qed
    qed
  qed
qed simp

section \<open>The life of a session\<close>

lemma observe_streams [simp]: "br_streams (observe env calls br) = br_streams br"
  by (simp add: observe_def)

lemma on_video_header_dom:
  "on_video_header env name config st br = Ok br' \<Longrightarrow> br_streams br name \<noteq> None \<Longrightarrow> (br_streams br' n = None) = (br_streams br n = None)"
  by (auto simp: on_video_header_def Let_def split_def obind_eq_Ok split: if_splits)

lemma on_video_nalu_dom:
  "on_video_nalu env name key cts data ts st br = Ok br' \<Longrightarrow> br_streams br name \<noteq> None \<Longrightarrow> (br_streams br' n = None) = (br_streams br n = None)"
  by (auto simp: on_video_nalu_def Let_def split_def obind_eq_Ok split: if_splits)

lemma on_video_dom: "on_video env app key data ts br = Ok br' \<Longrightarrow> (br_streams br' n = None) = (br_streams br n = None)"
proof (cases "br_streams br (stream_name app key)")
  case (Some st)
  assume a: "on_video env app key data ts br = Ok br'"
  then obtain tag where "parse_video_tag data = Ok tag" by (auto simp: on_video_def Let_def Some obind_eq_Ok)
  then show ?thesis
    using a Some by (cases tag) (auto simp: on_video_def Let_def dest!: on_video_header_dom on_video_nalu_dom split: if_splits)
qed (simp add: on_video_def Let_def)

lemma on_audio_dom: "on_audio env app key data ts br = Some (Ok br') \<Longrightarrow> (br_streams br' n = None) = (br_streams br n = None)"
  by (auto simp: on_audio_def on_audio_header_def on_audio_raw_def observe_def Let_def obind_eq_Ok bind_eq_Some_conv
      split: option.splits outcome.splits flv_audio_tag.splits if_splits)

lemma on_scte35_dom: "on_scte35 env app key raw br = Ok br' \<Longrightarrow> br_streams br' = br_streams br"
  by (auto simp: on_scte35_def split: outcome.splits)

lemma emit_event_streams [simp]: "br_streams (emit_event env e br) = br_streams br"
  by (simp add: emit_event_def)

lemma on_unpublish_streams: "br_streams (on_unpublish env app key br) = (br_streams br)(stream_name app key := None)"
  by (auto simp: on_unpublish_def Let_def split: option.split)

lemma on_publish_streams: "br_streams (on_publish env app key opened br) n \<noteq> None \<Longrightarrow>
    br_streams br n \<noteq> None \<or> n = stream_name app key"
  by (auto simp: on_publish_def Let_def split: option.splits if_splits)

lemma register_session_simps [simp]:
  "br_streams (snd (register_session env name s br)) = br_streams br"
  "rt_app (fst (register_session env name s br)) = rt_app s" "rt_key (fst (register_session env name s br)) = rt_key s"
  by (simp_all add: register_session_def)

text \<open>The order in which the protocol library raises events: a publish follows its connect, one at a time.\<close>

fun session_order :: "ustr \<Rightarrow> ustr \<Rightarrow> 't rtmp_event list \<Rightarrow> bool" where
  "session_order app key [] = True"
| "session_order app key (ConnectionRequested a acc # es) = (key = [] \<and> session_order a key es)"
| "session_order app key (PublishRequested a k acc opened # es) =
     (a = app \<and> a \<noteq> [] \<and> k \<noteq> [] \<and> key = [] \<and> session_order app k es)"
| "session_order app key (PublishFinished a k # es) = (a = app \<and> k = key \<and> session_order app [] es)"
| "session_order app key (e # es) = session_order app key es"

definition session_inv :: "'t bridge \<Rightarrow> rtmp_session \<Rightarrow> 't bridge \<Rightarrow> bool" where
  "session_inv br0 s br \<longleftrightarrow> (rt_key s \<noteq> [] \<longrightarrow> rt_app s \<noteq> []) \<and>
     (\<forall>n. br_streams br n \<noteq> None \<longrightarrow> br_streams br0 n \<noteq> None \<or> rt_key s \<noteq> [] \<and> n = stream_name (rt_app s) (rt_key s))"

lemma session_inv_over:
  "session_inv br0 s br \<Longrightarrow> br_streams (unpublish_current env s br) n \<noteq> None \<Longrightarrow> br_streams br0 n \<noteq> None"
  by (auto simp: session_inv_def unpublish_current_def on_unpublish_streams split: if_splits)

lemma session_inv_cong:
  "session_inv br0 s br \<Longrightarrow> (\<And>n. (br_streams br' n = None) = (br_streams br n = None)) \<Longrightarrow> session_inv br0 s br'"
  by (simp add: session_inv_def)

lemma run_callback_eq:
  "run_callback r s = Some (Ok (status, s', br')) \<longleftrightarrow> r = Some (Ok br') \<and> s' = s \<and> status = SessionRunning"
  by (cases r; cases "the r") (auto simp: run_callback_def)

lemma event_keeps_session:
  assumes "session_inv br0 s br" and "session_order (rt_app s) (rt_key s) (e # es)"
    and "rtmp_event_step env e s br = Some (Ok (status, s', br'))"
  shows "(status = SessionRunning \<longrightarrow> session_inv br0 s' br' \<and> session_order (rt_app s') (rt_key s') es) \<and>
    (status = SessionOver \<longrightarrow> (\<forall>n. br_streams br' n \<noteq> None \<longrightarrow> br_streams br0 n \<noteq> None))"
proof (cases e)
  case (PublishRequested app key accepted opened)
  let ?br = "on_publish env app key opened br"
  have o: "app = rt_app s" "app \<noteq> []" "key \<noteq> []" "rt_key s = []" "session_order (rt_app s) key es"
    using assms(2) unfolding PublishRequested session_order.simps by blast+
  have "session_inv br0 (s\<lparr>rt_key := key\<rparr>) ?br"
    using assms(1) o on_publish_streams [of env app key opened br] by (fastforce simp: session_inv_def)
  then have "session_inv br0 (fst (register_session env (stream_name app key) (s\<lparr>rt_key := key\<rparr>) ?br))
      (snd (register_session env (stream_name app key) (s\<lparr>rt_key := key\<rparr>) ?br))"
    by (simp add: session_inv_def)
  moreover have "\<forall>n. br_streams br n \<noteq> None \<longrightarrow> br_streams br0 n \<noteq> None" using assms(1) o(4) by (simp add: session_inv_def)
  ultimately show ?thesis
    using assms(3) o(1,5) PublishRequested
      register_session_simps(2,3) [of env "stream_name app key" "s\<lparr>rt_key := key\<rparr>" ?br]
    by (cases "register_session env (stream_name app key) (s\<lparr>rt_key := key\<rparr>) ?br")
      (auto simp: rtmp_event_step_def Let_def simp del: register_session_simps split: if_splits)
next
  case (PublishFinished app key)
  then have "br' = on_unpublish env (rt_app s) (rt_key s) br" "s' = s\<lparr>rt_key := []\<rparr>" "status = SessionRunning"
      "session_order (rt_app s) [] es"
    using assms(2,3) by (simp_all add: rtmp_event_step_def)
  then show ?thesis using assms(1) by (auto simp: session_inv_def on_unpublish_streams split: if_splits)
next
  case (VideoData app key data ts)
  then have "on_video env app key data ts br = Ok br'" "s' = s" "status = SessionRunning"
    using assms(3) by (simp_all add: rtmp_event_step_def run_callback_eq)
  then show ?thesis using session_inv_cong [OF assms(1) on_video_dom] assms(2) VideoData by simp
next
  case (AudioData app key data ts)
  then have "on_audio env app key data ts br = Some (Ok br')" "s' = s" "status = SessionRunning"
    using assms(3) by (simp_all add: rtmp_event_step_def run_callback_eq)
  then show ?thesis using session_inv_cong [OF assms(1) on_audio_dom] assms(2) AudioData by simp
next
  case (Amf0Data app key data)
  then have "s' = s" "status = SessionRunning" "br_streams br' = br_streams br"
    using assms(3) by (auto simp: rtmp_event_step_def run_callback_eq dest: on_scte35_dom split: option.splits if_splits)
  then show ?thesis using session_inv_cong [OF assms(1), of br'] assms(2) Amf0Data by simp
next
  case (MetadataChanged video audio)
  then show ?thesis using assms session_inv_over [OF assms(1)]
    by (auto simp: rtmp_event_step_def split: option.splits if_splits)
qed (use assms in \<open>auto simp: rtmp_event_step_def session_inv_def split: if_splits\<close>)

lemma events_keep_session:
  assumes "session_inv br0 s br" and "session_order (rt_app s) (rt_key s) (es @ rest)"
    and "rtmp_events env es s br = Some (Ok (status, s', br'))"
  shows "(status = SessionRunning \<longrightarrow> session_inv br0 s' br' \<and> session_order (rt_app s') (rt_key s') rest) \<and>
    (status = SessionOver \<longrightarrow> (\<forall>n. br_streams br' n \<noteq> None \<longrightarrow> br_streams br0 n \<noteq> None))"
  using assms
proof (induction es arbitrary: s br)
  case (Cons e es)
  obtain st1 s1 br1 where e: "rtmp_event_step env e s br = Some (Ok (st1, s1, br1))"
    using Cons.prems(3) by (auto split: option.splits outcome.splits)
  have ord: "session_order (rt_app s) (rt_key s) (e # (es @ rest))" using Cons.prems(2) by simp
  note step = event_keeps_session [OF Cons.prems(1) ord e]
  show ?case
  proof (cases "st1 = SessionRunning")
    case True
    then show ?thesis using step e Cons.IH [of s1 br1] Cons.prems(3) by simp
  next
    case False
    then have "(st1, s1, br1) = (status, s', br')" using e Cons.prems(3) by (cases st1) simp_all
    then show ?thesis using step False by simp
  qed
qed simp

definition turn_events :: "('t rtmp_env \<times> 't rtmp_read) list \<Rightarrow> 't rtmp_event list" where
  "turn_events turns = concat (map (\<lambda>(env, r). case r of InputRead es \<Rightarrow> es | _ \<Rightarrow> []) turns)"

lemma reads_over:
  assumes "session_inv br0 s br" and "session_order (rt_app s) (rt_key s) (turn_events turns)"
    and "rtmp_reads turns s br = Some (Ok (SessionOver, s', br'))"
  shows "\<forall>n. br_streams br' n \<noteq> None \<longrightarrow> br_streams br0 n \<noteq> None"
  using assms
proof (induction turns arbitrary: s br)
  case (Cons t turns)
  obtain env r where t: "t = (env, r)" by (cases t)
  show ?case
  proof (cases r)
    case (InputRead es)
    obtain st1 s1 br1 where e: "rtmp_events env es s br = Some (Ok (st1, s1, br1))"
      using Cons.prems(3) t InputRead by (auto split: option.splits outcome.splits)
    have ord: "session_order (rt_app s) (rt_key s) (es @ turn_events turns)"
      using Cons.prems(2) t InputRead by (simp add: turn_events_def)
    note step = events_keep_session [OF Cons.prems(1) ord e]
    show ?thesis
    proof (cases "st1 = SessionRunning")
      case True
      then show ?thesis using step e Cons.IH [of s1 br1] Cons.prems(3) t InputRead by simp
    next
      case False
      then have "(st1, s1, br1) = (SessionOver, s', br')" using e Cons.prems(3) t InputRead by (cases st1) simp_all
      then show ?thesis using step by simp
    qed
  qed (use Cons.prems session_inv_over [OF Cons.prems(1)] t in auto)
qed simp

lemma reads_append:
  "rtmp_reads turns s br = Some (Ok (SessionRunning, s', br')) \<Longrightarrow> rtmp_reads (turns @ later) s br = rtmp_reads later s' br'"
proof (induction turns arbitrary: s br)
  case (Cons t turns)
  obtain env r where t: "t = (env, r)" by (cases t)
  show ?case
  proof (cases r)
    case (InputRead es)
    then obtain s1 br1 where "rtmp_events env es s br = Some (Ok (SessionRunning, s1, br1))"
        "rtmp_reads turns s1 br1 = Some (Ok (SessionRunning, s', br'))"
      using Cons.prems t by (auto split: option.splits outcome.splits session_status.splits)
    then show ?thesis using Cons.IH [of s1 br1] t InputRead by simp
  qed (use Cons.prems t in simp_all)
qed simp

lemma deregister_keeps [simp]:
  "br_streams (deregister_guard env s br) = br_streams br" "br_events (deregister_guard env s br) = br_events br"
  "br_registry (deregister_guard env s br) = br_registry br"
  by (simp_all add: deregister_guard_def split: option.split)

text \<open>What came with the last bytes of the handshake is never acted upon, a request to connect included.\<close>

lemma handshake_tail_ignored:
  "responses_written es \<Longrightarrow> handle_rtmp_session env True (Some es) turns br = handle_rtmp_session env True (Some []) turns br"
  by (simp add: handle_rtmp_session_def)

text \<open>A connection that publishes one stream after another deregisters only the last.\<close>

lemma first_registration_stays:
  assumes "re_has_registrar env" and "re_validate_publish env = None" and "k1 \<noteq> []" and "k2 \<noteq> []" and "app \<noteq> []"
  shows "\<exists>br'. handle_rtmp_session env True (Some [])
      [(env, InputRead [ConnectionRequested app True, PublishRequested app k1 True o1, PublishFinished app k1,
         PublishRequested app k2 True o2]), (env, ReadEof)] br = Some (Ok (SessionOver, br')) \<and>
    br_sessions br' = br_sessions br @ [SessionRegistered (stream_name app k1), SessionRegistered (stream_name app k2),
      SessionDeregistered (stream_name app k2)]"
  using assms
  by (auto simp: handle_rtmp_session_def rtmp_event_step_def register_session_def unpublish_current_def
      deregister_guard_def rtmp_session_new_def on_publish_def on_unpublish_def emit_event_def Let_def split: option.split)

text \<open>When two connections publish the same name, the end of the older one takes the stream of the newer.\<close>

lemma older_publisher_removes_newer:
  "br_streams (on_unpublish env app key (on_publish env' app key o2 (on_publish env app key o1 br))) (stream_name app key) = None"
  by (simp add: on_unpublish_streams)

section \<open>Properties\<close>

text \<open>Before the init segment is set nothing is pushed, so the timing track is that of the sink that has one.\<close>

lemma init_anchors:
  assumes "moq_ok api groups healthy" and "sink_ok groups healthy False [] None s" and "healthy t" and "groups t = []"
    and "init_before_frames False ops" and "\<forall>f \<in> set (pushes ops). fg_ingest_time_ms f \<noteq> 0"
  shows "\<exists>s' t'. timed_run api ops (s, Some t) = (s', Some t') \<and>
    groups t' = anchors 0 (filter (\<lambda>f. ff_keyframe (fg_flags f)) (pushes ops))"
  using assms(2,5,6)
proof (induction False ops arbitrary: s rule: init_before_frames.induct)
  case 2
  then show ?case using assms(4) by simp
next
  case (3 i ops)
  have "sink_ok groups healthy True [] None (sink_set_init_segment i s)"
    using 3(1) by (simp add: sink_ok_def sink_set_init_segment_def)
  from timed_run_anchors [OF assms(1,1) this _ assms(3), of ops] show ?case
    using 3(3) assms(4) by (simp add: with_open_def)
next
  case (4 ops)
  have "finish_current_group api s = s" using 4(2) by (simp add: sink_ok_def finish_current_group_def)
  then show ?case using 4 by simp
next
  case (5 f ops)
  then show ?case
    using timed_run_anchors [OF assms(1,1) 5(1) _ assms(3), of "Push f # ops"] assms(4) by (auto simp: with_open_def)
qed auto

lemma kept_keys: "filter (\<lambda>f. ff_keyframe (fg_flags f)) (kept b ops) = filter (\<lambda>f. ff_keyframe (fg_flags f)) (pushes ops)"
  by (induction b ops rule: kept.induct) auto

lemma kept_subseq: "subseq (kept b ops) (pushes ops)"
  by (induction b ops rule: kept.induct) auto

text \<open>
  C8. The three projections of an RTMP publisher's video agree: whatever tags it sends, what a MoQ reader gets is a
  subsequence of what went to the registry with every key frame in it, in order and byte for byte (what is missing are
  deltas without an open group), and the timing track holds for the n-th MoQ group the anchor with that group's number
  and the ingest time of its key frame.
\<close>

theorem rtmp_projections_agree:
  assumes "moq_ok api groups healthy" and "\<forall>c \<in> set cs. re_moq (fst c) = api \<and> re_now_ms (fst c) \<noteq> 0"
    and "healthy video" and "groups video = []" and "healthy timing" and "groups timing = []" and "length cs + 2 < 2 ^ 64"
    and "on_videos app key cs (on_publish env app key (Some (video, audio, catalog, Some timing)) br) = Ok br'"
  defines "k \<equiv> (stream_name app key, rtmp_video_track)"
  shows "\<exists>st sent readable timing'. br_streams br' (stream_name app key) = Some st \<and>
    published_on (br_registry br') k = published_on (br_registry br) k @ sent \<and> subseq readable sent \<and>
    filter (\<lambda>f. ff_keyframe (fg_flags f)) readable = filter (\<lambda>f. ff_keyframe (fg_flags f)) sent \<and>
    (\<forall>tid n. take_fragments n (track_stream_new tid (sk_meta (as_video_sink st)) (groups (sk_track (as_video_sink st)))) =
      take n (renumber tid 0 0 readable)) \<and>
    as_timing_sink st = Some timing' \<and>
    groups timing' = anchors 0 (filter (\<lambda>f. ff_keyframe (fg_flags f)) sent)"
proof -
  let ?br = "on_publish env app key (Some (video, audio, catalog, Some timing)) br"
  obtain st0 where st0: "br_streams ?br (stream_name app key) = Some st0"
      "as_video_sink st0 = moq_sink_new video (fragment_meta_new (ustr_of ''avc1'') 90000)" "as_timing_sink st0 = Some timing"
      "as_video_init st0 = None"
    by (simp add: on_publish_def Let_def)
  have reg: "br_registry ?br = br_registry br" by (simp add: on_publish_def Let_def emit_event_def)
  have ready: "video_ready st0" by (simp add: video_ready_def st0)
  have none: "fm_init_segment (sk_meta (as_video_sink st0)) = None" by (simp add: st0 moq_sink_new_def fragment_meta_new_def)
  obtain ops st where o: "br_streams br' (stream_name app key) = Some st" "length ops \<le> length cs"
      "video_state st = timed_run api ops (video_state st0)"
      "published_on (br_registry br') k = published_on (br_registry br) k @ pushes ops"
      "\<forall>f \<in> set (pushes ops). \<exists>c \<in> set cs. fg_ingest_time_ms f = re_now_ms (fst c)" "init_before_frames False ops"
    using on_videos_ops [OF _ st0(1) ready assms(8), of api] assms(2) none reg unfolding k_def by auto
  have len: "length ops + 2 < 2 ^ 64" using o(2) assms(7) by simp
  have ok: "sink_ok groups healthy False [] None (as_video_sink st0)"
    using assms(3,4) by (simp add: sink_ok_def st0(2) moq_sink_new_def fragment_meta_new_def)
  have sink: "as_video_sink st = sink_run api ops (as_video_sink st0)"
    using arg_cong [OF o(3), of fst] by (simp add: video_state_def timed_run_sink)
  have fragments: "all_fragments (fm_init_segment (sk_meta (as_video_sink st)) \<noteq> None) tid (groups (sk_track (as_video_sink st))) =
      renumber tid 0 0 (kept False ops)" for tid
    unfolding sink by (rule sink_run_reads [OF assms(1) _ _ len]) (use none o(6) ok in simp_all)
  have ing: "\<forall>f \<in> set (pushes ops). fg_ingest_time_ms f \<noteq> 0" using o(5) assms(2) by fastforce
  obtain t where t: "as_timing_sink st = Some t" "groups t = anchors 0 (filter (\<lambda>f. ff_keyframe (fg_flags f)) (pushes ops))"
    using init_anchors [OF assms(1) ok assms(5,6) o(6) ing] o(3) by (auto simp: video_state_def st0(3))
  show ?thesis
    by (intro exI [of _ st] exI [of _ "pushes ops"] exI [of _ "kept False ops"] exI [of _ t])
      (use o t fragments kept_keys kept_subseq read_track [OF fragments] in simp)
qed


text \<open>
  A session that ends with an I/O error, such as a reset of the TCP connection, or with input that the protocol
  library rejects cleans up nothing: the active streams, the registry entries and the events are those from before the
  error, so the broadcast stays and no \<open>BroadcastStopped\<close> is emitted.
\<close>

theorem rtmp_error_leaks_streams:
  assumes "handle_rtmp_session env True (Some es) turns br = Some (Ok (SessionRunning, br1))" and "r \<in> {ReadFailed, InputRejected}"
  shows "\<exists>br2. handle_rtmp_session env True (Some es) (turns @ [(env', r)]) br = Some (Ok (SessionError, br2)) \<and>
    br_streams br2 = br_streams br1 \<and> br_registry br2 = br_registry br1 \<and> br_events br2 = br_events br1"
proof -
  obtain s where s: "responses_written es" "rtmp_reads turns rtmp_session_new br = Some (Ok (SessionRunning, s, br1))"
    using assms(1) by (auto simp: handle_rtmp_session_def obind_eq_Ok split: if_splits option.splits)
  show ?thesis
    using assms(2) s(1) by (auto simp: handle_rtmp_session_def reads_append [OF s(2)])
qed

lemma unat_dts: fixes timestamp :: u32 shows "int (unat (ucast timestamp * 90 :: u64)) = int (unat timestamp) * 90"
proof -
  have small: "unat timestamp < 2 ^ 32" using unsigned_less [of timestamp, where 'a = nat] by simp
  have "unat (ucast timestamp :: u64) = unat timestamp"
    using small by (simp add: unsigned_ucast_eq take_bit_nat_eq_self)
  then have "unat (ucast timestamp * 90 :: u64) = (unat timestamp * 90) mod 2 ^ 64"
    by (simp add: unat_word_ariths)
  then have n: "unat (ucast timestamp * 90 :: u64) = unat timestamp * 90" using small by simp
  show ?thesis unfolding n by simp
qed
lemma unat_offset: fixes cts :: u32 assumes "- (2 ^ 23) \<le> sint cts" and "sint cts < 2 ^ 23"
  shows "int (unat (scast cts * 90 :: u64)) = (if 0 \<le> sint cts then 90 * sint cts else 2 ^ 64 + 90 * sint cts)"
proof -
  have eq: "(scast cts * 90 :: u64) = word_of_int (90 * sint cts)"
    by (simp add: signed_of_int)
  have "int (unat (scast cts * 90 :: u64)) = (90 * sint cts) mod 2 ^ 64"
    unfolding eq unsigned_of_int by (simp add: take_bit_eq_mod)
  also have "\<dots> = (if 0 \<le> sint cts then 90 * sint cts else 2 ^ 64 + 90 * sint cts)"
  proof (cases "0 \<le> sint cts")
    case False
    have "(90 * sint cts) mod 2 ^ 64 = (90 * sint cts + 2 ^ 64) mod 2 ^ 64" by simp
    also have "\<dots> = 90 * sint cts + 2 ^ 64" using False assms by (intro mod_pos_pos_trivial) simp_all
    finally show ?thesis using False by simp
  qed (use assms in simp)
  finally show ?thesis .
qed

text \<open>
  C38. The presentation time of an RTMP frame is exact for a composition offset of at least 0.  A negative offset, which
  FLV allows, is sign-extended to 64 bits before it is added: the time saturates at 2^64 - 1 instead of lying before
  the decoding time, or wraps near it when it would be negative.
\<close>

theorem rtmp_presentation_time:
  fixes cts timestamp :: u32
  assumes "- (2 ^ 23) \<le> sint cts" and "sint cts < 2 ^ 23"
  defines "dts \<equiv> int (unat timestamp) * 90"
  shows "int (unat (fg_pts (video_fragment ms seq cts (video_sample key cts data timestamp prev) seg))) =
    (if 0 \<le> sint cts then dts + 90 * sint cts
     else if - (90 * sint cts) \<le> dts then 2 ^ 64 - 1 else 2 ^ 64 + dts + 90 * sint cts)"
proof -
  let ?x = "scast cts * 90 :: u64" and ?d = "ucast timestamp * 90 :: u64"
  have d: "int (unat ?d) = dts" unfolding dts_def by (rule unat_dts)
  note x = unat_offset [OF assms(1,2)]
  have fits: "int m + int n < 2 ^ 64 \<longleftrightarrow> m + n < 2 ^ 64" for m n by auto
  have sum: "int (unat (saturating_add64 a b)) = (if int (unat a) + int (unat b) < 2 ^ 64 then int (unat a) + int (unat b) else 2 ^ 64 - 1)" for a b :: u64
  proof (cases "unat a + unat b < 2 ^ 64")
    case True
    then have "unat (a + b) = unat a + unat b" by (simp add: unat_word_ariths)
    moreover have i: "int (unat a) + int (unat b) < 2 ^ 64" using True by (simp only: fits)
    ultimately show ?thesis by (simp only: saturating_add64_def if_P [OF True] if_P [OF i] of_nat_add if_True)
  next
    case False
    have "unat (- 1 :: u64) = 2 ^ 64 - 1" by (simp add: unsigned_minus_1_eq_mask mask_eq_exp_minus_1)
    moreover have i: "\<not> int (unat a) + int (unat b) < 2 ^ 64" using False by (simp only: fits not_True_eq_False not_False_eq_True)
    ultimately show ?thesis by (simp only: saturating_add64_def if_not_P [OF False] if_not_P [OF i] if_False) simp
  qed
  have pts: "fg_pts (video_fragment ms seq cts (video_sample key cts data timestamp prev) seg) = saturating_add64 ?d ?x"
    by (simp add: video_fragment_def video_sample_def with_ingest_time_ms_def fragment_new_def Let_def)
  have "0 \<le> dts" "dts < 90 * 2 ^ 32"
    using unsigned_less [of timestamp, where 'a = int] by (simp_all add: dts_def)
  then show ?thesis unfolding pts sum d x using assms(1,2) by auto
qed

section \<open>Witnesses\<close>

definition bridge_example_env :: "(u64 \<times> bytes list) list rtmp_env" where
  "bridge_example_env = \<lparr>re_moq = list_api, re_decode_nal = (\<lambda>n. None), re_sps_dimensions = (\<lambda>b. None), re_moof = flat_encoder,
     re_now_ms = 1700000000000, re_has_events = True, re_has_observer = False, re_base64_decode = (\<lambda>s. None),
     re_validate_publish = None, re_has_registrar = True, re_has_scte35 = True\<rparr>"

definition bridge_new :: "(u64 \<times> bytes list) list bridge" where
  "bridge_new = \<lparr>br_streams = Map.empty, br_registry = Map.empty, br_events = [], br_observed = [], br_sessions = []\<rparr>"

definition tag_header :: bytes where "tag_header = [0x17, 0, 0, 0, 0] @ avcc_record avcc_example"
definition tag_key :: bytes where "tag_key = [0x17, 1, 0, 0, 0, 0xAA]"
definition tag_delta :: bytes where "tag_delta = [0x27, 1, 0, 0, 0, 0xBB]"

lemma example_tags:
  "parse_video_tag tag_header = Ok (VideoSequenceHeader avcc_example)"
  "parse_video_tag tag_key = Ok (VideoNalu True 0 [0xAA])" "parse_video_tag tag_delta = Ok (VideoNalu False 0 [0xBB])"
proof -
  have "length (avcc_record avcc_example) \<ge> 5" by (simp add: avcc_record_def avcc_example_def)
  then show "parse_video_tag tag_header = Ok (VideoSequenceHeader avcc_example)"
    using parse_written_avcc [OF avcc_example_ok, of "[]"] by (simp add: parse_video_tag_def tag_header_def)
  show "parse_video_tag tag_key = Ok (VideoNalu True 0 [0xAA])" "parse_video_tag tag_delta = Ok (VideoNalu False 0 [0xBB])"
    by (simp_all add: parse_video_tag_def tag_key_def tag_delta_def sign_extend_24_def)
qed

definition example_calls :: "((u64 \<times> bytes list) list rtmp_env \<times> bytes \<times> u32) list" where
  "example_calls = [(bridge_example_env, tag_header, 0), (bridge_example_env, tag_key, 0), (bridge_example_env, tag_delta, 33)]"

definition opened_bridge :: "(u64 \<times> bytes list) list bridge" where
  "opened_bridge = on_publish bridge_example_env [97] [98] (Some ([], [], [], Some [])) bridge_new"

lemma nalu_published:
  assumes "parse_video_tag data = Ok (VideoNalu key cts d)" and "br_streams br (stream_name app k) = Some st"
    and "as_video_config st \<noteq> None" and "as_video_init st \<noteq> None"
    and "\<And>n dts s. rs_payload s = d \<Longrightarrow> \<exists>p. build_moof_mdat (re_moof env) n 1 dts [s] = Ok p"
  shows "\<exists>br' st'. on_video env app k data ts br = Ok br' \<and> br_streams br' (stream_name app k) = Some st' \<and>
    as_video_config st' \<noteq> None \<and> as_video_init st' \<noteq> None \<and>
    length (published_on (br_registry br') (stream_name app k, rtmp_video_track)) =
      Suc (length (published_on (br_registry br) (stream_name app k, rtmp_video_track)))"
proof -
  let ?s = "video_sample key cts d ts (as_last_video_ts st)"
  have "rs_payload ?s = d" by (simp add: video_sample_def Let_def)
  then obtain seg where "build_moof_mdat (re_moof env) (as_video_seq st + 1) 1 (rs_dts ?s) [?s] = Ok seg" using assms(5) by blast
  then show ?thesis
    using assms(1-4) by (simp add: on_video_def on_video_nalu_def Let_def split_def published_on_fragment observe_def)
qed

lemma example_run: "\<exists>br'. on_videos [97] [98] example_calls opened_bridge = Ok br' \<and>
    length (published_on (br_registry br') (stream_name [97] [98], rtmp_video_track)) = 2"
proof -
  let ?n = "stream_name [97] [98]"
  obtain init where init: "video_init_segment_with_size avcc_example 0 0 = Ok init"
    using video_init_path [OF avcc_example_ok] by blast
  have moof: "\<exists>p. build_moof_mdat (re_moof bridge_example_env) n 1 dts [s] = Ok p" if "rs_payload s = [b]" for n dts s b
    using fragment_readable [OF flat_encoder_ok, of "[s]" n 1 dts] that by (auto simp: media_def bridge_example_env_def)
  obtain st0 where st0: "br_streams opened_bridge ?n = Some st0" by (simp add: opened_bridge_def on_publish_def Let_def)
  have empty: "br_registry opened_bridge = Map.empty"
    by (simp add: opened_bridge_def on_publish_def Let_def emit_event_def bridge_new_def)
  have none: "Option.bind (case sps_list avcc_example of [] \<Rightarrow> None | sps # _ \<Rightarrow> Some sps) (extract_resolution bridge_example_env) = None"
    by (simp add: avcc_example_def extract_resolution_def bridge_example_env_def)
  have quiet: "\<not> re_has_observer bridge_example_env" by (simp add: bridge_example_env_def)
  obtain br1 st1 where b1: "on_video bridge_example_env [97] [98] tag_header 0 opened_bridge = Ok br1"
      "br_streams br1 ?n = Some st1" "as_video_config st1 \<noteq> None" "as_video_init st1 \<noteq> None"
      "published_on (br_registry br1) (?n, rtmp_video_track) = []"
    using init published_on_init [of ?n rtmp_video_track "ustr_of ''avc1''" 90000 init Map.empty "(?n, rtmp_video_track)"]
    by (simp add: on_video_def Let_def st0 example_tags on_video_header_def none published_on_init empty quiet
        observe_def published_on_def)
  obtain br2 st2 where b2: "on_video bridge_example_env [97] [98] tag_key 0 br1 = Ok br2" "br_streams br2 ?n = Some st2"
      "as_video_config st2 \<noteq> None" "as_video_init st2 \<noteq> None"
      "length (published_on (br_registry br2) (?n, rtmp_video_track)) = 1"
    using nalu_published [OF example_tags(2) b1(2-4), of bridge_example_env 0] moof b1(5) by auto
  obtain br3 where "on_video bridge_example_env [97] [98] tag_delta 33 br2 = Ok br3"
      "length (published_on (br_registry br3) (?n, rtmp_video_track)) = 2"
    using nalu_published [OF example_tags(3) b2(2-4), of bridge_example_env 33] moof b2(5) by auto
  then show ?thesis using b1(1) b2(1) by (simp add: example_calls_def)
qed

theorem rtmp_projections_agree_witness:
  "\<exists>br' st sent readable timing'. on_videos [97] [98] example_calls opened_bridge = Ok br' \<and>
     br_streams br' (stream_name [97] [98]) = Some st \<and> length sent = 2 \<and> subseq readable sent \<and>
     published_on (br_registry br') (stream_name [97] [98], rtmp_video_track) = sent \<and>
     take_fragments 5 (track_stream_new [48] (sk_meta (as_video_sink st)) (sk_track (as_video_sink st))) =
       take 5 (renumber [48] 0 0 readable) \<and>
     as_timing_sink st = Some timing' \<and> timing' = anchors 0 (filter (\<lambda>f. ff_keyframe (fg_flags f)) sent)"
proof -
  let ?n = "stream_name [97] [98]"
  obtain br' where run: "on_videos [97] [98] example_calls opened_bridge = Ok br'"
      "length (published_on (br_registry br') (?n, rtmp_video_track)) = 2"
    using example_run by blast
  have calls: "\<forall>c \<in> set example_calls. re_moq (fst c) = list_api \<and> re_now_ms (fst c) \<noteq> 0" "length example_calls + 2 < 2 ^ 64"
    by (simp_all add: example_calls_def bridge_example_env_def)
  have fresh: "published_on (br_registry bridge_new) k = []" for k by (simp add: bridge_new_def published_on_def)
  from rtmp_projections_agree [OF list_api_ok calls(1) TrueI refl TrueI refl calls(2) run(1) [unfolded opened_bridge_def]]
  obtain st sent readable t where w: "br_streams br' ?n = Some st"
      "published_on (br_registry br') (?n, rtmp_video_track) = sent" "subseq readable sent"
      "\<forall>tid n. take_fragments n (track_stream_new tid (sk_meta (as_video_sink st)) (sk_track (as_video_sink st))) =
         take n (renumber tid 0 0 readable)"
      "as_timing_sink st = Some t" "t = anchors 0 (filter (\<lambda>f. ff_keyframe (fg_flags f)) sent)"
    unfolding fresh append_Nil by blast
  have "length sent = 2" using run(2) w(2) by simp
  then show ?thesis using run(1) w by (intro exI [of _ br'] exI [of _ st] exI [of _ sent] exI [of _ readable] exI [of _ t]) simp
qed

lemma example_session:
  "\<exists>br1. handle_rtmp_session bridge_example_env True (Some [])
       [(bridge_example_env, InputRead [ConnectionRequested [97] True, PublishRequested [97] [98] True (Some ([], [], [], None))])]
       bridge_new = Some (Ok (SessionRunning, br1)) \<and>
     br_streams br1 (stream_name [97] [98]) \<noteq> None \<and> br_events br1 = [BroadcastStarted (stream_name [97] [98])]"
  by (simp add: handle_rtmp_session_def rtmp_event_step_def rtmp_session_new_def register_session_def on_publish_def
      emit_event_def Let_def bridge_example_env_def bridge_new_def)

theorem rtmp_error_leaks_streams_witness:
  "\<exists>br2. handle_rtmp_session bridge_example_env True (Some [])
       [(bridge_example_env, InputRead [ConnectionRequested [97] True, PublishRequested [97] [98] True (Some ([], [], [], None))]),
        (bridge_example_env, ReadFailed)] bridge_new = Some (Ok (SessionError, br2)) \<and>
     br_streams br2 (stream_name [97] [98]) \<noteq> None \<and> br_events br2 = [BroadcastStarted (stream_name [97] [98])]"
proof -
  obtain br1 where b: "handle_rtmp_session bridge_example_env True (Some [])
       [(bridge_example_env, InputRead [ConnectionRequested [97] True, PublishRequested [97] [98] True (Some ([], [], [], None))])]
       bridge_new = Some (Ok (SessionRunning, br1))" "br_streams br1 (stream_name [97] [98]) \<noteq> None"
      "br_events br1 = [BroadcastStarted (stream_name [97] [98])]"
    using example_session by blast
  from rtmp_error_leaks_streams [OF b(1), of ReadFailed bridge_example_env] b(2,3) show ?thesis by auto
qed


theorem rtmp_presentation_time_witness:
  "int (unat (fg_pts (video_fragment 0 1 (- 40) (video_sample False (- 40) [] 1000 None) []))) = 2 ^ 64 - 1"
  using rtmp_presentation_time [where cts = "- 40" and timestamp = 1000 and ms = 0 and seq = 1 and key = False and data = "[]"
      and prev = None and seg = "[]"] by simp

end
