(* ===== verification/SrtIngest.thy ===== *)
theory SrtIngest
  imports TsDemux AnnexB Scte35 Auth InitSegment Registry Cmaf
begin

text \<open>
  \<open>lvqr-srt/src/ingest.rs\<close>: from a connection request over the received MPEG-TS data to the fragments and
  splice sections in the registry.  The crate \<open>mp4-atom\<close> and the clock are a record; the listener, the socket
  and the session registrar are not modelled.
\<close>

section \<open>The connection\<close>

record mux_env =
  mx_encode :: mp4_encoder
  mx_avcc_new :: "bytes \<Rightarrow> bytes \<Rightarrow> avcc option"
  mx_moof :: moof_encoder
  mx_now_ms :: u64

record srt_conn =
  sc_demux :: ts_demuxer
  sc_video_init_emitted :: bool
  sc_audio_init_emitted :: bool
  sc_video_seq :: u64
  sc_audio_seq :: u64
  sc_sps :: "bytes option"
  sc_pps :: "bytes option"
  sc_vps :: "bytes option"
  sc_prev_video_dts :: "u64 option"
  sc_prev_audio_dts :: "u64 option"
  sc_audio_timescale :: u32
  sc_unknown_stream_types_seen :: "u8 set"

definition srt_conn_new :: srt_conn where
  "srt_conn_new = \<lparr>sc_demux = ts_demuxer_new, sc_video_init_emitted = False, sc_audio_init_emitted = False,
     sc_video_seq = 0, sc_audio_seq = 0, sc_sps = None, sc_pps = None, sc_vps = None, sc_prev_video_dts = None,
     sc_prev_audio_dts = None, sc_audio_timescale = 44100, sc_unknown_stream_types_seen = {}\<rparr>"

text \<open>The admission of a connection request: the broadcast it will publish, unless the provider denies.\<close>

definition srt_broadcast :: "ustr option \<Rightarrow> ustr" where
  "srt_broadcast stream_id =
     (case extract_srt (opt_default stream_id) of
        Publish _ _ (Some b) \<Rightarrow> if b \<noteq> [] then b
          else (case stream_id of Some s \<Rightarrow> s | None \<Rightarrow> ustr_of ''srt/default'')
      | _ \<Rightarrow> (case stream_id of Some s \<Rightarrow> s | None \<Rightarrow> ustr_of ''srt/default''))"

definition srt_admit :: "auth_provider \<Rightarrow> ustr option \<Rightarrow> ustr option" where
  "srt_admit auth stream_id =
     (case auth (extract_srt (opt_default stream_id)) of Deny _ \<Rightarrow> None | Allow \<Rightarrow> Some (srt_broadcast stream_id))"

section \<open>Video\<close>

definition srt_video_track :: ustr where "srt_video_track = ustr_of ''0.mp4''"
definition srt_audio_track :: ustr where "srt_audio_track = ustr_of ''1.mp4''"

definition pes_times :: "pes_packet \<Rightarrow> u64 \<times> u64" where
  "pes_times pes =
     (let dts = (case pes_dts pes of Some d \<Rightarrow> d | None \<Rightarrow> (case pes_pts pes of Some p \<Rightarrow> p | None \<Rightarrow> 0));
          pts = (case pes_pts pes of Some p \<Rightarrow> p | None \<Rightarrow> dts) in (dts, pts))"

definition srt_duration :: "u64 option \<Rightarrow> u64 \<Rightarrow> u32 \<Rightarrow> u32" where
  "srt_duration prev dts first = (case prev of Some p \<Rightarrow> if p < dts then ucast (dts - p) else first | None \<Rightarrow> first)"

fun srt_note_h264 :: "bytes list \<Rightarrow> srt_conn \<Rightarrow> srt_conn" where
  "srt_note_h264 [] st = st"
| "srt_note_h264 (nalu # ns) st = srt_note_h264 ns
     (if nalu = [] then st
      else if nalu ! 0 AND 0x1F = 7 then st\<lparr>sc_sps := Some nalu\<rparr>
      else if nalu ! 0 AND 0x1F = 8 then st\<lparr>sc_pps := Some nalu\<rparr> else st)"

fun srt_note_hevc :: "bytes list \<Rightarrow> srt_conn \<Rightarrow> srt_conn" where
  "srt_note_hevc [] st = st"
| "srt_note_hevc (nalu # ns) st = srt_note_hevc ns
     (if length nalu < 2 then st
      else let t = drop_bit 1 (nalu ! 0) AND 0x3F in
        if t = 32 then st\<lparr>sc_vps := Some nalu\<rparr>
        else if t = 33 then st\<lparr>sc_sps := Some nalu\<rparr>
        else if t = 34 then st\<lparr>sc_pps := Some nalu\<rparr> else st)"

text \<open>The init segment, once; \<open>None\<close> is the early return of the handler.\<close>

definition srt_h264_init :: "mux_env \<Rightarrow> ustr \<Rightarrow> srt_conn \<Rightarrow> registry \<Rightarrow> ((srt_conn \<times> registry) option, unit) outcome" where
  "srt_h264_init mx broadcast st reg =
     (if sc_video_init_emitted st then Ok (Some (st, reg))
      else case (sc_sps st, sc_pps st) of
        (Some sps, Some pps) \<Rightarrow>
          (case write_avc_init_segment (mx_encode mx) (mx_avcc_new mx)
              \<lparr>vi_sps = sps, vi_pps = pps, vi_width = 0, vi_height = 0, vi_timescale = 90000\<rparr> of
             Ok buf \<Rightarrow> Ok (Some (st\<lparr>sc_video_init_emitted := True\<rparr>,
               publish_init broadcast srt_video_track (ustr_of ''avc1'') 90000 buf reg))
           | Err e \<Rightarrow> Ok None | Panic \<Rightarrow> Panic)
      | _ \<Rightarrow> Ok None)"

definition srt_hevc_init :: "mux_env \<Rightarrow> ustr \<Rightarrow> srt_conn \<Rightarrow> registry \<Rightarrow> ((srt_conn \<times> registry) option, unit) outcome" where
  "srt_hevc_init mx broadcast st reg =
     (if sc_video_init_emitted st then Ok (Some (st, reg))
      else case (sc_vps st, sc_sps st, sc_pps st) of
        (Some vps, Some sps, Some pps) \<Rightarrow>
          (case parse_sps sps of Err e \<Rightarrow> Ok None | Panic \<Rightarrow> Panic
           | Ok info \<Rightarrow> (case write_hevc_init_segment (mx_encode mx)
               \<lparr>hi_vps = vps, hi_sps = sps, hi_pps = pps, hi_sps_info = info, hi_timescale = 90000\<rparr> of
                Ok buf \<Rightarrow> Ok (Some (st\<lparr>sc_video_init_emitted := True\<rparr>,
                  publish_init broadcast srt_video_track (ustr_of ''hev1'') 90000 buf reg))
              | Err e \<Rightarrow> Ok None | Panic \<Rightarrow> Panic))
      | _ \<Rightarrow> Ok None)"

definition srt_emit_video ::
    "mux_env \<Rightarrow> ustr \<Rightarrow> ustr \<Rightarrow> pes_packet \<Rightarrow> bool \<Rightarrow> bytes \<Rightarrow> srt_conn \<Rightarrow> registry \<Rightarrow> (srt_conn \<times> registry, unit) outcome" where
  "srt_emit_video mx broadcast codec pes keyframe payload st reg =
     (let (dts, pts) = pes_times pes;
          duration = srt_duration (sc_prev_video_dts st) dts 3000;
          st = st\<lparr>sc_prev_video_dts := Some dts\<rparr>;
          raw = \<lparr>rs_track_id = 1, rs_dts = dts, rs_cts_offset = ucast (pts - dts), rs_duration = duration,
            rs_payload = payload, rs_keyframe = keyframe\<rparr>;
          st = st\<lparr>sc_video_seq := sc_video_seq st + 1\<rparr> in
      obind (build_moof_mdat (mx_moof mx) (ucast (sc_video_seq st)) 1 dts [raw]) (\<lambda>moof_mdat.
        let frag = fragment_new srt_video_track (sc_video_seq st) 0 0 dts pts (ucast duration)
              (if keyframe then FLAGS_KEYFRAME else FLAGS_DELTA) moof_mdat in
        Ok (st, publish_fragment (mx_now_ms mx) broadcast srt_video_track codec 90000 frag reg)))"

definition srt_process_h264 ::
    "mux_env \<Rightarrow> ustr \<Rightarrow> pes_packet \<Rightarrow> srt_conn \<Rightarrow> registry \<Rightarrow> (srt_conn \<times> registry, unit) outcome" where
  "srt_process_h264 mx broadcast pes st reg =
     obind (srt_split_annex_b (pes_payload pes)) (\<lambda>nalus.
       let st = srt_note_h264 nalus st in
       obind (srt_h264_init mx broadcast st reg) (\<lambda>r. case r of None \<Rightarrow> Ok (st, reg)
         | Some (st, reg) \<Rightarrow> obind (srt_annex_b_to_avcc (pes_payload pes)) (\<lambda>avcc.
             if avcc = [] then Ok (st, reg)
             else srt_emit_video mx broadcast (ustr_of ''avc1'') pes
               (list_ex (\<lambda>n. n \<noteq> [] \<and> n ! 0 AND 0x1F = 5) nalus) avcc st reg)))"

definition srt_process_hevc ::
    "mux_env \<Rightarrow> ustr \<Rightarrow> pes_packet \<Rightarrow> srt_conn \<Rightarrow> registry \<Rightarrow> (srt_conn \<times> registry, unit) outcome" where
  "srt_process_hevc mx broadcast pes st reg =
     obind (srt_split_annex_b (pes_payload pes)) (\<lambda>nalus.
       let st = srt_note_hevc nalus st in
       obind (srt_hevc_init mx broadcast st reg) (\<lambda>r. case r of None \<Rightarrow> Ok (st, reg)
         | Some (st, reg) \<Rightarrow> obind (srt_annex_b_to_hvcc (pes_payload pes)) (\<lambda>hvcc.
             if hvcc = [] then Ok (st, reg)
             else srt_emit_video mx broadcast (ustr_of ''hev1'') pes
               (list_ex (\<lambda>n. 2 \<le> length n \<and> hevc_is_keyframe (hevc_nal_from_u8 (drop_bit 1 (n ! 0) AND 0x3F))) nalus)
               hvcc st reg)))"

section \<open>Audio\<close>

definition adts_sample_rate :: "u8 \<Rightarrow> u32" where
  "adts_sample_rate freq_idx =
     (if freq_idx = 0 then 96000 else if freq_idx = 1 then 88200 else if freq_idx = 2 then 64000
      else if freq_idx = 3 then 48000 else if freq_idx = 4 then 44100 else if freq_idx = 5 then 32000
      else if freq_idx = 6 then 24000 else if freq_idx = 7 then 22050 else if freq_idx = 8 then 16000
      else if freq_idx = 9 then 12000 else if freq_idx = 10 then 11025 else if freq_idx = 11 then 8000 else 44100)"

text \<open>The first half of \<open>process_aac\<close>: the configuration from the first ADTS header.\<close>

definition srt_aac_init :: "mux_env \<Rightarrow> ustr \<Rightarrow> bytes \<Rightarrow> srt_conn \<Rightarrow> registry \<Rightarrow> ((srt_conn \<times> registry) option, unit) outcome" where
  "srt_aac_init mx broadcast payload st reg =
     (if sc_audio_init_emitted st then Ok (Some (st, reg))
      else if length payload < 7 then Ok None
      else if payload ! 0 \<noteq> 0xFF \<or> payload ! 1 AND 0xF0 \<noteq> 0xF0 then Ok None
      else
        (let profile = (drop_bit 6 (payload ! 2) AND 3) + 1;
             freq_idx = drop_bit 2 (payload ! 2) AND 0x0F;
             channel = push_bit 2 (payload ! 2 AND 1) OR (drop_bit 6 (payload ! 3) AND 3);
             sample_rate = adts_sample_rate freq_idx;
             asc_b0 = push_bit 3 profile OR drop_bit 1 freq_idx;
             asc_b1 = push_bit 7 (freq_idx AND 1) OR push_bit 3 channel in
         case write_aac_init_segment (mx_encode mx) \<lparr>ai_asc = [asc_b0, asc_b1], ai_timescale = sample_rate\<rparr> of
           Ok buf \<Rightarrow> Ok (Some (st\<lparr>sc_audio_init_emitted := True, sc_audio_timescale := sample_rate\<rparr>,
             publish_init broadcast srt_audio_track (ustr_of ''mp4a.40.2'') sample_rate buf reg))
         | Err e \<Rightarrow> Ok None | Panic \<Rightarrow> Panic))"

definition srt_emit_audio ::
    "mux_env \<Rightarrow> ustr \<Rightarrow> pes_packet \<Rightarrow> bytes \<Rightarrow> srt_conn \<Rightarrow> registry \<Rightarrow> (srt_conn \<times> registry, unit) outcome" where
  "srt_emit_audio mx broadcast pes aac_data st reg =
     (let (dts, pts) = pes_times pes;
          duration = srt_duration (sc_prev_audio_dts st) dts 1024;
          st = st\<lparr>sc_prev_audio_dts := Some dts\<rparr>;
          raw = \<lparr>rs_track_id = 2, rs_dts = dts, rs_cts_offset = 0, rs_duration = duration, rs_payload = aac_data,
            rs_keyframe = True\<rparr>;
          st = st\<lparr>sc_audio_seq := sc_audio_seq st + 1\<rparr> in
      obind (build_moof_mdat (mx_moof mx) (ucast (sc_audio_seq st)) 2 dts [raw]) (\<lambda>moof_mdat.
        let frag = fragment_new srt_audio_track (sc_audio_seq st) 0 0 dts pts (ucast duration) FLAGS_AUDIO moof_mdat in
        Ok (st, publish_fragment (mx_now_ms mx) broadcast srt_audio_track (ustr_of ''mp4a.40.2'')
          (sc_audio_timescale st) frag reg)))"

text \<open>The loop over the ADTS frames of a PES packet.\<close>

definition adts_header_len :: "bytes \<Rightarrow> nat \<Rightarrow> nat" where
  "adts_header_len payload off = (if payload ! (off + 1) AND 1 = 0 then 9 else 7)"

definition adts_frame_len :: "bytes \<Rightarrow> nat \<Rightarrow> nat" where
  "adts_frame_len payload off =
     (push_bit 11 (unat (payload ! (off + 3) AND 3))) OR (push_bit 3 (unat (payload ! (off + 4)))) OR
       unat (drop_bit 5 (payload ! (off + 5)))"

function srt_aac_loop ::
    "mux_env \<Rightarrow> ustr \<Rightarrow> pes_packet \<Rightarrow> nat \<Rightarrow> srt_conn \<Rightarrow> registry \<Rightarrow> (srt_conn \<times> registry, unit) outcome" where
  "srt_aac_loop mx broadcast pes off st reg =
     (let payload = pes_payload pes in
      if length payload < off + 7 then Ok (st, reg)
      else if payload ! off \<noteq> 0xFF \<or> payload ! (off + 1) AND 0xF0 \<noteq> 0xF0 then Ok (st, reg)
      else
        (let header_len = adts_header_len payload off; frame_len = adts_frame_len payload off in
         if frame_len < header_len \<or> length payload < off + frame_len then Ok (st, reg)
         else obind (slice payload (off + header_len) (off + frame_len)) (\<lambda>aac_data.
           obind (srt_emit_audio mx broadcast pes aac_data st reg) (\<lambda>(st, reg).
             srt_aac_loop mx broadcast pes (off + frame_len) st reg))))"
  by pat_completeness auto
termination
  by (relation "measure (\<lambda>(mx, broadcast, pes, off, st, reg). length (pes_payload pes) - off)")
    (auto simp: adts_header_len_def split: if_splits)

declare srt_aac_loop.simps [simp del]

definition srt_process_aac ::
    "mux_env \<Rightarrow> ustr \<Rightarrow> pes_packet \<Rightarrow> srt_conn \<Rightarrow> registry \<Rightarrow> (srt_conn \<times> registry, unit) outcome" where
  "srt_process_aac mx broadcast pes st reg =
     obind (srt_aac_init mx broadcast (pes_payload pes) st reg) (\<lambda>r. case r of None \<Rightarrow> Ok (st, reg)
       | Some (st, reg) \<Rightarrow> srt_aac_loop mx broadcast pes 0 st reg)"

section \<open>A received datagram\<close>

definition srt_process_scte35 :: "mux_env \<Rightarrow> ustr \<Rightarrow> scte35_section \<Rightarrow> registry \<Rightarrow> (registry, unit) outcome" where
  "srt_process_scte35 mx broadcast sec reg =
     (case parse_splice_info_section (sec_raw sec) of
        Ok info \<Rightarrow> Ok (publish_scte35 (mx_now_ms mx) broadcast
          (ucast (case si_event_id info of Some i \<Rightarrow> i | None \<Rightarrow> 0))
          (case absolute_pts info of Some p \<Rightarrow> p | None \<Rightarrow> 0)
          (case si_duration info of Some d \<Rightarrow> d | None \<Rightarrow> 0) (sec_raw sec) reg)
      | Err e \<Rightarrow> Ok reg | Panic \<Rightarrow> Panic)"

definition srt_process_pes ::
    "mux_env \<Rightarrow> ustr \<Rightarrow> pes_packet \<Rightarrow> srt_conn \<Rightarrow> registry \<Rightarrow> (srt_conn \<times> registry, unit) outcome" where
  "srt_process_pes mx broadcast pes st reg =
     (case pes_stream_type pes of
        StH264 \<Rightarrow> srt_process_h264 mx broadcast pes st reg
      | StAac \<Rightarrow> srt_process_aac mx broadcast pes st reg
      | StH265 \<Rightarrow> srt_process_hevc mx broadcast pes st reg
      | StScte35 \<Rightarrow> Ok (st, reg)
      | StUnknown t \<Rightarrow> Ok (st\<lparr>sc_unknown_stream_types_seen := insert t (sc_unknown_stream_types_seen st)\<rparr>, reg))"

fun srt_pes_all ::
    "mux_env \<Rightarrow> ustr \<Rightarrow> pes_packet list \<Rightarrow> srt_conn \<Rightarrow> registry \<Rightarrow> (srt_conn \<times> registry, unit) outcome" where
  "srt_pes_all mx broadcast [] st reg = Ok (st, reg)"
| "srt_pes_all mx broadcast (pes # ps) st reg =
     obind (srt_process_pes mx broadcast pes st reg) (\<lambda>(st, reg). srt_pes_all mx broadcast ps st reg)"

fun srt_sections_all :: "mux_env \<Rightarrow> ustr \<Rightarrow> scte35_section list \<Rightarrow> registry \<Rightarrow> (registry, unit) outcome" where
  "srt_sections_all mx broadcast [] reg = Ok reg"
| "srt_sections_all mx broadcast (s # ss) reg =
     obind (srt_process_scte35 mx broadcast s reg) (srt_sections_all mx broadcast ss)"

definition srt_receive :: "mux_env \<Rightarrow> ustr \<Rightarrow> bytes \<Rightarrow> srt_conn \<Rightarrow> registry \<Rightarrow> (srt_conn \<times> registry, unit) outcome" where
  "srt_receive mx broadcast data st reg =
     obind (ts_feed data (sc_demux st)) (\<lambda>(demux, pes_packets).
     obind (srt_pes_all mx broadcast pes_packets (st\<lparr>sc_demux := demux\<rparr>) reg) (\<lambda>(st, reg).
       let (sections, demux) = take_scte35_sections (sc_demux st) in
       obind (srt_sections_all mx broadcast sections reg) (\<lambda>reg. Ok (st\<lparr>sc_demux := demux\<rparr>, reg))))"

text \<open>The task of a connection: what the socket delivers until it ends, and the stop event it leaves.  Without an
  end it keeps waiting and has emitted none.\<close>

datatype srt_item = Datagram bytes | RecvError | SocketClosed | ShutdownSignal

fun srt_handle_connection ::
    "mux_env \<Rightarrow> ustr \<Rightarrow> srt_item list \<Rightarrow> srt_conn \<Rightarrow> registry \<Rightarrow> (srt_conn \<times> registry \<times> ustr list, unit) outcome" where
  "srt_handle_connection mx broadcast [] st reg = Ok (st, reg, [])"
| "srt_handle_connection mx broadcast (item # items) st reg =
     (case item of
        Datagram data \<Rightarrow> obind (srt_receive mx broadcast data st reg) (\<lambda>(st, reg).
          srt_handle_connection mx broadcast items st reg)
      | RecvError \<Rightarrow> Ok (st, reg, [broadcast])
      | SocketClosed \<Rightarrow> Ok (st, reg, [broadcast])
      | ShutdownSignal \<Rightarrow> Ok (st, reg, [broadcast]))"

section \<open>Sections that wait in the demuxer do not influence it\<close>

definition pend :: "scte35_section list \<Rightarrow> ts_demuxer \<Rightarrow> ts_demuxer" where
  "pend p d = d\<lparr>td_pending_scte35 := p @ td_pending_scte35 d\<rparr>"

lemma pend_fields [simp]: "td_remainder (pend p d) = td_remainder d" "td_pmt_pid (pend p d) = td_pmt_pid d"
  "td_streams (pend p d) = td_streams d" "td_pes_bufs (pend p d) = td_pes_bufs d"
  "td_section_bufs (pend p d) = td_section_bufs d" "td_pending_scte35 (pend p d) = p @ td_pending_scte35 d"
  by (simp_all add: pend_def)

lemma pend_updates [simp]: "(pend p d)\<lparr>td_remainder := r\<rparr> = pend p (d\<lparr>td_remainder := r\<rparr>)"
  "(pend p d)\<lparr>td_pmt_pid := q\<rparr> = pend p (d\<lparr>td_pmt_pid := q\<rparr>)"
  "(pend p d)\<lparr>td_streams := ss\<rparr> = pend p (d\<lparr>td_streams := ss\<rparr>)"
  "(pend p d)\<lparr>td_pes_bufs := bs\<rparr> = pend p (d\<lparr>td_pes_bufs := bs\<rparr>)"
  "(pend p d)\<lparr>td_section_bufs := sbs\<rparr> = pend p (d\<lparr>td_section_bufs := sbs\<rparr>)"
  by (simp_all add: pend_def)

lemma flush_sections_pend:
  "flush_sections pid buf e (p @ pending) = omap (\<lambda>(b, e, q). (b, e, p @ q)) (flush_sections pid buf e pending)"
proof (induction pid buf e pending rule: flush_sections.induct)
  case (1 pid buf e pending)
  show ?case
  proof (cases e)
    case None
    then show ?thesis by (subst (1 2) flush_sections.simps) simp
  next
    case (Some n)
    show ?thesis
    proof (cases "length buf < n")
      case True
      then show ?thesis using Some by (subst (1 2) flush_sections.simps) simp
    next
      case False
      show ?thesis
      proof (cases "3 \<le> length (drop n buf)")
        case True
        show ?thesis
        proof (cases "section_expected (drop n buf) :: (nat option, unit) outcome")
          case (Ok e')
          have "flush_sections pid (drop n buf) e' (p @ pending @ [\<lparr>sec_pid = pid, sec_raw = take n buf\<rparr>]) =
              omap (\<lambda>(b, e, q). (b, e, p @ q))
                (flush_sections pid (drop n buf) e' (pending @ [\<lparr>sec_pid = pid, sec_raw = take n buf\<rparr>]))"
            by (rule "1.IH"(1) [OF Some False refl refl True Ok])
          then show ?thesis using Some False True Ok by (subst (1 2) flush_sections.simps) (simp add: Let_def)
        next
          case (Err e)
          then show ?thesis using Some False True by (subst (1 2) flush_sections.simps) (simp add: Let_def)
        next
          case Panic
          then show ?thesis using Some False True by (subst (1 2) flush_sections.simps) (simp add: Let_def)
        qed
      next
        case short: False
        have "\<not> list_all (\<lambda>b. b = 0xFF) (drop n buf) \<Longrightarrow>
            flush_sections pid (drop n buf) None (p @ pending @ [\<lparr>sec_pid = pid, sec_raw = take n buf\<rparr>]) =
            omap (\<lambda>(b, e, q). (b, e, p @ q))
              (flush_sections pid (drop n buf) None (pending @ [\<lparr>sec_pid = pid, sec_raw = take n buf\<rparr>]))"
          by (rule "1.IH"(2) [OF Some False refl refl short])
        then show ?thesis using Some False short by (subst (1 2) flush_sections.simps) (simp add: Let_def)
      qed
    qed
  qed
qed

lemma push_section_pend: "push_section pid payload pusi (pend p d) = omap (pend p) (push_section pid payload pusi d)"
  by (auto simp: push_section_def Let_def omap_obind flush_sections_pend obind_omap pend_def split_beta
      intro!: obind_cong)

lemma push_pes_pend:
  "push_pes pid payload pusi (pend p d) = omap (\<lambda>(d, out). (pend p d, out)) (push_pes pid payload pusi d)"
  by (cases "td_pes_bufs d pid") (auto simp: push_pes_def Let_def omap_obind intro!: obind_cong)

lemma parse_pat_pend: "parse_pat payload pusi (pend p d) = omap (pend p) (parse_pat payload pusi d)"
  by (auto simp: parse_pat_def Let_def omap_obind intro!: obind_cong split: option.splits)

lemma parse_pmt_pend: "parse_pmt payload pusi (pend p d) = omap (pend p) (parse_pmt payload pusi d)"
  by (auto simp: parse_pmt_def Let_def omap_obind intro!: obind_cong split: option.splits)

lemma process_packet_pend:
  "process_packet pkt (pend p d) = omap (\<lambda>(d, out). (pend p d, out)) (process_packet pkt d)"
  by (auto simp: process_packet_def Let_def omap_obind obind_omap push_pes_pend push_section_pend parse_pat_pend
      parse_pmt_pend intro!: obind_cong split: option.splits)

lemma feed_loop_pend:
  "feed_loop rest (pend p d) out = omap (\<lambda>(d, out, r). (pend p d, out, r)) (feed_loop rest d out)"
proof (induction rest d out rule: feed_loop.induct)
  case (1 rest d out)
  show ?case
  proof (cases "rest = [] \<or> from_sync rest = [] \<or> length (from_sync rest) < TS_PACKET_SIZE")
    case True
    then show ?thesis by (subst (1 2) feed_loop.simps) (auto simp: Let_def)
  next
    case False
    show ?thesis
    proof (cases "process_packet (take TS_PACKET_SIZE (from_sync rest)) d")
      case (Ok v)
      obtain d1 o1 where v: "v = (d1, o1)" by (cases v)
      have "feed_loop (drop TS_PACKET_SIZE (from_sync rest)) (pend p d1) (out @ o1) =
          omap (\<lambda>(d, out, r). (pend p d, out, r)) (feed_loop (drop TS_PACKET_SIZE (from_sync rest)) d1 (out @ o1))"
        by (rule "1.IH" [of "from_sync rest" v d1 o1]) (use False Ok v in auto)
      then show ?thesis using False Ok v by (subst (1 2) feed_loop.simps) (simp add: Let_def process_packet_pend)
    next
      case (Err e)
      then show ?thesis using False by (subst (1 2) feed_loop.simps) (simp add: Let_def process_packet_pend)
    next
      case Panic
      then show ?thesis using False by (subst (1 2) feed_loop.simps) (simp add: Let_def process_packet_pend)
    qed
  qed
qed

lemma process_buf_loop_pend:
  "process_buf_loop rest (pend p d) out = omap (\<lambda>(d, out, r). (pend p d, out, r)) (process_buf_loop rest d out)"
proof (induction rest d out rule: process_buf_loop.induct)
  case (1 rest d out)
  show ?case
  proof (cases "rest = [] \<or> from_sync rest = [] \<or> length (from_sync rest) < TS_PACKET_SIZE")
    case True
    then show ?thesis by (subst (1 2) process_buf_loop.simps) (auto simp: Let_def)
  next
    case False
    show ?thesis
    proof (cases "process_packet (take TS_PACKET_SIZE (from_sync rest)) d")
      case (Ok v)
      obtain d1 o1 where v: "v = (d1, o1)" by (cases v)
      have "process_buf_loop (drop TS_PACKET_SIZE (from_sync rest)) (pend p d1) (out @ o1) =
          omap (\<lambda>(d, out, r). (pend p d, out, r)) (process_buf_loop (drop TS_PACKET_SIZE (from_sync rest)) d1 (out @ o1))"
        by (rule "1.IH" [of "from_sync rest" v d1 o1]) (use False Ok v in auto)
      then show ?thesis using False Ok v by (subst (1 2) process_buf_loop.simps) (simp add: Let_def process_packet_pend)
    next
      case (Err e)
      then show ?thesis using False by (subst (1 2) process_buf_loop.simps) (simp add: Let_def process_packet_pend)
    next
      case Panic
      then show ?thesis using False by (subst (1 2) process_buf_loop.simps) (simp add: Let_def process_packet_pend)
    qed
  qed
qed

lemma ts_feed_pend: "ts_feed data (pend p d) = omap (\<lambda>(d, out). (pend p d, out)) (ts_feed data d)"
  by (auto simp: ts_feed_def process_buf_def feed_loop_pend process_buf_loop_pend obind_omap omap_obind split_def
      intro!: obind_cong)

lemma ts_feed_all_pend: "ts_feed_all cs (pend p d) = omap (\<lambda>(d, out). (pend p d, out)) (ts_feed_all cs d)"
  by (induction cs arbitrary: d) (auto simp: ts_feed_pend obind_omap omap_obind split_def intro!: obind_cong)

section \<open>What a connection writes\<close>

text \<open>The media of a connection leave every other entry of the registry and the demuxer as they are.\<close>

definition aside :: "ts_demuxer \<Rightarrow> registry_key \<Rightarrow> broadcaster option \<Rightarrow> srt_conn \<times> registry \<Rightarrow> srt_conn \<times> registry" where
  "aside d k v p = ((fst p)\<lparr>sc_demux := d\<rparr>, (snd p)(k := v))"

lemma aside_sel [simp]: "fst (aside d k v p) = (fst p)\<lparr>sc_demux := d\<rparr>" "snd (aside d k v p) = (snd p)(k := v)"
  by (simp_all add: aside_def)

lemma publish_init_aside:
  "k \<noteq> (b, t) \<Longrightarrow> publish_init b t c ts init (reg(k := v)) = (publish_init b t c ts init reg)(k := v)"
  by (auto simp: publish_init_def get_or_create_def Let_def split: option.split)

lemma publish_fragment_aside:
  "k \<noteq> (b, t) \<Longrightarrow> publish_fragment now b t c ts frag (reg(k := v)) = (publish_fragment now b t c ts frag reg)(k := v)"
  by (auto simp: publish_fragment_def get_or_create_def Let_def split: option.split)

lemma note_h264_aside: "srt_note_h264 ns (st\<lparr>sc_demux := d\<rparr>) = (srt_note_h264 ns st)\<lparr>sc_demux := d\<rparr>"
proof (induction ns arbitrary: st)
  case (Cons n ns)
  show ?case by (cases st) (simp add: Cons.IH [symmetric])
qed simp

lemma note_hevc_aside: "srt_note_hevc ns (st\<lparr>sc_demux := d\<rparr>) = (srt_note_hevc ns st)\<lparr>sc_demux := d\<rparr>"
proof (induction ns arbitrary: st)
  case (Cons n ns)
  show ?case by (cases st) (simp add: Cons.IH [symmetric] Let_def)
qed simp

definition elsewhere :: "ustr \<Rightarrow> registry_key \<Rightarrow> bool" where
  "elsewhere b k \<longleftrightarrow> k \<noteq> (b, srt_video_track) \<and> k \<noteq> (b, srt_audio_track)"

lemma elsewhereD: "elsewhere b k \<Longrightarrow> k \<noteq> (b, srt_video_track)" "elsewhere b k \<Longrightarrow> k \<noteq> (b, srt_audio_track)"
  by (simp_all add: elsewhere_def)

lemma emit_video_aside:
  assumes k: "elsewhere b k"
  shows "srt_emit_video mx b codec pes key payload (st\<lparr>sc_demux := d\<rparr>) (reg(k := v)) =
    omap (aside d k v) (srt_emit_video mx b codec pes key payload st reg)"
  by (cases st) (simp add: srt_emit_video_def Let_def split_def aside_def omap_obind publish_fragment_aside [OF elsewhereD(1) [OF k]])

lemma emit_audio_aside:
  assumes k: "elsewhere b k"
  shows "srt_emit_audio mx b pes data (st\<lparr>sc_demux := d\<rparr>) (reg(k := v)) =
    omap (aside d k v) (srt_emit_audio mx b pes data st reg)"
  by (cases st) (simp add: srt_emit_audio_def Let_def split_def aside_def omap_obind publish_fragment_aside [OF elsewhereD(2) [OF k]])

lemma h264_init_aside:
  assumes k: "elsewhere b k"
  shows "srt_h264_init mx b (st\<lparr>sc_demux := d\<rparr>) (reg(k := v)) = omap (map_option (aside d k v)) (srt_h264_init mx b st reg)"
  by (cases st) (simp add: srt_h264_init_def aside_def publish_init_aside [OF elsewhereD(1) [OF k]] split: option.split outcome.split)

lemma hevc_init_aside:
  assumes k: "elsewhere b k"
  shows "srt_hevc_init mx b (st\<lparr>sc_demux := d\<rparr>) (reg(k := v)) = omap (map_option (aside d k v)) (srt_hevc_init mx b st reg)"
  by (cases st) (simp add: srt_hevc_init_def aside_def publish_init_aside [OF elsewhereD(1) [OF k]] split: option.split outcome.split)

lemma aac_init_aside:
  assumes k: "elsewhere b k"
  shows "srt_aac_init mx b payload (st\<lparr>sc_demux := d\<rparr>) (reg(k := v)) = omap (map_option (aside d k v)) (srt_aac_init mx b payload st reg)"
  by (cases st) (simp add: srt_aac_init_def aside_def Let_def publish_init_aside [OF elsewhereD(2) [OF k]] split: option.split outcome.split)

lemma obind_aside:
  assumes "m' = omap (map_option (aside d k v)) m" and "n' = omap (aside d k v) n"
    and "\<And>st reg. f' (st\<lparr>sc_demux := d\<rparr>) (reg(k := v)) = omap (aside d k v) (f st reg)"
  shows "obind m' (\<lambda>r. case r of None \<Rightarrow> n' | Some (st, reg) \<Rightarrow> f' st reg) =
    omap (aside d k v) (obind m (\<lambda>r. case r of None \<Rightarrow> n | Some (st, reg) \<Rightarrow> f st reg))"
  using assms(3) unfolding assms(1,2)
  by (cases m) (auto simp: aside_def split: option.split)

lemma process_h264_aside:
  assumes k: "elsewhere b k"
  shows "srt_process_h264 mx b pes (st\<lparr>sc_demux := d\<rparr>) (reg(k := v)) = omap (aside d k v) (srt_process_h264 mx b pes st reg)"
  unfolding srt_process_h264_def Let_def omap_obind note_h264_aside
  by (intro obind_cong refl trans [OF obind_aside])
    (auto simp: h264_init_aside [OF k] omap_obind emit_video_aside [OF k] aside_def intro!: obind_cong split: option.split)

lemma process_hevc_aside:
  assumes k: "elsewhere b k"
  shows "srt_process_hevc mx b pes (st\<lparr>sc_demux := d\<rparr>) (reg(k := v)) = omap (aside d k v) (srt_process_hevc mx b pes st reg)"
  unfolding srt_process_hevc_def Let_def omap_obind note_hevc_aside
  by (intro obind_cong refl trans [OF obind_aside])
    (auto simp: hevc_init_aside [OF k] omap_obind emit_video_aside [OF k] aside_def intro!: obind_cong split: option.split)

lemma aac_loop_step:
  assumes "off + 7 \<le> length (pes_payload pes)" and "pes_payload pes ! off = 0xFF"
    and "pes_payload pes ! (off + 1) AND 0xF0 = 0xF0"
    and "adts_header_len (pes_payload pes) off \<le> adts_frame_len (pes_payload pes) off"
    and "off + adts_frame_len (pes_payload pes) off \<le> length (pes_payload pes)"
  shows "srt_aac_loop mx b pes off st reg =
    obind (slice (pes_payload pes) (off + adts_header_len (pes_payload pes) off) (off + adts_frame_len (pes_payload pes) off))
      (\<lambda>data. obind (srt_emit_audio mx b pes data st reg) (\<lambda>(st, reg).
        srt_aac_loop mx b pes (off + adts_frame_len (pes_payload pes) off) st reg))"
  using assms by (subst srt_aac_loop.simps) (simp add: Let_def not_less)

lemma aac_loop_stop:
  assumes "length (pes_payload pes) < off + 7 \<or> pes_payload pes ! off \<noteq> 0xFF \<or>
      pes_payload pes ! (off + 1) AND 0xF0 \<noteq> 0xF0 \<or>
      adts_frame_len (pes_payload pes) off < adts_header_len (pes_payload pes) off \<or>
      length (pes_payload pes) < off + adts_frame_len (pes_payload pes) off"
  shows "srt_aac_loop mx b pes off st reg = Ok (st, reg)"
  using assms by (subst srt_aac_loop.simps) (auto simp: Let_def)

lemma adts_header_len_ge: "7 \<le> adts_header_len payload off"
  by (simp add: adts_header_len_def)

lemma aac_loop_aside:
  assumes k: "elsewhere b k"
  shows "srt_aac_loop mx b pes off (st\<lparr>sc_demux := d\<rparr>) (reg(k := v)) = omap (aside d k v) (srt_aac_loop mx b pes off st reg)"
proof (induction "length (pes_payload pes) - off" arbitrary: off st reg rule: less_induct)
  case less
  let ?p = "pes_payload pes"
  show ?case
  proof (cases "length ?p < off + 7 \<or> ?p ! off \<noteq> 0xFF \<or> ?p ! (off + 1) AND 0xF0 \<noteq> 0xF0 \<or>
      adts_frame_len ?p off < adts_header_len ?p off \<or> length ?p < off + adts_frame_len ?p off")
    case True
    then show ?thesis by (simp only: aac_loop_stop [OF True] omap.simps) (simp add: aside_def)
  next
    case False
    let ?n = "adts_frame_len ?p off"
    have IH: "srt_aac_loop mx b pes (off + ?n) (st\<lparr>sc_demux := d\<rparr>) (reg(k := v)) =
        omap (aside d k v) (srt_aac_loop mx b pes (off + ?n) st reg)" for st reg
    proof (rule less.hyps)
      have "off + 7 \<le> length ?p" "adts_header_len ?p off \<le> ?n" using False by auto
      then show "length ?p - (off + ?n) < length ?p - off" using adts_header_len_ge [of ?p off] by linarith
    qed
    have step: "srt_aac_loop mx b pes off st reg =
        obind (slice ?p (off + adts_header_len ?p off) (off + ?n)) (\<lambda>data.
          obind (srt_emit_audio mx b pes data st reg) (\<lambda>(st, reg). srt_aac_loop mx b pes (off + ?n) st reg))" for st reg
      using False by (intro aac_loop_step) simp_all
    show ?thesis
      unfolding step emit_audio_aside [OF k] obind_omap omap_obind
      by (intro obind_cong refl) (simp add: split_def IH)
  qed
qed

lemma process_aac_aside:
  assumes k: "elsewhere b k"
  shows "srt_process_aac mx b pes (st\<lparr>sc_demux := d\<rparr>) (reg(k := v)) = omap (aside d k v) (srt_process_aac mx b pes st reg)"
  unfolding srt_process_aac_def
  by (rule obind_aside) (simp_all add: aac_init_aside [OF k] aac_loop_aside [OF k] aside_def)

lemma process_pes_aside:
  assumes k: "elsewhere b k"
  shows "srt_process_pes mx b pes (st\<lparr>sc_demux := d\<rparr>) (reg(k := v)) = omap (aside d k v) (srt_process_pes mx b pes st reg)"
  by (cases st, cases "pes_stream_type pes")
    (simp_all only: srt_process_pes_def stream_type.case process_h264_aside [OF k] process_hevc_aside [OF k]
      process_aac_aside [OF k], simp_all add: aside_def)

lemma pes_all_aside:
  assumes k: "elsewhere b k"
  shows "srt_pes_all mx b ps (st\<lparr>sc_demux := d\<rparr>) (reg(k := v)) = omap (aside d k v) (srt_pes_all mx b ps st reg)"
proof (induction ps arbitrary: st reg)
  case (Cons p ps)
  show ?case
    by (simp only: srt_pes_all.simps process_pes_aside [OF k] obind_omap omap_obind)
      (intro obind_cong refl, simp add: split_def Cons.IH)
qed (simp add: aside_def)

text \<open>So processing media keeps the demuxer and the other entries.\<close>

lemma pes_all_keeps:
  assumes "elsewhere b k" and "srt_pes_all mx b ps st reg = Ok (st', reg')"
  shows "sc_demux st' = sc_demux st \<and> reg' k = reg k"
proof -
  have "omap (aside (sc_demux st) k (reg k)) (srt_pes_all mx b ps st reg) = srt_pes_all mx b ps st reg"
    using pes_all_aside [OF assms(1), of mx ps "sc_demux st" st reg "reg k"] by simp
  then have "st'\<lparr>sc_demux := sc_demux st\<rparr> = st'" "reg'(k := reg k) = reg'" using assms(2) by (simp_all add: aside_def)
  then show ?thesis by (metis fun_upd_same srt_conn.select_convs(1) srt_conn.surjective srt_conn.update_convs(1))
qed

lemma scte35_effect: "\<exists>g. \<forall>reg. srt_process_scte35 mx b s reg = Ok (reg((b, SCTE35_TRACK) := g (reg (b, SCTE35_TRACK))))"
proof (cases "parse_splice_info_section (sec_raw s)")
  case (Ok info)
  let ?frag = "with_ingest_time_ms (mx_now_ms mx) (fragment_new SCTE35_TRACK
      (ucast (case si_event_id info of Some i \<Rightarrow> i | None \<Rightarrow> 0)) 0 0
      (case absolute_pts info of Some p \<Rightarrow> p | None \<Rightarrow> 0) (case absolute_pts info of Some p \<Rightarrow> p | None \<Rightarrow> 0)
      (case si_duration info of Some d \<Rightarrow> d | None \<Rightarrow> 0) FLAGS_KEYFRAME (sec_raw s))"
  show ?thesis
    by (rule exI [of _ "\<lambda>e. Some (broadcaster_emit ?frag (case e of Some bc \<Rightarrow> bc
        | None \<Rightarrow> broadcaster_new SCTE35_TRACK (fragment_meta_new (ustr_of ''scte35'') 90000)))"])
      (simp add: srt_process_scte35_def Ok publish_scte35_def get_or_create_def Let_def split: option.split)
next
  case (Err e)
  then show ?thesis by (intro exI [of _ "\<lambda>e. e"]) (simp add: srt_process_scte35_def)
next
  case Panic
  then show ?thesis using parse_section_no_panic [of "sec_raw s"] by simp
qed

lemma sections_effect:
  "\<exists>g. \<forall>reg. srt_sections_all mx b ss reg = Ok (reg((b, SCTE35_TRACK) := g (reg (b, SCTE35_TRACK))))"
proof (induction ss)
  case Nil
  then show ?case by (intro exI [of _ "\<lambda>e. e"]) simp
next
  case (Cons s ss)
  then obtain g where g: "srt_sections_all mx b ss reg = Ok (reg((b, SCTE35_TRACK) := g (reg (b, SCTE35_TRACK))))" for reg
    by blast
  obtain h where h: "srt_process_scte35 mx b s reg = Ok (reg((b, SCTE35_TRACK) := h (reg (b, SCTE35_TRACK))))" for reg
    using scte35_effect by blast
  show ?case by (intro exI [of _ "\<lambda>e. g (h e)"]) (simp add: g h del: fun_upd_apply, simp)
qed

lemma sections_append:
  "srt_sections_all mx b (ss @ ts) reg = obind (srt_sections_all mx b ss reg) (srt_sections_all mx b ts)"
  by (induction ss arbitrary: reg) (auto simp: obind_assoc intro!: obind_cong)

lemma pes_all_append:
  "srt_pes_all mx b (ps @ qs) st reg = obind (srt_pes_all mx b ps st reg) (\<lambda>(st, reg). srt_pes_all mx b qs st reg)"
  by (induction ps arbitrary: st reg) (auto simp: obind_assoc split_def intro!: obind_cong)

lemma scte35_elsewhere: "elsewhere b (b, SCTE35_TRACK)"
  by (simp add: elsewhere_def SCTE35_TRACK_def srt_video_track_def srt_audio_track_def ustr_of_def)

section \<open>Datagrams in any cut\<close>

fun srt_receive_all :: "mux_env \<Rightarrow> ustr \<Rightarrow> bytes list \<Rightarrow> srt_conn \<Rightarrow> registry \<Rightarrow> (srt_conn \<times> registry, unit) outcome" where
  "srt_receive_all mx b [] st reg = Ok (st, reg)"
| "srt_receive_all mx b (c # cs) st reg =
     obind (srt_receive mx b c st reg) (\<lambda>(st, reg). srt_receive_all mx b cs st reg)"

lemma srt_receive_all_eq:
  assumes "ts_feed_all cs (sc_demux st) = Ok (d, out)" and "td_pending_scte35 (sc_demux st) = []"
  shows "srt_receive_all mx b cs st reg = obind (srt_pes_all mx b out st reg) (\<lambda>(st', reg').
    obind (srt_sections_all mx b (td_pending_scte35 d) reg') (\<lambda>reg''.
      Ok (st'\<lparr>sc_demux := d\<lparr>td_pending_scte35 := []\<rparr>\<rparr>, reg'')))"
  using assms
proof (induction cs arbitrary: st reg d out)
  case Nil
  then have "d\<lparr>td_pending_scte35 := []\<rparr> = d" "d = sc_demux st" "out = []" by simp_all
  then show ?case using Nil by simp
next
  case (Cons c cs)
  let ?k = "(b, SCTE35_TRACK)"
  obtain d1 o1 o2 where f: "ts_feed c (sc_demux st) = Ok (d1, o1)" "ts_feed_all cs d1 = Ok (d, o2)" "out = o1 @ o2"
    using Cons.prems(1) by (auto simp: obind_eq_Ok split_def)
  define p d1' where "p = td_pending_scte35 d1" and "d1' = d1\<lparr>td_pending_scte35 := []\<rparr>"
  have d1: "d1 = pend p d1'" "td_pending_scte35 d1' = []" by (simp_all add: p_def d1'_def pend_def)
  obtain d' where d': "ts_feed_all cs d1' = Ok (d', o2)" "d = pend p d'"
    using f(2) unfolding d1(1) ts_feed_all_pend omap_eq_Ok by auto
  obtain g where g: "srt_sections_all mx b p r = Ok (r(?k := g (r ?k)))" for r using sections_effect by blast
  have take: "take_scte35_sections d1 = (p, d1')" by (simp add: take_scte35_sections_def p_def d1'_def)
  have once: "srt_receive mx b c st reg = obind (srt_pes_all mx b o1 st reg) (\<lambda>(sa, ra).
      Ok (sa\<lparr>sc_demux := d1'\<rparr>, ra(?k := g (ra ?k))))"
    using pes_all_aside [OF scte35_elsewhere, of mx b o1 d1 st reg "reg ?k"]
    by (simp add: srt_receive_def f(1) obind_omap split_def)
      (intro obind_cong refl, auto simp: take g dest: pes_all_keeps [OF scte35_elsewhere])
  show ?case
  proof (cases "srt_pes_all mx b o1 st reg")
    case (Ok sra)
    obtain sa ra where sra: "sra = (sa, ra)" by (cases sra)
    let ?g = "g (ra ?k)"
    have more: "srt_receive_all mx b cs (sa\<lparr>sc_demux := d1'\<rparr>) (ra(?k := ?g)) =
        obind (srt_pes_all mx b o2 sa ra) (\<lambda>(sb, rb).
          obind (srt_sections_all mx b (td_pending_scte35 d') (rb(?k := ?g))) (\<lambda>r.
            Ok (sb\<lparr>sc_demux := d'\<lparr>td_pending_scte35 := []\<rparr>\<rparr>, r)))"
      using Cons.IH [of "sa\<lparr>sc_demux := d1'\<rparr>" d' o2 "ra(?k := ?g)"] d' d1(2)
        pes_all_aside [OF scte35_elsewhere, of mx b o2 d1' sa ra ?g]
      by (simp add: obind_omap split_def del: fun_upd_apply)
    have "srt_receive_all mx b (c # cs) st reg = obind (srt_pes_all mx b o2 sa ra) (\<lambda>(sb, rb).
          obind (srt_sections_all mx b (td_pending_scte35 d') (rb(?k := ?g))) (\<lambda>r.
            Ok (sb\<lparr>sc_demux := d'\<lparr>td_pending_scte35 := []\<rparr>\<rparr>, r)))"
      using more by (simp add: once Ok sra)
    also have "\<dots> = obind (srt_pes_all mx b o2 sa ra) (\<lambda>(sb, rb).
          obind (srt_sections_all mx b (p @ td_pending_scte35 d') rb) (\<lambda>r.
            Ok (sb\<lparr>sc_demux := d\<lparr>td_pending_scte35 := []\<rparr>\<rparr>, r)))"
      by (intro obind_cong refl) (auto simp: sections_append g d'(2) pend_def dest: pes_all_keeps [OF scte35_elsewhere])
    finally show ?thesis by (simp add: f(3) pes_all_append Ok sra d'(2))
  qed (simp_all add: once f(3) pes_all_append)
qed

definition srt_view :: "srt_conn \<times> registry \<Rightarrow> srt_conn \<times> registry" where
  "srt_view p = ((fst p)\<lparr>sc_demux := ts_view (sc_demux (fst p))\<rparr>, snd p)"

lemma ts_feed_all_single: "ts_feed_all [c] d = ts_feed c d"
  by (simp add: split_def obind_eq_Ok cong: obind_cong)

lemma srt_receive_all_single: "srt_receive_all mx b [c] st reg = srt_receive mx b c st reg"
  by (cases "srt_receive mx b c st reg") auto


definition srt_example_env :: mux_env where
  "srt_example_env = \<lparr>mx_encode = (\<lambda>brands m. Some [1, 2, 3]), mx_avcc_new = (\<lambda>sps pps. None), mx_moof = flat_encoder,
     mx_now_ms = 1700000000000\<rparr>"


section \<open>ADTS frames\<close>

text \<open>A writer of ADTS frames: every header field that the receiver reads, the other bits arbitrary.\<close>

record adts_frame =
  af_b1 :: u8
  af_profile :: nat
  af_freq_idx :: nat
  af_channels :: nat
  af_private :: bool
  af_b3 :: u8
  af_b5 :: u8
  af_b6 :: u8
  af_crc :: bytes
  af_data :: bytes

definition adts_len :: "adts_frame \<Rightarrow> nat" where
  "adts_len f = 7 + length (af_crc f) + length (af_data f)"

definition adts_bytes :: "adts_frame \<Rightarrow> bytes" where
  "adts_bytes f =
     [0xFF, af_b1 f,
      push_bit 6 (of_nat (af_profile f)) OR push_bit 2 (of_nat (af_freq_idx f)) OR push_bit 1 (of_bool (af_private f)) OR
        of_nat (drop_bit 2 (af_channels f)),
      push_bit 6 (of_nat (take_bit 2 (af_channels f))) OR (af_b3 f AND 0x3C) OR of_nat (drop_bit 11 (adts_len f)),
      of_nat (take_bit 8 (drop_bit 3 (adts_len f))),
      push_bit 5 (of_nat (take_bit 3 (adts_len f))) OR (af_b5 f AND 0x1F), af_b6 f] @ af_crc f @ af_data f"

definition adts_ok :: "adts_frame \<Rightarrow> bool" where
  "adts_ok f \<longleftrightarrow> af_b1 f AND 0xF0 = 0xF0 \<and> af_profile f < 4 \<and> af_freq_idx f < 13 \<and> af_channels f < 8 \<and>
     length (af_crc f) = (if af_b1 f AND 1 = 0 then 2 else 0) \<and> adts_len f < 2 ^ 13"

lemma nat_bit_high: "(n::nat) < 2 ^ m \<Longrightarrow> bit n k \<Longrightarrow> k < m"
  by (metis bit_take_bit_iff take_bit_nat_eq_self_iff)
lemma below_13: "k < 13 \<Longrightarrow> k \<in> {0, 1, 2, 3, 4, 5, 6, 7, 8, 9, 10, 11, 12::nat}"
  by simp arith
lemma length_bits:
  assumes "n < 2 ^ 13"
  shows "push_bit 11 (unat (((a AND 0x3C) OR of_nat (drop_bit 11 n) :: u8) AND 3)) OR
      push_bit 3 (unat (of_nat (take_bit 8 (drop_bit 3 n)) :: u8)) OR
      unat (drop_bit 5 (push_bit 5 (of_nat (take_bit 3 n)) OR (c AND 0x1F) :: u8)) = n"
proof (rule bit_eqI)
  fix k assume "possible_bit TYPE(nat) k"
  have "bit n k \<Longrightarrow> k < 13" using assms nat_bit_high by blast
  then show "bit (push_bit 11 (unat (((a AND 0x3C) OR of_nat (drop_bit 11 n) :: u8) AND 3)) OR
      push_bit 3 (unat (of_nat (take_bit 8 (drop_bit 3 n)) :: u8)) OR
      unat (drop_bit 5 (push_bit 5 (of_nat (take_bit 3 n)) OR (c AND 0x1F) :: u8))) k = bit n k"
  proof (cases "k < 13")
    case True
    then show ?thesis using below_13 [OF True] unfolding insert_iff empty_iff by (elim disjE) (simp_all add: bit_simps)
  next
    case False
    then obtain j where k: "k = j + 13" using le_Suc_ex [of 13 k] by (auto simp: ac_simps)
    have "\<not> bit (3::u8) (Suc (Suc j))" by (simp add: bit_Suc)
    moreover have "\<not> bit n (j + 13)" using k \<open>bit n k \<Longrightarrow> k < 13\<close> by auto
    ultimately show ?thesis by (simp add: bit_simps k)
  qed
qed

lemma u8_eqI:
  assumes "bit a 0 = bit b 0" "bit a 1 = bit b 1" "bit a 2 = bit b 2" "bit a 3 = bit b 3" "bit a 4 = bit b 4"
    "bit a 5 = bit b 5" "bit a 6 = bit b 6" "bit a 7 = bit b 7"
  shows "a = (b :: u8)"
proof (rule bit_word_eqI)
  fix k assume "k < LENGTH(8)"
  then have "k = 0 \<or> k = 1 \<or> k = 2 \<or> k = 3 \<or> k = 4 \<or> k = 5 \<or> k = 6 \<or> k = 7" by (simp, arith)
  then show "bit a k = bit b k" using assms by (elim disjE) simp_all
qed

lemma asc_fields:
  assumes "p < (4::nat)" "i < (16::nat)" "c < (8::nat)" "n < (2::nat) ^ 13"
  shows "drop_bit 6 (push_bit 6 (of_nat p) OR push_bit 2 (of_nat i) OR push_bit 1 (of_bool v) OR of_nat (drop_bit 2 c) :: u8) AND 3 = of_nat p"
    "drop_bit 2 (push_bit 6 (of_nat p) OR push_bit 2 (of_nat i) OR push_bit 1 (of_bool v) OR of_nat (drop_bit 2 c) :: u8) AND 0x0F = of_nat i"
    "push_bit 2 ((push_bit 6 (of_nat p) OR push_bit 2 (of_nat i) OR push_bit 1 (of_bool v) OR of_nat (drop_bit 2 c) :: u8) AND 1) OR
      (drop_bit 6 (push_bit 6 (of_nat (take_bit 2 c)) OR (x AND 0x3C) OR of_nat (drop_bit 11 n)) AND 3) = of_nat c"
proof -
  have bits: "\<not> bit p 2" "\<not> bit p 3" "\<not> bit p 4" "\<not> bit p 5" "\<not> bit p 6" "\<not> bit p 7"
    "\<not> bit i 4" "\<not> bit i 5" "\<not> bit i 6" "\<not> bit i 7"
    "\<not> bit c 3" "\<not> bit c 4" "\<not> bit c 5" "\<not> bit c 6" "\<not> bit c 7" "\<not> bit c 8" "\<not> bit c 9"
    "\<not> bit n 13" "\<not> bit n 14" "\<not> bit n 15" "\<not> bit n 16" "\<not> bit n 17" "\<not> bit n 18"
    using nat_bit_high [of p 2] nat_bit_high [of i 4] nat_bit_high [of c 3] nat_bit_high [of n 13] assms by force+
  show "drop_bit 6 (push_bit 6 (of_nat p) OR push_bit 2 (of_nat i) OR push_bit 1 (of_bool v) OR of_nat (drop_bit 2 c) :: u8) AND 3 = of_nat p"
    by (rule u8_eqI) (simp_all add: bit_simps bits)
  show "drop_bit 2 (push_bit 6 (of_nat p) OR push_bit 2 (of_nat i) OR push_bit 1 (of_bool v) OR of_nat (drop_bit 2 c) :: u8) AND 0x0F = of_nat i"
    by (rule u8_eqI) (simp_all add: bit_simps bits)
  show "push_bit 2 ((push_bit 6 (of_nat p) OR push_bit 2 (of_nat i) OR push_bit 1 (of_bool v) OR of_nat (drop_bit 2 c) :: u8) AND 1) OR
      (drop_bit 6 (push_bit 6 (of_nat (take_bit 2 c)) OR (x AND 0x3C) OR of_nat (drop_bit 11 n)) AND 3) = of_nat c"
    by (rule u8_eqI) (simp_all add: bit_simps bits)
qed

lemma length_adts_bytes: "length (adts_bytes f) = adts_len f"
  by (simp add: adts_bytes_def adts_len_def)

lemma adts_bytes_read:
  assumes "adts_ok f" and p: "payload = pre @ adts_bytes f @ rest" and off: "off = length pre"
  shows "payload ! off = 0xFF" "payload ! (off + 1) AND 0xF0 = 0xF0" "adts_frame_len payload off = adts_len f"
    "adts_header_len payload off + length (af_data f) = adts_len f"
    "slice payload (off + adts_header_len payload off) (off + adts_len f) = Ok (af_data f)"
proof -
  have at: "payload ! off = 0xFF" "payload ! (off + 1) = af_b1 f"
    "payload ! (off + 3) = push_bit 6 (of_nat (take_bit 2 (af_channels f))) OR (af_b3 f AND 0x3C) OR of_nat (drop_bit 11 (adts_len f))"
    "payload ! (off + 4) = of_nat (take_bit 8 (drop_bit 3 (adts_len f)))"
    "payload ! (off + 5) = push_bit 5 (of_nat (take_bit 3 (adts_len f))) OR (af_b5 f AND 0x1F)"
    by (simp_all add: p off nth_append adts_bytes_def)
  show "payload ! off = 0xFF" by (fact at(1))
  show "payload ! (off + 1) AND 0xF0 = 0xF0" using assms(1) by (simp only: at(2) adts_ok_def)
  have mask: "(push_bit 6 a OR (x AND 0x3C) OR y) AND 3 = ((x AND 0x3C) OR y) AND (3 :: u8)" for a x y
    by (rule u8_eqI) (simp_all add: bit_simps)
  show len: "adts_frame_len payload off = adts_len f"
    using assms(1) by (simp only: adts_frame_len_def at mask length_bits adts_ok_def)
  show hdr: "adts_header_len payload off + length (af_data f) = adts_len f"
    using assms(1) by (simp add: adts_header_len_def at(2) [simplified] adts_ok_def adts_len_def)
  obtain hd where hd: "adts_bytes f = hd @ af_crc f @ af_data f" "length hd = 7"
    by (simp add: adts_bytes_def)
  have h: "adts_header_len payload off = length hd + length (af_crc f)" using hdr hd(2) by (simp add: adts_len_def)
  show "slice payload (off + adts_header_len payload off) (off + adts_len f) = Ok (af_data f)"
    unfolding h by (simp add: p off hd adts_len_def)
qed

fun srt_emit_frames ::
    "mux_env \<Rightarrow> ustr \<Rightarrow> pes_packet \<Rightarrow> bytes list \<Rightarrow> srt_conn \<Rightarrow> registry \<Rightarrow> (srt_conn \<times> registry, unit) outcome" where
  "srt_emit_frames mx b pes [] st reg = Ok (st, reg)"
| "srt_emit_frames mx b pes (d # ds) st reg =
     obind (srt_emit_audio mx b pes d st reg) (\<lambda>(st, reg). srt_emit_frames mx b pes ds st reg)"

lemma aac_loop_frames:
  assumes "pes_payload pes = pre @ concat (map adts_bytes fs) @ junk" and "\<forall>f \<in> set fs. adts_ok f" and "length junk < 7"
  shows "srt_aac_loop mx b pes (length pre) st reg = srt_emit_frames mx b pes (map af_data fs) st reg"
  using assms
proof (induction fs arbitrary: pre st reg)
  case Nil
  then show ?case by (simp add: aac_loop_stop)
next
  case (Cons f fs)
  have p: "pes_payload pes = pre @ adts_bytes f @ (concat (map adts_bytes fs) @ junk)" using Cons.prems(1) by simp
  have ok: "adts_ok f" using Cons.prems by simp
  note r = adts_bytes_read [OF ok p refl]
  have IH: "srt_aac_loop mx b pes (length pre + adts_len f) st reg = srt_emit_frames mx b pes (map af_data fs) st reg" for st reg
    using Cons.IH [of "pre @ adts_bytes f"] Cons.prems by (simp add: length_adts_bytes)
  show ?case
  proof (subst aac_loop_step)
    show "length pre + 7 \<le> length (pes_payload pes)" using p by (simp add: length_adts_bytes adts_len_def)
    show "adts_header_len (pes_payload pes) (length pre) \<le> adts_frame_len (pes_payload pes) (length pre)"
      using r(3,4) by simp
    show "length pre + adts_frame_len (pes_payload pes) (length pre) \<le> length (pes_payload pes)"
      unfolding r(3) using p by (simp add: length_adts_bytes)
  qed (simp_all only: r list.map srt_emit_frames.simps obind.simps, simp add: IH split_def)
qed

definition audio_fragment_of :: "pes_packet \<Rightarrow> u64 \<Rightarrow> bytes \<Rightarrow> media_fragment \<Rightarrow> bool" where
  "audio_fragment_of pes seq data g \<longleftrightarrow> extract_mdat_body (fg_payload g) = Ok (Some data) \<and> fg_group_id g = seq \<and>
     (fg_dts g, fg_pts g) = pes_times pes \<and> fg_flags g = FLAGS_AUDIO"

lemma emit_audio_published:
  assumes "encoder_ok (mx_moof mx) body_size" and "8 + body_size 1 < 2 ^ 32" and "length data < 2 ^ 32 - 8"
  shows "\<exists>g reg'. srt_emit_audio mx b pes data st reg =
      Ok (st\<lparr>sc_prev_audio_dts := Some (fst (pes_times pes)), sc_audio_seq := sc_audio_seq st + 1\<rparr>, reg') \<and>
    audio_fragment_of pes (sc_audio_seq st + 1) data g \<and>
    fg_duration g = ucast (srt_duration (sc_prev_audio_dts st) (fst (pes_times pes)) 1024) \<and>
    published_on reg' (b, srt_audio_track) = published_on reg (b, srt_audio_track) @ [g] \<and>
    (\<forall>k. k \<noteq> (b, srt_audio_track) \<longrightarrow> reg' k = reg k)"
proof -
  obtain dts pts where t: "pes_times pes = (dts, pts)" by (cases "pes_times pes")
  define raw where "raw = \<lparr>rs_track_id = 2, rs_dts = dts, rs_cts_offset = 0,
      rs_duration = srt_duration (sc_prev_audio_dts st) dts 1024, rs_payload = data, rs_keyframe = True\<rparr>"
  have m: "media [raw] = data" by (simp add: media_def raw_def)
  obtain payload where p: "build_moof_mdat (mx_moof mx) (ucast (sc_audio_seq st + 1)) 2 dts [raw] = Ok payload"
      "extract_mdat_body payload = Ok (Some data)"
    using fragment_readable [OF assms(1), of "[raw]" "ucast (sc_audio_seq st + 1)" 2 dts] assms(2,3) unfolding m by auto
  define g0 where "g0 = fragment_new srt_audio_track (sc_audio_seq st + 1) 0 0 dts pts
      (ucast (srt_duration (sc_prev_audio_dts st) dts 1024)) FLAGS_AUDIO payload"
  let ?g = "if fg_ingest_time_ms g0 = 0 then g0\<lparr>fg_ingest_time_ms := mx_now_ms mx\<rparr> else g0"
  let ?reg = "publish_fragment (mx_now_ms mx) b srt_audio_track (ustr_of ''mp4a.40.2'') (sc_audio_timescale st) g0 reg"
  have "srt_emit_audio mx b pes data st reg =
      Ok (st\<lparr>sc_prev_audio_dts := Some dts, sc_audio_seq := sc_audio_seq st + 1\<rparr>, ?reg)"
    using p(1) by (simp add: srt_emit_audio_def t raw_def g0_def)
  moreover have "audio_fragment_of pes (sc_audio_seq st + 1) data ?g"
    by (simp add: audio_fragment_of_def g0_def fragment_new_def p(2) t)
  moreover have "fg_duration ?g = ucast (srt_duration (sc_prev_audio_dts st) dts 1024)"
    by (simp add: g0_def fragment_new_def)
  moreover have "?reg k = reg k" if "k \<noteq> (b, srt_audio_track)" for k
    using that by (cases k) (auto simp: publish_fragment_lookup)
  ultimately show ?thesis
    by (intro exI [of _ ?g] exI [of _ ?reg]) (simp add: t published_on_fragment)
qed

lemma number_from_1:
  "zip [1..<Suc (length (d # ds))] (d # ds) = (1, d) # map (\<lambda>(n, d). (Suc n, d)) (zip [1..<Suc (length ds)] ds)"
proof -
  have "[1..<Suc (Suc n)] = 1 # map Suc [1..<Suc n]" for n by (simp add: map_Suc_upt upt_conv_Cons del: upt_Suc)
  then show ?thesis by (simp only: length_Cons zip_Cons_Cons zip_map1)
qed

lemma emit_frames_published:
  assumes "encoder_ok (mx_moof mx) body_size" and "8 + body_size 1 < 2 ^ 32" and "\<forall>d \<in> set ds. length d < 2 ^ 32 - 8"
  shows "\<exists>gs st' reg'. srt_emit_frames mx b pes ds st reg = Ok (st', reg') \<and>
    published_on reg' (b, srt_audio_track) = published_on reg (b, srt_audio_track) @ gs \<and>
    list_all2 (\<lambda>(n, d) g. audio_fragment_of pes (sc_audio_seq st + of_nat n) d g) (zip [1..<Suc (length ds)] ds) gs \<and>
    map fg_duration gs = map (\<lambda>n. if n = 0 then ucast (srt_duration (sc_prev_audio_dts st) (fst (pes_times pes)) 1024) else 1024)
      [0..<length ds] \<and>
    (\<forall>k. k \<noteq> (b, srt_audio_track) \<longrightarrow> reg' k = reg k)"
  using assms(3)
proof (induction ds arbitrary: st reg)
  case (Cons d ds)
  let ?dts = "fst (pes_times pes)"
  let ?st = "st\<lparr>sc_prev_audio_dts := Some ?dts, sc_audio_seq := sc_audio_seq st + 1\<rparr>"
  obtain g r where g: "srt_emit_audio mx b pes d st reg = Ok (?st, r)" "audio_fragment_of pes (sc_audio_seq st + 1) d g"
      "fg_duration g = ucast (srt_duration (sc_prev_audio_dts st) ?dts 1024)"
      "published_on r (b, srt_audio_track) = published_on reg (b, srt_audio_track) @ [g]"
      "\<forall>k. k \<noteq> (b, srt_audio_track) \<longrightarrow> r k = reg k"
    using emit_audio_published [OF assms(1,2), of d b pes st reg] Cons.prems by auto
  have st': "sc_audio_seq ?st = sc_audio_seq st + 1" "sc_prev_audio_dts ?st = Some ?dts" by simp_all
  have tail: "\<forall>d \<in> set ds. length d < 2 ^ 32 - 8" using Cons.prems by simp
  obtain gs st' r' where gs: "srt_emit_frames mx b pes ds ?st r = Ok (st', r')"
      "published_on r' (b, srt_audio_track) = published_on r (b, srt_audio_track) @ gs"
      "list_all2 (\<lambda>(n, d) g. audio_fragment_of pes (sc_audio_seq st + 1 + of_nat n) d g) (zip [1..<Suc (length ds)] ds) gs"
      "map fg_duration gs = map (\<lambda>n. if n = 0 then ucast (srt_duration (Some ?dts) ?dts 1024) else 1024) [0..<length ds]"
      "\<forall>k. k \<noteq> (b, srt_audio_track) \<longrightarrow> r' k = r k"
    using Cons.IH [OF tail, of ?st r] unfolding st' by (elim exE conjE) (rule that, assumption+)
  have len: "length gs = length ds" using list_all2_lengthD [OF gs(3)] by (simp del: upt_Suc)
  have a: "list_all2 (\<lambda>(n, d) g. audio_fragment_of pes (sc_audio_seq st + of_nat n) d g)
      (zip [1..<Suc (length (d # ds))] (d # ds)) (g # gs)"
    unfolding number_from_1 list_all2_Cons list_all2_map1 prod.case
  proof
    show "audio_fragment_of pes (sc_audio_seq st + of_nat 1) d g" using g(2) by simp
    show "list_all2 (\<lambda>x. case case x of (n, d) \<Rightarrow> (Suc n, d) of (n, d) \<Rightarrow> audio_fragment_of pes (sc_audio_seq st + of_nat n) d)
        (zip [1..<Suc (length ds)] ds) gs"
      by (rule list_all2_mono [OF gs(3)]) (auto simp: add.assoc)
  qed
  have b: "map fg_duration (g # gs) = map (\<lambda>n. if n = 0 then ucast (srt_duration (sc_prev_audio_dts st) ?dts 1024) else 1024)
      [0..<length (d # ds)]"
  proof -
    have "[0..<length (d # ds)] = 0 # map Suc [0..<length ds]" by (simp add: map_Suc_upt upt_conv_Cons del: upt_Suc)
    then show ?thesis using g(3) by (simp only: list.map gs(4)) (simp add: srt_duration_def)
  qed
  show ?case
  proof (intro exI conjI)
    show "srt_emit_frames mx b pes (d # ds) st reg = Ok (st', r')" using g(1) gs(1) by simp
    show "published_on r' (b, srt_audio_track) = published_on reg (b, srt_audio_track) @ g # gs" using g(4) gs(2) by simp
    show "\<forall>k. k \<noteq> (b, srt_audio_track) \<longrightarrow> r' k = reg k" using g(5) gs(5) by simp
  qed (fact a b)+
qed simp

text \<open>
  C35. The ADTS frames of an audio PES packet are published one by one, in order and none left out: each fragment
  holds the raw AAC data behind its 7- or 9-byte header, with the next sequence number.  All of them carry the
  timestamp of the packet, so those behind the first have the duration 1024 and start when the first one does.
\<close>

theorem adts_frames_published:
  assumes "encoder_ok (mx_moof mx) body_size" and "8 + body_size 1 < 2 ^ 32"
    and "pes_payload pes = concat (map adts_bytes fs) @ junk" and "\<forall>f \<in> set fs. adts_ok f" and "length junk < 7"
    and "sc_audio_init_emitted st"
  shows "\<exists>gs st' reg'. srt_process_aac mx b pes st reg = Ok (st', reg') \<and>
    published_on reg' (b, srt_audio_track) = published_on reg (b, srt_audio_track) @ gs \<and>
    list_all2 (\<lambda>(n, f) g. audio_fragment_of pes (sc_audio_seq st + of_nat n) (af_data f) g) (zip [1..<Suc (length fs)] fs) gs \<and>
    map fg_duration gs = map (\<lambda>n. if n = 0 then ucast (srt_duration (sc_prev_audio_dts st) (fst (pes_times pes)) 1024) else 1024)
      [0..<length fs] \<and>
    (\<forall>k. k \<noteq> (b, srt_audio_track) \<longrightarrow> reg' k = reg k)"
proof -
  have "\<forall>d \<in> set (map af_data fs). length d < 2 ^ 32 - 8" using assms(4) by (auto simp: adts_ok_def adts_len_def)
  note E = emit_frames_published [OF assms(1,2) this, of b pes st reg]
  have loop: "srt_process_aac mx b pes st reg = srt_emit_frames mx b pes (map af_data fs) st reg"
    using aac_loop_frames [of pes "[]" fs junk] assms(3-6) by (simp add: srt_process_aac_def srt_aac_init_def)
  show ?thesis
    using E unfolding loop length_map zip_map2 list_all2_map1 by (auto simp: split_def simp del: upt_Suc)
qed

definition srt_example_frame :: adts_frame where
  "srt_example_frame = \<lparr>af_b1 = 0xF1, af_profile = 1, af_freq_idx = 4, af_channels = 2, af_private = False, af_b3 = 0,
     af_b5 = 0x1F, af_b6 = 0xFC, af_crc = [], af_data = [0x21, 0x10, 0x05]\<rparr>"

definition srt_example_pes :: pes_packet where
  "srt_example_pes = \<lparr>pes_pid = 257, pes_stream_type = StAac, pes_pts = Some 90000, pes_dts = None,
     pes_payload = adts_bytes srt_example_frame @ adts_bytes srt_example_frame\<rparr>"

theorem adts_frames_published_witness:
  "\<exists>g1 g2 st reg. srt_process_aac srt_example_env [99] srt_example_pes (srt_conn_new\<lparr>sc_audio_init_emitted := True\<rparr>) Map.empty =
       Ok (st, reg) \<and>
     published_on reg ([99], srt_audio_track) = [g1, g2] \<and> fg_dts g1 = 90000 \<and> fg_dts g2 = 90000 \<and> fg_duration g2 = 1024 \<and>
     extract_mdat_body (fg_payload g2) = Ok (Some [0x21, 0x10, 0x05])"
proof -
  have ok: "adts_ok srt_example_frame" by (simp add: adts_ok_def srt_example_frame_def adts_len_def)
  have "encoder_ok (mx_moof srt_example_env) (\<lambda>n. 8 + 4 * n)" by (simp add: srt_example_env_def flat_encoder_ok)
  from adts_frames_published [OF this, of srt_example_pes "[srt_example_frame, srt_example_frame]" "[]"
      "srt_conn_new\<lparr>sc_audio_init_emitted := True\<rparr>" "[99]" Map.empty] ok
  obtain gs st reg where gs: "srt_process_aac srt_example_env [99] srt_example_pes (srt_conn_new\<lparr>sc_audio_init_emitted := True\<rparr>)
        Map.empty = Ok (st, reg)" "published_on reg ([99], srt_audio_track) = gs"
      "list_all2 (\<lambda>(n, f) g. audio_fragment_of srt_example_pes (of_nat n) (af_data f) g)
        [(1, srt_example_frame), (2, srt_example_frame)] gs" "map fg_duration gs = [1024, 1024]"
    by (auto simp: srt_example_pes_def published_on_def srt_conn_new_def srt_duration_def upt_rec)
  then obtain g1 g2 where "gs = [g1, g2]" by (auto simp: list_all2_Cons1)
  with gs show ?thesis
    by (intro exI [of _ g1] exI [of _ g2] exI [of _ st] exI [of _ reg])
      (simp add: audio_fragment_of_def pes_times_def srt_example_pes_def srt_example_frame_def)
qed

lemma list_position_None: "list_position x xs = None \<longleftrightarrow> x \<notin> set xs"
  by (induction xs) auto


definition srt_example_moov :: moov where
  "srt_example_moov = audio_moov 44100 ''LVQR Audio'' (Mp4a
     \<lparr>ae_channel_count = 2, ae_sample_size = 16, ae_sample_rate = 44100\<rparr>
     \<lparr>ds_profile = 2, ds_freq_index = 4, ds_chan_conf = 2\<rparr>)"


end
