(* ===== verification/IngestPaths.thy ===== *)
theory IngestPaths
  imports SrtIngest RtspConn
begin

text \<open>
  The two publishing paths that take raw access units, RTSP (\<open>lvqr-rtsp/src/server.rs\<close>) and SRT
  (\<open>lvqr-srt/src/ingest.rs\<close>), against each other: the same access units reach the registry as the same
  init segments and fragments.
\<close>

section \<open>Corresponding connections\<close>

definition same_env :: "rtsp_env \<Rightarrow> mux_env \<Rightarrow> bool" where
  "same_env ev mx \<longleftrightarrow> ev_encode ev = mx_encode mx \<and> ev_avcc_new ev = mx_avcc_new mx \<and> ev_moof ev = mx_moof mx \<and>
     ev_now_ms ev = mx_now_ms mx"

definition same_video :: "rtsp_conn \<Rightarrow> srt_conn \<Rightarrow> bool" where
  "same_video conn st \<longleftrightarrow> cn_sps conn = sc_sps st \<and> cn_pps conn = sc_pps st \<and> cn_vps conn = sc_vps st \<and>
     cn_video_init_emitted conn = sc_video_init_emitted st \<and> cn_video_seq conn = sc_video_seq st \<and>
     cn_prev_video_dts conn = sc_prev_video_dts st"

text \<open>An access unit as the RTP depacketizer and as the TS demuxer deliver it.\<close>

definition same_unit :: "stream_type \<Rightarrow> depack_result \<Rightarrow> pes_packet \<Rightarrow> bool" where
  "same_unit codec result pes \<longleftrightarrow> pes_stream_type pes = codec \<and>
     dr_nalus result = annexb_nals (pes_payload pes) \<and>
     pes_times pes = (ucast (dr_timestamp result), ucast (dr_timestamp result)) \<and>
     dr_keyframe result = list_ex (if codec = StH265 then hevc_nal_is_key else h264_nal_is_idr) (dr_nalus result)"

fun same_outcome :: "(rtsp_conn \<times> registry, unit) outcome \<Rightarrow> (srt_conn \<times> registry, unit) outcome \<Rightarrow> bool" where
  "same_outcome (Ok (conn, reg)) (Ok (st, reg')) \<longleftrightarrow> same_video conn st \<and> reg = reg'"
| "same_outcome Panic Panic \<longleftrightarrow> True"
| "same_outcome (Err e) (Err e') \<longleftrightarrow> True"
| "same_outcome _ _ \<longleftrightarrow> False"

fun same_init :: "((rtsp_conn \<times> registry) option, unit) outcome \<Rightarrow> ((srt_conn \<times> registry) option, unit) outcome \<Rightarrow> bool" where
  "same_init (Ok (Some p)) (Ok (Some q)) \<longleftrightarrow> same_outcome (Ok p) (Ok q)"
| "same_init (Ok None) (Ok None) \<longleftrightarrow> True"
| "same_init Panic Panic \<longleftrightarrow> True"
| "same_init (Err e) (Err e') \<longleftrightarrow> True"
| "same_init _ _ \<longleftrightarrow> False"

lemma same_init_bind:
  assumes "same_init m n" and "same_outcome a b"
    and "\<And>conn st reg. same_video conn st \<Longrightarrow> same_outcome (f conn reg) (g st reg)"
  shows "same_outcome (obind m (\<lambda>r. case r of None \<Rightarrow> a | Some (conn, reg) \<Rightarrow> f conn reg))
    (obind n (\<lambda>r. case r of None \<Rightarrow> b | Some (st, reg) \<Rightarrow> g st reg))"
  using assms by (cases "(m, n)" rule: same_init.cases) (auto split: prod.splits)

lemma same_outcome_bind: "(\<And>x. same_outcome (f x) (g x)) \<Longrightarrow> same_outcome (obind m f) (obind m g)"
  by (cases m) simp_all

section \<open>Each step\<close>

lemma same_note_h264: "same_video conn st \<Longrightarrow> same_video (note_h264_sets ns conn) (srt_note_h264 ns st)"
  by (induction ns arbitrary: conn st) (simp_all add: same_video_def)

lemma same_note_hevc: "same_video conn st \<Longrightarrow> same_video (note_hevc_sets ns conn) (srt_note_hevc ns st)"
  by (induction ns arbitrary: conn st) (simp_all add: same_video_def Let_def)

lemma track_names: "VIDEO_TRACK = srt_video_track" "AUDIO_TRACK = srt_audio_track"
  by (simp_all add: VIDEO_TRACK_def AUDIO_TRACK_def srt_video_track_def srt_audio_track_def)

lemma same_h264_init:
  "same_env ev mx \<Longrightarrow> same_video conn st \<Longrightarrow> same_init (ensure_h264_init ev b conn reg) (srt_h264_init mx b st reg)"
  by (auto simp: ensure_h264_init_def srt_h264_init_def same_env_def same_video_def track_names split: option.splits outcome.splits)

lemma same_hevc_init:
  "same_env ev mx \<Longrightarrow> same_video conn st \<Longrightarrow> same_init (ensure_hevc_init ev b conn reg) (srt_hevc_init mx b st reg)"
  by (auto simp: ensure_hevc_init_def srt_hevc_init_def same_env_def same_video_def track_names split: option.splits outcome.splits)

lemma same_emit:
  assumes "same_env ev mx" and "same_video conn st" and "pes_times pes = (ucast (dr_timestamp result), ucast (dr_timestamp result))"
    and "dr_keyframe result = key"
  shows "same_outcome (emit_video_fragment ev b result payload codec conn reg) (srt_emit_video mx b codec pes key payload st reg)"
  using assms
  by (simp add: emit_video_fragment_def srt_emit_video_def same_env_def same_video_def track_names frame_duration_def
      srt_duration_def same_outcome_bind Let_def)

lemma prefixed_h264:
  "srt_annex_b_to_avcc data = Ok (nals_to_length_prefixed (annexb_nals data) FilterH264)"
proof -
  have ne: "list_all (\<lambda>n. n \<noteq> []) (annexb_nals data)" 
    using annexb_codes_clean [of "snd (until_sc data)"] by (auto simp: annexb_nals_def list_all_iff)
  have "concat (map avcc_entry (filter (\<lambda>n. \<not> nal_is_param_set CodecH264 (n ! 0)) ns)) = nals_to_length_prefixed ns FilterH264"
    if "list_all (\<lambda>n. n \<noteq> []) ns" for ns
    using that by (induction ns) (simp_all add: nals_to_length_prefixed_def avcc_entry_def nal_is_param_set_def Let_def)
  then show ?thesis using ne by (simp add: srt_annex_b_to_avcc_def srt_split_spec srt_avcc_entries_eq)
qed

lemma prefixed_hevc:
  "srt_annex_b_to_hvcc data = Ok (nals_to_length_prefixed (annexb_nals data) FilterHevc)"
proof -
  have "concat (map avcc_entry (filter (\<lambda>n. 2 \<le> length n \<and> \<not> nal_is_param_set CodecH265 (n ! 0)) ns)) =
      nals_to_length_prefixed ns FilterHevc" for ns
    by (induction ns) (auto simp: nals_to_length_prefixed_def avcc_entry_def nal_is_param_set_def Let_def)
  then show ?thesis by (simp add: srt_annex_b_to_hvcc_def srt_split_spec srt_hvcc_entries_eq)
qed


lemma key_types: "hevc_is_keyframe (hevc_nal_from_u8 t) = is_hevc_keyframe t"
proof -
  have "19 \<le> t \<and> t \<le> 21 \<longleftrightarrow> unat t = 19 \<or> unat t = 20 \<or> unat t = 21" by (auto simp: word_le_nat_alt)
  then have "is_hevc_keyframe t \<longleftrightarrow> t = 19 \<or> t = 20 \<or> t = 21" by (simp add: is_hevc_keyframe_def word_unat_eq_iff)
  then show ?thesis by (auto simp: hevc_is_keyframe_def hevc_nal_from_u8_def)
qed

lemma same_h264:
  assumes "same_env ev mx" and "same_video conn st" and "same_unit StH264 result pes"
  shows "same_outcome (process_h264_nalus ev b result conn reg) (srt_process_h264 mx b pes st reg)"
proof -
  have u: "dr_nalus result = annexb_nals (pes_payload pes)" "pes_times pes = (ucast (dr_timestamp result), ucast (dr_timestamp result))"
      "dr_keyframe result = list_ex (\<lambda>n. n \<noteq> [] \<and> n ! 0 AND 0x1F = 5) (annexb_nals (pes_payload pes))"
    using assms(3) by (simp_all add: same_unit_def h264_nal_is_idr_def [abs_def])
  note s = same_note_h264 [OF assms(2), of "annexb_nals (pes_payload pes)"]
  show ?thesis
    unfolding process_h264_nalus_def srt_process_h264_def srt_split_spec prefixed_h264 obind.simps Let_def u(1)
    by (rule same_init_bind [OF same_h264_init [OF assms(1) s]])
      (use s in \<open>auto intro!: same_emit [OF assms(1) _ u(2,3)] simp del: One_nat_def\<close>)
qed

lemma same_hevc:
  assumes "same_env ev mx" and "same_video conn st" and "same_unit StH265 result pes"
  shows "same_outcome (process_hevc_nalus ev b result conn reg) (srt_process_hevc mx b pes st reg)"
proof -
  have u: "dr_nalus result = annexb_nals (pes_payload pes)" "pes_times pes = (ucast (dr_timestamp result), ucast (dr_timestamp result))"
      "dr_keyframe result = list_ex (\<lambda>n. 2 \<le> length n \<and> hevc_is_keyframe (hevc_nal_from_u8 (drop_bit 1 (n ! 0) AND 0x3F)))
         (annexb_nals (pes_payload pes))"
    using assms(3) by (simp_all add: same_unit_def hevc_nal_is_key_def [abs_def] key_types)
  note s = same_note_hevc [OF assms(2), of "annexb_nals (pes_payload pes)"]
  show ?thesis
    unfolding process_hevc_nalus_def srt_process_hevc_def srt_split_spec prefixed_hevc obind.simps Let_def u(1)
    by (rule same_init_bind [OF same_hevc_init [OF assms(1) s]])
      (use s in \<open>auto intro!: same_emit [OF assms(1) _ u(2,3)] simp del: One_nat_def\<close>)
qed

section \<open>A whole stream\<close>

fun rtsp_units_all ::
    "rtsp_env \<Rightarrow> ustr \<Rightarrow> stream_type \<Rightarrow> depack_result list \<Rightarrow> rtsp_conn \<Rightarrow> registry \<Rightarrow> (rtsp_conn \<times> registry, unit) outcome" where
  "rtsp_units_all ev b codec [] conn reg = Ok (conn, reg)"
| "rtsp_units_all ev b codec (r # rs) conn reg =
     obind ((if codec = StH265 then process_hevc_nalus else process_h264_nalus) ev b r conn reg)
       (\<lambda>(conn, reg). rtsp_units_all ev b codec rs conn reg)"

lemma same_bind:
  assumes "same_outcome m n" and "\<And>conn st reg. same_video conn st \<Longrightarrow> same_outcome (f conn reg) (g st reg)"
  shows "same_outcome (obind m (\<lambda>(conn, reg). f conn reg)) (obind n (\<lambda>(st, reg). g st reg))"
  using assms by (cases "(m, n)" rule: same_outcome.cases) auto

lemma same_units:
  assumes "codec = StH264 \<or> codec = StH265" and "same_env ev mx" and "list_all2 (same_unit codec) rs ps" and "same_video conn st"
  shows "same_outcome (rtsp_units_all ev b codec rs conn reg) (srt_pes_all mx b ps st reg)"
  using assms(3,4)
proof (induction rs ps arbitrary: conn st reg rule: list_all2_induct)
  case (Cons r rs p ps)
  have "same_outcome ((if codec = StH265 then process_hevc_nalus else process_h264_nalus) ev b r conn reg)
      (srt_process_pes mx b p st reg)"
    using assms(1) same_h264 [OF assms(2) Cons.prems] same_hevc [OF assms(2) Cons.prems] Cons.hyps(1)
    by (auto simp: srt_process_pes_def same_unit_def)
  from same_bind [OF this, of "rtsp_units_all ev b codec rs" "srt_pes_all mx b ps"] Cons.IH
  show ?case by simp
qed simp


definition alike_result :: depack_result where
  "alike_result = \<lparr>dr_nalus = [[0x67, 0x42, 0, 0x1F], [0x68, 0xCE], [0x65, 1]], dr_keyframe = True, dr_timestamp = 90000,
     dr_marker = True\<rparr>"

definition alike_pes :: pes_packet where
  "alike_pes = \<lparr>pes_pid = 256, pes_stream_type = StH264, pes_pts = Some 90000, pes_dts = None,
     pes_payload = [0, 0, 1, 0x67, 0x42, 0, 0x1F, 0, 0, 1, 0x68, 0xCE, 0, 0, 1, 0x65, 1]\<rparr>"

definition alike_env :: mux_env where
  "alike_env = \<lparr>mx_encode = ev_encode demo_env, mx_avcc_new = ev_avcc_new demo_env, mx_moof = ev_moof demo_env,
     mx_now_ms = ev_now_ms demo_env\<rparr>"


end
