(* ===== verification/Spec2Isabelle.thy ===== *)
theory Spec2Isabelle
  imports Aac Hevc Scte35 TsDemux AnnexB RtpAudio Fmp4 Mesh HlsServer RtspConn StreamKeys Webhook RtmpBridge IngestPaths
begin

text \<open>
  LVQR is a media server: it takes live streams over RTMP, WHIP, SRT, RTSP and WebSocket, turns them into
  CMAF fragments, and serves them over LL-HLS, DASH, WHEP, RTSP and MoQ, with a peer mesh of browsers
  behind it.  This library models the parts of it that decide what bytes and states result: the codec
  parsers, the demuxer and depacketizers on the way in, the fragment writers, the coalescer and the fragment
  registry in the middle, the packetizers, playlists and container readers on the way out, the three servers
  that take raw media in (RTSP from a request to its answer and from an RTP frame to a published fragment, SRT
  from a datagram, RTMP from the events of a session), the projection of a broadcast to MoQ tracks, the
  authentication providers, and the tree of the peer mesh.

  Conventions.  A Rust \<open>u8\<close> ... \<open>u64\<close> is a word of that width and wraps as in a release build; a \<open>usize\<close>
  is a \<open>nat\<close>; \<open>&[u8]\<close> and \<open>Bytes\<close> are byte lists (theory \<open>Prelude\<close>).  A function that can fail returns
  \<open>outcome\<close>: \<open>Ok\<close>, the source's \<open>Err\<close>, or \<open>Panic\<close> where the source indexes, slices, unwraps or asserts;
  every index and slice of the source is such an outcome in the model, so "never panics" is a theorem and
  not a convention.  A method with \<open>&mut self\<close> returns the new state.  Loops over a byte position are
  recursive functions with a termination proof (a measure on the bytes left), or, where the loop need not
  end on arbitrary input, \<open>partial_function (option)\<close>, and then termination is a theorem
  (\<open>h264_rtp_roundtrip\<close>, \<open>audio_segment_readable\<close>).  No definition uses fuel.  Where the source locks,
  an operation that other threads can interleave with is a list of atomic accesses, one per lock it takes,
  and the system is the transition relation of all calls (\<open>StreamKeys\<close>, \<open>Registry\<close>, \<open>Webhook\<close>).  Logging,
  metrics and capacity hints are left out.

  The theories, in the order of the data path, and what their lemmas show:

  \<^item> \<open>Prelude\<close>, \<open>Fmt\<close>: outcomes, checked indexing and slicing, big-endian integers and their inversion,
    decimal and hexadecimal printing; the locale of state machines with an invariant.
  \<^item> \<open>BitReader\<close> (\<open>lvqr-codec/src/bit_reader.rs\<close>, \<open>error.rs\<close>): the bit reader as a position in the bit
    stream of its bytes; Exp-Golomb and emulation prevention round trips.
  \<^item> \<open>Aac\<close>, \<open>Hevc\<close> (\<open>aac.rs\<close>, \<open>hevc.rs\<close>): the AudioSpecificConfig and SPS parsers invert the bit layouts of
    the standards, never panic, and accept only values in range.
  \<^item> \<open>Scte35\<close> (\<open>scte35.rs\<close>): splice sections; every single-byte corruption is rejected (linearity of the
    CRC), written splice inserts are read back.
  \<^item> \<open>TsDemux\<close> (\<open>ts.rs\<close>): the MPEG-TS demuxer; independence of the chunking of its input, reassembly of PES
    packets and of sections for every split over packets.
  \<^item> \<open>AnnexB\<close> (\<open>lvqr-whip/src/depack.rs\<close>, \<open>lvqr-srt/src/ingest.rs\<close>, \<open>lvqr-rtsp/src/fmp4.rs\<close>,
    \<open>lvqr-whep/src/rtp.rs\<close>, \<open>str0m_backend.rs\<close>): the five copies of NAL unit splitting against one
    specification of start codes and one of length prefixes; crossing from one to the other.
  \<^item> \<open>RtpWire\<close>, \<open>RtpVideo\<close>, \<open>RtpAudio\<close> (\<open>lvqr-rtsp/src/rtp.rs\<close>, \<open>lvqr-whep/src/rtp.rs\<close>): RTP framing and headers,
    and packetizers against depacketizers for H.264, HEVC, AAC and Opus, for every MTU.
  \<^item> \<open>Flv\<close> (\<open>lvqr-ingest/src/remux/flv.rs\<close>, \<open>lvqr-cli/src/ws.rs\<close>): RTMP tags and the AVCC record.
  \<^item> \<open>Mp4Read\<close> (\<open>lvqr-agent-whisper/src/asc.rs\<close>, \<open>mdat.rs\<close>, \<open>lvqr-rtsp/src/fmp4.rs\<close>, \<open>lvqr-cmaf/src/styp.rs\<close>): the
    box readers of the egress side.
  \<^item> \<open>Fmp4\<close> (\<open>lvqr-ingest/src/remux/fmp4.rs\<close>): the init and media segment writers, proved against the
    readers of \<open>Mp4Read\<close>.
  \<^item> \<open>Cmaf\<close> (\<open>lvqr-cmaf/src/policy.rs\<close>, \<open>coalescer.rs\<close>, \<open>segmenter.rs\<close>, \<open>chunk.rs\<close>, \<open>sample.rs\<close>): the boundary
    policy and the coalescer, refined to a one-pass specification of the batches.  The box encoder of the
    crate \<open>mp4-atom\<close> is a parameter; the hypothesis \<open>encoder_ok\<close> says that it writes one well-formed box
    whose length does not depend on the data offset, and a concrete encoder meets it.
  \<^item> \<open>Mesh\<close> (\<open>lvqr-mesh/src/coordinator.rs\<close>, \<open>tree.rs\<close>, handlers in \<open>lvqr-cli/src/lib.rs\<close> and \<open>ws.rs\<close>): the
    peer tree as a transition system, its limits and links as invariants of every reachable state, and
    exactly when a reassignment closes a cycle.

  \<^item> \<open>Calendar\<close>, \<open>HlsPlaylist\<close> (\<open>lvqr-hls/src/manifest.rs\<close>): the playlist builder as a transition system whose
    counters do not overflow, its window, the ledger of its URIs, delta playlists, the rendered lines, and
    the date formula.  Seconds values are exact rationals and printing them is not modelled.
  \<^item> \<open>HlsServer\<close> (\<open>lvqr-hls/src/server.rs\<close>): the builder with the byte cache; what the playlist lists is what
    is served.
  \<^item> \<open>Ustr\<close>, \<open>HashMap\<close>: the parts of Rust's \<open>str\<close> and \<open>HashMap\<close> that the text parsers use: UTF-8, splitting,
    trimming and numbers on lists of scalar values; a map whose iteration order is any permutation.
  \<^item> \<open>RtspProto\<close> (\<open>lvqr-rtsp/src/proto.rs\<close>): requests, responses and the Transport header; the request parser
    against the wire format, and exactly when it panics.
  \<^item> \<open>InitSegment\<close> (\<open>lvqr-cmaf/src/init.rs\<close>): init segments for AVC, HEVC, AAC and Opus, their codec strings and
    extractors.  The crate \<open>mp4-atom\<close> is a parameter; \<open>mp4_ok\<close> says that its decoder inverts its encoder.
  \<^item> \<open>Sdp\<close> (\<open>lvqr-rtsp/src/sdp.rs\<close>, \<open>session.rs\<close>): the description of a DESCRIBE against the track parser of an
    ANNOUNCE.
  \<^item> \<open>Auth\<close> (\<open>lvqr-auth/src/provider.rs\<close>, \<open>extract.rs\<close>, \<open>static_provider.rs\<close>, \<open>jwt_provider.rs\<close>, \<open>noop.rs\<close>): from
    what a protocol carries to a decision.  Verifying a signature is a parameter.
  \<^item> \<open>StreamKeys\<close> (\<open>stream_key_store.rs\<close>, \<open>multi_key_provider.rs\<close>, \<open>hot_reload_provider.rs\<close>): the two indexes of
    the key store, as functions and as interleaved accesses; the generator of tokens and identifiers is a
    parameter that does not repeat itself.
  \<^item> \<open>Webhook\<close> (\<open>webhook_provider.rs\<close>): the caching provider and its fetcher.  The HTTP call is a parameter with
    any reply; the liveness theorem assumes a fair scheduler (\<open>fair_run\<close>) and an HTTP call that returns.
  \<^item> \<open>Registry\<close> (\<open>lvqr-fragment/src/fragment.rs\<close>, \<open>broadcaster.rs\<close>, \<open>registry.rs\<close>, \<open>lvqr-ingest/src/dispatch.rs\<close>):
    fragments, broadcasters and the registry, as functions for a single caller and as interleaved accesses.
  \<^item> \<open>RtspServer\<close> (\<open>lvqr-rtsp/src/server.rs\<close>, \<open>session.rs\<close>): sessions, the request handlers, the way of an RTP frame
    to the registry, and the receive loop; \<open>RtspConn\<close> has the runs of a connection, with other writers of the
    registry in between: what they may publish, and how the loop cuts a read into events.  What a connection gets from outside (the clock, the provider, the
    owner resolver, the generator of session identifiers, the third-party encoders) is the record \<open>rtsp_env\<close>.
  \<^item> \<open>SrtIngest\<close> (\<open>lvqr-srt/src/ingest.rs\<close>): admission of a connection, and the way of its datagrams over the
    demuxer to init segments, fragments and splice sections; \<open>IngestPaths\<close> has the agreement of the RTSP and
    the SRT path.  \<open>mp4-atom\<close> and the clock are the record \<open>mux_env\<close>.
  \<^item> \<open>MoqSink\<close> (\<open>lvqr-fragment/src/moq_sink.rs\<close>, \<open>moq_timing_sink.rs\<close>, \<open>moq_stream.rs\<close>): fragments written to
    the groups of a MoQ track and read back, and the timing anchors.  The track is the crate \<open>moq-lite\<close>, the
    record \<open>moq_api\<close>; \<open>moq_ok\<close> says that groups are numbered in the order they are appended and that a frame
    goes to the end of its group, and the list of groups \<open>list_api\<close> meets it.
  \<^item> \<open>RtmpBridge\<close> (\<open>lvqr-ingest/src/bridge.rs\<close>, \<open>rtmp.rs\<close>, \<open>remux/catalog.rs\<close>): the callbacks of the bridge, the
    catalog, and the session loop over the events of the RTMP library, which is a parameter: what one read of
    the socket yields is a value of \<open>rtmp_read\<close>.  The media timestamps of RTMP wrap as in a release build.

  This theory joins them: an audio access unit from the RTMP tag to the RTSP subscriber's packet, and the
  chunks of a track from the coalescer into the playlist.

  The interfaces between components are locales: \<open>bit_decoder\<close> (what every parser over the bit
  reader keeps), \<open>resumable_splitter\<close> (the demuxer's resumption), the
  fragmenters of \<open>RtpVideo\<close> with three interpretations, \<open>stream_key_store\<close> (what a provider relies on in a
  catalogue of keys), and \<open>step_invariant\<close> for the transition systems.

  Not modelled, and why: code that drives sockets, HTTP routers, channels and threads (the accept loops
  and drain tasks of every protocol, the SRT socket, the admin API, configuration reload), code whose logic lies in
  third-party crates (RTMP chunks and handshake in rml_rtmp, WebRTC in str0m, gossip in chitchat, JWT and TLS, GStreamer, whisper, wasmtime,
  the database of the archive), and test support.  Where a modelled file also contains such code, the
  model takes its pure functions and handlers.
\<close>

section \<open>From the publisher's tag to the subscriber's packet\<close>

text \<open>
  C23. An AAC access unit survives the whole way from RTMP ingest to an RTSP subscriber: the FLV parser
  takes it out of the tag, the segment writer wraps it, the egress extractor takes it out of the segment,
  the packetizer sends it in one packet, and the receiver's depacketizer gives back exactly its bytes.
\<close>

theorem rtmp_to_rtsp_audio:
  assumes "lo < 16" and "frame \<noteq> []" and "length frame \<le> 8191"
  shows "\<exists>seg pkt pk' h. parse_audio_tag ([0xA0 OR lo, 1] @ frame) = Ok (RawAac frame) \<and>
    audio_segment sequence base_dts duration frame = Some (Ok seg) \<and>
    extract_mdat_body seg = Ok (Some frame) \<and>
    aac_packetize frame ts pk = Ok (pkt, pk') \<and> parse_rtp_header pkt = Ok (Some h) \<and>
    aac_depacketize (drop (rh_header_len h) pkt) h =
      Ok (Some \<lparr>ar_frames = [frame], ar_timestamp = ts, ar_marker = True\<rparr>)"
proof -
  have "length frame < 2 ^ 32 - 8" using assms(3) by simp
  from audio_segment_read [OF this, of sequence base_dts duration]
  obtain seg where "audio_segment sequence base_dts duration frame = Some (Ok seg)"
    "extract_mdat_body seg = Ok (Some frame)" by blast
  then show ?thesis
    using parse_raw_aac [OF assms(1,2)] aac_packet_read [OF assms(3), of ts pk] by blast
qed

theorem rtmp_to_rtsp_audio_witness:
  "\<exists>seg. parse_audio_tag [0xAF, 1, 0x21, 0x10] = Ok (RawAac [0x21, 0x10]) \<and>
    audio_segment 1 0 1024 [0x21, 0x10] = Some (Ok seg) \<and> extract_mdat_body seg = Ok (Some [0x21, 0x10])"
  using rtmp_to_rtsp_audio [of 15 "[0x21, 0x10]" 1 0 1024 0 "audio_packetizer_new 0 97 0"] by auto

section \<open>From the samples of a track to its playlist\<close>

lemma chunks_of_fields:
  "chunks_of enc track n bs = Ok cs \<Longrightarrow>
    map ck_dts cs = map (\<lambda>b. rs_dts (hd (snd b))) bs \<and>
    map ck_duration cs = map (\<lambda>b. sum_list (map (\<lambda>s. ucast (rs_duration s)) (snd b))) bs"
  by (induction enc track n bs arbitrary: cs rule: chunks_of.induct) (auto simp: obind_eq_Ok chunk_of_def)

lemma sorted_heads:
  "sorted (map f (concat bs)) \<Longrightarrow> \<forall>b\<in>set bs. b \<noteq> [] \<Longrightarrow> sorted (map (\<lambda>b. f (hd b)) bs)"
proof (induction bs)
  case (Cons b bs)
  then have "f (hd b) \<le> f x" if "x \<in> set (concat bs)" for x
    using that by (cases b) (auto simp: sorted_append)
  then show ?case using Cons by (auto simp: sorted_append)
qed simp

lemma sum_list_part:
  "b \<in> set bs \<Longrightarrow> sum_list (map f b) \<le> sum_list (map (f :: 'a \<Rightarrow> nat) (concat bs))"
  by (induction bs) auto

lemma unat_durations:
  "sum_list (map (unat \<circ> rs_duration) ss) < 2 ^ 64 \<Longrightarrow>
    unat (sum_list (map (\<lambda>s. ucast (rs_duration s) :: u64) ss)) = sum_list (map (unat \<circ> rs_duration) ss)"
  by (induction ss) (simp_all add: unat_word_ariths unat_ucast_u64)

text \<open>
  C22. The playlist never rejects what the coalescer emits: for a track whose samples are in decoding order,
  with durations that are positive and do not overflow in sum, every chunk is accepted, one after the
  other, without a monotonicity or a duration error.
\<close>

theorem coalesced_track_is_accepted:
  assumes "sorted (map rs_dts samples)" and "\<forall>s\<in>set samples. rs_duration s \<noteq> 0"
    and "sum_list (map (unat \<circ> rs_duration) samples) < 2 ^ 64"
    and "omap fst (coalesce enc (track_coalescer_new track p) samples) = Ok cs"
  shows "\<exists>b. push_all cs (playlist_builder_new cfg) = Ok b"
proof -
  let ?bs = "batches p None samples"
  have part: "concat (map snd ?bs) = samples" and ne: "\<forall>b\<in>set ?bs. snd b \<noteq> []"
    using batches_partition [of p None samples] by (simp_all add: list_all_iff)
  have "chunks_of enc track 1 ?bs = Ok cs" using assms(4) coalesce_new [of enc track p samples] by simp
  from chunks_of_fields [OF this]
  have dts: "map ck_dts cs = map (\<lambda>b. rs_dts (hd b)) (map snd ?bs)"
    and dur: "map ck_duration cs = map (\<lambda>b. sum_list (map (\<lambda>s. ucast (rs_duration s)) b)) (map snd ?bs)"
    by (simp_all add: comp_def)
  have mono: "sorted (map ck_dts cs)" unfolding dts by (rule sorted_heads) (use assms(1) part ne in auto)
  have "sum_list (map (\<lambda>s. ucast (rs_duration s) :: u64) b) \<noteq> 0" if b: "b \<in> set (map snd ?bs)" for b
  proof -
    have "sum_list (map (unat \<circ> rs_duration) b) \<le> sum_list (map (unat \<circ> rs_duration) (concat (map snd ?bs)))"
      by (rule sum_list_part [OF b])
    then have u: "unat (sum_list (map (\<lambda>s. ucast (rs_duration s) :: u64) b)) = sum_list (map (unat \<circ> rs_duration) b)"
      using assms(3) part by (intro unat_durations) simp
    have "b \<noteq> []" using b ne by auto
    then obtain s ss where s: "b = s # ss" by (cases b) auto
    then have "s \<in> set (concat (map snd ?bs))" using b by force
    then have "0 < unat (rs_duration s)" using assms(2) part by (simp add: unat_gt_0)
    then have "0 < sum_list (map (unat \<circ> rs_duration) b)" using s by simp
    with u have "0 < unat (sum_list (map (\<lambda>s. ucast (rs_duration s) :: u64) b))" by (simp only:)
    then show ?thesis by (metis unsigned_0 less_irrefl)
  qed
  note pos = this
  have "\<forall>c\<in>set cs. ck_duration c \<noteq> 0"
  proof
    fix c assume "c \<in> set cs"
    then have "ck_duration c \<in> set (map ck_duration cs)" unfolding set_map by (rule imageI)
    then have "ck_duration c \<in> (\<lambda>b. sum_list (map (\<lambda>s. ucast (rs_duration s)) b)) ` set (map snd ?bs)"
      unfolding dur by (simp only: set_map)
    then show "ck_duration c \<noteq> 0" by (elim imageE) (simp only: pos not_False_eq_True)
  qed
  moreover have "pb_last_dts (playlist_builder_new cfg) = None" by (simp add: playlist_builder_new_def Let_def)
  ultimately show ?thesis using mono push_all_accepts [of cs "playlist_builder_new cfg"]
    by (metis option.distinct(1))
qed

theorem coalesced_track_is_accepted_witness:
  "\<exists>cs b. omap fst (coalesce flat_encoder (track_coalescer_new 1 VIDEO_90KHZ_DEFAULT) example_samples) = Ok cs \<and>
    push_all cs (playlist_builder_new playlist_builder_config_default) = Ok b"
proof -
  have e: "length example_samples = 3" "media example_samples = [1, 2, 3, 4]"
    "sorted (map rs_dts example_samples)" "\<forall>s\<in>set example_samples. rs_duration s \<noteq> 0"
    "sum_list (map (unat \<circ> rs_duration) example_samples) = 9000"
    by (simp_all add: example_samples_def media_def sample_keyframe_def sample_delta_def word_le_nat_alt)
  have "\<exists>cs. omap fst (coalesce flat_encoder (track_coalescer_new 1 VIDEO_90KHZ_DEFAULT) example_samples) = Ok cs"
    using coalescer_bodies [OF flat_encoder_ok, of example_samples 1 VIDEO_90KHZ_DEFAULT] e(1,2) by auto
  then show ?thesis using coalesced_track_is_accepted [OF e(3,4)] e(5) by fastforce
qed

end
